(* ===== verification/Prelude.thy ===== *)
theory Prelude
  imports Main "HOL-Library.Word" "HOL-Library.Code_Target_Nat"
begin

text \<open>
  Shared vocabulary of the development: the machine integer types of the Rust source, the
  arithmetic the source uses on them (wrapping, saturating, checked), results with errors and
  panics as values, and the generic lemmas on lists and words that the component theories use.

  Arithmetic follows the release profile of the crate (\<^verbatim>\<open>Cargo.toml\<close>, no
  \<^verbatim>\<open>overflow-checks\<close>): plain \<^verbatim>\<open>+\<close> and \<^verbatim>\<open>-\<close> on \<^verbatim>\<open>u64\<close> and \<^verbatim>\<open>usize\<close>
  wrap modulo \<open>2 ^ 64\<close>; \<^verbatim>\<open>debug_assert!\<close> is not compiled in.  \<^verbatim>\<open>usize\<close> is taken to be
  64 bits wide.  Instants and durations are natural numbers of nanoseconds, and
  \<^verbatim>\<open>Instant::elapsed\<close> saturates at zero, which is what subtraction on \<^typ>\<open>nat\<close> does.
\<close>

section \<open>Machine types\<close>

type_synonym u8 = "8 word"
type_synonym u16 = "16 word"
type_synonym u32 = "32 word"
type_synonym u64 = "64 word"

type_synonym bytes = "u8 list"
type_synonym instant = nat
type_synonym duration = nat

named_theorems u64_arith \<open>wrapping arithmetic where no wrap-around happens\<close>
named_theorems step_inv \<open>invariants kept by one operation\<close>

abbreviation u64_modulus :: nat where
  "u64_modulus \<equiv> 2 ^ 64"

abbreviation u64_max :: nat where
  "u64_max \<equiv> 2 ^ 64 - 1"

text \<open>Offsets, counters and lengths of the QUIC core are \<^verbatim>\<open>u64\<close> values read as natural numbers,
  with the wrap-around of \<^verbatim>\<open>+\<close> and \<^verbatim>\<open>-\<close> written out.\<close>

definition u64_add :: "nat \<Rightarrow> nat \<Rightarrow> nat" where
  "u64_add a b = (a + b) mod 2 ^ 64"

definition u64_sub :: "nat \<Rightarrow> nat \<Rightarrow> nat" where
  "u64_sub a b = (if b \<le> a then a - b else (a + 2 ^ 64 - b) mod 2 ^ 64)"

definition u64_sat_add :: "nat \<Rightarrow> nat \<Rightarrow> nat" where
  "u64_sat_add a b = min (a + b) (2 ^ 64 - 1)"

definition checked_sub :: "nat \<Rightarrow> nat \<Rightarrow> nat option" where
  "checked_sub a b = (if b \<le> a then Some (a - b) else None)"

lemma u64_add_eq [u64_arith]: "a + b < 2 ^ 64 \<Longrightarrow> u64_add a b = a + b"
  by (simp add: u64_add_def)

lemma u64_add_less: "u64_add a b < 2 ^ 64"
  by (simp add: u64_add_def)

lemma u64_sub_eq [u64_arith]: "b \<le> a \<Longrightarrow> u64_sub a b = a - b"
  by (simp add: u64_sub_def)

lemma u64_sat_add_eq [u64_arith]: "a + b < 2 ^ 64 \<Longrightarrow> u64_sat_add a b = a + b"
  by (simp add: u64_sat_add_def)

lemma checked_sub_Some_iff: "checked_sub a b = Some c \<longleftrightarrow> b \<le> a \<and> c = a - b"
  by (auto simp: checked_sub_def)

lemma checked_sub_None_iff: "checked_sub a b = None \<longleftrightarrow> a < b"
  by (auto simp: checked_sub_def)

section \<open>Results\<close>

text \<open>
  A Rust \<^verbatim>\<open>Result\<close> is a sum with the error on the left.  A method \<^verbatim>\<open>fn f(&mut self, ..) -> Result\<close>
  is a function of the state that returns the result together with the state it leaves behind,
  since an early return by \<^verbatim>\<open>?\<close> keeps the mutations made before it.  Where the code can panic
  the error is a \<open>failure\<close>.
\<close>

datatype 'e failure = Err 'e | Panic

type_synonym ('s, 'e, 'a) op = "'s \<Rightarrow> ('e + 'a) \<times> 's"

definition op_ret :: "'a \<Rightarrow> ('s, 'e, 'a) op" where
  "op_ret x s = (Inr x, s)"

definition op_throw :: "'e \<Rightarrow> ('s, 'e, 'a) op" where
  "op_throw e s = (Inl e, s)"

definition op_bind :: "('s, 'e, 'a) op \<Rightarrow> ('a \<Rightarrow> ('s, 'e, 'b) op) \<Rightarrow> ('s, 'e, 'b) op" where
  "op_bind m f s = (case m s of (Inl e, s') \<Rightarrow> (Inl e, s') | (Inr x, s') \<Rightarrow> f x s')"

definition op_when :: "bool \<Rightarrow> ('s, 'e, unit) op \<Rightarrow> ('s, 'e, unit) op" where
  "op_when b m s = (if b then m s else (Inr (), s))"

lemma op_when_apply [simp]:
  "op_when True m s = m s" "op_when False m s = (Inr (), s)"
  by (simp_all add: op_when_def)

lemma op_ret_apply [simp]: "op_ret x s = (Inr x, s)"
  by (simp add: op_ret_def)

lemma op_throw_apply [simp]: "op_throw e s = (Inl e, s)"
  by (simp add: op_throw_def)

lemma op_bind_Inl [simp]: "m s = (Inl e, s') \<Longrightarrow> op_bind m f s = (Inl e, s')"
  by (simp add: op_bind_def)

lemma op_bind_Inr [simp]: "m s = (Inr x, s') \<Longrightarrow> op_bind m f s = f x s'"
  by (simp add: op_bind_def)

lemma op_bind_eq_Inr_iff:
  "op_bind m f s = (Inr y, s'') \<longleftrightarrow> (\<exists>x s'. m s = (Inr x, s') \<and> f x s' = (Inr y, s''))"
  by (auto simp: op_bind_def split: prod.splits sum.splits)

lemma op_bind_assoc: "op_bind (op_bind m f) g = op_bind m (\<lambda>x. op_bind (f x) g)"
  by (rule ext) (auto simp: op_bind_def split: prod.splits sum.splits)

text \<open>Total correctness of a fallible operation: from a state with \<open>P\<close> it succeeds and establishes \<open>Q\<close>.\<close>

definition op_total :: "('s \<Rightarrow> bool) \<Rightarrow> ('s, 'e, 'a) op \<Rightarrow> ('a \<Rightarrow> 's \<Rightarrow> bool) \<Rightarrow> bool" where
  "op_total P m Q \<longleftrightarrow> (\<forall>s. P s \<longrightarrow> (\<exists>x s'. m s = (Inr x, s') \<and> Q x s'))"

lemma op_totalI: "(\<And>s. P s \<Longrightarrow> \<exists>x s'. m s = (Inr x, s') \<and> Q x s') \<Longrightarrow> op_total P m Q"
  by (simp add: op_total_def)

lemma op_totalD: "op_total P m Q \<Longrightarrow> P s \<Longrightarrow> \<exists>x s'. m s = (Inr x, s') \<and> Q x s'"
  by (simp add: op_total_def)

lemma op_total_bind: "op_total P m R \<Longrightarrow> (\<And>x. op_total (R x) (f x) Q) \<Longrightarrow> op_total P (op_bind m f) Q"
  unfolding op_total_def by (metis op_bind_Inr)

lemma op_total_when:
  "(b \<Longrightarrow> op_total P m (\<lambda>_. Q)) \<Longrightarrow> (\<And>s. \<not> b \<Longrightarrow> P s \<Longrightarrow> Q s) \<Longrightarrow> op_total P (op_when b m) (\<lambda>_. Q)"
  by (cases b) (simp_all add: op_total_def)

section \<open>Transition systems\<close>

text \<open>The states a component can be brought into, for components given by an initial condition and a
  labelled step relation.\<close>

inductive reachable :: "('s \<Rightarrow> bool) \<Rightarrow> ('s \<Rightarrow> 'l \<Rightarrow> 's \<Rightarrow> bool) \<Rightarrow> 's \<Rightarrow> bool" for init step where
  reach_init: "init s \<Longrightarrow> reachable init step s"
| reach_step: "reachable init step s \<Longrightarrow> step s l s' \<Longrightarrow> reachable init step s'"

lemma reachable_invariant:
  assumes "reachable init step s" and "\<And>s. init s \<Longrightarrow> P s" and "\<And>s l s'. P s \<Longrightarrow> step s l s' \<Longrightarrow> P s'"
  shows "P s"
  using assms(1) by induction (use assms(2,3) in blast)+

section \<open>Lists\<close>

text \<open>\<^verbatim>\<open>slice::chunks(n)\<close>: consecutive pieces of length \<open>n\<close>, the last one possibly shorter.
  The caller handles \<open>n = 0\<close>, on which the Rust method panics.\<close>

function chunks :: "nat \<Rightarrow> 'a list \<Rightarrow> 'a list list" where
  "chunks n xs = (if xs = [] \<or> n = 0 then [] else take n xs # chunks n (drop n xs))"
  by pat_completeness auto
termination
  by (relation "measure (\<lambda>(n, xs). length xs)") auto

declare chunks.simps [simp del]

lemma chunks_Nil [simp]: "chunks n [] = []"
  by (simp add: chunks.simps)

lemma chunks_step: "0 < n \<Longrightarrow> xs \<noteq> [] \<Longrightarrow> chunks n xs = take n xs # chunks n (drop n xs)"
  by (subst chunks.simps) simp

lemma concat_chunks: "0 < n \<Longrightarrow> concat (chunks n xs) = xs"
proof (induction n xs rule: chunks.induct)
  case (1 n xs)
  then show ?case by (cases "xs = []") (simp_all add: chunks_step)
qed

lemma chunks_bounds: "c \<in> set (chunks n xs) \<Longrightarrow> c \<noteq> [] \<and> length c \<le> n"
proof (induction n xs rule: chunks.induct)
  case (1 n xs)
  then show ?case
    by (cases "xs = [] \<or> n = 0") (auto simp: chunks_step chunks.simps [of n xs])
qed

lemma length_chunks_le: "0 < n \<Longrightarrow> length xs \<le> n * k \<Longrightarrow> length (chunks n xs) \<le> k"
proof (induction k arbitrary: xs)
  case (Suc k)
  then show ?case by (cases "xs = []") (simp_all add: chunks_step)
qed simp

lemma drop_chunks_ne: "xs \<noteq> [] \<Longrightarrow> 0 < n \<Longrightarrow> chunks n xs \<noteq> []"
  by (simp add: chunks_step)

text \<open>Index of the first element that satisfies a predicate: \<^verbatim>\<open>iter().position(..)\<close>.\<close>

fun position :: "('a \<Rightarrow> bool) \<Rightarrow> 'a list \<Rightarrow> nat option" where
  "position P [] = None"
| "position P (x # xs) = (if P x then Some 0 else map_option Suc (position P xs))"

definition insert_at :: "nat \<Rightarrow> 'a \<Rightarrow> 'a list \<Rightarrow> 'a list" where
  "insert_at i x xs = take i xs @ x # drop i xs"

definition remove_at :: "nat \<Rightarrow> 'a list \<Rightarrow> 'a list" where
  "remove_at i xs = take i xs @ drop (Suc i) xs"

lemma position_None_iff: "position P xs = None \<longleftrightarrow> (\<forall>x\<in>set xs. \<not> P x)"
  by (induction xs) auto

lemma position_SomeD:
  "position P xs = Some i \<Longrightarrow> i < length xs \<and> P (xs ! i) \<and> (\<forall>j<i. \<not> P (xs ! j))"
proof (induction xs arbitrary: i)
  case Nil
  then show ?case by simp
next
  case (Cons x xs)
  show ?case
  proof (cases "P x")
    case True
    with Cons.prems show ?thesis by simp
  next
    case False
    with Cons.prems obtain k where k: "position P xs = Some k" "i = Suc k" by auto
    from Cons.IH [OF k(1)] False k(2) show ?thesis
      by (auto simp: less_Suc_eq_0_disj)
  qed
qed

lemma take_conv_map_nth: "n \<le> length xs \<Longrightarrow> take n xs = map ((!) xs) [0..<n]"
  by (rule nth_equalityI) auto

lemma position_map: "position P (map f xs) = position (P \<circ> f) xs"
  by (induction xs) auto

lemma position_cong: "(\<And>x. x \<in> set xs \<Longrightarrow> P x = Q x) \<Longrightarrow> position P xs = position Q xs"
  by (induction xs) auto

lemma length_insert_at [simp]: "length (insert_at i x xs) = Suc (length xs)"
  by (simp add: insert_at_def)

lemma set_insert_at [simp]: "set (insert_at i x xs) = insert x (set xs)"
proof -
  have "set (insert_at i x xs) = insert x (set (take i xs @ drop i xs))"
    by (simp add: insert_at_def del: append_take_drop_id)
  also have "\<dots> = insert x (set xs)"
    by (simp only: append_take_drop_id)
  finally show ?thesis .
qed

lemma length_remove_at [simp]: "i < length xs \<Longrightarrow> length (remove_at i xs) = length xs - 1"
  by (simp add: remove_at_def)

lemma set_remove_at_subset: "set (remove_at i xs) \<subseteq> set xs"
  by (auto simp: remove_at_def dest: in_set_takeD in_set_dropD)

lemma set_remove_at_distinct:
  assumes "distinct xs" and "i < length xs"
  shows "set (remove_at i xs) = set xs - {xs ! i}"
proof -
  have split: "xs = take i xs @ xs ! i # drop (Suc i) xs"
    using assms(2) by (rule id_take_nth_drop)
  then have "distinct (take i xs @ xs ! i # drop (Suc i) xs)"
    using assms(1) by simp
  then have "set (take i xs @ drop (Suc i) xs)
      = set (take i xs @ xs ! i # drop (Suc i) xs) - {xs ! i}"
    by auto
  then show ?thesis unfolding remove_at_def using split by simp
qed

section \<open>Words\<close>

lemma word8_unat_less [simp]: "unat (b :: u8) < 256"
  using unsigned_less [of b] by simp

lemma word16_unat_less [simp]: "unat (b :: u16) < 65536"
  using unsigned_less [of b] by simp

lemma unat_of_nat_less: "n < 2 ^ LENGTH('a) \<Longrightarrow> unat (of_nat n :: 'a::len word) = n"
  by (simp add: unsigned_of_nat take_bit_nat_eq_self)

end
