(* ===== verification/Range_Set.thy ===== *)
theory Range_Set
  imports Prelude
begin

text \<open>
  What the two range sets of \<^verbatim>\<open>src/src/range_set/\<close> have in common: half-open ranges of \<^verbatim>\<open>u64\<close>
  values, the canonical form both representations keep (sorted, non-empty, pairwise separated by a
  gap) and the set of values a representation stands for.  The public operations are the locale
  \<open>range_set\<close>, with the laws a client relies on; both implementations interpret it.
\<close>

section \<open>Ranges and their canonical form\<close>

type_synonym range = "nat \<times> nat"

definition range_empty :: "range \<Rightarrow> bool" where
  "range_empty r \<longleftrightarrow> snd r \<le> fst r"

definition range_elems :: "range \<Rightarrow> nat set" where
  "range_elems r = {fst r..<snd r}"

lemma range_elems_mem: "x \<in> range_elems (a, b) \<longleftrightarrow> a \<le> x \<and> x < b"
  by (simp add: range_elems_def)

text \<open>The elements of a list at the positions of a range.\<close>

definition byte_slice :: "'a list \<Rightarrow> range \<Rightarrow> 'a list" where
  "byte_slice w r = take (snd r - fst r) (drop (fst r) w)"

lemma byte_slice_split: "n \<le> e - s \<Longrightarrow> take n (drop s w) @ byte_slice w (s + n, e) = byte_slice w (s, e)"
  by (simp add: byte_slice_def) (metis add_diff_inverse_nat drop_drop le_add_diff_inverse le_diff_conv2
      add.commute diff_diff_add not_less take_add)

lemma byte_slice_append: "a \<le> b \<Longrightarrow> b \<le> c \<Longrightarrow> byte_slice w (a, b) @ byte_slice w (b, c) = byte_slice w (a, c)"
  using byte_slice_split [of "b - a" c a w] by (simp add: byte_slice_def)

lemma length_byte_slice [simp]: "snd r \<le> length w \<Longrightarrow> length (byte_slice w r) = snd r - fst r"
  by (simp add: byte_slice_def)

lemma byte_slice_empty_iff: "b \<le> length w \<Longrightarrow> byte_slice w (a, b) = [] \<longleftrightarrow> b \<le> a"
  by (auto simp: byte_slice_def)

lemma drop_byte_slice: "drop n (byte_slice w (a, b)) = byte_slice w (a + n, b)"
  by (simp add: byte_slice_def drop_take add.commute)

lemma take_byte_slice: "a + n \<le> b \<Longrightarrow> take n (byte_slice w (a, b)) = byte_slice w (a, a + n)"
  by (simp add: byte_slice_def min_def)

definition ranges_elems :: "range list \<Rightarrow> nat set" where
  "ranges_elems rs = (\<Union>r\<in>set rs. range_elems r)"

definition separated :: "range \<Rightarrow> range \<Rightarrow> bool" where
  "separated a b \<longleftrightarrow> snd a < fst b"

text \<open>The invariant of the representations: no empty range, and each range ends strictly before the
  next one starts (touching ranges are merged).\<close>

fun ranges_ok :: "range list \<Rightarrow> bool" where
  "ranges_ok [] = True"
| "ranges_ok [r] = (fst r < snd r)"
| "ranges_ok (r # s # rs) = (fst r < snd r \<and> snd r < fst s \<and> ranges_ok (s # rs))"

lemma ranges_elems_simps [simp]:
  "ranges_elems [] = {}"
  "ranges_elems (r # rs) = {fst r..<snd r} \<union> ranges_elems rs"
  "ranges_elems (xs @ ys) = ranges_elems xs \<union> ranges_elems ys"
  by (auto simp: ranges_elems_def range_elems_def)

lemma ranges_ok_Cons:
  "ranges_ok (r # rs) \<longleftrightarrow> fst r < snd r \<and> (\<forall>s\<in>set rs. snd r < fst s) \<and> ranges_ok rs"
proof (induction rs arbitrary: r)
  case (Cons s rs)
  show ?case
  proof
    assume a: "ranges_ok (r # s # rs)"
    then have s: "fst s < snd s" "\<forall>t\<in>set rs. snd s < fst t" using Cons [of s] by auto
    with a show "fst r < snd r \<and> (\<forall>s\<in>set (s # rs). snd r < fst s) \<and> ranges_ok (s # rs)"
      by fastforce
  qed simp
qed simp

lemma ranges_ok_append:
  "ranges_ok (xs @ ys) \<longleftrightarrow> ranges_ok xs \<and> ranges_ok ys \<and> (\<forall>a\<in>set xs. \<forall>b\<in>set ys. snd a < fst b)"
  by (induction xs) (auto simp: ranges_ok_Cons simp del: ranges_ok.simps(2,3))

declare ranges_ok.simps(2,3) [simp del]

lemmas ranges_ok_simps = ranges_ok_Cons ranges_ok_append

lemma ranges_okD: "ranges_ok rs \<Longrightarrow> r \<in> set rs \<Longrightarrow> fst r < snd r"
  by (induction rs) (auto simp: ranges_ok_Cons)

lemma ranges_elems_iff: "x \<in> ranges_elems rs \<longleftrightarrow> (\<exists>r\<in>set rs. fst r \<le> x \<and> x < snd r)"
  by (auto simp: ranges_elems_def range_elems_def)

lemma ranges_elems_empty_iff: "ranges_ok rs \<Longrightarrow> ranges_elems rs = {} \<longleftrightarrow> rs = []"
  by (cases rs) (auto simp: ranges_ok_Cons)

lemma finite_ranges_elems [simp]: "finite (ranges_elems rs)"
  by (simp add: ranges_elems_def range_elems_def)

lemma ranges_elems_gap:
  "\<forall>s\<in>set rs. n < fst s \<Longrightarrow> x \<in> ranges_elems rs \<Longrightarrow> n < x"
  by (auto simp: ranges_elems_iff)

text \<open>The canonical form is unique: two canonical lists with the same values are equal.\<close>

lemma ranges_ok_head:
  assumes "ranges_ok (r # rs)"
  shows "Min (ranges_elems (r # rs)) = fst r"
    and "\<And>x. fst r \<le> x \<Longrightarrow> x < snd r \<Longrightarrow> x \<in> ranges_elems (r # rs)"
    and "snd r \<notin> ranges_elems (r # rs)"
proof -
  from assms have r: "fst r < snd r" and gap: "\<forall>s\<in>set rs. snd r < fst s"
    by (auto simp: ranges_ok_Cons)
  show "Min (ranges_elems (r # rs)) = fst r"
    by (rule Min_eqI) (use r gap in \<open>auto dest: ranges_elems_gap [rotated]\<close>)
  show "x \<in> ranges_elems (r # rs)" if "fst r \<le> x" "x < snd r" for x using that by simp
  show "snd r \<notin> ranges_elems (r # rs)"
    using gap by (auto dest: ranges_elems_gap [rotated])
qed

lemma ranges_ok_unique:
  "ranges_ok rs \<Longrightarrow> ranges_ok ss \<Longrightarrow> ranges_elems rs = ranges_elems ss \<Longrightarrow> rs = ss"
proof (induction rs arbitrary: ss)
  case Nil
  then show ?case using ranges_elems_empty_iff [of ss] by simp
next
  case (Cons r rs)
  then obtain s ss' where ss: "ss = s # ss'"
    using ranges_elems_empty_iff [of "r # rs"] by (cases ss) auto
  note ok = Cons.prems(1) Cons.prems(2) [unfolded ss]
  have eq: "ranges_elems (r # rs) = ranges_elems (s # ss')" using Cons.prems(3) ss by simp
  have fst_eq: "fst r = fst s" using ranges_ok_head(1) [OF ok(1)] ranges_ok_head(1) [OF ok(2)] eq by simp
  have "\<not> snd r < snd s"
    using ranges_ok_head(2) [OF ok(2), of "snd r"] ranges_ok_head(3) [OF ok(1)] eq fst_eq ok(1)
    by (auto simp: ranges_ok_Cons)
  moreover have "\<not> snd s < snd r"
    using ranges_ok_head(2) [OF ok(1), of "snd s"] ranges_ok_head(3) [OF ok(2)] eq fst_eq ok(2)
    by (auto simp: ranges_ok_Cons)
  ultimately have rs: "r = s" using fst_eq by (simp add: prod_eq_iff)
  have disj: "ranges_elems ts \<inter> {fst t..<snd t} = {}" if "ranges_ok (t # ts)" for t ts
    using that by (auto simp: ranges_ok_Cons dest: ranges_elems_gap [rotated])
  have "ranges_elems rs = ranges_elems ss'"
    using eq disj [OF ok(1)] disj [OF ok(2)] unfolding rs by auto
  then show ?case using Cons.IH [of ss'] ok by (simp add: ss rs ranges_ok_Cons)
qed

section \<open>The interface\<close>

text \<open>A sequence of mutations, run on a representation and on the set it stands for.  Each step reports
  what the Rust method returns: whether the set grew, or whether anything was removed.\<close>

datatype range_op = Insert range | Remove range

fun run_range_ops :: "('s \<Rightarrow> range \<Rightarrow> bool \<times> 's) \<Rightarrow> ('s \<Rightarrow> range \<Rightarrow> bool \<times> 's)
    \<Rightarrow> range_op list \<Rightarrow> 's \<Rightarrow> bool list \<times> 's" where
  "run_range_ops ins rem [] s = ([], s)"
| "run_range_ops ins rem (Insert r # ops) s =
     (let (b, s') = ins s r; (bs, s'') = run_range_ops ins rem ops s' in (b # bs, s''))"
| "run_range_ops ins rem (Remove r # ops) s =
     (let (b, s') = rem s r; (bs, s'') = run_range_ops ins rem ops s' in (b # bs, s''))"

definition set_insert_range :: "nat set \<Rightarrow> range \<Rightarrow> bool \<times> nat set" where
  "set_insert_range S r = (\<not> range_elems r \<subseteq> S, S \<union> range_elems r)"

definition set_remove_range :: "nat set \<Rightarrow> range \<Rightarrow> bool \<times> nat set" where
  "set_remove_range S r = (range_elems r \<inter> S \<noteq> {}, S - range_elems r)"

locale range_set =
  fixes inv :: "'s \<Rightarrow> bool"
    and elems :: "'s \<Rightarrow> nat set"
    and empty :: 's
    and contains :: "'s \<Rightarrow> nat \<Rightarrow> bool"
    and insert_range :: "'s \<Rightarrow> range \<Rightarrow> bool \<times> 's"
    and remove_range :: "'s \<Rightarrow> range \<Rightarrow> bool \<times> 's"
    and min_elt :: "'s \<Rightarrow> nat option"
    and max_elt :: "'s \<Rightarrow> nat option"
    and pop_min :: "'s \<Rightarrow> range option \<times> 's"
  assumes inv_empty: "inv empty"
    and elems_empty: "elems empty = {}"
    and finite_elems: "finite (elems s)"
    and contains_iff: "inv s \<Longrightarrow> contains s x \<longleftrightarrow> x \<in> elems s"
    and inv_insert: "inv s \<Longrightarrow> inv (snd (insert_range s r))"
    and elems_insert: "inv s \<Longrightarrow> elems (snd (insert_range s r)) = elems s \<union> range_elems r"
    and insert_new: "inv s \<Longrightarrow> fst (insert_range s r) \<longleftrightarrow> \<not> range_elems r \<subseteq> elems s"
    and inv_remove: "inv s \<Longrightarrow> inv (snd (remove_range s r))"
    and elems_remove: "inv s \<Longrightarrow> elems (snd (remove_range s r)) = elems s - range_elems r"
    and remove_hit: "inv s \<Longrightarrow> fst (remove_range s r) \<longleftrightarrow> range_elems r \<inter> elems s \<noteq> {}"
    and min_elt_eq: "inv s \<Longrightarrow> min_elt s = (if elems s = {} then None else Some (Min (elems s)))"
    and max_elt_eq: "inv s \<Longrightarrow> max_elt s = (if elems s = {} then None else Some (Max (elems s)))"
    and pop_min_None: "inv s \<Longrightarrow> elems s = {} \<Longrightarrow> pop_min s = (None, s)"
    and pop_min_Some: "inv s \<Longrightarrow> elems s \<noteq> {} \<Longrightarrow> \<exists>r s'. pop_min s = (Some r, s') \<and> inv s'
        \<and> fst r = Min (elems s) \<and> fst r < snd r \<and> snd r \<notin> elems s
        \<and> elems s = range_elems r \<union> elems s' \<and> range_elems r \<inter> elems s' = {}"
begin

lemmas range_laws = inv_insert elems_insert insert_new inv_remove elems_remove remove_hit

lemma run_refines:
  "inv s \<Longrightarrow> inv (snd (run_range_ops insert_range remove_range ops s))
    \<and> run_range_ops set_insert_range set_remove_range ops (elems s)
      = map_prod id elems (run_range_ops insert_range remove_range ops s)"
proof (induction ops arbitrary: s)
  case (Cons op ops)
  show ?case
  proof (cases op)
    case (Insert r)
    then show ?thesis
      using Cons.IH [OF inv_insert [OF Cons.prems]] Cons.prems
      by (simp add: case_prod_beta Let_def set_insert_range_def [where r = r] range_laws map_prod_def)
  next
    case (Remove r)
    then show ?thesis
      using Cons.IH [OF inv_remove [OF Cons.prems]] Cons.prems
      by (simp add: case_prod_beta Let_def set_remove_range_def [where r = r] range_laws map_prod_def)
  qed
qed simp

lemma min_elt_lower:
  assumes "inv s" "\<forall>x\<in>elems s. b \<le> x"
  shows "min_elt s = Some b \<longleftrightarrow> b \<in> elems s"
proof
  assume "min_elt s = Some b"
  then show "b \<in> elems s"
    using Min_in [OF finite_elems [of s]] assms(1) by (auto simp: min_elt_eq split: if_splits)
next
  assume b: "b \<in> elems s"
  then have "Min (elems s) = b" using assms(2) finite_elems by (intro Min_eqI) auto
  then show "min_elt s = Some b" using b assms(1) by (auto simp: min_elt_eq)
qed

lemma insert_contains:
  "inv s \<Longrightarrow> contains (snd (insert_range s r)) x \<longleftrightarrow> contains s x \<or> fst r \<le> x \<and> x < snd r"
  by (auto simp: contains_iff inv_insert elems_insert range_elems_def)

lemma remove_contains:
  "inv s \<Longrightarrow> contains (snd (remove_range s r)) x \<longleftrightarrow> contains s x \<and> \<not> (fst r \<le> x \<and> x < snd r)"
  by (auto simp: contains_iff inv_remove elems_remove range_elems_def)

lemma insert_twice: "inv s \<Longrightarrow> \<not> fst (insert_range (snd (insert_range s r)) r)"
  by (simp add: range_laws)

lemma insert_all:
  "inv s \<Longrightarrow> inv (fold (\<lambda>r t. snd (insert_range t r)) rs s)
     \<and> elems (fold (\<lambda>r t. snd (insert_range t r)) rs s) = elems s \<union> ranges_elems rs"
  by (induction rs arbitrary: s) (auto simp: range_laws range_elems_def)

lemma remove_all:
  "inv s \<Longrightarrow> inv (fold (\<lambda>r t. snd (remove_range t r)) rs s)
     \<and> elems (fold (\<lambda>r t. snd (remove_range t r)) rs s) = elems s - ranges_elems rs"
  by (induction rs arbitrary: s) (auto simp: range_laws range_elems_def)

end

end
