(* ===== verification/Array_Range_Set.thy ===== *)
theory Array_Range_Set
  imports Range_Set
begin

text \<open>
  \<^verbatim>\<open>ArrayRangeSet\<close> of \<^verbatim>\<open>src/src/range_set/array_range_set.rs\<close>: a vector of ranges.  The loops of
  the source walk an index through the vector; here they recurse over the remaining suffix, and
  the ranges already passed stay in front.
\<close>

type_synonym array_range_set = "range list"

section \<open>Operations\<close>

definition array_new :: array_range_set where
  "array_new = []"

definition array_is_empty :: "array_range_set \<Rightarrow> bool" where
  "array_is_empty s \<longleftrightarrow> s = []"

definition array_len :: "array_range_set \<Rightarrow> nat" where
  "array_len s = length s"

definition array_elts :: "array_range_set \<Rightarrow> nat list" where
  "array_elts s = concat (map (\<lambda>r. [fst r..<snd r]) s)"

text \<open>\<^verbatim>\<open>partition_point\<close> on a vector sorted by start is the number of leading ranges that start
  at or before \<open>x\<close>.\<close>

definition array_contains :: "array_range_set \<Rightarrow> nat \<Rightarrow> bool" where
  "array_contains s x =
     (let idx = length (takeWhile (\<lambda>r. fst r \<le> x) s) in
      if idx = 0 then False
      else fst (s ! (idx - 1)) \<le> x \<and> x < snd (s ! (idx - 1)))"

fun array_merge :: "range \<Rightarrow> range list \<Rightarrow> range list" where
  "array_merge r [] = [r]"
| "array_merge r (n # ns) =
     (if fst n \<le> snd r then array_merge (fst r, max (snd n) (snd r)) ns else r # n # ns)"

fun array_insert_loop :: "range list \<Rightarrow> range \<Rightarrow> bool \<Rightarrow> bool \<times> range list" where
  "array_insert_loop [] x result = (True, [x])"
| "array_insert_loop (r # rs) x result =
     (if snd x < fst r then (True, x # r # rs)
      else
        let result = (if fst x < fst r then True else result);
            r = (if fst x < fst r then (fst x, snd r) else r)
        in if snd x \<le> snd r then (result, r # rs)
           else if fst x \<le> snd r then (True, array_merge (fst r, snd x) rs)
           else (let (b, rs') = array_insert_loop rs x result in (b, r # rs')))"

definition array_insert :: "array_range_set \<Rightarrow> range \<Rightarrow> bool \<times> array_range_set" where
  "array_insert s x = (if range_empty x then (False, s) else array_insert_loop s x False)"

definition array_insert_one :: "array_range_set \<Rightarrow> nat \<Rightarrow> bool \<times> array_range_set" where
  "array_insert_one s x = array_insert s (x, u64_add x 1)"

fun array_remove_loop :: "range list \<Rightarrow> range \<Rightarrow> bool \<Rightarrow> bool \<times> range list" where
  "array_remove_loop [] x result = (result, [])"
| "array_remove_loop (r # rs) x result =
     (if snd x \<le> fst r then (result, r # rs)
      else if snd r \<le> fst x then
        (let (b, rs') = array_remove_loop rs x result in (b, r # rs'))
      else
        let left = (fst r, fst x); right = (snd x, snd r);
            (b, rs') = array_remove_loop rs x True
        in if range_empty left \<and> range_empty right then (b, rs')
           else if range_empty left then (b, right # rs')
           else if range_empty right then (b, left # rs')
           else (b, left # right # rs'))"

definition array_remove :: "array_range_set \<Rightarrow> range \<Rightarrow> bool \<times> array_range_set" where
  "array_remove s x = (if range_empty x then (False, s) else array_remove_loop s x False)"

definition array_subtract :: "array_range_set \<Rightarrow> array_range_set \<Rightarrow> array_range_set" where
  "array_subtract s other = fold (\<lambda>r t. snd (array_remove t r)) other s"

definition array_pop_min :: "array_range_set \<Rightarrow> range option \<times> array_range_set" where
  "array_pop_min s = (case s of [] \<Rightarrow> (None, s) | r # rs \<Rightarrow> (Some r, rs))"

definition array_min :: "array_range_set \<Rightarrow> nat option" where
  "array_min s = (case s of [] \<Rightarrow> None | r # rs \<Rightarrow> Some (fst r))"

definition array_max :: "array_range_set \<Rightarrow> nat option" where
  "array_max s = (if s = [] then None else checked_sub (snd (last s)) 1)"

section \<open>Correctness of insertion\<close>

lemma array_merge_correct:
  assumes "fst r < snd r" and "ranges_ok rs" and "\<forall>s\<in>set rs. fst r < fst s"
  shows "ranges_ok (array_merge r rs) \<and> ranges_elems (array_merge r rs) = ranges_elems (r # rs)
    \<and> (\<forall>s\<in>set (array_merge r rs). fst r \<le> fst s)"
  using assms
proof (induction r rs rule: array_merge.induct)
  case (1 r)
  then show ?case by (simp add: ranges_ok_Cons)
next
  case (2 r n ns)
  have n: "fst n < snd n" "ranges_ok ns" "\<forall>s\<in>set ns. snd n < fst s"
    using 2(3) by (auto simp: ranges_ok_Cons)
  show ?case
  proof (cases "fst n \<le> snd r")
    case True
    have "ranges_ok (array_merge (fst r, max (snd n) (snd r)) ns) \<and>
      ranges_elems (array_merge (fst r, max (snd n) (snd r)) ns)
        = ranges_elems ((fst r, max (snd n) (snd r)) # ns)
      \<and> (\<forall>s\<in>set (array_merge (fst r, max (snd n) (snd r)) ns). fst r \<le> fst s)"
      using 2(1) [OF True] 2(2,4) n by fastforce
    moreover have "{fst r..<max (snd n) (snd r)} = {fst r..<snd r} \<union> {fst n..<snd n}"
      using True 2(2,4) n by auto
    ultimately show ?thesis using True by (auto simp: max_def)
  next
    case False
    with 2 n show ?thesis by (fastforce simp: ranges_ok_Cons)
  qed
qed

lemma array_insert_loop_correct:
  assumes "fst x < snd x" and "ranges_ok rs"
  shows "ranges_ok (snd (array_insert_loop rs x result))
    \<and> ranges_elems (snd (array_insert_loop rs x result)) = ranges_elems rs \<union> {fst x..<snd x}
    \<and> (\<forall>n. n < fst x \<longrightarrow> (\<forall>s\<in>set rs. n < fst s) \<longrightarrow> (\<forall>s\<in>set (snd (array_insert_loop rs x result)). n < fst s))"
  using assms(2)
proof (induction rs arbitrary: result)
  case Nil
  with assms(1) show ?case by (simp add: ranges_ok_Cons)
next
  case (Cons r rs)
  have r: "fst r < snd r" "ranges_ok rs" "\<forall>s\<in>set rs. snd r < fst s"
    using Cons.prems by (auto simp: ranges_ok_Cons)
  define r' where "r' = (if fst x < fst r then (fst x, snd r) else r)"
  consider (before) "snd x < fst r" | (inside) "\<not> snd x < fst r" "snd x \<le> snd r"
    | (overlap) "\<not> snd x < fst r" "\<not> snd x \<le> snd r" "fst x \<le> snd r"
    | (after) "\<not> snd x < fst r" "\<not> snd x \<le> snd r" "\<not> fst x \<le> snd r"
    by blast
  then show ?case
  proof cases
    case before
    with assms(1) r show ?thesis by (fastforce simp: ranges_ok_Cons)
  next
    case inside
    have "snd (array_insert_loop (r # rs) x result) = r' # rs"
      using inside by (auto simp: Let_def r'_def)
    with inside assms(1) r show ?thesis by (auto simp: ranges_ok_Cons r'_def)
  next
    case overlap
    have eq: "snd (array_insert_loop (r # rs) x result) = array_merge (fst r', snd x) rs"
      using overlap by (auto simp: Let_def r'_def)
    have p: "fst r' < snd x" "\<forall>s\<in>set rs. fst r' < fst s"
      using overlap assms(1) r by (auto simp: r'_def)
    have "ranges_ok (array_merge (fst r', snd x) rs)
        \<and> ranges_elems (array_merge (fst r', snd x) rs) = ranges_elems ((fst r', snd x) # rs)
        \<and> (\<forall>s\<in>set (array_merge (fst r', snd x) rs). fst r' \<le> fst s)"
      using array_merge_correct [of "(fst r', snd x)" rs] p r(2) by simp
    moreover have "{fst r'..<snd x} = {fst r..<snd r} \<union> {fst x..<snd x}"
      using overlap r assms(1) by (auto simp: r'_def)
    ultimately show ?thesis unfolding eq by (fastforce simp: r'_def split: if_splits)
  next
    case after
    with r(1) have "\<not> fst x < fst r" by linarith
    with after have eq: "snd (array_insert_loop (r # rs) x result) = r # snd (array_insert_loop rs x result)"
      by (auto simp: Let_def split: prod.splits)
    define rest where "rest = snd (array_insert_loop rs x result)"
    note IH = Cons.IH [OF r(2), of result, folded rest_def]
    have gap: "\<forall>s\<in>set rest. n < fst s" if "n < fst x" "\<forall>s\<in>set rs. n < fst s" for n
      using IH that by blast
    have "\<forall>s\<in>set rest. snd r < fst s" using gap [of "snd r"] r(3) after by linarith
    then have "ranges_ok (r # rest)" using IH r(1) by (simp add: ranges_ok_Cons)
    moreover have "\<forall>s\<in>set (r # rest). n < fst s" if "n < fst x" "\<forall>s\<in>set (r # rs). n < fst s" for n
      using gap [of n] that by simp
    moreover have "ranges_elems (r # rest) = ranges_elems (r # rs) \<union> {fst x..<snd x}"
      using IH by (simp add: Un_assoc)
    ultimately show ?thesis unfolding eq rest_def [symmetric] by blast
  qed
qed

lemma array_insert_loop_result:
  assumes "fst x < snd x" and "ranges_ok rs"
  shows "fst (array_insert_loop rs x False) \<longleftrightarrow> \<not> {fst x..<snd x} \<subseteq> ranges_elems rs"
  using assms(2)
proof (induction rs)
  case Nil
  with assms(1) show ?case by simp
next
  case (Cons r rs)
  have r: "fst r < snd r" "ranges_ok rs" "\<forall>s\<in>set rs. snd r < fst s"
    using Cons.prems by (auto simp: ranges_ok_Cons)
  note gap = ranges_elems_gap [OF r(3)]
  consider (before) "snd x < fst r" | (left) "\<not> snd x < fst r" "fst x < fst r"
    | (inside) "fst r \<le> fst x" "snd x \<le> snd r"
    | (overlap) "fst r \<le> fst x" "\<not> snd x \<le> snd r" "fst x \<le> snd r"
    | (after) "\<not> snd x \<le> snd r" "\<not> fst x \<le> snd r"
    by linarith
  then show ?case
  proof cases
    case before
    have "fst x \<notin> ranges_elems (r # rs)" using before assms(1) r gap [of "fst x"] by auto
    with before assms(1) show ?thesis by auto
  next
    case left
    have "fst x \<notin> ranges_elems (r # rs)" using left r gap [of "fst x"] by auto
    then have "\<not> {fst x..<snd x} \<subseteq> ranges_elems (r # rs)" using assms(1) by fastforce
    moreover have "fst (array_insert_loop (r # rs) x False)" using left r(1) by (auto simp: Let_def)
    ultimately show ?thesis by blast
  next
    case inside
    with assms(1) show ?thesis by auto
  next
    case overlap
    have "snd r \<notin> ranges_elems (r # rs)" using r gap [of "snd r"] by auto
    then have "\<not> {fst x..<snd x} \<subseteq> ranges_elems (r # rs)" using overlap by fastforce
    moreover have "fst (array_insert_loop (r # rs) x False)" using overlap r(1) by (auto simp: Let_def)
    ultimately show ?thesis by blast
  next
    case after
    then have "fst (array_insert_loop (r # rs) x False) = fst (array_insert_loop rs x False)"
      using r by (auto simp: Let_def split: prod.splits)
    moreover have "{fst x..<snd x} \<inter> {fst r..<snd r} = {}" using after by auto
    ultimately show ?thesis using Cons.IH [OF r(2)] by auto
  qed
qed

section \<open>Correctness of removal\<close>

lemma array_remove_loop_correct:
  assumes "fst x < snd x" and "ranges_ok rs"
  shows "ranges_ok (snd (array_remove_loop rs x result))
    \<and> ranges_elems (snd (array_remove_loop rs x result)) = ranges_elems rs - {fst x..<snd x}
    \<and> (\<forall>n. (\<forall>s\<in>set rs. n < fst s) \<longrightarrow> (\<forall>s\<in>set (snd (array_remove_loop rs x result)). n < fst s))"
  using assms(2)
proof (induction rs arbitrary: result)
  case Nil
  then show ?case by simp
next
  case (Cons r rs)
  have r: "fst r < snd r" "ranges_ok rs" "\<forall>s\<in>set rs. snd r < fst s"
    using Cons.prems by (auto simp: ranges_ok_Cons)
  note gap = ranges_elems_gap [OF r(3)]
  show ?case
  proof (cases "snd x \<le> fst r")
    case True
    have "ranges_elems (r # rs) \<inter> {fst x..<snd x} = {}" using True r gap by fastforce
    with True Cons.prems show ?thesis by auto
  next
    case not_before: False
    define rest where "rest = snd (array_remove_loop rs x (if snd r \<le> fst x then result else True))"
    note IH0 = Cons.IH [OF r(2), of "if snd r \<le> fst x then result else True", folded rest_def]
    have IH: "ranges_ok rest" "ranges_elems rest = ranges_elems rs - {fst x..<snd x}"
      using IH0 by simp_all
    have IHgap: "\<forall>s\<in>set rest. n < fst s" if "\<forall>s\<in>set rs. n < fst s" for n
      using IH0 that by simp
    have rest_gap: "\<forall>s\<in>set rest. snd r < fst s" using IHgap [of "snd r"] r(3) by blast
    define pre where "pre = (if snd r \<le> fst x then [r]
        else (if fst r < fst x then [(fst r, fst x)] else []) @ (if snd x < snd r then [(snd x, snd r)] else []))"
    have eq: "snd (array_remove_loop (r # rs) x result) = pre @ rest"
      using not_before by (auto simp: Let_def pre_def rest_def range_empty_def split: prod.splits)
    have pre1: "ranges_ok pre" using assms(1) not_before r(1) by (simp add: pre_def ranges_ok_Cons)
    have pre2: "ranges_elems pre = {fst r..<snd r} - {fst x..<snd x}"
    proof (rule set_eqI)
      fix y
      show "y \<in> ranges_elems pre \<longleftrightarrow> y \<in> {fst r..<snd r} - {fst x..<snd x}"
        using assms(1) not_before r(1) by (simp add: pre_def) arith
    qed
    have pre3: "\<forall>p\<in>set pre. fst r \<le> fst p \<and> snd p \<le> snd r"
      using assms(1) not_before r(1)
      by (cases "snd r \<le> fst x"; cases "fst r < fst x"; cases "snd x < snd r") (simp_all add: pre_def)
    note pre = pre1 pre2 pre3
    have "ranges_ok (pre @ rest)"
      unfolding ranges_ok_append using pre1 pre3 IH(1) rest_gap by (blast intro: le_less_trans)
    moreover have "ranges_elems (pre @ rest) = ranges_elems (r # rs) - {fst x..<snd x}"
      using pre(2) IH(2) by auto
    moreover have "\<forall>s\<in>set (pre @ rest). n < fst s" if "\<forall>s\<in>set (r # rs). n < fst s" for n
      using that pre(3) IHgap [of n] by fastforce
    ultimately show ?thesis unfolding eq by blast
  qed
qed

lemma array_remove_loop_result:
  assumes "fst x < snd x" and "ranges_ok rs"
  shows "fst (array_remove_loop rs x result) \<longleftrightarrow> result \<or> {fst x..<snd x} \<inter> ranges_elems rs \<noteq> {}"
  using assms(2)
proof (induction rs arbitrary: result)
  case (Cons r rs)
  have r: "fst r < snd r" "ranges_ok rs" "\<forall>s\<in>set rs. snd r < fst s"
    using Cons.prems by (auto simp: ranges_ok_Cons)
  note gap = ranges_elems_gap [OF r(3)]
  consider (before) "snd x \<le> fst r" | (after) "\<not> snd x \<le> fst r" "snd r \<le> fst x"
    | (hit) "\<not> snd x \<le> fst r" "\<not> snd r \<le> fst x" by blast
  then show ?case
  proof cases
    case before
    then have "{fst x..<snd x} \<inter> ranges_elems (r # rs) = {}" using r gap by fastforce
    with before show ?thesis by simp
  next
    case after
    then have "fst (array_remove_loop (r # rs) x result) = fst (array_remove_loop rs x result)"
      by (auto split: prod.splits)
    moreover have "{fst x..<snd x} \<inter> {fst r..<snd r} = {}" using after by auto
    ultimately show ?thesis using Cons.IH [OF r(2)] by auto
  next
    case hit
    then have "fst (array_remove_loop (r # rs) x result) = fst (array_remove_loop rs x True)"
      by (auto simp: Let_def split: prod.splits)
    moreover have "max (fst x) (fst r) \<in> {fst x..<snd x} \<inter> ranges_elems (r # rs)"
      using hit assms(1) r by auto
    ultimately show ?thesis using Cons.IH [OF r(2)] by blast
  qed
qed simp

section \<open>The interface\<close>

lemma array_contains_correct:
  assumes "ranges_ok s"
  shows "array_contains s x \<longleftrightarrow> x \<in> ranges_elems s"
proof -
  let ?tw = "takeWhile (\<lambda>r. fst r \<le> x) s"
  have "array_contains (ys @ zs) x \<longleftrightarrow> ys \<noteq> [] \<and> x < snd (last ys)"
    if "\<forall>r\<in>set ys. fst r \<le> x" and "zs = [] \<or> \<not> fst (hd zs) \<le> x" for ys zs :: "range list"
  proof -
    have "takeWhile (\<lambda>r. fst r \<le> x) (ys @ zs) = ys"
      using that by (cases zs) (auto simp: takeWhile_append2)
    then show ?thesis
      using that(1) by (cases "ys = []") (auto simp: array_contains_def Let_def nth_append last_conv_nth)
  qed
  from this [of ?tw "dropWhile (\<lambda>r. fst r \<le> x) s"]
  have eq: "array_contains s x \<longleftrightarrow> ?tw \<noteq> [] \<and> x < snd (last ?tw)"
    using hd_dropWhile [of "\<lambda>r. fst r \<le> x" s] by (auto dest: set_takeWhileD)
  show ?thesis
  proof
    assume "array_contains s x"
    with eq have "?tw \<noteq> []" "x < snd (last ?tw)" by auto
    moreover then have "last ?tw \<in> set s" "fst (last ?tw) \<le> x"
      by (metis last_in_set set_takeWhileD)+
    ultimately show "x \<in> ranges_elems s" by (auto simp: ranges_elems_iff)
  next
    assume "x \<in> ranges_elems s"
    then obtain r where r: "r \<in> set s" "fst r \<le> x" "x < snd r" by (auto simp: ranges_elems_iff)
    from assms r show "array_contains s x" unfolding eq
    proof (induction s)
      case (Cons a s)
      show ?case
      proof (cases "r = a")
        case True
        with Cons.prems have "takeWhile (\<lambda>r. fst r \<le> x) s = []"
          by (cases s) (auto simp: ranges_ok_Cons)
        with True Cons.prems show ?thesis by simp
      next
        case False
        with Cons.prems have "r \<in> set s" and "ranges_ok s" and "snd a < fst r" "fst a < snd a"
          by (auto simp: ranges_ok_Cons)
        with Cons show ?thesis by auto
      qed
    qed simp
  qed
qed

lemma ranges_last_max:
  assumes "ranges_ok s" and "s \<noteq> []"
  shows "Max (ranges_elems s) = snd (last s) - 1" and "fst (last s) < snd (last s)"
proof -
  obtain ys l where s: "s = ys @ [l]" using assms(2) by (cases s rule: rev_cases) auto
  have l: "fst l < snd l" using assms(1) by (simp add: s ranges_ok_simps)
  then show "fst (last s) < snd (last s)" by (simp add: s)
  have "\<forall>y\<in>set ys. snd y < fst l" using assms(1) by (simp add: s ranges_ok_simps)
  then have "\<forall>x\<in>ranges_elems ys. x < fst l" by (fastforce simp: ranges_elems_iff)
  then have "x \<le> snd l - 1" if "x \<in> ranges_elems s" for x using that l by (fastforce simp: s)
  moreover have "snd l - 1 \<in> {fst l..<snd l}" using l by auto
  then have "snd l - 1 \<in> ranges_elems s" by (simp add: s)
  ultimately show "Max (ranges_elems s) = snd (last s) - 1"
    by (intro Max_eqI) (simp_all add: s)
qed

interpretation ars: range_set ranges_ok ranges_elems array_new array_contains array_insert
  array_remove array_min array_max array_pop_min
proof (unfold_locales, goal_cases)
  case (4 s x)
  then show ?case by (rule array_contains_correct)
next
  case (5 s r)
  then show ?case using array_insert_loop_correct [of r s False]
    by (auto simp: array_insert_def range_empty_def not_le)
next
  case (6 s r)
  then show ?case using array_insert_loop_correct [of r s False]
    by (auto simp: array_insert_def range_empty_def not_le range_elems_def)
next
  case (7 s r)
  then show ?case using array_insert_loop_result [of r s]
    by (auto simp: array_insert_def range_empty_def not_le range_elems_def)
next
  case (8 s r)
  then show ?case using array_remove_loop_correct [of r s False]
    by (auto simp: array_remove_def range_empty_def not_le)
next
  case (9 s r)
  then show ?case using array_remove_loop_correct [of r s False]
    by (auto simp: array_remove_def range_empty_def not_le range_elems_def)
next
  case (10 s r)
  then show ?case using array_remove_loop_result [of r s False]
    by (auto simp: array_remove_def range_empty_def not_le range_elems_def)
next
  case (11 s)
  then show ?case using ranges_elems_empty_iff [of s] ranges_ok_head(1)
    by (cases s) (auto simp: array_min_def simp del: ranges_elems_simps(2))
next
  case (12 s)
  then show ?case using ranges_elems_empty_iff [of s] ranges_last_max [of s]
    by (auto simp: array_max_def checked_sub_def)
next
  case (13 s)
  then show ?case using ranges_elems_empty_iff [of s] by (simp add: array_pop_min_def)
next
  case (14 s)
  then obtain r rs where s: "s = r # rs" by (cases s) auto
  have ok: "ranges_ok (r # rs)" using 14 s by simp
  then have gap: "\<forall>t\<in>set rs. snd r < fst t" by (simp add: ranges_ok_Cons)
  have "{fst r..<snd r} \<inter> ranges_elems rs = {}" using ranges_elems_gap [OF gap] by fastforce
  with ok ranges_ok_head(1,3) [OF ok] show ?case
    by (auto simp: s array_pop_min_def range_elems_def ranges_ok_Cons)
qed (simp_all add: array_new_def)

end
