(* ===== verification/BTree_Range_Set.thy ===== *)
theory BTree_Range_Set
  imports Array_Range_Set
begin

text \<open>
  \<^verbatim>\<open>RangeSet\<close> of \<^verbatim>\<open>src/src/range_set/btree_range_set.rs\<close>: a \<^verbatim>\<open>BTreeMap\<close> from the start of each
  range to its end.  The ordered map of the standard library is the list of its entries in key
  order.  The operations are shown to agree with those of \<^verbatim>\<open>ArrayRangeSet\<close> on canonical lists, so
  that both interpret the same interface and can replace each other.
\<close>

type_synonym btree_range_set = "(nat \<times> nat) list"

section \<open>The ordered map\<close>

fun bt_put :: "nat \<Rightarrow> nat \<Rightarrow> btree_range_set \<Rightarrow> btree_range_set" where
  "bt_put k v [] = [(k, v)]"
| "bt_put k v (e # m) = (if k < fst e then (k, v) # e # m
     else if k = fst e then (k, v) # m else e # bt_put k v m)"

definition bt_del :: "nat \<Rightarrow> btree_range_set \<Rightarrow> btree_range_set" where
  "bt_del k m = filter (\<lambda>e. fst e \<noteq> k) m"

section \<open>Operations\<close>

definition btree_new :: btree_range_set where
  "btree_new = []"

text \<open>\<^verbatim>\<open>pred\<close>: the last entry with a key of at most \<open>x\<close>; \<^verbatim>\<open>succ\<close>: the first entry with a larger key.\<close>

definition btree_pred :: "btree_range_set \<Rightarrow> nat \<Rightarrow> (nat \<times> nat) option" where
  "btree_pred m x = (let es = filter (\<lambda>e. fst e \<le> x) m in if es = [] then None else Some (last es))"

definition btree_succ :: "btree_range_set \<Rightarrow> nat \<Rightarrow> (nat \<times> nat) option" where
  "btree_succ m x = (case filter (\<lambda>e. x < fst e) m of [] \<Rightarrow> None | e # es \<Rightarrow> Some e)"

definition btree_contains :: "btree_range_set \<Rightarrow> nat \<Rightarrow> bool" where
  "btree_contains m x = (case btree_pred m x of None \<Rightarrow> False | Some (_, e) \<Rightarrow> x < e)"

lemma btree_succ_in: "btree_succ m x = Some e \<Longrightarrow> e \<in> set m \<and> x < fst e"
proof -
  assume "btree_succ m x = Some e"
  then obtain es where "filter (\<lambda>e. x < fst e) m = e # es"
    by (auto simp: btree_succ_def split: list.splits)
  then have "e \<in> set (filter (\<lambda>e. x < fst e) m)" by simp
  then show ?thesis by simp
qed

lemma length_bt_del: "e \<in> set m \<Longrightarrow> length (bt_del (fst e) m) < length m"
  unfolding bt_del_def by (rule length_filter_less) auto

definition btree_put_one :: "btree_range_set \<Rightarrow> nat \<Rightarrow> nat \<Rightarrow> btree_range_set" where
  "btree_put_one m start x =
     (let new_end = u64_add x 1 in
      case btree_succ m x of
        Some (next_start, next_end) \<Rightarrow>
          if next_start = new_end then bt_put start next_end (bt_del next_start m)
          else bt_put start new_end m
      | None \<Rightarrow> bt_put start new_end m)"

definition btree_insert_one :: "btree_range_set \<Rightarrow> nat \<Rightarrow> bool \<times> btree_range_set" where
  "btree_insert_one m x = (case btree_pred m x of
      Some (start, end) \<Rightarrow>
        if x < end then (False, m)
        else if end = x then (True, btree_put_one (bt_del start m) start x)
        else (True, btree_put_one m x x)
    | None \<Rightarrow> (True, btree_put_one m x x))"

function btree_absorb :: "btree_range_set \<Rightarrow> range \<Rightarrow> btree_range_set" where
  "btree_absorb m x = (case btree_succ m (fst x) of
      Some (next_start, next_end) \<Rightarrow>
        if snd x < next_start then bt_put (fst x) (snd x) m
        else btree_absorb (bt_del next_start m) (fst x, max next_end (snd x))
    | None \<Rightarrow> bt_put (fst x) (snd x) m)"
  by pat_completeness auto
termination
  by (relation "measure (\<lambda>(m, x). length m)") (auto dest!: btree_succ_in length_bt_del)

definition btree_insert :: "btree_range_set \<Rightarrow> range \<Rightarrow> bool \<times> btree_range_set" where
  "btree_insert m x =
     (if range_empty x then (False, m)
      else case btree_pred m (fst x) of
        Some (start, end) \<Rightarrow>
          if snd x \<le> end then (False, m)
          else if fst x \<le> end then (True, btree_absorb (bt_del start m) (start, snd x))
          else (True, btree_absorb m x)
      | None \<Rightarrow> (True, btree_absorb m x))"

function btree_remove_loop :: "btree_range_set \<Rightarrow> range \<Rightarrow> bool \<Rightarrow> bool \<times> btree_range_set" where
  "btree_remove_loop m x after = (case btree_succ m (fst x) of
      Some (start, end) \<Rightarrow>
        if snd x \<le> start then (after, m)
        else if snd x < end then (True, bt_put (snd x) end (bt_del start m))
        else btree_remove_loop (bt_del start m) x True
    | None \<Rightarrow> (after, m))"
  by pat_completeness auto
termination
  by (relation "measure (\<lambda>(m, x, a). length m)") (auto dest!: btree_succ_in length_bt_del)

definition btree_remove :: "btree_range_set \<Rightarrow> range \<Rightarrow> bool \<times> btree_range_set" where
  "btree_remove m x =
     (if range_empty x then (False, m)
      else
        let overlap = (case btree_pred m (fst x) of
              Some (start, end) \<Rightarrow> if fst x < end then Some (start, end) else None
            | None \<Rightarrow> None)
        in case overlap of
             Some (start, end) \<Rightarrow>
               let m = bt_del start m;
                   m = (if start < fst x then bt_put start (fst x) m else m);
                   m = (if snd x < end then bt_put (snd x) end m else m)
               in if snd x \<le> end then (True, m)
                  else let (after, m) = btree_remove_loop m x False in (True \<or> after, m)
           | None \<Rightarrow>
               let (after, m) = btree_remove_loop m x False in (False \<or> after, m))"

definition btree_add :: "btree_range_set \<Rightarrow> btree_range_set \<Rightarrow> btree_range_set" where
  "btree_add m other = fold (\<lambda>r t. snd (btree_insert t r)) other m"

definition btree_subtract :: "btree_range_set \<Rightarrow> btree_range_set \<Rightarrow> btree_range_set" where
  "btree_subtract m other = fold (\<lambda>r t. snd (btree_remove t r)) other m"

definition btree_is_empty :: "btree_range_set \<Rightarrow> bool" where
  "btree_is_empty m \<longleftrightarrow> m = []"

definition btree_min :: "btree_range_set \<Rightarrow> nat option" where
  "btree_min m = (case m of [] \<Rightarrow> None | e # _ \<Rightarrow> Some (fst e))"

definition btree_max :: "btree_range_set \<Rightarrow> nat option" where
  "btree_max m = (if m = [] then None else checked_sub (snd (last m)) 1)"

definition btree_len :: "btree_range_set \<Rightarrow> nat" where
  "btree_len m = length m"

definition btree_peek_min :: "btree_range_set \<Rightarrow> range option" where
  "btree_peek_min m = (case m of [] \<Rightarrow> None | e # _ \<Rightarrow> Some e)"

definition btree_pop_min :: "btree_range_set \<Rightarrow> range option \<times> btree_range_set" where
  "btree_pop_min m = (case btree_peek_min m of None \<Rightarrow> (None, m)
     | Some r \<Rightarrow> (Some r, bt_del (fst r) m))"

section \<open>The Replace iterator\<close>

record replace_iter =
  ri_set :: btree_range_set
  ri_range :: range
  ri_pred :: "range option"

definition btree_replace :: "btree_range_set \<Rightarrow> range \<Rightarrow> replace_iter" where
  "btree_replace m rg =
     (let overlap = (case btree_pred m (fst rg) of
            Some (ps, pe) \<Rightarrow> if fst rg \<le> pe then Some (ps, pe) else None
          | None \<Rightarrow> None)
      in case overlap of
           Some (prev_start, prev_end) \<Rightarrow>
             let m = bt_del prev_start m;
                 replaced_start = fst rg;
                 replaced_end = min (snd rg) prev_end;
                 rg = (min (fst rg) prev_start, max (snd rg) prev_end)
             in \<lparr>ri_set = m, ri_range = rg,
                 ri_pred = (if replaced_start \<noteq> replaced_end
                            then Some (replaced_start, replaced_end) else None)\<rparr>
         | None \<Rightarrow> \<lparr>ri_set = m, ri_range = rg, ri_pred = None\<rparr>)"

definition replace_next :: "replace_iter \<Rightarrow> range option \<times> replace_iter" where
  "replace_next it = (case ri_pred it of
      Some p \<Rightarrow> (Some p, it\<lparr>ri_pred := None\<rparr>)
    | None \<Rightarrow>
       (case btree_succ (ri_set it) (fst (ri_range it)) of
          None \<Rightarrow> (None, it)
        | Some (next_start, next_end) \<Rightarrow>
            if snd (ri_range it) < next_start then (None, it)
            else
              let replaced_end = min (snd (ri_range it)) next_end;
                  it = it\<lparr>ri_set := bt_del next_start (ri_set it),
                          ri_range := (fst (ri_range it), max (snd (ri_range it)) next_end)\<rparr>
              in if next_start = replaced_end then (None, it)
                 else (Some (next_start, replaced_end), it)))"

definition replace_size :: "replace_iter \<Rightarrow> nat" where
  "replace_size it = length (ri_set it) + (if ri_pred it = None then 0 else 1)"

lemma replace_next_size: "replace_next it = (Some r, it') \<Longrightarrow> replace_size it' < replace_size it"
  by (auto simp: replace_next_def replace_size_def Let_def split: option.splits if_splits prod.splits
      dest!: btree_succ_in length_bt_del)

text \<open>Iterating to the first \<^verbatim>\<open>None\<close>, as a \<^verbatim>\<open>for\<close> loop does; \<^verbatim>\<open>drop\<close> iterates once more and then
  inserts the aggregate range.\<close>

function replace_drain :: "replace_iter \<Rightarrow> range list \<times> replace_iter" where
  "replace_drain it = (case replace_next it of
      (None, it') \<Rightarrow> ([], it')
    | (Some r, it') \<Rightarrow> (let (rs, it'') = replace_drain it' in (r # rs, it'')))"
  by pat_completeness auto
termination
  by (relation "measure replace_size") (auto dest: replace_next_size [OF sym])

definition replace_drop :: "replace_iter \<Rightarrow> btree_range_set" where
  "replace_drop it = (let (_, it) = replace_drain it
     in bt_put (fst (ri_range it)) (snd (ri_range it)) (ri_set it))"

text \<open>A complete use of \<^verbatim>\<open>replace\<close>: the ranges a \<^verbatim>\<open>for\<close> loop sees, and the set afterwards.\<close>

definition btree_replace_all :: "btree_range_set \<Rightarrow> range \<Rightarrow> range list \<times> btree_range_set" where
  "btree_replace_all m rg = (let (rs, it) = replace_drain (btree_replace m rg) in (rs, replace_drop it))"

declare btree_absorb.simps [simp del] btree_remove_loop.simps [simp del] replace_drain.simps [simp del]


section \<open>Splitting a canonical map at a key\<close>

lemma ranges_ok_split:
  assumes "ranges_ok m"
  shows "\<exists>A B. m = A @ B \<and> (\<forall>a\<in>set A. fst a \<le> x) \<and> (\<forall>b\<in>set B. x < fst b)"
  using assms
proof (induction m)
  case (Cons r m)
  then obtain A B where AB: "m = A @ B" "\<forall>a\<in>set A. fst a \<le> x" "\<forall>b\<in>set B. x < fst b"
    by (auto simp: ranges_ok_Cons)
  show ?case
  proof (cases "fst r \<le> x")
    case True
    with AB show ?thesis by (intro exI [of _ "r # A"] exI [of _ B]) auto
  next
    case False
    with Cons.prems have "\<forall>b\<in>set (r # m). x < fst b" by (fastforce simp: ranges_ok_Cons)
    then show ?thesis by (intro exI [of _ "[]"] exI [of _ "r # m"]) simp
  qed
qed simp

lemma btree_pred_split:
  assumes "\<forall>a\<in>set A. fst a \<le> x" and "\<forall>b\<in>set B. x < fst b"
  shows "btree_pred (A @ B) x = (if A = [] then None else Some (last A))"
proof -
  have "filter (\<lambda>e. fst e \<le> x) A = A" and "filter (\<lambda>e. fst e \<le> x) B = []"
    using assms by (auto simp: filter_empty_conv not_le)
  then show ?thesis by (simp add: btree_pred_def)
qed

lemma btree_succ_split:
  assumes "\<forall>a\<in>set A. fst a \<le> x" and "\<forall>b\<in>set B. x < fst b"
  shows "btree_succ (A @ B) x = (case B of [] \<Rightarrow> None | b # _ \<Rightarrow> Some b)"
proof -
  have "filter (\<lambda>e. x < fst e) A = []" and "filter (\<lambda>e. x < fst e) B = B"
    using assms by (auto simp: filter_empty_conv not_less)
  then show ?thesis by (simp add: btree_succ_def)
qed

lemma bt_del_split:
  assumes "ranges_ok (A @ e # B)"
  shows "bt_del (fst e) (A @ e # B) = A @ B"
proof -
  have "\<forall>a\<in>set A. fst a < fst e" "\<forall>b\<in>set B. fst e < fst b"
    using assms by (fastforce simp: ranges_ok_simps dest: ranges_okD)+
  then have "filter (\<lambda>x. fst x \<noteq> fst e) A = A" "filter (\<lambda>x. fst x \<noteq> fst e) B = B"
    by (auto simp: filter_id_conv)
  then show ?thesis by (simp add: bt_del_def)
qed

lemma bt_put_split:
  assumes "\<forall>a\<in>set A. fst a < k" and "\<forall>b\<in>set B. k < fst b"
  shows "bt_put k v (A @ B) = A @ (k, v) # B"
  using assms(1)
proof (induction A)
  case Nil
  then show ?case using assms(2) by (cases B) auto
qed auto

section \<open>Agreement with the array representation\<close>

lemma btree_absorb_merge:
  assumes "ranges_ok B" and "\<forall>a\<in>set A. fst a < fst x" and "\<forall>b\<in>set B. fst x < fst b"
    and "ranges_ok (A @ B)"
  shows "btree_absorb (A @ B) x = A @ array_merge x B"
  using assms
proof (induction x B rule: array_merge.induct)
  case (1 r)
  then show ?case
    using btree_succ_split [of A "fst r" "[]"] bt_put_split [of A "fst r" "[]" "snd r"]
    by (subst btree_absorb.simps) (auto simp: less_imp_le)
next
  case (2 r n ns)
  have succ: "btree_succ (A @ n # ns) (fst r) = Some n"
    using btree_succ_split [of A "fst r" "n # ns"] 2 by (auto simp: less_imp_le)
  show ?case
  proof (cases "fst n \<le> snd r")
    case True
    have "btree_absorb (A @ n # ns) r = btree_absorb (bt_del (fst n) (A @ n # ns)) (fst r, max (snd n) (snd r))"
      using True by (subst btree_absorb.simps) (auto simp: succ split: prod.splits)
    also have "\<dots> = btree_absorb (A @ ns) (fst r, max (snd n) (snd r))"
      using bt_del_split [OF 2(5)] by simp
    also have "\<dots> = A @ array_merge (fst r, max (snd n) (snd r)) ns"
      using 2(1) [OF True] 2(2-5) by (simp add: ranges_ok_simps)
    finally show ?thesis using True by simp
  next
    case False
    then show ?thesis using bt_put_split [of A "fst r" "n # ns" "snd r"] 2
      by (subst btree_absorb.simps) (auto simp: succ split: prod.splits)
  qed
qed

lemma array_insert_loop_skip:
  "\<forall>a\<in>set A. fst a < snd a \<and> snd a < fst x \<Longrightarrow> fst x < snd x \<Longrightarrow>
   array_insert_loop (A @ C) x r = (fst (array_insert_loop C x r), A @ snd (array_insert_loop C x r))"
  by (induction A) (auto simp: Let_def split: prod.splits)

lemma array_merge_apart: "\<forall>b\<in>set B. snd r < fst b \<Longrightarrow> array_merge r B = r # B"
  by (cases B) auto

lemma array_insert_loop_front:
  assumes "fst x < snd x" and "\<forall>b\<in>set B. fst x < fst b" and "ranges_ok B"
  shows "array_insert_loop B x r = (True, array_merge x B)"
proof (cases B)
  case (Cons b bs)
  with assms have b: "fst x < fst b" "fst b < snd b" "\<forall>c\<in>set bs. snd b < fst c"
    by (auto simp: ranges_ok_Cons)
  then have "array_merge (fst x, snd b) bs = (fst x, snd b) # bs" by (intro array_merge_apart) simp
  with b Cons show ?thesis by (auto simp: Let_def max_def)
qed simp

lemma ranges_ok_butlast:
  assumes "ranges_ok (A0 @ [p] @ B)"
  shows "\<forall>a\<in>set A0. fst a < snd a \<and> snd a < fst p" "fst p < snd p" "\<forall>b\<in>set B. snd p < fst b"
    "ranges_ok A0" "ranges_ok B" "\<forall>a\<in>set A0. fst a < fst p" "\<forall>a\<in>set A0. \<forall>b\<in>set B. snd a < fst b"
  using assms by (fastforce simp: ranges_ok_simps dest: ranges_okD)+

lemma btree_insert_array: "ranges_ok m \<Longrightarrow> btree_insert m x = array_insert m x"
proof -
  assume ok: "ranges_ok m"
  obtain A B where m: "m = A @ B" and A: "\<forall>a\<in>set A. fst a \<le> fst x" and B: "\<forall>b\<in>set B. fst x < fst b"
    using ranges_ok_split [OF ok] by metis
  have okB: "ranges_ok B" using ok by (simp add: m ranges_ok_append)
  show ?thesis
  proof (cases "range_empty x")
    case True
    then show ?thesis by (simp add: btree_insert_def array_insert_def)
  next
    case False
    then have x: "fst x < snd x" by (simp add: range_empty_def)
    have apart: "btree_absorb (A @ B) x = snd (array_insert_loop (A @ B) x False)
        \<and> fst (array_insert_loop (A @ B) x False)" if "\<forall>a\<in>set A. snd a < fst x"
    proof -
      have a: "\<forall>a\<in>set A. fst a < snd a \<and> snd a < fst x"
        using that ok by (auto simp: m ranges_ok_append dest: ranges_okD)
      then have "btree_absorb (A @ B) x = A @ array_merge x B"
        using btree_absorb_merge [of B A x] okB B ok m by fastforce
      with array_insert_loop_skip [OF a x] array_insert_loop_front [OF x B okB]
      show ?thesis by simp
    qed
    show ?thesis
    proof (cases A rule: rev_cases)
      case Nil
      then show ?thesis using btree_pred_split [OF A B] apart False
        by (auto simp: btree_insert_def array_insert_def m prod_eq_iff)
    next
      case (snoc A0 p)
      note ok0 = ok [unfolded m snoc append_assoc]
      note p = ranges_ok_butlast [OF ok0]
      have pred: "btree_pred m (fst x) = Some (fst p, snd p)" using btree_pred_split [OF A B] by (simp add: m snoc)
      have px: "fst p \<le> fst x" using A by (simp add: snoc)
      have skip: "array_insert_loop (A0 @ C) x r
          = (fst (array_insert_loop C x r), A0 @ snd (array_insert_loop C x r))" for C r
        using p(1) px by (intro array_insert_loop_skip [OF _ x]) fastforce
      consider (inside) "snd x \<le> snd p" | (touch) "\<not> snd x \<le> snd p" "fst x \<le> snd p"
        | (apart) "\<not> fst x \<le> snd p" by blast
      then show ?thesis
      proof cases
        case inside
        then have "array_insert_loop m x False = (False, m)"
          using skip [of "p # B" False] p(2) px x by (auto simp: m snoc Let_def)
        with inside False pred show ?thesis by (simp add: btree_insert_def array_insert_def case_prod_beta)
      next
        case touch
        have "btree_insert m x = (True, btree_absorb (A0 @ B) (fst p, snd x))"
          using touch False pred bt_del_split [of A0 p B] ok0
          by (simp add: btree_insert_def m snoc case_prod_beta)
        moreover have "btree_absorb (A0 @ B) (fst p, snd x) = A0 @ array_merge (fst p, snd x) B"
          using btree_absorb_merge [of B A0 "(fst p, snd x)"] p ok0 by (fastforce simp: ranges_ok_append)
        moreover have "array_insert_loop m x False = (True, A0 @ array_merge (fst p, snd x) B)"
          using skip [of "p # B" False] touch p(2) px x by (auto simp: m snoc Let_def)
        ultimately show ?thesis using False by (simp add: array_insert_def)
      next
        case apart
        then have "\<forall>a\<in>set A. snd a < fst x" using p(1,2) by (auto simp: snoc)
        note away = \<open>\<forall>a\<in>set A. snd a < fst x \<Longrightarrow> _\<close> [OF this]
        from apart x have "\<not> snd x \<le> snd p" by linarith
        with away apart False pred show ?thesis
          by (simp add: btree_insert_def array_insert_def m case_prod_beta prod_eq_iff)
      qed
    qed
  qed
qed

lemma array_remove_loop_skip:
  "\<forall>a\<in>set A. fst a < snd x \<and> snd a \<le> fst x \<Longrightarrow>
   array_remove_loop (A @ C) x r = (fst (array_remove_loop C x r), A @ snd (array_remove_loop C x r))"
  by (induction A) (auto split: prod.splits)

lemma array_remove_loop_stop: "\<forall>c\<in>set C. snd x \<le> fst c \<Longrightarrow> array_remove_loop C x r = (r, C)"
  by (cases C) auto

lemma array_remove_loop_acc: "snd (array_remove_loop C x r) = snd (array_remove_loop C x r')"
proof (induction C arbitrary: r r')
  case (Cons c C)
  from Cons [of r r'] show ?case by (auto simp: Let_def split: prod.splits)
qed simp

lemma btree_remove_loop_array:
  assumes "ranges_ok (A @ B)" and "\<forall>a\<in>set A. fst a \<le> fst x" and "\<forall>b\<in>set B. fst x < fst b"
    and "fst x < snd x"
  shows "btree_remove_loop (A @ B) x r
    = (fst (array_remove_loop B x r), A @ snd (array_remove_loop B x r))"
  using assms
proof (induction B arbitrary: r)
  case Nil
  then show ?case using btree_succ_split [of A "fst x" "[]"]
    by (subst btree_remove_loop.simps) simp
next
  case (Cons b B)
  have succ: "btree_succ (A @ b # B) (fst x) = Some (fst b, snd b)"
    using btree_succ_split [of A "fst x" "b # B"] Cons.prems by simp
  have del: "bt_del (fst b) (A @ b # B) = A @ B" using Cons.prems(1) by (rule bt_del_split)
  have b: "fst b < snd b" "\<forall>c\<in>set B. snd b < fst c" "ranges_ok (A @ B)" "fst x < fst b"
    using Cons.prems by (auto simp: ranges_ok_simps)
  consider (stop) "snd x \<le> fst b" | (cut) "\<not> snd x \<le> fst b" "snd x < snd b"
    | (drop) "\<not> snd x \<le> fst b" "\<not> snd x < snd b" by blast
  then show ?case
  proof cases
    case stop
    then show ?thesis by (subst btree_remove_loop.simps) (simp add: succ case_prod_beta)
  next
    case cut
    have "array_remove_loop B x True = (True, B)"
      using b(2) cut(2) by (intro array_remove_loop_stop) auto
    moreover have "bt_put (snd x) (snd b) (A @ B) = A @ (snd x, snd b) # B"
      using Cons.prems(2,4) b(2) cut(2) by (intro bt_put_split) auto
    ultimately show ?thesis using cut b
      by (subst btree_remove_loop.simps) (simp add: succ del case_prod_beta range_empty_def)
  next
    case drop
    have "btree_remove_loop (A @ b # B) x r = btree_remove_loop (A @ B) x True"
      using drop by (subst btree_remove_loop.simps) (simp add: succ del case_prod_beta)
    with drop b Cons show ?thesis by (auto simp: range_empty_def split: prod.splits)
  qed
qed

lemma btree_remove_array:
  assumes ok: "ranges_ok m"
  shows "btree_remove m x = array_remove m x"
proof (cases "range_empty x")
  case True
  then show ?thesis by (simp add: btree_remove_def array_remove_def)
next
  case nonempty: False
  then have x: "fst x < snd x" by (simp add: range_empty_def)
  obtain A B where m: "m = A @ B" and A: "\<forall>a\<in>set A. fst a \<le> fst x" and B: "\<forall>b\<in>set B. fst x < fst b"
    using ranges_ok_split [OF ok] by metis
  have apart: "btree_remove_loop m x False = array_remove_loop m x False" if "\<forall>a\<in>set A. snd a \<le> fst x"
  proof -
    have "\<forall>a\<in>set A. fst a < snd x \<and> snd a \<le> fst x" using that A x by auto
    from array_remove_loop_skip [OF this, of B False]
    show ?thesis unfolding m btree_remove_loop_array [OF ok [unfolded m] A B x] by simp
  qed
  show ?thesis
  proof (cases A rule: rev_cases)
    case Nil
    then show ?thesis using btree_pred_split [OF A B] apart nonempty
      by (simp add: btree_remove_def array_remove_def m case_prod_beta)
  next
    case (snoc A0 p)
    note ok0 = ok [unfolded m snoc append_assoc]
    note p = ranges_ok_butlast [OF ok0]
    have pred: "btree_pred m (fst x) = Some (fst p, snd p)"
      using btree_pred_split [OF A B] by (simp add: m snoc)
    have px: "fst p \<le> fst x" using A by (simp add: snoc)
    have del: "bt_del (fst p) m = A0 @ B" using bt_del_split [of A0 p B] ok0 by (simp add: m snoc)
    show ?thesis
    proof (cases "fst x < snd p")
      case False
      then have "\<forall>a\<in>set A. snd a \<le> fst x" using p(1,2) by (auto simp: snoc)
      from apart [OF this] False nonempty pred show ?thesis
        by (simp add: btree_remove_def array_remove_def case_prod_beta)
    next
      case True
      have skip: "array_remove_loop (A0 @ C) x r = (fst (array_remove_loop C x r), A0 @ snd (array_remove_loop C x r))"
        for C r using p(1) px x by (intro array_remove_loop_skip) fastforce
      define lft where "lft = (if fst p < fst x then [(fst p, fst x)] else [])"
      have putl: "(if fst p < fst x then bt_put (fst p) (fst x) (A0 @ B) else A0 @ B) = (A0 @ lft) @ B"
        using bt_put_split [of A0 "fst p" B "fst x"] p(2,3,6) by (fastforce simp: lft_def)
      have okl: "ranges_ok ((A0 @ lft) @ B)"
        by (cases "fst p < fst x") (use p(1,4,5,7) B in \<open>auto simp: lft_def ranges_ok_simps\<close>)
      have lA: "\<forall>a\<in>set (A0 @ lft). fst a \<le> fst x" 
        by (cases "fst p < fst x") (use A px in \<open>auto simp: lft_def snoc\<close>)
      define m2 where "m2 = (if snd x < snd p then bt_put (snd x) (snd p) ((A0 @ lft) @ B) else (A0 @ lft) @ B)"
      have br: "btree_remove m x = (True, if snd x \<le> snd p then m2 else snd (btree_remove_loop m2 x False))"
        by (simp only: btree_remove_def nonempty pred option.case prod.case True Let_def del putl m2_def
            if_False if_True) (simp add: case_prod_beta)
      show ?thesis
      proof (cases "snd x \<le> snd p")
        case inside: True
        have stop: "array_remove_loop B x True = (True, B)"
          using p(3) inside by (intro array_remove_loop_stop) auto
        have putr: "bt_put (snd x) (snd p) ((A0 @ lft) @ B) = (A0 @ lft) @ (snd x, snd p) # B" if "snd x < snd p"
        proof (rule bt_put_split)
          show "\<forall>a\<in>set (A0 @ lft). fst a < snd x" using lA x by (meson le_less_trans)
          show "\<forall>b\<in>set B. snd x < fst b" using p(3) that by (meson less_trans)
        qed
        have "array_remove_loop m x False
            = (True, A0 @ lft @ (if snd x < snd p then [(snd x, snd p)] else []) @ B)"
          using True inside stop skip [of "p # B" False] px x
          by (auto simp: m snoc lft_def range_empty_def)
        with inside putr nonempty show ?thesis by (simp add: br m2_def array_remove_def)
      next
        case beyond: False
        have "btree_remove_loop m2 x False
            = (fst (array_remove_loop B x False), (A0 @ lft) @ snd (array_remove_loop B x False))"
          using btree_remove_loop_array [OF okl lA B x] beyond by (simp add: m2_def)
        moreover have acc: "snd (array_remove_loop B x False) = snd (array_remove_loop B x True)"
          "fst (array_remove_loop B x True)"
          using array_remove_loop_acc [of B x] array_remove_loop_result [of x B True] x p(5) by auto
        moreover from acc have "array_remove_loop m x False = (True, A0 @ lft @ snd (array_remove_loop B x True))"
          using True beyond skip [of "p # B" False] px x
          by (auto simp: m snoc lft_def range_empty_def case_prod_beta)
        ultimately show ?thesis using beyond nonempty by (simp add: br array_remove_def)
      qed
    qed
  qed
qed

section \<open>The interface\<close>

lemma btree_contains_correct:
  assumes "ranges_ok m"
  shows "btree_contains m x \<longleftrightarrow> x \<in> ranges_elems m"
proof -
  obtain A B where m: "m = A @ B" and A: "\<forall>a\<in>set A. fst a \<le> x" and B: "\<forall>b\<in>set B. x < fst b"
    using ranges_ok_split [OF assms] by metis
  have B': "x \<notin> ranges_elems B" using B by (auto simp: ranges_elems_iff not_le)
  show ?thesis
  proof (cases A rule: rev_cases)
    case Nil
    then show ?thesis using btree_pred_split [OF A B] B' by (simp add: btree_contains_def m)
  next
    case (snoc A0 p)
    have "ranges_ok (A0 @ [p] @ B)" using assms by (simp add: m snoc)
    from ranges_ok_butlast(1) [OF this] have "\<forall>a\<in>set A0. snd a < fst p" by blast
    moreover have "fst p \<le> x" using A by (simp add: snoc)
    ultimately have "x \<notin> ranges_elems A0" by (fastforce simp: ranges_elems_iff)
    with B' \<open>fst p \<le> x\<close> show ?thesis using btree_pred_split [OF A B]
      by (simp add: btree_contains_def m snoc case_prod_beta)
  qed
qed

lemma bt_del_head: "ranges_ok (r # rs) \<Longrightarrow> bt_del (fst r) (r # rs) = rs"
  using bt_del_split [of "[]" r rs] by simp

interpretation brs: range_set ranges_ok ranges_elems btree_new btree_contains btree_insert
  btree_remove btree_min btree_max btree_pop_min
proof (unfold_locales, goal_cases)
  case (4 s x)
  then show ?case by (rule btree_contains_correct)
next
  case (11 s)
  then show ?case using ars.min_elt_eq [of s] by (simp add: btree_min_def array_min_def)
next
  case (12 s)
  then show ?case using ars.max_elt_eq [of s] by (simp add: btree_max_def array_max_def)
next
  case (13 s)
  then show ?case using ranges_elems_empty_iff [of s] by (simp add: btree_pop_min_def btree_peek_min_def)
next
  case (14 s)
  then have "btree_pop_min s = array_pop_min s"
    by (cases s) (auto simp: btree_pop_min_def btree_peek_min_def array_pop_min_def bt_del_head)
  with ars.pop_min_Some [OF 14] show ?case by simp
qed (simp_all add: btree_new_def btree_insert_array btree_remove_array ars.range_laws)

section \<open>Correctness of replace\<close>

lemma replace_next_plain:
  assumes "ri_pred it = None" and "ri_set it = A @ B" and "ri_range it = (s, b)"
    and "\<forall>a\<in>set A. fst a \<le> s" and "\<forall>x\<in>set B. s < fst x" and "ranges_ok (A @ B)"
  shows "replace_next it = (case B of [] \<Rightarrow> (None, it)
     | n # ns \<Rightarrow> if b < fst n then (None, it)
        else (if fst n = b then None else Some (fst n, min b (snd n)),
              it\<lparr>ri_set := A @ ns, ri_range := (s, max b (snd n))\<rparr>))"
proof (cases B)
  case Nil
  then show ?thesis using assms btree_succ_split [of A s "[]"] by (simp add: replace_next_def)
next
  case (Cons n ns)
  have succ: "btree_succ (A @ n # ns) s = Some (fst n, snd n)"
    using btree_succ_split [of A s "n # ns"] assms Cons by simp
  have del: "bt_del (fst n) (A @ n # ns) = A @ ns" using assms(6) Cons by (simp add: bt_del_split)
  have "fst n < snd n" using assms(6) Cons by (simp add: ranges_ok_simps)
  then have "fst n = min b (snd n) \<longleftrightarrow> fst n = b" by (auto simp: min_def)
  then show ?thesis using assms Cons succ del
    by (simp add: replace_next_def Let_def case_prod_beta)
qed

lemma replace_drop_merge:
  assumes "ri_pred it = None" and "ri_set it = A @ B" and "ri_range it = (s, b)"
    and "\<forall>a\<in>set A. fst a < s" and "\<forall>x\<in>set B. s < fst x" and "ranges_ok (A @ B)"
  shows "replace_drop it = A @ array_merge (s, b) B"
  using assms
proof (induction B arbitrary: it b)
  case Nil
  then show ?case
    using replace_next_plain [of it A "[]" s b] bt_put_split [of A s "[]" b]
    by (subst replace_drop_def, subst replace_drain.simps) (simp add: less_imp_le)
next
  case (Cons n ns)
  let ?it = "it\<lparr>ri_set := A @ ns, ri_range := (s, max b (snd n))\<rparr>"
  have nxt: "replace_next it = (if b < fst n then (None, it)
        else (if fst n = b then None else Some (fst n, min b (snd n)), ?it))"
    using replace_next_plain [of it A "n # ns" s b] Cons.prems by (simp add: less_imp_le)
  have ok: "ranges_ok (A @ ns)" "\<forall>x\<in>set ns. snd n < fst x" "fst n < snd n"
    using Cons.prems(6) by (auto simp: ranges_ok_simps)
  consider (apart) "b < fst n" | (touch) "fst n = b" | (hit) "fst n < b" by linarith
  then show ?case
  proof cases
    case apart
    then show ?thesis using bt_put_split [of A s "n # ns" b] Cons.prems nxt
      by (subst replace_drop_def, subst replace_drain.simps) simp
  next
    case touch
    have "array_merge (s, snd n) ns = (s, snd n) # ns" using ok(2) by (intro array_merge_apart) simp
    then show ?thesis using touch nxt ok(3) bt_put_split [of A s ns "snd n"] Cons.prems
      by (subst replace_drop_def, subst replace_drain.simps) (simp add: max_def)
  next
    case hit
    then have "replace_drop it = replace_drop ?it"
      using nxt by (subst replace_drop_def, subst replace_drain.simps)
        (simp add: replace_drop_def case_prod_beta)
    also have "\<dots> = A @ array_merge (s, max b (snd n)) ns"
      using Cons.prems ok(1) by (intro Cons.IH) simp_all
    finally show ?thesis using hit by (simp add: max.commute)
  qed
qed

text \<open>What the \<^verbatim>\<open>for\<close> loop over \<^verbatim>\<open>replace\<close> sees of the ranges after the start of the new one.\<close>

fun replace_hits :: "nat \<Rightarrow> range list \<Rightarrow> range list" where
  "replace_hits b [] = []"
| "replace_hits b (n # ns) =
     (if b \<le> fst n then [] else (fst n, min b (snd n)) # replace_hits (max b (snd n)) ns)"

lemma replace_drain_hits:
  assumes "ri_pred it = None" and "ri_set it = A @ B" and "ri_range it = (s, b)"
    and "\<forall>a\<in>set A. fst a < s" and "\<forall>x\<in>set B. s < fst x" and "ranges_ok (A @ B)"
  shows "fst (replace_drain it) = replace_hits b B
    \<and> replace_drop (snd (replace_drain it)) = A @ array_merge (s, b) B"
  using assms
proof (induction B arbitrary: it b)
  case Nil
  then have "replace_drain it = ([], it)"
    using replace_next_plain [of it A "[]" s b] by (subst replace_drain.simps) (simp add: less_imp_le)
  then show ?case using replace_drop_merge [of it A "[]" s b] Nil by simp
next
  case (Cons n ns)
  let ?it = "it\<lparr>ri_set := A @ ns, ri_range := (s, max b (snd n))\<rparr>"
  have nxt: "replace_next it = (if b < fst n then (None, it)
        else (if fst n = b then None else Some (fst n, min b (snd n)), ?it))"
    using replace_next_plain [of it A "n # ns" s b] Cons.prems by (simp add: less_imp_le)
  have ok: "ranges_ok (A @ ns)" using Cons.prems(6) by (auto simp: ranges_ok_simps)
  consider (apart) "b < fst n" | (touch) "fst n = b" | (hit) "fst n < b" by linarith
  then show ?case
  proof cases
    case apart
    then have "replace_drain it = ([], it)" using nxt by (subst replace_drain.simps) simp
    then show ?thesis using apart replace_drop_merge [of it A "n # ns" s b] Cons.prems by simp
  next
    case touch
    then have "replace_drain it = ([], ?it)" using nxt by (subst replace_drain.simps) simp
    then show ?thesis
      using touch replace_drop_merge [of ?it A ns s "max b (snd n)"] Cons.prems ok
      by (simp add: max.commute)
  next
    case hit
    then have "replace_drain it = ((fst n, min b (snd n)) # fst (replace_drain ?it), snd (replace_drain ?it))"
      using nxt by (subst replace_drain.simps) (simp add: case_prod_beta)
    moreover have "fst (replace_drain ?it) = replace_hits (max b (snd n)) ns
        \<and> replace_drop (snd (replace_drain ?it)) = A @ array_merge (s, max b (snd n)) ns"
      using Cons.prems ok by (intro Cons.IH) simp_all
    ultimately show ?thesis using hit by (simp add: max.commute)
  qed
qed

lemma replace_hits_correct:
  assumes "ranges_ok B"
  shows "ranges_ok (replace_hits b B) \<and> ranges_elems (replace_hits b B) = ranges_elems B \<inter> {..<b}
    \<and> (\<forall>n. (\<forall>s\<in>set B. n < fst s) \<longrightarrow> (\<forall>s\<in>set (replace_hits b B). n < fst s))"
  using assms
proof (induction b B rule: replace_hits.induct)
  case (2 b n ns)
  have n: "fst n < snd n" "ranges_ok ns" "\<forall>s\<in>set ns. snd n < fst s"
    using 2(2) by (auto simp: ranges_ok_Cons)
  show ?case
  proof (cases "b \<le> fst n")
    case True
    have "x \<notin> ranges_elems (n # ns)" if "x < b" for x
      using that True n ranges_elems_gap [OF n(3), of x] by auto
    with True show ?thesis by auto
  next
    case False
    note IH = 2(1) [OF False n(2)]
    have gap: "\<forall>s\<in>set (replace_hits (max b (snd n)) ns). snd n < fst s" using IH n(3) by blast
    have "ranges_ok ((fst n, min b (snd n)) # replace_hits (max b (snd n)) ns)"
      using IH gap n(1) False by (auto simp: ranges_ok_Cons)
    moreover have "ranges_elems ns \<inter> {..<max b (snd n)} = ranges_elems ns \<inter> {..<b}"
    proof -
      have "x < b" if "x \<in> ranges_elems ns" "x < max b (snd n)" for x
        using ranges_elems_gap [OF n(3) that(1)] that(2) by (simp add: max_def split: if_splits)
      then show ?thesis by auto
    qed
    then have "ranges_elems (replace_hits b (n # ns)) = ranges_elems (n # ns) \<inter> {..<b}"
      using IH False by auto
    ultimately show ?thesis using IH False by (fastforce simp: n)
  qed
qed simp

lemma append_merge_correct:
  assumes "ranges_ok A" and "ranges_ok B" and "fst r < snd r"
    and "\<forall>a\<in>set A. snd a < fst r" and "\<forall>b\<in>set B. fst r < fst b"
  shows "ranges_ok (A @ array_merge r B)
    \<and> ranges_elems (A @ array_merge r B) = ranges_elems A \<union> {fst r..<snd r} \<union> ranges_elems B"
proof -
  note mr = array_merge_correct [OF assms(3,2,5)]
  have "\<forall>a\<in>set A. \<forall>b\<in>set (array_merge r B). snd a < fst b"
    using mr assms(4) by (meson less_le_trans)
  with mr assms(1) show ?thesis by (auto simp: ranges_ok_append)
qed

text \<open>The result of a complete use of \<^verbatim>\<open>replace\<close>, where the set splits into \<open>A\<close> and \<open>B\<close> at the
  start of the new range: no range of \<open>A\<close> touches the new one, or the last one does.\<close>

lemma replace_all_apart:
  assumes "ranges_ok (A @ B)" and "fst rg < snd rg"
    and "\<forall>a\<in>set A. snd a < fst rg" and "\<forall>b\<in>set B. fst rg < fst b"
  shows "btree_replace_all (A @ B) rg = (replace_hits (snd rg) B, A @ array_merge rg B)"
proof -
  have lt: "\<forall>a\<in>set A. fst a < fst rg"
    using assms(1,3) by (auto simp: ranges_ok_append) (metis fst_conv less_trans ranges_okD snd_conv)
  have "btree_pred (A @ B) (fst rg) = (if A = [] then None else Some (fst (last A), snd (last A)))"
    using btree_pred_split [of A "fst rg" B] lt assms(4) by (simp add: less_imp_le)
  moreover have "A \<noteq> [] \<Longrightarrow> snd (last A) < fst rg" using assms(3) by simp
  ultimately have it: "btree_replace (A @ B) rg = \<lparr>ri_set = A @ B, ri_range = rg, ri_pred = None\<rparr>"
    by (cases "A = []") (simp_all add: btree_replace_def Let_def case_prod_beta)
  show ?thesis
    using replace_drain_hits [of "btree_replace (A @ B) rg" A B "fst rg" "snd rg"] lt assms(1,4)
    unfolding it btree_replace_all_def by (simp add: case_prod_beta)
qed

lemma replace_all_overlap:
  assumes "ranges_ok (A @ [p] @ B)" and "fst rg < snd rg"
    and "fst p \<le> fst rg" and "fst rg \<le> snd p" and "\<forall>b\<in>set B. fst rg < fst b"
  shows "btree_replace_all (A @ [p] @ B) rg =
    ((if fst rg = snd p then [] else [(fst rg, min (snd rg) (snd p))])
       @ replace_hits (max (snd rg) (snd p)) B,
     A @ array_merge (fst p, max (snd rg) (snd p)) B)"
proof -
  note q = ranges_ok_butlast [OF assms(1)]
  let ?rg = "(fst p, max (snd rg) (snd p))"
  let ?it = "\<lparr>ri_set = A @ B, ri_range = ?rg, ri_pred = None\<rparr>"
  have "\<forall>a\<in>set (A @ [p]). fst a \<le> fst rg" using q(6) assms(3) by fastforce
  then have pr: "btree_pred (A @ [p] @ B) (fst rg) = Some (fst p, snd p)"
    using btree_pred_split [of "A @ [p]" "fst rg" B] assms(5) by simp
  have del: "bt_del (fst p) (A @ [p] @ B) = A @ B" using bt_del_split [of A p B] assms(1) by simp
  have same: "fst rg = min (snd rg) (snd p) \<longleftrightarrow> fst rg = snd p" using assms(2,4) by (auto simp: min_def)
  have it: "btree_replace (A @ [p] @ B) rg = ?it\<lparr>ri_pred := if fst rg = snd p then None
      else Some (fst rg, min (snd rg) (snd p))\<rparr>"
    using assms(3,4) pr del same by (simp add: btree_replace_def Let_def min_absorb2 case_prod_beta)
  have dr: "replace_drain (btree_replace (A @ [p] @ B) rg) =
      ((if fst rg = snd p then [] else [(fst rg, min (snd rg) (snd p))]) @ fst (replace_drain ?it),
       snd (replace_drain ?it))"
  proof (cases "fst rg = snd p")
    case False
    then show ?thesis unfolding it
      by (subst replace_drain.simps) (simp add: replace_next_def case_prod_beta)
  next
    case True
    with it show ?thesis by (simp del: append_Cons)
  qed
  have "ranges_ok (A @ B)" using q(4,5,7) by (simp add: ranges_ok_append)
  moreover have "\<forall>b\<in>set B. fst p < fst b" using q(2,3) by fastforce
  ultimately show ?thesis
    using replace_drain_hits [of ?it A B "fst p" "max (snd rg) (snd p)"] q(6)
    unfolding btree_replace_all_def dr by (simp add: case_prod_beta)
qed

lemma btree_replace_all_correct:
  assumes ok: "ranges_ok m" and rg: "fst rg < snd rg"
  shows "ranges_ok (snd (btree_replace_all m rg))
    \<and> ranges_elems (snd (btree_replace_all m rg)) = ranges_elems m \<union> range_elems rg
    \<and> ranges_ok (fst (btree_replace_all m rg))
    \<and> ranges_elems (fst (btree_replace_all m rg)) = ranges_elems m \<inter> range_elems rg"
proof -
  obtain A B where m: "m = A @ B" and A: "\<forall>a\<in>set A. fst a \<le> fst rg" and B: "\<forall>b\<in>set B. fst rg < fst b"
    using ranges_ok_split [OF ok] by metis
  have okAB: "ranges_ok A" "ranges_ok B" using ok by (simp_all add: m ranges_ok_append)
  note hits = replace_hits_correct [OF okAB(2)]
  show ?thesis
  proof (cases "\<forall>a\<in>set A. snd a < fst rg")
    case True
    have "ranges_elems m \<inter> range_elems rg = ranges_elems B \<inter> {..<snd rg}"
      using True B by (fastforce simp: m ranges_elems_iff range_elems_def)
    with replace_all_apart [OF ok [unfolded m] rg True B] append_merge_correct [OF okAB rg True B] hits
    show ?thesis by (auto simp: m range_elems_def)
  next
    case False
    then obtain A0 p where A0: "A = A0 @ [p]" by (cases A rule: rev_cases) auto
    have ok0: "ranges_ok (A0 @ [p] @ B)" using ok by (simp add: m A0)
    note q = ranges_ok_butlast [OF ok0]
    have pf: "fst p \<le> fst rg" using A by (simp add: A0)
    have pe: "fst rg \<le> snd p" using False q(1) pf by (fastforce simp: A0)
    let ?e = "max (snd rg) (snd p)"
    have B': "\<forall>b\<in>set B. fst p < fst b" using q(2,3) by fastforce
    have merged: "ranges_ok (A0 @ array_merge (fst p, ?e) B)
        \<and> ranges_elems (A0 @ array_merge (fst p, ?e) B) = ranges_elems A0 \<union> {fst p..<?e} \<union> ranges_elems B"
      using append_merge_correct [of A0 B "(fst p, ?e)"] q(1,2,4,5) B' by fastforce
    have un: "{fst p..<?e} = {fst p..<snd p} \<union> {fst rg..<snd rg}" using pf pe rg by auto
    have gap: "\<forall>h\<in>set (replace_hits ?e B). snd p < fst h" using hits q(3) by blast
    have A0_out: "ranges_elems A0 \<inter> range_elems rg = {}"
      using q(1) pf by (fastforce simp: ranges_elems_iff range_elems_def)
    have B_hit: "ranges_elems B \<inter> {..<?e} = ranges_elems B \<inter> range_elems rg"
    proof -
      have "x < ?e \<longleftrightarrow> fst rg \<le> x \<and> x < snd rg" if "x \<in> ranges_elems B" for x
        using ranges_elems_gap [OF q(3) that] ranges_elems_gap [OF B that] by (simp add: max_def)
      then show ?thesis by (auto simp: range_elems_def)
    qed
    let ?hd = "if fst rg = snd p then [] else [(fst rg, min (snd rg) (snd p))]"
    have hd_elems: "ranges_elems ?hd = {fst p..<snd p} \<inter> range_elems rg"
      using pf pe by (auto simp: range_elems_def)
    have "ranges_ok (?hd @ replace_hits ?e B)"
      using hits gap pe rg by (auto simp: ranges_ok_simps)
    moreover have "ranges_elems (?hd @ replace_hits ?e B) = ranges_elems m \<inter> range_elems rg"
      using hd_elems hits B_hit A0_out by (auto simp: m A0)
    ultimately show ?thesis
      using replace_all_overlap [OF ok0 rg pf pe B] merged un by (auto simp: m A0 range_elems_def)
  qed
qed

section \<open>Inserting a single value\<close>

lemma btree_insert_apart:
  assumes "ranges_ok (A @ B)" and "fst x < snd x"
    and "\<forall>a\<in>set A. snd a < fst x" and "\<forall>b\<in>set B. fst x < fst b"
  shows "btree_insert (A @ B) x = (True, A @ array_merge x B)"
proof -
  have "ranges_ok A" "ranges_ok B" using assms(1) by (simp_all add: ranges_ok_append)
  then have "\<forall>a\<in>set A. fst a < snd a \<and> snd a < fst x" using assms(3) by (auto dest: ranges_okD)
  from array_insert_loop_skip [OF this assms(2)]
    array_insert_loop_front [OF assms(2,4) \<open>ranges_ok B\<close>] assms(1,2)
  show ?thesis by (simp add: btree_insert_array array_insert_def range_empty_def)
qed

lemma btree_insert_overlap:
  assumes "ranges_ok (A @ [p] @ B)" and "\<forall>b\<in>set B. fst x < fst b"
    and "fst x < snd x" and "fst p \<le> fst x" and "fst x \<le> snd p"
  shows "btree_insert (A @ [p] @ B) x =
    (if snd x \<le> snd p then (False, A @ [p] @ B) else (True, A @ array_merge (fst p, snd x) B))"
proof -
  note q = ranges_ok_butlast [OF assms(1)]
  have "\<forall>a\<in>set A. fst a < snd a \<and> snd a < fst x" using q(1) assms(4) by fastforce
  from array_insert_loop_skip [OF this assms(3), of "p # B" False] show ?thesis
    using assms by (auto simp: btree_insert_array array_insert_def range_empty_def Let_def)
qed

lemma merge_one:
  assumes "ranges_ok B" and "\<forall>b\<in>set B. x < fst b"
  shows "array_merge (s, Suc x) B = (case B of [] \<Rightarrow> [(s, Suc x)]
    | n # ns \<Rightarrow> if fst n = Suc x then (s, snd n) # ns else (s, Suc x) # B)"
proof (cases B)
  case (Cons n ns)
  with assms have n: "x < fst n" "fst n < snd n" "\<forall>b\<in>set ns. snd n < fst b"
    by (auto simp: ranges_ok_Cons)
  then have "array_merge (s, snd n) ns = (s, snd n) # ns" by (intro array_merge_apart) simp
  with n Cons show ?thesis by (auto simp: max_def)
qed simp

lemma btree_put_one_split:
  assumes "ranges_ok (A @ B)" and "\<forall>a\<in>set A. fst a < s" and "s \<le> x" and "\<forall>b\<in>set B. x < fst b"
    and "Suc x < 2 ^ 64"
  shows "btree_put_one (A @ B) s x = A @ array_merge (s, Suc x) B"
proof -
  have Ax: "\<forall>a\<in>set A. fst a \<le> x" using assms(2,3) by fastforce
  have Bs: "\<forall>b\<in>set B. s < fst b" using assms(3,4) by fastforce
  have add: "u64_add x (Suc 0) = Suc x" using assms(5) by (simp add: u64_arith)
  have okB: "ranges_ok B" using assms(1) by (simp add: ranges_ok_append)
  show ?thesis
  proof (cases B)
    case Nil
    then show ?thesis using btree_succ_split [OF Ax assms(4)] bt_put_split [OF assms(2) Bs]
      by (simp add: btree_put_one_def add)
  next
    case (Cons n ns)
    have del: "bt_del (fst n) (A @ n # ns) = A @ ns" using bt_del_split assms(1) Cons by simp
    have "bt_put s (snd n) (A @ ns) = A @ (s, snd n) # ns"
      using bt_put_split [OF assms(2), of ns] Bs Cons by simp
    then show ?thesis
      using btree_succ_split [OF Ax assms(4)] bt_put_split [OF assms(2) Bs, of "Suc x"]
        merge_one [OF okB assms(4), of s] Cons del
      by (cases "fst n = Suc x") (simp_all add: btree_put_one_def add case_prod_beta del: array_merge.simps)
  qed
qed

lemma btree_insert_one_eq:
  assumes ok: "ranges_ok m" and x: "Suc x < 2 ^ 64"
  shows "btree_insert_one m x = btree_insert m (x, Suc x)"
proof -
  obtain A B where m: "m = A @ B" and A: "\<forall>a\<in>set A. fst a \<le> x" and B: "\<forall>b\<in>set B. x < fst b"
    using ranges_ok_split [OF ok] by metis
  have join: "btree_insert_one m x = (True, A @ array_merge (x, Suc x) B)"
    if "\<forall>a\<in>set A. snd a < x"
  proof -
    have lt: "\<forall>a\<in>set A. fst a < x"
      using that ok unfolding m ranges_ok_append by (metis less_trans ranges_okD)
    have "A \<noteq> [] \<Longrightarrow> snd (last A) < x" using that by simp
    then show ?thesis
      using btree_pred_split [OF A B] btree_put_one_split [OF ok [unfolded m] lt order_refl B x]
      by (cases "A = []")
        (simp_all add: btree_insert_one_def m case_prod_beta)
  qed
  show ?thesis
  proof (cases "\<forall>a\<in>set A. snd a < x")
    case True
    from join [OF this] btree_insert_apart [of A B "(x, Suc x)"] True B ok show ?thesis by (simp add: m)
  next
    case False
    then obtain A0 p where A0: "A = A0 @ [p]" by (cases A rule: rev_cases) auto
    have ok0: "ranges_ok (A0 @ [p] @ B)" using ok by (simp add: m A0)
    note q = ranges_ok_butlast [OF ok0]
    have pf: "fst p \<le> x" using A by (simp add: A0)
    have pe: "x \<le> snd p" using False q(1) pf by (fastforce simp: A0)
    have pr: "btree_pred (A0 @ p # B) x = Some (fst p, snd p)"
      using btree_pred_split [OF A B] by (simp add: A0)
    have del: "bt_del (fst p) (A0 @ p # B) = A0 @ B" using bt_del_split [of A0 p B] ok0 by simp
    have "ranges_ok (A0 @ B)" using q(4,5,7) by (simp add: ranges_ok_append)
    from btree_put_one_split [OF this q(6) pf B x]
    have "btree_insert_one m x = (if x < snd p then (False, m)
        else (True, A0 @ array_merge (fst p, Suc x) B))"
      using pe by (auto simp: btree_insert_one_def m A0 pr del case_prod_beta)
    with btree_insert_overlap [OF ok0, of "(x, Suc x)"] B pf pe show ?thesis
      by (auto simp: m A0)
  qed
qed

section \<open>Properties\<close>

text \<open>(C7) The two range sets are interchangeable: any sequence of insertions and removals, started
  from the empty set, reports the same flags and builds the same list of ranges in
  \<^verbatim>\<open>ArrayRangeSet\<close> as in the B-tree \<^verbatim>\<open>RangeSet\<close>; that list is sorted, free of empty and of
  touching ranges, and flags and contents are those of plain set union and difference.\<close>

theorem range_sets_agree:
  "run_range_ops array_insert array_remove ops array_new
     = run_range_ops btree_insert btree_remove ops btree_new
   \<and> ranges_ok (snd (run_range_ops btree_insert btree_remove ops btree_new))
   \<and> map_prod id ranges_elems (run_range_ops btree_insert btree_remove ops btree_new)
     = run_range_ops set_insert_range set_remove_range ops {}"
proof -
  let ?a = "run_range_ops array_insert array_remove ops array_new"
  let ?b = "run_range_ops btree_insert btree_remove ops btree_new"
  let ?s = "run_range_ops set_insert_range set_remove_range ops {}"
  have a: "ranges_ok (snd ?a)" "?s = map_prod id ranges_elems ?a"
    using ars.run_refines [OF ars.inv_empty, of ops] by (simp_all add: ars.elems_empty)
  have b: "ranges_ok (snd ?b)" "?s = map_prod id ranges_elems ?b"
    using brs.run_refines [OF brs.inv_empty, of ops] by (simp_all add: brs.elems_empty)
  have "fst ?a = fst ?b" and "ranges_elems (snd ?a) = ranges_elems (snd ?b)"
    using a(2) b(2) by (metis fst_map_prod id_apply, metis snd_map_prod)
  then have "?a = ?b" using ranges_ok_unique [OF a(1) b(1)] by (simp add: prod_eq_iff)
  with b show ?thesis by simp
qed

text \<open>(C8) \<^verbatim>\<open>RangeSet::replace\<close> with a non-empty range: the loop over the iterator sees exactly the
  parts of the new range that were already present, in order and without overlaps, and once the
  iterator is dropped the set is the union, still in canonical form.\<close>

theorem replace_reports_overlap:
  assumes "ranges_ok m" and "\<not> range_empty rg" and "btree_replace_all m rg = (hits, m')"
  shows "ranges_ok m' \<and> ranges_elems m' = ranges_elems m \<union> range_elems rg
    \<and> ranges_ok hits \<and> ranges_elems hits = ranges_elems m \<inter> range_elems rg"
  using btree_replace_all_correct [OF assms(1), of rg] assms(2,3) by (simp add: range_empty_def)

theorem replace_reports_overlap_witness:
  "ranges_ok [(2, 4), (6, 9)] \<and> \<not> range_empty (3, 7)
   \<and> btree_replace_all [(2, 4), (6, 9)] (3, 7) = ([(3, 4), (6, 7)], [(2, 9)])
   \<and> ranges_elems [(2, 9)] = ranges_elems [(2, 4), (6, 9)] \<union> range_elems (3, 7)"
proof -
  have h: "ranges_ok [(2, 4), (6, 9)]" "\<not> range_empty (3, 7)"
    "btree_replace_all [(2, 4), (6, 9)] (3, 7) = ([(3, 4), (6, 7)], [(2, 9)])"
    by code_simp+
  from replace_reports_overlap [OF h] h show ?thesis by blast
qed

text \<open>The single-value insertion of the B-tree set is the general insertion of the range
  \<open>x..x + 1\<close>, in result and in effect, for every value below \<^verbatim>\<open>u64::MAX\<close>.\<close>

theorem insert_one_is_insert:
  assumes "ranges_ok m" and "x < 2 ^ 64 - 1"
  shows "btree_insert_one m x = btree_insert m (x, x + 1)"
  using btree_insert_one_eq [of m x] assms by simp

theorem insert_one_is_insert_witness:
  "ranges_ok [(2, 5), (6, 9)] \<and> btree_insert_one [(2, 5), (6, 9)] 5 = btree_insert [(2, 5), (6, 9)] (5, 6)
   \<and> btree_insert_one [(2, 5), (6, 9)] 5 = (True, [(2, 9)])"
proof -
  have h: "ranges_ok [(2, 5), (6, 9)]" by code_simp
  have "btree_insert_one [(2, 5), (6, 9)] 5 = btree_insert [(2, 5), (6, 9)] (5, 5 + 1)"
    by (rule insert_one_is_insert [OF h]) simp
  moreover have "btree_insert_one [(2, 5), (6, 9)] 5 = (True, [(2, 9)])" by code_simp
  ultimately show ?thesis using h by simp
qed

end
