(* ===== verification/Coding.thy ===== *)
theory Coding
  imports Prelude
begin

unbundle bit_operations_syntax

text \<open>
  Byte-level coding: the \<^verbatim>\<open>Codec\<close> trait of \<^verbatim>\<open>src/src/coding.rs\<close> with its fixed-width
  implementations, and the QUIC variable-length integer of \<^verbatim>\<open>src/src/varint.rs\<close>.  A buffer that
  is read (\<^verbatim>\<open>Buf\<close>) is the list of its remaining bytes, a buffer that is written (\<^verbatim>\<open>BufMut\<close>)
  the list of the bytes written so far.  The trait is the locale \<open>codec\<close>; the clients of the
  trait get their lemmas from its interpretations.
\<close>

section \<open>Big-endian bytes\<close>

text \<open>\<open>be_bytes k n\<close> is the \<open>k\<close>-byte big-endian representation that \<^verbatim>\<open>to_be_bytes\<close> and the
  \<^verbatim>\<open>put_u\<close> methods write; \<open>be_acc 0\<close> reads such bytes, as \<^verbatim>\<open>from_be_bytes\<close> and the
  \<^verbatim>\<open>get_u\<close> methods do.\<close>

fun be_bytes :: "nat \<Rightarrow> nat \<Rightarrow> bytes" where
  "be_bytes 0 n = []"
| "be_bytes (Suc k) n = of_nat (n div 256 ^ k) # be_bytes k n"

fun be_acc :: "nat \<Rightarrow> bytes \<Rightarrow> nat" where
  "be_acc a [] = a"
| "be_acc a (b # bs) = be_acc (a * 256 + unat b) bs"

lemma length_be_bytes [simp]: "length (be_bytes k n) = k"
  by (induction k) auto

lemma be_acc_add: "be_acc a bs = a * 256 ^ length bs + be_acc 0 bs"
proof (induction bs arbitrary: a)
  case Nil then show ?case by simp
next
  case (Cons b bs)
  have "be_acc (a * 256 + unat b) bs = (a * 256 + unat b) * 256 ^ length bs + be_acc 0 bs" by (rule Cons)
  moreover have "be_acc (unat b) bs = unat b * 256 ^ length bs + be_acc 0 bs" by (rule Cons)
  ultimately show ?case by (simp add: algebra_simps)
qed

lemma be_acc_less: "be_acc 0 bs < 256 ^ length bs"
proof (induction bs)
  case Nil then show ?case by simp
next
  case (Cons b bs)
  have "be_acc 0 (b # bs) = unat b * 256 ^ length bs + be_acc 0 bs"
    by (simp add: be_acc_add [of "unat b"])
  also have "\<dots> < (unat b + 1) * 256 ^ length bs" using Cons by simp
  also have "\<dots> \<le> 256 * 256 ^ length bs"
    using word8_unat_less [of b] by (intro mult_right_mono) linarith+
  finally show ?case by simp
qed

lemma be_bytes_mod: "k \<le> m \<Longrightarrow> be_bytes k (n + a * 256 ^ m) = be_bytes k n"
proof (induction k)
  case (Suc k)
  have zero256: "(of_nat 256 :: u8) = 0" by simp
  have "a * 256 ^ m = (256 * (a * 256 ^ (m - Suc k))) * 256 ^ k"
    using Suc.prems by (simp add: power_add [symmetric] flip: power_Suc)
  then have "(n + a * 256 ^ m) div 256 ^ k = n div 256 ^ k + 256 * (a * 256 ^ (m - Suc k))"
    by (simp only: div_mult_self1 power_not_zero) simp
  then have "(of_nat ((n + a * 256 ^ m) div 256 ^ k) :: u8) = of_nat (n div 256 ^ k)"
    by (simp only: of_nat_add of_nat_mult zero256) simp
  with Suc show ?case by simp
qed simp

lemma be_bytes_be_acc: "be_bytes (length bs) (be_acc 0 bs) = bs"
proof (induction bs)
  case (Cons b bs)
  have e: "be_acc 0 (b # bs) = be_acc 0 bs + unat b * 256 ^ length bs"
    by (simp add: be_acc_add [of "unat b"])
  have "be_acc 0 (b # bs) div 256 ^ length bs = unat b"
    unfolding e using be_acc_less [of bs] by simp
  moreover have "be_bytes (length bs) (be_acc 0 (b # bs)) = bs"
    unfolding e using Cons be_bytes_mod [of "length bs" "length bs" "be_acc 0 bs" "unat b"] by simp
  ultimately show ?case by simp
qed simp

lemma be_acc_be_bytes: "be_acc a (be_bytes k n) = a * 256 ^ k + n mod 256 ^ k"
proof (induction k arbitrary: a)
  case 0 then show ?case by simp
next
  case (Suc k)
  have "n mod (256 ^ k * 256) = 256 ^ k * (n div 256 ^ k mod 256) + n mod 256 ^ k"
    by (rule mod_mult2_eq)
  then show ?case using Suc by (simp add: algebra_simps unsigned_of_nat take_bit_eq_mod)
qed

lemma nat_push_or: "(y::nat) < 2 ^ k \<Longrightarrow> push_bit k t OR y = t * 2 ^ k + y"
proof -
  assume "y < 2 ^ k"
  then have "take_bit k y = y" by (simp add: take_bit_nat_eq_self)
  then have "push_bit k t AND y = 0"
    by (auto simp: bit_eq_iff bit_and_iff bit_push_bit_iff) (metis bit_take_bit_iff not_less)
  then show ?thesis
    by (simp add: push_bit_eq_mult disjunctive_add_eq_or)
qed

lemma unat_tag_or:
  fixes y :: "'a::len word"
  assumes "unat y < 2 ^ k" and "t * 2 ^ k < 2 ^ LENGTH('a)"
  shows "unat (push_bit k (of_nat t) OR y) = t * 2 ^ k + unat y"
proof -
  have "t * 1 \<le> t * 2 ^ k" by (rule mult_le_mono2) simp
  with assms(2) have "t < 2 ^ LENGTH('a)" by linarith
  then have t: "take_bit LENGTH('a) t = t" by (rule take_bit_nat_eq_self)
  have "unat (push_bit k (of_nat t) :: 'a word) = take_bit LENGTH('a) (push_bit k t)"
    by (simp add: unsigned_push_bit_eq unsigned_of_nat t)
  also have "\<dots> = t * 2 ^ k"
    using assms(2) by (simp add: push_bit_eq_mult take_bit_nat_eq_self)
  finally show ?thesis
    using assms(1) nat_push_or by (simp add: unsigned_or_eq push_bit_eq_mult)
qed

lemma unat_and_63: "unat ((b::u8) AND 63) = unat b mod 64"
proof -
  have "b AND 63 = take_bit 6 b" by (simp add: take_bit_eq_mask mask_eq_exp_minus_1)
  then have "unat (b AND 63) = take_bit 6 (unat b)"
    by (simp only: unsigned_take_bit_eq)
  then show ?thesis by (simp add: take_bit_eq_mod)
qed

lemma unat_shift_6: "unat (drop_bit 6 (b::u8)) = unat b div 64"
  by (simp only: unat_drop_bit_eq) (simp add: drop_bit_eq_div)

section \<open>The Codec trait\<close>

datatype unexpected_end = UnexpectedEnd

type_synonym 'a decoder = "(bytes, unexpected_end, 'a) op"

text \<open>Decoding \<open>n\<close> values in a row, stopping at the first error.\<close>

fun decode_many :: "'a decoder \<Rightarrow> nat \<Rightarrow> 'a list decoder" where
  "decode_many dec 0 = op_ret []"
| "decode_many dec (Suc n) = op_bind dec (\<lambda>x. op_bind (decode_many dec n) (\<lambda>xs. op_ret (x # xs)))"

fun encode_many :: "('a \<Rightarrow> bytes \<Rightarrow> bytes) \<Rightarrow> 'a list \<Rightarrow> bytes \<Rightarrow> bytes" where
  "encode_many enc [] buf = buf"
| "encode_many enc (x # xs) buf = encode_many enc xs (enc x buf)"

locale codec =
  fixes encode :: "'a \<Rightarrow> bytes \<Rightarrow> bytes"
    and decode :: "'a decoder"
    and ok :: "'a \<Rightarrow> bool"
  assumes encode_append: "encode x buf = buf @ encode x []"
    and decode_encode: "ok x \<Longrightarrow> decode (encode x [] @ rest) = (Inr x, rest)"
    and decode_ok: "decode buf = (Inr x, rest) \<Longrightarrow> ok x"
    and decode_consumes: "decode buf = (Inr x, rest) \<Longrightarrow> \<exists>used. used \<noteq> [] \<and> buf = used @ rest"
begin

lemma decode_encode_any: "ok x \<Longrightarrow> decode (drop (length buf) (encode x buf) @ rest) = (Inr x, rest)"
  by (subst encode_append) (simp add: decode_encode)

lemma prefix_free:
  assumes "ok x" and "ok y" and "encode x [] @ r = encode y [] @ s"
  shows "x = y \<and> r = s"
proof -
  have "decode (encode x [] @ r) = (Inr x, r)" using assms(1) by (rule decode_encode)
  moreover have "decode (encode x [] @ r) = (Inr y, s)"
    unfolding assms(3) using assms(2) by (rule decode_encode)
  ultimately show ?thesis by simp
qed

lemma decode_shorter: "decode buf = (Inr x, rest) \<Longrightarrow> length rest < length buf"
  by (auto dest!: decode_consumes)

lemma encode_many_append: "encode_many encode xs buf = buf @ encode_many encode xs []"
proof (induction xs arbitrary: buf)
  case (Cons x xs)
  have "encode_many encode xs (encode x buf) = (buf @ encode x []) @ encode_many encode xs []"
    by (subst Cons) (subst encode_append, rule refl)
  also have "\<dots> = buf @ encode_many encode xs (encode x [])"
    by (subst Cons [of "encode x []"]) simp
  finally show ?case by simp
qed simp

lemma decode_many_encode_many:
  "list_all ok xs \<Longrightarrow> decode_many decode (length xs) (encode_many encode xs [] @ rest) = (Inr xs, rest)"
proof (induction xs)
  case (Cons x xs)
  have "encode_many encode (x # xs) [] @ rest = encode x [] @ (encode_many encode xs [] @ rest)"
    by (simp add: encode_many_append [of _ "encode x []"])
  with Cons show ?case by (simp add: decode_encode)
qed simp

end

text \<open>A fixed-width implementation also inverts the other way and reports a short buffer without
  consuming it.\<close>

locale fixed_codec = codec +
  fixes width :: nat
  assumes encode_width: "length (encode x []) = width"
    and encode_decode: "decode buf = (Inr x, rest) \<Longrightarrow> buf = encode x [] @ rest"
    and decode_short: "length buf < width \<Longrightarrow> decode buf = (Inl UnexpectedEnd, buf)"
begin

lemma encode_width_any: "length (encode x buf) = length buf + width"
  by (subst encode_append) (simp add: encode_width)

lemma encode_many_width: "length (encode_many encode xs []) = width * length xs"
proof (induction xs)
  case (Cons x xs)
  then show ?case by (simp add: encode_many_append [of _ "encode x []"] encode_width)
qed simp

end

section \<open>Fixed-width integers and addresses\<close>

definition put_uint :: "nat \<Rightarrow> 'a::len word \<Rightarrow> bytes \<Rightarrow> bytes" where
  "put_uint k x buf = buf @ be_bytes k (unat x)"

definition get_uint :: "nat \<Rightarrow> 'a::len word decoder" where
  "get_uint k buf = (if length buf < k then (Inl UnexpectedEnd, buf)
     else (Inr (of_nat (be_acc 0 (take k buf))), drop k buf))"

lemma get_put_uint:
  fixes x :: "'a::len word"
  assumes "LENGTH('a) = 8 * k"
  shows "get_uint k (put_uint k x [] @ rest) = (Inr x, rest)"
proof -
  have "unat x < 256 ^ k" using unsigned_less [of x] assms by (simp add: power_mult)
  then show ?thesis by (simp add: get_uint_def put_uint_def be_acc_be_bytes)
qed

lemma put_get_uint:
  fixes x :: "'a::len word"
  assumes w: "LENGTH('a) = 8 * k" and d: "get_uint k buf = (Inr x, rest)"
  shows "buf = put_uint k x [] @ rest"
proof -
  from d have k: "k \<le> length buf" and r: "rest = drop k buf"
    and x: "x = of_nat (be_acc 0 (take k buf))"
    by (auto simp: get_uint_def split: if_splits)
  have "be_acc 0 (take k buf) < 2 ^ LENGTH('a)"
    using be_acc_less [of "take k buf"] k w by (simp add: power_mult)
  then have "unat x = be_acc 0 (take k buf)" by (simp add: x unat_of_nat_less)
  then have "put_uint k x [] = be_bytes (length (take k buf)) (be_acc 0 (take k buf))"
    using k by (simp add: put_uint_def)
  then show ?thesis by (simp only: be_bytes_be_acc r append_take_drop_id)
qed

lemma fixed_codec_uint:
  assumes "LENGTH('a::len) = 8 * k" and "0 < k"
  shows "fixed_codec (put_uint k :: 'a word \<Rightarrow> _) (get_uint k) (\<lambda>_. True) k"
proof
  fix x :: "'a word" and buf rest
  show "put_uint k x buf = buf @ put_uint k x []" by (simp add: put_uint_def)
  show "get_uint k (put_uint k x [] @ rest) = (Inr x, rest)"
    using assms(1) by (rule get_put_uint)
  show "length (put_uint k x []) = k" by (simp add: put_uint_def)
  show "length buf < k \<Longrightarrow> get_uint k buf = (Inl UnexpectedEnd, buf)" by (simp add: get_uint_def)
  assume d: "get_uint k buf = (Inr x, rest)"
  show e: "buf = put_uint k x [] @ rest" using assms(1) d by (rule put_get_uint)
  have "put_uint k x [] \<noteq> []" using assms(2) by (simp add: put_uint_def flip: length_greater_0_conv)
  with e show "\<exists>used. used \<noteq> [] \<and> buf = used @ rest" by blast
qed simp

definition u8_encode :: "u8 \<Rightarrow> bytes \<Rightarrow> bytes" where
  "u8_encode x buf = buf @ [x]"

definition u8_decode :: "u8 decoder" where
  "u8_decode buf = (case buf of [] \<Rightarrow> (Inl UnexpectedEnd, buf) | x # rest \<Rightarrow> (Inr x, rest))"

definition u16_encode :: "u16 \<Rightarrow> bytes \<Rightarrow> bytes" where
  "u16_encode x buf = put_uint 2 x buf"

definition u16_decode :: "u16 decoder" where
  "u16_decode buf = get_uint 2 buf"

definition u32_encode :: "u32 \<Rightarrow> bytes \<Rightarrow> bytes" where
  "u32_encode x buf = put_uint 4 x buf"

definition u32_decode :: "u32 decoder" where
  "u32_decode buf = get_uint 4 buf"

definition u64_encode :: "u64 \<Rightarrow> bytes \<Rightarrow> bytes" where
  "u64_encode x buf = put_uint 8 x buf"

definition u64_decode :: "u64 decoder" where
  "u64_decode buf = get_uint 8 buf"

text \<open>An IP address is the word whose big-endian bytes are its octets.\<close>

definition ipv4_encode :: "32 word \<Rightarrow> bytes \<Rightarrow> bytes" where
  "ipv4_encode a buf = put_uint 4 a buf"

definition ipv4_decode :: "32 word decoder" where
  "ipv4_decode buf = get_uint 4 buf"

definition ipv6_encode :: "128 word \<Rightarrow> bytes \<Rightarrow> bytes" where
  "ipv6_encode a buf = put_uint 16 a buf"

definition ipv6_decode :: "128 word decoder" where
  "ipv6_decode buf = get_uint 16 buf"

interpretation u8c: fixed_codec u8_encode u8_decode "\<lambda>_. True" 1
  by unfold_locales (auto simp: u8_encode_def u8_decode_def split: list.splits)

interpretation u16c: fixed_codec u16_encode u16_decode "\<lambda>_. True" 2
  unfolding u16_encode_def [abs_def] u16_decode_def [abs_def] by (rule fixed_codec_uint) simp_all

interpretation u32c: fixed_codec u32_encode u32_decode "\<lambda>_. True" 4
  unfolding u32_encode_def [abs_def] u32_decode_def [abs_def] by (rule fixed_codec_uint) simp_all

interpretation u64c: fixed_codec u64_encode u64_decode "\<lambda>_. True" 8
  unfolding u64_encode_def [abs_def] u64_decode_def [abs_def] by (rule fixed_codec_uint) simp_all

interpretation ipv4c: fixed_codec ipv4_encode ipv4_decode "\<lambda>_. True" 4
  unfolding ipv4_encode_def [abs_def] ipv4_decode_def [abs_def] by (rule fixed_codec_uint) simp_all

interpretation ipv6c: fixed_codec ipv6_encode ipv6_decode "\<lambda>_. True" 16
  unfolding ipv6_encode_def [abs_def] ipv6_decode_def [abs_def] by (rule fixed_codec_uint) simp_all

section \<open>Variable-length integers\<close>

datatype varint_bounds_exceeded = VarIntBoundsExceeded

text \<open>A \<^verbatim>\<open>VarInt\<close> wraps a \<^verbatim>\<open>u64\<close>; its documented invariant is \<open>varint_ok\<close>.\<close>

type_synonym varint = u64

definition varint_max :: varint where
  "varint_max = push_bit 62 1 - 1"

definition varint_ok :: "varint \<Rightarrow> bool" where
  "varint_ok x \<longleftrightarrow> x < 2 ^ 62"

definition from_u64 :: "u64 \<Rightarrow> varint_bounds_exceeded + varint" where
  "from_u64 x = (if x < 2 ^ 62 then Inr x else Inl VarIntBoundsExceeded)"

definition varint_size :: "varint \<Rightarrow> nat" where
  "varint_size x = (if x < 2 ^ 6 then 1 else if x < 2 ^ 14 then 2
     else if x < 2 ^ 30 then 4 else if x < 2 ^ 62 then 8 else 8)"

definition encode_checked :: "u64 \<Rightarrow> (bytes, varint_bounds_exceeded, unit) op" where
  "encode_checked x w =
     (if x < 2 ^ 6 then (Inr (), w @ [ucast x])
      else if x < 2 ^ 14 then (Inr (), put_uint 2 (push_bit 14 1 OR ucast x :: u16) w)
      else if x < 2 ^ 30 then (Inr (), put_uint 4 (push_bit 30 2 OR ucast x :: u32) w)
      else if x < 2 ^ 62 then (Inr (), put_uint 8 (push_bit 62 3 OR x) w)
      else (Inl VarIntBoundsExceeded, w))"

definition varint_encode :: "varint \<Rightarrow> bytes \<Rightarrow> bytes" where
  "varint_encode x w = snd (encode_checked x w)"

text \<open>The two tag bits select one of four lengths; the last branch is tag \<open>3\<close>, the only value
  left of a byte shifted right by six.\<close>

definition varint_decode :: "varint decoder" where
  "varint_decode r = (case r of [] \<Rightarrow> (Inl UnexpectedEnd, r) | b # r1 \<Rightarrow>
     let tag = drop_bit 6 b; b0 = b AND 63 in
     if tag = 0 then (Inr (ucast b0), r1)
     else if tag = 1 then
       (if length r1 < 1 then (Inl UnexpectedEnd, r1)
        else (Inr (of_nat (be_acc 0 (b0 # take 1 r1))), drop 1 r1))
     else if tag = 2 then
       (if length r1 < 3 then (Inl UnexpectedEnd, r1)
        else (Inr (of_nat (be_acc 0 (b0 # take 3 r1))), drop 3 r1))
     else
       (if length r1 < 7 then (Inl UnexpectedEnd, r1)
        else (Inr (of_nat (be_acc 0 (b0 # take 7 r1))), drop 7 r1)))"

definition get_var :: "u64 decoder" where
  "get_var buf = varint_decode buf"

definition write_var :: "u64 \<Rightarrow> (bytes, varint_bounds_exceeded, unit) op" where
  "write_var x w = encode_checked x w"

definition write_var_or_debug_assert :: "u64 \<Rightarrow> bytes \<Rightarrow> bytes" where
  "write_var_or_debug_assert x w = snd (write_var x w)"

subsection \<open>Uniform descriptions of encoder and decoder\<close>

text \<open>With tag \<open>t\<close> the encoding has \<open>2 ^ t\<close> bytes: six bits in the first byte and
  \<open>varint_tail t\<close> further bytes.\<close>

definition varint_tail :: "nat \<Rightarrow> nat" where
  "varint_tail t = 2 ^ t - 1"

lemma varint_tail_simps [simp]:
  "varint_tail 0 = 0" "varint_tail (Suc 0) = 1" "varint_tail 2 = 3" "varint_tail 3 = 7"
  by (simp_all add: varint_tail_def)

lemma tag_cases: "t < 4 \<Longrightarrow> t = 0 \<or> t = Suc 0 \<or> t = 2 \<or> t = (3::nat)"
  by auto

lemma varint_decode_byte:
  assumes b: "unat b = t * 64 + h" and t: "t < 4" and h: "h < 64"
  shows "varint_decode (b # r) = (if length r < varint_tail t then (Inl UnexpectedEnd, r)
     else (Inr (of_nat (h * 256 ^ varint_tail t + be_acc 0 (take (varint_tail t) r))),
           drop (varint_tail t) r))"
proof -
  have tag: "unat (drop_bit 6 b) = t" unfolding unat_shift_6 using b h by simp
  have low: "unat (b AND 63) = h" unfolding unat_and_63 using b h by simp
  have lowc: "(ucast (b AND 63) :: u64) = of_nat h"
    by (simp flip: low)
  have eq: "drop_bit 6 b = of_nat t" unfolding tag [symmetric] by simp
  have dec: "varint_decode (b # r) = (let k = varint_tail t in
      if length r < k then (Inl UnexpectedEnd, r)
      else (Inr (of_nat (be_acc 0 ((b AND 63) # take k r))), drop k r))"
    using tag_cases [OF t]
    by (elim disjE) (simp_all add: varint_decode_def eq lowc low Let_def del: drop_bit_numeral_bit1)
  have "be_acc 0 ((b AND 63) # xs) = h * 256 ^ length xs + be_acc 0 xs" for xs
    using be_acc_add [of h xs] by (simp add: low)
  then show ?thesis unfolding dec by (simp add: Let_def)
qed

lemma be_bytes_tagged:
  assumes "t < 4" and "n < 64 * 256 ^ j"
  shows "be_bytes (Suc j) (t * 2 ^ (8 * j + 6) + n) = of_nat (t * 64 + n div 256 ^ j) # be_bytes j n"
proof -
  have e: "t * 2 ^ (8 * j + 6) + n = n + (t * 64) * 256 ^ j"
    by (simp add: power_add power_mult)
  have "(n + (t * 64) * 256 ^ j) div 256 ^ j = t * 64 + n div 256 ^ j"
    by (simp add: add.commute)
  then show ?thesis unfolding e using be_bytes_mod [of j j n "t * 64"] by simp
qed

definition varint_tag :: "nat \<Rightarrow> nat" where
  "varint_tag n = (if n < 2 ^ 6 then 0 else if n < 2 ^ 14 then 1 else if n < 2 ^ 30 then 2 else 3)"

lemma varint_tag_props:
  assumes "n < 2 ^ 62"
  shows "varint_tag n < 4" and "n < 64 * 256 ^ varint_tail (varint_tag n)"
    and "\<And>t. t < varint_tag n \<Longrightarrow> 64 * 256 ^ varint_tail t \<le> n"
proof -
  show "varint_tag n < 4" by (simp add: varint_tag_def)
  show "n < 64 * 256 ^ varint_tail (varint_tag n)"
    using assms by (simp add: varint_tag_def)
  show "64 * 256 ^ varint_tail t \<le> n" if t: "t < varint_tag n" for t
  proof -
    have "t = 0 \<or> t = Suc 0 \<or> t = 2" using t by (auto simp: varint_tag_def split: if_splits)
    then show ?thesis using t by (elim disjE) (simp_all add: varint_tag_def split: if_splits)
  qed
qed

lemma varint_size_tag: "varint_size x = (if x < 2 ^ 62 then 2 ^ varint_tag (unat x) else 8)"
  unfolding varint_size_def by (simp add: word_less_nat_alt varint_tag_def)

lemma varint_encode_shape:
  assumes "x < 2 ^ 62"
  defines "n \<equiv> unat x" and "t \<equiv> varint_tag (unat x)"
  shows "varint_encode x w = w @ of_nat (t * 64 + n div 256 ^ varint_tail t) # be_bytes (varint_tail t) n"
proof -
  have n: "n < 2 ^ 62" using assms(1) by (simp add: word_less_nat_alt n_def)
  have tagged: "w @ be_bytes (Suc (varint_tail t)) (t * 2 ^ (8 * varint_tail t + 6) + n)
      = w @ of_nat (t * 64 + n div 256 ^ varint_tail t) # be_bytes (varint_tail t) n"
    using be_bytes_tagged varint_tag_props [OF n] unfolding t_def n_def by simp
  have conv: "varint_encode x w = w @ be_bytes (Suc (varint_tail t)) (t * 2 ^ (8 * varint_tail t + 6) + n)"
  proof -
    consider "n < 2 ^ 6" | "\<not> n < 2 ^ 6" "n < 2 ^ 14" | "\<not> n < 2 ^ 14" "n < 2 ^ 30" | "\<not> n < 2 ^ 30"
      by blast
    then show ?thesis
    proof cases
      case 1
      then show ?thesis
        by (simp add: varint_encode_def encode_checked_def word_less_nat_alt t_def n_def varint_tag_def)
    next
      case 2
      then have "unat (push_bit 14 1 OR ucast x :: u16) = 2 ^ 14 + n"
        using unat_tag_or [of "ucast x :: u16" 14 1]
        by (simp add: n_def unsigned_ucast_eq take_bit_nat_eq_self)
      with 2 show ?thesis
        by (simp add: varint_encode_def encode_checked_def word_less_nat_alt t_def n_def varint_tag_def
              put_uint_def flip: numeral_2_eq_2 del: be_bytes.simps)
    next
      case 3
      then have "unat (push_bit 30 2 OR ucast x :: u32) = 2 * 2 ^ 30 + n"
        using unat_tag_or [of "ucast x :: u32" 30 2]
        by (simp add: n_def unsigned_ucast_eq take_bit_nat_eq_self)
      with 3 show ?thesis
        by (simp add: varint_encode_def encode_checked_def word_less_nat_alt t_def n_def varint_tag_def
              put_uint_def flip: numeral_2_eq_2 del: be_bytes.simps)
    next
      case 4
      have "unat (push_bit 62 3 OR x) = 3 * 2 ^ 62 + n"
        using unat_tag_or [of x 62 3] n by (simp add: n_def)
      with 4 n show ?thesis
        by (simp add: varint_encode_def encode_checked_def word_less_nat_alt t_def n_def varint_tag_def
              put_uint_def flip: numeral_2_eq_2 del: be_bytes.simps)
    qed
  qed
  show ?thesis unfolding conv tagged ..
qed

lemma varint_encode_append: "varint_encode x w = w @ varint_encode x []"
  by (simp add: varint_encode_def encode_checked_def put_uint_def)

lemma varint_encode_length: "x < 2 ^ 62 \<Longrightarrow> length (varint_encode x []) = varint_size x"
  using varint_encode_shape [of x "[]"]
  by (simp only: varint_size_tag) (simp add: varint_tail_def)

lemma varint_decode_encode:
  assumes "x < 2 ^ 62"
  shows "varint_decode (varint_encode x [] @ rest) = (Inr x, rest)"
proof -
  define n t k where "n = unat x" and "t = varint_tag (unat x)" and "k = varint_tail (varint_tag (unat x))"
  have n: "n < 2 ^ 62" using assms by (simp add: word_less_nat_alt n_def)
  note props = varint_tag_props [OF n, folded t_def [folded n_def]]
  have k: "k = varint_tail t" by (simp add: k_def t_def)
  have h: "n div 256 ^ k < 64"
    using props(2) by (simp add: k t_def n_def less_mult_imp_div_less)
  have t4: "t < 4" using props(1) by (simp add: t_def n_def)
  have "t * 64 + n div 256 ^ k < 256" using t4 h by linarith
  then have b: "unat (of_nat (t * 64 + n div 256 ^ k) :: u8) = t * 64 + n div 256 ^ k"
    by (intro unat_of_nat_less) simp
  have enc: "varint_encode x [] = of_nat (t * 64 + n div 256 ^ k) # be_bytes k n"
    using varint_encode_shape [OF assms, of "[]"] by (simp add: n_def t_def k_def)
  have "be_acc 0 (be_bytes k n) = n mod 256 ^ k" by (simp add: be_acc_be_bytes)
  then have "n div 256 ^ k * 256 ^ k + be_acc 0 (be_bytes k n) = n"
    by (simp only: div_mult_mod_eq)
  moreover have "of_nat n = x" by (simp add: n_def)
  ultimately show ?thesis
    unfolding enc append_Cons using varint_decode_byte [OF b t4 h, of "be_bytes k n @ rest"]
    by (simp add: k)
qed

lemma varint_decode_inv:
  assumes "varint_decode buf = (Inr x, rest)"
  shows "\<exists>t h b r. buf = b # r \<and> t < 4 \<and> h < 64 \<and> varint_tail t \<le> length r \<and> rest = drop (varint_tail t) r
    \<and> unat x = h * 256 ^ varint_tail t + be_acc 0 (take (varint_tail t) r)
    \<and> unat x < 64 * 256 ^ varint_tail t"
proof -
  from assms obtain b r where buf: "buf = b # r" by (cases buf) (auto simp: varint_decode_def)
  define t h where "t = unat b div 64" and "h = unat b mod 64"
  have b: "unat b = t * 64 + h" and h: "h < 64" by (simp_all add: t_def h_def)
  have t: "t < 4" using word8_unat_less [of b] by (simp add: t_def less_mult_imp_div_less)
  let ?k = "varint_tail t" and ?v = "h * 256 ^ varint_tail t + be_acc 0 (take (varint_tail t) r)"
  from assms have d: "?k \<le> length r" "rest = drop ?k r" "x = of_nat ?v"
    unfolding buf varint_decode_byte [OF b t h] by (auto split: if_splits)
  have "be_acc 0 (take ?k r) < 256 ^ ?k" using be_acc_less [of "take ?k r"] d(1) by simp
  then have "?v < (h + 1) * 256 ^ ?k" by simp
  also have "\<dots> \<le> 64 * 256 ^ ?k" using h by (intro mult_right_mono) linarith+
  finally have v: "?v < 64 * 256 ^ ?k" .
  have "64 * 256 ^ ?k \<le> (2 ^ 64 :: nat)" using tag_cases [OF t] by (elim disjE) simp_all
  with v have "?v < 2 ^ LENGTH(64)" by simp
  then have x: "unat x = ?v" unfolding d(3) by (rule unat_of_nat_less)
  show ?thesis
    by (intro exI conjI, rule buf, rule t, rule h, rule d(1), rule d(2), rule x)
       (unfold x, rule v)
qed

lemma varint_decode_bound: "varint_decode buf = (Inr x, rest) \<Longrightarrow> x < 2 ^ 62"
proof -
  assume "varint_decode buf = (Inr x, rest)"
  then obtain t where t: "t < 4" "unat x < 64 * 256 ^ varint_tail t"
    by (blast dest: varint_decode_inv)
  have "64 * 256 ^ varint_tail t \<le> (2 ^ 62 :: nat)" using tag_cases [OF t(1)] by (elim disjE) simp_all
  with t(2) show ?thesis by (simp add: word_less_nat_alt)
qed

interpretation varintc: codec varint_encode varint_decode varint_ok
proof
  fix x :: varint and buf rest
  show "varint_encode x buf = buf @ varint_encode x []" by (rule varint_encode_append)
  show "varint_ok x \<Longrightarrow> varint_decode (varint_encode x [] @ rest) = (Inr x, rest)"
    unfolding varint_ok_def by (rule varint_decode_encode)
  assume d: "varint_decode buf = (Inr x, rest)"
  then show "varint_ok x" unfolding varint_ok_def by (rule varint_decode_bound)
  from varint_decode_inv [OF d] obtain t b r where
    "buf = b # r" "rest = drop (varint_tail t) r" by blast
  then have "buf = (b # take (varint_tail t) r) @ rest" by simp
  then show "\<exists>used. used \<noteq> [] \<and> buf = used @ rest" by blast
qed

section \<open>Properties\<close>

text \<open>(C9) A QUIC variable-length integer survives the wire: every value below \<open>2 ^ 62\<close> is written in
  exactly \<^verbatim>\<open>VarInt::size\<close> bytes and read back unchanged with the rest of the buffer untouched;
  every larger value is refused by \<^verbatim>\<open>encode_checked\<close> and nothing is written.\<close>

theorem varint_roundtrip:
  "(if x < 2 ^ 62
    then fst (encode_checked x w) = Inr () \<and> snd (encode_checked x w) = w @ varint_encode x []
       \<and> length (varint_encode x []) = varint_size x
       \<and> varint_decode (varint_encode x [] @ rest) = (Inr x, rest)
    else encode_checked x w = (Inl VarIntBoundsExceeded, w))"
proof (cases "x < 2 ^ 62")
  case True
  then have "fst (encode_checked x w) = Inr ()" by (simp add: encode_checked_def)
  moreover have "snd (encode_checked x w) = w @ varint_encode x []"
    using varint_encode_append [of x w] by (simp add: varint_encode_def)
  ultimately show ?thesis
    using True varint_encode_length [OF True] varint_decode_encode [OF True] by simp
next
  case False
  then have "encode_checked x w = (Inl VarIntBoundsExceeded, w)"
    by (auto simp: encode_checked_def word_less_nat_alt)
  with False show ?thesis by simp
qed

text \<open>(C10) Whatever bytes arrive, a successful \<^verbatim>\<open>VarInt::decode\<close> yields a value below \<open>2 ^ 62\<close>
  from the first 1, 2, 4 or 8 bytes of the buffer, and no encoding is shorter than the one the
  encoder chooses for that value.\<close>

theorem varint_decode_sound:
  assumes "varint_decode buf = (Inr x, rest)"
  shows "x < 2 ^ 62 \<and> (\<exists>used. buf = used @ rest \<and> length used \<in> {1, 2, 4, 8}
           \<and> varint_size x \<le> length used)"
proof -
  from varint_decode_inv [OF assms] obtain t b r where
    t: "t < 4" and buf: "buf = b # r" and k: "varint_tail t \<le> length r"
    and rest: "rest = drop (varint_tail t) r" and x: "unat x < 64 * 256 ^ varint_tail t"
    by blast
  let ?used = "b # take (varint_tail t) r"
  have len: "length ?used = 2 ^ t" using k by (simp add: varint_tail_def)
  have bound: "x < 2 ^ 62" using assms by (rule varint_decode_bound)
  then have "unat x < 2 ^ 62" by (simp add: word_less_nat_alt)
  then have "\<not> t < varint_tag (unat x)" using varint_tag_props(3) [of "unat x" t] x by auto
  then have "varint_size x \<le> 2 ^ t" using bound unfolding varint_size_tag by simp
  moreover have "(2::nat) ^ t \<in> {1, 2, 4, 8}" using tag_cases [OF t] by auto
  moreover have "buf = ?used @ rest" by (simp add: buf rest)
  ultimately show ?thesis using bound len by (intro conjI exI [of _ ?used]) simp_all
qed

theorem varint_decode_sound_witness:
  "varint_decode [0x7b, 0xbd, 0x01] = (Inr 15293, [1]) \<and> (15293 :: u64) < 2 ^ 62 \<and>
   (\<exists>used. [0x7b, 0xbd, 0x01 :: u8] = used @ [1] \<and> length used \<in> {1, 2, 4, 8}
      \<and> varint_size 15293 \<le> length used)"
proof -
  have "varint_decode [0x7b, 0xbd, 0x01] = (Inr 15293, [1])" by code_simp
  with varint_decode_sound [OF this] show ?thesis by blast
qed

end
