(* ===== verification/Constrained_Types.thy ===== *)
theory Constrained_Types
  imports Coding
begin

unbundle bit_operations_syntax

text \<open>
  The constrained protocol (\<^verbatim>\<open>src/src/constrained\<close>), basic types of \<^verbatim>\<open>types.rs\<close> and the packet
  format of \<^verbatim>\<open>header.rs\<close>: connection identifiers, 8-bit serial numbers, packet flags, errors, the
  5-byte header and whole packets.  The lemmas show that serial-number comparison is exact inside
  half of the number space, and that the packet format is a bijection between packets and byte
  strings of at least five bytes.
\<close>

section \<open>Connection identifiers and sequence numbers\<close>

type_synonym connection_id = u16
type_synonym sequence_number = u8

definition cid_to_bytes :: "connection_id \<Rightarrow> bytes" where
  "cid_to_bytes cid = be_bytes 2 (unat cid)"

definition cid_from_bytes :: "bytes \<Rightarrow> connection_id" where
  "cid_from_bytes bs = of_nat (be_acc 0 bs)"

text \<open>\<open>nanos\<close> is the reading of the system clock that \<^verbatim>\<open>random\<close> takes as its seed.\<close>

definition cid_random :: "nat \<Rightarrow> connection_id" where
  "cid_random nanos = of_nat nanos XOR 0x5A5A"

definition seq_next :: "sequence_number \<Rightarrow> sequence_number" where
  "seq_next s = s + 1"

text \<open>\<^verbatim>\<open>as i8\<close> reads the wrapped difference as a signed number; the widening to \<^verbatim>\<open>i16\<close> keeps it.\<close>

definition distance_to :: "sequence_number \<Rightarrow> sequence_number \<Rightarrow> int" where
  "distance_to s t = sint (t - s)"

definition is_in_window :: "sequence_number \<Rightarrow> sequence_number \<Rightarrow> u8 \<Rightarrow> bool" where
  "is_in_window s t window_size \<longleftrightarrow>
     (let dist = distance_to s t in dist \<ge> 0 \<and> dist \<le> int (unat window_size))"

lemma cid_bytes_roundtrip [simp]: "cid_from_bytes (cid_to_bytes cid) = cid"
  using word16_unat_less [of cid] by (simp add: cid_to_bytes_def cid_from_bytes_def be_acc_be_bytes)

lemma cid_from_bytes_inverse:
  assumes "length bs = 2"
  shows "cid_to_bytes (cid_from_bytes bs) = bs"
proof -
  have "be_acc 0 bs < 2 ^ LENGTH(16)" using be_acc_less [of bs] assms by simp
  then have "unat (cid_from_bytes bs) = be_acc 0 bs"
    unfolding cid_from_bytes_def by (rule unat_of_nat_less)
  then show ?thesis using be_bytes_be_acc [of bs] assms by (simp add: cid_to_bytes_def)
qed

lemma distance_to_index:
  assumes "- 128 \<le> int j - int i" and "int j - int i < 128"
  shows "distance_to (of_nat i) (of_nat j) = int j - int i"
proof -
  have "(of_nat j - of_nat i :: u8) = of_int (int j - int i)" by simp
  then have "distance_to (of_nat i) (of_nat j) = signed_take_bit 7 (int j - int i)"
    by (simp only: distance_to_def sint_sbintrunc') simp
  also have "\<dots> = int j - int i" using assms by (intro signed_take_bit_int_eq_self) simp_all
  finally show ?thesis .
qed

lemma is_in_window_index:
  assumes "unat w < 128" and "n \<le> i + 128" and "i < n + 128"
  shows "is_in_window (of_nat n) (of_nat i) w \<longleftrightarrow> n \<le> i \<and> i \<le> n + unat w"
  using assms by (auto simp: is_in_window_def Let_def distance_to_index simp del: of_nat_unat)

lemma seq_next_index [simp]: "seq_next (of_nat n) = of_nat (Suc n)"
  by (simp add: seq_next_def)

lemma seq_index_inj:
  assumes "of_nat i = (of_nat j :: sequence_number)" and "i < j + 256" and "j < i + 256"
  shows "i = j"
proof -
  have "i mod 256 = j mod 256"
    using arg_cong [OF assms(1), of unat] by (simp add: unsigned_of_nat take_bit_eq_mod)
  then have "(int i - int j) mod 256 = 0"
    by (metis mod_eq_dvd_iff of_nat_mod of_nat_numeral dvd_eq_mod_eq_0)
  then obtain k where "int i - int j = 256 * k" by (auto simp: mod_eq_0_iff_dvd)
  with assms(2,3) show ?thesis by presburger
qed

section \<open>Packet flags\<close>

datatype packet_type = Syn | Ack | Fin | Reset | Data | Ping | Pong

type_synonym packet_flags = u8

fun packet_type_flag :: "packet_type \<Rightarrow> u8" where
  "packet_type_flag Syn = 0x01"
| "packet_type_flag Ack = 0x02"
| "packet_type_flag Fin = 0x04"
| "packet_type_flag Reset = 0x08"
| "packet_type_flag Data = 0x10"
| "packet_type_flag Ping = 0x20"
| "packet_type_flag Pong = 0x40"

definition flags_NONE :: packet_flags where "flags_NONE = 0"
definition flags_SYN :: packet_flags where "flags_SYN = 0x01"
definition flags_ACK :: packet_flags where "flags_ACK = 0x02"
definition flags_FIN :: packet_flags where "flags_FIN = 0x04"
definition flags_RST :: packet_flags where "flags_RST = 0x08"
definition flags_DATA :: packet_flags where "flags_DATA = 0x10"
definition flags_PING :: packet_flags where "flags_PING = 0x20"
definition flags_PONG :: packet_flags where "flags_PONG = 0x40"
definition flags_SYN_ACK :: packet_flags where "flags_SYN_ACK = 0x03"

lemmas flags_defs = flags_NONE_def flags_SYN_def flags_ACK_def flags_FIN_def flags_RST_def
  flags_DATA_def flags_PING_def flags_PONG_def flags_SYN_ACK_def

definition flags_has :: "packet_flags \<Rightarrow> packet_type \<Rightarrow> bool" where
  "flags_has f t \<longleftrightarrow> f AND packet_type_flag t \<noteq> 0"

definition flags_is_syn :: "packet_flags \<Rightarrow> bool" where "flags_is_syn f \<longleftrightarrow> f AND 0x01 \<noteq> 0"
definition flags_is_ack :: "packet_flags \<Rightarrow> bool" where "flags_is_ack f \<longleftrightarrow> f AND 0x02 \<noteq> 0"
definition flags_is_fin :: "packet_flags \<Rightarrow> bool" where "flags_is_fin f \<longleftrightarrow> f AND 0x04 \<noteq> 0"
definition flags_is_rst :: "packet_flags \<Rightarrow> bool" where "flags_is_rst f \<longleftrightarrow> f AND 0x08 \<noteq> 0"
definition flags_is_data :: "packet_flags \<Rightarrow> bool" where "flags_is_data f \<longleftrightarrow> f AND 0x10 \<noteq> 0"
definition flags_is_ping :: "packet_flags \<Rightarrow> bool" where "flags_is_ping f \<longleftrightarrow> f AND 0x20 \<noteq> 0"
definition flags_is_pong :: "packet_flags \<Rightarrow> bool" where "flags_is_pong f \<longleftrightarrow> f AND 0x40 \<noteq> 0"

lemmas flags_is_defs = flags_is_syn_def flags_is_ack_def flags_is_fin_def flags_is_rst_def
  flags_is_data_def flags_is_ping_def flags_is_pong_def

definition flags_with :: "packet_flags \<Rightarrow> packet_type \<Rightarrow> packet_flags" where
  "flags_with f t = f OR packet_type_flag t"

definition flags_union :: "packet_flags \<Rightarrow> packet_flags \<Rightarrow> packet_flags" where
  "flags_union f g = f OR g"

lemma flags_has_with: "flags_has (flags_with f t) u \<longleftrightarrow> t = u \<or> flags_has f u"
proof -
  have "packet_type_flag t AND packet_type_flag u = (if t = u then packet_type_flag u else 0)"
    by (cases t; cases u) simp_all
  moreover have "packet_type_flag u \<noteq> 0" by (cases u) simp_all
  ultimately show ?thesis
    unfolding flags_has_def flags_with_def bit.conj_disj_distrib2 by auto
qed

section \<open>Errors\<close>

datatype constrained_error =
    PacketTooSmall nat nat
  | InvalidHeader string
  | ConnectionNotFound connection_id
  | ConnectionExists connection_id
  | InvalidStateTransition string string
  | ConnectionReset
  | TimeoutError
  | MaxRetransmissions u32
  | SendBufferFull
  | ReceiveBufferFull
  | TransportError string
  | SequenceOutOfWindow u8 u8 u8
  | ConnectionClosedError

section \<open>The packet header\<close>

definition HEADER_SIZE :: nat where "HEADER_SIZE = 5"

record constrained_header =
  hd_connection_id :: connection_id
  hd_seq :: sequence_number
  hd_ack :: sequence_number
  hd_flags :: packet_flags

definition header_new :: "connection_id \<Rightarrow> sequence_number \<Rightarrow> sequence_number \<Rightarrow> packet_flags \<Rightarrow> constrained_header" where
  "header_new cid s a f = \<lparr> hd_connection_id = cid, hd_seq = s, hd_ack = a, hd_flags = f \<rparr>"

definition header_syn :: "connection_id \<Rightarrow> constrained_header" where
  "header_syn cid = header_new cid 0 0 flags_SYN"

definition header_syn_ack :: "connection_id \<Rightarrow> sequence_number \<Rightarrow> constrained_header" where
  "header_syn_ack cid a = header_new cid 0 a flags_SYN_ACK"

definition header_ack :: "connection_id \<Rightarrow> sequence_number \<Rightarrow> sequence_number \<Rightarrow> constrained_header" where
  "header_ack cid s a = header_new cid s a flags_ACK"

definition header_data :: "connection_id \<Rightarrow> sequence_number \<Rightarrow> sequence_number \<Rightarrow> constrained_header" where
  "header_data cid s a = header_new cid s a (flags_union flags_DATA flags_ACK)"

definition header_fin :: "connection_id \<Rightarrow> sequence_number \<Rightarrow> sequence_number \<Rightarrow> constrained_header" where
  "header_fin cid s a = header_new cid s a (flags_union flags_FIN flags_ACK)"

definition header_reset :: "connection_id \<Rightarrow> constrained_header" where
  "header_reset cid = header_new cid 0 0 flags_RST"

definition header_ping :: "connection_id \<Rightarrow> sequence_number \<Rightarrow> constrained_header" where
  "header_ping cid s = header_new cid s 0 flags_PING"

definition header_pong :: "connection_id \<Rightarrow> sequence_number \<Rightarrow> constrained_header" where
  "header_pong cid a = header_new cid 0 a flags_PONG"

definition header_to_bytes :: "constrained_header \<Rightarrow> bytes" where
  "header_to_bytes h = cid_to_bytes (hd_connection_id h) @ [hd_seq h, hd_ack h, hd_flags h]"

definition header_from_bytes :: "bytes \<Rightarrow> constrained_error + constrained_header" where
  "header_from_bytes bs =
     (if length bs < HEADER_SIZE then Inl (PacketTooSmall HEADER_SIZE (length bs))
      else Inr (header_new (cid_from_bytes [bs ! 0, bs ! 1]) (bs ! 2) (bs ! 3) (bs ! 4)))"

definition header_is_syn :: "constrained_header \<Rightarrow> bool" where
  "header_is_syn h \<longleftrightarrow> flags_is_syn (hd_flags h)"

definition header_is_syn_ack :: "constrained_header \<Rightarrow> bool" where
  "header_is_syn_ack h \<longleftrightarrow> flags_is_syn (hd_flags h) \<and> flags_is_ack (hd_flags h)"

definition header_is_ack :: "constrained_header \<Rightarrow> bool" where
  "header_is_ack h \<longleftrightarrow> flags_is_ack (hd_flags h)"

definition header_is_fin :: "constrained_header \<Rightarrow> bool" where
  "header_is_fin h \<longleftrightarrow> flags_is_fin (hd_flags h)"

definition header_is_rst :: "constrained_header \<Rightarrow> bool" where
  "header_is_rst h \<longleftrightarrow> flags_is_rst (hd_flags h)"

definition header_is_data :: "constrained_header \<Rightarrow> bool" where
  "header_is_data h \<longleftrightarrow> flags_is_data (hd_flags h)"

definition header_is_ping :: "constrained_header \<Rightarrow> bool" where
  "header_is_ping h \<longleftrightarrow> flags_is_ping (hd_flags h)"

definition header_is_pong :: "constrained_header \<Rightarrow> bool" where
  "header_is_pong h \<longleftrightarrow> flags_is_pong (hd_flags h)"

lemmas header_is_defs = header_is_syn_def header_is_syn_ack_def header_is_ack_def header_is_fin_def
  header_is_rst_def header_is_data_def header_is_ping_def header_is_pong_def

lemmas header_ctor_defs = header_syn_def header_syn_ack_def header_ack_def header_data_def
  header_fin_def header_reset_def header_ping_def header_pong_def

text \<open>How the receiver classifies each kind of header.\<close>

named_theorems header_kind \<open>flag tests on the headers the protocol builds\<close>

lemmas header_kind_defs = header_is_defs flags_is_defs header_ctor_defs header_new_def
  flags_defs flags_union_def

lemma header_syn_kind [header_kind]:
  "header_is_syn (header_syn cid)" "\<not> header_is_ack (header_syn cid)" "\<not> header_is_rst (header_syn cid)"
  "\<not> header_is_data (header_syn cid)" "\<not> header_is_fin (header_syn cid)"
  by (simp_all add: header_kind_defs)

lemma header_syn_ack_kind [header_kind]:
  "header_is_syn_ack (header_syn_ack cid a)" "header_is_syn (header_syn_ack cid a)"
  "header_is_ack (header_syn_ack cid a)" "\<not> header_is_rst (header_syn_ack cid a)"
  by (simp_all add: header_kind_defs)

lemma header_ack_kind [header_kind]:
  "header_is_ack (header_ack cid s a)" "\<not> header_is_rst (header_ack cid s a)"
  "\<not> header_is_data (header_ack cid s a)" "\<not> header_is_fin (header_ack cid s a)"
  "\<not> header_is_syn (header_ack cid s a)" "\<not> header_is_ping (header_ack cid s a)"
  by (simp_all add: header_kind_defs)

lemma header_data_kind [header_kind]:
  "header_is_data (header_data cid s a)" "header_is_ack (header_data cid s a)"
  "\<not> header_is_rst (header_data cid s a)" "\<not> header_is_fin (header_data cid s a)"
  "\<not> header_is_syn (header_data cid s a)" "\<not> header_is_ping (header_data cid s a)"
  by (simp_all add: header_kind_defs)

lemma header_fin_kind [header_kind]:
  "header_is_fin (header_fin cid s a)" "header_is_ack (header_fin cid s a)"
  "\<not> header_is_rst (header_fin cid s a)" "\<not> header_is_data (header_fin cid s a)"
  "\<not> header_is_syn (header_fin cid s a)" "\<not> header_is_ping (header_fin cid s a)"
  by (simp_all add: header_kind_defs)

lemma header_reset_kind [header_kind]: "header_is_rst (header_reset cid)"
  by (simp add: header_kind_defs)

lemma header_fields [header_kind]:
  "hd_connection_id (header_new cid s a f) = cid" "hd_seq (header_new cid s a f) = s"
  "hd_ack (header_new cid s a f) = a" "hd_flags (header_new cid s a f) = f"
  by (simp_all add: header_new_def)

lemma header_ctor_fields [header_kind]:
  "hd_connection_id (header_syn cid) = cid" "hd_connection_id (header_syn_ack cid a) = cid"
  "hd_connection_id (header_ack cid s a) = cid" "hd_connection_id (header_data cid s a) = cid"
  "hd_connection_id (header_fin cid s a) = cid" "hd_connection_id (header_reset cid) = cid"
  "hd_connection_id (header_ping cid s) = cid" "hd_connection_id (header_pong cid a) = cid"
  "hd_seq (header_syn cid) = 0" "hd_seq (header_syn_ack cid a) = 0"
  "hd_seq (header_ack cid s a) = s" "hd_seq (header_data cid s a) = s" "hd_seq (header_fin cid s a) = s"
  "hd_ack (header_syn_ack cid a) = a" "hd_ack (header_ack cid s a) = a"
  "hd_ack (header_data cid s a) = a" "hd_ack (header_fin cid s a) = a"
  by (simp_all add: header_ctor_defs header_fields)

section \<open>Packets\<close>

record constrained_packet =
  pk_header :: constrained_header
  pk_payload :: bytes

definition packet_new :: "constrained_header \<Rightarrow> bytes \<Rightarrow> constrained_packet" where
  "packet_new h p = \<lparr> pk_header = h, pk_payload = p \<rparr>"

definition packet_control :: "constrained_header \<Rightarrow> constrained_packet" where
  "packet_control h = \<lparr> pk_header = h, pk_payload = [] \<rparr>"

definition packet_data ::
  "connection_id \<Rightarrow> sequence_number \<Rightarrow> sequence_number \<Rightarrow> bytes \<Rightarrow> constrained_packet" where
  "packet_data cid s a p = \<lparr> pk_header = header_data cid s a, pk_payload = p \<rparr>"

definition packet_total_size :: "constrained_packet \<Rightarrow> nat" where
  "packet_total_size p = u64_add HEADER_SIZE (length (pk_payload p))"

definition packet_to_bytes :: "constrained_packet \<Rightarrow> bytes" where
  "packet_to_bytes p = header_to_bytes (pk_header p) @ pk_payload p"

definition packet_from_bytes :: "bytes \<Rightarrow> constrained_error + constrained_packet" where
  "packet_from_bytes bs = (case header_from_bytes bs of
      Inl e \<Rightarrow> Inl e
    | Inr h \<Rightarrow>
        let payload = (if length bs > HEADER_SIZE then drop HEADER_SIZE bs else [])
        in Inr (packet_new h payload))"

definition packet_has_payload :: "constrained_packet \<Rightarrow> bool" where
  "packet_has_payload p \<longleftrightarrow> pk_payload p \<noteq> []"

lemma length_header_to_bytes [simp]: "length (header_to_bytes h) = 5"
  by (simp add: header_to_bytes_def cid_to_bytes_def)

lemma header_to_bytes_list:
  "\<exists>c0 c1. cid_to_bytes (hd_connection_id h) = [c0, c1]
     \<and> header_to_bytes h = [c0, c1, hd_seq h, hd_ack h, hd_flags h]"
  by (simp add: header_to_bytes_def cid_to_bytes_def numeral_2_eq_2)

lemma header_from_to_bytes: "header_from_bytes (header_to_bytes h @ rest) = Inr h"
proof -
  obtain c0 c1 where c: "cid_to_bytes (hd_connection_id h) = [c0, c1]"
      "header_to_bytes h = [c0, c1, hd_seq h, hd_ack h, hd_flags h]"
    using header_to_bytes_list by blast
  have "cid_from_bytes [c0, c1] = hd_connection_id h" using c(1) cid_bytes_roundtrip by metis
  with c(2) show ?thesis
    by (simp add: header_from_bytes_def HEADER_SIZE_def header_new_def eval_nat_numeral)
qed

lemma packet_from_to_bytes [simp]: "packet_from_bytes (packet_to_bytes p) = Inr p"
  by (simp add: packet_from_bytes_def packet_to_bytes_def header_from_to_bytes HEADER_SIZE_def
      packet_new_def)

lemma packet_to_from_bytes:
  assumes "HEADER_SIZE \<le> length bs"
  shows "\<exists>p. packet_from_bytes bs = Inr p \<and> packet_to_bytes p = bs"
proof -
  obtain c0 c1 s a f rest where bs: "bs = c0 # c1 # s # a # f # rest"
    using assms by (auto simp: HEADER_SIZE_def numeral_eq_Suc Suc_le_length_iff)
  have "cid_to_bytes (cid_from_bytes [c0, c1]) = [c0, c1]" by (rule cid_from_bytes_inverse) simp
  then show ?thesis
    by (simp add: bs packet_from_bytes_def header_from_bytes_def HEADER_SIZE_def header_new_def
        packet_new_def packet_to_bytes_def header_to_bytes_def eval_nat_numeral)
qed

lemma packet_control_simps [simp]:
  "pk_header (packet_control h) = h" "pk_payload (packet_control h) = []"
  by (simp_all add: packet_control_def)

lemma packet_data_simps [simp]:
  "pk_header (packet_data cid s a p) = header_data cid s a" "pk_payload (packet_data cid s a p) = p"
  by (simp_all add: packet_data_def)

section \<open>Properties\<close>

text \<open>(C15) The packet format is a bijection between packets and byte strings of at least five bytes:
  parsing a serialised packet gives the packet back, every byte string of at least five bytes parses
  and serialises back to itself, and a shorter one is refused with the sizes in the error.\<close>

theorem packet_format_bijective:
  "packet_from_bytes (packet_to_bytes p) = Inr p
   \<and> (if length bs < HEADER_SIZE
      then packet_from_bytes bs = Inl (PacketTooSmall HEADER_SIZE (length bs))
      else map_sum id packet_to_bytes (packet_from_bytes bs) = Inr bs)"
proof (cases "length bs < HEADER_SIZE")
  case True
  then have "packet_from_bytes bs = Inl (PacketTooSmall HEADER_SIZE (length bs))"
    by (simp add: packet_from_bytes_def header_from_bytes_def)
  with True show ?thesis by simp
next
  case False
  then obtain q where "packet_from_bytes bs = Inr q" "packet_to_bytes q = bs"
    using packet_to_from_bytes [of bs] by auto
  with False show ?thesis by simp
qed

end
