(* ===== verification/Constrained_State.thy ===== *)
theory Constrained_State
  imports Constrained_Types
begin

text \<open>
  The connection state machine of the constrained protocol (\<^verbatim>\<open>src/src/constrained/state.rs\<close>): the
  transition table, and the machine with its entry time and its bounded transition history.  The
  reading of the clock that a method takes is its argument \<open>now\<close>.  The lemmas show what the
  history records, that only a completed handshake leads to \<open>Established\<close>, and that a connection
  moves forward through its life cycle until it is closed.
\<close>

section \<open>States and events\<close>

datatype connection_state =
  Closed | SynSent | SynReceived | Established | FinWait | Closing | TimeWait

datatype state_event =
  Open | RecvSyn | RecvSynAck | RecvAck | RecvFin | RecvRst | Close | Timeout

fun state_can_send_data :: "connection_state \<Rightarrow> bool" where
  "state_can_send_data Established = True"
| "state_can_send_data FinWait = True"
| "state_can_send_data _ = False"

fun state_can_receive_data :: "connection_state \<Rightarrow> bool" where
  "state_can_receive_data Established = True"
| "state_can_receive_data FinWait = True"
| "state_can_receive_data Closing = True"
| "state_can_receive_data _ = False"

fun state_is_open :: "connection_state \<Rightarrow> bool" where
  "state_is_open SynSent = True"
| "state_is_open SynReceived = True"
| "state_is_open Established = True"
| "state_is_open FinWait = True"
| "state_is_open Closing = True"
| "state_is_open _ = False"

fun state_is_closed :: "connection_state \<Rightarrow> bool" where
  "state_is_closed Closed = True"
| "state_is_closed TimeWait = True"
| "state_is_closed _ = False"

fun state_is_established :: "connection_state \<Rightarrow> bool" where
  "state_is_established Established = True"
| "state_is_established _ = False"

definition from_secs :: "nat \<Rightarrow> duration" where
  "from_secs n = n * 10 ^ 9"

definition from_millis :: "nat \<Rightarrow> duration" where
  "from_millis n = n * 10 ^ 6"

text \<open>\<^verbatim>\<open>Duration::MAX\<close>: the largest number of seconds and 999999999 nanoseconds.\<close>

definition duration_max :: duration where
  "duration_max = from_secs (2 ^ 64 - 1) + 999999999"

fun state_timeout :: "connection_state \<Rightarrow> duration" where
  "state_timeout Closed = duration_max"
| "state_timeout SynSent = from_secs 5"
| "state_timeout SynReceived = from_secs 5"
| "state_timeout Established = from_secs 300"
| "state_timeout FinWait = from_secs 30"
| "state_timeout Closing = from_secs 30"
| "state_timeout TimeWait = from_secs 4"

fun state_name :: "connection_state \<Rightarrow> string" where
  "state_name Closed = ''CLOSED''"
| "state_name SynSent = ''SYN_SENT''"
| "state_name SynReceived = ''SYN_RCVD''"
| "state_name Established = ''ESTABLISHED''"
| "state_name FinWait = ''FIN_WAIT''"
| "state_name Closing = ''CLOSING''"
| "state_name TimeWait = ''TIME_WAIT''"

fun event_name :: "state_event \<Rightarrow> string" where
  "event_name Open = ''OPEN''"
| "event_name RecvSyn = ''RECV_SYN''"
| "event_name RecvSynAck = ''RECV_SYN_ACK''"
| "event_name RecvAck = ''RECV_ACK''"
| "event_name RecvFin = ''RECV_FIN''"
| "event_name RecvRst = ''RECV_RST''"
| "event_name Close = ''CLOSE''"
| "event_name Timeout = ''TIMEOUT''"

section \<open>The transition table\<close>

fun next_state :: "connection_state \<Rightarrow> state_event \<Rightarrow> constrained_error + connection_state" where
  "next_state Closed Open = Inr SynSent"
| "next_state Closed RecvSyn = Inr SynReceived"
| "next_state SynSent RecvSynAck = Inr Established"
| "next_state SynSent RecvRst = Inr Closed"
| "next_state SynSent Timeout = Inr Closed"
| "next_state SynSent Close = Inr Closed"
| "next_state SynReceived RecvAck = Inr Established"
| "next_state SynReceived RecvRst = Inr Closed"
| "next_state SynReceived Timeout = Inr Closed"
| "next_state SynReceived Close = Inr Closed"
| "next_state Established RecvFin = Inr Closing"
| "next_state Established Close = Inr FinWait"
| "next_state Established RecvRst = Inr Closed"
| "next_state Established Timeout = Inr Closed"
| "next_state FinWait RecvAck = Inr Closing"
| "next_state FinWait RecvFin = Inr TimeWait"
| "next_state FinWait RecvRst = Inr Closed"
| "next_state FinWait Timeout = Inr Closed"
| "next_state Closing RecvAck = Inr TimeWait"
| "next_state Closing RecvFin = Inr TimeWait"
| "next_state Closing RecvRst = Inr Closed"
| "next_state Closing Timeout = Inr Closed"
| "next_state TimeWait Timeout = Inr Closed"
| "next_state TimeWait RecvRst = Inr Closed"
| "next_state s e = Inl (InvalidStateTransition (state_name s) (event_name e @ '' -> ?''))"

section \<open>The machine\<close>

record state_machine =
  sm_state :: connection_state
  sm_entered :: instant
  sm_history :: "(connection_state \<times> state_event \<times> connection_state) list"

definition sm_new :: "instant \<Rightarrow> state_machine" where
  "sm_new now = \<lparr> sm_state = Closed, sm_entered = now, sm_history = [] \<rparr>"

definition sm_time_in_state :: "instant \<Rightarrow> state_machine \<Rightarrow> duration" where
  "sm_time_in_state now sm = now - sm_entered sm"

definition sm_is_timed_out :: "instant \<Rightarrow> state_machine \<Rightarrow> bool" where
  "sm_is_timed_out now sm \<longleftrightarrow> sm_time_in_state now sm > state_timeout (sm_state sm)"

definition sm_can_send_data :: "state_machine \<Rightarrow> bool" where
  "sm_can_send_data sm = state_can_send_data (sm_state sm)"

definition sm_can_receive_data :: "state_machine \<Rightarrow> bool" where
  "sm_can_receive_data sm = state_can_receive_data (sm_state sm)"

definition transition :: "instant \<Rightarrow> state_event \<Rightarrow> (state_machine, constrained_error, connection_state) op" where
  "transition now event sm = (case next_state (sm_state sm) event of
      Inl e \<Rightarrow> (Inl e, sm)
    | Inr new_state \<Rightarrow>
        let hist = (if length (sm_history sm) \<ge> 8 then remove_at 0 (sm_history sm) else sm_history sm)
        in (Inr new_state,
            sm \<lparr> sm_history := hist @ [(sm_state sm, event, new_state)],
                 sm_state := new_state, sm_entered := now \<rparr>))"

section \<open>Life cycle\<close>

lemma next_state_no_panic: "next_state s e = Inl err \<Longrightarrow> \<exists>f t. err = InvalidStateTransition f t"
  by (cases s; cases e) auto

text \<open>How far a connection has come.  Every transition that does not close moves it forward.\<close>

fun state_rank :: "connection_state \<Rightarrow> nat" where
  "state_rank Closed = 0"
| "state_rank SynSent = 1"
| "state_rank SynReceived = 1"
| "state_rank Established = 2"
| "state_rank FinWait = 3"
| "state_rank Closing = 4"
| "state_rank TimeWait = 5"

lemma next_state_forward:
  "next_state s e = Inr s' \<Longrightarrow> if s' = Closed then s \<noteq> Closed else state_rank s < state_rank s'"
  by (cases s; cases e) auto

lemma next_state_Established:
  "next_state s e = Inr Established \<longleftrightarrow> s = SynSent \<and> e = RecvSynAck \<or> s = SynReceived \<and> e = RecvAck"
  by (cases s; cases e) auto

lemma next_state_half_open:
  "next_state s e = Inr SynSent \<longleftrightarrow> s = Closed \<and> e = Open"
  "next_state s e = Inr SynReceived \<longleftrightarrow> s = Closed \<and> e = RecvSyn"
  by (cases s; cases e; simp)+

lemma next_state_closing:
  "s \<noteq> Closed \<Longrightarrow> next_state s RecvRst = Inr Closed \<and> next_state s Timeout = Inr Closed"
  by (cases s) auto

lemma transition_cases:
  "transition now e sm = (Inl err, sm') \<Longrightarrow> sm' = sm \<and> next_state (sm_state sm) e = Inl err"
  "transition now e sm = (Inr s, sm') \<Longrightarrow>
     next_state (sm_state sm) e = Inr s \<and> sm_state sm' = s \<and> sm_entered sm' = now"
  by (auto simp: transition_def Let_def split: sum.splits)

lemma transition_state:
  "sm_state (snd (transition now e sm)) = (case next_state (sm_state sm) e of Inl _ \<Rightarrow> sm_state sm | Inr s \<Rightarrow> s)"
  by (auto simp: transition_def Let_def split: sum.splits)

section \<open>Reachable machines\<close>

inductive sm_step :: "state_machine \<Rightarrow> instant \<times> state_event \<Rightarrow> state_machine \<Rightarrow> bool" where
  sm_stepI: "transition now e sm = (r, sm') \<Longrightarrow> sm_step sm (now, e) sm'"

inductive_simps sm_step_iff: "sm_step sm (now, e) sm'"

abbreviation sm_init :: "state_machine \<Rightarrow> bool" where
  "sm_init sm \<equiv> \<exists>now. sm = sm_new now"

text \<open>The history is a path of the transition table that ends in the current state, and as long as
  it has not been cut it starts in \<open>Closed\<close>.\<close>

fun history_path :: "(connection_state \<times> state_event \<times> connection_state) list \<Rightarrow> bool" where
  "history_path [] = True"
| "history_path [(s, e, t)] = (next_state s e = Inr t)"
| "history_path ((s, e, t) # (s', e', t') # h) = (next_state s e = Inr t \<and> t = s' \<and> history_path ((s', e', t') # h))"

definition history_ok :: "state_machine \<Rightarrow> bool" where
  "history_ok sm \<longleftrightarrow> length (sm_history sm) \<le> 8 \<and> history_path (sm_history sm)
     \<and> (if sm_history sm = [] then sm_state sm = Closed
        else snd (snd (last (sm_history sm))) = sm_state sm
             \<and> (length (sm_history sm) < 8 \<longrightarrow> fst (hd (sm_history sm)) = Closed))"

lemma history_path_tl: "history_path h \<Longrightarrow> history_path (tl h)"
  by (induction h rule: history_path.induct) auto

lemma history_path_snoc:
  "history_path h \<Longrightarrow> (h \<noteq> [] \<Longrightarrow> snd (snd (last h)) = s) \<Longrightarrow> next_state s e = Inr t
     \<Longrightarrow> history_path (h @ [(s, e, t)])"
  by (induction h rule: history_path.induct) auto

lemma history_path_last2:
  "history_path (h @ [(s, e, t)]) \<Longrightarrow>
     next_state s e = Inr t \<and> (h \<noteq> [] \<longrightarrow> snd (snd (last h)) = s) \<and> history_path h"
  by (induction h rule: history_path.induct) auto

lemma history_ok_new [step_inv]: "history_ok (sm_new now)"
  by (simp add: history_ok_def sm_new_def)

lemma history_ok_transition [step_inv]:
  assumes "history_ok sm" and "transition now e sm = (r, sm')"
  shows "history_ok sm'"
proof (cases "next_state (sm_state sm) e")
  case (Inl err)
  with assms show ?thesis by (auto simp: transition_def)
next
  case (Inr t)
  define h where "h = (if length (sm_history sm) \<ge> 8 then tl (sm_history sm) else sm_history sm)"
  have sm': "sm_history sm' = h @ [(sm_state sm, e, t)]" "sm_state sm' = t"
    using assms(2) Inr by (auto simp: transition_def Let_def h_def remove_at_def drop_Suc)
  have len: "length h \<le> 7" using assms(1) by (auto simp: h_def history_ok_def)
  have path: "history_path h" using assms(1) history_path_tl by (auto simp: h_def history_ok_def)
  have last: "snd (snd (last h)) = sm_state sm" if "h \<noteq> []"
    using assms(1) that by (auto simp: h_def history_ok_def last_tl split: if_splits)
  have hd: "fst (hd (h @ [(sm_state sm, e, t)])) = Closed" if "length h < 7"
    using assms(1) that by (cases "sm_history sm") (auto simp: h_def history_ok_def split: if_splits)
  from history_path_snoc [OF path last Inr] len hd show ?thesis
    by (simp add: history_ok_def sm')
qed

lemma reachable_history_ok:
  assumes "reachable sm_init sm_step sm"
  shows "history_ok sm"
  using assms
proof (rule reachable_invariant)
  fix s l s'
  assume "history_ok s" and "sm_step s l s'"
  then show "history_ok s'" by (auto elim!: sm_step.cases intro: history_ok_transition)
qed (auto intro: history_ok_new)

text \<open>In a recorded path, \<open>Established\<close> is preceded by the two events of a handshake.\<close>

definition ends_with_handshake :: "(connection_state \<times> state_event \<times> connection_state) list \<Rightarrow> bool" where
  "ends_with_handshake h \<longleftrightarrow>
     (\<exists>h'. h = h' @ [(Closed, Open, SynSent), (SynSent, RecvSynAck, Established)]
         \<or> h = h' @ [(Closed, RecvSyn, SynReceived), (SynReceived, RecvAck, Established)])"

lemma established_path:
  assumes "history_path h" and "h \<noteq> []" and "snd (snd (last h)) = Established"
    and "length h < 8 \<longrightarrow> fst (hd h) = Closed"
  shows "ends_with_handshake h"
proof -
  obtain h1 s e where h1: "h = h1 @ [(s, e, Established)]"
    using assms(2,3) by (cases h rule: rev_cases) auto
  note p1 = history_path_last2 [OF assms(1) [unfolded h1]]
  have se: "s = SynSent \<and> e = RecvSynAck \<or> s = SynReceived \<and> e = RecvAck"
    using p1 next_state_Established by blast
  have "h1 \<noteq> []" using assms(4) se by (auto simp: h1)
  then obtain h2 s2 e2 where h2: "h1 = h2 @ [(s2, e2, s)]"
    using p1 by (cases h1 rule: rev_cases) auto
  have "next_state s2 e2 = Inr s" using history_path_last2 [of h2 s2 e2 s] p1 by (simp add: h2)
  then have "s = SynSent \<and> s2 = Closed \<and> e2 = Open \<or> s = SynReceived \<and> s2 = Closed \<and> e2 = RecvSyn"
    using se next_state_half_open by auto
  with se show ?thesis by (auto simp: h1 h2 ends_with_handshake_def)
qed

section \<open>Properties\<close>

text \<open>(C13) Along every run of the state machine the transition history holds at most eight entries,
  forms a path of the transition table that ends in the current state, and a machine that is in
  \<open>Established\<close> got there by a handshake: its last two transitions are either an active open
  answered by a SYN-ACK or a received SYN answered by an ACK.\<close>

theorem established_only_by_handshake:
  assumes "reachable sm_init sm_step sm"
  shows "history_ok sm \<and> (sm_state sm = Established \<longrightarrow> ends_with_handshake (sm_history sm))"
proof -
  have "history_ok sm" using assms by (rule reachable_history_ok)
  then show ?thesis using established_path [of "sm_history sm"] by (auto simp: history_ok_def split: if_splits)
qed

theorem established_only_by_handshake_witness:
  "let sm = snd (transition 7 RecvSynAck (snd (transition 3 Open (sm_new 0)))) in
   sm_state sm = Established \<and> history_ok sm \<and> ends_with_handshake (sm_history sm)"
proof -
  define sm where "sm = snd (transition 7 RecvSynAck (snd (transition 3 Open (sm_new 0))))"
  have "reachable sm_init sm_step (sm_new 0)" by (rule reach_init) blast
  then have "reachable sm_init sm_step (snd (transition 3 Open (sm_new 0)))"
    by (rule reach_step) (rule sm_stepI, rule surjective_pairing)
  then have "reachable sm_init sm_step sm"
    unfolding sm_def by (rule reach_step) (rule sm_stepI, rule surjective_pairing)
  moreover have "sm_state sm = Established" unfolding sm_def by code_simp
  ultimately show ?thesis
    using established_only_by_handshake [of sm] by (simp add: sm_def [symmetric] Let_def)
qed

text \<open>(C14) Life cycle: a transition either closes a connection that was not closed or moves it strictly
  forward, so at most five transitions separate two visits of \<open>Closed\<close>; a refused event changes
  nothing; and from every state but \<open>Closed\<close> both a reset and a timeout lead to \<open>Closed\<close>.\<close>

theorem transition_life_cycle:
  "(case transition now e sm of
      (Inl err, sm') \<Rightarrow> sm' = sm
    | (Inr t, sm') \<Rightarrow> sm_state sm' = t \<and> sm_entered sm' = now
        \<and> (if t = Closed then sm_state sm \<noteq> Closed else state_rank (sm_state sm) < state_rank t))
   \<and> state_rank (sm_state sm) \<le> 5
   \<and> sm_state (snd (transition now RecvRst sm)) = Closed
   \<and> sm_state (snd (transition now Timeout sm)) = Closed"
proof -
  have "state_rank (sm_state sm) \<le> 5" by (cases "sm_state sm") auto
  moreover have "sm_state (snd (transition now RecvRst sm)) = Closed
      \<and> sm_state (snd (transition now Timeout sm)) = Closed"
    by (cases "sm_state sm") (simp_all add: transition_state)
  moreover obtain r sm' where tr: "transition now e sm = (r, sm')" by fastforce
  have "case transition now e sm of
      (Inl err, sm') \<Rightarrow> sm' = sm
    | (Inr t, sm') \<Rightarrow> sm_state sm' = t \<and> sm_entered sm' = now
        \<and> (if t = Closed then sm_state sm \<noteq> Closed else state_rank (sm_state sm) < state_rank t)"
  proof (cases r)
    case (Inl err)
    then show ?thesis using transition_cases(1) [of now e sm err sm'] tr by simp
  next
    case (Inr t)
    then show ?thesis
      using transition_cases(2) [of now e sm t sm'] next_state_forward [of "sm_state sm" e t] tr by simp
  qed
  ultimately show ?thesis by blast
qed

end
