(* ===== verification/F64.thy ===== *)
theory F64
  imports Prelude Complex_Main
begin

text \<open>
  The non-negative part of \<^verbatim>\<open>f64\<close> arithmetic, and the conversions between \<^verbatim>\<open>Duration\<close> and seconds
  in \<^verbatim>\<open>f64\<close> that the retransmission timers use.  A finite double is the rational it stands for;
  every operation rounds its exact result to 53 significant bits, ties to even.  The numbers that
  occur are zero or between \<open>2 ^ -40\<close> and \<open>2 ^ 70\<close>, so subnormals and overflow to infinity do not.
\<close>

section \<open>Rounding\<close>

definition round_half_even :: "rat \<Rightarrow> int" where
  "round_half_even x = (let f = \<lfloor>x\<rfloor>; d = x - of_int f in
     if d < 1 / 2 then f else if 1 / 2 < d then f + 1 else if even f then f else f + 1)"

lemma round_half_even_of_int [simp]: "round_half_even (of_int n) = n"
  by (simp add: round_half_even_def)

lemma round_half_even_bounds: "\<lfloor>x\<rfloor> \<le> round_half_even x \<and> round_half_even x \<le> \<lfloor>x\<rfloor> + 1"
  by (simp add: round_half_even_def Let_def)

lemma round_half_even_mono:
  assumes "x \<le> y"
  shows "round_half_even x \<le> round_half_even y"
proof (cases "\<lfloor>x\<rfloor> = \<lfloor>y\<rfloor>")
  case True
  then show ?thesis using assms by (auto simp: round_half_even_def Let_def)
next
  case False
  then have "\<lfloor>x\<rfloor> + 1 \<le> \<lfloor>y\<rfloor>" using floor_mono [OF assms] by linarith
  then show ?thesis using round_half_even_bounds [of x] round_half_even_bounds [of y] by linarith
qed

text \<open>The exponent of the leading bit of a positive rational, by counting bits of numerator and
  denominator.\<close>

fun bit_length :: "nat \<Rightarrow> nat" where
  "bit_length n = (if n = 0 then 0 else Suc (bit_length (n div 2)))"

declare bit_length.simps [simp del]

definition pow2 :: "int \<Rightarrow> rat" where
  "pow2 e = (if 0 \<le> e then 2 ^ nat e else 1 / 2 ^ nat (- e))"

definition floor_log2 :: "rat \<Rightarrow> int" where
  "floor_log2 x = (let (n, d) = quotient_of x;
      e = int (bit_length (nat n)) - int (bit_length (nat d))
    in if pow2 e \<le> x then e else e - 1)"

definition f64_round :: "rat \<Rightarrow> rat" where
  "f64_round x = (if x \<le> 0 then 0 else
     let ulp = pow2 (floor_log2 x - 52) in of_int (round_half_even (x / ulp)) * ulp)"

definition f64_add :: "rat \<Rightarrow> rat \<Rightarrow> rat" where "f64_add x y = f64_round (x + y)"
definition f64_mul :: "rat \<Rightarrow> rat \<Rightarrow> rat" where "f64_mul x y = f64_round (x * y)"
definition f64_div :: "rat \<Rightarrow> rat \<Rightarrow> rat" where "f64_div x y = f64_round (x / y)"

text \<open>\<^verbatim>\<open>f64::clamp\<close> panics on an empty interval.\<close>

definition f64_clamp :: "rat \<Rightarrow> rat \<Rightarrow> rat \<Rightarrow> rat option" where
  "f64_clamp x lo hi = (if lo \<le> hi then Some (if x < lo then lo else if hi < x then hi else x) else None)"

lemma f64_clamp_bounds: "f64_clamp x lo hi = Some y \<Longrightarrow> lo \<le> y \<and> y \<le> hi"
  by (auto simp: f64_clamp_def split: if_splits)

section \<open>Durations\<close>

text \<open>\<^verbatim>\<open>Duration::as_secs_f64\<close> and \<^verbatim>\<open>Duration::from_secs_f64\<close>, which rounds to the nearest
  nanosecond, ties to even.\<close>

definition as_secs_f64 :: "duration \<Rightarrow> rat" where
  "as_secs_f64 d = f64_add (f64_round (of_nat (d div 10 ^ 9))) (f64_div (of_nat (d mod 10 ^ 9)) (10 ^ 9))"

definition from_secs_f64 :: "rat \<Rightarrow> duration" where
  "from_secs_f64 x = nat (round_half_even (x * 10 ^ 9))"

text \<open>A duration that survives the trip through \<^verbatim>\<open>f64\<close>.\<close>

definition f64_exact :: "duration \<Rightarrow> bool" where
  "f64_exact d \<longleftrightarrow> from_secs_f64 (as_secs_f64 d) = d"

lemma from_secs_f64_mono: "x \<le> y \<Longrightarrow> from_secs_f64 x \<le> from_secs_f64 y"
  by (simp add: from_secs_f64_def nat_mono round_half_even_mono)

lemma from_secs_f64_clamped:
  assumes "f64_clamp x (as_secs_f64 lo) (as_secs_f64 hi) = Some y" and "f64_exact lo" and "f64_exact hi"
  shows "lo \<le> from_secs_f64 y \<and> from_secs_f64 y \<le> hi"
  using f64_clamp_bounds [OF assms(1)] from_secs_f64_mono assms(2,3) unfolding f64_exact_def by metis

end
