(* ===== verification/Constrained_Arq.thy ===== *)
theory Constrained_Arq
  imports Constrained_State F64
begin

text \<open>
  The reliability layer of the constrained protocol (\<^verbatim>\<open>src/src/constrained/arq.rs\<close>): the send window
  with its retransmission timer and the receive window that puts packets back in order.  Sequence
  numbers are 8 bits wide; the lemmas relate both windows to unbounded packet indices.
\<close>

section \<open>Configuration\<close>

definition DEFAULT_WINDOW_SIZE :: u8 where "DEFAULT_WINDOW_SIZE = 8"
definition DEFAULT_RTO :: duration where "DEFAULT_RTO = from_secs 2"
definition MAX_RTO :: duration where "MAX_RTO = from_secs 30"
definition DEFAULT_MAX_RETRIES :: u32 where "DEFAULT_MAX_RETRIES = 5"

record arq_config =
  window_size :: u8
  initial_rto :: duration
  max_rto :: duration
  max_retries :: u32

definition arq_config_default :: arq_config where
  "arq_config_default = \<lparr> window_size = DEFAULT_WINDOW_SIZE, initial_rto = DEFAULT_RTO,
     max_rto = MAX_RTO, max_retries = DEFAULT_MAX_RETRIES \<rparr>"

definition arq_config_for_ble :: arq_config where
  "arq_config_for_ble = \<lparr> window_size = 4, initial_rto = from_millis 1500,
     max_rto = from_secs 15, max_retries = 5 \<rparr>"

definition arq_config_for_lora :: arq_config where
  "arq_config_for_lora = \<lparr> window_size = 2, initial_rto = from_secs 10,
     max_rto = from_secs 60, max_retries = 3 \<rparr>"

section \<open>The send window\<close>

record send_entry =
  se_seq :: sequence_number
  se_data :: bytes
  se_first_sent :: instant
  se_last_sent :: instant
  se_transmissions :: u32

definition send_entry_new :: "instant \<Rightarrow> sequence_number \<Rightarrow> bytes \<Rightarrow> send_entry" where
  "send_entry_new now s d = \<lparr> se_seq = s, se_data = d, se_first_sent = now, se_last_sent = now,
     se_transmissions = 1 \<rparr>"

definition time_since_sent :: "instant \<Rightarrow> send_entry \<Rightarrow> duration" where
  "time_since_sent now e = now - se_last_sent e"

definition total_time :: "instant \<Rightarrow> send_entry \<Rightarrow> duration" where
  "total_time now e = now - se_first_sent e"

definition mark_retransmitted :: "instant \<Rightarrow> send_entry \<Rightarrow> send_entry" where
  "mark_retransmitted now e = e \<lparr> se_last_sent := now, se_transmissions := se_transmissions e + 1 \<rparr>"

record send_window =
  sw_config :: arq_config
  sw_next_seq :: sequence_number
  sw_base_seq :: sequence_number
  sw_unacked :: "send_entry list"
  sw_current_rto :: duration
  sw_srtt :: "duration option"

definition sw_new :: "arq_config \<Rightarrow> send_window" where
  "sw_new cfg = \<lparr> sw_config = cfg, sw_next_seq = 0, sw_base_seq = 0, sw_unacked = [],
     sw_current_rto = initial_rto cfg, sw_srtt = None \<rparr>"

definition sw_with_defaults :: send_window where
  "sw_with_defaults = sw_new arq_config_default"

definition sw_can_send :: "send_window \<Rightarrow> bool" where
  "sw_can_send sw \<longleftrightarrow> length (sw_unacked sw) < unat (window_size (sw_config sw))"

definition sw_is_full :: "send_window \<Rightarrow> bool" where
  "sw_is_full sw \<longleftrightarrow> \<not> sw_can_send sw"

definition sw_in_flight :: "send_window \<Rightarrow> nat" where
  "sw_in_flight sw = length (sw_unacked sw)"

definition sw_len :: "send_window \<Rightarrow> nat" where
  "sw_len sw = sw_in_flight sw"

definition sw_is_empty :: "send_window \<Rightarrow> bool" where
  "sw_is_empty sw \<longleftrightarrow> sw_unacked sw = []"

definition sw_send :: "instant \<Rightarrow> bytes \<Rightarrow> send_window \<Rightarrow> sequence_number option \<times> send_window" where
  "sw_send now d sw =
     (if \<not> sw_can_send sw then (None, sw)
      else let s = sw_next_seq sw in
        (Some s, sw \<lparr> sw_next_seq := seq_next (sw_next_seq sw),
                      sw_unacked := sw_unacked sw @ [send_entry_new now s d] \<rparr>))"

definition sw_add :: "instant \<Rightarrow> sequence_number \<Rightarrow> bytes \<Rightarrow> (send_window, constrained_error, unit) op" where
  "sw_add now s d sw =
     (if sw_is_full sw then (Inl SendBufferFull, sw)
      else (Inr (), sw \<lparr> sw_unacked := sw_unacked sw @ [send_entry_new now s d] \<rparr>))"

text \<open>\<^verbatim>\<open>update_rtt\<close> panics inside \<^verbatim>\<open>clamp\<close> when the configured bounds are the wrong way round.\<close>

definition sw_update_rtt :: "duration \<Rightarrow> (send_window, constrained_error failure, unit) op" where
  "sw_update_rtt sample sw = (case sw_srtt sw of
      Some srtt \<Rightarrow>
        let srtt_secs = as_secs_f64 srtt;
            sample_secs = as_secs_f64 sample;
            new_srtt = f64_add (f64_mul (1 - 1 / 8) srtt_secs) (f64_mul (1 / 8) sample_secs)
        in (case f64_clamp (f64_mul 2 new_srtt)
                   (as_secs_f64 (initial_rto (sw_config sw))) (as_secs_f64 (max_rto (sw_config sw))) of
              None \<Rightarrow> (Inl Panic, sw)
            | Some new_rto \<Rightarrow>
                (Inr (), sw \<lparr> sw_srtt := Some (from_secs_f64 new_srtt),
                              sw_current_rto := from_secs_f64 new_rto \<rparr>))
    | None \<Rightarrow> (Inr (), sw \<lparr> sw_srtt := Some sample, sw_current_rto := sample * 2 \<rparr>))"

text \<open>The loop of \<^verbatim>\<open>acknowledge\<close>; its list argument is the queue \<open>sw_unacked\<close> of the state.\<close>

fun sw_ack_loop :: "instant \<Rightarrow> sequence_number \<Rightarrow> send_entry list \<Rightarrow> nat \<Rightarrow> (send_window, constrained_error failure, nat) op" where
  "sw_ack_loop now ack [] count sw = (Inr count, sw)"
| "sw_ack_loop now ack (entry # rest) count sw =
     (let dist = distance_to (sw_base_seq sw) (se_seq entry);
          ack_dist = distance_to (sw_base_seq sw) ack
      in if dist \<le> ack_dist then
           (let sw1 = sw \<lparr> sw_unacked := rest \<rparr> in
            op_bind (if se_transmissions entry = 1 then sw_update_rtt (time_since_sent now entry) else op_ret ())
              (\<lambda>_. sw_ack_loop now ack rest (count + 1)) sw1)
         else (Inr count, sw))"

definition sw_acknowledge :: "instant \<Rightarrow> sequence_number \<Rightarrow> (send_window, constrained_error failure, nat) op" where
  "sw_acknowledge now ack sw = op_bind (sw_ack_loop now ack (sw_unacked sw) 0)
     (\<lambda>count sw1. if count > 0 then (Inr count, sw1 \<lparr> sw_base_seq := seq_next ack \<rparr>)
                   else (Inr count, sw1)) sw"

text \<open>The loop of \<^verbatim>\<open>get_retransmissions\<close>: entries before the one that exhausts its retries are
  already marked when it gives up.\<close>

fun sw_retransmit_loop :: "instant \<Rightarrow> duration \<Rightarrow> u32 \<Rightarrow> send_entry list
    \<Rightarrow> (sequence_number \<times> bytes) list option \<times> send_entry list" where
  "sw_retransmit_loop now rto retries [] = (Some [], [])"
| "sw_retransmit_loop now rto retries (entry # rest) =
     (if time_since_sent now entry > rto then
        if se_transmissions entry > retries then (None, entry # rest)
        else (let (rs, rest') = sw_retransmit_loop now rto retries rest
              in (map_option (Cons (se_seq entry, se_data entry)) rs, mark_retransmitted now entry # rest'))
      else (let (rs, rest') = sw_retransmit_loop now rto retries rest in (rs, entry # rest')))"

definition sw_get_retransmissions ::
  "instant \<Rightarrow> send_window \<Rightarrow> (sequence_number \<times> bytes) list option \<times> send_window" where
  "sw_get_retransmissions now sw =
     (case sw_retransmit_loop now (sw_current_rto sw) (max_retries (sw_config sw)) (sw_unacked sw) of
        (None, entries) \<Rightarrow> (None, sw \<lparr> sw_unacked := entries \<rparr>)
      | (Some rs, entries) \<Rightarrow>
          let sw1 = sw \<lparr> sw_unacked := entries \<rparr> in
          (Some rs, if rs \<noteq> [] then sw1 \<lparr> sw_current_rto := min (sw_current_rto sw1 * 2) (max_rto (sw_config sw1)) \<rparr>
                    else sw1))"

definition sw_reset :: "send_window \<Rightarrow> send_window" where
  "sw_reset sw = sw \<lparr> sw_next_seq := 0, sw_base_seq := 0, sw_unacked := [],
     sw_current_rto := initial_rto (sw_config sw), sw_srtt := None \<rparr>"

section \<open>The receive window\<close>

record receive_window =
  rw_window_size :: u8
  rw_next_expected :: sequence_number
  rw_cumulative_ack :: sequence_number
  rw_out_of_order :: "(sequence_number \<times> bytes) list"

definition rw_new :: "u8 \<Rightarrow> receive_window" where
  "rw_new w = \<lparr> rw_window_size = w, rw_next_expected = 0, rw_cumulative_ack = 0, rw_out_of_order = [] \<rparr>"

definition rw_with_defaults :: receive_window where
  "rw_with_defaults = rw_new DEFAULT_WINDOW_SIZE"

definition rw_is_in_window :: "sequence_number \<Rightarrow> receive_window \<Rightarrow> bool" where
  "rw_is_in_window s rw = is_in_window (rw_next_expected rw) s (rw_window_size rw)"

function rw_drain :: "receive_window \<Rightarrow> (sequence_number \<times> bytes) list
    \<Rightarrow> (sequence_number \<times> bytes) list \<times> receive_window" where
  "rw_drain rw deliverable =
     (case position (\<lambda>(s, _). s = rw_next_expected rw) (rw_out_of_order rw) of
        None \<Rightarrow> (deliverable, rw)
      | Some idx \<Rightarrow>
          let (s, d) = rw_out_of_order rw ! idx in
          rw_drain (rw \<lparr> rw_out_of_order := remove_at idx (rw_out_of_order rw),
                         rw_next_expected := seq_next (rw_next_expected rw),
                         rw_cumulative_ack := s \<rparr>) (deliverable @ [(s, d)]))"
  by pat_completeness auto
termination
proof (relation "measure (\<lambda>(rw, _). length (rw_out_of_order rw))")
  fix rw :: receive_window and deliverable idx p s d
  assume "position (\<lambda>(s, _). s = rw_next_expected rw) (rw_out_of_order rw) = Some idx"
  then have "idx < length (rw_out_of_order rw)" by (simp add: position_SomeD)
  then show "((rw \<lparr> rw_out_of_order := remove_at idx (rw_out_of_order rw),
                 rw_next_expected := seq_next (rw_next_expected rw),
                 rw_cumulative_ack := s \<rparr>, deliverable @ [(s, d)]), rw, deliverable)
      \<in> measure (\<lambda>(rw, _). length (rw_out_of_order rw))"
    by simp
qed simp

declare rw_drain.simps [simp del]

definition rw_receive :: "sequence_number \<Rightarrow> bytes \<Rightarrow> receive_window
    \<Rightarrow> (sequence_number \<times> bytes) list option \<times> receive_window" where
  "rw_receive s d rw =
     (if \<not> rw_is_in_window s rw then (None, rw)
      else if s = rw_next_expected rw then
        (let (deliverable, rw') = rw_drain (rw \<lparr> rw_next_expected := seq_next (rw_next_expected rw),
                                                 rw_cumulative_ack := s \<rparr>) [(s, d)]
         in (Some deliverable, rw'))
      else if \<not> list_ex (\<lambda>(t, _). t = s) (rw_out_of_order rw) then
        (let pos = (case position (\<lambda>(t, _). distance_to (rw_next_expected rw) t
                                            > distance_to (rw_next_expected rw) s) (rw_out_of_order rw) of
                      Some i \<Rightarrow> i | None \<Rightarrow> length (rw_out_of_order rw))
         in (None, rw \<lparr> rw_out_of_order := insert_at pos (s, d) (rw_out_of_order rw) \<rparr>))
      else (None, rw))"

definition rw_reset :: "receive_window \<Rightarrow> receive_window" where
  "rw_reset rw = rw \<lparr> rw_next_expected := 0, rw_cumulative_ack := 0, rw_out_of_order := [] \<rparr>"

definition rw_reset_with_seq :: "sequence_number \<Rightarrow> receive_window \<Rightarrow> receive_window" where
  "rw_reset_with_seq s rw = rw \<lparr> rw_next_expected := s, rw_cumulative_ack := s, rw_out_of_order := [] \<rparr>"

definition rw_buffered_count :: "receive_window \<Rightarrow> nat" where
  "rw_buffered_count rw = length (rw_out_of_order rw)"

section \<open>The receive window on packet indices\<close>

text \<open>Numbering the packets of a direction \<open>0, 1, 2, \<dots>\<close>, packet \<open>i\<close> travels with sequence number
  \<open>of_nat i\<close>.  \<open>rx_rel m n xs rw\<close>: the window expects packet \<open>n\<close> and holds the packets \<open>xs\<close> of the
  message sequence \<open>m\<close>.\<close>

abbreviation rx_packet :: "(nat \<Rightarrow> bytes) \<Rightarrow> nat \<Rightarrow> sequence_number \<times> bytes" where
  "rx_packet m i \<equiv> (of_nat i, m i)"

definition rx_rel :: "(nat \<Rightarrow> bytes) \<Rightarrow> nat \<Rightarrow> nat list \<Rightarrow> receive_window \<Rightarrow> bool" where
  "rx_rel m n xs rw \<longleftrightarrow> unat (rw_window_size rw) < 128 \<and> rw_next_expected rw = of_nat n
     \<and> rw_out_of_order rw = map (rx_packet m) xs \<and> sorted_wrt (<) xs
     \<and> (\<forall>x\<in>set xs. n < x \<and> x \<le> n + unat (rw_window_size rw))"

fun drain_ix :: "nat \<Rightarrow> nat list \<Rightarrow> nat \<times> nat list" where
  "drain_ix n [] = (n, [])"
| "drain_ix n (x # xs) = (if x = n then drain_ix (Suc n) xs else (n, x # xs))"

lemma drain_ix_props:
  assumes "drain_ix n xs = (k, ys)" and "sorted_wrt (<) xs" and "\<forall>x\<in>set xs. n \<le> x"
  shows "n \<le> k \<and> sorted_wrt (<) ys \<and> (\<forall>y\<in>set ys. k < y) \<and> {n..<k} \<union> set ys = set xs"
  using assms
proof (induction n xs rule: drain_ix.induct)
  case (2 n x xs)
  show ?case
  proof (cases "x = n")
    case True
    then have "Suc n \<le> k \<and> sorted_wrt (<) ys \<and> (\<forall>y\<in>set ys. k < y) \<and> {Suc n..<k} \<union> set ys = set xs"
      using 2 by (auto simp: Suc_le_eq)
    moreover from this have "{n..<k} = insert n {Suc n..<k}" by auto
    ultimately show ?thesis using True by auto
  next
    case False
    then show ?thesis using 2 by force
  qed
qed auto

lemma rw_drain_ix:
  assumes "rw_next_expected rw = of_nat n" and "rw_out_of_order rw = map (rx_packet m) xs"
    and "sorted_wrt (<) xs" and "\<forall>x\<in>set xs. n \<le> x \<and> x < n + 256"
    and "rw_cumulative_ack rw = of_nat (n - 1)" and "drain_ix n xs = (k, ys)"
  shows "rw_drain rw del = (del @ map (rx_packet m) [n..<k],
     rw \<lparr> rw_out_of_order := map (rx_packet m) ys, rw_next_expected := of_nat k,
          rw_cumulative_ack := of_nat (k - 1) \<rparr>)"
  using assms
proof (induction n xs arbitrary: rw del rule: drain_ix.induct)
  case (1 n)
  then show ?case by (subst rw_drain.simps) simp
next
  case (2 n x xs)
  show ?case
  proof (cases "x = n")
    case True
    let ?rw = "rw \<lparr> rw_out_of_order := map (rx_packet m) xs, rw_next_expected := of_nat (Suc n),
                  rw_cumulative_ack := of_nat n \<rparr>"
    have step: "rw_drain rw del = rw_drain ?rw (del @ [rx_packet m n])"
      by (subst rw_drain.simps) (use 2 True in \<open>simp add: remove_at_def\<close>)
    have k: "Suc n \<le> k" using drain_ix_props [of "Suc n" xs k ys] 2 True by (auto simp: Suc_le_eq)
    have "rw_drain ?rw (del @ [rx_packet m n]) = ((del @ [rx_packet m n]) @ map (rx_packet m) [Suc n..<k],
        ?rw \<lparr> rw_out_of_order := map (rx_packet m) ys, rw_next_expected := of_nat k,
             rw_cumulative_ack := of_nat (k - 1) \<rparr>)"
      by (rule "2.IH" [OF True]) (use 2 True in \<open>auto simp: Suc_le_eq\<close>)
    then show ?thesis using k by (simp add: step upt_conv_Cons)
  next
    case False
    have "(of_nat y :: sequence_number) \<noteq> of_nat n" if "y \<in> set (x # xs)" for y
    proof
      assume "(of_nat y :: sequence_number) = of_nat n"
      moreover have "n < y" "y < n + 256" using 2 False that by fastforce+
      ultimately show False using seq_index_inj [of y n] by simp
    qed
    then have "position (\<lambda>(s, _). s = of_nat n) (map (rx_packet m) (x # xs)) = None"
      by (auto simp: position_None_iff)
    then have "rw_drain rw del = (del, rw)"
      by (subst rw_drain.simps) (simp add: 2 del: list.map position.simps)
    then show ?thesis using 2 False by (cases rw) auto
  qed
qed

lemma insert_at_insort:
  "sorted_wrt (<) xs \<Longrightarrow> i \<notin> set xs \<Longrightarrow>
   insert_at (case position (\<lambda>x. i < x) xs of Some p \<Rightarrow> p | None \<Rightarrow> length xs) i xs = insort i xs"
  by (induction xs) (auto simp: insert_at_def split: option.splits)

lemma sorted_insort_strict: "sorted_wrt (<) xs \<Longrightarrow> i \<notin> set xs \<Longrightarrow> sorted_wrt (<) (insort i xs)"
  by (simp add: strict_sorted_iff sorted_insort distinct_insort)

lemma rw_receive_outside:
  assumes "rx_rel m n xs rw" and "n \<le> i + 128" and "i < n + 128" and "i < n \<or> n + unat (rw_window_size rw) < i"
  shows "rw_receive (of_nat i) d rw = (None, rw)"
  using assms is_in_window_index [of "rw_window_size rw" n i]
  by (auto simp: rw_receive_def rw_is_in_window_def rx_rel_def)

lemma rw_receive_next:
  assumes "rx_rel m n xs rw" and "drain_ix (Suc n) xs = (k, ys)"
  shows "\<exists>rw'. rw_receive (of_nat n) (m n) rw = (Some (map (rx_packet m) [n..<k]), rw')
    \<and> rx_rel m k ys rw' \<and> rw_cumulative_ack rw' = of_nat (k - 1)
    \<and> rw_window_size rw' = rw_window_size rw"
proof -
  let ?rw = "rw \<lparr> rw_next_expected := of_nat (Suc n), rw_cumulative_ack := of_nat n \<rparr>"
  have w: "unat (rw_window_size rw) < 128" and xs: "sorted_wrt (<) xs"
      "\<forall>x\<in>set xs. n < x \<and> x \<le> n + unat (rw_window_size rw)"
    using assms(1) by (auto simp: rx_rel_def)
  have ys: "Suc n \<le> k" "sorted_wrt (<) ys" "\<forall>y\<in>set ys. k < y" "{Suc n..<k} \<union> set ys = set xs"
    using drain_ix_props [OF assms(2) xs(1)] xs(2) by (auto simp: Suc_le_eq)
  have "rw_drain ?rw [rx_packet m n] = ([rx_packet m n] @ map (rx_packet m) [Suc n..<k],
      ?rw \<lparr> rw_out_of_order := map (rx_packet m) ys, rw_next_expected := of_nat k,
           rw_cumulative_ack := of_nat (k - 1) \<rparr>)"
    by (rule rw_drain_ix) (use assms w xs in \<open>auto simp: rx_rel_def Suc_le_eq\<close>)
  moreover have "rw_is_in_window (of_nat n) rw"
    using assms(1) is_in_window_index [of "rw_window_size rw" n n] by (simp add: rw_is_in_window_def rx_rel_def)
  ultimately have "rw_receive (of_nat n) (m n) rw = (Some (map (rx_packet m) [n..<k]),
      ?rw \<lparr> rw_out_of_order := map (rx_packet m) ys, rw_next_expected := of_nat k,
           rw_cumulative_ack := of_nat (k - 1) \<rparr>)"
    using assms(1) ys(1) by (simp add: rw_receive_def rx_rel_def upt_conv_Cons)
  moreover have "\<forall>y\<in>set ys. y \<le> k + unat (rw_window_size rw)"
  proof
    fix y
    assume "y \<in> set ys"
    then have "y \<in> set xs" using ys(4) by blast
    then show "y \<le> k + unat (rw_window_size rw)" using xs(2) ys(1) by fastforce
  qed
  ultimately show ?thesis using assms(1) ys by (simp add: rx_rel_def)
qed

lemma rw_receive_ahead:
  assumes "rx_rel m n xs rw" and "n < i" and "i \<le> n + unat (rw_window_size rw)"
  shows "\<exists>rw'. rw_receive (of_nat i) (m i) rw = (None, rw')
    \<and> rx_rel m n (if i \<in> set xs then xs else insort i xs) rw'
    \<and> rw_cumulative_ack rw' = rw_cumulative_ack rw \<and> rw_window_size rw' = rw_window_size rw"
proof -
  have w: "unat (rw_window_size rw) < 128" and xs: "sorted_wrt (<) xs"
      "\<forall>x\<in>set xs. n < x \<and> x \<le> n + unat (rw_window_size rw)"
    and ne: "rw_next_expected rw = of_nat n" and ooo: "rw_out_of_order rw = map (rx_packet m) xs"
    using assms(1) by (auto simp: rx_rel_def)
  have in_win: "rw_is_in_window (of_nat i) rw"
    using is_in_window_index [of "rw_window_size rw" n i] w assms(2,3) by (simp add: rw_is_in_window_def ne)
  have neq: "(of_nat i :: sequence_number) \<noteq> of_nat n"
    using seq_index_inj [of i n] assms(2,3) w by force
  have dup: "list_ex (\<lambda>(t, _). t = of_nat i) (map (rx_packet m) xs) \<longleftrightarrow> i \<in> set xs"
  proof -
    have "x = i" if "x \<in> set xs" "(of_nat x :: sequence_number) = of_nat i" for x
      using that(2) by (rule seq_index_inj) (use that(1) xs(2) w assms(2,3) in fastforce)+
    then show ?thesis by (auto simp: list_ex_iff)
  qed
  have dist: "distance_to (of_nat n) (of_nat x) = int x - int n" if "x \<in> insert i (set xs)" for x
    by (rule distance_to_index) (use that xs(2) w assms(2,3) in fastforce)+
  have pos: "position (\<lambda>(t, _). distance_to (of_nat n) t > distance_to (of_nat n) (of_nat i))
      (map (rx_packet m) xs) = position (\<lambda>x. i < x) xs"
    unfolding position_map by (rule position_cong) (simp add: dist)
  have ins: "insert_at p (rx_packet m i) (map (rx_packet m) xs) = map (rx_packet m) (insert_at p i xs)" for p
    by (simp add: insert_at_def take_map drop_map)
  show ?thesis
  proof (cases "i \<in> set xs")
    case True
    then show ?thesis using assms(1) in_win neq dup by (simp add: rw_receive_def ne ooo)
  next
    case False
    let ?rw = "rw \<lparr> rw_out_of_order := map (rx_packet m) (insort i xs) \<rparr>"
    have "rw_receive (of_nat i) (m i) rw = (None, ?rw)"
      using in_win neq dup False insert_at_insort [OF xs(1) False]
      by (simp add: rw_receive_def ne ooo pos ins cong: option.case_cong)
    moreover have "rx_rel m n (insort i xs) ?rw"
      using False w xs sorted_insort_strict [OF xs(1) False] assms(2,3) ne
      by (simp add: rx_rel_def set_insort_key)
    ultimately show ?thesis using False by simp
  qed
qed

text \<open>One arrival: the set of packets accounted for (delivered or held) grows by the arriving one,
  and delivery happens exactly when the packet is the one expected.\<close>

lemma rw_receive_index:
  assumes rel: "rx_rel m n xs rw" and cum: "rw_cumulative_ack rw = of_nat (n - 1)"
    and old: "n \<le> i + 128" and new: "i \<le> n + unat (rw_window_size rw)"
  obtains r rw' k ys where "rw_receive (of_nat i) (m i) rw = (r, rw')" and "rx_rel m k ys rw'"
    and "rw_cumulative_ack rw' = of_nat (k - 1)" and "rw_window_size rw' = rw_window_size rw" and "n \<le> k"
    and "r = (if i = n then Some (map (rx_packet m) [n..<k]) else None)" and "i = n \<longleftrightarrow> n < k"
    and "{..<k} \<union> set ys = insert i ({..<n} \<union> set xs)"
proof -
  have w: "unat (rw_window_size rw) < 128" using rel by (simp add: rx_rel_def)
  consider "i < n" | "i = n" | "n < i" by linarith
  then show ?thesis
  proof cases
    case 1
    have "rw_receive (of_nat i) (m i) rw = (None, rw)"
      by (rule rw_receive_outside [OF rel]) (use old 1 in auto)
    then show ?thesis using that [of None rw n xs] rel cum 1 by auto
  next
    case 2
    obtain k ys where d: "drain_ix (Suc n) xs = (k, ys)" by fastforce
    have "sorted_wrt (<) xs" "\<forall>x\<in>set xs. Suc n \<le> x" using rel by (auto simp: rx_rel_def Suc_le_eq)
    note p = drain_ix_props [OF d this]
    have "{..<k} = {..<n} \<union> {n} \<union> {Suc n..<k}" using p by auto
    then have all: "{..<k} \<union> set ys = insert i ({..<n} \<union> set xs)" using p 2 by auto
    from rw_receive_next [OF rel d] obtain rw' where
      r: "rw_receive (of_nat n) (m n) rw = (Some (map (rx_packet m) [n..<k]), rw')"
      "rx_rel m k ys rw'" "rw_cumulative_ack rw' = of_nat (k - 1)"
      "rw_window_size rw' = rw_window_size rw" by blast
    show ?thesis by (rule that [of _ rw' k ys]) (use r p 2 all in simp_all)
  next
    case 3
    from rw_receive_ahead [OF rel 3 new] obtain rw' where
      r: "rw_receive (of_nat i) (m i) rw = (None, rw')"
      "rx_rel m n (if i \<in> set xs then xs else insort i xs) rw'"
      "rw_cumulative_ack rw' = rw_cumulative_ack rw" "rw_window_size rw' = rw_window_size rw" by blast
    show ?thesis by (rule that [OF r(1,2)]) (use r 3 cum in \<open>auto simp: set_insort_key\<close>)
  qed
qed

text \<open>A whole sequence of arrivals, and what it delivers.\<close>

fun rw_receive_all :: "(sequence_number \<times> bytes) list \<Rightarrow> receive_window \<Rightarrow> bytes list \<times> receive_window" where
  "rw_receive_all [] rw = ([], rw)"
| "rw_receive_all ((s, d) # ps) rw =
     (let (r, rw1) = rw_receive s d rw; (ds, rw2) = rw_receive_all ps rw1
      in (map snd (case r of None \<Rightarrow> [] | Some l \<Rightarrow> l) @ ds, rw2))"

lemma rw_receive_all_snoc:
  "rw_receive_all (ps @ [(s, d)]) rw =
     (let (ds, rw1) = rw_receive_all ps rw; (r, rw2) = rw_receive s d rw1
      in (ds @ map snd (case r of None \<Rightarrow> [] | Some l \<Rightarrow> l), rw2))"
  by (induction ps arbitrary: rw) (auto simp: Let_def case_prod_beta)

text \<open>The first packet index that is missing from a list of arrivals.\<close>

definition first_missing :: "nat list \<Rightarrow> nat" where
  "first_missing is = length (takeWhile (\<lambda>k. k \<in> set is) [0..<length is])"

lemma first_missing_props: "first_missing is \<notin> set is" "j < first_missing is \<Longrightarrow> j \<in> set is"
proof -
  let ?t = "takeWhile (\<lambda>k. k \<in> set is) [0..<length is]"
  have le: "first_missing is \<le> length is"
    unfolding first_missing_def by (metis diff_zero length_takeWhile_le length_upt)
  have below: "j \<in> set is" if "j < first_missing is" for j
  proof -
    have "?t ! j = j" using that le unfolding first_missing_def by (simp add: takeWhile_nth)
    moreover have "?t ! j \<in> set ?t" using that unfolding first_missing_def by (rule nth_mem)
    ultimately show ?thesis by (metis set_takeWhileD)
  qed
  then show "j < first_missing is \<Longrightarrow> j \<in> set is" .
  show "first_missing is \<notin> set is"
  proof (cases "first_missing is < length is")
    case True
    then show ?thesis
      using nth_length_takeWhile [of "\<lambda>k. k \<in> set is" "[0..<length is]"] by (simp add: first_missing_def)
  next
    case False
    then have sub: "{..<length is} \<subseteq> set is" using below le by auto
    have "card (set is) \<le> card {..<length is}" by (simp add: card_length)
    then have "set is = {..<length is}" using sub by (metis List.finite_set card_seteq)
    then show ?thesis using False le by simp
  qed
qed

lemma first_missing_unique:
  assumes "k \<notin> set is" and "{..<k} \<subseteq> set is"
  shows "first_missing is = k"
proof (rule ccontr)
  assume "first_missing is \<noteq> k"
  then consider "first_missing is < k" | "k < first_missing is" by linarith
  then show False using first_missing_props assms by cases blast+
qed

text \<open>Every arrival is at most a window ahead of the first gap and at most 128 behind it.\<close>

definition arrivals_in_reach :: "u8 \<Rightarrow> nat list \<Rightarrow> bool" where
  "arrivals_in_reach w is \<longleftrightarrow> list_all (\<lambda>p. let n = first_missing (take p is) in
     is ! p \<le> n + unat w \<and> n \<le> is ! p + 128) [0..<length is]"

lemma arrivals_in_reach_snoc:
  "arrivals_in_reach w (is @ [i]) \<longleftrightarrow> arrivals_in_reach w is
     \<and> i \<le> first_missing is + unat w \<and> first_missing is \<le> i + 128"
  by (auto simp: arrivals_in_reach_def list_all_iff Let_def nth_append less_Suc_eq)

lemma rw_receive_all_index:
  assumes "unat w < 128" and "arrivals_in_reach w is"
  shows "\<exists>xs rw. rw_receive_all (map (rx_packet m) is) (rw_new w) = (map m [0..<first_missing is], rw)
    \<and> rx_rel m (first_missing is) xs rw \<and> {..<first_missing is} \<union> set xs = set is
    \<and> rw_cumulative_ack rw = of_nat (first_missing is - 1) \<and> rw_window_size rw = w"
  using assms(2)
proof (induction "is" rule: rev_induct)
  case Nil
  show ?case using assms(1) by (simp add: first_missing_def rx_rel_def rw_new_def)
next
  case (snoc i "is")
  let ?n = "first_missing is"
  from snoc obtain xs rw where
    run: "rw_receive_all (map (rx_packet m) is) (rw_new w) = (map m [0..<?n], rw)"
    and rel: "rx_rel m ?n xs rw" and all: "{..<?n} \<union> set xs = set is"
    and cum: "rw_cumulative_ack rw = of_nat (?n - 1)" and w: "rw_window_size rw = w"
    by (auto simp: arrivals_in_reach_snoc)
  have reach: "?n \<le> i + 128" "i \<le> ?n + unat (rw_window_size rw)"
    using snoc.prems w by (simp_all add: arrivals_in_reach_snoc)
  obtain r rw' k ys where step: "rw_receive (of_nat i) (m i) rw = (r, rw')" "rx_rel m k ys rw'"
    "rw_cumulative_ack rw' = of_nat (k - 1)" "rw_window_size rw' = rw_window_size rw" "?n \<le> k"
    "r = (if i = ?n then Some (map (rx_packet m) [?n..<k]) else None)" "i = ?n \<longleftrightarrow> ?n < k"
    "{..<k} \<union> set ys = insert i ({..<?n} \<union> set xs)"
    by (rule rw_receive_index [OF rel cum reach])
  have set: "{..<k} \<union> set ys = set (is @ [i])" using step(8) all by auto
  moreover have "k \<notin> {..<k} \<union> set ys" using step(2) by (auto simp: rx_rel_def)
  ultimately have k: "first_missing (is @ [i]) = k" by (intro first_missing_unique) auto
  have "map m [0..<?n] @ map snd (case r of None \<Rightarrow> [] | Some l \<Rightarrow> l) = map m [0..<k]"
    using step(5,6,7) upt_add_eq_append [of 0 ?n "k - ?n"]
    by (cases "i = ?n") (auto simp: comp_def simp flip: map_append)
  then show ?case
    using run step set k w by (auto simp: rw_receive_all_snoc)
qed

section \<open>The send window on packet indices\<close>

text \<open>\<open>tx_rel msgs b sw\<close>: of the messages \<open>msgs\<close> sent so far, those before index \<open>b\<close> are acknowledged and
  the others are in the window.\<close>

definition tx_rel :: "bytes list \<Rightarrow> nat \<Rightarrow> send_window \<Rightarrow> bool" where
  "tx_rel msgs b sw \<longleftrightarrow> b \<le> length msgs \<and> length msgs \<le> b + unat (window_size (sw_config sw))
     \<and> sw_base_seq sw = of_nat b
     \<and> map se_seq (sw_unacked sw) = map of_nat [b..<length msgs]
     \<and> map se_data (sw_unacked sw) = drop b msgs"

lemma tx_rel_length: "tx_rel msgs b sw \<Longrightarrow> length (sw_unacked sw) = length msgs - b"
  unfolding tx_rel_def by (metis length_drop length_map)

text \<open>The bounds of the retransmission timer are the right way round, so \<^verbatim>\<open>clamp\<close> does not panic.\<close>

definition arq_config_ok :: "arq_config \<Rightarrow> bool" where
  "arq_config_ok cfg \<longleftrightarrow> as_secs_f64 (initial_rto cfg) \<le> as_secs_f64 (max_rto cfg)"

lemma sw_update_rtt_ok:
  assumes "arq_config_ok (sw_config sw)"
  obtains sw' where "sw_update_rtt sample sw = (Inr (), sw')" and "sw_config sw' = sw_config sw"
    and "sw_next_seq sw' = sw_next_seq sw" and "sw_base_seq sw' = sw_base_seq sw"
    and "sw_unacked sw' = sw_unacked sw"
  using assms by (cases "sw_srtt sw") (auto simp: sw_update_rtt_def Let_def f64_clamp_def arq_config_ok_def)

lemma sw_ack_loop_index:
  assumes "arq_config_ok (sw_config sw)" and "sw_base_seq sw = of_nat b" and "sw_unacked sw = es"
    and "map se_seq es = map of_nat [j..<n]" and "b \<le> j" and "n \<le> b + 128"
    and "b \<le> a + 128" and "a < b + 128"
  shows "\<exists>sw'. sw_ack_loop now (of_nat a) es c sw = (Inr (c + min (length es) (Suc a - j)), sw')
    \<and> sw_unacked sw' = drop (Suc a - j) es \<and> sw_config sw' = sw_config sw
    \<and> sw_next_seq sw' = sw_next_seq sw \<and> sw_base_seq sw' = sw_base_seq sw"
  using assms
proof (induction es arbitrary: j c sw)
  case (Cons e es)
  from Cons.prems(4) have j: "j < n" by (cases "j < n") auto
  then have e: "se_seq e = of_nat j" and es: "map se_seq es = map of_nat [Suc j..<n]"
    using Cons.prems(4) by (simp_all add: upt_conv_Cons)
  have dist: "distance_to (of_nat b) (se_seq e) = int j - int b"
    "distance_to (of_nat b) (of_nat a) = int a - int b"
    using Cons.prems j by (simp_all add: e distance_to_index)
  show ?case
  proof (cases "j \<le> a")
    case False
    then show ?thesis using Cons.prems by (simp add: dist Let_def)
  next
    case True
    let ?sw = "sw \<lparr> sw_unacked := es \<rparr>"
    obtain sw1 where upd: "(if se_transmissions e = 1 then sw_update_rtt (time_since_sent now e) else op_ret ()) ?sw
        = (Inr (), sw1)" and sw1: "sw_config sw1 = sw_config sw" "sw_next_seq sw1 = sw_next_seq sw"
        "sw_base_seq sw1 = sw_base_seq sw" "sw_unacked sw1 = es"
    proof (cases "se_transmissions e = 1")
      case True
      have "arq_config_ok (sw_config ?sw)" using Cons.prems(1) by simp
      from sw_update_rtt_ok [OF this] True that show ?thesis by auto
    qed auto
    from Cons.IH [of sw1 "Suc j" "Suc c"] Cons.prems es sw1
    obtain sw' where IH: "sw_ack_loop now (of_nat a) es (Suc c) sw1 = (Inr (Suc c + min (length es) (a - j)), sw')"
      "sw_unacked sw' = drop (a - j) es" "sw_config sw' = sw_config sw"
      "sw_next_seq sw' = sw_next_seq sw" "sw_base_seq sw' = sw_base_seq sw" by auto
    have "sw_ack_loop now (of_nat a) (e # es) c sw = (Inr (Suc c + min (length es) (a - j)), sw')"
      using True upd IH(1) Cons.prems(2) by (simp add: dist Let_def op_bind_def split: if_splits)
    with True IH show ?thesis by (simp add: Suc_diff_le)
  qed
qed simp

lemma sw_acknowledge_index:
  assumes rel: "tx_rel msgs b sw" and cfg: "arq_config_ok (sw_config sw)" "unat (window_size (sw_config sw)) < 128"
    and a: "a < length msgs" "b \<le> a + 128"
  obtains sw' where "sw_acknowledge now (of_nat a) sw = (Inr (Suc a - b), sw')"
    and "tx_rel msgs (max b (Suc a)) sw'" and "sw_unacked sw' = drop (Suc a - b) (sw_unacked sw)"
    and "sw_config sw' = sw_config sw" and "sw_next_seq sw' = sw_next_seq sw"
proof -
  have win: "b \<le> length msgs" "length msgs \<le> b + unat (window_size (sw_config sw))"
    and base: "sw_base_seq sw = of_nat b"
    and seqs: "map se_seq (sw_unacked sw) = map of_nat [b..<length msgs]"
    and data: "map se_data (sw_unacked sw) = drop b msgs"
    using rel by (auto simp: tx_rel_def)
  have len: "length (sw_unacked sw) = length msgs - b" using rel by (rule tx_rel_length)
  have bounds: "length msgs \<le> b + 128" "a < b + 128" using win cfg(2) a(1) by linarith+
  obtain sw1 where l: "sw_ack_loop now (of_nat a) (sw_unacked sw) 0 sw = (Inr (0 + min (length (sw_unacked sw)) (Suc a - b)), sw1)"
    "sw_unacked sw1 = drop (Suc a - b) (sw_unacked sw)" "sw_config sw1 = sw_config sw"
    "sw_next_seq sw1 = sw_next_seq sw" "sw_base_seq sw1 = sw_base_seq sw"
    using sw_ack_loop_index [OF cfg(1) base refl seqs le_refl bounds(1) a(2) bounds(2), of now 0] by blast
  have cnt: "min (length (sw_unacked sw)) (Suc a - b) = Suc a - b" using len a(1) by simp
  let ?sw = "if Suc a - b > 0 then sw1 \<lparr> sw_base_seq := of_nat (Suc a) \<rparr> else sw1"
  have "sw_acknowledge now (of_nat a) sw = (Inr (Suc a - b), ?sw)"
    using l(1) by (simp add: sw_acknowledge_def cnt)
  moreover have "tx_rel msgs (max b (Suc a)) ?sw"
  proof (cases "b \<le> a")
    case True
    then have "max b (Suc a) = b + (Suc a - b)" by simp
    moreover have "map se_seq (drop (Suc a - b) (sw_unacked sw)) = map of_nat [b + (Suc a - b)..<length msgs]"
      unfolding drop_map [symmetric] seqs by (simp only: drop_map drop_upt)
    moreover have "map se_data (drop (Suc a - b) (sw_unacked sw)) = drop (b + (Suc a - b)) msgs"
      unfolding drop_map [symmetric] data by (simp add: add.commute)
    ultimately show ?thesis using True l win a(1) by (simp add: tx_rel_def)
  next
    case False
    then have "max b (Suc a) = b" "Suc a - b = 0" by simp_all
    then show ?thesis using rel l by (simp add: tx_rel_def)
  qed
  ultimately show ?thesis using l that [of ?sw] by simp
qed

lemma sw_send_index:
  assumes "tx_rel msgs b sw" and "sw_next_seq sw = of_nat (length msgs)"
  shows "if length msgs < b + unat (window_size (sw_config sw))
    then \<exists>sw'. sw_send now d sw = (Some (of_nat (length msgs)), sw') \<and> tx_rel (msgs @ [d]) b sw'
           \<and> sw_next_seq sw' = of_nat (Suc (length msgs)) \<and> sw_config sw' = sw_config sw
    else sw_send now d sw = (None, sw)"
  using assms tx_rel_length [OF assms(1)]
  by (auto simp: sw_send_def sw_can_send_def tx_rel_def send_entry_new_def Let_def)

section \<open>Retransmission\<close>

definition entry_expired :: "instant \<Rightarrow> send_window \<Rightarrow> send_entry \<Rightarrow> bool" where
  "entry_expired now sw e \<longleftrightarrow> time_since_sent now e > sw_current_rto sw"

definition entry_exhausted :: "send_window \<Rightarrow> send_entry \<Rightarrow> bool" where
  "entry_exhausted sw e \<longleftrightarrow> se_transmissions e > max_retries (sw_config sw)"

lemma sw_retransmit_loop_None:
  "fst (sw_retransmit_loop now rto retries es) = None \<longleftrightarrow>
     (\<exists>e\<in>set es. time_since_sent now e > rto \<and> se_transmissions e > retries)"
  by (induction es) (auto simp: Let_def case_prod_beta)

lemma sw_retransmit_loop_Some:
  "\<not> (\<exists>e\<in>set es. time_since_sent now e > rto \<and> se_transmissions e > retries) \<Longrightarrow>
   sw_retransmit_loop now rto retries es =
     (Some (map (\<lambda>e. (se_seq e, se_data e)) (filter (\<lambda>e. time_since_sent now e > rto) es)),
      map (\<lambda>e. if time_since_sent now e > rto then mark_retransmitted now e else e) es)"
  by (induction es) auto

lemma sw_retransmit_loop_frame:
  "map se_seq (snd (sw_retransmit_loop now rto retries es)) = map se_seq es"
  "map se_data (snd (sw_retransmit_loop now rto retries es)) = map se_data es"
  by (induction es) (auto simp: Let_def case_prod_beta mark_retransmitted_def)

lemma sw_get_retransmissions_frame:
  assumes "sw_get_retransmissions now sw = (r, sw')"
  shows "sw_config sw' = sw_config sw" and "sw_next_seq sw' = sw_next_seq sw"
    and "sw_base_seq sw' = sw_base_seq sw"
    and "map se_seq (sw_unacked sw') = map se_seq (sw_unacked sw)"
    and "map se_data (sw_unacked sw') = map se_data (sw_unacked sw)"
  using assms sw_retransmit_loop_frame
    [of now "sw_current_rto sw" "max_retries (sw_config sw)" "sw_unacked sw"]
  by (auto simp: sw_get_retransmissions_def Let_def split: prod.splits option.splits)

section \<open>Properties\<close>

text \<open>(C6) Exactly once, in order: whatever the order and multiplicity in which packets of a message
  sequence arrive, as long as each is at most a window ahead of and at most 128 packets behind the
  first one missing, the receive window hands out exactly the messages before the first missing
  one, each once and in order, although sequence numbers are only 8 bits wide; and its cumulative
  acknowledgement names the last message handed out.\<close>

theorem receive_exactly_once_in_order:
  assumes "unat w < 128" and "arrivals_in_reach w is"
  shows "case rw_receive_all (map (\<lambda>i. (of_nat i, m i)) is) (rw_new w) of (delivered, rw) \<Rightarrow>
     delivered = map m [0..<first_missing is]
     \<and> rw_next_expected rw = of_nat (first_missing is)
     \<and> rw_cumulative_ack rw = of_nat (first_missing is - 1)"
  using rw_receive_all_index [OF assms, of m] by (auto simp: rx_rel_def)

theorem receive_exactly_once_in_order_witness:
  "unat (4 :: u8) < 128 \<and> arrivals_in_reach 4 [0, 2, 2, 4, 1, 0, 3]
   \<and> first_missing [0, 2, 2, 4, 1, 0, 3] = 5
   \<and> fst (rw_receive_all (map (\<lambda>i. (of_nat i, [of_nat i])) [0, 2, 2, 4, 1, 0, 3]) (rw_new 4))
     = [[0], [1], [2], [3], [4]]"
proof -
  have h: "unat (4 :: u8) < 128" "arrivals_in_reach 4 [0, 2, 2, 4, 1, 0, 3]" by code_simp+
  have f: "first_missing [0, 2, 2, 4, 1, 0, 3] = 5" by code_simp
  show ?thesis
    using receive_exactly_once_in_order [OF h, of "\<lambda>i. [of_nat i]"] h f
    by (simp add: case_prod_beta upt_rec numeral_eq_Suc)
qed



text \<open>(C12) Retransmission: when some packet has waited longer than the timeout and used up its
  retries, the send window reports failure; otherwise it returns exactly the packets that have waited
  too long, in order, restarts their clocks and counts the transmission, and doubles the timeout up to
  the configured maximum if there was one.\<close>

theorem get_retransmissions_correct:
  "case sw_get_retransmissions now sw of
     (None, sw') \<Rightarrow> list_ex (\<lambda>e. entry_expired now sw e \<and> entry_exhausted sw e) (sw_unacked sw)
   | (Some rs, sw') \<Rightarrow> \<not> list_ex (\<lambda>e. entry_expired now sw e \<and> entry_exhausted sw e) (sw_unacked sw)
       \<and> rs = map (\<lambda>e. (se_seq e, se_data e)) (filter (entry_expired now sw) (sw_unacked sw))
       \<and> sw' = sw \<lparr> sw_unacked := map (\<lambda>e. if entry_expired now sw e then mark_retransmitted now e else e) (sw_unacked sw),
              sw_current_rto := (if list_ex (entry_expired now sw) (sw_unacked sw)
                then min (sw_current_rto sw * 2) (max_rto (sw_config sw)) else sw_current_rto sw) \<rparr>"
proof -
  let ?es = "sw_unacked sw" and ?rto = "sw_current_rto sw" and ?max = "max_retries (sw_config sw)"
  show ?thesis
  proof (cases "\<exists>e\<in>set ?es. time_since_sent now e > ?rto \<and> se_transmissions e > ?max")
    case True
    then have "fst (sw_retransmit_loop now ?rto ?max ?es) = None" by (simp add: sw_retransmit_loop_None)
    with True show ?thesis
      by (auto simp: sw_get_retransmissions_def list_ex_iff entry_expired_def entry_exhausted_def
          split: prod.splits)
  next
    case False
    from sw_retransmit_loop_Some [OF False] False show ?thesis
      by (auto simp: sw_get_retransmissions_def Let_def list_ex_iff entry_expired_def [abs_def]
          entry_exhausted_def filter_empty_conv)
  qed
qed

text \<open>(C16) After the first sample, every round-trip sample keeps the retransmission timeout between the
  configured initial and maximum timeouts and never panics, provided these are ordered and survive the
  conversion to seconds in \<^verbatim>\<open>f64\<close>.\<close>

theorem update_rtt_bounds:
  assumes "sw_srtt sw = Some srtt" and "arq_config_ok (sw_config sw)"
    and "f64_exact (initial_rto (sw_config sw))" and "f64_exact (max_rto (sw_config sw))"
  shows "case sw_update_rtt sample sw of (r, sw') \<Rightarrow> r = Inr ()
     \<and> initial_rto (sw_config sw) \<le> sw_current_rto sw' \<and> sw_current_rto sw' \<le> max_rto (sw_config sw)"
proof -
  define x where "x = f64_mul 2 (f64_add (f64_mul (1 - 1 / 8) (as_secs_f64 srtt)) (f64_mul (1 / 8) (as_secs_f64 sample)))"
  obtain y where y: "f64_clamp x (as_secs_f64 (initial_rto (sw_config sw))) (as_secs_f64 (max_rto (sw_config sw))) = Some y"
    using assms(2) by (simp add: f64_clamp_def arq_config_ok_def)
  from from_secs_f64_clamped [OF y assms(3,4)] y show ?thesis
    by (simp add: sw_update_rtt_def assms(1) Let_def x_def)
qed

theorem update_rtt_bounds_witness:
  "list_all (\<lambda>cfg. let sw = (sw_new cfg) \<lparr> sw_srtt := Some 100000001 \<rparr> in
     case sw_update_rtt 700000003 sw of (r, sw') \<Rightarrow> r = Inr ()
       \<and> initial_rto cfg \<le> sw_current_rto sw' \<and> sw_current_rto sw' \<le> max_rto cfg)
   [arq_config_default, arq_config_for_ble, arq_config_for_lora]"
proof -
  have h: "list_all (\<lambda>cfg. arq_config_ok cfg \<and> f64_exact (initial_rto cfg) \<and> f64_exact (max_rto cfg))
      [arq_config_default, arq_config_for_ble, arq_config_for_lora]" by code_simp
  have "case sw_update_rtt 700000003 ((sw_new cfg) \<lparr> sw_srtt := Some 100000001 \<rparr>) of (r, sw') \<Rightarrow> r = Inr ()
       \<and> initial_rto cfg \<le> sw_current_rto sw' \<and> sw_current_rto sw' \<le> max_rto cfg"
    if "arq_config_ok cfg" "f64_exact (initial_rto cfg)" "f64_exact (max_rto cfg)" for cfg
    using update_rtt_bounds [of "(sw_new cfg) \<lparr> sw_srtt := Some 100000001 \<rparr>" 100000001 700000003] that
    by (simp add: sw_new_def)
  with h show ?thesis by (simp add: Let_def)
qed

end
