(* ===== verification/Arq_Protocol.thy ===== *)
theory Arq_Protocol
  imports Constrained_Arq
begin

text \<open>
  A send window and a receive window connected by an unreliable network: packets and
  acknowledgements may be lost, duplicated, delayed and reordered, but not by more than half of the
  sequence number space.  An acknowledgement is sent whenever the receive window delivers, as
  \<^verbatim>\<open>src/src/constrained/connection.rs\<close> does.  The network remembers the index of a packet next to its
  contents only to express the bound on its delay.
\<close>

section \<open>The system\<close>

record arq_system =
  sys_msgs :: "bytes list"
  sys_tx :: send_window
  sys_rx :: receive_window
  sys_out :: "bytes list"
  sys_data :: "(nat \<times> sequence_number \<times> bytes) set"
  sys_acks :: "(nat \<times> sequence_number) set"

definition sys_acked :: "arq_system \<Rightarrow> nat" where
  "sys_acked S = length (sys_msgs S) - sw_in_flight (sys_tx S)"

definition sys_new :: "arq_config \<Rightarrow> arq_system" where
  "sys_new cfg = \<lparr> sys_msgs = [], sys_tx = sw_new cfg, sys_rx = rw_new (window_size cfg), sys_out = [],
     sys_data = {}, sys_acks = {} \<rparr>"

datatype arq_event = EvSend bytes | EvTimer | EvData nat | EvAck nat

inductive arq_step :: "arq_system \<Rightarrow> instant \<times> arq_event \<Rightarrow> arq_system \<Rightarrow> bool" where
  step_send: "sw_send now d (sys_tx S) = (Some s, tx) \<Longrightarrow>
    arq_step S (now, EvSend d) (S \<lparr> sys_msgs := sys_msgs S @ [d], sys_tx := tx,
      sys_data := insert (length (sys_msgs S), s, d) (sys_data S) \<rparr>)"
| step_timer: "sw_get_retransmissions now (sys_tx S) = (r, tx) \<Longrightarrow>
    arq_step S (now, EvTimer) (S \<lparr> sys_tx := tx \<rparr>)"
| step_data: "(i, s, d) \<in> sys_data S \<Longrightarrow> length (sys_out S) \<le> i + 128 \<Longrightarrow>
    rw_receive s d (sys_rx S) = (r, rx) \<Longrightarrow>
    arq_step S (now, EvData i) (S \<lparr> sys_rx := rx,
      sys_out := sys_out S @ map snd (case r of None \<Rightarrow> [] | Some l \<Rightarrow> l),
      sys_acks := (case r of None \<Rightarrow> sys_acks S
        | Some l \<Rightarrow> insert (length (sys_out S) + length l - 1, rw_cumulative_ack rx) (sys_acks S)) \<rparr>)"
| step_ack: "(a, s) \<in> sys_acks S \<Longrightarrow> sys_acked S \<le> a + 128 \<Longrightarrow>
    sw_acknowledge now s (sys_tx S) = (r, tx) \<Longrightarrow>
    arq_step S (now, EvAck a) (S \<lparr> sys_tx := tx \<rparr>)"

inductive_cases arq_stepE: "arq_step S (now, ev) S'"

abbreviation arq_init :: "arq_config \<Rightarrow> arq_system \<Rightarrow> bool" where
  "arq_init cfg S \<equiv> S = sys_new cfg"

section \<open>The invariant\<close>

definition arq_rest :: "arq_config \<Rightarrow> nat list \<Rightarrow> arq_system \<Rightarrow> bool" where
  "arq_rest cfg xs S \<longleftrightarrow>
     sw_next_seq (sys_tx S) = of_nat (length (sys_msgs S))
     \<and> sw_config (sys_tx S) = cfg \<and> rw_window_size (sys_rx S) = window_size cfg
     \<and> rx_rel ((!) (sys_msgs S)) (length (sys_out S)) xs (sys_rx S)
     \<and> rw_cumulative_ack (sys_rx S) = of_nat (length (sys_out S) - 1)
     \<and> (\<forall>x\<in>set xs. x < length (sys_msgs S)) \<and> length (sys_out S) \<le> length (sys_msgs S)
     \<and> sys_out S = take (length (sys_out S)) (sys_msgs S)
     \<and> (\<forall>(i, s, d)\<in>sys_data S. i < length (sys_msgs S) \<and> s = of_nat i \<and> d = sys_msgs S ! i)
     \<and> (\<forall>i<length (sys_msgs S). (i, of_nat i, sys_msgs S ! i) \<in> sys_data S)
     \<and> (\<forall>(a, s)\<in>sys_acks S. a < length (sys_out S) \<and> s = of_nat a)"

definition arq_inv :: "arq_config \<Rightarrow> arq_system \<Rightarrow> bool" where
  "arq_inv cfg S \<longleftrightarrow> (\<exists>b xs. tx_rel (sys_msgs S) b (sys_tx S) \<and> b \<le> length (sys_out S) \<and> arq_rest cfg xs S)"

lemma arq_invE:
  assumes "arq_inv cfg S"
  obtains b xs where "tx_rel (sys_msgs S) b (sys_tx S)" and "b \<le> length (sys_out S)" and "arq_rest cfg xs S"
  using assms unfolding arq_inv_def by blast

lemma arq_invI:
  "tx_rel (sys_msgs S) b (sys_tx S) \<Longrightarrow> b \<le> length (sys_out S) \<Longrightarrow> arq_rest cfg xs S \<Longrightarrow> arq_inv cfg S"
  unfolding arq_inv_def by blast

lemma arq_inv_acked: "tx_rel (sys_msgs S) b (sys_tx S) \<Longrightarrow> sys_acked S = b"
  using tx_rel_length [of "sys_msgs S" b "sys_tx S"] by (auto simp: sys_acked_def sw_in_flight_def tx_rel_def)

lemma arq_inv_new:
  assumes "unat (window_size cfg) < 128"
  shows "arq_inv cfg (sys_new cfg)"
proof -
  have "tx_rel [] 0 (sw_new cfg)" by (simp add: tx_rel_def sw_new_def)
  moreover have "rx_rel ((!) []) 0 [] (rw_new (window_size cfg))" using assms by (simp add: rx_rel_def rw_new_def)
  ultimately show ?thesis
    by (intro arq_invI [of _ 0 _ "[]"]) (simp_all add: arq_rest_def sys_new_def sw_new_def rw_new_def)
qed

lemma rx_rel_append:
  "rx_rel ((!) ms) n xs rw \<Longrightarrow> \<forall>x\<in>set xs. x < length ms \<Longrightarrow> rx_rel ((!) (ms @ [d])) n xs rw"
  by (auto simp: rx_rel_def nth_append)

lemma arq_inv_send:
  assumes "arq_inv cfg S" and "sw_send now d (sys_tx S) = (Some s, tx)"
  shows "arq_inv cfg (S \<lparr> sys_msgs := sys_msgs S @ [d], sys_tx := tx,
      sys_data := insert (length (sys_msgs S), s, d) (sys_data S) \<rparr>)"
proof -
  obtain b xs where rel: "tx_rel (sys_msgs S) b (sys_tx S)" and b: "b \<le> length (sys_out S)"
    and rest: "arq_rest cfg xs S"
    using assms(1) by (rule arq_invE)
  have next_seq: "sw_next_seq (sys_tx S) = of_nat (length (sys_msgs S))" and c: "sw_config (sys_tx S) = cfg"
    using rest by (simp_all add: arq_rest_def)
  have tx: "s = of_nat (length (sys_msgs S))" "tx_rel (sys_msgs S @ [d]) b tx"
    "sw_next_seq tx = of_nat (Suc (length (sys_msgs S)))" "sw_config tx = cfg"
    using sw_send_index [OF rel next_seq, of now d] assms(2) c by (auto split: if_splits)
  have rx: "rx_rel ((!) (sys_msgs S @ [d])) (length (sys_out S)) xs (sys_rx S)"
    using rest by (intro rx_rel_append) (simp_all add: arq_rest_def)
  show ?thesis
    by (rule arq_invI [of _ b _ xs])
      (use rest tx rx b in \<open>auto simp: arq_rest_def nth_append less_Suc_eq\<close>)
qed

lemma arq_inv_tx:
  assumes "arq_inv cfg S" and "sw_config tx = sw_config (sys_tx S)" and "sw_next_seq tx = sw_next_seq (sys_tx S)"
    and "\<And>b. tx_rel (sys_msgs S) b (sys_tx S) \<Longrightarrow> b \<le> length (sys_out S) \<Longrightarrow>
      \<exists>b'\<le>length (sys_out S). tx_rel (sys_msgs S) b' tx"
  shows "arq_inv cfg (S \<lparr> sys_tx := tx \<rparr>)"
proof -
  obtain b xs where tx: "tx_rel (sys_msgs S) b (sys_tx S)" and b: "b \<le> length (sys_out S)"
    and rest: "arq_rest cfg xs S"
    using assms(1) by (rule arq_invE)
  from assms(4) [OF tx b] obtain b' where "b' \<le> length (sys_out S)" "tx_rel (sys_msgs S) b' tx" by blast
  then show ?thesis
    by (intro arq_invI [of _ b' _ xs]) (use rest assms(2,3) in \<open>simp_all add: arq_rest_def\<close>)
qed

lemma arq_inv_timer:
  assumes "arq_inv cfg S" and "sw_get_retransmissions now (sys_tx S) = (r, tx)"
  shows "arq_inv cfg (S \<lparr> sys_tx := tx \<rparr>)"
  using assms(1)
proof (rule arq_inv_tx)
  note f = sw_get_retransmissions_frame [OF assms(2)]
  show "sw_config tx = sw_config (sys_tx S)" "sw_next_seq tx = sw_next_seq (sys_tx S)" using f by simp_all
  show "\<exists>b'\<le>length (sys_out S). tx_rel (sys_msgs S) b' tx"
    if "tx_rel (sys_msgs S) b (sys_tx S)" "b \<le> length (sys_out S)" for b
    using that f by (intro exI [of _ b]) (simp add: tx_rel_def)
qed

lemma arq_inv_ack:
  assumes inv: "arq_inv cfg S" and cfg: "arq_config_ok cfg" "unat (window_size cfg) < 128"
    and ack: "(a, s) \<in> sys_acks S" "sys_acked S \<le> a + 128" "sw_acknowledge now s (sys_tx S) = (r, tx)"
  shows "arq_inv cfg (S \<lparr> sys_tx := tx \<rparr>) \<and> (\<exists>c. r = Inr c)"
proof -
  obtain b xs where rel: "tx_rel (sys_msgs S) b (sys_tx S)" and b_le: "b \<le> length (sys_out S)"
    and rest: "arq_rest cfg xs S"
    using inv by (rule arq_invE)
  have c: "sw_config (sys_tx S) = cfg" and le: "length (sys_out S) \<le> length (sys_msgs S)"
    and a: "a < length (sys_out S)" "s = of_nat a"
    using rest ack(1) by (auto simp: arq_rest_def)
  have b: "b = sys_acked S" using arq_inv_acked [OF rel] by simp
  obtain sw' where sw': "sw_acknowledge now (of_nat a) (sys_tx S) = (Inr (Suc a - b), sw')"
    "tx_rel (sys_msgs S) (max b (Suc a)) sw'" "sw_config sw' = sw_config (sys_tx S)"
    "sw_next_seq sw' = sw_next_seq (sys_tx S)"
    by (rule sw_acknowledge_index [OF rel, of a now]) (use cfg a le ack(2) b c in simp_all)
  then have r: "r = Inr (Suc a - b)" "tx = sw'" using ack(3) a by simp_all
  have "arq_inv cfg (S \<lparr> sys_tx := tx \<rparr>)"
    using inv
  proof (rule arq_inv_tx)
    show "\<exists>b'\<le>length (sys_out S). tx_rel (sys_msgs S) b' tx"
      by (rule exI [of _ "max b (Suc a)"]) (use sw'(2) r(2) b_le a in simp)
  qed (use sw' r in simp_all)
  with r show ?thesis by blast
qed

lemma arq_inv_data:
  assumes inv: "arq_inv cfg S" and pkt: "(i, s, d) \<in> sys_data S" "length (sys_out S) \<le> i + 128"
    and rcv: "rw_receive s d (sys_rx S) = (r, rx)"
  defines "S' \<equiv> S \<lparr> sys_rx := rx,
      sys_out := sys_out S @ map snd (case r of None \<Rightarrow> [] | Some l \<Rightarrow> l),
      sys_acks := (case r of None \<Rightarrow> sys_acks S
        | Some l \<Rightarrow> insert (length (sys_out S) + length l - 1, rw_cumulative_ack rx) (sys_acks S)) \<rparr>"
  shows "arq_inv cfg S' \<and> (i = length (sys_out S) \<longrightarrow> i < length (sys_out S'))"
proof -
  let ?ms = "sys_msgs S" and ?n = "length (sys_out S)"
  obtain b xs where rel: "tx_rel ?ms b (sys_tx S)" and b: "b \<le> ?n" and rest: "arq_rest cfg xs S"
    using inv by (rule arq_invE)
  have i: "i < length ?ms" "s = of_nat i" "d = ?ms ! i" using rest pkt(1) by (auto simp: arq_rest_def)
  have rx: "rx_rel ((!) ?ms) ?n xs (sys_rx S)" "rw_cumulative_ack (sys_rx S) = of_nat (?n - 1)"
    using rest by (simp_all add: arq_rest_def)
  have win: "i \<le> ?n + unat (rw_window_size (sys_rx S))"
    using i(1) b rel rest by (simp add: tx_rel_def arq_rest_def)
  obtain r0 rw' k ys where step: "rw_receive (of_nat i) (?ms ! i) (sys_rx S) = (r0, rw')"
    "rx_rel ((!) ?ms) k ys rw'" "rw_cumulative_ack rw' = of_nat (k - 1)"
    "rw_window_size rw' = rw_window_size (sys_rx S)" "?n \<le> k"
    "r0 = (if i = ?n then Some (map (rx_packet ((!) ?ms)) [?n..<k]) else None)" "i = ?n \<longleftrightarrow> ?n < k"
    "{..<k} \<union> set ys = insert i ({..<?n} \<union> set xs)"
    by (rule rw_receive_index [OF rx pkt(2) win])
  have r: "r = r0" "rx = rw'" using rcv step(1) i by simp_all
  have below: "{..<k} \<union> set ys \<subseteq> {..<length ?ms}"
    unfolding step(8) using i(1) rest by (auto simp: arq_rest_def)
  have k: "k \<le> length ?ms" using below by (cases "length ?ms < k") auto
  have out: "sys_out S' = take k ?ms"
  proof -
    have new: "map snd (case r of None \<Rightarrow> [] | Some l \<Rightarrow> l) = map ((!) ?ms) [?n..<k]"
      using step(5,6,7) r by (cases "i = ?n") (simp_all add: comp_def)
    have old: "sys_out S = map ((!) ?ms) [0..<?n]"
      using rest take_conv_map_nth [of ?n ?ms] by (simp add: arq_rest_def)
    have "sys_out S' = sys_out S @ map ((!) ?ms) [?n..<k]" by (simp add: S'_def new)
    also have "\<dots> = map ((!) ?ms) ([0..<?n] @ [?n..<k])" unfolding map_append using old by (rule arg_cong)
    also have "[0..<?n] @ [?n..<k] = [0..<k]" using upt_add_eq_append [of 0 ?n "k - ?n"] step(5) by simp
    finally have "sys_out S' = map ((!) ?ms) [0..<k]" .
    then show ?thesis using k by (simp add: take_conv_map_nth)
  qed
  have len: "length (sys_out S') = k" using out k by simp
  have fields: "sys_msgs S' = ?ms" "sys_tx S' = sys_tx S" "sys_rx S' = rx" "sys_data S' = sys_data S"
    by (simp_all add: S'_def)
  have acks: "\<forall>(a, s)\<in>sys_acks S'. a < k \<and> s = of_nat a"
    using rest step(3,5,6,7) r by (cases "i = ?n") (auto simp: S'_def arq_rest_def)
  have "arq_inv cfg S'"
  proof (rule arq_invI [of _ b _ ys])
    show "tx_rel (sys_msgs S') b (sys_tx S')" using rel by (simp add: S'_def)
    show "b \<le> length (sys_out S')" using b step(5) len by simp
    show "arq_rest cfg ys S'"
      using rest step(2,3,4) r below acks len out unfolding arq_rest_def fields by auto
  qed
  then show ?thesis using step(7) len by auto
qed

section \<open>Reliable delivery\<close>

lemma arq_step_inv [step_inv]:
  assumes "arq_config_ok cfg" and "unat (window_size cfg) < 128" and "arq_inv cfg S" and "arq_step S l S'"
  shows "arq_inv cfg S'"
  using assms(4)
proof cases
  case (step_ack a s now r tx)
  then show ?thesis using arq_inv_ack [OF assms(3,1,2)] by blast
qed (use assms(3) arq_inv_send arq_inv_timer arq_inv_data in blast)+

lemma arq_reachable_inv:
  assumes "arq_config_ok cfg" and "unat (window_size cfg) < 128" and "reachable (arq_init cfg) arq_step S"
  shows "arq_inv cfg S"
  using assms(3) by (rule reachable_invariant) (use assms arq_inv_new arq_step_inv in blast)+



end
