(* ===== verification/Constrained_Connection.thy ===== *)
theory Constrained_Connection
  imports Constrained_Arq
begin

text \<open>
  A connection of the constrained protocol (\<^verbatim>\<open>src/src/constrained/connection.rs\<close>): it combines the
  state machine, the two windows and the packet queues.  Every operation takes the reading of the
  clock as an argument; the several readings within one call are taken to be equal.  A \<^verbatim>\<open>Result\<close> is
  carried with the state it leaves, and panics (an empty chunk size, inverted timer bounds) are
  results of their own.
\<close>

section \<open>Configuration and state\<close>

text \<open>\<^verbatim>\<open>std::net::SocketAddr\<close>.\<close>

datatype socket_addr = V4 "32 word" u16 | V6 "128 word" u16 u32 u32

definition DEFAULT_MSS :: nat where "DEFAULT_MSS = 235"
definition DEFAULT_MTU :: nat where "DEFAULT_MTU = 247"

record connection_config =
  arq :: arq_config
  mss :: nat
  mtu :: nat
  keepalive_interval :: duration
  idle_timeout :: duration

definition connection_config_default :: connection_config where
  "connection_config_default = \<lparr> arq = arq_config_default, mss = DEFAULT_MSS, mtu = DEFAULT_MTU,
     keepalive_interval = from_secs 30, idle_timeout = from_secs 300 \<rparr>"

definition connection_config_for_ble :: connection_config where
  "connection_config_for_ble = \<lparr> arq = arq_config_for_ble, mss = 235, mtu = 247,
     keepalive_interval = from_secs 15, idle_timeout = from_secs 120 \<rparr>"

definition connection_config_for_lora :: connection_config where
  "connection_config_for_lora = \<lparr> arq = arq_config_for_lora, mss = 50, mtu = 55,
     keepalive_interval = from_secs 60, idle_timeout = from_secs 600 \<rparr>"

datatype connection_event =
  Connected | DataReceived bytes | EventClosed | EventReset | EventError string | EventTransmit bytes

record constrained_connection =
  cc_connection_id :: connection_id
  cc_remote_addr :: socket_addr
  cc_machine :: state_machine
  cc_send_window :: send_window
  cc_receive_window :: receive_window
  cc_config :: connection_config
  cc_outbound :: "constrained_packet list"
  cc_inbound :: "bytes list"
  cc_last_activity :: instant
  cc_last_keepalive :: "instant option"
  cc_events :: "connection_event list"
  cc_local_seq :: sequence_number
  cc_is_initiator :: bool

definition cc_new :: "instant \<Rightarrow> connection_id \<Rightarrow> socket_addr \<Rightarrow> connection_config \<Rightarrow> bool \<Rightarrow> constrained_connection" where
  "cc_new now cid addr cfg is_initiator = \<lparr> cc_connection_id = cid, cc_remote_addr = addr,
     cc_machine = sm_new now, cc_send_window = sw_new (arq cfg),
     cc_receive_window = rw_new (window_size (arq cfg)), cc_config = cfg, cc_outbound = [], cc_inbound = [],
     cc_last_activity = now, cc_last_keepalive = None, cc_events = [], cc_local_seq = 0,
     cc_is_initiator = is_initiator \<rparr>"

definition cc_new_outbound :: "instant \<Rightarrow> connection_id \<Rightarrow> socket_addr \<Rightarrow> constrained_connection" where
  "cc_new_outbound now cid addr = cc_new now cid addr connection_config_default True"

definition cc_new_outbound_with_config ::
  "instant \<Rightarrow> connection_id \<Rightarrow> socket_addr \<Rightarrow> connection_config \<Rightarrow> constrained_connection" where
  "cc_new_outbound_with_config now cid addr cfg = cc_new now cid addr cfg True"

definition cc_new_inbound :: "instant \<Rightarrow> connection_id \<Rightarrow> socket_addr \<Rightarrow> constrained_connection" where
  "cc_new_inbound now cid addr = cc_new now cid addr connection_config_default False"

definition cc_new_inbound_with_config ::
  "instant \<Rightarrow> connection_id \<Rightarrow> socket_addr \<Rightarrow> connection_config \<Rightarrow> constrained_connection" where
  "cc_new_inbound_with_config now cid addr cfg = cc_new now cid addr cfg False"

definition cc_state :: "constrained_connection \<Rightarrow> connection_state" where
  "cc_state c = sm_state (cc_machine c)"

definition cc_is_established :: "constrained_connection \<Rightarrow> bool" where
  "cc_is_established c = state_is_established (cc_state c)"

definition cc_is_closed :: "constrained_connection \<Rightarrow> bool" where
  "cc_is_closed c = state_is_closed (cc_state c)"

definition cc_can_send :: "constrained_connection \<Rightarrow> bool" where
  "cc_can_send c \<longleftrightarrow> sm_can_send_data (cc_machine c) \<and> \<not> sw_is_full (cc_send_window c)"

section \<open>Operations\<close>

type_synonym 'a cc_op = "(constrained_connection, constrained_error failure, 'a) op"

text \<open>\<^verbatim>\<open>self.state.transition(event)?\<close>, and the same with the result thrown away.\<close>

definition cc_transition :: "instant \<Rightarrow> state_event \<Rightarrow> unit cc_op" where
  "cc_transition now event c = (case transition now event (cc_machine c) of
      (Inl e, sm) \<Rightarrow> (Inl (Err e), c \<lparr> cc_machine := sm \<rparr>)
    | (Inr _, sm) \<Rightarrow> (Inr (), c \<lparr> cc_machine := sm \<rparr>))"

definition cc_try_transition :: "instant \<Rightarrow> state_event \<Rightarrow> constrained_connection \<Rightarrow> constrained_connection" where
  "cc_try_transition now event c = c \<lparr> cc_machine := snd (transition now event (cc_machine c)) \<rparr>"

definition cc_push_outbound :: "constrained_packet \<Rightarrow> unit cc_op" where
  "cc_push_outbound p c = (Inr (), c \<lparr> cc_outbound := cc_outbound c @ [p] \<rparr>)"

definition cc_push_event :: "connection_event \<Rightarrow> unit cc_op" where
  "cc_push_event e c = (Inr (), c \<lparr> cc_events := cc_events c @ [e] \<rparr>)"

definition cc_initiate :: "instant \<Rightarrow> constrained_packet cc_op" where
  "cc_initiate now c =
     (if \<not> cc_is_initiator c then (Inl (Err (InvalidStateTransition ''inbound'' ''initiating'')), c)
      else op_bind (cc_transition now Open)
        (\<lambda>_ c. (Inr (packet_control (header_syn (cc_connection_id c))), c \<lparr> cc_last_activity := now \<rparr>)) c)"

definition cc_accept :: "instant \<Rightarrow> sequence_number \<Rightarrow> constrained_packet cc_op" where
  "cc_accept now syn_seq c =
     (if cc_is_initiator c then (Inl (Err (InvalidStateTransition ''outbound'' ''accepting'')), c)
      else op_bind (cc_transition now RecvSyn)
        (\<lambda>_ c. (Inr (packet_control (header_syn_ack (cc_connection_id c) (seq_next syn_seq))),
                c \<lparr> cc_last_activity := now \<rparr>)) c)"

fun cc_send_chunks :: "instant \<Rightarrow> bytes list \<Rightarrow> unit cc_op" where
  "cc_send_chunks now [] c = (Inr (), c)"
| "cc_send_chunks now (chunk # rest) c =
     (if sw_is_full (cc_send_window c) then (Inl (Err SendBufferFull), c)
      else
        let s = cc_local_seq c;
            c1 = c \<lparr> cc_local_seq := seq_next (cc_local_seq c) \<rparr>
        in (case sw_add now s chunk (cc_send_window c1) of
              (Inl e, sw) \<Rightarrow> (Inl (Err e), c1 \<lparr> cc_send_window := sw \<rparr>)
            | (Inr _, sw) \<Rightarrow>
                let c2 = c1 \<lparr> cc_send_window := sw \<rparr>;
                    packet = packet_data (cc_connection_id c2) s (rw_cumulative_ack (cc_receive_window c2)) chunk
                in cc_send_chunks now rest (c2 \<lparr> cc_outbound := cc_outbound c2 @ [packet] \<rparr>)))"

text \<open>\<^verbatim>\<open>data.chunks(mss)\<close> panics when the segment size is zero.\<close>

definition cc_send :: "instant \<Rightarrow> bytes \<Rightarrow> unit cc_op" where
  "cc_send now d c =
     (if \<not> sm_can_send_data (cc_machine c) then (Inl (Err ConnectionClosedError), c)
      else if mss (cc_config c) = 0 then (Inl Panic, c)
      else op_bind (cc_send_chunks now (chunks (mss (cc_config c)) d))
        (\<lambda>_ c. (Inr (), c \<lparr> cc_last_activity := now \<rparr>)) c)"

definition cc_recv :: "constrained_connection \<Rightarrow> bytes option \<times> constrained_connection" where
  "cc_recv c = (case cc_inbound c of [] \<Rightarrow> (None, c) | d # ds \<Rightarrow> (Some d, c \<lparr> cc_inbound := ds \<rparr>))"

definition cc_close :: "instant \<Rightarrow> constrained_packet cc_op" where
  "cc_close now = op_bind (cc_transition now Close)
     (\<lambda>_ c. (Inr (packet_control (header_fin (cc_connection_id c) (cc_local_seq c)
                (rw_cumulative_ack (cc_receive_window c)))),
             c \<lparr> cc_last_activity := now \<rparr>))"

definition cc_reset :: "instant \<Rightarrow> constrained_connection \<Rightarrow> constrained_packet \<times> constrained_connection" where
  "cc_reset now c =
     (packet_control (header_reset (cc_connection_id c)), cc_try_transition now RecvRst c)"

subsection \<open>Incoming packets\<close>

definition cc_process_ack :: "instant \<Rightarrow> sequence_number \<Rightarrow> unit cc_op" where
  "cc_process_ack now ack c = (case sw_acknowledge now ack (cc_send_window c) of
      (Inl e, sw) \<Rightarrow> (Inl e, c \<lparr> cc_send_window := sw \<rparr>)
    | (Inr _, sw) \<Rightarrow> (Inr (), c \<lparr> cc_send_window := sw \<rparr>))"

definition cc_process_data :: "constrained_packet \<Rightarrow> unit cc_op" where
  "cc_process_data packet c =
     (case rw_receive (hd_seq (pk_header packet)) (pk_payload packet) (cc_receive_window c) of
        (None, rw) \<Rightarrow> (Inr (), c \<lparr> cc_receive_window := rw \<rparr>)
      | (Some deliverable, rw) \<Rightarrow>
          cc_push_outbound
            (packet_control (header_ack (cc_connection_id c) (cc_local_seq c) (rw_cumulative_ack rw)))
            (c \<lparr> cc_receive_window := rw,
                 cc_inbound := cc_inbound c @ map snd deliverable,
                 cc_events := cc_events c @ map (\<lambda>_. DataReceived []) deliverable \<rparr>))"

definition cc_process_fin :: "instant \<Rightarrow> constrained_header \<Rightarrow> unit cc_op" where
  "cc_process_fin now header = op_bind (cc_transition now RecvFin)
     (\<lambda>_ c. op_bind (cc_push_outbound
              (packet_control (header_ack (cc_connection_id c) (cc_local_seq c) (seq_next (hd_seq header)))))
            (\<lambda>_. cc_push_event EventClosed) c)"

definition cc_process_ping :: "constrained_header \<Rightarrow> unit cc_op" where
  "cc_process_ping header c =
     cc_push_outbound (packet_control (header_pong (cc_connection_id c) (hd_seq header))) c"

definition cc_on_syn_sent :: "instant \<Rightarrow> constrained_header \<Rightarrow> unit cc_op" where
  "cc_on_syn_sent now header = op_when (header_is_syn_ack header)
     (op_bind (cc_transition now RecvSynAck) (\<lambda>_ c.
        op_bind (cc_push_outbound
            (packet_control (header_ack (cc_connection_id c) (cc_local_seq c) (seq_next (hd_seq header)))))
          (\<lambda>_. cc_push_event Connected)
          (c \<lparr> cc_receive_window := rw_reset_with_seq (seq_next (hd_seq header)) (cc_receive_window c) \<rparr>)))"

definition cc_on_syn_received :: "instant \<Rightarrow> constrained_header \<Rightarrow> unit cc_op" where
  "cc_on_syn_received now header = op_when (header_is_ack header)
     (op_bind (cc_transition now RecvAck) (\<lambda>_. cc_push_event Connected))"

definition cc_on_established :: "instant \<Rightarrow> constrained_packet \<Rightarrow> unit cc_op" where
  "cc_on_established now packet =
     (let header = pk_header packet in
      op_bind (op_when (header_is_ack header) (cc_process_ack now (hd_ack header))) (\<lambda>_.
      op_bind (op_when (header_is_data header \<and> pk_payload packet \<noteq> []) (cc_process_data packet)) (\<lambda>_.
      op_bind (op_when (header_is_fin header) (cc_process_fin now header)) (\<lambda>_.
      op_when (header_is_ping header) (cc_process_ping header)))))"

definition cc_on_fin_wait :: "instant \<Rightarrow> constrained_header \<Rightarrow> unit cc_op" where
  "cc_on_fin_wait now header =
     op_bind (op_when (header_is_ack header) (cc_transition now RecvAck)) (\<lambda>_.
       op_when (header_is_fin header)
         (op_bind (cc_transition now RecvFin) (\<lambda>_. cc_push_event EventClosed)))"

definition cc_on_closing :: "instant \<Rightarrow> constrained_header \<Rightarrow> unit cc_op" where
  "cc_on_closing now header =
     op_when (header_is_ack header \<or> header_is_fin header) (cc_transition now RecvAck)"

definition cc_process_packet :: "instant \<Rightarrow> constrained_packet \<Rightarrow> unit cc_op" where
  "cc_process_packet now packet c =
     (let c1 = c \<lparr> cc_last_activity := now \<rparr>;
          header = pk_header packet
      in if header_is_rst header then cc_push_event EventReset (cc_try_transition now RecvRst c1)
         else (case cc_state c1 of
             Closed \<Rightarrow> (Inr (), c1)
           | SynSent \<Rightarrow> cc_on_syn_sent now header c1
           | SynReceived \<Rightarrow> cc_on_syn_received now header c1
           | Established \<Rightarrow> cc_on_established now packet c1
           | FinWait \<Rightarrow> cc_on_fin_wait now header c1
           | Closing \<Rightarrow> cc_on_closing now header c1
           | TimeWait \<Rightarrow> (Inr (), c1)))"

subsection \<open>Polling\<close>

definition cc_fail :: "instant \<Rightarrow> string \<Rightarrow> constrained_connection \<Rightarrow> constrained_connection" where
  "cc_fail now msg c = (let c1 = cc_try_transition now Timeout c in c1 \<lparr> cc_events := cc_events c1 @ [EventError msg] \<rparr>)"

definition cc_should_ping :: "instant \<Rightarrow> constrained_connection \<Rightarrow> bool" where
  "cc_should_ping now c \<longleftrightarrow> cc_is_established c \<and> keepalive_interval (cc_config c) > 0
     \<and> (case cc_last_keepalive c of
          Some t \<Rightarrow> now - t > keepalive_interval (cc_config c)
        | None \<Rightarrow> now - cc_last_activity c > keepalive_interval (cc_config c))"

definition cc_poll :: "instant \<Rightarrow> constrained_connection \<Rightarrow> constrained_packet list \<times> constrained_connection" where
  "cc_poll now c =
     (if sm_is_timed_out now (cc_machine c) then ([], cc_fail now ''Connection timed out'' c)
      else if now - cc_last_activity c > idle_timeout (cc_config c) then ([], cc_fail now ''Idle timeout'' c)
      else (case sw_get_retransmissions now (cc_send_window c) of
          (None, sw) \<Rightarrow> ([], cc_fail now ''Maximum retransmissions exceeded'' (c \<lparr> cc_send_window := sw \<rparr>))
        | (Some retransmit_data, sw) \<Rightarrow>
            let c1 = c \<lparr> cc_send_window := sw \<rparr>;
                retransmits = map (\<lambda>(s, d). packet_data (cc_connection_id c1) s
                                     (rw_cumulative_ack (cc_receive_window c1)) d) retransmit_data;
                (pings, c2) = (if cc_should_ping now c1
                   then ([packet_control (header_ping (cc_connection_id c1) (cc_local_seq c1))],
                         c1 \<lparr> cc_last_keepalive := Some now \<rparr>)
                   else ([], c1))
            in (retransmits @ pings @ cc_outbound c2, c2 \<lparr> cc_outbound := [] \<rparr>)))"

definition cc_next_event :: "constrained_connection \<Rightarrow> connection_event option \<times> constrained_connection" where
  "cc_next_event c = (case cc_events c of [] \<Rightarrow> (None, c) | e # es \<Rightarrow> (Some e, c \<lparr> cc_events := es \<rparr>))"

record connection_stats =
  st_connection_id :: connection_id
  st_state :: connection_state
  st_remote_addr :: socket_addr
  st_is_initiator :: bool
  st_send_window_used :: nat
  st_receive_buffer_len :: nat
  st_time_in_state :: duration
  st_last_activity :: duration

definition cc_stats :: "instant \<Rightarrow> constrained_connection \<Rightarrow> connection_stats" where
  "cc_stats now c = \<lparr> st_connection_id = cc_connection_id c, st_state = cc_state c,
     st_remote_addr = cc_remote_addr c, st_is_initiator = cc_is_initiator c,
     st_send_window_used = sw_len (cc_send_window c), st_receive_buffer_len = length (cc_inbound c),
     st_time_in_state = sm_time_in_state now (cc_machine c), st_last_activity = now - cc_last_activity c \<rparr>"

section \<open>The invariant of a connection\<close>

text \<open>The sequence numbers in the window are consecutive and end just before the next one to use.\<close>

fun seqs_before :: "sequence_number \<Rightarrow> sequence_number list \<Rightarrow> bool" where
  "seqs_before e [] = True"
| "seqs_before e (s # ss) = (s = e - of_nat (Suc (length ss)) \<and> seqs_before e ss)"

definition packet_ok :: "constrained_connection \<Rightarrow> constrained_packet \<Rightarrow> bool" where
  "packet_ok c p \<longleftrightarrow> hd_connection_id (pk_header p) = cc_connection_id c \<and> length (pk_payload p) \<le> mss (cc_config c)"

definition cc_inv :: "constrained_connection \<Rightarrow> bool" where
  "cc_inv c \<longleftrightarrow> history_ok (cc_machine c)
     \<and> sw_config (cc_send_window c) = arq (cc_config c)
     \<and> length (sw_unacked (cc_send_window c)) \<le> unat (window_size (arq (cc_config c)))
     \<and> seqs_before (cc_local_seq c) (map se_seq (sw_unacked (cc_send_window c)))
     \<and> list_all (\<lambda>e. length (se_data e) \<le> mss (cc_config c)) (sw_unacked (cc_send_window c))
     \<and> list_all (packet_ok c) (cc_outbound c)"

lemma seqs_before_drop: "seqs_before e ss \<Longrightarrow> seqs_before e (drop k ss)"
proof (induction ss arbitrary: k)
  case (Cons s ss)
  then show ?case by (cases k) auto
qed simp

lemma seqs_before_snoc: "seqs_before e ss \<Longrightarrow> seqs_before (seq_next e) (ss @ [e])"
  by (induction ss) (auto simp: seq_next_def)

lemma seqs_before_index: "seqs_before (of_nat n) ss \<Longrightarrow> length ss \<le> n \<Longrightarrow> ss = map of_nat [n - length ss..<n]"
proof (induction ss)
  case (Cons s ss)
  then have "ss = map of_nat [n - length ss..<n]" by simp
  moreover have "n - length (s # ss) = n - Suc (length ss)" "Suc (n - Suc (length ss)) = n - length ss"
    using Cons.prems(2) by simp_all
  moreover have "s = of_nat (n - Suc (length ss))" using Cons.prems by (simp add: of_nat_diff)
  ultimately show ?case using Cons.prems(2) by (simp add: upt_conv_Cons)
qed simp

lemma sw_ack_loop_any:
  assumes "arq_config_ok (sw_config sw)" and "sw_unacked sw = es"
  shows "\<exists>n sw' k. sw_ack_loop now ack es c sw = (Inr n, sw') \<and> sw_unacked sw' = drop k es
    \<and> sw_config sw' = sw_config sw \<and> sw_next_seq sw' = sw_next_seq sw"
  using assms
proof (induction es arbitrary: c sw)
  case (Cons e es)
  show ?case
  proof (cases "distance_to (sw_base_seq sw) (se_seq e) \<le> distance_to (sw_base_seq sw) ack")
    case False
    then have "sw_ack_loop now ack (e # es) c sw = (Inr c, sw)" by (simp add: Let_def)
    then show ?thesis using Cons.prems by (metis drop0)
  next
    case True
    let ?sw = "sw \<lparr> sw_unacked := es \<rparr>"
    obtain sw1 where upd: "(if se_transmissions e = 1 then sw_update_rtt (time_since_sent now e) else op_ret ()) ?sw
        = (Inr (), sw1)" and sw1: "sw_config sw1 = sw_config sw" "sw_next_seq sw1 = sw_next_seq sw" "sw_unacked sw1 = es"
    proof (cases "se_transmissions e = 1")
      case True
      have "arq_config_ok (sw_config ?sw)" using Cons.prems(1) by simp
      from sw_update_rtt_ok [OF this] True that show ?thesis by auto
    qed auto
    from Cons.IH [of sw1 "Suc c"] Cons.prems sw1 obtain n sw' k where
      IH: "sw_ack_loop now ack es (Suc c) sw1 = (Inr n, sw')" "sw_unacked sw' = drop k es"
      "sw_config sw' = sw_config sw" "sw_next_seq sw' = sw_next_seq sw" by auto
    have "sw_ack_loop now ack (e # es) c sw = (Inr n, sw')"
      using True upd IH(1) by (simp add: Let_def op_bind_def split: if_splits)
    with IH show ?thesis by (metis drop_Suc_Cons)
  qed
qed auto

lemma sw_acknowledge_any:
  assumes "arq_config_ok (sw_config sw)"
  obtains n sw' k where "sw_acknowledge now ack sw = (Inr n, sw')" and "sw_unacked sw' = drop k (sw_unacked sw)"
    and "sw_config sw' = sw_config sw"
proof -
  from sw_ack_loop_any [OF assms refl, of now ack 0] obtain n sw1 k where
    "sw_ack_loop now ack (sw_unacked sw) 0 sw = (Inr n, sw1)" "sw_unacked sw1 = drop k (sw_unacked sw)"
    "sw_config sw1 = sw_config sw" by blast
  then show ?thesis by (cases "n > 0") (auto simp: sw_acknowledge_def intro: that)
qed

lemma cc_transition_next:
  "next_state (cc_state c) e = Inr s \<Longrightarrow>
   cc_transition now e c = (Inr (), c \<lparr> cc_machine := snd (transition now e (cc_machine c)) \<rparr>)
   \<and> sm_state (snd (transition now e (cc_machine c))) = s"
  by (auto simp: cc_transition_def cc_state_def transition_def Let_def)

lemma cc_inv_simps [simp]:
  "cc_inv (c \<lparr> cc_events := es \<rparr>) = cc_inv c" "cc_inv (c \<lparr> cc_last_activity := t \<rparr>) = cc_inv c"
  "cc_inv (c \<lparr> cc_last_keepalive := k \<rparr>) = cc_inv c" "cc_inv (c \<lparr> cc_inbound := ds \<rparr>) = cc_inv c"
  "cc_inv (c \<lparr> cc_receive_window := rw \<rparr>) = cc_inv c"
  by (simp_all add: cc_inv_def packet_ok_def [abs_def])

lemma cc_inv_outbound:
  "cc_inv c \<Longrightarrow> list_all (packet_ok c) ps \<Longrightarrow> cc_inv (c \<lparr> cc_outbound := ps \<rparr>)"
  by (simp add: cc_inv_def packet_ok_def [abs_def])

lemma cc_inv_machine: "cc_inv c \<Longrightarrow> cc_inv (c \<lparr> cc_machine := snd (transition now e (cc_machine c)) \<rparr>)"
  using history_ok_transition [of "cc_machine c" now e] by (simp add: cc_inv_def packet_ok_def [abs_def] prod_eq_iff)

lemma cc_inv_outbound_ok: "cc_inv c \<Longrightarrow> list_all (packet_ok c) (cc_outbound c)"
  by (simp add: cc_inv_def)

lemma packet_ok_control: "hd_connection_id h = cc_connection_id c \<Longrightarrow> packet_ok c (packet_control h)"
  by (simp add: packet_ok_def)

lemma cc_inv_new: "cc_inv (cc_new now cid addr cfg ini)"
  by (simp add: cc_inv_def cc_new_def sw_new_def history_ok_new)

text \<open>The facts the handlers of incoming packets preserve, with the state the machine is in.\<close>

type_synonym ident = "connection_config \<times> connection_id \<times> socket_addr"

definition cc_ident :: "constrained_connection \<Rightarrow> ident" where
  "cc_ident c = (cc_config c, cc_connection_id c, cc_remote_addr c)"

lemma cc_ident_simps [simp]:
  "cc_ident (c \<lparr> cc_events := es \<rparr>) = cc_ident c" "cc_ident (c \<lparr> cc_last_activity := t \<rparr>) = cc_ident c"
  "cc_ident (c \<lparr> cc_last_keepalive := l \<rparr>) = cc_ident c" "cc_ident (c \<lparr> cc_inbound := ds \<rparr>) = cc_ident c"
  "cc_ident (c \<lparr> cc_receive_window := rw \<rparr>) = cc_ident c" "cc_ident (c \<lparr> cc_send_window := sw \<rparr>) = cc_ident c"
  "cc_ident (c \<lparr> cc_outbound := ps \<rparr>) = cc_ident c" "cc_ident (c \<lparr> cc_machine := sm \<rparr>) = cc_ident c"
  "cc_ident (c \<lparr> cc_local_seq := n \<rparr>) = cc_ident c"
  by (simp_all add: cc_ident_def)

definition cc_at :: "ident \<Rightarrow> connection_state \<Rightarrow> constrained_connection \<Rightarrow> bool" where
  "cc_at idn s c \<longleftrightarrow> cc_inv c \<and> cc_ident c = idn \<and> cc_state c = s"

lemma cc_transition_total:
  "next_state s e = Inr s' \<Longrightarrow> op_total (cc_at idn s) (cc_transition now e) (\<lambda>_. cc_at idn s')"
  by (rule op_totalI) (use cc_transition_next cc_inv_machine in \<open>fastforce simp: cc_at_def cc_state_def\<close>)

lemma cc_push_event_total: "op_total (cc_at idn s) (cc_push_event e) (\<lambda>_. cc_at idn s)"
  by (rule op_totalI) (simp add: cc_push_event_def cc_at_def cc_state_def)

lemma cc_push_outbound_at:
  "cc_at idn s c \<Longrightarrow> hd_connection_id h = cc_connection_id c \<Longrightarrow>
   \<exists>c'. cc_push_outbound (packet_control h) c = (Inr (), c') \<and> cc_at idn s c'"
  unfolding cc_at_def cc_push_outbound_def
  by (auto simp: cc_state_def intro!: cc_inv_outbound packet_ok_control dest: cc_inv_outbound_ok)

lemma cc_process_ack_total:
  assumes "arq_config_ok (arq (fst idn))"
  shows "op_total (cc_at idn s) (cc_process_ack now ack) (\<lambda>_. cc_at idn s)"
proof (rule op_totalI)
  fix c
  assume c: "cc_at idn s c"
  then have "arq_config_ok (sw_config (cc_send_window c))" using assms by (auto simp: cc_at_def cc_inv_def cc_ident_def)
  from sw_acknowledge_any [OF this, of now ack] obtain n sw k where
    sw: "sw_acknowledge now ack (cc_send_window c) = (Inr n, sw)"
      "sw_unacked sw = drop k (sw_unacked (cc_send_window c))" "sw_config sw = sw_config (cc_send_window c)" by metis
  have "cc_inv (c \<lparr> cc_send_window := sw \<rparr>)"
    using c sw(2,3) seqs_before_drop
    by (auto simp: cc_at_def cc_inv_def packet_ok_def [abs_def] list_all_iff drop_map [symmetric] dest: in_set_dropD)
  then show "\<exists>x c'. cc_process_ack now ack c = (Inr x, c') \<and> cc_at idn s c'"
    using c sw(1) by (simp add: cc_process_ack_def cc_at_def cc_state_def)
qed

lemma cc_process_data_total: "op_total (cc_at idn s) (cc_process_data p) (\<lambda>_. cc_at idn s)"
proof (rule op_totalI)
  fix c
  assume c: "cc_at idn s c"
  obtain r rw where rcv: "rw_receive (hd_seq (pk_header p)) (pk_payload p) (cc_receive_window c) = (r, rw)" by fastforce
  show "\<exists>x c'. cc_process_data p c = (Inr x, c') \<and> cc_at idn s c'"
  proof (cases r)
    case None
    then show ?thesis using c rcv by (simp add: cc_process_data_def cc_at_def cc_state_def)
  next
    case (Some l)
    let ?c = "c \<lparr> cc_receive_window := rw, cc_inbound := cc_inbound c @ map snd l,
                 cc_events := cc_events c @ map (\<lambda>_. DataReceived []) l \<rparr>"
    have "cc_at idn s ?c" using c by (simp add: cc_at_def cc_state_def)
    from cc_push_outbound_at [OF this, of "header_ack (cc_connection_id c) (cc_local_seq c) (rw_cumulative_ack rw)"]
    show ?thesis using Some rcv by (auto simp: cc_process_data_def header_ack_def header_kind)
  qed
qed

lemma cc_process_fin_total:
  "op_total (cc_at idn Established) (cc_process_fin now h) (\<lambda>_. cc_at idn Closing)"
  unfolding cc_process_fin_def
proof (rule op_total_bind [OF cc_transition_total])
  show "op_total (cc_at idn Closing)
      (\<lambda>c. op_bind (cc_push_outbound (packet_control (header_ack (cc_connection_id c) (cc_local_seq c) (seq_next (hd_seq h)))))
        (\<lambda>_. cc_push_event EventClosed) c) (\<lambda>_. cc_at idn Closing)"
  proof (rule op_totalI)
    fix c
    assume "cc_at idn Closing c"
    then show "\<exists>x s'. op_bind (cc_push_outbound (packet_control (header_ack (cc_connection_id c) (cc_local_seq c) (seq_next (hd_seq h)))))
        (\<lambda>_. cc_push_event EventClosed) c = (Inr x, s') \<and> cc_at idn Closing s'"
      using cc_push_outbound_at [of idn Closing c "header_ack (cc_connection_id c) (cc_local_seq c) (seq_next (hd_seq h))"]
        cc_push_event_total [of idn Closing EventClosed]
      by (auto simp: header_ack_def header_kind op_total_def)
  qed
qed simp

text \<open>In whatever state a handler leaves the machine, the invariant holds.\<close>

definition cc_any :: "ident \<Rightarrow> constrained_connection \<Rightarrow> bool" where
  "cc_any idn c \<longleftrightarrow> cc_inv c \<and> cc_ident c = idn"

lemma cc_at_any: "cc_at idn s c \<Longrightarrow> cc_any idn c"
  by (simp add: cc_at_def cc_any_def)

lemma op_total_any: "op_total P m (\<lambda>_. cc_at idn s) \<Longrightarrow> op_total P m (\<lambda>_. cc_any idn)"
  unfolding op_total_def using cc_at_any by fast

lemma cc_on_syn_sent_total: "op_total (cc_at idn SynSent) (cc_on_syn_sent now h) (\<lambda>_. cc_any idn)"
  unfolding cc_on_syn_sent_def
proof (intro op_total_when op_total_bind [OF cc_transition_total] op_totalI)
  fix c :: constrained_connection
  let ?h = "header_ack (cc_connection_id c) (cc_local_seq c) (seq_next (hd_seq h))"
  let ?c = "c \<lparr> cc_receive_window := rw_reset_with_seq (seq_next (hd_seq h)) (cc_receive_window c) \<rparr>"
  assume "cc_at idn Established c"
  then have "cc_at idn Established ?c" by (simp add: cc_at_def cc_state_def)
  from cc_push_outbound_at [OF this, of ?h] obtain c' where
    "cc_push_outbound (packet_control ?h) ?c = (Inr (), c')" "cc_at idn Established c'"
    by (auto simp: header_ack_def header_kind)
  then show "\<exists>x s'. op_bind (cc_push_outbound (packet_control ?h)) (\<lambda>_. cc_push_event Connected) ?c = (Inr x, s') \<and> cc_any idn s'"
    using op_totalD [OF op_total_any [OF cc_push_event_total]] by simp
qed (auto intro: cc_at_any)

lemma cc_on_syn_received_total: "op_total (cc_at idn SynReceived) (cc_on_syn_received now h) (\<lambda>_. cc_any idn)"
  unfolding cc_on_syn_received_def
  by (intro op_total_when op_total_bind [OF cc_transition_total] op_total_any [OF cc_push_event_total])
    (auto intro: cc_at_any)

lemma cc_process_ping_any: "op_total (cc_any idn) (cc_process_ping h) (\<lambda>_. cc_any idn)"
proof (rule op_totalI)
  fix c
  assume "cc_any idn c"
  then have "cc_at idn (cc_state c) c" by (simp add: cc_at_def cc_any_def)
  from cc_push_outbound_at [OF this, of "header_pong (cc_connection_id c) (hd_seq h)"]
  show "\<exists>x c'. cc_process_ping h c = (Inr x, c') \<and> cc_any idn c'"
    by (auto simp: cc_process_ping_def header_pong_def header_kind intro: cc_at_any)
qed

lemma cc_on_established_total:
  assumes "arq_config_ok (arq (fst idn))"
  shows "op_total (cc_at idn Established) (cc_on_established now p) (\<lambda>_. cc_any idn)"
  unfolding cc_on_established_def Let_def
proof (rule op_total_bind [where R = "\<lambda>_. cc_at idn Established"])
  show "op_total (cc_at idn Established) (op_when (header_is_ack (pk_header p)) (cc_process_ack now (hd_ack (pk_header p))))
      (\<lambda>_. cc_at idn Established)"
    by (intro op_total_when cc_process_ack_total assms)
  fix x :: unit
  show "op_total (cc_at idn Established)
      (op_bind (op_when (header_is_data (pk_header p) \<and> pk_payload p \<noteq> []) (cc_process_data p))
        (\<lambda>_. op_bind (op_when (header_is_fin (pk_header p)) (cc_process_fin now (pk_header p)))
        (\<lambda>_. op_when (header_is_ping (pk_header p)) (cc_process_ping (pk_header p))))) (\<lambda>_. cc_any idn)"
  proof (rule op_total_bind [where R = "\<lambda>_. cc_at idn Established"])
    show "op_total (cc_at idn Established) (op_when (header_is_data (pk_header p) \<and> pk_payload p \<noteq> []) (cc_process_data p))
        (\<lambda>_. cc_at idn Established)"
      by (intro op_total_when cc_process_data_total)
  qed (intro op_total_bind [where R = "\<lambda>_. cc_any idn"] op_total_when op_total_any [OF cc_process_fin_total]
      cc_process_ping_any; simp add: cc_at_any)
qed

lemma cc_on_fin_wait_total: "op_total (cc_at idn FinWait) (cc_on_fin_wait now h) (\<lambda>_. cc_any idn)"
proof (cases "header_is_ack h")
  case True
  then show ?thesis
    unfolding cc_on_fin_wait_def
    by (intro op_total_bind [where R = "\<lambda>_. cc_at idn Closing"] op_total_when cc_transition_total
        op_total_bind [OF cc_transition_total] op_total_any [OF cc_push_event_total]) (auto intro: cc_at_any)
next
  case False
  then show ?thesis
    unfolding cc_on_fin_wait_def
    by (intro op_total_bind [where R = "\<lambda>_. cc_at idn FinWait"] op_total_when cc_transition_total
        op_total_bind [OF cc_transition_total] op_total_any [OF cc_push_event_total]) (auto intro: cc_at_any)
qed

lemma cc_on_closing_total: "op_total (cc_at idn Closing) (cc_on_closing now h) (\<lambda>_. cc_any idn)"
  unfolding cc_on_closing_def
  by (intro op_total_when op_total_any [OF cc_transition_total]) (auto intro: cc_at_any)

lemma cc_process_packet_total:
  assumes "cc_inv c" and "arq_config_ok (arq (cc_config c))"
  shows "\<exists>c'. cc_process_packet now p c = (Inr (), c') \<and> cc_inv c' \<and> cc_ident c' = cc_ident c"
proof -
  let ?c = "c \<lparr> cc_last_activity := now \<rparr>"
  have at: "cc_at (cc_ident c) (cc_state c) ?c" using assms(1) by (simp add: cc_at_def cc_state_def)
  have st: "cc_state ?c = cc_state c" by (simp add: cc_state_def)
  show ?thesis
  proof (cases "header_is_rst (pk_header p)")
    case True
    then show ?thesis
      using assms(1) cc_inv_machine [of ?c] by (simp add: cc_process_packet_def cc_push_event_def cc_try_transition_def)
  next
    case False
    have ok: "arq_config_ok (arq (fst (cc_ident c)))" using assms(2) by (simp add: cc_ident_def)
    have "\<exists>x c'. cc_process_packet now p c = (Inr x, c') \<and> cc_any (cc_ident c) c'"
      using False at st cc_at_any [OF at]
        op_totalD [OF cc_on_syn_sent_total [of "cc_ident c" now "pk_header p"], of ?c]
        op_totalD [OF cc_on_syn_received_total [of "cc_ident c" now "pk_header p"], of ?c]
        op_totalD [OF cc_on_established_total [OF ok, of now p], of ?c]
        op_totalD [OF cc_on_fin_wait_total [of "cc_ident c" now "pk_header p"], of ?c]
        op_totalD [OF cc_on_closing_total [of "cc_ident c" now "pk_header p"], of ?c]
      by (cases "cc_state c") (simp_all add: cc_process_packet_def Let_def)
    then show ?thesis by (simp add: cc_any_def)
  qed
qed

section \<open>Sending\<close>

text \<open>How many packets the window still takes, and the connection after a list of segments was queued.\<close>

definition cc_free :: "constrained_connection \<Rightarrow> nat" where
  "cc_free c = unat (window_size (sw_config (cc_send_window c))) - length (sw_unacked (cc_send_window c))"

definition seqs_from :: "sequence_number \<Rightarrow> nat \<Rightarrow> sequence_number list" where
  "seqs_from s n = map (\<lambda>i. s + of_nat i) [0..<n]"

lemma seqs_from_Suc: "seqs_from s (Suc n) = s # seqs_from (seq_next s) n"
proof -
  have "[0..<Suc n] = 0 # map Suc [0..<n]" by (simp add: upt_conv_Cons map_Suc_upt)
  then show ?thesis by (simp add: seqs_from_def seq_next_def comp_def algebra_simps)
qed

lemma length_seqs_from [simp]: "length (seqs_from s n) = n"
  by (simp add: seqs_from_def)

lemma seqs_from_of_nat: "seqs_from (of_nat k) n = map of_nat [k..<k + n]"
  by (rule nth_equalityI) (simp_all add: seqs_from_def)

definition cc_queue :: "instant \<Rightarrow> bytes list \<Rightarrow> constrained_connection \<Rightarrow> constrained_connection" where
  "cc_queue now ks c = c \<lparr> cc_local_seq := cc_local_seq c + of_nat (length ks),
     cc_send_window := (cc_send_window c) \<lparr> sw_unacked := sw_unacked (cc_send_window c)
       @ map2 (send_entry_new now) (seqs_from (cc_local_seq c) (length ks)) ks \<rparr>,
     cc_outbound := cc_outbound c @ map2 (\<lambda>s k. packet_data (cc_connection_id c) s
       (rw_cumulative_ack (cc_receive_window c)) k) (seqs_from (cc_local_seq c) (length ks)) ks \<rparr>"

lemma map2_send_entry:
  "length ss = length ks \<Longrightarrow> map se_seq (map2 (send_entry_new now) ss ks) = ss"
  "length ss = length ks \<Longrightarrow> map se_data (map2 (send_entry_new now) ss ks) = ks"
  by (induction ss ks rule: list_induct2) (simp_all add: send_entry_new_def)

lemma cc_queue_Nil [simp]: "cc_queue now [] c = c"
  by (simp add: cc_queue_def)

lemma cc_send_chunks_step:
  "0 < cc_free c \<Longrightarrow> cc_send_chunks now (k # ks) c = cc_send_chunks now ks (cc_queue now [k] c)"
  by (simp add: cc_free_def sw_is_full_def sw_can_send_def sw_add_def Let_def cc_queue_def
      seqs_from_def seq_next_def)

lemma cc_queue_Cons: "cc_queue now ks (cc_queue now [k] c) = cc_queue now (k # ks) c"
  by (simp add: cc_queue_def seqs_from_Suc seq_next_def)

lemma cc_free_queue: "cc_free (cc_queue now ks c) = cc_free c - length ks"
  by (simp add: cc_free_def cc_queue_def)

lemma cc_send_chunks_eq:
  "cc_send_chunks now ks c =
     (if length ks \<le> cc_free c then Inr () else Inl (Err SendBufferFull), cc_queue now (take (cc_free c) ks) c)"
proof (induction ks arbitrary: c)
  case (Cons k ks)
  show ?case
  proof (cases "cc_free c")
    case 0
    then have "sw_is_full (cc_send_window c)" by (simp add: cc_free_def sw_is_full_def sw_can_send_def)
    with 0 show ?thesis by simp
  next
    case (Suc n)
    then have "cc_send_chunks now (k # ks) c = cc_send_chunks now ks (cc_queue now [k] c)"
      by (intro cc_send_chunks_step) simp
    with Suc show ?thesis by (simp add: Cons cc_free_queue cc_queue_Cons)
  qed
qed simp

lemma cc_send_eq:
  assumes "sm_can_send_data (cc_machine c)" and "0 < mss (cc_config c)"
  shows "cc_send now d c = (let ks = chunks (mss (cc_config c)) d; c' = cc_queue now (take (cc_free c) ks) c in
     if length ks \<le> cc_free c then (Inr (), c' \<lparr> cc_last_activity := now \<rparr>) else (Inl (Err SendBufferFull), c'))"
  using assms by (simp add: cc_send_def cc_send_chunks_eq op_bind_def Let_def)

lemma cc_inv_queue:
  assumes "cc_inv c" and "length ks \<le> cc_free c" and "\<forall>k\<in>set ks. length k \<le> mss (cc_config c)"
  shows "cc_inv (cc_queue now ks c)"
  using assms
proof (induction ks arbitrary: c)
  case (Cons k ks)
  have free: "0 < cc_free c" using Cons.prems(2) by simp
  have "cc_inv (cc_queue now [k] c)"
    using Cons.prems free seqs_before_snoc
    by (simp add: cc_inv_def cc_queue_def seqs_from_def send_entry_new_def packet_ok_def [abs_def]
        cc_free_def seq_next_def header_data_def header_kind)
  then have "cc_inv (cc_queue now ks (cc_queue now [k] c))"
    using Cons.prems by (intro Cons.IH) (simp_all add: cc_free_queue, simp add: cc_queue_def)
  then show ?case by (simp add: cc_queue_Cons)
qed simp

lemma cc_inv_send:
  assumes "cc_inv c" and "cc_send now d c = (r, c')"
  shows "cc_inv c' \<and> cc_ident c' = cc_ident c"
proof (cases "sm_can_send_data (cc_machine c) \<and> 0 < mss (cc_config c)")
  case True
  let ?ks = "take (cc_free c) (chunks (mss (cc_config c)) d)"
  have "cc_inv (cc_queue now ?ks c)"
    using assms(1) chunks_bounds by (intro cc_inv_queue) (auto dest: in_set_takeD)
  then show ?thesis using True assms(2) by (auto simp: cc_send_eq Let_def cc_queue_def cc_ident_def split: if_splits)
next
  case False
  then show ?thesis using assms by (auto simp: cc_send_def split: if_splits)
qed

section \<open>Polling\<close>

lemma cc_inv_fail: "cc_inv c \<Longrightarrow> cc_inv (cc_fail now msg c) \<and> cc_ident (cc_fail now msg c) = cc_ident c"
  using cc_inv_machine [of c now Timeout] by (simp add: cc_fail_def cc_try_transition_def Let_def)

lemma cc_inv_send_window:
  assumes "cc_inv c" and "sw_get_retransmissions now (cc_send_window c) = (r, sw)"
  shows "cc_inv (c \<lparr> cc_send_window := sw \<rparr>)"
proof -
  note f = sw_get_retransmissions_frame [OF assms(2)]
  have "length (sw_unacked sw) = length (sw_unacked (cc_send_window c))" using f(4) by (metis length_map)
  moreover have "list_all (\<lambda>d. length d \<le> mss (cc_config c)) (map se_data (sw_unacked sw))"
    unfolding f(5) using assms(1) by (simp add: cc_inv_def list.pred_map comp_def)
  then have "list_all (\<lambda>e. length (se_data e) \<le> mss (cc_config c)) (sw_unacked sw)"
    by (simp add: list.pred_map comp_def)
  ultimately show ?thesis using assms(1) f(1,4) by (simp add: cc_inv_def packet_ok_def [abs_def])
qed

lemma sw_retransmit_data:
  assumes "sw_get_retransmissions now sw = (Some rs, sw')" and "(s, d) \<in> set rs"
  shows "\<exists>e\<in>set (sw_unacked sw). d = se_data e"
proof -
  have loop: "fst (sw_retransmit_loop now rto m es) = Some rs \<Longrightarrow> (s, d) \<in> set rs \<Longrightarrow> \<exists>e\<in>set es. d = se_data e"
    for rto m es rs
    by (induction es arbitrary: rs) (auto simp: Let_def case_prod_beta split: if_splits)
  have "fst (sw_retransmit_loop now (sw_current_rto sw) (max_retries (sw_config sw)) (sw_unacked sw)) = Some rs"
    using assms(1) by (auto simp: sw_get_retransmissions_def Let_def split: prod.splits option.splits)
  then show ?thesis using assms(2) by (rule loop)
qed

lemma cc_poll_inv:
  assumes inv: "cc_inv c" and poll: "cc_poll now c = (ps, c')"
  shows "cc_inv c' \<and> cc_ident c' = cc_ident c \<and> list_all (packet_ok c) ps"
proof (cases "sm_is_timed_out now (cc_machine c) \<or> now - cc_last_activity c > idle_timeout (cc_config c)")
  case True
  then show ?thesis using poll cc_inv_fail [OF inv] by (auto simp: cc_poll_def split: if_splits)
next
  case False
  obtain r sw where rt: "sw_get_retransmissions now (cc_send_window c) = (r, sw)" by fastforce
  let ?c = "c \<lparr> cc_send_window := sw \<rparr>"
  have c1: "cc_inv ?c" using inv rt by (rule cc_inv_send_window)
  show ?thesis
  proof (cases r)
    case None
    then show ?thesis using poll False rt cc_inv_fail [OF c1] by (auto simp: cc_poll_def)
  next
    case (Some rs)
    have "packet_ok c (packet_data (cc_connection_id c) s a d)" if "(s, d) \<in> set rs" for s d a
    proof -
      have "\<exists>e\<in>set (sw_unacked (cc_send_window c)). d = se_data e"
        using rt that sw_retransmit_data unfolding Some by blast
      then show ?thesis using inv
        by (auto simp: cc_inv_def packet_ok_def list_all_iff header_data_def header_kind)
    qed
    then have "list_all (packet_ok c) (map (\<lambda>(s, d). packet_data (cc_connection_id c) s (rw_cumulative_ack (cc_receive_window c)) d) rs)"
      by (auto simp: list_all_iff)
    moreover have "packet_ok c (packet_control (header_ping (cc_connection_id c) s))" for s
      by (rule packet_ok_control) (simp add: header_ping_def header_kind)
    moreover have "cc_inv (?c \<lparr> cc_last_keepalive := k, cc_outbound := [] \<rparr>)" "cc_inv (?c \<lparr> cc_outbound := [] \<rparr>)" for k
      using c1 by (intro cc_inv_outbound; simp)+
    ultimately show ?thesis
      using poll False rt Some cc_inv_outbound_ok [OF inv] by (auto simp: cc_poll_def Let_def split: if_splits)
  qed
qed

section \<open>Reachable connections\<close>

inductive cc_step :: "constrained_connection \<Rightarrow> instant \<Rightarrow> constrained_connection \<Rightarrow> bool" where
  "cc_initiate now c = (r, c') \<Longrightarrow> cc_step c now c'"
| "cc_accept now s c = (r, c') \<Longrightarrow> cc_step c now c'"
| "cc_send now d c = (r, c') \<Longrightarrow> cc_step c now c'"
| "cc_recv c = (r', c') \<Longrightarrow> cc_step c now c'"
| "cc_close now c = (r, c') \<Longrightarrow> cc_step c now c'"
| "cc_reset now c = (p, c') \<Longrightarrow> cc_step c now c'"
| "cc_process_packet now p c = (u, c') \<Longrightarrow> cc_step c now c'"
| "cc_poll now c = (ps, c') \<Longrightarrow> cc_step c now c'"
| "cc_next_event c = (e, c') \<Longrightarrow> cc_step c now c'"

abbreviation cc_init :: "connection_config \<Rightarrow> constrained_connection \<Rightarrow> bool" where
  "cc_init cfg c \<equiv> \<exists>now cid addr ini. c = cc_new now cid addr cfg ini"

lemma cc_transition_inv:
  "cc_inv c \<Longrightarrow> cc_transition now e c = (r, c') \<Longrightarrow> cc_inv c' \<and> cc_ident c' = cc_ident c"
  using cc_inv_machine [of c now e] by (auto simp: cc_transition_def split: prod.splits sum.splits)

lemma cc_initiate_inv:
  assumes "cc_inv c" and "cc_initiate now c = (r, c')"
  shows "cc_inv c' \<and> cc_ident c' = cc_ident c"
proof -
  obtain r1 c1 where t: "cc_transition now Open c = (r1, c1)" by fastforce
  from cc_transition_inv [OF assms(1) t] assms t show ?thesis
    by (cases r1) (auto simp: cc_initiate_def split: if_splits)
qed

lemma cc_accept_inv:
  assumes "cc_inv c" and "cc_accept now s c = (r, c')"
  shows "cc_inv c' \<and> cc_ident c' = cc_ident c"
proof -
  obtain r1 c1 where t: "cc_transition now RecvSyn c = (r1, c1)" by fastforce
  from cc_transition_inv [OF assms(1) t] assms t show ?thesis
    by (cases r1) (auto simp: cc_accept_def split: if_splits)
qed

lemma cc_close_inv:
  assumes "cc_inv c" and "cc_close now c = (r, c')"
  shows "cc_inv c' \<and> cc_ident c' = cc_ident c"
proof -
  obtain r1 c1 where t: "cc_transition now Close c = (r1, c1)" by fastforce
  from cc_transition_inv [OF assms(1) t] assms t show ?thesis by (cases r1) (auto simp: cc_close_def)
qed

lemma cc_step_inv [step_inv]:
  assumes "arq_config_ok (arq (fst idn))" and "cc_any idn c" and "cc_step c now c'"
  shows "cc_any idn c'"
proof -
  have inv: "cc_inv c" and idn: "cc_ident c = idn" using assms(2) by (simp_all add: cc_any_def)
  have ok: "arq_config_ok (arq (cc_config c))" using assms(1) idn by (auto simp: cc_ident_def)
  from assms(3) have "cc_inv c' \<and> cc_ident c' = cc_ident c"
  proof cases
    case 1 then show ?thesis using inv cc_initiate_inv by blast
  next
    case 2 then show ?thesis using inv cc_accept_inv by blast
  next
    case 3 then show ?thesis using inv cc_inv_send by blast
  next
    case 4 then show ?thesis using inv by (auto simp: cc_recv_def split: list.splits)
  next
    case 5 then show ?thesis using inv cc_close_inv by blast
  next
    case 6 then show ?thesis using inv cc_inv_machine by (auto simp: cc_reset_def cc_try_transition_def)
  next
    case (7 p u) then show ?thesis using cc_process_packet_total [OF inv ok, of now p] by auto
  next
    case 8 then show ?thesis using cc_poll_inv [OF inv] by blast
  next
    case 9 then show ?thesis using inv by (auto simp: cc_next_event_def split: list.splits)
  qed
  then show ?thesis using idn by (simp add: cc_any_def)
qed

lemma cc_reachable_inv:
  assumes "arq_config_ok (arq cfg)" and "reachable (cc_init cfg) cc_step c"
  shows "cc_inv c \<and> cc_config c = cfg"
  using assms(2)
proof (rule reachable_invariant)
  show "\<And>s. cc_init cfg s \<Longrightarrow> cc_inv s \<and> cc_config s = cfg" by (auto simp: cc_inv_new) (simp add: cc_new_def)
  fix s l s'
  assume s: "cc_inv s \<and> cc_config s = cfg" and step: "cc_step s l s'"
  have "cc_any (cc_ident s) s'"
    by (rule cc_step_inv [OF _ _ step]) (use s assms(1) in \<open>simp_all add: cc_any_def cc_ident_def\<close>)
  then show "cc_inv s' \<and> cc_config s' = cfg" using s by (simp add: cc_any_def cc_ident_def)
qed

section \<open>Two ends\<close>

text \<open>The three-way handshake between a connection \<open>A\<close> that initiates and one \<open>B\<close> that accepts; \<open>A\<close>
  processes the SYN-ACK and is polled, and \<open>B\<close> processes what \<open>A\<close> hands out.\<close>

fun cc_process_all :: "instant \<Rightarrow> constrained_packet list \<Rightarrow> constrained_connection \<Rightarrow> constrained_connection" where
  "cc_process_all now [] c = c"
| "cc_process_all now (p # ps) c = cc_process_all now ps (snd (cc_process_packet now p c))"

definition handshake :: "instant \<Rightarrow> instant \<Rightarrow> instant \<Rightarrow> instant \<Rightarrow> connection_id \<Rightarrow> socket_addr \<Rightarrow> socket_addr
    \<Rightarrow> connection_config \<Rightarrow> connection_config \<Rightarrow> (constrained_connection \<times> constrained_connection) option" where
  "handshake t1 t2 t3 t4 cid addrA addrB cfgA cfgB =
     (case cc_initiate t1 (cc_new_outbound_with_config t1 cid addrB cfgA) of
        (Inr syn, A1) \<Rightarrow>
          (case cc_accept t2 (hd_seq (pk_header syn))
                  (cc_new_inbound_with_config t2 (hd_connection_id (pk_header syn)) addrA cfgB) of
             (Inr syn_ack, B1) \<Rightarrow>
               let A2 = snd (cc_process_packet t3 syn_ack A1); (ps, A3) = cc_poll t3 A2
               in Some (A3, cc_process_all t4 ps B1)
           | _ \<Rightarrow> None)
      | _ \<Rightarrow> None)"

lemma cc_poll_quiet:
  assumes "\<not> sm_is_timed_out now (cc_machine c)" and "now - cc_last_activity c \<le> idle_timeout (cc_config c)"
    and "sw_get_retransmissions now (cc_send_window c) = (Some [], cc_send_window c)"
    and "\<not> cc_should_ping now c"
  shows "cc_poll now c = (cc_outbound c, c \<lparr> cc_outbound := [] \<rparr>)"
  using assms by (simp add: cc_poll_def Let_def)

lemma sw_get_retransmissions_fresh:
  "\<forall>e\<in>set (sw_unacked sw). time_since_sent now e \<le> sw_current_rto sw \<Longrightarrow>
   sw_get_retransmissions now sw = (Some [], sw)"
proof -
  assume *: "\<forall>e\<in>set (sw_unacked sw). time_since_sent now e \<le> sw_current_rto sw"
  have "sw_retransmit_loop now (sw_current_rto sw) m es = (Some [], es)"
    if "\<forall>e\<in>set es. time_since_sent now e \<le> sw_current_rto sw" for m es
    using that by (induction es) auto
  from this [OF *] show ?thesis by (simp add: sw_get_retransmissions_def Let_def)
qed

lemmas cc_step_defs = cc_process_packet_def cc_on_syn_sent_def cc_on_syn_received_def
  cc_on_established_def cc_push_outbound_def cc_push_event_def cc_transition_def

text \<open>What both ends look like after the handshake.\<close>

definition initiator_ready :: "connection_id \<Rightarrow> connection_config \<Rightarrow> instant \<Rightarrow> constrained_connection \<Rightarrow> bool" where
  "initiator_ready cid cfg t A \<longleftrightarrow> cc_state A = Established \<and> sm_entered (cc_machine A) = t
     \<and> cc_connection_id A = cid \<and> cc_config A = cfg \<and> cc_send_window A = sw_new (arq cfg)
     \<and> cc_receive_window A = rw_reset_with_seq 1 (rw_new (window_size (arq cfg)))
     \<and> cc_local_seq A = 0 \<and> cc_outbound A = [] \<and> cc_inbound A = []
     \<and> cc_last_keepalive A = None \<and> cc_last_activity A = t"

definition responder_ready :: "connection_id \<Rightarrow> connection_config \<Rightarrow> instant \<Rightarrow> constrained_connection \<Rightarrow> bool" where
  "responder_ready cid cfg t B \<longleftrightarrow> cc_state B = Established \<and> sm_entered (cc_machine B) = t
     \<and> cc_connection_id B = cid \<and> cc_config B = cfg \<and> cc_send_window B = sw_new (arq cfg)
     \<and> cc_receive_window B = rw_new (window_size (arq cfg))
     \<and> cc_local_seq B = 0 \<and> cc_outbound B = [] \<and> cc_inbound B = []
     \<and> cc_last_keepalive B = None \<and> cc_last_activity B = t"

text \<open>The connections in the course of a handshake.\<close>

abbreviation hs_syn_sent :: "instant \<Rightarrow> connection_id \<Rightarrow> socket_addr \<Rightarrow> connection_config \<Rightarrow> constrained_connection" where
  "hs_syn_sent t cid addr cfg \<equiv> (cc_new_outbound_with_config t cid addr cfg) \<lparr> cc_machine :=
     \<lparr> sm_state = SynSent, sm_entered = t, sm_history = [(Closed, Open, SynSent)] \<rparr> \<rparr>"

abbreviation hs_syn_received :: "instant \<Rightarrow> connection_id \<Rightarrow> socket_addr \<Rightarrow> connection_config \<Rightarrow> constrained_connection" where
  "hs_syn_received t cid addr cfg \<equiv> (cc_new_inbound_with_config t cid addr cfg) \<lparr> cc_machine :=
     \<lparr> sm_state = SynReceived, sm_entered = t, sm_history = [(Closed, RecvSyn, SynReceived)] \<rparr> \<rparr>"

abbreviation hs_initiator :: "instant \<Rightarrow> instant \<Rightarrow> connection_id \<Rightarrow> socket_addr \<Rightarrow> connection_config \<Rightarrow> constrained_connection" where
  "hs_initiator t t' cid addr cfg \<equiv> (hs_syn_sent t cid addr cfg) \<lparr>
     cc_machine := \<lparr> sm_state = Established, sm_entered = t',
      sm_history = [(Closed, Open, SynSent), (SynSent, RecvSynAck, Established)] \<rparr>,
     cc_receive_window := rw_reset_with_seq 1 (rw_new (window_size (arq cfg))),
     cc_outbound := [packet_control (header_ack cid 0 1)], cc_events := [Connected], cc_last_activity := t' \<rparr>"

abbreviation hs_responder :: "instant \<Rightarrow> instant \<Rightarrow> connection_id \<Rightarrow> socket_addr \<Rightarrow> connection_config \<Rightarrow> constrained_connection" where
  "hs_responder t t' cid addr cfg \<equiv> (hs_syn_received t cid addr cfg) \<lparr>
     cc_machine := \<lparr> sm_state = Established, sm_entered = t',
      sm_history = [(Closed, RecvSyn, SynReceived), (SynReceived, RecvAck, Established)] \<rparr>,
     cc_events := [Connected], cc_last_activity := t' \<rparr>"

lemma hs_initiate:
  "cc_initiate t (cc_new_outbound_with_config t cid addr cfg) = (Inr (packet_control (header_syn cid)), hs_syn_sent t cid addr cfg)"
  by (simp add: cc_initiate_def cc_new_outbound_with_config_def cc_new_def cc_transition_def transition_def
      sm_new_def op_bind_def)

lemma hs_accept:
  "cc_accept t 0 (cc_new_inbound_with_config t cid addr cfg)
    = (Inr (packet_control (header_syn_ack cid 1)), hs_syn_received t cid addr cfg)"
  by (simp add: cc_accept_def cc_new_inbound_with_config_def cc_new_def cc_transition_def transition_def
      sm_new_def op_bind_def seq_next_def)

lemma hs_syn_ack:
  "cc_process_packet t' (packet_control (header_syn_ack cid 1)) (hs_syn_sent t cid addr cfg)
    = (Inr (), hs_initiator t t' cid addr cfg)"
  by (simp add: cc_step_defs Let_def header_kind cc_state_def cc_new_outbound_with_config_def cc_new_def
      transition_def op_bind_def seq_next_def)

lemma hs_ack:
  "cc_process_packet t' (packet_control (header_ack cid 0 1)) (hs_syn_received t cid addr cfg)
    = (Inr (), hs_responder t t' cid addr cfg)"
  by (simp add: cc_step_defs Let_def header_kind cc_state_def cc_new_inbound_with_config_def cc_new_def
      transition_def op_bind_def)

lemma hs_poll:
  "cc_poll t' ((hs_initiator t t' cid addr cfg) \<lparr> cc_events := es \<rparr>) = ([packet_control (header_ack cid 0 1)],
     (hs_initiator t t' cid addr cfg) \<lparr> cc_events := es, cc_outbound := [] \<rparr>)"
  "cc_poll t' ((hs_responder t t' cid addr cfg) \<lparr> cc_events := es \<rparr>) = ([], (hs_responder t t' cid addr cfg) \<lparr> cc_events := es \<rparr>)"
  by (subst cc_poll_quiet; simp add: sm_is_timed_out_def sm_time_in_state_def sw_get_retransmissions_fresh
      cc_new_outbound_with_config_def cc_new_inbound_with_config_def cc_new_def sw_new_def cc_should_ping_def)+

lemma hs_ready:
  "initiator_ready cid cfg t' ((hs_initiator t t' cid addr cfg) \<lparr> cc_events := es, cc_outbound := [] \<rparr>)"
  "responder_ready cid cfg t' ((hs_responder t t' cid addr cfg) \<lparr> cc_events := es \<rparr>)"
  by (simp_all add: initiator_ready_def responder_ready_def cc_state_def cc_new_outbound_with_config_def
      cc_new_inbound_with_config_def cc_new_def)

lemma handshake_ready:
  obtains A B where "handshake t1 t2 t3 t4 cid addrA addrB cfgA cfgB = Some (A, B)"
    and "initiator_ready cid cfgA t3 A" and "responder_ready cid cfgB t4 B"
    and "cc_remote_addr A = addrB" and "cc_remote_addr B = addrA"
    and "cc_events A = [Connected]" and "cc_events B = [Connected]"
proof -
  let ?A = "(hs_initiator t1 t3 cid addrB cfgA) \<lparr> cc_events := [Connected], cc_outbound := [] \<rparr>"
  let ?B = "(hs_responder t2 t4 cid addrA cfgB) \<lparr> cc_events := [Connected] \<rparr>"
  have A: "hs_initiator t1 t3 cid addrB cfgA = (hs_initiator t1 t3 cid addrB cfgA) \<lparr> cc_events := [Connected] \<rparr>" by simp
  have poll: "cc_poll t3 (hs_initiator t1 t3 cid addrB cfgA) = ([packet_control (header_ack cid 0 1)], ?A)"
    by (subst A) (rule hs_poll(1))
  have B: "Some (?A, hs_responder t2 t4 cid addrA cfgB) = Some (?A, ?B)" by simp
  have "handshake t1 t2 t3 t4 cid addrA addrB cfgA cfgB = Some (?A, hs_responder t2 t4 cid addrA cfgB)"
    by (simp only: handshake_def hs_initiate prod.case sum.case packet_control_simps header_ctor_fields hs_accept
        hs_syn_ack poll snd_conv Let_def cc_process_all.simps hs_ack)
  from this B have "handshake t1 t2 t3 t4 cid addrA addrB cfgA cfgB = Some (?A, ?B)" by (rule trans)
  moreover have "cc_remote_addr ?A = addrB" "cc_remote_addr ?B = addrA" "cc_events ?A = [Connected]" "cc_events ?B = [Connected]"
    by (simp_all add: cc_new_outbound_with_config_def cc_new_inbound_with_config_def cc_new_def)
  ultimately show ?thesis using hs_ready that by blast
qed

text \<open>A run of data packets that arrive in order at an established end which has nothing in flight.\<close>

lemma rw_receive_expected:
  "rw_out_of_order rw = [] \<Longrightarrow> rw_receive (rw_next_expected rw) d rw = (Some [(rw_next_expected rw, d)],
     rw \<lparr> rw_next_expected := seq_next (rw_next_expected rw), rw_cumulative_ack := rw_next_expected rw \<rparr>)"
  by (simp add: rw_receive_def rw_is_in_window_def is_in_window_def distance_to_def Let_def rw_drain.simps)

lemma cc_process_data_packet:
  assumes "cc_state c = Established" and "sw_unacked (cc_send_window c) = []"
    and "rw_out_of_order (cc_receive_window c) = []" and "rw_next_expected (cc_receive_window c) = s" and "k \<noteq> []"
  shows "cc_process_packet now (packet_data cid s a k) c = (Inr (), c \<lparr> cc_last_activity := now,
     cc_receive_window := (cc_receive_window c) \<lparr> rw_next_expected := seq_next s, rw_cumulative_ack := s \<rparr>,
     cc_inbound := cc_inbound c @ [k], cc_events := cc_events c @ [DataReceived []],
     cc_outbound := cc_outbound c @ [packet_control (header_ack (cc_connection_id c) (cc_local_seq c) s)] \<rparr>)"
  using assms rw_receive_expected [of "cc_receive_window c" k]
  by (simp add: cc_step_defs Let_def header_kind cc_state_def cc_process_ack_def cc_process_data_def
      sw_acknowledge_def op_bind_def)

lemma cc_process_data_run:
  assumes "cc_state c = Established" and "sw_unacked (cc_send_window c) = []"
    and "rw_out_of_order (cc_receive_window c) = []" and "rw_next_expected (cc_receive_window c) = s"
    and "\<forall>k\<in>set ks. k \<noteq> []"
  shows "\<exists>rw t es. cc_process_all now (map2 (\<lambda>s k. packet_data cid s a k) (seqs_from s (length ks)) ks) c =
     c \<lparr> cc_last_activity := t, cc_receive_window := rw, cc_inbound := cc_inbound c @ ks, cc_events := es,
         cc_outbound := cc_outbound c @ map (\<lambda>s. packet_control (header_ack (cc_connection_id c) (cc_local_seq c) s))
           (seqs_from s (length ks)) \<rparr> \<and> (t = now \<or> ks = [] \<and> t = cc_last_activity c)"
  using assms
proof (induction ks arbitrary: c s)
  case Nil
  then show ?case
    by (intro exI [of _ "cc_receive_window c"] exI [of _ "cc_last_activity c"] exI [of _ "cc_events c"])
      (simp add: seqs_from_def)
next
  case (Cons k ks)
  define c1 where "c1 = snd (cc_process_packet now (packet_data cid s a k) c)"
  have c: "c1 = c \<lparr> cc_last_activity := now,
     cc_receive_window := (cc_receive_window c) \<lparr> rw_next_expected := seq_next s, rw_cumulative_ack := s \<rparr>,
     cc_inbound := cc_inbound c @ [k], cc_events := cc_events c @ [DataReceived []],
     cc_outbound := cc_outbound c @ [packet_control (header_ack (cc_connection_id c) (cc_local_seq c) s)] \<rparr>"
    unfolding c1_def using Cons.prems by (simp add: cc_process_data_packet)
  have "cc_state c1 = Established" "sw_unacked (cc_send_window c1) = []" "rw_out_of_order (cc_receive_window c1) = []"
    "rw_next_expected (cc_receive_window c1) = seq_next s" "\<forall>k\<in>set ks. k \<noteq> []"
    using Cons.prems unfolding c by (simp_all add: cc_state_def)
  from Cons.IH [OF this] obtain rw t es where IH:
    "cc_process_all now (map2 (\<lambda>s k. packet_data cid s a k) (seqs_from (seq_next s) (length ks)) ks) c1 =
     c1 \<lparr> cc_last_activity := t, cc_receive_window := rw, cc_inbound := cc_inbound c1 @ ks, cc_events := es,
         cc_outbound := cc_outbound c1 @ map (\<lambda>s. packet_control (header_ack (cc_connection_id c1) (cc_local_seq c1) s))
           (seqs_from (seq_next s) (length ks)) \<rparr>" "t = now \<or> ks = [] \<and> t = cc_last_activity c1" by blast
  have "t = now" using IH(2) unfolding c by auto
  moreover have "cc_process_all now (map2 (\<lambda>s k. packet_data cid s a k) (seqs_from s (length (k # ks))) (k # ks)) c =
      cc_process_all now (map2 (\<lambda>s k. packet_data cid s a k) (seqs_from (seq_next s) (length ks)) ks) c1"
    by (simp add: seqs_from_Suc c1_def)
  ultimately show ?case using IH(1)
    by (intro exI [of _ rw] exI [of _ t] exI [of _ es]) (simp add: c seqs_from_Suc)
qed

lemma cc_process_ack_packet:
  assumes "cc_state c = Established" and "sw_acknowledge now a (cc_send_window c) = (Inr n, sw)"
  shows "snd (cc_process_packet now (packet_control (header_ack cid s a)) c)
    = c \<lparr> cc_last_activity := now, cc_send_window := sw \<rparr>"
  using assms by (simp add: cc_step_defs Let_def header_kind cc_state_def cc_process_ack_def op_bind_def)

lemma cc_process_ack_run:
  assumes "cc_state c = Established" and "tx_rel msgs b (cc_send_window c)"
    and "arq_config_ok (sw_config (cc_send_window c))" and "unat (window_size (sw_config (cc_send_window c))) < 128"
    and "b \<le> length msgs"
  shows "\<exists>t sw. cc_process_all now (map (\<lambda>i. packet_control (header_ack cid s (of_nat i))) [b..<length msgs]) c
     = c \<lparr> cc_last_activity := t, cc_send_window := sw \<rparr> \<and> tx_rel msgs (length msgs) sw"
  using assms
proof (induction "length msgs - b" arbitrary: c b)
  case 0
  then have "[b..<length msgs] = []" "b = length msgs" by simp_all
  with 0 show ?case
    by (intro exI [of _ "cc_last_activity c"] exI [of _ "cc_send_window c"]) simp
next
  case (Suc n)
  then have b: "b < length msgs" by simp
  obtain sw where sw: "sw_acknowledge now (of_nat b) (cc_send_window c) = (Inr (Suc b - b), sw)"
    "tx_rel msgs (max b (Suc b)) sw" "sw_config sw = sw_config (cc_send_window c)"
    by (rule sw_acknowledge_index [OF Suc.prems(2,3,4) b, of now]) simp_all
  let ?c = "c \<lparr> cc_last_activity := now, cc_send_window := sw \<rparr>"
  have step: "snd (cc_process_packet now (packet_control (header_ack cid s (of_nat b))) c) = ?c"
    using Suc.prems(1) sw(1) by (rule cc_process_ack_packet)
  have "\<exists>t sw'. cc_process_all now (map (\<lambda>i. packet_control (header_ack cid s (of_nat i))) [Suc b..<length msgs]) ?c
     = ?c \<lparr> cc_last_activity := t, cc_send_window := sw' \<rparr> \<and> tx_rel msgs (length msgs) sw'"
    by (rule Suc.hyps(1)) (use Suc.hyps(2) Suc.prems sw b in \<open>simp_all add: cc_state_def max_def\<close>)
  then show ?case using b by (simp add: upt_conv_Cons step)
qed

text \<open>One message from the initiator: sent and polled, processed at the other end, whose answers are
  polled and processed in turn.\<close>

definition transfer :: "instant \<Rightarrow> instant \<Rightarrow> instant \<Rightarrow> bytes \<Rightarrow> constrained_connection \<Rightarrow> constrained_connection
    \<Rightarrow> (constrained_connection \<times> constrained_connection) option" where
  "transfer tA tB tC d A B = (case cc_send tA d A of
      (Inr _, A1) \<Rightarrow>
        let (ps, A2) = cc_poll tA A1; B1 = cc_process_all tB ps B; (acks, B2) = cc_poll tB B1
        in Some (cc_process_all tC acks A2, B2)
    | _ \<Rightarrow> None)"

lemma initiator_send:
  assumes A: "initiator_ready cid cfg t A" and cfg: "0 < mss cfg"
    and len: "length d \<le> mss cfg * unat (window_size (arq cfg))" and time: "tA - t \<le> from_secs 300"
  defines "ks \<equiv> chunks (mss cfg) d"
  shows "\<exists>A1 A2. cc_send tA d A = (Inr (), A1)
    \<and> cc_poll tA A1 = (map2 (\<lambda>s k. packet_data cid s 1 k) (seqs_from 0 (length ks)) ks, A2)
    \<and> cc_state A2 = Established \<and> tx_rel ks 0 (cc_send_window A2) \<and> sw_config (cc_send_window A2) = arq cfg"
proof -
  have ks: "length ks \<le> unat (window_size (arq cfg))" unfolding ks_def using cfg len by (rule length_chunks_le)
  have free: "cc_free A = unat (window_size (arq cfg))" using A by (simp add: cc_free_def initiator_ready_def sw_new_def)
  let ?A1 = "(cc_queue tA ks A) \<lparr> cc_last_activity := tA \<rparr>"
  have "sm_can_send_data (cc_machine A)" using A by (simp add: initiator_ready_def sm_can_send_data_def cc_state_def)
  then have send: "cc_send tA d A = (Inr (), ?A1)"
    using A cfg ks free by (simp add: cc_send_eq initiator_ready_def Let_def flip: ks_def)
  have old: "time_since_sent tA e \<le> r" if "e \<in> set (map2 (send_entry_new tA) ss ks)" for e ss r
    using that by (auto simp: send_entry_new_def time_since_sent_def)
  have "cc_poll tA ?A1 = (cc_outbound ?A1, ?A1 \<lparr> cc_outbound := [] \<rparr>)"
    using A time old
    by (intro cc_poll_quiet sw_get_retransmissions_fresh)
      (auto simp: initiator_ready_def cc_queue_def sm_is_timed_out_def sm_time_in_state_def cc_should_ping_def
        cc_state_def sw_new_def)
  moreover have "cc_outbound ?A1 = map2 (\<lambda>s k. packet_data cid s 1 k) (seqs_from 0 (length ks)) ks"
    using A by (simp add: cc_queue_def initiator_ready_def rw_reset_with_seq_def)
  moreover have "tx_rel ks 0 (cc_send_window ?A1)" "sw_config (cc_send_window ?A1) = arq cfg"
    using A ks seqs_from_of_nat [of 0 "length ks"]
    by (simp_all add: tx_rel_def cc_queue_def initiator_ready_def sw_new_def map2_send_entry del: map_map)
  moreover have "cc_state ?A1 = Established" using A by (simp add: initiator_ready_def cc_queue_def cc_state_def)
  ultimately show ?thesis
    using send by (intro exI [of _ ?A1] exI [of _ "?A1 \<lparr> cc_outbound := [] \<rparr>"]) (simp add: cc_state_def)
qed

lemma responder_receive:
  assumes B: "responder_ready cid cfg t B" and ks: "\<forall>k\<in>set ks. k \<noteq> []" "ks \<noteq> []" and time: "tB - t \<le> from_secs 300"
  defines "B1 \<equiv> cc_process_all tB (map2 (\<lambda>s k. packet_data cid s 1 k) (seqs_from 0 (length ks)) ks) B"
  shows "\<exists>B2. cc_poll tB B1 = (map (\<lambda>i. packet_control (header_ack cid 0 (of_nat i))) [0..<length ks], B2)
    \<and> cc_inbound B2 = ks \<and> cc_state B2 = Established"
proof -
  have pre: "cc_state B = Established" "sw_unacked (cc_send_window B) = []"
    "rw_out_of_order (cc_receive_window B) = []" "rw_next_expected (cc_receive_window B) = 0"
    using B by (simp_all add: responder_ready_def sw_new_def rw_new_def)
  obtain rw t' es where B1: "B1 = B \<lparr> cc_last_activity := t', cc_receive_window := rw,
      cc_inbound := cc_inbound B @ ks, cc_events := es, cc_outbound := cc_outbound B
        @ map (\<lambda>s. packet_control (header_ack (cc_connection_id B) (cc_local_seq B) s)) (seqs_from 0 (length ks)) \<rparr>"
    "t' = tB"
    using cc_process_data_run [OF pre ks(1), of tB cid 1] ks(2) unfolding B1_def by blast
  have "cc_poll tB B1 = (cc_outbound B1, B1 \<lparr> cc_outbound := [] \<rparr>)"
    using B time unfolding B1
    by (intro cc_poll_quiet sw_get_retransmissions_fresh)
      (auto simp: responder_ready_def sm_is_timed_out_def sm_time_in_state_def cc_should_ping_def cc_state_def sw_new_def)
  then show ?thesis
    using B seqs_from_of_nat [of 0 "length ks"]
    by (simp add: B1 responder_ready_def cc_state_def)
qed

lemma transfer_ready:
  assumes A: "initiator_ready cid cfgA t3 A" and B: "responder_ready cid cfgB t4 B"
    and cfg: "arq_config_ok (arq cfgA)" "0 < mss cfgA" "unat (window_size (arq cfgA)) < 128"
    and d: "d \<noteq> []" "length d \<le> mss cfgA * unat (window_size (arq cfgA))"
    and time: "tA - t3 \<le> from_secs 300" "tB - t4 \<le> from_secs 300"
  shows "\<exists>A' B'. transfer tA tB tC d A B = Some (A', B') \<and> cc_inbound B' = chunks (mss cfgA) d
    \<and> sw_is_empty (cc_send_window A') \<and> cc_state A' = Established \<and> cc_state B' = Established"
proof -
  let ?ks = "chunks (mss cfgA) d"
  from initiator_send [OF A cfg(2) d(2) time(1)] obtain A1 A2 where
    A1: "cc_send tA d A = (Inr (), A1)"
      "cc_poll tA A1 = (map2 (\<lambda>s k. packet_data cid s 1 k) (seqs_from 0 (length ?ks)) ?ks, A2)"
    and A2: "cc_state A2 = Established" "tx_rel ?ks 0 (cc_send_window A2)" "sw_config (cc_send_window A2) = arq cfgA"
    by blast
  have ks: "\<forall>k\<in>set ?ks. k \<noteq> []" "?ks \<noteq> []" using chunks_bounds drop_chunks_ne [OF d(1) cfg(2)] by blast+
  from responder_receive [OF B ks time(2)] obtain B2 where
    B2: "cc_poll tB (cc_process_all tB (map2 (\<lambda>s k. packet_data cid s 1 k) (seqs_from 0 (length ?ks)) ?ks) B)
      = (map (\<lambda>i. packet_control (header_ack cid 0 (of_nat i))) [0..<length ?ks], B2)"
      "cc_inbound B2 = ?ks" "cc_state B2 = Established" by blast
  from cc_process_ack_run [OF A2(1,2), of tC cid 0] cfg A2(3) obtain t sw where
    A3: "cc_process_all tC (map (\<lambda>i. packet_control (header_ack cid 0 (of_nat i))) [0..<length ?ks]) A2
      = A2 \<lparr> cc_last_activity := t, cc_send_window := sw \<rparr>" "tx_rel ?ks (length ?ks) sw" by auto
  have "sw_unacked sw = []" using tx_rel_length [OF A3(2)] by simp
  then show ?thesis using A1 A2 A3 B2 by (simp add: transfer_def Let_def sw_is_empty_def cc_state_def)
qed

section \<open>Defects\<close>

text \<open>The initiator answers the SYN-ACK by expecting sequence number 1, but the data of the responder
  starts at 0: its first packet is discarded without an acknowledgement, however often it is
  retransmitted.\<close>

theorem responder_first_packet_lost:
  assumes "handshake t1 t2 t3 t4 cid addrA addrB cfgA cfgB = Some (A, B)"
    and "d \<noteq> []" and "0 < mss cfgB" and "0 < unat (window_size (arq cfgB))"
  shows "\<exists>p ps. cc_outbound (snd (cc_send tB d B)) = p # ps \<and> pk_payload p = take (mss cfgB) d
    \<and> cc_inbound (snd (cc_process_packet tA p A)) = [] \<and> cc_outbound (snd (cc_process_packet tA p A)) = []"
proof -
  obtain A' B' where "handshake t1 t2 t3 t4 cid addrA addrB cfgA cfgB = Some (A', B')"
    and "initiator_ready cid cfgA t3 A'" and "responder_ready cid cfgB t4 B'"
    by (rule handshake_ready)
  with assms(1) have A: "initiator_ready cid cfgA t3 A" and B: "responder_ready cid cfgB t4 B" by simp_all
  let ?p = "packet_data cid 0 0 (take (mss cfgB) d)"
  have free: "cc_free B = unat (window_size (arq cfgB))" using B by (simp add: cc_free_def responder_ready_def sw_new_def)
  have "sm_can_send_data (cc_machine B)" using B by (simp add: responder_ready_def sm_can_send_data_def cc_state_def)
  then have "cc_outbound (snd (cc_send tB d B)) = cc_outbound (cc_queue tB (take (cc_free B) (chunks (mss cfgB) d)) B)"
    using assms(3) B by (simp add: cc_send_eq Let_def responder_ready_def)
  moreover obtain n ks where "take (cc_free B) (chunks (mss cfgB) d) = take (mss cfgB) d # ks"
    using assms(2,3,4) by (cases "cc_free B") (simp_all add: free chunks_step)
  ultimately have out: "\<exists>ps. cc_outbound (snd (cc_send tB d B)) = ?p # ps"
    using B by (simp add: cc_queue_def seqs_from_Suc responder_ready_def rw_new_def)
  have "rw_receive 0 k (cc_receive_window A) = (None, cc_receive_window A)" for k
    using A by (simp add: initiator_ready_def rw_receive_def rw_is_in_window_def is_in_window_def distance_to_def
        rw_reset_with_seq_def)
  then have "cc_inbound (snd (cc_process_packet tA ?p A)) = [] \<and> cc_outbound (snd (cc_process_packet tA ?p A)) = []"
    using A assms(2,3)
    by (simp add: cc_step_defs Let_def header_kind cc_state_def cc_process_ack_def cc_process_data_def
        sw_acknowledge_def op_bind_def initiator_ready_def sw_new_def)
  with out show ?thesis by auto
qed

section \<open>Properties\<close>

text \<open>(C21) The three-way handshake works at any times and with any configurations: initiating, accepting,
  answering the SYN-ACK and processing the final ACK leaves both ends established under the same
  connection identifier, each with a Connected event, empty queues and an empty send window.\<close>

theorem handshake_establishes:
  "case handshake t1 t2 t3 t4 cid addrA addrB cfgA cfgB of
     None \<Rightarrow> False
   | Some (A, B) \<Rightarrow> cc_state A = Established \<and> cc_state B = Established
       \<and> cc_connection_id A = cid \<and> cc_connection_id B = cid
       \<and> cc_remote_addr A = addrB \<and> cc_remote_addr B = addrA
       \<and> cc_events A = [Connected] \<and> cc_events B = [Connected]
       \<and> cc_outbound A = [] \<and> cc_outbound B = [] \<and> cc_inbound A = [] \<and> cc_inbound B = []
       \<and> sw_is_empty (cc_send_window A) \<and> sw_is_empty (cc_send_window B)"
  by (rule handshake_ready [of t1 t2 t3 t4 cid addrA addrB cfgA cfgB])
    (simp add: initiator_ready_def responder_ready_def sw_is_empty_def sw_new_def)

text \<open>(C20) End-to-end transfer: after a handshake, a message of the initiator that fits its window is cut
  into segments, every segment arrives, the responder holds exactly the message, and its
  acknowledgements empty the initiator's window again.\<close>

theorem transfer_delivers:
  assumes "arq_config_ok (arq cfgA)" and "0 < mss cfgA" and "unat (window_size (arq cfgA)) < 128"
    and "d \<noteq> []" and "length d \<le> mss cfgA * unat (window_size (arq cfgA))"
    and "tA - t3 \<le> from_secs 300" and "tB - t4 \<le> from_secs 300"
  shows "case handshake t1 t2 t3 t4 cid addrA addrB cfgA cfgB of None \<Rightarrow> False | Some (A, B) \<Rightarrow>
     (case transfer tA tB tC d A B of None \<Rightarrow> False | Some (A', B') \<Rightarrow>
        concat (cc_inbound B') = d \<and> list_all (\<lambda>k. k \<noteq> [] \<and> length k \<le> mss cfgA) (cc_inbound B')
        \<and> sw_is_empty (cc_send_window A') \<and> cc_state A' = Established \<and> cc_state B' = Established)"
proof -
  obtain A B where hs: "handshake t1 t2 t3 t4 cid addrA addrB cfgA cfgB = Some (A, B)"
    and A: "initiator_ready cid cfgA t3 A" and B: "responder_ready cid cfgB t4 B"
    by (rule handshake_ready)
  from transfer_ready [OF A B assms, of tC] hs show ?thesis
    using concat_chunks [OF assms(2), of d] chunks_bounds [of _ "mss cfgA" d] by (auto simp: list_all_iff)
qed

theorem transfer_delivers_witness:
  "let cfg = connection_config_default \<lparr> mss := 2 \<rparr> in
   case handshake 0 1 2 3 7 (V4 1 2) (V4 3 4) cfg cfg of None \<Rightarrow> False | Some (A, B) \<Rightarrow>
     (case transfer 5 6 7 [10, 11, 12, 13, 14] A B of None \<Rightarrow> False | Some (A', B') \<Rightarrow>
        concat (cc_inbound B') = [10, 11, 12, 13, 14] \<and> sw_is_empty (cc_send_window A'))"
proof -
  let ?cfg = "connection_config_default \<lparr> mss := 2 \<rparr>"
  have h: "arq_config_ok (arq ?cfg)" "0 < mss ?cfg" "unat (window_size (arq ?cfg)) < 128" by code_simp+
  have l: "[10, 11, 12, 13, 14 :: u8] \<noteq> []" "length [10, 11, 12, 13, 14 :: u8] \<le> mss ?cfg * unat (window_size (arq ?cfg))"
    "(5 :: nat) - 2 \<le> from_secs 300" "(6 :: nat) - 3 \<le> from_secs 300" by code_simp+
  from transfer_delivers [OF h l, where cid = 7 and addrA = "V4 1 2" and addrB = "V4 3 4" and cfgB = ?cfg
      and tC = 7 and ?t1.0 = 0 and ?t2.0 = 1] show ?thesis
    by (auto simp: Let_def split: option.splits prod.splits)
qed

text \<open>(C23) Sending: on an open connection the data is cut into segments of at most the maximum segment
  size whose concatenation is the data; as many of them as the window takes are queued with
  consecutive sequence numbers, and the call succeeds exactly when all of them were.\<close>

theorem send_fragments:
  assumes "sm_can_send_data (cc_machine c)" and "0 < mss (cc_config c)"
  shows "case cc_send now d c of (r, c') \<Rightarrow>
     (let ks = chunks (mss (cc_config c)) d;
          new = map2 (\<lambda>s k. packet_data (cc_connection_id c) s (rw_cumulative_ack (cc_receive_window c)) k)
            (seqs_from (cc_local_seq c) (min (length ks) (cc_free c))) (take (cc_free c) ks)
      in cc_outbound c' = cc_outbound c @ new
         \<and> sw_len (cc_send_window c') = sw_len (cc_send_window c) + length new
         \<and> r = (if length ks \<le> cc_free c then Inr () else Inl (Err SendBufferFull))
         \<and> concat ks = d \<and> list_all (\<lambda>k. k \<noteq> [] \<and> length k \<le> mss (cc_config c)) ks)"
  using assms concat_chunks [OF assms(2), of d] chunks_bounds [of _ "mss (cc_config c)" d]
  by (auto simp: cc_send_eq Let_def cc_queue_def sw_len_def sw_in_flight_def list_all_iff min_def)

theorem send_fragments_witness:
  "case cc_send 9 [1, 2, 3, 4, 5] (snd (cc_process_packet 2 (packet_control (header_ack 7 0 1))
       (snd (cc_accept 1 0 (cc_new_inbound_with_config 0 7 (V4 1 2) (connection_config_for_lora \<lparr> mss := 2 \<rparr>)))))) of
     (r, c') \<Rightarrow> r = Inl (Err SendBufferFull) \<and> map pk_payload (cc_outbound c') = [[1, 2], [3, 4]]"
proof -
  define c where "c = snd (cc_process_packet 2 (packet_control (header_ack 7 0 1))
       (snd (cc_accept 1 0 (cc_new_inbound_with_config 0 7 (V4 1 2) (connection_config_for_lora \<lparr> mss := 2 \<rparr>)))))"
  have h: "sm_can_send_data (cc_machine c)" "0 < mss (cc_config c)" unfolding c_def by code_simp+
  have v: "mss (cc_config c) = 2" "cc_free c = 2" "cc_outbound c = []" "chunks 2 [1, 2, 3, 4, 5 :: u8] = [[1, 2], [3, 4], [5]]"
    unfolding c_def by code_simp+
  have sq: "seqs_from x (Suc (Suc 0)) = [x, seq_next x]" for x
    by (simp add: seqs_from_Suc) (simp add: seqs_from_def)
  obtain r c' where "cc_send 9 [1, 2, 3, 4, 5] c = (r, c')" by fastforce
  with send_fragments [OF h, where now = 9 and d = "[1, 2, 3, 4, 5]"] show ?thesis
    unfolding c_def [symmetric] by (simp add: v sq Let_def)
qed

text \<open>(C22) Along every sequence of calls on a connection with ordered timer bounds: the unacknowledged
  packets never exceed the window, carry consecutive sequence numbers ending just before the next one
  to use, and every packet queued or handed out by a poll carries the connection's identifier and at
  most a segment of payload; processing a packet never fails.\<close>

theorem connection_invariant:
  assumes "arq_config_ok (arq cfg)" and "reachable (cc_init cfg) cc_step c"
  shows "sw_len (cc_send_window c) \<le> unat (window_size (arq cfg))
    \<and> seqs_before (cc_local_seq c) (map se_seq (sw_unacked (cc_send_window c)))
    \<and> list_all (\<lambda>p. hd_connection_id (pk_header p) = cc_connection_id c \<and> length (pk_payload p) \<le> mss cfg)
        (fst (cc_poll now c) @ cc_outbound c)
    \<and> fst (cc_process_packet now p c) = Inr ()"
proof -
  have inv: "cc_inv c" and cfg: "cc_config c = cfg" using cc_reachable_inv [OF assms] by simp_all
  have "list_all (packet_ok c) (fst (cc_poll now c))"
    using cc_poll_inv [OF inv] by (metis prod.collapse)
  then show ?thesis
    using inv cfg cc_process_packet_total [OF inv, of now p] assms(1)
    by (auto simp: cc_inv_def packet_ok_def [abs_def] sw_len_def sw_in_flight_def)
qed

theorem connection_invariant_witness:
  "\<exists>c. reachable (cc_init connection_config_default) cc_step c \<and> cc_state c = SynSent
     \<and> sw_len (cc_send_window c) \<le> 8 \<and> fst (cc_process_packet 5 (packet_control (header_syn_ack 7 1)) c) = Inr ()"
proof -
  let ?c = "snd (cc_initiate 3 (cc_new 0 7 (V4 1 2) connection_config_default True))"
  have ok: "arq_config_ok (arq connection_config_default)" by code_simp
  have "reachable (cc_init connection_config_default) cc_step (cc_new 0 7 (V4 1 2) connection_config_default True)"
    by (rule reach_init) blast
  then have r: "reachable (cc_init connection_config_default) cc_step ?c"
    by (rule reach_step) (rule cc_step.intros(1), rule surjective_pairing)
  moreover have "cc_state ?c = SynSent" "unat (window_size (arq connection_config_default)) = 8" by code_simp+
  ultimately show ?thesis using connection_invariant [OF ok r, where now = 5 and p = "packet_control (header_syn_ack 7 1)"] by auto
qed

end
