(* ===== verification/Constrained_Engine.thy ===== *)
theory Constrained_Engine
  imports Constrained_Connection "HOL-Library.AList"
begin

text \<open>
  The engine of the constrained protocol (\<^verbatim>\<open>src/src/constrained/engine.rs\<close>): a table of connections
  by identifier, a table from remote addresses to identifiers, and the calls that move bytes in and
  out.  A \<^verbatim>\<open>HashMap\<close> is an association list with distinct keys; its order stands for the
  unspecified iteration order, which matters only for the order of the packets that
  \<^verbatim>\<open>poll\<close> returns and of the events it records.
\<close>

section \<open>Configuration and state\<close>

record engine_config =
  max_connections :: nat
  connection_config :: connection_config
  poll_interval :: duration
  enable_connection_reuse :: bool

definition engine_config_default :: engine_config where
  "engine_config_default = \<lparr> max_connections = 8, connection_config = connection_config_default,
     poll_interval = from_millis 100, enable_connection_reuse = True \<rparr>"

definition engine_config_for_ble :: engine_config where
  "engine_config_for_ble = \<lparr> max_connections = 4, connection_config = connection_config_for_ble,
     poll_interval = from_millis 50, enable_connection_reuse = True \<rparr>"

definition engine_config_for_lora :: engine_config where
  "engine_config_for_lora = \<lparr> max_connections = 2, connection_config = connection_config_for_lora,
     poll_interval = from_millis 500, enable_connection_reuse = True \<rparr>"

datatype engine_event =
    ConnectionAccepted connection_id socket_addr
  | ConnectionEstablished connection_id
  | EngineDataReceived connection_id bytes
  | EngineConnectionClosed connection_id
  | EngineConnectionError connection_id string
  | EngineTransmit socket_addr bytes

record constrained_engine =
  en_config :: engine_config
  en_connections :: "(connection_id \<times> constrained_connection) list"
  en_addr_to_conn :: "(socket_addr \<times> connection_id) list"
  en_events :: "engine_event list"
  en_next_conn_id :: u16
  en_last_poll :: instant

definition engine_new :: "instant \<Rightarrow> engine_config \<Rightarrow> constrained_engine" where
  "engine_new now cfg = \<lparr> en_config = cfg, en_connections = [], en_addr_to_conn = [], en_events = [],
     en_next_conn_id = 1, en_last_poll = now \<rparr>"

definition engine_with_defaults :: "instant \<Rightarrow> constrained_engine" where
  "engine_with_defaults now = engine_new now engine_config_default"

definition connection_count :: "constrained_engine \<Rightarrow> nat" where
  "connection_count e = length (en_connections e)"

definition can_accept_connection :: "constrained_engine \<Rightarrow> bool" where
  "can_accept_connection e \<longleftrightarrow> length (en_connections e) < max_connections (en_config e)"

section \<open>Operations\<close>

type_synonym 'a engine_op = "(constrained_engine, constrained_error failure, 'a) op"
type_synonym datagrams = "(socket_addr \<times> bytes) list"

definition generate_conn_id :: "constrained_engine \<Rightarrow> connection_id \<times> constrained_engine" where
  "generate_conn_id e =
     (let i = en_next_conn_id e; n = en_next_conn_id e + 1
      in (i, e \<lparr> en_next_conn_id := (if n = 0 then 1 else n) \<rparr>))"

definition engine_insert ::
  "connection_id \<Rightarrow> constrained_connection \<Rightarrow> socket_addr \<Rightarrow> constrained_engine \<Rightarrow> constrained_engine" where
  "engine_insert cid c addr e = e \<lparr> en_connections := AList.update cid c (en_connections e),
     en_addr_to_conn := AList.update addr cid (en_addr_to_conn e) \<rparr>"

definition engine_connect :: "instant \<Rightarrow> socket_addr \<Rightarrow> (connection_id \<times> bytes) engine_op" where
  "engine_connect now addr e =
     (if \<not> can_accept_connection e then (Inl (Err SendBufferFull), e)
      else (case map_of (en_addr_to_conn e) addr of
          Some cid \<Rightarrow> (Inl (Err (ConnectionExists cid)), e)
        | None \<Rightarrow>
            let (cid, e1) = generate_conn_id e;
                c = cc_new_outbound_with_config now cid addr (connection_config (en_config e1))
            in (case cc_initiate now c of
                  (Inl err, _) \<Rightarrow> (Inl err, e1)
                | (Inr syn, c1) \<Rightarrow> (Inr (cid, packet_to_bytes syn), engine_insert cid c1 addr e1))))"

text \<open>What becomes of an event of a connection: an event of the engine, or bytes to send.\<close>

fun engine_event_of :: "connection_id \<Rightarrow> connection_event \<Rightarrow> engine_event list" where
  "engine_event_of cid Connected = [ConnectionEstablished cid]"
| "engine_event_of cid (DataReceived _) = []"
| "engine_event_of cid EventClosed = [EngineConnectionClosed cid]"
| "engine_event_of cid EventReset = [EngineConnectionClosed cid]"
| "engine_event_of cid (EventError err) = [EngineConnectionError cid err]"
| "engine_event_of cid (EventTransmit _) = []"

fun transmit_of :: "connection_event \<Rightarrow> bytes list" where
  "transmit_of (EventTransmit d) = [d]"
| "transmit_of _ = []"

definition engine_put :: "connection_id \<Rightarrow> constrained_connection \<Rightarrow> constrained_engine \<Rightarrow> constrained_engine" where
  "engine_put cid c e = e \<lparr> en_connections := AList.update cid c (en_connections e) \<rparr>"

definition engine_existing ::
  "instant \<Rightarrow> socket_addr \<Rightarrow> constrained_packet \<Rightarrow> constrained_connection \<Rightarrow> datagrams engine_op" where
  "engine_existing now addr packet c e =
     (let cid = hd_connection_id (pk_header packet) in
      case cc_process_packet now packet c of
        (Inl err, c1) \<Rightarrow> (Inl err, engine_put cid c1 e)
      | (Inr _, c1) \<Rightarrow>
          let events = cc_events c1;
              c2 = c1 \<lparr> cc_events := [] \<rparr>;
              (packets, c3) = cc_poll now c2
          in (Inr (map (Pair addr) (concat (map transmit_of events))
                   @ map (\<lambda>p. (addr, packet_to_bytes p)) packets),
              (engine_put cid c3 e) \<lparr> en_events := en_events e @ concat (map (engine_event_of cid) events) \<rparr>))"

definition engine_accept :: "instant \<Rightarrow> socket_addr \<Rightarrow> constrained_header \<Rightarrow> datagrams engine_op" where
  "engine_accept now addr header e =
     (let cid = hd_connection_id header in
      if \<not> can_accept_connection e
      then (Inr [(addr, packet_to_bytes (packet_control (header_reset cid)))], e)
      else
        let c = cc_new_inbound_with_config now cid addr (connection_config (en_config e)) in
        (case cc_accept now (hd_seq header) c of
           (Inl err, _) \<Rightarrow> (Inl err, e)
         | (Inr syn_ack, c1) \<Rightarrow>
             (Inr [(addr, packet_to_bytes syn_ack)],
              (engine_insert cid c1 addr e) \<lparr> en_events := en_events e @ [ConnectionAccepted cid addr] \<rparr>)))"

definition process_incoming :: "instant \<Rightarrow> socket_addr \<Rightarrow> bytes \<Rightarrow> datagrams engine_op" where
  "process_incoming now addr d e = (case packet_from_bytes d of
      Inl err \<Rightarrow> (Inl (Err err), e)
    | Inr packet \<Rightarrow>
        let header = pk_header packet in
        (case map_of (en_connections e) (hd_connection_id header) of
           Some c \<Rightarrow> engine_existing now addr packet c e
         | None \<Rightarrow>
             if header_is_syn header \<and> \<not> header_is_ack header then engine_accept now addr header e
             else (Inr [], e)))"

definition engine_send :: "instant \<Rightarrow> connection_id \<Rightarrow> bytes \<Rightarrow> datagrams engine_op" where
  "engine_send now cid d e = (case map_of (en_connections e) cid of
      None \<Rightarrow> (Inl (Err (ConnectionNotFound cid)), e)
    | Some c \<Rightarrow>
        (case cc_send now d c of
           (Inl err, c1) \<Rightarrow> (Inl err, engine_put cid c1 e)
         | (Inr _, c1) \<Rightarrow>
             let addr = cc_remote_addr c1; (packets, c2) = cc_poll now c1
             in (Inr (map (\<lambda>p. (addr, packet_to_bytes p)) packets), engine_put cid c2 e)))"

definition engine_recv :: "connection_id \<Rightarrow> constrained_engine \<Rightarrow> bytes option \<times> constrained_engine" where
  "engine_recv cid e = (case map_of (en_connections e) cid of
      None \<Rightarrow> (None, e)
    | Some c \<Rightarrow> let (r, c1) = cc_recv c in (r, engine_put cid c1 e))"

definition engine_close :: "instant \<Rightarrow> connection_id \<Rightarrow> datagrams engine_op" where
  "engine_close now cid e = (case map_of (en_connections e) cid of
      None \<Rightarrow> (Inl (Err (ConnectionNotFound cid)), e)
    | Some c \<Rightarrow>
        (case cc_close now c of
           (Inl err, c1) \<Rightarrow> (Inl err, engine_put cid c1 e)
         | (Inr fin, c1) \<Rightarrow> (Inr [(cc_remote_addr c1, packet_to_bytes fin)], engine_put cid c1 e)))"

definition engine_reset :: "instant \<Rightarrow> connection_id \<Rightarrow> datagrams engine_op" where
  "engine_reset now cid e = (case map_of (en_connections e) cid of
      None \<Rightarrow> (Inl (Err (ConnectionNotFound cid)), e)
    | Some c \<Rightarrow>
        let (rst, c1) = cc_reset now c in
        (Inr [(cc_remote_addr c1, packet_to_bytes rst)],
         e \<lparr> en_connections := AList.delete cid (en_connections e),
             en_addr_to_conn := filter (\<lambda>(_, i). i \<noteq> cid) (en_addr_to_conn e) \<rparr>))"

subsection \<open>Polling\<close>

fun poll_event_of :: "connection_id \<Rightarrow> connection_event \<Rightarrow> engine_event list" where
  "poll_event_of cid EventClosed = [EngineConnectionClosed cid]"
| "poll_event_of cid EventReset = [EngineConnectionClosed cid]"
| "poll_event_of cid (EventError err) = [EngineConnectionError cid err]"
| "poll_event_of cid _ = []"

text \<open>One connection of the loop in \<^verbatim>\<open>poll\<close>: its packets, its events for the engine, and whether it is
  put on the list of connections to remove.\<close>

definition engine_poll_one :: "instant \<Rightarrow> connection_id \<Rightarrow> constrained_connection
    \<Rightarrow> datagrams \<times> engine_event list \<times> bool \<times> constrained_connection" where
  "engine_poll_one now cid c =
     (let (packets, c1) = cc_poll now c;
          events = concat (map (poll_event_of cid) (cc_events c1));
          c2 = c1 \<lparr> cc_events := [] \<rparr>
      in (map (\<lambda>p. (cc_remote_addr c1, packet_to_bytes p)) packets, events,
          events \<noteq> [] \<or> cc_is_closed c2, c2))"

fun engine_poll_all :: "instant \<Rightarrow> (connection_id \<times> constrained_connection) list
    \<Rightarrow> datagrams \<times> engine_event list \<times> connection_id list \<times> (connection_id \<times> constrained_connection) list" where
  "engine_poll_all now [] = ([], [], [], [])"
| "engine_poll_all now ((cid, c) # cs) =
     (let (ps, evs, gone, c1) = engine_poll_one now cid c;
          (ps', evs', rem', cs') = engine_poll_all now cs
      in (ps @ ps', evs @ evs', (if gone then [cid] else []) @ rem', (cid, c1) # cs'))"

fun engine_remove_all :: "connection_id list \<Rightarrow> constrained_engine \<Rightarrow> constrained_engine" where
  "engine_remove_all [] e = e"
| "engine_remove_all (cid # cids) e = engine_remove_all cids
     (case map_of (en_connections e) cid of
        None \<Rightarrow> e
      | Some c \<Rightarrow> e \<lparr> en_connections := AList.delete cid (en_connections e),
                      en_addr_to_conn := AList.delete (cc_remote_addr c) (en_addr_to_conn e) \<rparr>)"

definition engine_poll :: "instant \<Rightarrow> constrained_engine \<Rightarrow> datagrams \<times> constrained_engine" where
  "engine_poll now e =
     (if now - en_last_poll e < poll_interval (en_config e) then ([], e)
      else
        let (responses, events, to_remove, cs) = engine_poll_all now (en_connections e)
        in (responses, engine_remove_all to_remove
              (e \<lparr> en_last_poll := now, en_connections := cs, en_events := en_events e @ events \<rparr>)))"

definition engine_next_event :: "constrained_engine \<Rightarrow> engine_event option \<times> constrained_engine" where
  "engine_next_event e = (case en_events e of [] \<Rightarrow> (None, e) | ev # evs \<Rightarrow> (Some ev, e \<lparr> en_events := evs \<rparr>))"

definition has_connection :: "connection_id \<Rightarrow> constrained_engine \<Rightarrow> bool" where
  "has_connection cid e \<longleftrightarrow> map_of (en_connections e) cid \<noteq> None"

definition connection_for_addr :: "socket_addr \<Rightarrow> constrained_engine \<Rightarrow> connection_id option" where
  "connection_for_addr addr e = map_of (en_addr_to_conn e) addr"

definition active_connections :: "constrained_engine \<Rightarrow> connection_id list" where
  "active_connections e = map fst (en_connections e)"

definition engine_connection_state :: "connection_id \<Rightarrow> constrained_engine \<Rightarrow> connection_state option" where
  "engine_connection_state cid e = map_option cc_state (map_of (en_connections e) cid)"

section \<open>The invariant of the engine\<close>

definition conn_ok :: "constrained_engine \<Rightarrow> connection_id \<times> constrained_connection \<Rightarrow> bool" where
  "conn_ok e p \<longleftrightarrow> cc_inv (snd p) \<and> cc_config (snd p) = connection_config (en_config e)
     \<and> cc_connection_id (snd p) = fst p"

definition engine_inv :: "constrained_engine \<Rightarrow> bool" where
  "engine_inv e \<longleftrightarrow> distinct (map fst (en_connections e)) \<and> distinct (map fst (en_addr_to_conn e))
     \<and> length (en_connections e) \<le> max_connections (en_config e)
     \<and> list_all (conn_ok e) (en_connections e) \<and> en_next_conn_id e \<noteq> 0"

lemma alist_update_set: "p \<in> set (AList.update k v al) \<Longrightarrow> p = (k, v) \<or> p \<in> set al"
  by (induction al) (auto split: if_splits)

lemma alist_update_length:
  "length (AList.update k v al) = (if k \<in> fst ` set al then length al else Suc (length al))"
proof -
  have "length (map fst (AList.update k v al)) = (if k \<in> fst ` set al then length al else Suc (length al))"
    by (auto simp: AList.update_keys)
  then show ?thesis by (simp only: length_map)
qed

lemma conn_ok_simps [simp]:
  "conn_ok (e \<lparr> en_connections := cs \<rparr>) = conn_ok e" "conn_ok (e \<lparr> en_addr_to_conn := as \<rparr>) = conn_ok e"
  "conn_ok (e \<lparr> en_events := evs \<rparr>) = conn_ok e" "conn_ok (e \<lparr> en_next_conn_id := i \<rparr>) = conn_ok e"
  "conn_ok (e \<lparr> en_last_poll := t \<rparr>) = conn_ok e"
  by (simp_all add: conn_ok_def [abs_def])

lemma engine_inv_lookup: "engine_inv e \<Longrightarrow> map_of (en_connections e) cid = Some c \<Longrightarrow> conn_ok e (cid, c)"
  by (auto simp: engine_inv_def list_all_iff dest: map_of_SomeD)

lemma engine_inv_events [simp]: "engine_inv (e \<lparr> en_events := evs \<rparr>) = engine_inv e"
  by (simp add: engine_inv_def)

lemma conn_ok_ident: "conn_ok e (cid, c) \<Longrightarrow> cc_inv c' \<Longrightarrow> cc_ident c' = cc_ident c \<Longrightarrow> conn_ok e (cid, c')"
  by (simp add: conn_ok_def cc_ident_def)

lemma engine_inv_put:
  assumes "engine_inv e" and "map_of (en_connections e) cid = Some c" and "conn_ok e (cid, c')"
  shows "engine_inv (engine_put cid c' e)"
proof -
  have "cid \<in> fst ` set (en_connections e)" using assms(2) by (force dest: map_of_SomeD)
  moreover have "list_all (conn_ok e) (AList.update cid c' (en_connections e))"
    using assms by (auto simp: engine_inv_def list_all_iff dest: alist_update_set)
  ultimately show ?thesis
    using assms(1) by (auto simp: engine_inv_def engine_put_def AList.distinct_update alist_update_length)
qed

lemma engine_inv_insert:
  assumes "engine_inv e" and "can_accept_connection e" and "conn_ok e (cid, c)"
  shows "engine_inv (engine_insert cid c addr e)"
proof -
  have "list_all (conn_ok e) (AList.update cid c (en_connections e))"
    using assms by (auto simp: engine_inv_def list_all_iff dest: alist_update_set)
  then show ?thesis
    using assms(1,2)
    by (auto simp: engine_inv_def engine_insert_def can_accept_connection_def AList.distinct_update alist_update_length)
qed

lemma engine_inv_new: "engine_inv (engine_new now cfg)"
  by (simp add: engine_inv_def engine_new_def)

lemma generate_conn_id_inv:
  assumes "engine_inv e" and "generate_conn_id e = (cid, e')"
  shows "engine_inv e' \<and> cid \<noteq> 0 \<and> en_config e' = en_config e \<and> en_connections e' = en_connections e"
  using assms by (auto simp: generate_conn_id_def Let_def engine_inv_def split: if_splits)

lemma conn_ok_new:
  "conn_ok e (cid, cc_new_outbound_with_config now cid addr (connection_config (en_config e)))"
  "conn_ok e (cid, cc_new_inbound_with_config now cid addr (connection_config (en_config e)))"
  by (simp_all add: conn_ok_def cc_new_outbound_with_config_def cc_new_inbound_with_config_def cc_inv_new)
    (simp_all add: cc_new_def)

lemma cc_initiate_new:
  "\<exists>p c. cc_initiate now (cc_new_outbound_with_config now cid addr cfg) = (Inr p, c)"
  by (simp add: cc_initiate_def cc_new_outbound_with_config_def cc_new_def cc_transition_def transition_def
      sm_new_def op_bind_def)

lemma cc_accept_new:
  "\<exists>p c. cc_accept now s (cc_new_inbound_with_config now cid addr cfg) = (Inr p, c)"
  by (simp add: cc_accept_def cc_new_inbound_with_config_def cc_new_def cc_transition_def transition_def
      sm_new_def op_bind_def)

lemma engine_connect_inv:
  assumes inv: "engine_inv e" and con: "engine_connect now addr e = (r, e')"
  shows "engine_inv e' \<and> en_config e' = en_config e"
proof (cases "can_accept_connection e \<and> map_of (en_addr_to_conn e) addr = None")
  case False
  then show ?thesis using con inv by (auto simp: engine_connect_def split: if_splits option.splits)
next
  case True
  obtain cid e1 where g: "generate_conn_id e = (cid, e1)" by fastforce
  note e1 = generate_conn_id_inv [OF inv g]
  let ?c = "cc_new_outbound_with_config now cid addr (connection_config (en_config e1))"
  obtain p c1 where i: "cc_initiate now ?c = (Inr p, c1)" using cc_initiate_new by blast
  have ok: "conn_ok e1 (cid, ?c)" by (rule conn_ok_new)
  then have "conn_ok e1 (cid, c1)"
    using cc_initiate_inv [OF _ i] conn_ok_ident [OF ok] by (simp add: conn_ok_def)
  moreover have "can_accept_connection e1" using True e1 by (simp add: can_accept_connection_def)
  ultimately have "engine_inv (engine_insert cid c1 addr e1)" using e1 engine_inv_insert by blast
  then show ?thesis using con True g i e1 by (auto simp: engine_connect_def engine_insert_def)
qed

lemma engine_existing_ok:
  assumes inv: "engine_inv e" and ok: "arq_config_ok (arq (connection_config (en_config e)))"
    and c: "map_of (en_connections e) (hd_connection_id (pk_header p)) = Some c"
  shows "\<exists>rs c' evs. engine_existing now addr p c e =
      (Inr rs, (engine_put (hd_connection_id (pk_header p)) c' e) \<lparr> en_events := evs \<rparr>)
    \<and> conn_ok e (hd_connection_id (pk_header p), c')"
proof -
  let ?cid = "hd_connection_id (pk_header p)"
  have c_ok: "conn_ok e (?cid, c)" using inv c by (rule engine_inv_lookup)
  then have "arq_config_ok (arq (cc_config c))" "cc_inv c" using ok by (simp_all add: conn_ok_def)
  then obtain c1 where c1: "cc_process_packet now p c = (Inr (), c1)" "cc_inv c1" "cc_ident c1 = cc_ident c"
    using cc_process_packet_total by blast
  obtain ps c2 where poll: "cc_poll now (c1 \<lparr> cc_events := [] \<rparr>) = (ps, c2)" by fastforce
  have "cc_inv c2 \<and> cc_ident c2 = cc_ident c" using cc_poll_inv [OF _ poll] c1 by simp
  then have "conn_ok e (?cid, c2)" using conn_ok_ident [OF c_ok] by blast
  then show ?thesis using c1(1) poll by (auto simp: engine_existing_def Let_def)
qed

lemma engine_accept_ok:
  assumes inv: "engine_inv e"
  shows "\<exists>rs e'. engine_accept now addr h e = (Inr rs, e') \<and> engine_inv e' \<and> en_config e' = en_config e"
proof (cases "can_accept_connection e")
  case False
  then show ?thesis using inv by (simp add: engine_accept_def)
next
  case True
  let ?cid = "hd_connection_id h"
  let ?c = "cc_new_inbound_with_config now ?cid addr (connection_config (en_config e))"
  obtain p c1 where a: "cc_accept now (hd_seq h) ?c = (Inr p, c1)" using cc_accept_new by blast
  have ok: "conn_ok e (?cid, ?c)" by (rule conn_ok_new)
  then have "conn_ok e (?cid, c1)"
    using cc_accept_inv [OF _ a] conn_ok_ident [OF ok] by (simp add: conn_ok_def)
  then have "engine_inv (engine_insert ?cid c1 addr e)" using inv True engine_inv_insert by blast
  then show ?thesis using True a by (simp add: engine_accept_def Let_def) (simp add: engine_insert_def)
qed

lemma process_incoming_inv:
  assumes inv: "engine_inv e" and ok: "arq_config_ok (arq (connection_config (en_config e)))"
  shows "\<exists>r e'. process_incoming now addr d e = (r, e') \<and> engine_inv e' \<and> en_config e' = en_config e
    \<and> (if length d < HEADER_SIZE then r = Inl (Err (PacketTooSmall HEADER_SIZE (length d))) \<and> e' = e else \<exists>rs. r = Inr rs)"
proof (cases "length d < HEADER_SIZE")
  case True
  then show ?thesis using inv by (simp add: process_incoming_def packet_from_bytes_def header_from_bytes_def)
next
  case False
  then obtain p where p: "packet_from_bytes d = Inr p" using packet_to_from_bytes [of d] by auto
  show ?thesis
  proof (cases "map_of (en_connections e) (hd_connection_id (pk_header p))")
    case None
    then show ?thesis using p False inv engine_accept_ok [OF inv, of now addr "pk_header p"]
      by (auto simp: process_incoming_def Let_def)
  next
    case (Some c)
    from engine_existing_ok [OF inv ok Some, of now addr] obtain rs c' evs where
      x: "engine_existing now addr p c e = (Inr rs, (engine_put (hd_connection_id (pk_header p)) c' e) \<lparr> en_events := evs \<rparr>)"
      "conn_ok e (hd_connection_id (pk_header p), c')" by blast
    then show ?thesis using p False Some engine_inv_put [OF inv Some x(2)]
      by (auto simp: process_incoming_def Let_def) (simp add: engine_put_def)
  qed
qed

lemma engine_send_inv:
  assumes inv: "engine_inv e" and snd: "engine_send now cid d e = (r, e')"
  shows "engine_inv e' \<and> en_config e' = en_config e"
proof (cases "map_of (en_connections e) cid")
  case (Some c)
  have c: "conn_ok e (cid, c)" using inv Some by (rule engine_inv_lookup)
  obtain r1 c1 where s: "cc_send now d c = (r1, c1)" by fastforce
  obtain ps c2 where p: "cc_poll now c1 = (ps, c2)" by fastforce
  have c1: "cc_inv c1 \<and> cc_ident c1 = cc_ident c" using cc_inv_send [OF _ s] c by (simp add: conn_ok_def)
  have c2: "cc_inv c2 \<and> cc_ident c2 = cc_ident c" using cc_poll_inv [OF _ p] c1 by simp
  have "engine_inv (engine_put cid c1 e)" "engine_inv (engine_put cid c2 e)"
    using engine_inv_put [OF inv Some] conn_ok_ident [OF c] c1 c2 by blast+
  then show ?thesis using snd Some s p by (cases r1) (auto simp: engine_send_def engine_put_def)
qed (use inv snd in \<open>simp add: engine_send_def\<close>)

lemma engine_recv_inv:
  assumes inv: "engine_inv e" and rcv: "engine_recv cid e = (r, e')"
  shows "engine_inv e' \<and> en_config e' = en_config e"
proof (cases "map_of (en_connections e) cid")
  case (Some c)
  have c: "conn_ok e (cid, c)" using inv Some by (rule engine_inv_lookup)
  obtain r1 c1 where s: "cc_recv c = (r1, c1)" by fastforce
  have "cc_inv c1 \<and> cc_ident c1 = cc_ident c" using s c by (auto simp: cc_recv_def conn_ok_def split: list.splits)
  then have "engine_inv (engine_put cid c1 e)" using engine_inv_put [OF inv Some] conn_ok_ident [OF c] by blast
  then show ?thesis using rcv Some s by (auto simp: engine_recv_def engine_put_def)
qed (use inv rcv in \<open>simp add: engine_recv_def\<close>)

lemma engine_close_inv:
  assumes inv: "engine_inv e" and cls: "engine_close now cid e = (r, e')"
  shows "engine_inv e' \<and> en_config e' = en_config e"
proof (cases "map_of (en_connections e) cid")
  case (Some c)
  have c: "conn_ok e (cid, c)" using inv Some by (rule engine_inv_lookup)
  obtain r1 c1 where s: "cc_close now c = (r1, c1)" by fastforce
  have "cc_inv c1 \<and> cc_ident c1 = cc_ident c" using cc_close_inv [OF _ s] c by (simp add: conn_ok_def)
  then have "engine_inv (engine_put cid c1 e)" using engine_inv_put [OF inv Some] conn_ok_ident [OF c] by blast
  then show ?thesis using cls Some s by (cases r1) (auto simp: engine_close_def engine_put_def)
qed (use inv cls in \<open>simp add: engine_close_def\<close>)

lemma engine_inv_delete:
  assumes "engine_inv e" and "distinct (map fst as)"
  shows "engine_inv (e \<lparr> en_connections := AList.delete cid (en_connections e), en_addr_to_conn := as \<rparr>)"
proof -
  have "length (AList.delete cid (en_connections e)) \<le> length (en_connections e)" by (rule AList.length_delete_le)
  moreover have "list_all (conn_ok e) (AList.delete cid (en_connections e))"
    using assms(1) by (auto simp: engine_inv_def list_all_iff AList.delete_eq)
  ultimately show ?thesis using assms by (auto simp: engine_inv_def AList.distinct_delete)
qed

lemma engine_reset_inv:
  assumes inv: "engine_inv e" and rst: "engine_reset now cid e = (r, e')"
  shows "engine_inv e' \<and> en_config e' = en_config e"
proof (cases "map_of (en_connections e) cid")
  case (Some c)
  have "distinct (map fst (filter (\<lambda>(_, i). i \<noteq> cid) (en_addr_to_conn e)))"
    using inv by (simp add: engine_inv_def distinct_map_filter)
  then show ?thesis using rst Some engine_inv_delete [OF inv]
    by (auto simp: engine_reset_def cc_reset_def)
qed (use inv rst in \<open>simp add: engine_reset_def\<close>)

lemma engine_poll_all_ok:
  assumes "list_all (conn_ok e) cs" and "engine_poll_all now cs = (ps, evs, gone, cs')"
  shows "map fst cs' = map fst cs \<and> list_all (conn_ok e) cs'"
  using assms
proof (induction cs arbitrary: ps evs gone cs')
  case (Cons x cs)
  obtain cid c where x: "x = (cid, c)" by fastforce
  obtain packets c1 where p: "cc_poll now c = (packets, c1)" by fastforce
  obtain ps1 evs1 gone1 cs1 where r: "engine_poll_all now cs = (ps1, evs1, gone1, cs1)" by (metis prod_cases4)
  have "conn_ok e (cid, c)" using Cons.prems(1) x by simp
  moreover from this have "cc_inv c1 \<and> cc_ident c1 = cc_ident c" using cc_poll_inv [OF _ p] by (simp add: conn_ok_def)
  ultimately have "conn_ok e (cid, c1 \<lparr> cc_events := [] \<rparr>)" using conn_ok_ident [of e cid c] by simp
  then show ?case
    using Cons.IH [OF _ r] Cons.prems x p r by (auto simp: engine_poll_one_def Let_def)
qed simp

lemma engine_remove_all_inv:
  "engine_inv e \<Longrightarrow> engine_inv (engine_remove_all cids e) \<and> en_config (engine_remove_all cids e) = en_config e"
proof (induction cids arbitrary: e)
  case (Cons cid cids)
  show ?case
  proof (cases "map_of (en_connections e) cid")
    case None
    then show ?thesis using Cons by simp
  next
    case (Some c)
    have "distinct (map fst (AList.delete (cc_remote_addr c) (en_addr_to_conn e)))"
      using Cons.prems by (simp add: engine_inv_def AList.distinct_delete)
    from Cons.IH [OF engine_inv_delete [OF Cons.prems this]] Some show ?thesis by simp
  qed
qed simp

lemma engine_poll_inv:
  assumes inv: "engine_inv e" and poll: "engine_poll now e = (ps, e')"
  shows "engine_inv e' \<and> en_config e' = en_config e"
proof (cases "now - en_last_poll e < poll_interval (en_config e)")
  case True
  then show ?thesis using inv poll by (simp add: engine_poll_def)
next
  case False
  obtain rs evs gone cs where a: "engine_poll_all now (en_connections e) = (rs, evs, gone, cs)" by (metis prod_cases4)
  let ?e = "e \<lparr> en_last_poll := now, en_connections := cs, en_events := en_events e @ evs \<rparr>"
  have cs: "map fst cs = map fst (en_connections e)" "list_all (conn_ok e) cs"
    using engine_poll_all_ok [OF _ a, of e] inv by (simp_all add: engine_inv_def)
  have "length cs = length (en_connections e)" using cs(1) by (metis length_map)
  then have "engine_inv ?e" using inv cs by (simp add: engine_inv_def)
  then show ?thesis using engine_remove_all_inv [of ?e gone] poll False a by (auto simp: engine_poll_def)
qed

section \<open>Reachable engines\<close>

inductive engine_step :: "constrained_engine \<Rightarrow> instant \<Rightarrow> constrained_engine \<Rightarrow> bool" where
  "engine_connect now addr e = (r, e') \<Longrightarrow> engine_step e now e'"
| "process_incoming now addr d e = (r', e') \<Longrightarrow> engine_step e now e'"
| "engine_send now cid d e = (r', e') \<Longrightarrow> engine_step e now e'"
| "engine_recv cid e = (x, e') \<Longrightarrow> engine_step e now e'"
| "engine_close now cid e = (r', e') \<Longrightarrow> engine_step e now e'"
| "engine_reset now cid e = (r', e') \<Longrightarrow> engine_step e now e'"
| "engine_poll now e = (ps, e') \<Longrightarrow> engine_step e now e'"
| "engine_next_event e = (ev, e') \<Longrightarrow> engine_step e now e'"

abbreviation engine_init :: "engine_config \<Rightarrow> constrained_engine \<Rightarrow> bool" where
  "engine_init cfg e \<equiv> \<exists>now. e = engine_new now cfg"

lemma engine_step_inv [step_inv]:
  assumes "arq_config_ok (arq (connection_config (en_config e)))" and "engine_inv e" and "engine_step e now e'"
  shows "engine_inv e' \<and> en_config e' = en_config e"
  using assms(3)
proof cases
  case 1 then show ?thesis using engine_connect_inv [OF assms(2)] by blast
next
  case (2 addr d r') then show ?thesis using process_incoming_inv [OF assms(2,1), of now addr d] by auto
next
  case 3 then show ?thesis using engine_send_inv [OF assms(2)] by blast
next
  case 4 then show ?thesis using engine_recv_inv [OF assms(2)] by blast
next
  case 5 then show ?thesis using engine_close_inv [OF assms(2)] by blast
next
  case 6 then show ?thesis using engine_reset_inv [OF assms(2)] by blast
next
  case 7 then show ?thesis using engine_poll_inv [OF assms(2)] by blast
next
  case 8 then show ?thesis using assms(2) by (auto simp: engine_next_event_def split: list.splits)
qed

lemma engine_reachable_inv:
  assumes "arq_config_ok (arq (connection_config cfg))" and "reachable (engine_init cfg) engine_step e"
  shows "engine_inv e \<and> en_config e = cfg"
  using assms(2)
proof (rule reachable_invariant)
  show "\<And>s. engine_init cfg s \<Longrightarrow> engine_inv s \<and> en_config s = cfg"
    by (auto simp: engine_inv_new) (simp add: engine_new_def)
qed (use engine_step_inv assms(1) in blast)

section \<open>Two engines\<close>

text \<open>Feeding datagrams from one address to an engine, and reading everything a connection holds.\<close>

fun process_datagrams :: "instant \<Rightarrow> socket_addr \<Rightarrow> datagrams \<Rightarrow> constrained_engine \<Rightarrow> datagrams \<times> constrained_engine" where
  "process_datagrams now from [] e = ([], e)"
| "process_datagrams now from ((_, d) # ds) e =
     (case process_incoming now from d e of
        (Inl _, e1) \<Rightarrow> process_datagrams now from ds e1
      | (Inr rs, e1) \<Rightarrow> let (rs', e2) = process_datagrams now from ds e1 in (rs @ rs', e2))"

definition engine_inbound :: "connection_id \<Rightarrow> constrained_engine \<Rightarrow> bytes list" where
  "engine_inbound cid e = (case map_of (en_connections e) cid of None \<Rightarrow> [] | Some c \<Rightarrow> cc_inbound c)"

text \<open>Two fresh engines at addresses \<open>a\<close> and \<open>b\<close>: \<open>a\<close> connects to \<open>b\<close>, the datagrams of the handshake are
  carried across, then \<open>a\<close> sends one message.\<close>

definition engine_session :: "instant \<Rightarrow> instant \<Rightarrow> instant \<Rightarrow> instant \<Rightarrow> instant \<Rightarrow> instant \<Rightarrow> socket_addr \<Rightarrow> socket_addr
    \<Rightarrow> engine_config \<Rightarrow> engine_config \<Rightarrow> bytes \<Rightarrow> (connection_id \<times> constrained_engine \<times> constrained_engine) option" where
  "engine_session t1 t2 t3 t4 tA tB a b cfgA cfgB d =
     (case engine_connect t1 b (engine_new t1 cfgA) of
        (Inl _, _) \<Rightarrow> None
      | (Inr (cid, syn), A1) \<Rightarrow>
          let (r2, B1) = process_datagrams t2 a [(b, syn)] (engine_new t2 cfgB);
              (r3, A2) = process_datagrams t3 b r2 A1;
              (r4, B2) = process_datagrams t4 a r3 B1
          in (case engine_send tA cid d A2 of
                (Inl _, _) \<Rightarrow> None
              | (Inr ds, A3) \<Rightarrow>
                  let (acks, B3) = process_datagrams tB a ds B2 in Some (cid, A3, B3)))"

lemma process_incoming_packet:
  assumes "map_of (en_connections e) (hd_connection_id (pk_header p)) = Some c"
    and "cc_process_packet now p c = (Inr (), c1)" and "cc_poll now (c1 \<lparr> cc_events := [] \<rparr>) = (ps, c2)"
    and "concat (map transmit_of (cc_events c1)) = []"
  shows "\<exists>evs. process_incoming now addr (packet_to_bytes p) e = (Inr (map (\<lambda>p. (addr, packet_to_bytes p)) ps),
    (engine_put (hd_connection_id (pk_header p)) c2 e) \<lparr> en_events := evs \<rparr>)"
  using assms by (auto simp: process_incoming_def Let_def engine_existing_def)

lemma session_connect:
  assumes "0 < max_connections cfg"
  shows "\<exists>e. engine_connect t b (engine_new t cfg) = (Inr (1, packet_to_bytes (packet_control (header_syn 1))), e)
    \<and> en_connections e = [(1, hs_syn_sent t 1 b (connection_config cfg))]"
  using assms
  by (simp add: engine_connect_def can_accept_connection_def engine_new_def generate_conn_id_def Let_def hs_initiate
      engine_insert_def)

lemma session_accept:
  assumes "0 < max_connections cfg"
  shows "\<exists>e. process_incoming t a (packet_to_bytes (packet_control (header_syn 1))) (engine_new t cfg)
      = (Inr [(a, packet_to_bytes (packet_control (header_syn_ack 1 1)))], e)
    \<and> en_connections e = [(1, hs_syn_received t 1 a (connection_config cfg))]"
  using assms
  by (simp add: process_incoming_def engine_accept_def can_accept_connection_def engine_new_def Let_def hs_accept
      engine_insert_def header_kind)

lemma session_syn_ack:
  assumes "en_connections e = [(1, hs_syn_sent t 1 b cfg)]"
  shows "\<exists>e' A. process_incoming t' b (packet_to_bytes (packet_control (header_syn_ack 1 1))) e
      = (Inr [(b, packet_to_bytes (packet_control (header_ack 1 0 1)))], e')
    \<and> en_connections e' = [(1, A)] \<and> initiator_ready 1 cfg t' A"
proof -
  let ?p = "packet_control (header_syn_ack 1 1)"
  have lookup: "map_of (en_connections e) (hd_connection_id (pk_header ?p)) = Some (hs_syn_sent t 1 b cfg)"
    using assms by (simp add: header_kind)
  show ?thesis
    using process_incoming_packet [OF lookup hs_syn_ack [where t' = t'] hs_poll(1), where addr = b] assms hs_ready(1) [of 1 cfg t' "[]" t b]
    by (auto simp: header_kind engine_put_def)
qed

lemma session_ack:
  assumes "en_connections e = [(1, hs_syn_received t 1 a cfg)]"
  shows "\<exists>e' B. process_incoming t' a (packet_to_bytes (packet_control (header_ack 1 0 1))) e = (Inr [], e')
    \<and> en_connections e' = [(1, B)] \<and> responder_ready 1 cfg t' B \<and> cc_events B = []"
proof -
  let ?p = "packet_control (header_ack 1 0 1)"
  have lookup: "map_of (en_connections e) (hd_connection_id (pk_header ?p)) = Some (hs_syn_received t 1 a cfg)"
    using assms by (simp add: header_kind)
  show ?thesis
    using process_incoming_packet [OF lookup hs_ack [where t' = t'] hs_poll(2), where addr = a] assms hs_ready(2) [of 1 cfg t' "[]" t a]
    by (auto simp: header_kind engine_put_def)
qed

text \<open>An established connection with nothing in flight, about to receive packet \<open>s\<close>.\<close>

definition receiving :: "instant \<Rightarrow> sequence_number \<Rightarrow> constrained_connection \<Rightarrow> bool" where
  "receiving now s c \<longleftrightarrow> cc_state c = Established \<and> sw_unacked (cc_send_window c) = []
     \<and> rw_out_of_order (cc_receive_window c) = [] \<and> rw_next_expected (cc_receive_window c) = s
     \<and> cc_outbound c = [] \<and> cc_last_keepalive c = None \<and> now - sm_entered (cc_machine c) \<le> from_secs 300"

lemma process_incoming_data:
  assumes c: "map_of (en_connections e) cid = Some c" and ok: "receiving now s c" "k \<noteq> []"
    and ev: "concat (map transmit_of (cc_events c)) = []"
  shows "\<exists>e' rs c'. process_incoming now addr (packet_to_bytes (packet_data cid s a k)) e = (Inr rs, e')
    \<and> map_of (en_connections e') cid = Some c' \<and> receiving now (seq_next s) c' \<and> cc_events c' = []
    \<and> cc_inbound c' = cc_inbound c @ [k]"
proof -
  let ?p = "packet_data cid s a k"
  have lookup: "map_of (en_connections e) (hd_connection_id (pk_header ?p)) = Some c" using c by (simp add: header_kind)
  have c1: "cc_process_packet now ?p c = (Inr (), c \<lparr> cc_last_activity := now,
     cc_receive_window := (cc_receive_window c) \<lparr> rw_next_expected := seq_next s, rw_cumulative_ack := s \<rparr>,
     cc_inbound := cc_inbound c @ [k], cc_events := cc_events c @ [DataReceived []],
     cc_outbound := cc_outbound c @ [packet_control (header_ack (cc_connection_id c) (cc_local_seq c) s)] \<rparr>)"
    (is "_ = (_, ?c1)")
    using ok by (intro cc_process_data_packet) (simp_all add: receiving_def)
  let ?c2 = "?c1 \<lparr> cc_events := [] \<rparr>"
  have "cc_poll now ?c2 = (cc_outbound ?c2, ?c2 \<lparr> cc_outbound := [] \<rparr>)"
    using ok by (intro cc_poll_quiet sw_get_retransmissions_fresh)
      (simp_all add: receiving_def sm_is_timed_out_def sm_time_in_state_def cc_should_ping_def cc_state_def)
  from process_incoming_packet [OF lookup c1 this, where addr = addr] ev ok show ?thesis
    by (auto simp: header_kind engine_put_def AList.update_conv' receiving_def cc_state_def)
qed

lemma process_datagrams_data:
  assumes "map_of (en_connections e) cid = Some c" and "receiving now s c" and "\<forall>k\<in>set ks. k \<noteq> []"
    and "concat (map transmit_of (cc_events c)) = []"
  shows "\<exists>rs e' c'. process_datagrams now from (map (\<lambda>p. (addr, packet_to_bytes p))
      (map2 (\<lambda>s k. packet_data cid s a k) (seqs_from s (length ks)) ks)) e = (rs, e')
    \<and> map_of (en_connections e') cid = Some c' \<and> cc_inbound c' = cc_inbound c @ ks \<and> cc_state c' = Established"
  using assms
proof (induction ks arbitrary: e c s)
  case (Cons k ks)
  from process_incoming_data [OF Cons.prems(1,2) _ Cons.prems(4), of k "from" a] Cons.prems(3)
  obtain e1 rs1 c1 where s1: "process_incoming now from (packet_to_bytes (packet_data cid s a k)) e = (Inr rs1, e1)"
    "map_of (en_connections e1) cid = Some c1" "receiving now (seq_next s) c1" "cc_events c1 = []"
    "cc_inbound c1 = cc_inbound c @ [k]" by auto
  have "\<forall>k\<in>set ks. k \<noteq> []" "concat (map transmit_of (cc_events c1)) = []" using Cons.prems(3) s1(4) by simp_all
  from Cons.IH [OF s1(2,3) this] obtain rs e' c' where
    "process_datagrams now from (map (\<lambda>p. (addr, packet_to_bytes p))
      (map2 (\<lambda>s k. packet_data cid s a k) (seqs_from (seq_next s) (length ks)) ks)) e1 = (rs, e')"
    "map_of (en_connections e') cid = Some c'" "cc_inbound c' = cc_inbound c1 @ ks" "cc_state c' = Established" by blast
  then show ?case using s1 by (simp add: seqs_from_Suc)
qed (simp add: receiving_def)

lemma session_delivers:
  assumes conns: "0 < max_connections cfgA" "0 < max_connections cfgB"
    and mss: "0 < mss (connection_config cfgA)"
    and d: "length d \<le> mss (connection_config cfgA) * unat (window_size (arq (connection_config cfgA)))"
    and time: "tA - t3 \<le> from_secs 300" "tB - t4 \<le> from_secs 300"
  shows "\<exists>A B. engine_session t1 t2 t3 t4 tA tB a b cfgA cfgB d = Some (1, A, B)
    \<and> engine_inbound 1 B = chunks (mss (connection_config cfgA)) d
    \<and> engine_connection_state 1 A = Some Established \<and> engine_connection_state 1 B = Some Established"
proof -
  let ?ks = "chunks (mss (connection_config cfgA)) d"
  from session_connect [OF conns(1), of t1 b] obtain A1 where
    A1: "engine_connect t1 b (engine_new t1 cfgA) = (Inr (1, packet_to_bytes (packet_control (header_syn 1))), A1)"
      "en_connections A1 = [(1, hs_syn_sent t1 1 b (connection_config cfgA))]" by blast
  from session_accept [OF conns(2), of t2 a] obtain B1 where
    B1: "process_incoming t2 a (packet_to_bytes (packet_control (header_syn 1))) (engine_new t2 cfgB)
        = (Inr [(a, packet_to_bytes (packet_control (header_syn_ack 1 1)))], B1)"
      "en_connections B1 = [(1, hs_syn_received t2 1 a (connection_config cfgB))]" by blast
  from session_syn_ack [OF A1(2), of t3] obtain A2 A where
    A2: "process_incoming t3 b (packet_to_bytes (packet_control (header_syn_ack 1 1))) A1
        = (Inr [(b, packet_to_bytes (packet_control (header_ack 1 0 1)))], A2)"
      "en_connections A2 = [(1, A)]" "initiator_ready 1 (connection_config cfgA) t3 A" by blast
  from session_ack [OF B1(2), of t4] obtain B2 B where
    B2: "process_incoming t4 a (packet_to_bytes (packet_control (header_ack 1 0 1))) B1 = (Inr [], B2)"
      "en_connections B2 = [(1, B)]" "responder_ready 1 (connection_config cfgB) t4 B" "cc_events B = []" by blast
  from initiator_send [OF A2(3) mss d time(1)] obtain A' A'' where
    A3: "cc_send tA d A = (Inr (), A')" "cc_poll tA A' = (map2 (\<lambda>s k. packet_data 1 s 1 k) (seqs_from 0 (length ?ks)) ?ks, A'')"
      "cc_state A'' = Established" by blast
  have send: "engine_send tA 1 d A2 = (Inr (map (\<lambda>p. (cc_remote_addr A', packet_to_bytes p))
      (map2 (\<lambda>s k. packet_data 1 s 1 k) (seqs_from 0 (length ?ks)) ?ks)), engine_put 1 A'' A2)"
    using A2(2) A3 by (simp add: engine_send_def del: map_map)
  have lookup: "map_of (en_connections B2) 1 = Some B" using B2(2) by simp
  have rcv: "receiving tB 0 B" using B2(3) time(2) by (simp add: receiving_def responder_ready_def sw_new_def rw_new_def)
  have ks: "\<forall>k\<in>set ?ks. k \<noteq> []" using chunks_bounds by blast
  have ev: "concat (map transmit_of (cc_events B)) = []" using B2(4) by simp
  from process_datagrams_data [OF lookup rcv ks ev, of a "cc_remote_addr A'" 1] obtain rs B3 B' where
    B3: "process_datagrams tB a (map (\<lambda>p. (cc_remote_addr A', packet_to_bytes p))
        (map2 (\<lambda>s k. packet_data 1 s 1 k) (seqs_from 0 (length ?ks)) ?ks)) B2 = (rs, B3)"
      "map_of (en_connections B3) 1 = Some B'" "cc_inbound B' = cc_inbound B @ ?ks" "cc_state B' = Established" by blast
  have "engine_session t1 t2 t3 t4 tA tB a b cfgA cfgB d = Some (1, engine_put 1 A'' A2, B3)"
    using A1(1) B1(1) A2(1) B2(1) send B3(1) by (simp add: engine_session_def Let_def del: map_map)
  moreover have "engine_inbound 1 B3 = ?ks" using B3(2,3) B2(3) by (simp add: engine_inbound_def responder_ready_def)
  ultimately show ?thesis
    using A2(2) A3(3) B3(2,4) by (simp add: engine_connection_state_def engine_put_def)
qed

section \<open>Defects\<close>

text \<open>Identifiers are generated without looking at the table, and a peer chooses the identifiers of
  incoming connections.  Here a peer at \<open>X\<close> opens a connection with identifier 1, and a \<^verbatim>\<open>connect\<close> to
  \<open>Y\<close> then draws the same identifier: the connection of \<open>X\<close> is overwritten without a trace.  When the
  one to \<open>Y\<close> times out, the address \<open>X\<close> stays in the address table, and \<open>X\<close> can never be connected to.\<close>

theorem connect_overwrites_connection:
  "let X = V4 1 1; Y = V4 2 2;
       e1 = snd (process_incoming 0 X (packet_to_bytes (packet_control (header_syn 1))) (engine_with_defaults 0));
       e2 = snd (engine_connect 1 Y e1);
       e3 = snd (engine_poll (from_secs 6) e2)
   in engine_connection_state 1 e1 = Some SynReceived
      \<and> engine_connection_state 1 e2 = Some SynSent \<and> connection_count e2 = 1
      \<and> active_connections e3 = []
      \<and> fst (engine_connect (from_secs 6) X e3) = Inl (Err (ConnectionExists 1))"
  by code_simp

section \<open>Properties\<close>

text \<open>(C17) End to end: two fresh engines connected by a channel that delivers the datagrams complete the
  handshake, and a message the initiator sends that fits its window arrives at the other engine
  segment by segment, its concatenation being exactly the message.\<close>

theorem engine_end_to_end:
  assumes "0 < max_connections cfgA" and "0 < max_connections cfgB" and "0 < mss (connection_config cfgA)"
    and "length d \<le> mss (connection_config cfgA) * unat (window_size (arq (connection_config cfgA)))"
    and "tA - t3 \<le> from_secs 300" and "tB - t4 \<le> from_secs 300"
  shows "case engine_session t1 t2 t3 t4 tA tB a b cfgA cfgB d of None \<Rightarrow> False | Some (cid, A, B) \<Rightarrow>
     concat (engine_inbound cid B) = d
     \<and> engine_connection_state cid A = Some Established \<and> engine_connection_state cid B = Some Established"
  using session_delivers [OF assms, of t1 t2 a b] concat_chunks [OF assms(3), of d] by auto

theorem engine_end_to_end_witness:
  "case engine_session 0 1 2 3 4 5 (V4 1 1) (V4 2 2) engine_config_for_ble engine_config_for_lora [7, 8, 9] of
     None \<Rightarrow> False
   | Some (cid, A, B) \<Rightarrow> concat (engine_inbound cid B) = [7, 8, 9] \<and> engine_connection_state cid B = Some Established"
proof -
  have h: "0 < max_connections engine_config_for_ble" "0 < max_connections engine_config_for_lora"
    "0 < mss (connection_config engine_config_for_ble)"
    "length [7, 8, 9 :: u8] \<le> mss (connection_config engine_config_for_ble) * unat (window_size (arq (connection_config engine_config_for_ble)))"
    "(4 :: nat) - 2 \<le> from_secs 300" "(5 :: nat) - 3 \<le> from_secs 300"
    by code_simp+
  from engine_end_to_end [OF h, of 0 1 "V4 1 1" "V4 2 2"] show ?thesis
    by (auto split: option.splits prod.splits)
qed

text \<open>(C18) Along every sequence of calls on an engine with ordered timer bounds: it never holds more than
  the configured number of connections, holds one per identifier and files each under its own
  identifier, never generates identifier zero, and processing a datagram fails only when it is shorter
  than a header.\<close>

theorem engine_invariant:
  assumes "arq_config_ok (arq (connection_config cfg))" and "reachable (engine_init cfg) engine_step e"
  shows "connection_count e \<le> max_connections cfg \<and> distinct (active_connections e)
    \<and> list_all (\<lambda>(cid, c). cc_connection_id c = cid \<and> cc_inv c) (en_connections e)
    \<and> fst (generate_conn_id e) \<noteq> 0
    \<and> (case process_incoming now addr d e of
         (Inl err, e') \<Rightarrow> err = Err (PacketTooSmall HEADER_SIZE (length d)) \<and> e' = e
       | (Inr _, _) \<Rightarrow> HEADER_SIZE \<le> length d)"
proof -
  have inv: "engine_inv e" and cfg: "en_config e = cfg" using engine_reachable_inv [OF assms] by simp_all
  have "arq_config_ok (arq (connection_config (en_config e)))" using assms(1) cfg by simp
  from process_incoming_inv [OF inv this, of now addr d] inv cfg show ?thesis
    by (auto simp: engine_inv_def connection_count_def active_connections_def conn_ok_def list_all_iff
        generate_conn_id_def Let_def split: if_splits)
qed

theorem engine_invariant_witness:
  "\<exists>e. reachable (engine_init engine_config_default) engine_step e \<and> active_connections e = [1]
     \<and> connection_count e \<le> 8 \<and> fst (generate_conn_id e) \<noteq> 0"
proof -
  let ?e = "snd (engine_connect 3 (V4 1 2) (engine_new 0 engine_config_default))"
  have ok: "arq_config_ok (arq (connection_config engine_config_default))" by code_simp
  have "reachable (engine_init engine_config_default) engine_step (engine_new 0 engine_config_default)"
    by (rule reach_init) blast
  then have r: "reachable (engine_init engine_config_default) engine_step ?e"
    by (rule reach_step) (rule engine_step.intros(1), rule surjective_pairing)
  moreover have "active_connections ?e = [1]" "max_connections engine_config_default = 8" by code_simp+
  ultimately show ?thesis using engine_invariant [OF ok r, where now = 5 and addr = "V4 1 2" and d = "[]"] by auto
qed

text \<open>(C19) A datagram touches only the connection it names: other connections are left alone, one that
  cannot be parsed changes nothing, one for an unknown connection that is not a SYN is ignored, and a SYN
  that exceeds the capacity is answered by a reset and changes nothing.\<close>

theorem incoming_isolated:
  "case packet_from_bytes d of
     Inl err \<Rightarrow> process_incoming now addr d e = (Inl (Err err), e)
   | Inr p \<Rightarrow>
       (let h = pk_header p; cid = hd_connection_id h; e' = snd (process_incoming now addr d e) in
        (i \<noteq> cid \<longrightarrow> map_of (en_connections e') i = map_of (en_connections e) i)
        \<and> (\<not> has_connection cid e \<longrightarrow>
            (if header_is_syn h \<and> \<not> header_is_ack h then
               if can_accept_connection e then has_connection cid e'
               else process_incoming now addr d e = (Inr [(addr, packet_to_bytes (packet_control (header_reset cid)))], e)
             else process_incoming now addr d e = (Inr [], e))))"
proof (cases "packet_from_bytes d")
  case (Inl err)
  then show ?thesis by (simp add: process_incoming_def)
next
  case (Inr p)
  let ?cid = "hd_connection_id (pk_header p)"
  show ?thesis
  proof (cases "map_of (en_connections e) ?cid")
    case (Some c)
    have "map_of (en_connections (snd (engine_existing now addr p c e))) i = map_of (en_connections e) i" if "i \<noteq> ?cid"
      using that by (simp add: engine_existing_def Let_def engine_put_def AList.update_conv' split: prod.splits sum.splits)
    then show ?thesis using Inr Some by (simp add: process_incoming_def Let_def has_connection_def)
  next
    case None
    obtain q c where acc: "cc_accept now (hd_seq (pk_header p))
        (cc_new_inbound_with_config now ?cid addr (connection_config (en_config e))) = (Inr q, c)"
      using cc_accept_new by blast
    then show ?thesis using Inr None
      by (auto simp: process_incoming_def Let_def has_connection_def engine_accept_def engine_insert_def
          AList.update_conv')
  qed
qed

theorem incoming_isolated_witness:
  "let e = snd (engine_connect 3 (V4 1 2) (engine_new 0 engine_config_default));
       d = packet_to_bytes (packet_control (header_ack 9 0 0))
   in process_incoming 4 (V4 5 6) d e = (Inr [], e)"
proof -
  define e where "e = snd (engine_connect 3 (V4 1 2) (engine_new 0 engine_config_default))"
  have "\<not> has_connection 9 e" unfolding e_def by code_simp
  then show ?thesis
    using incoming_isolated [where d = "packet_to_bytes (packet_control (header_ack 9 0 0))" and now = 4
        and addr = "V4 5 6" and e = e and i = 9]
    by (simp add: Let_def header_kind flip: e_def)
qed

end
