(* ===== verification/Send_Buffer.thy ===== *)
theory Send_Buffer
  imports BTree_Range_Set Coding
begin

text \<open>
  The buffer of outgoing stream data (\<^verbatim>\<open>src/src/connection/send_buffer.rs\<close>) and the loop of
  \<^verbatim>\<open>write_stream_frames\<close> that copies a range of it into a frame
  (\<^verbatim>\<open>src/src/connection/streams/state.rs\<close>).  The buffer is a client of the range set: its acknowledged
  and its lost ranges are two of them, and its lemmas rest on the facts of the interpretation
  \<^verbatim>\<open>brs\<close>.  The second half puts the buffer beside the ranges in flight, in a step relation, and
  shows that every byte written is at all times either acknowledged, in flight, scheduled for
  retransmission or not yet sent, and only one of these.
\<close>

section \<open>The buffer\<close>

record send_buffer =
  sb_segments :: "bytes list"
  sb_unacked_len :: nat
  sb_offset :: nat
  sb_unsent :: nat
  sb_acks :: btree_range_set
  sb_retransmits :: btree_range_set

definition sb_new :: send_buffer where
  "sb_new = \<lparr>sb_segments = [], sb_unacked_len = 0, sb_offset = 0, sb_unsent = 0,
     sb_acks = btree_new, sb_retransmits = btree_new\<rparr>"

definition sb_write :: "bytes \<Rightarrow> send_buffer \<Rightarrow> send_buffer" where
  "sb_write data sb = sb\<lparr>sb_unacked_len := u64_add (sb_unacked_len sb) (length data),
     sb_offset := u64_add (sb_offset sb) (length data), sb_segments := sb_segments sb @ [data]\<rparr>"

text \<open>\<^verbatim>\<open>saturating_sub\<close> is subtraction of naturals.\<close>

definition sb_base :: "send_buffer \<Rightarrow> nat" where
  "sb_base sb = sb_offset sb - sb_unacked_len sb"

text \<open>The inner loop of \<^verbatim>\<open>ack\<close>: drop \<^verbatim>\<open>to_advance\<close> bytes from the front.  None is the panic
  of \<^verbatim>\<open>expect("Expected buffered data")\<close>.\<close>

fun sb_advance :: "nat \<Rightarrow> bytes list \<Rightarrow> bytes list option" where
  "sb_advance to_advance [] = (if to_advance > 0 then None else Some [])"
| "sb_advance to_advance (front # rest) =
     (if to_advance > 0
      then if length front \<le> to_advance then sb_advance (to_advance - length front) rest
           else Some (drop to_advance front # rest)
      else Some (front # rest))"

text \<open>The outer loop of \<^verbatim>\<open>ack\<close>: while the acknowledged ranges start at the first tracked byte,
  discard that prefix.\<close>

lemma btree_pop_min_shorter: "(Some r, m') = btree_pop_min m \<Longrightarrow> length m' < length m"
  using length_bt_del [of r m]
  by (auto simp: btree_pop_min_def btree_peek_min_def split: list.splits)

function sb_ack_loop :: "send_buffer \<Rightarrow> send_buffer option" where
  "sb_ack_loop sb =
     (if btree_min (sb_acks sb) = Some (sb_base sb)
      then (case btree_pop_min (sb_acks sb) of
              (None, _) \<Rightarrow> None
            | (Some prefix, acks) \<Rightarrow>
                let to_advance = u64_sub (snd prefix) (fst prefix) in
                (case sb_advance to_advance (sb_segments sb) of
                   None \<Rightarrow> None
                 | Some segs \<Rightarrow> sb_ack_loop (sb\<lparr>sb_acks := acks,
                     sb_unacked_len := u64_sub (sb_unacked_len sb) to_advance, sb_segments := segs\<rparr>)))
      else Some sb)"
  by pat_completeness auto
termination
  by (relation "measure (length \<circ> sb_acks)")
    (auto dest: btree_pop_min_shorter)

declare sb_ack_loop.simps [simp del]

definition sb_ack :: "range \<Rightarrow> send_buffer \<Rightarrow> send_buffer option" where
  "sb_ack r sb = sb_ack_loop (sb\<lparr>sb_acks :=
     snd (btree_insert (sb_acks sb) (max (sb_base sb) (fst r), max (sb_base sb) (snd r)))\<rparr>)"

text \<open>How much of \<^verbatim>\<open>start..stop\<close> fits a frame with \<^verbatim>\<open>max_len\<close> bytes for offset, length and data,
  and whether the length has to be written: the computation both branches of \<^verbatim>\<open>poll_transmit\<close>
  make.\<close>

definition sb_fit :: "nat \<Rightarrow> nat \<Rightarrow> nat \<Rightarrow> nat \<times> bool" where
  "sb_fit start stop max_len =
     (let len1 = (if start \<noteq> 0 then u64_sub max_len (varint_size (of_nat start)) else max_len);
          encode_length = (u64_sub stop start < len1);
          len2 = (if encode_length then u64_sub len1 8 else len1)
      in (min stop (u64_sat_add len2 start), encode_length))"

definition sb_poll_transmit :: "nat \<Rightarrow> send_buffer \<Rightarrow> (range \<times> bool) \<times> send_buffer" where
  "sb_poll_transmit max_len sb =
     (case btree_pop_min (sb_retransmits sb) of
        (Some r, rest) \<Rightarrow>
          let (stop, encode_length) = sb_fit (fst r) (snd r) max_len
          in (((fst r, stop), encode_length), sb\<lparr>sb_retransmits :=
                (if stop \<noteq> snd r then snd (btree_insert rest (stop, snd r)) else rest)\<rparr>)
      | (None, rest) \<Rightarrow>
          let (stop, encode_length) = sb_fit (sb_unsent sb) (sb_offset sb) max_len
          in (((sb_unsent sb, stop), encode_length), sb\<lparr>sb_retransmits := rest, sb_unsent := stop\<rparr>))"

text \<open>\<^verbatim>\<open>get\<close> returns the part of the range that lies in the segment holding its start.  None is the
  panic of slicing \<^verbatim>\<open>segment[start..end]\<close> with \<^verbatim>\<open>end < start\<close>.\<close>

fun sb_get_from :: "nat \<Rightarrow> range \<Rightarrow> bytes list \<Rightarrow> bytes option" where
  "sb_get_from segment_offset offsets [] = Some []"
| "sb_get_from segment_offset offsets (segment # rest) =
     (if segment_offset \<le> fst offsets \<and> fst offsets < u64_add segment_offset (length segment)
      then let start = u64_sub (fst offsets) segment_offset;
               stop = min (u64_sub (snd offsets) segment_offset) (length segment)
           in if start \<le> stop then Some (take (stop - start) (drop start segment)) else None
      else sb_get_from (u64_add segment_offset (length segment)) offsets rest)"

definition sb_get :: "range \<Rightarrow> send_buffer \<Rightarrow> bytes option" where
  "sb_get offsets sb = sb_get_from (sb_base sb) offsets (sb_segments sb)"

definition sb_retransmit :: "range \<Rightarrow> send_buffer \<Rightarrow> send_buffer" where
  "sb_retransmit r sb = sb\<lparr>sb_retransmits := snd (btree_insert (sb_retransmits sb) r)\<rparr>"

definition sb_retransmit_all_for_0rtt :: "send_buffer \<Rightarrow> send_buffer" where
  "sb_retransmit_all_for_0rtt sb = sb\<lparr>sb_unsent := 0\<rparr>"

definition sb_is_fully_acked :: "send_buffer \<Rightarrow> bool" where
  "sb_is_fully_acked sb \<longleftrightarrow> sb_unacked_len sb = 0"

definition sb_has_unsent_data :: "send_buffer \<Rightarrow> bool" where
  "sb_has_unsent_data sb \<longleftrightarrow> sb_unsent sb \<noteq> sb_offset sb \<or> \<not> btree_is_empty (sb_retransmits sb)"

definition sb_unacked :: "send_buffer \<Rightarrow> nat" where
  "sb_unacked sb = u64_sub (sb_unacked_len sb)
     (fold (\<lambda>r acc. u64_add acc (u64_sub (snd r) (fst r))) (sb_acks sb) 0)"

text \<open>The copying loop of \<^verbatim>\<open>write_stream_frames\<close>.  It has no bound of its own: it spins for ever
  when \<^verbatim>\<open>get\<close> has nothing for the range, so it is a partial function and None is also the value
  of a run that does not end.\<close>

partial_function (option) sb_collect :: "send_buffer \<Rightarrow> nat \<Rightarrow> nat \<Rightarrow> bytes option" where
  "sb_collect sb start stop =
     (if start \<noteq> stop
      then Option.bind (sb_get (start, stop) sb) (\<lambda>data.
             Option.bind (sb_collect sb (u64_add start (length data)) stop) (\<lambda>rest.
               Some (data @ rest)))
      else Some [])"

declare sb_collect.simps [code]

section \<open>The buffer invariant\<close>

text \<open>\<open>w\<close> is everything the application has written.\<close>

definition sb_inv :: "bytes \<Rightarrow> send_buffer \<Rightarrow> bool" where
  "sb_inv w sb \<longleftrightarrow> sb_offset sb = length w \<and> length w < 2 ^ 62
     \<and> sb_unacked_len sb \<le> length w
     \<and> concat (sb_segments sb) = drop (sb_base sb) w
     \<and> sb_unsent sb \<le> sb_offset sb
     \<and> ranges_ok (sb_acks sb) \<and> ranges_ok (sb_retransmits sb)
     \<and> (\<forall>x\<in>ranges_elems (sb_acks sb). sb_base sb < x \<and> x < length w)
     \<and> (\<forall>x\<in>ranges_elems (sb_retransmits sb). x < sb_unsent sb)"

definition sb_acked :: "send_buffer \<Rightarrow> nat set" where
  "sb_acked sb = {..<sb_base sb} \<union> ranges_elems (sb_acks sb)"

section \<open>Each operation keeps the invariant\<close>

lemma sb_inv_new: "sb_inv [] sb_new"
  by (simp add: sb_inv_def sb_new_def sb_base_def btree_new_def)

lemma sb_inv_base: "sb_inv w sb \<Longrightarrow> sb_base sb + sb_unacked_len sb = length w"
  by (auto simp: sb_inv_def sb_base_def)

lemma sb_write_fields:
  assumes "sb_inv w sb" "length w + length data < 2 ^ 62"
  shows "sb_base (sb_write data sb) = sb_base sb" "sb_acks (sb_write data sb) = sb_acks sb"
    "sb_retransmits (sb_write data sb) = sb_retransmits sb"
    "sb_unsent (sb_write data sb) = sb_unsent sb"
  using assms by (auto simp: sb_inv_def sb_write_def sb_base_def u64_arith)

lemma sb_write_inv [step_inv]:
  assumes "sb_inv w sb" "length w + length data < 2 ^ 62"
  shows "sb_inv (w @ data) (sb_write data sb)"
  using assms sb_write_fields [OF assms] sb_inv_base [OF assms(1)]
  by (auto simp: sb_inv_def) (auto simp: sb_write_def u64_arith)

lemma sb_advance_drop:
  "n \<le> length (concat segs) \<Longrightarrow> \<exists>segs'. sb_advance n segs = Some segs' \<and> concat segs' = drop n (concat segs)"
  by (induction n segs rule: sb_advance.induct) auto

text \<open>One round of the outer loop: the first acknowledged range starts at the base, and the base
  moves to its end.\<close>

lemma sb_ack_loop_correct:
  assumes "sb_offset sb = length w" "sb_unacked_len sb \<le> length w" "length w < 2 ^ 62"
    and "concat (sb_segments sb) = drop (sb_base sb) w"
    and "ranges_ok (sb_acks sb)" "\<forall>x\<in>ranges_elems (sb_acks sb). sb_base sb \<le> x \<and> x < length w"
  shows "\<exists>sb'. sb_ack_loop sb = Some sb' \<and> sb_offset sb' = length w \<and> sb_unacked_len sb' \<le> length w
     \<and> concat (sb_segments sb') = drop (sb_base sb') w
     \<and> ranges_ok (sb_acks sb') \<and> (\<forall>x\<in>ranges_elems (sb_acks sb'). sb_base sb' < x \<and> x < length w)
     \<and> sb_acked sb' = sb_acked sb
     \<and> sb_unsent sb' = sb_unsent sb \<and> sb_retransmits sb' = sb_retransmits sb"
  using assms
proof (induction sb rule: sb_ack_loop.induct)
  case (1 sb)
  show ?case
  proof (cases "btree_min (sb_acks sb) = Some (sb_base sb)")
    case False
    then have "sb_base sb \<notin> ranges_elems (sb_acks sb)"
      using brs.min_elt_lower [OF "1.prems"(5)] "1.prems"(6) by auto
    then have "\<forall>x\<in>ranges_elems (sb_acks sb). sb_base sb < x"
      using "1.prems"(6) by (metis le_neq_implies_less)
    then show ?thesis using False "1.prems" by (simp add: sb_ack_loop.simps [of sb])
  next
    case True
    then have ne: "ranges_elems (sb_acks sb) \<noteq> {}" and mn: "Min (ranges_elems (sb_acks sb)) = sb_base sb"
      using "1.prems"(5) by (auto simp: brs.min_elt_eq split: if_splits)
    obtain r acks where pop: "btree_pop_min (sb_acks sb) = (Some r, acks)" and ok: "ranges_ok acks"
      and r: "fst r = sb_base sb" "fst r < snd r" and un: "ranges_elems (sb_acks sb) = range_elems r \<union> ranges_elems acks"
      and dis: "range_elems r \<inter> ranges_elems acks = {}"
      using brs.pop_min_Some [OF "1.prems"(5) ne] mn by auto
    have "snd r - 1 \<in> ranges_elems (sb_acks sb)" using r un by (auto simp: range_elems_def)
    then have "snd r - 1 < length w" using "1.prems"(6) by blast
    then have le: "snd r \<le> length w" by linarith
    define n where "n = u64_sub (snd r) (fst r)"
    have n: "n = snd r - sb_base sb" using r by (simp add: n_def u64_arith)
    have base: "sb_base sb + sb_unacked_len sb = length w" using "1.prems"(1,2) by (simp add: sb_base_def)
    have "n \<le> length (concat (sb_segments sb))" using "1.prems"(4) le n by simp
    then obtain segs where segs: "sb_advance n (sb_segments sb) = Some segs"
      and cat: "concat segs = drop n (concat (sb_segments sb))"
      using sb_advance_drop by blast
    define sb1 where "sb1 = sb\<lparr>sb_acks := acks, sb_unacked_len := u64_sub (sb_unacked_len sb) n, sb_segments := segs\<rparr>"
    have step: "sb_ack_loop sb = sb_ack_loop sb1"
      using True pop segs by (simp add: sb_ack_loop.simps [of sb] sb1_def n_def Let_def)
    have b1: "sb_base sb1 = snd r" and u1: "sb_unacked_len sb1 = length w - snd r"
      using base le n r "1.prems"(1) by (auto simp: sb1_def sb_base_def u64_arith)
    have "snd r \<le> x \<and> x < length w" if x: "x \<in> ranges_elems acks" for x
    proof -
      have "x \<in> ranges_elems (sb_acks sb)" "x \<notin> range_elems r" using x un dis by auto
      then show ?thesis using bspec [OF "1.prems"(6), of x] r by (auto simp: range_elems_def)
    qed
    moreover have "sb_acked sb1 = sb_acked sb"
    proof -
      have "{..<snd r} = {..<fst r} \<union> range_elems r" using r(2) by (auto simp: range_elems_def)
      then show ?thesis using b1 by (simp add: sb_acked_def un r(1) Un_assoc) (simp add: sb1_def)
    qed
    moreover have "concat (sb_segments sb1) = drop (snd r) w"
      using cat "1.prems"(4) n r by (simp add: sb1_def)
    ultimately show ?thesis
      using "1.IH" [OF True pop [symmetric] refl n_def segs, folded sb1_def] "1.prems" b1 u1 ok
      unfolding step by (simp add: sb1_def)
  qed
qed

lemma sb_ack_correct:
  assumes "sb_inv w sb" "snd r \<le> length w"
  shows "\<exists>sb'. sb_ack r sb = Some sb' \<and> sb_inv w sb' \<and> sb_acked sb' = sb_acked sb \<union> range_elems r
     \<and> sb_unsent sb' = sb_unsent sb \<and> sb_retransmits sb' = sb_retransmits sb"
proof -
  let ?r = "(max (sb_base sb) (fst r), max (sb_base sb) (snd r))"
  define sb1 where "sb1 = sb\<lparr>sb_acks := snd (btree_insert (sb_acks sb) ?r)\<rparr>"
  have ok: "ranges_ok (sb_acks sb)" using assms(1) by (simp add: sb_inv_def)
  have base: "sb_base sb1 = sb_base sb" "sb_base sb \<le> length w"
    using sb_inv_base [OF assms(1)] by (simp_all add: sb1_def sb_base_def)
  have elems: "ranges_elems (sb_acks sb1) = ranges_elems (sb_acks sb) \<union> range_elems ?r"
    by (simp add: sb1_def brs.elems_insert [OF ok])
  have "sb_acked sb1 = sb_acked sb \<union> range_elems r"
    unfolding sb_acked_def elems base by (auto simp: range_elems_def)
  moreover have "\<forall>x\<in>ranges_elems (sb_acks sb1). sb_base sb1 \<le> x \<and> x < length w"
    using assms base unfolding elems by (auto simp: range_elems_def sb_inv_def)
  moreover have "ranges_ok (sb_acks sb1)" "sb_offset sb1 = length w" "sb_unacked_len sb1 \<le> length w"
      "concat (sb_segments sb1) = drop (sb_base sb1) w" "length w < 2 ^ 62"
      "sb_unsent sb1 = sb_unsent sb" "sb_retransmits sb1 = sb_retransmits sb"
    using assms(1) base(1) brs.inv_insert [OF ok] by (simp_all add: sb_inv_def sb1_def)
  moreover have "sb_ack r sb = sb_ack_loop sb1" by (simp add: sb_ack_def sb1_def)
  moreover have "sb_unsent sb \<le> length w" "ranges_ok (sb_retransmits sb)"
      "\<forall>x\<in>ranges_elems (sb_retransmits sb). x < sb_unsent sb"
    using assms(1) by (simp_all add: sb_inv_def)
  ultimately show ?thesis
    using sb_ack_loop_correct [of sb1 w] by (simp only: sb_inv_def) force
qed

lemma varint_size_bounds: "0 < varint_size x" "varint_size x \<le> 8"
  by (simp_all add: varint_size_def)

definition offset_size :: "nat \<Rightarrow> nat" where
  "offset_size start = (if start \<noteq> 0 then varint_size (of_nat start) else 0)"

text \<open>The frame fits \<^verbatim>\<open>max_len\<close>, the length is left out only when the data fills the frame, and
  there is progress as soon as one byte more than the largest metadata is available.\<close>

lemma sb_fit_correct:
  assumes "start \<le> stop" "stop < 2 ^ 62" "16 \<le> max_len" "max_len < 2 ^ 62"
    and "sb_fit start stop max_len = (e, enc)"
  shows "start \<le> e" "e \<le> stop"
    and "offset_size start + (if enc then 8 else 0) + (e - start) \<le> max_len"
    and "\<not> enc \<Longrightarrow> offset_size start + (e - start) = max_len"
    and "17 \<le> max_len \<Longrightarrow> start < stop \<Longrightarrow> start < e"
proof -
  have hdr: "offset_size start \<le> 8" by (simp add: offset_size_def varint_size_bounds)
  have len1: "(if start \<noteq> 0 then u64_sub max_len (varint_size (of_nat start)) else max_len)
      = max_len - offset_size start"
    using assms(3) varint_size_bounds(2) [of "of_nat start"] by (simp add: offset_size_def u64_arith)
  define m where "m = max_len - offset_size start"
  have m: "8 \<le> m" "17 \<le> max_len \<Longrightarrow> 8 < m" "m < 2 ^ 62" "max_len = offset_size start + m"
    using hdr assms(3,4) by (auto simp: m_def)
  have fit: "sb_fit start stop max_len = (min stop (u64_sat_add (if stop - start < m then u64_sub m 8 else m) start),
      stop - start < m)"
    unfolding sb_fit_def len1 m_def [symmetric] Let_def using assms(1) by (simp add: u64_arith)
  have enc: "enc \<longleftrightarrow> stop - start < m" and e: "e = min stop ((if enc then m - 8 else m) + start)"
    using assms(1,2,5) m(1,3) unfolding fit by (auto simp: u64_arith)
  show "start \<le> e" "e \<le> stop" using assms(1) by (auto simp: e)
  show "offset_size start + (if enc then 8 else 0) + (e - start) \<le> max_len"
    using m(1,4) by (auto simp: e)
  show "\<not> enc \<Longrightarrow> offset_size start + (e - start) = max_len" using m(4) enc assms(1) by (auto simp: e)
  show "17 \<le> max_len \<Longrightarrow> start < stop \<Longrightarrow> start < e" using m(1,2) by (auto simp: e)
qed

text \<open>\<^verbatim>\<open>poll_transmit\<close> takes the first lost range when there is one, and otherwise the first unsent
  bytes; either way only what it hands out is removed from what is left to send.\<close>

lemma sb_poll_retransmit:
  assumes "sb_inv w sb" "16 \<le> max_len" "max_len < 2 ^ 62" "ranges_elems (sb_retransmits sb) \<noteq> {}"
    and "sb_poll_transmit max_len sb = ((r, enc), sb')"
  shows "sb_inv w sb'" "sb_unsent sb' = sb_unsent sb" "sb_acks sb' = sb_acks sb" "sb_base sb' = sb_base sb"
    and "ranges_elems (sb_retransmits sb) = range_elems r \<union> ranges_elems (sb_retransmits sb')"
    and "range_elems r \<inter> ranges_elems (sb_retransmits sb') = {}"
    and "fst r = Min (ranges_elems (sb_retransmits sb))"
    and "\<exists>stop. fst r < stop \<and> stop \<le> sb_unsent sb \<and> sb_fit (fst r) stop max_len = (snd r, enc)"
proof -
  have ok: "ranges_ok (sb_retransmits sb)" using assms(1) by (simp add: sb_inv_def)
  obtain q rest where pop: "btree_pop_min (sb_retransmits sb) = (Some q, rest)" and okr: "ranges_ok rest"
    and q: "fst q = Min (ranges_elems (sb_retransmits sb))" "fst q < snd q"
    and un: "ranges_elems (sb_retransmits sb) = range_elems q \<union> ranges_elems rest"
    and dis: "range_elems q \<inter> ranges_elems rest = {}"
    using brs.pop_min_Some [OF ok assms(4)] by blast
  have "snd q - 1 \<in> ranges_elems (sb_retransmits sb)" using q(2) un by (auto simp: range_elems_def)
  then have "snd q - 1 < sb_unsent sb" using assms(1) by (auto simp: sb_inv_def)
  then have le: "snd q \<le> sb_unsent sb" by linarith
  have big: "snd q < 2 ^ 62" using le assms(1) by (auto simp: sb_inv_def)
  obtain e where fit: "sb_fit (fst q) (snd q) max_len = (e, enc)" and r: "r = (fst q, e)"
    and sb': "sb' = sb\<lparr>sb_retransmits := (if e \<noteq> snd q then snd (btree_insert rest (e, snd q)) else rest)\<rparr>"
    using assms(5) by (auto simp: sb_poll_transmit_def pop split: prod.splits)
  note e = sb_fit_correct(1,2) [OF less_imp_le [OF q(2)] big assms(2,3) fit]
  have re: "ranges_elems (sb_retransmits sb') = range_elems (e, snd q) \<union> ranges_elems rest"
    by (auto simp: sb' brs.elems_insert [OF okr]) (auto simp: range_elems_def)
  have split: "range_elems q = range_elems r \<union> range_elems (e, snd q)"
      "range_elems r \<inter> range_elems (e, snd q) = {}" using e by (auto simp: range_elems_def r)
  show parts: "ranges_elems (sb_retransmits sb) = range_elems r \<union> ranges_elems (sb_retransmits sb')"
    unfolding re un split(1) by (simp add: Un_assoc)
  show "range_elems r \<inter> ranges_elems (sb_retransmits sb') = {}"
    using split dis unfolding re by blast
  show same: "sb_unsent sb' = sb_unsent sb" "sb_acks sb' = sb_acks sb" "sb_base sb' = sb_base sb"
    by (simp_all add: sb' sb_base_def)
  have "ranges_ok (sb_retransmits sb')" using okr by (simp add: sb' brs.inv_insert)
  then show "sb_inv w sb'"
    using assms(1) parts same by (auto simp: sb_inv_def) (auto simp: sb')
  show "fst r = Min (ranges_elems (sb_retransmits sb))" by (simp add: r q)
  show "\<exists>stop. fst r < stop \<and> stop \<le> sb_unsent sb \<and> sb_fit (fst r) stop max_len = (snd r, enc)"
    using q(2) le fit by (auto simp: r)
qed

lemma sb_poll_new:
  assumes "sb_inv w sb" "16 \<le> max_len" "max_len < 2 ^ 62" "ranges_elems (sb_retransmits sb) = {}"
    and "sb_poll_transmit max_len sb = ((r, enc), sb')"
  shows "sb_inv w sb'" "sb_acks sb' = sb_acks sb" "sb_base sb' = sb_base sb"
    "sb_retransmits sb' = sb_retransmits sb" "fst r = sb_unsent sb" "sb_unsent sb' = snd r"
    and "sb_fit (fst r) (sb_offset sb) max_len = (snd r, enc)"
proof -
  have ok: "ranges_ok (sb_retransmits sb)" and le: "sb_unsent sb \<le> sb_offset sb" "sb_offset sb < 2 ^ 62"
    using assms(1) by (auto simp: sb_inv_def)
  note pop = brs.pop_min_None [OF ok assms(4)]
  obtain e where fit: "sb_fit (sb_unsent sb) (sb_offset sb) max_len = (e, enc)" and r: "r = (sb_unsent sb, e)"
    and sb': "sb' = sb\<lparr>sb_unsent := e\<rparr>"
    using assms(5) by (auto simp: sb_poll_transmit_def pop split: prod.splits)
  show "sb_acks sb' = sb_acks sb" "sb_base sb' = sb_base sb" "sb_retransmits sb' = sb_retransmits sb"
    "fst r = sb_unsent sb" "sb_unsent sb' = snd r"
    "sb_fit (fst r) (sb_offset sb) max_len = (snd r, enc)"
    using fit by (simp_all add: sb' r sb_base_def)
  show "sb_inv w sb'"
    using assms(1,4) sb_fit_correct(1,2) [OF le assms(2,3) fit]
    by (auto simp: sb_inv_def sb' sb_base_def)
qed

lemma sb_retransmit_inv [step_inv]:
  assumes "sb_inv w sb" "snd r \<le> sb_unsent sb"
  shows "sb_inv w (sb_retransmit r sb)"
    "ranges_elems (sb_retransmits (sb_retransmit r sb)) = ranges_elems (sb_retransmits sb) \<union> range_elems r"
  using assms by (auto simp: sb_inv_def sb_retransmit_def sb_base_def brs.inv_insert brs.elems_insert range_elems_def)

section \<open>Reading the data of a range\<close>

lemma sb_get_from_correct:
  assumes "concat segs = drop off w" "off \<le> s" "s < e" "e \<le> length w" "length w < 2 ^ 62"
  shows "\<exists>n. 0 < n \<and> n \<le> e - s \<and> sb_get_from off (s, e) segs = Some (take n (drop s w))"
  using assms
proof (induction segs arbitrary: off)
  case Nil
  then show ?case by simp
next
  case (Cons seg segs)
  from Cons.prems(1) have "length (seg @ concat segs) = length w - off" by simp
  then have len: "off + length seg \<le> length w" using Cons.prems by simp
  then have add: "u64_add off (length seg) = off + length seg" using Cons.prems(5) by (simp add: u64_arith)
  show ?case
  proof (cases "s < off + length seg")
    case True
    define n where "n = min (e - off) (length seg) - (s - off)"
    have n: "0 < n" "n \<le> e - s" "n \<le> length seg - (s - off)" using True Cons.prems by (auto simp: n_def)
    have "drop s w = drop (s - off) (seg @ concat segs)" using Cons.prems by simp
    then have "take n (drop s w) = take n (drop (s - off) seg)" using n(3) by simp
    moreover have "sb_get_from off (s, e) (seg # segs) = Some (take n (drop (s - off) seg))"
      using True Cons.prems by (auto simp: add Let_def u64_arith n_def)
    ultimately show ?thesis using n by auto
  next
    case False
    have "concat segs = drop (length seg) (seg @ concat segs)" by simp
    also have "\<dots> = drop (off + length seg) w" using Cons.prems(1) by (simp add: add.commute)
    finally show ?thesis using Cons.IH [of "off + length seg"] Cons.prems False by (simp add: add)
  qed
qed

text \<open>The copying loop returns, with the bytes written at the range.\<close>

lemma sb_collect_correct:
  assumes "sb_inv w sb" "sb_base sb \<le> s" "s \<le> e" "e \<le> length w"
  shows "sb_collect sb s e = Some (byte_slice w (s, e))"
  using assms
proof (induction "e - s" arbitrary: s rule: less_induct)
  case less
  show ?case
  proof (cases "s = e")
    case True
    then show ?thesis by (subst sb_collect.simps) (simp add: byte_slice_def)
  next
    case False
    then have "s < e" using less.prems by simp
    with less.prems obtain n where n: "0 < n" "n \<le> e - s" "sb_get (s, e) sb = Some (take n (drop s w))"
      using sb_get_from_correct [of "sb_segments sb" "sb_base sb" w s e] by (auto simp: sb_inv_def sb_get_def)
    have len: "length (take n (drop s w)) = n" using n(2) less.prems by simp
    have "length w < 2 ^ 62" using less.prems(1) by (simp add: sb_inv_def)
    then have "s + n < 2 ^ 64" using n(2) less.prems(3,4) by simp
    then have "u64_add s n = s + n" by (simp add: u64_arith)
    moreover have "sb_collect sb (s + n) e = Some (byte_slice w (s + n, e))"
      using less.hyps [of "s + n"] less.prems n(1,2) by simp
    ultimately show ?thesis
      using False n(3) byte_slice_split [OF n(2), of w] by (simp add: sb_collect.simps [of sb s] len del: length_take)
  qed
qed

section \<open>The buffer beside the ranges in flight\<close>

record sb_system =
  sy_buf :: send_buffer
  sy_written :: bytes
  sy_flight :: "range list"

definition sb_start :: sb_system where
  "sb_start = \<lparr>sy_buf = sb_new, sy_written = [], sy_flight = []\<rparr>"

text \<open>The frame writer reserves more than sixteen bytes for the metadata
  (\<^verbatim>\<open>frame::Stream::SIZE_BOUND\<close>), a packet is acknowledged or declared lost only while it is in
  flight and only once, and a Retry puts everything sent so far back, before anything is
  acknowledged or lost.\<close>

datatype sb_event = SbWrite bytes | SbTransmit nat | SbAck range | SbLose range | SbRetry

inductive sb_step :: "sb_system \<Rightarrow> sb_event \<Rightarrow> sb_system \<Rightarrow> bool" where
  written: "length (sy_written s) + length data < 2 ^ 62 \<Longrightarrow>
    sb_step s (SbWrite data) (s\<lparr>sy_buf := sb_write data (sy_buf s), sy_written := sy_written s @ data\<rparr>)"
| transmitted: "17 \<le> max_len \<Longrightarrow> max_len < 2 ^ 62 \<Longrightarrow> sb_poll_transmit max_len (sy_buf s) = ((r, enc), sb') \<Longrightarrow>
    sb_step s (SbTransmit max_len) (s\<lparr>sy_buf := sb', sy_flight := r # sy_flight s\<rparr>)"
| acked: "r \<in> set (sy_flight s) \<Longrightarrow> sb_ack r (sy_buf s) = Some sb' \<Longrightarrow>
    sb_step s (SbAck r) (s\<lparr>sy_buf := sb', sy_flight := remove1 r (sy_flight s)\<rparr>)"
| lost: "r \<in> set (sy_flight s) \<Longrightarrow>
    sb_step s (SbLose r) (s\<lparr>sy_buf := sb_retransmit r (sy_buf s), sy_flight := remove1 r (sy_flight s)\<rparr>)"
| retried: "sb_base (sy_buf s) = 0 \<Longrightarrow> sb_acks (sy_buf s) = [] \<Longrightarrow> sb_retransmits (sy_buf s) = [] \<Longrightarrow>
    sb_step s SbRetry (s\<lparr>sy_buf := sb_retransmit_all_for_0rtt (sy_buf s), sy_flight := []\<rparr>)"

text \<open>How often byte \<open>x\<close> is accounted for: acknowledged, in each range in flight, scheduled for
  retransmission.\<close>

definition sb_places :: "sb_system \<Rightarrow> nat \<Rightarrow> nat" where
  "sb_places s x = of_bool (x \<in> sb_acked (sy_buf s))
     + length (filter (\<lambda>r. x \<in> range_elems r) (sy_flight s))
     + of_bool (x \<in> ranges_elems (sb_retransmits (sy_buf s)))"

definition sy_inv :: "sb_system \<Rightarrow> bool" where
  "sy_inv s \<longleftrightarrow> sb_inv (sy_written s) (sy_buf s)
     \<and> (\<forall>r\<in>set (sy_flight s). fst r \<le> snd r \<and> snd r \<le> sb_unsent (sy_buf s))
     \<and> (\<forall>x. sb_places s x = of_bool (x < sb_unsent (sy_buf s)))"

lemma places_remove1:
  "r \<in> set fl \<Longrightarrow> length (filter P fl) = of_bool (P r) + length (filter P (remove1 r fl))"
  by (induction fl) auto

lemma sy_inv_start: "sy_inv sb_start"
  by (simp add: sy_inv_def sb_start_def sb_inv_new)
    (simp add: sb_places_def sb_acked_def sb_new_def sb_base_def btree_new_def)

lemma sy_inv_write [step_inv]:
  assumes "sy_inv s" "length (sy_written s) + length data < 2 ^ 62"
  shows "sy_inv (s\<lparr>sy_buf := sb_write data (sy_buf s), sy_written := sy_written s @ data\<rparr>)"
  using assms sb_write_fields [of "sy_written s" "sy_buf s" data]
  by (simp add: sy_inv_def sb_write_inv sb_places_def sb_acked_def)

lemma sy_inv_transmit [step_inv]:
  assumes inv: "sy_inv s" and len: "17 \<le> max_len" "max_len < 2 ^ 62"
    and poll: "sb_poll_transmit max_len (sy_buf s) = ((r, enc), sb')"
  shows "sy_inv (s\<lparr>sy_buf := sb', sy_flight := r # sy_flight s\<rparr>)"
proof -
  let ?sb = "sy_buf s" and ?R = "ranges_elems (sb_retransmits (sy_buf s))"
  have sb: "sb_inv (sy_written s) ?sb" and fl: "\<forall>q\<in>set (sy_flight s). fst q \<le> snd q \<and> snd q \<le> sb_unsent ?sb"
    and pl: "\<And>x. sb_places s x = of_bool (x < sb_unsent ?sb)" using inv by (auto simp: sy_inv_def)
  have len16: "16 \<le> max_len" using len(1) by simp
  have off: "sb_unsent ?sb \<le> sb_offset ?sb" "sb_offset ?sb < 2 ^ 62" using sb by (auto simp: sb_inv_def)
  show ?thesis
  proof (cases "?R = {}")
    case False
    note p = sb_poll_retransmit [OF sb len16 len(2) False poll]
    obtain stop where stop: "fst r < stop" "stop \<le> sb_unsent ?sb" "sb_fit (fst r) stop max_len = (snd r, enc)"
      using p(8) by blast
    have "stop < 2 ^ 62" using stop(2) off by linarith
    note f = sb_fit_correct(1,2) [OF less_imp_le [OF stop(1)] this len16 len(2) stop(3)]
    have "sb_places (s\<lparr>sy_buf := sb', sy_flight := r # sy_flight s\<rparr>) x = sb_places s x" for x
      using p(5,6) by (auto simp: sb_places_def sb_acked_def p(3,4))
    then show ?thesis using p(1,2) fl f stop(2) pl by (simp add: sy_inv_def)
  next
    case True
    note p = sb_poll_new [OF sb len16 len(2) True poll]
    note f = sb_fit_correct(1,2) [OF _ off(2) len16 len(2) p(7), unfolded p(5), OF off(1)]
    have "sb_places (s\<lparr>sy_buf := sb', sy_flight := r # sy_flight s\<rparr>) x
        = sb_places s x + of_bool (x \<in> range_elems r)" for x
      by (simp add: sb_places_def sb_acked_def p(2,3,4))
    then show ?thesis using p(1,5,6) fl f pl
      by (auto simp: sy_inv_def range_elems_def of_bool_def)
  qed
qed

lemma sy_inv_ack [step_inv]:
  assumes inv: "sy_inv s" and r: "r \<in> set (sy_flight s)" and ack: "sb_ack r (sy_buf s) = Some sb'"
  shows "sy_inv (s\<lparr>sy_buf := sb', sy_flight := remove1 r (sy_flight s)\<rparr>)"
proof -
  have sb: "sb_inv (sy_written s) (sy_buf s)" and pl: "\<And>x. sb_places s x = of_bool (x < sb_unsent (sy_buf s))"
    and fl: "\<forall>q\<in>set (sy_flight s). fst q \<le> snd q \<and> snd q \<le> sb_unsent (sy_buf s)"
    using inv by (auto simp: sy_inv_def)
  have "snd r \<le> length (sy_written s)" using sb fl r by (fastforce simp: sb_inv_def)
  then have sb': "sb_inv (sy_written s) sb'" "sb_acked sb' = sb_acked (sy_buf s) \<union> range_elems r"
      "sb_unsent sb' = sb_unsent (sy_buf s)" "sb_retransmits sb' = sb_retransmits (sy_buf s)"
    using sb_ack_correct [OF sb, of r] ack by auto
  have "sb_places (s\<lparr>sy_buf := sb', sy_flight := remove1 r (sy_flight s)\<rparr>) x = sb_places s x" for x
    using pl [of x] places_remove1 [OF r, of "\<lambda>r. x \<in> range_elems r"]
    by (auto simp: sb_places_def sb'(2,4) of_bool_def split: if_splits)
  then show ?thesis using sb' fl pl by (auto simp: sy_inv_def dest: set_remove1_subset [THEN subsetD])
qed

lemma sy_inv_lose [step_inv]:
  assumes inv: "sy_inv s" and r: "r \<in> set (sy_flight s)"
  shows "sy_inv (s\<lparr>sy_buf := sb_retransmit r (sy_buf s), sy_flight := remove1 r (sy_flight s)\<rparr>)"
proof -
  have sb: "sb_inv (sy_written s) (sy_buf s)" and pl: "\<And>x. sb_places s x = of_bool (x < sb_unsent (sy_buf s))"
    and fl: "\<forall>q\<in>set (sy_flight s). fst q \<le> snd q \<and> snd q \<le> sb_unsent (sy_buf s)"
    using inv by (auto simp: sy_inv_def)
  have le: "snd r \<le> sb_unsent (sy_buf s)" using fl r by blast
  note sb' = sb_retransmit_inv [OF sb le]
  have same: "sb_acked (sb_retransmit r (sy_buf s)) = sb_acked (sy_buf s)"
      "sb_unsent (sb_retransmit r (sy_buf s)) = sb_unsent (sy_buf s)"
    by (simp_all add: sb_retransmit_def sb_acked_def sb_base_def)
  have "sb_places (s\<lparr>sy_buf := sb_retransmit r (sy_buf s), sy_flight := remove1 r (sy_flight s)\<rparr>) x = sb_places s x" for x
    using pl [of x] places_remove1 [OF r, of "\<lambda>r. x \<in> range_elems r"]
    by (auto simp: sb_places_def sb'(2) same of_bool_def split: if_splits)
  then show ?thesis using sb'(1) same fl pl by (auto simp: sy_inv_def dest: set_remove1_subset [THEN subsetD])
qed

lemma sy_inv_retry [step_inv]:
  assumes "sy_inv s" "sb_base (sy_buf s) = 0" "sb_acks (sy_buf s) = []" "sb_retransmits (sy_buf s) = []"
  shows "sy_inv (s\<lparr>sy_buf := sb_retransmit_all_for_0rtt (sy_buf s), sy_flight := []\<rparr>)"
  using assms by (simp add: sy_inv_def sb_inv_def sb_places_def sb_retransmit_all_for_0rtt_def sb_acked_def sb_base_def)

lemma sb_step_inv: "sb_step s l s' \<Longrightarrow> sy_inv s \<Longrightarrow> sy_inv s'"
  by (erule sb_step.cases) (simp_all only: step_inv)

lemma reachable_sy_inv: "reachable (\<lambda>s. s = sb_start) sb_step s \<Longrightarrow> sy_inv s"
  by (erule reachable_invariant) (auto intro: sb_step_inv sy_inv_start)

lemma sy_inv_acked: "sy_inv s \<Longrightarrow> x \<in> sb_acked (sy_buf s) \<Longrightarrow> x < sb_unsent (sy_buf s)"
  by (auto simp: sy_inv_def sb_places_def of_bool_def split: if_splits dest!: spec [of _ x])

text \<open>A retransmission is never of bytes the buffer has already let go.\<close>

lemma sy_inv_retransmits:
  assumes "sy_inv s" "x \<in> ranges_elems (sb_retransmits (sy_buf s))"
  shows "sb_base (sy_buf s) \<le> x"
proof (rule ccontr)
  assume "\<not> ?thesis"
  then have "x \<in> sb_acked (sy_buf s)" by (simp add: sb_acked_def)
  moreover have "sb_places s x \<le> 1" using assms(1) by (simp add: sy_inv_def)
  ultimately show False using assms(2) by (simp add: sb_places_def)
qed

lemma sy_inv_base_unsent: "sy_inv s \<Longrightarrow> sb_base (sy_buf s) \<le> sb_unsent (sy_buf s)"
  using sy_inv_acked [of s "sb_base (sy_buf s) - 1"] by (cases "sb_base (sy_buf s)") (auto simp: sb_acked_def)

text \<open>Runs can be computed.\<close>

fun sb_exec :: "sb_event \<Rightarrow> sb_system \<Rightarrow> sb_system option" where
  "sb_exec (SbWrite data) s = (if length (sy_written s) + length data < 2 ^ 62
     then Some (s\<lparr>sy_buf := sb_write data (sy_buf s), sy_written := sy_written s @ data\<rparr>) else None)"
| "sb_exec (SbTransmit max_len) s = (if 17 \<le> max_len \<and> max_len < 2 ^ 62
     then (case sb_poll_transmit max_len (sy_buf s) of
       ((r, _), sb') \<Rightarrow> Some (s\<lparr>sy_buf := sb', sy_flight := r # sy_flight s\<rparr>)) else None)"
| "sb_exec (SbAck r) s = (if r \<in> set (sy_flight s) then map_option
     (\<lambda>sb'. s\<lparr>sy_buf := sb', sy_flight := remove1 r (sy_flight s)\<rparr>) (sb_ack r (sy_buf s)) else None)"
| "sb_exec (SbLose r) s = (if r \<in> set (sy_flight s)
     then Some (s\<lparr>sy_buf := sb_retransmit r (sy_buf s), sy_flight := remove1 r (sy_flight s)\<rparr>) else None)"
| "sb_exec SbRetry s = (if sb_base (sy_buf s) = 0 \<and> sb_acks (sy_buf s) = [] \<and> sb_retransmits (sy_buf s) = []
     then Some (s\<lparr>sy_buf := sb_retransmit_all_for_0rtt (sy_buf s), sy_flight := []\<rparr>) else None)"

primrec sb_run :: "sb_event list \<Rightarrow> sb_system \<Rightarrow> sb_system option" where
  "sb_run [] s = Some s"
| "sb_run (e # es) s = Option.bind (sb_exec e s) (sb_run es)"

lemma sb_exec_step: "sb_exec e s = Some s' \<Longrightarrow> sb_step s e s'"
  by (cases e) (auto intro!: sb_step.intros split: if_splits prod.splits)

lemma sb_run_reachable:
  "sb_run es s = Some s' \<Longrightarrow> reachable (\<lambda>s. s = sb_start) sb_step s \<Longrightarrow> reachable (\<lambda>s. s = sb_start) sb_step s'"
  by (induction es arbitrary: s) (auto simp: bind_eq_Some_conv intro: reach_step dest!: sb_exec_step)

lemmas sb_run_from_start = sb_run_reachable [OF _ reach_init [of "\<lambda>s. s = sb_start", OF refl]]

lemma sb_transmit_correct:
  assumes inv: "sy_inv s" and len: "17 \<le> max_len" "max_len < 2 ^ 62"
    and poll: "sb_poll_transmit max_len (sy_buf s) = ((r, enc), sb')"
  shows "sb_collect sb' (fst r) (snd r) = Some (byte_slice (sy_written s) r)
    \<and> fst r \<le> snd r \<and> snd r \<le> length (sy_written s)
    \<and> (\<forall>x\<in>range_elems r. x \<notin> sb_acked (sy_buf s) \<and> (\<forall>q\<in>set (sy_flight s). x \<notin> range_elems q))
    \<and> offset_size (fst r) + (if enc then 8 else 0) + (snd r - fst r) \<le> max_len
    \<and> (\<not> enc \<longrightarrow> offset_size (fst r) + (snd r - fst r) = max_len)
    \<and> (sb_has_unsent_data (sy_buf s) \<longrightarrow> fst r < snd r)
    \<and> (sb_retransmits (sy_buf s) \<noteq> [] \<longrightarrow> range_elems r \<subseteq> ranges_elems (sb_retransmits (sy_buf s)))"
proof -
  let ?sb = "sy_buf s" and ?w = "sy_written s"
  let ?R = "ranges_elems (sb_retransmits ?sb)"
  have sb: "sb_inv ?w ?sb" and ok: "ranges_ok (sb_retransmits ?sb)" using inv by (auto simp: sy_inv_def sb_inv_def)
  have len16: "16 \<le> max_len" using len(1) by simp
  have off: "sb_unsent ?sb \<le> sb_offset ?sb" "sb_offset ?sb < 2 ^ 62" "sb_offset ?sb = length ?w"
    using sb by (auto simp: sb_inv_def)
  have inv': "sy_inv (s\<lparr>sy_buf := sb', sy_flight := r # sy_flight s\<rparr>)" by (rule sy_inv_transmit [OF inv len poll])
  obtain stop where stop: "fst r \<le> stop" "stop \<le> sb_offset ?sb" "sb_fit (fst r) stop max_len = (snd r, enc)"
    and base: "sb_base sb' \<le> fst r" "sb_inv ?w sb'" "sb_acks sb' = sb_acks ?sb" "sb_base sb' = sb_base ?sb"
    and more: "sb_has_unsent_data ?sb \<longrightarrow> fst r < stop" "sb_retransmits ?sb \<noteq> [] \<longrightarrow> range_elems r \<subseteq> ?R"
  proof (cases "?R = {}")
    case False
    note p = sb_poll_retransmit [OF sb len16 len(2) False poll]
    obtain stop where stop: "fst r < stop" "stop \<le> sb_unsent ?sb" "sb_fit (fst r) stop max_len = (snd r, enc)"
      using p(8) by blast
    have "fst r \<in> ?R" using p(7) False by (simp add: Min_in)
    then have "sb_base ?sb \<le> fst r" by (rule sy_inv_retransmits [OF inv])
    then show ?thesis using that [of stop] stop off p by auto
  next
    case True
    note p = sb_poll_new [OF sb len16 len(2) True poll]
    have "sb_retransmits ?sb = []" using True ok ranges_elems_empty_iff by blast
    then show ?thesis
      using that [of "sb_offset ?sb"] p off sy_inv_base_unsent [OF inv]
      by (auto simp: sb_has_unsent_data_def btree_is_empty_def)
  qed
  have "stop < 2 ^ 62" using stop(2) off by linarith
  note fit = sb_fit_correct [OF stop(1) this len16 len(2) stop(3)]
  have le: "snd r \<le> length ?w" using fit(2) stop(2) off(3) by simp
  have "x \<notin> sb_acked ?sb \<and> (\<forall>q\<in>set (sy_flight s). x \<notin> range_elems q)" if x: "x \<in> range_elems r" for x
  proof -
    have "sb_places (s\<lparr>sy_buf := sb', sy_flight := r # sy_flight s\<rparr>) x \<le> 1" using inv' by (simp add: sy_inv_def)
    moreover have "sb_acked sb' = sb_acked ?sb" by (simp add: sb_acked_def base(3,4))
    ultimately show ?thesis using x by (auto simp: sb_places_def filter_empty_conv split: if_splits)
  qed
  then show ?thesis
    using sb_collect_correct [OF base(2,1) fit(1) le] le fit more len(1) by auto
qed

lemma sb_fully_acked_iff:
  assumes "sb_inv w sb"
  shows "sb_is_fully_acked sb \<longleftrightarrow> {..<length w} \<subseteq> sb_acked sb"
proof -
  have notin: "sb_base sb \<notin> sb_acked sb" using assms by (auto simp: sb_acked_def sb_inv_def)
  note base = sb_inv_base [OF assms]
  show ?thesis
  proof (cases "sb_unacked_len sb = 0")
    case True
    then show ?thesis using base by (auto simp: sb_is_fully_acked_def sb_acked_def)
  next
    case False
    then have "sb_base sb \<in> {..<length w}" using base by simp
    then show ?thesis using notin False by (auto simp: sb_is_fully_acked_def)
  qed
qed

section \<open>Properties\<close>

text \<open>(C24) Along every run of a send buffer with its packets being acknowledged, lost or still in
  flight in any order, each byte written by the application is in exactly one place: acknowledged,
  in exactly one packet in flight, scheduled for retransmission, or not yet sent.  The buffer
  reports all data as acknowledged exactly when every byte written is.\<close>

theorem send_buffer_accounts_every_byte:
  assumes "reachable (\<lambda>s. s = sb_start) sb_step s"
  shows "sb_offset (sy_buf s) = length (sy_written s)
    \<and> (\<forall>x<length (sy_written s). sb_places s x + of_bool (sb_unsent (sy_buf s) \<le> x) = 1)
    \<and> (sb_is_fully_acked (sy_buf s) \<longleftrightarrow> {..<length (sy_written s)} \<subseteq> sb_acked (sy_buf s))"
proof -
  note inv = reachable_sy_inv [OF assms]
  then have sb: "sb_inv (sy_written s) (sy_buf s)" by (simp add: sy_inv_def)
  have "sb_is_fully_acked (sy_buf s) \<longleftrightarrow> {..<length (sy_written s)} \<subseteq> sb_acked (sy_buf s)"
    by (rule sb_fully_acked_iff [OF sb])
  then show ?thesis using sb inv by (auto simp: sb_inv_def sy_inv_def of_bool_def)
qed

theorem send_buffer_accounts_every_byte_witness:
  "\<exists>s. sb_run [SbWrite (replicate 20 7), SbTransmit 17, SbTransmit 30, SbLose (0, 17), SbAck (17, 20), SbTransmit 18] sb_start = Some s
     \<and> sb_offset (sy_buf s) = 20 \<and> sb_places s 18 = 1 \<and> sb_places s 12 = 1 \<and> sb_places s 3 = 1
     \<and> \<not> sb_is_fully_acked (sy_buf s)"
proof -
  let ?es = "[SbWrite (replicate 20 7), SbTransmit 17, SbTransmit 30, SbLose (0, 17), SbAck (17, 20), SbTransmit 18]"
  have "(case sb_run ?es sb_start of None \<Rightarrow> False
      | Some s \<Rightarrow> length (sy_written s) = 20 \<and> sb_unsent (sy_buf s) = 20 \<and> \<not> sb_is_fully_acked (sy_buf s))" by code_simp
  then obtain s where run: "sb_run ?es sb_start = Some s"
    and s: "length (sy_written s) = 20" "sb_unsent (sy_buf s) = 20" "\<not> sb_is_fully_acked (sy_buf s)"
    by (auto split: option.splits)
  from send_buffer_accounts_every_byte [OF sb_run_from_start [OF run]] run s show ?thesis
    by (intro exI [of _ s]) simp
qed

text \<open>(C25) Along every run, a transmission hands out a range of written bytes, none of them
  acknowledged or handed out to another packet in flight, lost ranges before new data; the copying loop
  of the frame writer returns, with exactly the bytes written there.  The frame fits the space given,
  its length is left out only when it fills that space, and it carries data whenever there is any
  to send.\<close>

theorem transmit_sends_written_data:
  assumes "reachable (\<lambda>s. s = sb_start) sb_step s" "17 \<le> max_len" "max_len < 2 ^ 62"
    and "sb_poll_transmit max_len (sy_buf s) = ((r, enc), sb')"
  shows "sb_collect sb' (fst r) (snd r) = Some (byte_slice (sy_written s) r)
    \<and> fst r \<le> snd r \<and> snd r \<le> length (sy_written s)
    \<and> (\<forall>x\<in>range_elems r. x \<notin> sb_acked (sy_buf s) \<and> (\<forall>q\<in>set (sy_flight s). x \<notin> range_elems q))
    \<and> offset_size (fst r) + (if enc then 8 else 0) + (snd r - fst r) \<le> max_len
    \<and> (\<not> enc \<longrightarrow> offset_size (fst r) + (snd r - fst r) = max_len)
    \<and> (sb_has_unsent_data (sy_buf s) \<longrightarrow> fst r < snd r)
    \<and> (sb_retransmits (sy_buf s) \<noteq> [] \<longrightarrow> range_elems r \<subseteq> ranges_elems (sb_retransmits (sy_buf s)))"
  by (rule sb_transmit_correct [OF reachable_sy_inv [OF assms(1)] assms(2-4)])

theorem transmit_sends_written_data_witness:
  "\<exists>s. sb_run [SbWrite [1, 2, 3], SbWrite [4, 5], SbTransmit 20, SbLose (0, 5)] sb_start = Some s
     \<and> fst (sb_poll_transmit 17 (sy_buf s)) = ((0, 5), True)
     \<and> sb_collect (snd (sb_poll_transmit 17 (sy_buf s))) 0 5 = Some [1, 2, 3, 4, 5]"
proof -
  let ?es = "[SbWrite [1, 2, 3], SbWrite [4, 5], SbTransmit 20, SbLose (0, 5)]"
  have "(case sb_run ?es sb_start of None \<Rightarrow> False
      | Some s \<Rightarrow> fst (sb_poll_transmit 17 (sy_buf s)) = ((0, 5), True)
          \<and> byte_slice (sy_written s) (0, 5) = [1, 2, 3, 4, 5])" by code_simp
  then obtain s where run: "sb_run ?es sb_start = Some s"
    and p: "fst (sb_poll_transmit 17 (sy_buf s)) = ((0, 5), True)"
    and w: "byte_slice (sy_written s) (0, 5) = [1, 2, 3, 4, 5]" by (auto split: option.splits simp del: sb_run.simps)
  have "sb_poll_transmit 17 (sy_buf s) = (((0, 5), True), snd (sb_poll_transmit 17 (sy_buf s)))"
    by (simp add: p [symmetric])
  from transmit_sends_written_data [OF sb_run_from_start [OF run] _ _ this] run p w show ?thesis
    by (intro exI [of _ s]) (simp del: sb_run.simps)
qed

text \<open>(C26) Acknowledging a range in flight never panics and adds exactly its bytes to the
  acknowledged ones, whatever was acknowledged before and however the data is cut into segments;
  what is left to send does not change.\<close>

theorem ack_exact:
  assumes "reachable (\<lambda>s. s = sb_start) sb_step s" "r \<in> set (sy_flight s)"
  shows "\<exists>sb'. sb_ack r (sy_buf s) = Some sb' \<and> sb_acked sb' = sb_acked (sy_buf s) \<union> range_elems r
    \<and> concat (sb_segments sb') = drop (sb_base sb') (sy_written s)
    \<and> sb_base sb' \<notin> sb_acked sb'
    \<and> sb_unsent sb' = sb_unsent (sy_buf s) \<and> sb_retransmits sb' = sb_retransmits (sy_buf s)"
proof -
  note inv = reachable_sy_inv [OF assms(1)]
  then have sb: "sb_inv (sy_written s) (sy_buf s)" by (simp add: sy_inv_def)
  have "snd r \<le> length (sy_written s)" using inv assms(2) by (fastforce simp: sy_inv_def sb_inv_def)
  from sb_ack_correct [OF sb this] show ?thesis by (auto simp: sb_inv_def sb_acked_def)
qed

theorem ack_exact_witness:
  "\<exists>s. sb_run [SbWrite [1, 2, 3], SbWrite [4, 5], SbTransmit 20] sb_start = Some s
     \<and> sy_flight s = [(0, 5)] \<and> (\<exists>sb'. sb_ack (0, 5) (sy_buf s) = Some sb' \<and> sb_acked sb' = {..<5})"
proof -
  let ?es = "[SbWrite [1, 2, 3], SbWrite [4, 5], SbTransmit 20]"
  have "(case sb_run ?es sb_start of None \<Rightarrow> False
      | Some s \<Rightarrow> sy_flight s = [(0, 5)] \<and> sb_base (sy_buf s) = 0 \<and> sb_acks (sy_buf s) = [])" by code_simp
  then obtain s where run: "sb_run ?es sb_start = Some s" and fl: "sy_flight s = [(0, 5)]"
    and base: "sb_base (sy_buf s) = 0" "sb_acks (sy_buf s) = []" by (auto split: option.splits simp del: sb_run.simps)
  have "sb_acked (sy_buf s) \<union> range_elems (0, 5) = {..<5}"
    by (simp only: sb_acked_def base) (auto simp: range_elems_def)
  then show ?thesis
    using ack_exact [OF sb_run_from_start [OF run], of "(0, 5)"] run fl
    by (intro exI [of _ s]) (auto simp del: sb_run.simps)
qed

end
