(* ===== verification/Binary_Heap.thy ===== *)
theory Binary_Heap
  imports Prelude "HOL-Library.Multiset"
begin

text \<open>
  \<^verbatim>\<open>std::collections::BinaryHeap\<close> as a list in the order in which the heap would give its elements
  up, greatest first.  \<open>before x y\<close> says that \<open>x\<close> may be given up before \<open>y\<close>; where two elements
  compare equal the heap's choice is unspecified and the list keeps the older one first.
\<close>

fun heap_insert :: "('a \<Rightarrow> 'a \<Rightarrow> bool) \<Rightarrow> 'a \<Rightarrow> 'a list \<Rightarrow> 'a list" where
  "heap_insert before x [] = [x]"
| "heap_insert before x (y # ys) = (if before y x then y # heap_insert before x ys else x # y # ys)"

lemma mset_heap_insert [simp]: "mset (heap_insert before x ys) = add_mset x (mset ys)"
  by (induction ys) auto

lemma set_heap_insert [simp]: "set (heap_insert before x ys) = insert x (set ys)"
  by (induction ys) auto

text \<open>What the order has to promise: the reversed \<^verbatim>\<open>Ord\<close> of the elements is a total preorder.\<close>

locale heap_order =
  fixes before :: "'a \<Rightarrow> 'a \<Rightarrow> bool"
  assumes before_total: "before x y \<or> before y x"
    and before_trans: "before x y \<Longrightarrow> before y z \<Longrightarrow> before x z"
begin

lemma sorted_heap_insert: "sorted_wrt before ys \<Longrightarrow> sorted_wrt before (heap_insert before x ys)"
proof (induction ys)
  case (Cons y ys)
  show ?case
  proof (cases "before y x")
    case True
    then show ?thesis using Cons by auto
  next
    case False
    then have "before x y" using before_total by blast
    then show ?thesis using Cons.prems False before_trans by auto
  qed
qed simp

lemma heap_top: "sorted_wrt before (x # ys) \<Longrightarrow> y \<in> set ys \<Longrightarrow> before x y"
  by simp

end

end
