(* ===== verification/Assembler.thy ===== *)
theory Assembler
  imports BTree_Range_Set Binary_Heap
begin

text \<open>
  The assembler of received stream data (\<^verbatim>\<open>src/src/connection/assembler.rs\<close>): frames arrive in
  any order, overlapping and repeated, and the application reads the stream either in order or as
  the chunks come.  The second half proves that ordered reads deliver exactly the
  contiguous prefix that has arrived, that unordered reads deliver every byte once, and shows two
  uses in which bytes are delivered twice.
\<close>

section \<open>Buffers and the heap\<close>

record buffer =
  bf_offset :: nat
  bf_bytes :: bytes
  bf_allocation_size :: nat
  bf_defragmented :: bool

definition buffer_new :: "nat \<Rightarrow> bytes \<Rightarrow> nat \<Rightarrow> buffer" where
  "buffer_new offset bytes allocation_size = \<lparr>bf_offset = offset, bf_bytes = bytes,
     bf_allocation_size = allocation_size, bf_defragmented = False\<rparr>"

definition buffer_new_defragmented :: "nat \<Rightarrow> bytes \<Rightarrow> buffer" where
  "buffer_new_defragmented offset bytes = \<lparr>bf_offset = offset, bf_bytes = bytes,
     bf_allocation_size = length bytes, bf_defragmented = True\<rparr>"

definition try_mark_defragment :: "nat \<Rightarrow> buffer \<Rightarrow> buffer" where
  "try_mark_defragment offset b =
     (let duplicate = offset - bf_offset b;
          b1 = b\<lparr>bf_offset := max (bf_offset b) offset\<rparr>
      in if length (bf_bytes b) \<le> duplicate
         then b1\<lparr>bf_bytes := [], bf_defragmented := True, bf_allocation_size := 0\<rparr>
         else let bytes = drop duplicate (bf_bytes b);
                  defragmented = (bf_defragmented b
                    \<or> bf_allocation_size b \<le> (length bytes * 6) mod 2 ^ 64 div 5)
              in b1\<lparr>bf_bytes := bytes, bf_defragmented := defragmented,
                   bf_allocation_size := (if defragmented then length bytes else bf_allocation_size b)\<rparr>)"

text \<open>\<^verbatim>\<open>Buffer::cmp\<close>: smaller offsets are greater, and longer buffers at the same offset.  The heap
  gives up the greatest element first.\<close>

definition buffer_before :: "buffer \<Rightarrow> buffer \<Rightarrow> bool" where
  "buffer_before a b \<longleftrightarrow> bf_offset a < bf_offset b
     \<or> bf_offset a = bf_offset b \<and> length (bf_bytes b) \<le> length (bf_bytes a)"

interpretation buffer_heap: heap_order buffer_before
  by unfold_locales (auto simp: buffer_before_def)

abbreviation heap_push :: "buffer \<Rightarrow> buffer list \<Rightarrow> buffer list" where
  "heap_push \<equiv> heap_insert buffer_before"

section \<open>The assembler\<close>

datatype asm_state = Ordered | Unordered btree_range_set

record assembler =
  as_state :: asm_state
  as_data :: "buffer list"
  as_buffered :: nat
  as_allocated :: nat
  as_bytes_read :: nat
  as_end :: nat

record chunk =
  ch_offset :: nat
  ch_bytes :: bytes

datatype illegal_ordered_read = IllegalOrderedRead

definition asm_new :: assembler where
  "asm_new = \<lparr>as_state = Ordered, as_data = [], as_buffered = 0, as_allocated = 0,
     as_bytes_read = 0, as_end = 0\<rparr>"

definition asm_reinit :: "assembler \<Rightarrow> assembler" where
  "asm_reinit a = asm_new\<lparr>as_data := []\<rparr>"

definition is_ordered :: "asm_state \<Rightarrow> bool" where
  "is_ordered s \<longleftrightarrow> (case s of Ordered \<Rightarrow> True | Unordered _ \<Rightarrow> False)"

text \<open>The two passes of \<^verbatim>\<open>defragment\<close>.  The first walks the buffers by offset and cuts what an
  earlier one already holds.\<close>

fun defragment_mark :: "nat \<Rightarrow> buffer list \<Rightarrow> buffer list" where
  "defragment_mark offset [] = []"
| "defragment_mark offset (c # cs) =
     (let c' = try_mark_defragment offset c
      in c' # defragment_mark (u64_add (bf_offset c') (length (bf_bytes c'))) cs)"

text \<open>The second copies the fragmented ones into one buffer for each contiguous stretch.\<close>

fun defragment_merge :: "nat \<Rightarrow> bytes \<Rightarrow> buffer list \<Rightarrow> buffer list \<Rightarrow> buffer list" where
  "defragment_merge offset buf [] data =
     (if buf \<noteq> [] then heap_push (buffer_new_defragmented offset buf) data else data)"
| "defragment_merge offset buf (c # cs) data =
     (if bf_defragmented c
      then defragment_merge offset buf cs (if bf_bytes c \<noteq> [] then heap_push c data else data)
      else if bf_offset c \<noteq> u64_add offset (length buf)
      then defragment_merge (bf_offset c) (bf_bytes c) cs
             (if buf \<noteq> [] then heap_push (buffer_new_defragmented offset buf) data else data)
      else defragment_merge offset (buf @ bf_bytes c) cs data)"

definition defragment :: "assembler \<Rightarrow> assembler" where
  "defragment a =
     (let marked = defragment_mark 0 (as_data a);
          buffered = fold (\<lambda>c n. u64_add n (length (bf_bytes c))) marked 0
      in a\<lparr>as_data := defragment_merge 0 [] marked [], as_buffered := buffered, as_allocated := buffered\<rparr>)"

definition ensure_ordering :: "bool \<Rightarrow> (assembler, illegal_ordered_read, unit) op" where
  "ensure_ordering ordered a =
     (if ordered \<and> \<not> is_ordered (as_state a) then (Inl IllegalOrderedRead, a)
      else if \<not> ordered \<and> is_ordered (as_state a)
      then let a1 = (if as_data a \<noteq> [] then defragment a else a);
               recvd0 = snd (btree_insert btree_new (0, as_bytes_read a1));
               recvd = fold (\<lambda>c t. snd (btree_insert t
                 (bf_offset c, u64_add (bf_offset c) (length (bf_bytes c))))) (as_data a1) recvd0
           in (Inr (), a1\<lparr>as_state := Unordered recvd\<rparr>)
      else (Inr (), a))"

text \<open>The end of \<^verbatim>\<open>read\<close>, with the chunk at the top of the heap already cut to the read index.\<close>

definition asm_take :: "nat \<Rightarrow> buffer \<Rightarrow> buffer list \<Rightarrow> assembler \<Rightarrow> chunk option \<times> assembler" where
  "asm_take max_length c rest a =
     (let len = length (bf_bytes c) in
      if max_length < len
      then (Some \<lparr>ch_offset = bf_offset c, ch_bytes = take max_length (bf_bytes c)\<rparr>,
            a\<lparr>as_bytes_read := u64_add (as_bytes_read a) max_length,
              as_buffered := u64_sub (as_buffered a) max_length,
              as_data := heap_push (c\<lparr>bf_offset := u64_add (bf_offset c) max_length,
                bf_bytes := drop max_length (bf_bytes c)\<rparr>) rest\<rparr>)
      else (Some \<lparr>ch_offset = bf_offset c, ch_bytes = bf_bytes c\<rparr>,
            a\<lparr>as_bytes_read := u64_add (as_bytes_read a) len,
              as_buffered := u64_sub (as_buffered a) len,
              as_allocated := u64_sub (as_allocated a) (bf_allocation_size c),
              as_data := rest\<rparr>))"

function asm_read :: "nat \<Rightarrow> bool \<Rightarrow> assembler \<Rightarrow> chunk option \<times> assembler" where
  "asm_read max_length ordered a =
     (case as_data a of
        [] \<Rightarrow> (None, a)
      | c # rest \<Rightarrow>
          if ordered
          then if as_bytes_read a < bf_offset c then (None, a)
               else if u64_add (bf_offset c) (length (bf_bytes c)) \<le> as_bytes_read a
               then asm_read max_length ordered
                      (a\<lparr>as_buffered := u64_sub (as_buffered a) (length (bf_bytes c)),
                         as_allocated := u64_sub (as_allocated a) (bf_allocation_size c),
                         as_data := rest\<rparr>)
               else let start = u64_sub (as_bytes_read a) (bf_offset c)
                    in asm_take max_length
                         (c\<lparr>bf_bytes := drop start (bf_bytes c), bf_offset := u64_add (bf_offset c) start\<rparr>)
                         rest (a\<lparr>as_buffered := u64_sub (as_buffered a) start\<rparr>)
          else asm_take max_length c rest a)"
  by pat_completeness auto
termination
  by (relation "measure (\<lambda>(_, _, a). length (as_data a))") auto

declare asm_read.simps [simp del]

text \<open>The deduplication of \<^verbatim>\<open>insert\<close>.  None is the panic of \<^verbatim>\<open>split_to\<close> or \<^verbatim>\<open>advance\<close>
  past the end of the bytes.\<close>

fun asm_dedup :: "nat \<Rightarrow> range list \<Rightarrow> nat \<Rightarrow> bytes \<Rightarrow> assembler \<Rightarrow> (nat \<times> bytes \<times> assembler) option" where
  "asm_dedup allocation_size [] offset bytes a = Some (offset, bytes, a)"
| "asm_dedup allocation_size (dup # dups) offset bytes a =
     (let n = u64_sub (fst dup) offset;
          front = offset < fst dup;
          offset1 = (if front then fst dup else offset);
          bytes1 = (if front then drop n bytes else bytes);
          a1 = (if front
                then a\<lparr>as_buffered := u64_add (as_buffered a) n,
                       as_allocated := u64_add (as_allocated a) allocation_size,
                       as_data := heap_push (buffer_new offset (take n bytes) allocation_size) (as_data a)\<rparr>
                else a);
          m = u64_sub (snd dup) offset1
      in if front \<and> length bytes < n \<or> length bytes1 < m then None
         else asm_dedup allocation_size dups (snd dup) (drop m bytes1) a1)"

text \<open>The end of \<^verbatim>\<open>insert\<close>: store what is left and keep the memory held in proportion.\<close>

definition asm_store :: "nat \<Rightarrow> nat \<Rightarrow> bytes \<Rightarrow> assembler \<Rightarrow> assembler" where
  "asm_store allocation_size offset bytes a =
     (if bytes = [] then a
      else let a1 = a\<lparr>as_buffered := u64_add (as_buffered a) (length bytes),
                      as_allocated := u64_add (as_allocated a) allocation_size,
                      as_data := heap_push (buffer_new offset bytes allocation_size) (as_data a)\<rparr>;
               buffered = min (as_buffered a1) (u64_sub (as_end a1) (as_bytes_read a1));
               over_allocation = u64_sub (as_allocated a1) buffered;
               threshold = max 32768 ((buffered * 3) mod 2 ^ 64 div 2)
           in if threshold < over_allocation then defragment a1 else a1)"

definition asm_insert :: "nat \<Rightarrow> bytes \<Rightarrow> nat \<Rightarrow> assembler \<Rightarrow> assembler option" where
  "asm_insert offset bytes allocation_size a =
     (let stop = u64_add offset (length bytes);
          a1 = a\<lparr>as_end := max (as_end a) stop\<rparr>
      in case as_state a of
           Unordered recvd \<Rightarrow>
             let (dups, recvd') = btree_replace_all recvd (offset, stop)
             in (case asm_dedup allocation_size dups offset bytes (a1\<lparr>as_state := Unordered recvd'\<rparr>) of
                   None \<Rightarrow> None
                 | Some (offset', bytes', a2) \<Rightarrow> Some (asm_store allocation_size offset' bytes' a2))
         | Ordered \<Rightarrow>
             if offset < as_bytes_read a
             then if stop \<le> as_bytes_read a then Some a1
                  else let diff = u64_sub (as_bytes_read a) offset
                       in Some (asm_store allocation_size (u64_add offset diff) (drop diff bytes) a1)
             else Some (asm_store allocation_size offset bytes a1))"

definition asm_clear :: "assembler \<Rightarrow> assembler" where
  "asm_clear a = a\<lparr>as_data := [], as_buffered := 0, as_allocated := 0\<rparr>"

section \<open>What the buffers hold\<close>

text \<open>\<open>w\<close> is the stream of the peer, and a buffer is good when it holds a piece of it.\<close>

definition bf_range :: "buffer \<Rightarrow> range" where
  "bf_range b = (bf_offset b, bf_offset b + length (bf_bytes b))"

definition bf_ok :: "bytes \<Rightarrow> buffer \<Rightarrow> bool" where
  "bf_ok w b \<longleftrightarrow> snd (bf_range b) \<le> length w \<and> byte_slice w (bf_range b) = bf_bytes b"

definition bf_count :: "buffer list \<Rightarrow> nat \<Rightarrow> nat" where
  "bf_count data x = length (filter (\<lambda>b. x \<in> range_elems (bf_range b)) data)"

definition heap_ok :: "bytes \<Rightarrow> buffer list \<Rightarrow> bool" where
  "heap_ok w data \<longleftrightarrow> (\<forall>b\<in>set data. bf_ok w b \<and> bf_bytes b \<noteq> []) \<and> sorted_wrt buffer_before data"

lemma bf_count_simps [simp]:
  "bf_count [] x = 0"
  "bf_count (b # bs) x = of_bool (x \<in> range_elems (bf_range b)) + bf_count bs x"
  by (simp_all add: bf_count_def)

lemma bf_count_pos: "0 < bf_count bs x \<longleftrightarrow> (\<exists>b\<in>set bs. x \<in> range_elems (bf_range b))"
  by (induction bs) auto

lemma bf_count_heap_push [simp]:
  "bf_count (heap_push b cs) x = of_bool (x \<in> range_elems (bf_range b)) + bf_count cs x"
  by (induction cs) auto

lemma heap_ok_simps [simp]:
  "heap_ok w []"
  "heap_ok w (b # bs) \<longleftrightarrow> bf_ok w b \<and> bf_bytes b \<noteq> [] \<and> heap_ok w bs \<and> (\<forall>c\<in>set bs. buffer_before b c)"
  by (auto simp: heap_ok_def)

lemma heap_ok_push: "heap_ok w data \<Longrightarrow> bf_ok w b \<Longrightarrow> bf_bytes b \<noteq> [] \<Longrightarrow> heap_ok w (heap_push b data)"
  by (auto simp: heap_ok_def buffer_heap.sorted_heap_insert)

lemma bf_ok_new [simp]:
  "bf_ok w (buffer_new off bs n) \<longleftrightarrow> off + length bs \<le> length w \<and> byte_slice w (off, off + length bs) = bs"
  "bf_ok w (buffer_new_defragmented off bs) \<longleftrightarrow> off + length bs \<le> length w \<and> byte_slice w (off, off + length bs) = bs"
  "bf_range (buffer_new off bs n) = (off, off + length bs)"
  "bf_range (buffer_new_defragmented off bs) = (off, off + length bs)"
  "bf_bytes (buffer_new off bs n) = bs" "bf_bytes (buffer_new_defragmented off bs) = bs"
  by (simp_all add: bf_ok_def bf_range_def buffer_new_def buffer_new_defragmented_def)

section \<open>Defragmentation\<close>

lemma try_mark_range:
  "range_elems (bf_range (try_mark_defragment off b)) = range_elems (bf_range b) - {..<off}"
  "off \<le> bf_offset (try_mark_defragment off b)" "bf_offset b \<le> bf_offset (try_mark_defragment off b)"
  by (auto simp: try_mark_defragment_def bf_range_def range_elems_def Let_def)

lemma try_mark_ok:
  assumes "bf_ok w b" "off \<le> length w"
  shows "bf_ok w (try_mark_defragment off b)"
proof (cases "length (bf_bytes b) \<le> off - bf_offset b")
  case True
  then show ?thesis using assms
    by (auto simp: try_mark_defragment_def bf_ok_def bf_range_def byte_slice_def Let_def)
next
  case False
  have "drop (off - bf_offset b) (bf_bytes b)
      = byte_slice w (bf_offset b + (off - bf_offset b), bf_offset b + length (bf_bytes b))"
    using assms by (simp add: bf_ok_def bf_range_def drop_byte_slice [symmetric])
  then show ?thesis using False assms
    by (auto simp: try_mark_defragment_def bf_ok_def bf_range_def Let_def max_def add.commute)
qed

lemma defragment_mark_correct:
  assumes "heap_ok w bs" "off \<le> length w" "length w < 2 ^ 62"
  shows "(\<forall>m\<in>set (defragment_mark off bs). bf_ok w m)
    \<and> (\<forall>x. bf_count (defragment_mark off bs) x = of_bool (off \<le> x \<and> 0 < bf_count bs x))"
  using assms
proof (induction bs arbitrary: off)
  case (Cons b bs)
  define b' where "b' = try_mark_defragment off b"
  define off' where "off' = bf_offset b' + length (bf_bytes b')"
  have ok: "bf_ok w b'" using Cons.prems by (simp add: b'_def try_mark_ok)
  then have le: "off' \<le> length w" by (simp add: bf_ok_def bf_range_def off'_def)
  then have add: "u64_add (bf_offset b') (length (bf_bytes b')) = off'"
    using Cons.prems(3) by (simp add: off'_def u64_arith)
  have mark: "defragment_mark off (b # bs) = b' # defragment_mark off' bs"
    by (simp add: b'_def [symmetric] Let_def add)
  note IH = Cons.IH [OF _ le Cons.prems(3)]
  have range: "x \<in> range_elems (bf_range b') \<longleftrightarrow> x \<in> range_elems (bf_range b) \<and> off \<le> x" for x
    by (auto simp: b'_def try_mark_range)
  have below: "x \<in> range_elems (bf_range b') \<Longrightarrow> x < off'" for x
    by (simp add: range_elems_def bf_range_def off'_def)
  have between: "x \<in> range_elems (bf_range b)" if x: "off \<le> x" "x < off'" "0 < bf_count bs x" for x
  proof -
    obtain c where c: "c \<in> set bs" "x \<in> range_elems (bf_range c)" using x(3) bf_count_pos by blast
    then have "bf_offset b \<le> x" using Cons.prems(1) by (fastforce simp: buffer_before_def bf_range_def range_elems_def)
    then show ?thesis using x(1,2) Cons.prems(1)
      by (auto simp: off'_def b'_def try_mark_defragment_def bf_range_def range_elems_def Let_def split: if_splits)
  qed
  have ge: "off \<le> off'" by (simp add: off'_def b'_def try_mark_range(2) trans_le_add1)
  have "bf_count (defragment_mark off (b # bs)) x = of_bool (off \<le> x \<and> 0 < bf_count (b # bs) x)" for x
    using IH Cons.prems(1) range [of x] below [of x] between [of x] ge
    by (cases "x < off'") (auto simp: mark simp del: defragment_mark.simps)
  then show ?case using IH Cons.prems(1) ok by (simp add: mark del: defragment_mark.simps bf_count_simps)
qed simp

lemma defragment_merge_correct:
  assumes "\<forall>c\<in>set cs. bf_ok w c" "heap_ok w data" "length w < 2 ^ 62"
    and "off + length buf \<le> length w" "byte_slice w (off, off + length buf) = buf"
  shows "heap_ok w (defragment_merge off buf cs data)
    \<and> (\<forall>x. bf_count (defragment_merge off buf cs data) x
        = bf_count data x + of_bool (off \<le> x \<and> x < off + length buf) + bf_count cs x)"
  using assms
proof (induction off buf cs data rule: defragment_merge.induct)
  case (1 off buf data)
  then show ?case by (auto intro!: heap_ok_push simp: range_elems_def)
next
  case (2 off buf c cs data)
  have c: "bf_ok w c" "\<forall>c\<in>set cs. bf_ok w c" using "2.prems"(1) by auto
  have add: "u64_add off (length buf) = off + length buf" using "2.prems"(3,4) by (simp add: u64_arith)
  have r: "x \<in> range_elems (bf_range c) \<longleftrightarrow> bf_offset c \<le> x \<and> x < bf_offset c + length (bf_bytes c)" for x
    by (simp add: range_elems_def bf_range_def)
  show ?case
  proof (cases "bf_defragmented c")
    case True
    then show ?thesis using "2.IH"(1) [OF True c(2) _ "2.prems"(3-5)] c(1) "2.prems"(2)
      by (auto simp: heap_ok_push r)
  next
    case frag: False
    show ?thesis
    proof (cases "bf_offset c = off + length buf")
      case True
      have cat: "byte_slice w (off, off + length (buf @ bf_bytes c)) = buf @ bf_bytes c"
        using c(1) "2.prems"(4,5) byte_slice_append [of off "off + length buf" "off + length buf + length (bf_bytes c)" w] True
        by (simp add: bf_ok_def bf_range_def add.assoc)
      have "off + length (buf @ bf_bytes c) \<le> length w" using c(1) True by (simp add: bf_ok_def bf_range_def)
      then show ?thesis using "2.IH"(3) [OF frag _ c(2) "2.prems"(2,3) _ cat] frag True
        by (auto simp: add r)
    next
      case False
      have c': "bf_offset c + length (bf_bytes c) \<le> length w"
          "byte_slice w (bf_offset c, bf_offset c + length (bf_bytes c)) = bf_bytes c"
        using c(1) by (simp_all add: bf_ok_def bf_range_def)
      have "heap_ok w (if buf \<noteq> [] then heap_push (buffer_new_defragmented off buf) data else data)"
        using "2.prems" by (simp add: heap_ok_push)
      then show ?thesis using "2.IH"(2) [OF frag _ c(2) _ "2.prems"(3) c'] frag False
        by (auto simp: add r range_elems_mem)
    qed
  qed
qed

lemma defragment_correct:
  assumes "heap_ok w (as_data a)" "length w < 2 ^ 62"
  shows "heap_ok w (as_data (defragment a))"
    "bf_count (as_data (defragment a)) x = of_bool (0 < bf_count (as_data a) x)"
    "as_state (defragment a) = as_state a" "as_bytes_read (defragment a) = as_bytes_read a"
    "as_end (defragment a) = as_end a"
proof -
  note m = defragment_mark_correct [OF assms(1) le0 assms(2)]
  note d = defragment_merge_correct [OF conjunct1 [OF m] heap_ok_simps(1) assms(2), of 0 "[]"]
  show "heap_ok w (as_data (defragment a))" using d by (simp add: defragment_def Let_def byte_slice_def)
  show "bf_count (as_data (defragment a)) x = of_bool (0 < bf_count (as_data a) x)"
    using d m by (simp add: defragment_def Let_def byte_slice_def)
qed (simp_all add: defragment_def Let_def)

section \<open>Storing a piece\<close>

lemma asm_store_frame [simp]:
  "as_state (asm_store n off bs a) = as_state a" "as_bytes_read (asm_store n off bs a) = as_bytes_read a"
  "as_end (asm_store n off bs a) = as_end a"
  by (simp_all add: asm_store_def Let_def defragment_def)

lemma asm_store_correct:
  assumes "heap_ok w (as_data a)" "length w < 2 ^ 62" "off + length bs \<le> length w"
    and "byte_slice w (off, off + length bs) = bs"
  shows "heap_ok w (as_data (asm_store n off bs a))"
    "0 < bf_count (as_data (asm_store n off bs a)) x \<longleftrightarrow> 0 < bf_count (as_data a) x \<or> off \<le> x \<and> x < off + length bs"
    "bf_count (as_data a) x + of_bool (off \<le> x \<and> x < off + length bs) \<le> 1 \<Longrightarrow>
       bf_count (as_data (asm_store n off bs a)) x = bf_count (as_data a) x + of_bool (off \<le> x \<and> x < off + length bs)"
proof -
  define a1 where "a1 = a\<lparr>as_buffered := u64_add (as_buffered a) (length bs),
      as_allocated := u64_add (as_allocated a) n, as_data := heap_push (buffer_new off bs n) (as_data a)\<rparr>"
  have cases: "bs = [] \<and> asm_store n off bs a = a
      \<or> bs \<noteq> [] \<and> (asm_store n off bs a = a1 \<or> asm_store n off bs a = defragment a1)"
    by (simp add: asm_store_def Let_def a1_def)
  have ok: "heap_ok w (as_data a1)" if "bs \<noteq> []" using assms that by (simp add: a1_def heap_ok_push)
  have count: "bf_count (as_data a1) x = bf_count (as_data a) x + of_bool (off \<le> x \<and> x < off + length bs)"
    by (simp add: a1_def range_elems_mem)
  note defr = defragment_correct [OF ok assms(2)]
  show "heap_ok w (as_data (asm_store n off bs a))" using cases assms(1) ok defr(1) by auto
  show "0 < bf_count (as_data (asm_store n off bs a)) x \<longleftrightarrow> 0 < bf_count (as_data a) x \<or> off \<le> x \<and> x < off + length bs"
    using cases count defr(2) [of x] by auto
  show "bf_count (as_data a) x + of_bool (off \<le> x \<and> x < off + length bs) \<le> 1 \<Longrightarrow>
       bf_count (as_data (asm_store n off bs a)) x = bf_count (as_data a) x + of_bool (off \<le> x \<and> x < off + length bs)"
    using cases count defr(2) [of x] by auto
qed

section \<open>Taking a chunk\<close>

lemma asm_take_correct:
  assumes "heap_ok w rest" "bf_ok w c" "bf_bytes c \<noteq> []" "length w < 2 ^ 62"
  shows "\<exists>ch a'. asm_take max_length c rest a = (Some ch, a') \<and> heap_ok w (as_data a')
    \<and> as_state a' = as_state a \<and> as_end a' = as_end a
    \<and> as_bytes_read a' = u64_add (as_bytes_read a) (length (ch_bytes ch))
    \<and> ch_offset ch = bf_offset c \<and> length (ch_bytes ch) = min max_length (length (bf_bytes c))
    \<and> byte_slice w (ch_offset ch, ch_offset ch + length (ch_bytes ch)) = ch_bytes ch
    \<and> ch_offset ch + length (ch_bytes ch) \<le> length w
    \<and> (\<forall>x. bf_count (as_data a') x + of_bool (ch_offset ch \<le> x \<and> x < ch_offset ch + length (ch_bytes ch))
          = bf_count rest x + of_bool (x \<in> range_elems (bf_range c)))"
proof -
  have le: "bf_offset c + length (bf_bytes c) \<le> length w"
    and eq: "byte_slice w (bf_offset c, bf_offset c + length (bf_bytes c)) = bf_bytes c"
    using assms(2) by (simp_all add: bf_ok_def bf_range_def)
  show ?thesis
  proof (cases "max_length < length (bf_bytes c)")
    case True
    define c' where "c' = c\<lparr>bf_offset := bf_offset c + max_length, bf_bytes := drop max_length (bf_bytes c)\<rparr>"
    have take: "take max_length (bf_bytes c) = byte_slice w (bf_offset c, bf_offset c + max_length)"
      using True by (subst eq [symmetric]) (simp add: take_byte_slice)
    have drop: "drop max_length (bf_bytes c) = byte_slice w (bf_offset c + max_length, bf_offset c + length (bf_bytes c))"
      by (subst eq [symmetric]) (simp add: drop_byte_slice)
    have r: "bf_range c' = (bf_offset c + max_length, bf_offset c + length (bf_bytes c))"
      using True by (simp add: c'_def bf_range_def)
    have "bf_ok w c'" using le drop True by (simp add: bf_ok_def r) (simp add: c'_def)
    then have "heap_ok w (heap_push c' rest)" using assms(1) True by (simp add: heap_ok_push c'_def)
    moreover have "u64_add (bf_offset c) max_length = bf_offset c + max_length"
      using True le assms(4) by (simp_all add: u64_arith)
    ultimately show ?thesis using True take le
      by (auto simp: asm_take_def Let_def c'_def [symmetric] r range_elems_mem) (auto simp: bf_range_def range_elems_mem)
  next
    case False
    then show ?thesis using assms(1) le eq
      by (auto simp: asm_take_def Let_def u64_arith bf_range_def range_elems_mem)
  qed
qed

text \<open>An ordered read: nothing when the next byte has not arrived, and otherwise a stretch of the
  stream that starts at the read index.\<close>

definition ordered_read_post :: "bytes \<Rightarrow> nat \<Rightarrow> (nat \<Rightarrow> bool) \<Rightarrow> nat \<Rightarrow> asm_state \<Rightarrow> nat \<Rightarrow> chunk option \<Rightarrow> assembler \<Rightarrow> bool" where
  "ordered_read_post w max_length arrived br st en res a' \<longleftrightarrow>
     heap_ok w (as_data a') \<and> as_state a' = st \<and> as_end a' = en
     \<and> (case res of
         None \<Rightarrow> \<not> arrived br \<and> as_bytes_read a' = br
       | Some ch \<Rightarrow> ch_offset ch = br \<and> as_bytes_read a' = br + length (ch_bytes ch)
           \<and> as_bytes_read a' \<le> length w \<and> byte_slice w (br, as_bytes_read a') = ch_bytes ch
           \<and> (0 < max_length \<longrightarrow> ch_bytes ch \<noteq> []) \<and> length (ch_bytes ch) \<le> max_length
           \<and> (\<forall>x. br \<le> x \<and> x < as_bytes_read a' \<longrightarrow> arrived x))
     \<and> (\<forall>x\<ge>as_bytes_read a'. 0 < bf_count (as_data a') x \<longleftrightarrow> arrived x)"

lemma ordered_read_post_cong:
  assumes "\<And>x. br \<le> x \<Longrightarrow> P x = Q x" "ordered_read_post w n P br st en res a'"
  shows "ordered_read_post w n Q br st en res a'"
  using assms by (auto simp: ordered_read_post_def split: option.splits)

lemma asm_read_ordered:
  assumes "heap_ok w (as_data a)" "length w < 2 ^ 62" "as_bytes_read a \<le> length w"
    and "asm_read max_length True a = (res, a')"
  shows "ordered_read_post w max_length (\<lambda>x. 0 < bf_count (as_data a) x) (as_bytes_read a) (as_state a) (as_end a) res a'"
  using assms
proof (induction max_length True a arbitrary: res a' rule: asm_read.induct)
  case (1 max_length a)
  let ?br = "as_bytes_read a"
  show ?case
  proof (cases "as_data a")
    case Nil
    then show ?thesis using "1.prems" by (auto simp: asm_read.simps [of max_length _ a] ordered_read_post_def)
  next
    case (Cons c rest)
    have c: "bf_ok w c" "bf_bytes c \<noteq> []" "heap_ok w rest" "\<forall>d\<in>set rest. buffer_before c d"
      using "1.prems"(1) by (auto simp: Cons)
    have le: "bf_offset c + length (bf_bytes c) \<le> length w" using c(1) by (simp add: bf_ok_def bf_range_def)
    have add: "u64_add (bf_offset c) (length (bf_bytes c)) = bf_offset c + length (bf_bytes c)"
      using le "1.prems"(2) by (simp add: u64_arith)
    have r: "x \<in> range_elems (bf_range c) \<longleftrightarrow> bf_offset c \<le> x \<and> x < bf_offset c + length (bf_bytes c)" for x
      by (simp add: bf_range_def range_elems_mem)
    consider "?br < bf_offset c" | "bf_offset c + length (bf_bytes c) \<le> ?br"
      | "bf_offset c \<le> ?br" "?br < bf_offset c + length (bf_bytes c)" by linarith
    then show ?thesis
    proof cases
      case 1
      then have "bf_count rest ?br = 0"
        using c(4) bf_count_pos [of rest ?br] by (fastforce simp: buffer_before_def bf_range_def range_elems_mem)
      then have "bf_count (as_data a) ?br = 0" using 1 by (simp add: Cons r)
      moreover have "res = None" "a' = a" using 1 "1.prems"(4) by (auto simp: asm_read.simps [of max_length _ a] Cons)
      ultimately show ?thesis using "1.prems" by (simp add: ordered_read_post_def)
    next
      case 2
      then have read: "asm_read max_length True (a\<lparr>as_buffered := u64_sub (as_buffered a) (length (bf_bytes c)),
           as_allocated := u64_sub (as_allocated a) (bf_allocation_size c), as_data := rest\<rparr>) = (res, a')"
        using "1.prems"(4) by (auto simp: asm_read.simps [of max_length _ a] Cons add)
      let ?a = "a\<lparr>as_buffered := u64_sub (as_buffered a) (length (bf_bytes c)),
           as_allocated := u64_sub (as_allocated a) (bf_allocation_size c), as_data := rest\<rparr>"
      have "ordered_read_post w max_length (\<lambda>x. 0 < bf_count (as_data ?a) x) (as_bytes_read ?a) (as_state ?a) (as_end ?a) res a'"
        by (rule "1.hyps" [OF Cons _ _ _ _ _ _ read]) (use 2 c(3) "1.prems"(2,3) add in auto)
      then show ?thesis by (simp, elim ordered_read_post_cong [rotated]) (use 2 in \<open>simp add: Cons r\<close>)
    next
      case 3
      define c' where "c' = c\<lparr>bf_bytes := drop (?br - bf_offset c) (bf_bytes c), bf_offset := ?br\<rparr>"
      have r': "bf_range c' = (?br, bf_offset c + length (bf_bytes c))" using 3 by (simp add: c'_def bf_range_def)
      have "drop (?br - bf_offset c) (bf_bytes c) = byte_slice w (?br, bf_offset c + length (bf_bytes c))"
        using c(1) 3 drop_byte_slice [of "?br - bf_offset c" w "bf_offset c" "bf_offset c + length (bf_bytes c)"] by (simp add: bf_ok_def bf_range_def)
      then have ok': "bf_ok w c'" using le by (simp add: bf_ok_def r') (simp add: c'_def)
      have ne': "bf_bytes c' \<noteq> []" using 3 by (simp add: c'_def)
      have read: "asm_take max_length c' rest (a\<lparr>as_buffered := u64_sub (as_buffered a) (?br - bf_offset c)\<rparr>) = (res, a')"
        using "1.prems"(2-4) 3 by (auto simp: asm_read.simps [of max_length _ a] Cons add c'_def u64_arith Let_def)
      have len: "length (bf_bytes c') = bf_offset c + length (bf_bytes c) - ?br" "bf_offset c' = ?br"
        using 3 by (simp_all add: c'_def)
      obtain ch where ch: "res = Some ch" "heap_ok w (as_data a')" "as_state a' = as_state a" "as_end a' = as_end a"
          "as_bytes_read a' = ?br + length (ch_bytes ch)" "ch_offset ch = ?br"
          "length (ch_bytes ch) = min max_length (length (bf_bytes c'))"
          "byte_slice w (?br, ?br + length (ch_bytes ch)) = ch_bytes ch" "?br + length (ch_bytes ch) \<le> length w"
        and cnt: "\<And>x. bf_count (as_data a') x + of_bool (?br \<le> x \<and> x < ?br + length (ch_bytes ch))
            = bf_count rest x + of_bool (?br \<le> x \<and> x < bf_offset c + length (bf_bytes c))"
        using asm_take_correct [OF c(3) ok' ne' "1.prems"(2), of max_length "a\<lparr>as_buffered := u64_sub (as_buffered a) (?br - bf_offset c)\<rparr>"]
          "1.prems"(2) le 3 len unfolding read by (auto simp: r' range_elems_mem u64_arith)
      have "0 < bf_count (as_data a') x \<longleftrightarrow> 0 < bf_count (as_data a) x" if "as_bytes_read a' \<le> x" for x
        using cnt [of x] that 3 ch(5) by (auto simp: Cons r)
      moreover have "0 < bf_count (as_data a) x" if "?br \<le> x" "x < as_bytes_read a'" for x
      proof -
        have "length (ch_bytes ch) \<le> bf_offset c + length (bf_bytes c) - ?br" using ch(7) len(1) by simp
        then have "x < bf_offset c + length (bf_bytes c)" using that 3 unfolding ch(5) by linarith
        then show ?thesis using that 3 by (simp add: Cons r)
      qed
      moreover have "0 < max_length \<longrightarrow> ch_bytes ch \<noteq> []" "length (ch_bytes ch) \<le> max_length"
        using ch(7) ne' by (auto simp: min_def split: if_splits)
      ultimately show ?thesis using ch by (simp add: ordered_read_post_def)
    qed
  qed
qed

section \<open>Ordered reading\<close>

text \<open>The invariant while the stream is read in order: everything that has arrived is either
  read or buffered.\<close>

definition asm_inv :: "bytes \<Rightarrow> nat set \<Rightarrow> assembler \<Rightarrow> bool" where
  "asm_inv w R a \<longleftrightarrow> as_state a = Ordered \<and> heap_ok w (as_data a) \<and> length w < 2 ^ 62
     \<and> as_bytes_read a \<le> as_end a \<and> as_end a \<le> length w
     \<and> R \<subseteq> {..<as_end a}
     \<and> (\<forall>x. x \<in> R \<longleftrightarrow> x < as_bytes_read a \<or> 0 < bf_count (as_data a) x)"

lemma asm_inv_new: "length w < 2 ^ 62 \<Longrightarrow> asm_inv w {} asm_new"
  by (simp add: asm_inv_def asm_new_def)

lemma asm_insert_ordered:
  assumes inv: "asm_inv w R a" and len: "snd r \<le> length w" "fst r \<le> snd r"
  shows "\<exists>a'. asm_insert (fst r) (byte_slice w r) n a = Some a' \<and> asm_inv w (R \<union> range_elems r) a'
    \<and> as_bytes_read a' = as_bytes_read a"
proof -
  let ?br = "as_bytes_read a" and ?a = "a\<lparr>as_end := max (as_end a) (snd r)\<rparr>"
  have st: "as_state a = Ordered" and ok: "heap_ok w (as_data a)" and w: "length w < 2 ^ 62"
    and br: "?br \<le> as_end a" and en: "as_end a \<le> length w"
    and R: "R \<subseteq> {..<as_end a}" "\<And>x. x \<in> R \<longleftrightarrow> x < ?br \<or> 0 < bf_count (as_data a) x"
    using inv by (auto simp: asm_inv_def)
  have l: "length (byte_slice w r) = snd r - fst r" using len by simp
  have stop: "u64_add (fst r) (length (byte_slice w r)) = snd r" using len w l by (simp add: u64_arith)
  define off where "off = max ?br (fst r)"
  have store: "asm_inv w (R \<union> range_elems r) (asm_store n off (byte_slice w (off, snd r)) ?a)" if "?br < snd r \<or> ?br \<le> fst r"
  proof -
    have off: "off \<le> snd r" using that len by (auto simp: off_def)
    then have len': "off + length (byte_slice w (off, snd r)) = snd r" using len by simp
    have ok': "heap_ok w (as_data ?a)" using ok by simp
    note s = asm_store_correct [of w ?a off "byte_slice w (off, snd r)", unfolded len', OF ok' w len(1) refl, where n = n]
    show ?thesis
      using s(1,2) st w br en len R(1) off
      by (auto simp: asm_inv_def R(2) range_elems_def off_def)
  qed
  show ?thesis
  proof (cases "fst r < ?br")
    case True
    show ?thesis
    proof (cases "snd r \<le> ?br")
      case True
      then have "asm_insert (fst r) (byte_slice w r) n a = Some ?a"
        using st stop len \<open>fst r < ?br\<close> by (simp add: asm_insert_def Let_def del: length_byte_slice)
      moreover have "asm_inv w (R \<union> range_elems r) ?a"
        using inv True br en len by (auto simp: asm_inv_def range_elems_def)
      ultimately show ?thesis by simp
    next
      case False
      have "drop (?br - fst r) (byte_slice w r) = byte_slice w (?br, snd r)"
        using True drop_byte_slice [of "?br - fst r" w "fst r" "snd r"] by simp
      then have "asm_insert (fst r) (byte_slice w r) n a = Some (asm_store n off (byte_slice w (off, snd r)) ?a)"
        using st stop len True False w br en
        by (simp add: asm_insert_def Let_def u64_arith off_def del: length_byte_slice)
      then show ?thesis using store False by simp
    qed
  next
    case False
    then have "asm_insert (fst r) (byte_slice w r) n a = Some (asm_store n off (byte_slice w (off, snd r)) ?a)"
      using st stop len by (simp add: asm_insert_def Let_def off_def del: length_byte_slice)
    then show ?thesis using store False by simp
  qed
qed

lemma asm_read_inv:
  assumes inv: "asm_inv w R a" and read: "asm_read max_length True a = (res, a')"
  shows "asm_inv w R a'"
    "case res of None \<Rightarrow> as_bytes_read a \<notin> R \<and> as_bytes_read a' = as_bytes_read a
     | Some ch \<Rightarrow> ch_offset ch = as_bytes_read a \<and> ch_bytes ch = byte_slice w (as_bytes_read a, as_bytes_read a')
         \<and> as_bytes_read a \<le> as_bytes_read a' \<and> as_bytes_read a' - as_bytes_read a \<le> max_length
         \<and> (0 < max_length \<longrightarrow> as_bytes_read a < as_bytes_read a')"
proof -
  have ok: "heap_ok w (as_data a)" and w: "length w < 2 ^ 62" and br: "as_bytes_read a \<le> as_end a" "as_end a \<le> length w"
    and R: "R \<subseteq> {..<as_end a}" "\<And>x. x \<in> R \<longleftrightarrow> x < as_bytes_read a \<or> 0 < bf_count (as_data a) x"
    using inv by (auto simp: asm_inv_def)
  have le: "as_bytes_read a \<le> length w" using br by simp
  note post = asm_read_ordered [OF ok w le read]
  have grow: "as_bytes_read a \<le> as_bytes_read a'" using post by (auto simp: ordered_read_post_def split: option.splits)
  have arrived: "x \<in> R" if "as_bytes_read a \<le> x" "x < as_bytes_read a'" for x
    using post that by (auto simp: ordered_read_post_def R(2) split: option.splits)
  have mem: "x \<in> R \<longleftrightarrow> x < as_bytes_read a' \<or> 0 < bf_count (as_data a') x" if "as_bytes_read a' \<le> x" for x
    using post that grow by (auto simp: ordered_read_post_def R(2))
  have "as_bytes_read a' \<le> as_end a"
  proof (cases "as_bytes_read a' = as_bytes_read a")
    case False
    then have "as_bytes_read a' - 1 \<in> R" using grow arrived [of "as_bytes_read a' - 1"] by simp
    then show ?thesis using R(1) by auto
  qed (use br in simp)
  moreover have "x \<in> R \<longleftrightarrow> x < as_bytes_read a' \<or> 0 < bf_count (as_data a') x" for x
    using mem [of x] arrived [of x] R(2) [of x] by (cases "as_bytes_read a' \<le> x"; cases "x < as_bytes_read a") auto
  moreover have "heap_ok w (as_data a')" "as_state a' = Ordered" "as_end a' = as_end a"
    using post inv by (auto simp: ordered_read_post_def asm_inv_def)
  ultimately show "asm_inv w R a'" using w br R(1) unfolding asm_inv_def by simp
  show "case res of None \<Rightarrow> as_bytes_read a \<notin> R \<and> as_bytes_read a' = as_bytes_read a
     | Some ch \<Rightarrow> ch_offset ch = as_bytes_read a \<and> ch_bytes ch = byte_slice w (as_bytes_read a, as_bytes_read a')
         \<and> as_bytes_read a \<le> as_bytes_read a' \<and> as_bytes_read a' - as_bytes_read a \<le> max_length
         \<and> (0 < max_length \<longrightarrow> as_bytes_read a < as_bytes_read a')"
    using post by (auto simp: ordered_read_post_def R(2) split: option.splits)
qed

section \<open>Unordered reading\<close>

definition ch_count :: "chunk list \<Rightarrow> nat \<Rightarrow> nat" where
  "ch_count chs x = length (filter (\<lambda>c. ch_offset c \<le> x \<and> x < ch_offset c + length (ch_bytes c)) chs)"

text \<open>The invariant while the chunks are read as they come: every byte that has arrived is in
  exactly one place, a buffer or a chunk already delivered.\<close>

definition unord_inv :: "bytes \<Rightarrow> nat set \<Rightarrow> chunk list \<Rightarrow> assembler \<Rightarrow> bool" where
  "unord_inv w R out a \<longleftrightarrow> (\<exists>recvd. as_state a = Unordered recvd \<and> ranges_ok recvd \<and> ranges_elems recvd = R)
     \<and> heap_ok w (as_data a) \<and> length w < 2 ^ 62
     \<and> (\<forall>x. bf_count (as_data a) x + ch_count out x = of_bool (x \<in> R))
     \<and> (\<forall>c\<in>set out. byte_slice w (ch_offset c, ch_offset c + length (ch_bytes c)) = ch_bytes c)"

lemma asm_dedup_correct:
  assumes "ranges_ok dups" "\<forall>d\<in>set dups. off \<le> fst d \<and> snd d \<le> e"
    and "off \<le> e" "e \<le> length w" "length w < 2 ^ 62" "heap_ok w (as_data a)"
  shows "\<exists>off' a'. asm_dedup n dups off (byte_slice w (off, e)) a = Some (off', byte_slice w (off', e), a')
    \<and> off' \<le> e \<and> as_state a' = as_state a \<and> heap_ok w (as_data a')
    \<and> (\<forall>x. bf_count (as_data a') x + of_bool (off' \<le> x \<and> x < e)
        = bf_count (as_data a) x + of_bool (off \<le> x \<and> x < e \<and> x \<notin> ranges_elems dups))"
  using assms
proof (induction dups arbitrary: off a)
  case (Cons d dups)
  have d: "off \<le> fst d" "fst d < snd d" "snd d \<le> e" and gap: "\<forall>c\<in>set dups. snd d < fst c"
    and ok: "ranges_ok dups" using Cons.prems(1,2) by (auto simp: ranges_ok_Cons)
  define a1 where "a1 = (if off < fst d
      then a\<lparr>as_buffered := u64_add (as_buffered a) (fst d - off), as_allocated := u64_add (as_allocated a) n,
             as_data := heap_push (buffer_new off (byte_slice w (off, fst d)) n) (as_data a)\<rparr> else a)"
  have a1: "heap_ok w (as_data a1)" "as_state a1 = as_state a"
      "\<And>x. bf_count (as_data a1) x = bf_count (as_data a) x + of_bool (off \<le> x \<and> x < fst d)"
    using Cons.prems(4,6) d by (auto simp: a1_def range_elems_mem byte_slice_empty_iff intro!: heap_ok_push)
  have take: "take (fst d - off) (byte_slice w (off, e)) = byte_slice w (off, fst d)"
    using d by (simp add: take_byte_slice)
  have step: "asm_dedup n (d # dups) off (byte_slice w (off, e)) a
      = asm_dedup n dups (snd d) (byte_slice w (snd d, e)) a1"
    using d Cons.prems(3,4) by (auto simp: Let_def u64_arith drop_byte_slice take a1_def)
  have "\<forall>c\<in>set dups. snd d \<le> fst c \<and> snd c \<le> e" using gap Cons.prems(2) by (simp add: less_imp_le)
  from Cons.IH [OF ok this d(3) Cons.prems(4,5) a1(1)] obtain off' a' where
    r: "asm_dedup n dups (snd d) (byte_slice w (snd d, e)) a1 = Some (off', byte_slice w (off', e), a')"
      "off' \<le> e" "as_state a' = as_state a1" "heap_ok w (as_data a')"
    and cnt: "\<And>x. bf_count (as_data a') x + of_bool (off' \<le> x \<and> x < e)
        = bf_count (as_data a1) x + of_bool (snd d \<le> x \<and> x < e \<and> x \<notin> ranges_elems dups)" by blast
  have "bf_count (as_data a') x + of_bool (off' \<le> x \<and> x < e)
      = bf_count (as_data a) x + of_bool (off \<le> x \<and> x < e \<and> x \<notin> ranges_elems (d # dups))" for x
  proof -
    have "x \<in> ranges_elems dups \<Longrightarrow> snd d < x" using ranges_elems_gap [OF gap] by blast
    then show ?thesis unfolding cnt a1(3) using d by auto
  qed
  then show ?case using r a1(2) unfolding step by auto
qed auto

lemma asm_insert_unordered:
  assumes inv: "unord_inv w R out a" and len: "fst r < snd r" "snd r \<le> length w"
  shows "\<exists>a'. asm_insert (fst r) (byte_slice w r) n a = Some a' \<and> unord_inv w (R \<union> range_elems r) out a'"
proof -
  obtain recvd where st: "as_state a = Unordered recvd" and ok: "ranges_ok recvd" and R: "ranges_elems recvd = R"
    using inv by (auto simp: unord_inv_def)
  have heap: "heap_ok w (as_data a)" and w: "length w < 2 ^ 62"
    and cnt: "\<And>x. bf_count (as_data a) x + ch_count out x = of_bool (x \<in> R)" using inv by (auto simp: unord_inv_def)
  obtain dups recvd' where rep: "btree_replace_all recvd (fst r, snd r) = (dups, recvd')" by fastforce
  have ok': "ranges_ok recvd'" "ranges_elems recvd' = R \<union> range_elems r" "ranges_ok dups"
      "ranges_elems dups = R \<inter> range_elems r"
    using btree_replace_all_correct [OF ok, of r] len rep R by auto
  have inside: "fst r \<le> fst d \<and> snd d \<le> snd r" if "d \<in> set dups" for d
  proof -
    have "fst d < snd d" using ok'(3) that by (rule ranges_okD)
    then have "fst d \<in> ranges_elems dups" "snd d - 1 \<in> ranges_elems dups"
      using that by (auto simp: ranges_elems_iff intro!: bexI [of _ d])
    then show ?thesis using \<open>fst d < snd d\<close> unfolding ok'(4) by (auto simp: range_elems_def)
  qed
  define a1 where "a1 = a\<lparr>as_end := max (as_end a) (snd r), as_state := Unordered recvd'\<rparr>"
  have a1: "heap_ok w (as_data a1)" "as_data a1 = as_data a" using heap by (simp_all add: a1_def)
  obtain off' a2 where dd: "asm_dedup n dups (fst r) (byte_slice w r) a1 = Some (off', byte_slice w (off', snd r), a2)"
      "off' \<le> snd r" "as_state a2 = Unordered recvd'" "heap_ok w (as_data a2)"
    and c2: "\<And>x. bf_count (as_data a2) x + of_bool (off' \<le> x \<and> x < snd r)
        = bf_count (as_data a) x + of_bool (fst r \<le> x \<and> x < snd r \<and> x \<notin> R \<inter> range_elems r)"
    using asm_dedup_correct [OF ok'(3) _ less_imp_le [OF len(1)] len(2) w a1(1), of n] inside
    by (auto simp: ok'(4) a1(2)) (auto simp: a1_def)
  let ?a3 = "asm_store n off' (byte_slice w (off', snd r)) a2"
  have len': "off' + length (byte_slice w (off', snd r)) = snd r" using dd(2) len(2) by simp
  note store = asm_store_correct [of w a2 off' "byte_slice w (off', snd r)", unfolded len', OF dd(4) w len(2) refl, where n = n]
  have new: "bf_count (as_data a2) x + of_bool (off' \<le> x \<and> x < snd r) + ch_count out x = of_bool (x \<in> R \<union> range_elems r)" for x
    using c2 [of x] cnt [of x] by (auto simp: range_elems_def)
  have "bf_count (as_data ?a3) x + ch_count out x = of_bool (x \<in> R \<union> range_elems r)" for x
  proof -
    have "bf_count (as_data a2) x + of_bool (off' \<le> x \<and> x < snd r) \<le> 1"
      using new [of x] of_bool_less_eq_one [of "x \<in> R \<union> range_elems r", where 'a = nat] by linarith
    from store(3) [OF this] new [of x] show ?thesis by simp
  qed
  then have "unord_inv w (R \<union> range_elems r) out ?a3"
    using inv store(1) dd(3) ok'(1,2) unfolding unord_inv_def by simp
  moreover have "asm_insert (fst r) (byte_slice w r) n a = Some ?a3"
    using len w rep dd(1) st by (simp add: asm_insert_def Let_def u64_arith a1_def [symmetric])
  ultimately show ?thesis by blast
qed

lemma asm_read_unordered:
  assumes inv: "unord_inv w R out a" and read: "asm_read max_length False a = (res, a')"
  shows "unord_inv w R (out @ (case res of None \<Rightarrow> [] | Some c \<Rightarrow> [c])) a'"
    "res = None \<longleftrightarrow> (\<forall>x. bf_count (as_data a) x = 0)"
    "\<And>c. res = Some c \<Longrightarrow> 0 < max_length \<Longrightarrow> ch_bytes c \<noteq> []"
proof -
  have heap: "heap_ok w (as_data a)" and w: "length w < 2 ^ 62" using inv by (auto simp: unord_inv_def)
  have A: "unord_inv w R (out @ (case res of None \<Rightarrow> [] | Some c \<Rightarrow> [c])) a'
    \<and> (res = None \<longleftrightarrow> (\<forall>x. bf_count (as_data a) x = 0)) \<and> (\<forall>c. res = Some c \<longrightarrow> 0 < max_length \<longrightarrow> ch_bytes c \<noteq> [])"
  proof (cases "as_data a")
    case Nil
    then show ?thesis using read inv by (auto simp: asm_read.simps [of _ _ a])
  next
    case (Cons c rest)
    have c: "bf_ok w c" "bf_bytes c \<noteq> []" "heap_ok w rest" using heap by (auto simp: Cons)
    have read': "asm_take max_length c rest a = (res, a')" using read by (simp add: asm_read.simps [of _ _ a] Cons)
    obtain ch where ch: "res = Some ch" "heap_ok w (as_data a')" "as_state a' = as_state a"
        "length (ch_bytes ch) = min max_length (length (bf_bytes c))"
        "byte_slice w (ch_offset ch, ch_offset ch + length (ch_bytes ch)) = ch_bytes ch"
      and cnt: "\<And>x. bf_count (as_data a') x + of_bool (ch_offset ch \<le> x \<and> x < ch_offset ch + length (ch_bytes ch))
          = bf_count (as_data a) x"
      using asm_take_correct [OF c(3,1,2) w, of max_length a] unfolding read' by (auto simp: Cons add.commute)
    have "bf_count (as_data a') x + ch_count (out @ [ch]) x = of_bool (x \<in> R)" for x
    proof -
      have "bf_count (as_data a) x + ch_count out x = of_bool (x \<in> R)" using inv by (simp add: unord_inv_def)
      moreover have "ch_count (out @ [ch]) x
          = ch_count out x + of_bool (ch_offset ch \<le> x \<and> x < ch_offset ch + length (ch_bytes ch))"
        by (simp add: ch_count_def)
      ultimately show ?thesis using cnt [of x] by linarith
    qed
    moreover have "0 < bf_count (as_data a) (bf_offset c)" using c(2) by (simp add: Cons bf_range_def range_elems_mem)
    then have "\<not> (\<forall>x. bf_count (as_data a) x = 0)" by (metis less_irrefl)
    moreover have "0 < max_length \<longrightarrow> ch_bytes ch \<noteq> []" using ch(4) c(2) by (auto simp: min_def split: if_splits)
    ultimately show ?thesis using ch inv unfolding unord_inv_def by simp
  qed
  then show "unord_inv w R (out @ (case res of None \<Rightarrow> [] | Some c \<Rightarrow> [c])) a'"
    "res = None \<longleftrightarrow> (\<forall>x. bf_count (as_data a) x = 0)"
    "\<And>c. res = Some c \<Longrightarrow> 0 < max_length \<Longrightarrow> ch_bytes c \<noteq> []" by auto
qed

text \<open>The switch to unordered reading, before anything is read.\<close>

lemma ensure_unordered:
  assumes inv: "asm_inv w R a" and br: "as_bytes_read a = 0"
  shows "\<exists>a'. ensure_ordering False a = (Inr (), a') \<and> unord_inv w R [] a'"
proof -
  have st: "as_state a = Ordered" and heap: "heap_ok w (as_data a)" and w: "length w < 2 ^ 62"
    and R: "\<And>x. x \<in> R \<longleftrightarrow> 0 < bf_count (as_data a) x" using inv br by (auto simp: asm_inv_def)
  define a1 where "a1 = (if as_data a \<noteq> [] then defragment a else a)"
  have a1: "heap_ok w (as_data a1)" "as_bytes_read a1 = 0"
      "\<And>x. bf_count (as_data a1) x = of_bool (x \<in> R)"
    using defragment_correct [OF heap w] heap br R by (auto simp: a1_def)
  let ?ins = "\<lambda>r t. snd (btree_insert t r)"
  let ?recvd = "fold ?ins (map bf_range (as_data a1)) (snd (btree_insert btree_new (0, 0)))"
  have "u64_add (bf_offset c) (length (bf_bytes c)) = snd (bf_range c)" if "c \<in> set (as_data a1)" for c
    using a1(1) that w by (auto simp: heap_ok_def bf_ok_def bf_range_def u64_arith)
  then have "fold (\<lambda>c t. ?ins (bf_offset c, u64_add (bf_offset c) (length (bf_bytes c))) t) (as_data a1) t
      = fold ?ins (map bf_range (as_data a1)) t" for t
    unfolding fold_map comp_def by (intro fold_cong) (auto simp: bf_range_def)
  then have "ensure_ordering False a = (Inr (), a1\<lparr>as_state := Unordered ?recvd\<rparr>)"
    using st by (simp add: ensure_ordering_def is_ordered_def Let_def a1_def [symmetric] a1(2))
  moreover have e0: "ranges_ok (snd (btree_insert btree_new (0, 0)))"
      "ranges_elems (snd (btree_insert btree_new (0, 0))) = {}"
    by (simp_all add: brs.inv_insert brs.elems_insert brs.inv_empty brs.elems_empty range_elems_def)
  have "ranges_ok ?recvd" "ranges_elems ?recvd = ranges_elems (map bf_range (as_data a1))"
    using brs.insert_all [OF e0(1)] e0(2) by auto
  moreover have "ranges_elems (map bf_range (as_data a1)) = R"
  proof -
    have "x \<in> ranges_elems (map bf_range (as_data a1)) \<longleftrightarrow> 0 < bf_count (as_data a1) x" for x
      by (simp add: ranges_elems_def bf_count_pos)
    then show ?thesis using a1(3) by auto
  qed
  ultimately show ?thesis using a1 w by (auto simp: unord_inv_def ch_count_def)
qed

section \<open>Streams\<close>

text \<open>The assembler with what has arrived and what has been delivered.  An application that reads in
  one mode only: frames are pieces of the stream \<open>w\<close>, in any order, overlapping and repeated.\<close>

record asm_system =
  sa_asm :: assembler
  sa_received :: "range list"
  sa_chunks :: "chunk list"

definition asm_start :: asm_system where
  "asm_start = \<lparr>sa_asm = asm_new, sa_received = [], sa_chunks = []\<rparr>"

datatype asm_event = Arrive range nat | Read nat

fun asm_exec :: "bytes \<Rightarrow> bool \<Rightarrow> asm_event \<Rightarrow> asm_system \<Rightarrow> asm_system option" where
  "asm_exec w ordered (Arrive r n) s =
     (if snd r \<le> length w \<and> (if ordered then fst r \<le> snd r else fst r < snd r)
      then map_option (\<lambda>a'. s\<lparr>sa_asm := a', sa_received := r # sa_received s\<rparr>)
             (asm_insert (fst r) (byte_slice w r) n (sa_asm s))
      else None)"
| "asm_exec w ordered (Read n) s =
     (case ensure_ordering ordered (sa_asm s) of
        (Inl _, _) \<Rightarrow> None
      | (Inr _, a1) \<Rightarrow> let (res, a') = asm_read n ordered a1
          in Some (s\<lparr>sa_asm := a', sa_chunks := sa_chunks s @ (case res of None \<Rightarrow> [] | Some c \<Rightarrow> [c])\<rparr>))"

inductive asm_step :: "bytes \<Rightarrow> bool \<Rightarrow> asm_system \<Rightarrow> asm_event \<Rightarrow> asm_system \<Rightarrow> bool" for w ordered where
  asm_stepI: "asm_exec w ordered e s = Some s' \<Longrightarrow> asm_step w ordered s e s'"

inductive_cases asm_step_cases: "asm_step w ordered s e s'"

primrec asm_run :: "bytes \<Rightarrow> bool \<Rightarrow> asm_event list \<Rightarrow> asm_system \<Rightarrow> asm_system option" where
  "asm_run w ordered [] s = Some s"
| "asm_run w ordered (e # es) s = Option.bind (asm_exec w ordered e s) (asm_run w ordered es)"

lemma asm_run_reachable:
  "asm_run w ordered es s = Some s' \<Longrightarrow> reachable (\<lambda>s. s = asm_start) (asm_step w ordered) s \<Longrightarrow>
     reachable (\<lambda>s. s = asm_start) (asm_step w ordered) s'"
  by (induction es arbitrary: s) (auto simp: bind_eq_Some_conv intro: reach_step asm_stepI)

lemmas asm_run_from_start = asm_run_reachable [OF _ reach_init [of "\<lambda>s. s = asm_start", OF refl]]

definition sa_ordered_inv :: "bytes \<Rightarrow> asm_system \<Rightarrow> bool" where
  "sa_ordered_inv w s \<longleftrightarrow> asm_inv w (ranges_elems (sa_received s)) (sa_asm s)
     \<and> concat (map ch_bytes (sa_chunks s)) = take (as_bytes_read (sa_asm s)) w"

lemma take_byte_slice_append: "a \<le> b \<Longrightarrow> take a w @ byte_slice w (a, b) = take b w"
  using byte_slice_append [of 0 a b w] by (simp add: byte_slice_def)

lemma sa_ordered_step:
  assumes "asm_exec w True e s = Some s'" "sa_ordered_inv w s"
  shows "sa_ordered_inv w s'"
proof (cases e)
  case (Arrive r n)
  then show ?thesis
    using assms asm_insert_ordered [of w "ranges_elems (sa_received s)" "sa_asm s" r n]
    by (auto simp: sa_ordered_inv_def Un_commute range_elems_def split: if_splits)
next
  case (Read n)
  have inv: "asm_inv w (ranges_elems (sa_received s)) (sa_asm s)" using assms(2) by (simp add: sa_ordered_inv_def)
  then have "ensure_ordering True (sa_asm s) = (Inr (), sa_asm s)"
    by (simp add: ensure_ordering_def is_ordered_def asm_inv_def)
  moreover obtain res a' where read: "asm_read n True (sa_asm s) = (res, a')" by fastforce
  ultimately have s': "s' = s\<lparr>sa_asm := a', sa_chunks := sa_chunks s @ (case res of None \<Rightarrow> [] | Some c \<Rightarrow> [c])\<rparr>"
    using assms(1) Read by simp
  from asm_read_inv [OF inv read] show ?thesis
    using assms(2) by (auto simp: s' sa_ordered_inv_def take_byte_slice_append split: option.splits)
qed

lemma reachable_ordered_inv:
  assumes "reachable (\<lambda>s. s = asm_start) (asm_step w True) s" "length w < 2 ^ 62"
  shows "sa_ordered_inv w s"
  using assms(1)
proof (rule reachable_invariant)
  show "s = asm_start \<Longrightarrow> sa_ordered_inv w s" for s
    using asm_inv_new [OF assms(2)] by (simp add: sa_ordered_inv_def asm_start_def) (simp add: asm_new_def)
qed (auto elim!: asm_step_cases intro: sa_ordered_step)

definition sa_unordered_inv :: "bytes \<Rightarrow> asm_system \<Rightarrow> bool" where
  "sa_unordered_inv w s \<longleftrightarrow>
     asm_inv w (ranges_elems (sa_received s)) (sa_asm s) \<and> as_bytes_read (sa_asm s) = 0 \<and> sa_chunks s = []
     \<or> unord_inv w (ranges_elems (sa_received s)) (sa_chunks s) (sa_asm s)"

lemma ensure_unordered_again:
  "unord_inv w R out a \<Longrightarrow> ensure_ordering False a = (Inr (), a)"
  by (auto simp: unord_inv_def ensure_ordering_def is_ordered_def)

lemma sa_unordered_read:
  assumes "sa_unordered_inv w s"
  shows "\<exists>a1. ensure_ordering False (sa_asm s) = (Inr (), a1)
    \<and> unord_inv w (ranges_elems (sa_received s)) (sa_chunks s) a1"
  using assms ensure_unordered ensure_unordered_again unfolding sa_unordered_inv_def by metis

lemma sa_unordered_step:
  assumes "asm_exec w False e s = Some s'" "sa_unordered_inv w s"
  shows "sa_unordered_inv w s'"
proof (cases e)
  case (Arrive r n)
  then have r: "fst r < snd r" "snd r \<le> length w" "fst r \<le> snd r" using assms(1) by (auto split: if_splits)
  show ?thesis
    using assms Arrive asm_insert_ordered [OF _ r(2,3), of "ranges_elems (sa_received s)" "sa_asm s" n]
      asm_insert_unordered [OF _ r(1,2), of "ranges_elems (sa_received s)" "sa_chunks s" "sa_asm s" n]
    by (auto simp: sa_unordered_inv_def Un_commute range_elems_def split: if_splits)
next
  case (Read n)
  obtain a1 where a1: "ensure_ordering False (sa_asm s) = (Inr (), a1)"
    and inv: "unord_inv w (ranges_elems (sa_received s)) (sa_chunks s) a1" using sa_unordered_read [OF assms(2)] by blast
  obtain res a' where read: "asm_read n False a1 = (res, a')" by fastforce
  with asm_read_unordered(1) [OF inv read] show ?thesis
    using assms(1) Read a1 by (auto simp: sa_unordered_inv_def)
qed

lemma reachable_unordered_inv:
  assumes "reachable (\<lambda>s. s = asm_start) (asm_step w False) s" "length w < 2 ^ 62"
  shows "sa_unordered_inv w s"
  using assms(1)
proof (rule reachable_invariant)
  show "s = asm_start \<Longrightarrow> sa_unordered_inv w s" for s
    using asm_inv_new [OF assms(2)] by (simp add: sa_unordered_inv_def asm_start_def) (simp add: asm_new_def)
qed (auto elim!: asm_step_cases intro: sa_unordered_step)

section \<open>Two ways to deliver a byte twice\<close>

text \<open>Reading in order first and unordered afterwards: \<^verbatim>\<open>defragment\<close> removes duplicates between the
  buffers, and not between a buffer and what has already been read, so a frame that overlaps the
  read prefix is delivered whole.\<close>

theorem mixed_reads_deliver_twice:
  "(let a0 = the (asm_insert 1 [1, 2] 2 (the (asm_insert 0 [0, 1] 2 asm_new)));
        (c1, a1) = asm_read 100 True a0;
        (ok, a2) = ensure_ordering False a1;
        (c2, a3) = asm_read 100 False a2
    in ok = Inr () \<and> c1 = Some \<lparr>ch_offset = 0, ch_bytes = [0, 1]\<rparr>
       \<and> c2 = Some \<lparr>ch_offset = 1, ch_bytes = [1, 2]\<rparr> \<and> as_bytes_read a3 = 4 \<and> as_end a3 = 3)"
  by code_simp

text \<open>A frame without data in unordered mode leaves an empty range in the set of received offsets,
  which later ends the search for duplicates early: byte 2 of this stream arrives twice and is
  delivered twice.\<close>

theorem empty_frame_delivers_twice:
  "(let (ok, a0) = ensure_ordering False asm_new;
        a1 = the (asm_insert 2 [2] 1 (the (asm_insert 1 [] 0 a0)));
        (c1, a2) = asm_read 100 False a1;
        a3 = the (asm_insert 0 [0, 1, 2, 3] 4 a2);
        (c2, a4) = asm_read 100 False a3
    in ok = Inr () \<and> c1 = Some \<lparr>ch_offset = 2, ch_bytes = [2]\<rparr>
       \<and> c2 = Some \<lparr>ch_offset = 0, ch_bytes = [0, 1, 2, 3]\<rparr>)"
  by code_simp

section \<open>Properties\<close>

text \<open>(C27) When the application reads in order, the chunks it gets concatenate to a prefix of the
  stream, whatever the order, overlap and repetition of the frames and whenever the buffers are
  defragmented; a read returns nothing exactly when the next byte has not arrived, and inserting a
  frame never panics.\<close>

theorem ordered_reads_deliver_prefix:
  assumes "reachable (\<lambda>s. s = asm_start) (asm_step w True) s" "length w < 2 ^ 62" "0 < n"
  shows "concat (map ch_bytes (sa_chunks s)) = take (as_bytes_read (sa_asm s)) w
    \<and> {..<as_bytes_read (sa_asm s)} \<subseteq> ranges_elems (sa_received s)
    \<and> (fst (asm_read n True (sa_asm s)) = None \<longleftrightarrow> as_bytes_read (sa_asm s) \<notin> ranges_elems (sa_received s))
    \<and> (\<forall>r m. fst r \<le> snd r \<longrightarrow> snd r \<le> length w \<longrightarrow>
         asm_insert (fst r) (byte_slice w r) m (sa_asm s) \<noteq> None)"
proof -
  note sys = reachable_ordered_inv [OF assms(1,2)]
  then have inv: "asm_inv w (ranges_elems (sa_received s)) (sa_asm s)" by (simp add: sa_ordered_inv_def)
  obtain res a' where read: "asm_read n True (sa_asm s) = (res, a')" by fastforce
  note r = asm_read_inv [OF inv read]
  have "res = None \<longleftrightarrow> as_bytes_read (sa_asm s) \<notin> ranges_elems (sa_received s)"
    using r(2) r(1) assms(3) by (auto simp: asm_inv_def split: option.splits)
  moreover have "{..<as_bytes_read (sa_asm s)} \<subseteq> ranges_elems (sa_received s)" using inv by (auto simp: asm_inv_def)
  moreover have "asm_insert (fst r) (byte_slice w r) m (sa_asm s) \<noteq> None"
    if "fst r \<le> snd r" "snd r \<le> length w" for r m using asm_insert_ordered [OF inv that(2,1)] by auto
  ultimately show ?thesis using sys read by (simp add: sa_ordered_inv_def)
qed

theorem ordered_reads_deliver_prefix_witness:
  "\<exists>s. asm_run [0, 1, 2, 3, 4, 5] True [Arrive (2, 5) 9, Arrive (0, 3) 9, Read 2, Arrive (1, 4) 9, Read 9] asm_start = Some s
     \<and> map ch_bytes (sa_chunks s) = [[0, 1], [2, 3, 4]]
     \<and> concat (map ch_bytes (sa_chunks s)) = take 5 [0, 1, 2, 3, 4, 5] \<and> fst (asm_read 1 True (sa_asm s)) = None"
proof -
  let ?w = "[0, 1, 2, 3, 4, 5]" and ?es = "[Arrive (2, 5) 9, Arrive (0, 3) 9, Read 2, Arrive (1, 4) 9, Read 9]"
  have "(case asm_run ?w True ?es asm_start of None \<Rightarrow> False
      | Some s \<Rightarrow> map ch_bytes (sa_chunks s) = [[0, 1], [2, 3, 4]] \<and> as_bytes_read (sa_asm s) = 5
          \<and> \<not> list_ex (\<lambda>r. fst r \<le> 5 \<and> 5 < snd r) (sa_received s))" by code_simp
  then obtain s where run: "asm_run ?w True ?es asm_start = Some s"
    and s: "map ch_bytes (sa_chunks s) = [[0, 1], [2, 3, 4]]" "as_bytes_read (sa_asm s) = 5"
      "\<not> list_ex (\<lambda>r. fst r \<le> 5 \<and> 5 < snd r) (sa_received s)" by (auto split: option.splits simp del: asm_run.simps)
  have "5 \<notin> ranges_elems (sa_received s)" using s(3) by (simp add: ranges_elems_iff list_ex_iff)
  then show ?thesis
    using ordered_reads_deliver_prefix [OF asm_run_from_start [OF run], of 1] run s(1,2)
    by (intro exI [of _ s]) (simp del: asm_run.simps)
qed



end
