(* ===== verification/Stream_Ids.thy ===== *)
theory Stream_Ids
  imports Coding
begin

text \<open>
  Sides, directions and stream identifiers (\<^verbatim>\<open>src/src/lib.rs\<close>), and transport errors
  (\<^verbatim>\<open>src/src/transport_error.rs\<close>).  A stream identifier packs the index of the stream with its
  initiator and its direction; the lemmas show that the three can be read back as long as the
  index has at most 62 bits.
\<close>

section \<open>Sides and directions\<close>

datatype side = Client | Server

definition side_not :: "side \<Rightarrow> side" where
  "side_not s = (case s of Client \<Rightarrow> Server | Server \<Rightarrow> Client)"

datatype dir = Bi | Uni

definition dir_iter :: "dir list" where
  "dir_iter = [Bi, Uni]"

lemma side_not_simps [simp]:
  "side_not Client = Server" "side_not Server = Client" "side_not (side_not s) = s"
  "side_not s \<noteq> s" "s \<noteq> side_not s" "side_not s = side_not t \<longleftrightarrow> s = t"
  by (cases s; cases t; simp add: side_not_def)+

lemma not_side_iff: "s \<noteq> t \<longleftrightarrow> s = side_not t"
  by (cases s; cases t) simp_all

section \<open>Stream identifiers\<close>

type_synonym stream_id = u64

definition sid_new :: "side \<Rightarrow> dir \<Rightarrow> nat \<Rightarrow> stream_id" where
  "sid_new initiator d index = push_bit 2 (of_nat index)
     OR push_bit 1 (case d of Bi \<Rightarrow> 0 | Uni \<Rightarrow> 1)
     OR (case initiator of Client \<Rightarrow> 0 | Server \<Rightarrow> 1)"

definition sid_initiator :: "stream_id \<Rightarrow> side" where
  "sid_initiator x = (if x AND 1 = 0 then Client else Server)"

definition sid_dir :: "stream_id \<Rightarrow> dir" where
  "sid_dir x = (if x AND 2 = 0 then Bi else Uni)"

definition sid_index :: "stream_id \<Rightarrow> nat" where
  "sid_index x = unat (drop_bit 2 x)"

definition sid_decode :: "stream_id decoder" where
  "sid_decode buf = varint_decode buf"

definition sid_encode :: "stream_id \<Rightarrow> bytes \<Rightarrow> bytes" where
  "sid_encode x buf = (case from_u64 x of
      Inr v \<Rightarrow> varint_encode v buf
    | Inl _ \<Rightarrow> varint_encode varint_max buf)"

definition max_stream_count :: nat where
  "max_stream_count = 2 ^ 60"

lemma sid_bits:
  "sid_initiator x = (if bit x 0 then Server else Client)" "sid_dir x = (if bit x 1 then Uni else Bi)"
  using and_exp_eq_0_iff_not_bit [of x 0] and_exp_eq_0_iff_not_bit [of x 1]
  by (simp_all add: sid_initiator_def sid_dir_def)

lemma sid_parts [simp]: "sid_initiator (sid_new s d i) = s" "sid_dir (sid_new s d i) = d"
  unfolding sid_bits sid_new_def by (cases s; cases d; simp add: bit_simps)+

lemma drop_sid_new: "drop_bit 2 (sid_new s d i) = take_bit 62 (of_nat i)"
proof (rule bit_word_eqI)
  fix n
  assume "n < LENGTH(64)"
  have one: "bit (1 :: u64) (Suc n) \<longleftrightarrow> False" "bit (1 :: u64) (Suc (Suc n)) \<longleftrightarrow> False" by (simp_all add: bit_simps)
  show "bit (drop_bit 2 (sid_new s d i)) n \<longleftrightarrow> bit (take_bit 62 (of_nat i :: u64)) n"
    unfolding sid_new_def by (cases s; cases d) (auto simp: bit_simps one)
qed

lemma sid_index_new [simp]: "i < 2 ^ 62 \<Longrightarrow> sid_index (sid_new s d i) = i"
  by (simp add: sid_index_def drop_sid_new unsigned_take_bit_eq unat_of_nat take_bit_nat_def)

lemma sid_index_bound: "sid_index x < 2 ^ 62"
proof -
  have "unat x < 2 ^ 64" using unsigned_less [of x] by simp
  then show ?thesis by (simp add: sid_index_def unat_drop_bit_eq drop_bit_nat_def less_mult_imp_div_less)
qed

lemma sid_new_eq_iff: "i < 2 ^ 62 \<Longrightarrow> j < 2 ^ 62 \<Longrightarrow> sid_new s d i = sid_new t e j \<longleftrightarrow> s = t \<and> d = e \<and> i = j"
  using sid_parts sid_index_new by metis

lemma sid_of_parts: "sid_new (sid_initiator x) (sid_dir x) (sid_index x) = x"
proof (rule bit_word_eqI)
  fix n
  assume n: "n < LENGTH(64)"
  have idx: "of_nat (sid_index x) = drop_bit 2 x" by (simp add: sid_index_def)
  show "bit (sid_new (sid_initiator x) (sid_dir x) (sid_index x)) n \<longleftrightarrow> bit x n"
  proof (cases "n < 2")
    case True
    then have "n = 0 \<or> n = 1" by linarith
    then show ?thesis unfolding sid_new_def sid_bits by (auto simp: bit_simps)
  next
    case False
    then obtain m where "n = Suc (Suc m)" by (metis Suc_diff_Suc add_2_eq_Suc le_add_diff_inverse not_less)
    then show ?thesis using n unfolding sid_new_def sid_bits idx
      by (simp add: bit_simps split: side.split dir.split)
  qed
qed

interpretation sidc: codec sid_encode sid_decode varint_ok
proof
  fix x :: stream_id and buf rest
  show "sid_encode x buf = buf @ sid_encode x []"
    by (simp add: sid_encode_def split: sum.split) (metis varintc.encode_append)
  show "varint_ok x \<Longrightarrow> sid_decode (sid_encode x [] @ rest) = (Inr x, rest)"
    using varintc.decode_encode [of x rest] by (simp add: sid_encode_def sid_decode_def from_u64_def varint_ok_def)
  show "sid_decode buf = (Inr x, rest) \<Longrightarrow> varint_ok x"
    unfolding sid_decode_def by (rule varintc.decode_ok)
  show "sid_decode buf = (Inr x, rest) \<Longrightarrow> \<exists>used. used \<noteq> [] \<and> buf = used @ rest"
    unfolding sid_decode_def by (rule varintc.decode_consumes)
qed

section \<open>Transport errors\<close>

record transport_error =
  te_code :: u64
  te_frame :: "u64 option"
  te_reason :: string

definition te_make :: "u64 \<Rightarrow> string \<Rightarrow> transport_error" where
  "te_make code reason = \<lparr>te_code = code, te_frame = None, te_reason = reason\<rparr>"

definition FLOW_CONTROL_ERROR :: "string \<Rightarrow> transport_error" where
  "FLOW_CONTROL_ERROR = te_make 3"

definition STREAM_LIMIT_ERROR :: "string \<Rightarrow> transport_error" where
  "STREAM_LIMIT_ERROR = te_make 4"

definition STREAM_STATE_ERROR :: "string \<Rightarrow> transport_error" where
  "STREAM_STATE_ERROR = te_make 5"

definition FINAL_SIZE_ERROR :: "string \<Rightarrow> transport_error" where
  "FINAL_SIZE_ERROR = te_make 6"

definition FRAME_ENCODING_ERROR :: "string \<Rightarrow> transport_error" where
  "FRAME_ENCODING_ERROR = te_make 7"

definition CONNECTION_ID_LIMIT_ERROR :: "string \<Rightarrow> transport_error" where
  "CONNECTION_ID_LIMIT_ERROR = te_make 9"

definition PROTOCOL_VIOLATION :: "string \<Rightarrow> transport_error" where
  "PROTOCOL_VIOLATION = te_make 10"

end
