(* ===== verification/Wire.thy ===== *)
theory Wire
  imports Stream_Ids
begin

text \<open>
  Writing and reading composite wire formats.  An encoder appends to a buffer or fails on a value
  that does not fit a variable-length integer; a decoder consumes from the front.  \<open>writes e bs\<close>
  says that an encoder appends exactly \<open>bs\<close>, \<open>reads d bs x\<close> that a decoder reads \<open>x\<close> from \<open>bs\<close>
  and leaves what follows; both compose along the sequence of fields, which makes the round trips
  of the frame formats a matter of applying rules.
\<close>

named_theorems writes_rules \<open>what an encoder appends\<close>
named_theorems reads_rules \<open>what a decoder reads\<close>
named_theorems consumes_rules \<open>decoders that leave a suffix of their input\<close>

type_synonym encoder = "(bytes, varint_bounds_exceeded, unit) op"

text \<open>An infallible write.\<close>

definition put :: "(bytes \<Rightarrow> bytes) \<Rightarrow> encoder" where
  "put f w = (Inr (), f w)"

definition put_slice :: "bytes \<Rightarrow> encoder" where
  "put_slice bs = put (\<lambda>w. w @ bs)"

text \<open>Writes in a row, each with the \<^verbatim>\<open>?\<close> operator.\<close>

fun enc_seq :: "encoder list \<Rightarrow> encoder" where
  "enc_seq [] = op_ret ()"
| "enc_seq (e # es) = op_bind e (\<lambda>_. enc_seq es)"

definition writes :: "encoder \<Rightarrow> bytes \<Rightarrow> bool" where
  "writes e bs \<longleftrightarrow> (\<forall>w. e w = (Inr (), w @ bs))"

definition reads :: "(bytes, 'e, 'a) op \<Rightarrow> bytes \<Rightarrow> 'a \<Rightarrow> bool" where
  "reads d bs x \<longleftrightarrow> (\<forall>rest. d (bs @ rest) = (Inr x, rest))"

lemma writesD: "writes e bs \<Longrightarrow> e w = (Inr (), w @ bs)"
  by (simp add: writes_def)

lemma readsD: "reads d bs x \<Longrightarrow> d (bs @ rest) = (Inr x, rest)"
  by (simp add: reads_def)

lemma writes_Nil [writes_rules]: "writes (enc_seq []) []"
  by (simp add: writes_def)

lemma writes_Cons [writes_rules]: "writes e bs \<Longrightarrow> writes (enc_seq es) cs \<Longrightarrow> writes (enc_seq (e # es)) (bs @ cs)"
  by (simp add: writes_def)

lemma enc_seq_append: "enc_seq (es @ fs) = op_bind (enc_seq es) (\<lambda>_. enc_seq fs)"
  by (induction es) (auto simp: op_bind_def fun_eq_iff split: prod.splits sum.splits)

lemma writes_append [writes_rules]:
  "writes (enc_seq es) bs \<Longrightarrow> writes (enc_seq fs) cs \<Longrightarrow> writes (enc_seq (es @ fs)) (bs @ cs)"
  by (simp add: writes_def enc_seq_append)

lemma writes_var [writes_rules]: "x < 2 ^ 62 \<Longrightarrow> writes (write_var x) (varint_encode x [])"
  unfolding writes_def write_var_def
  by (metis (no_types, lifting) encode_checked_def prod.collapse varint_encode_append varint_encode_def fst_conv)

lemma writes_put_slice [writes_rules]: "writes (put_slice bs) bs"
  by (simp add: writes_def put_slice_def put_def)

text \<open>Every codec writes what its \<^verbatim>\<open>encode\<close> appends and reads it back.\<close>

context codec
begin

lemma writes_encode: "writes (put (encode x)) (encode x [])"
  unfolding writes_def put_def using encode_append by metis

lemma reads_decode: "ok x \<Longrightarrow> reads decode (encode x []) x"
  by (simp add: reads_def decode_encode)

end

lemmas codec_writes [writes_rules] = sidc.writes_encode u8c.writes_encode u16c.writes_encode
  u32c.writes_encode u64c.writes_encode ipv4c.writes_encode ipv6c.writes_encode

lemmas codec_reads [reads_rules] = u8c.reads_decode [OF TrueI] u16c.reads_decode [OF TrueI]
  u32c.reads_decode [OF TrueI] u64c.reads_decode [OF TrueI] ipv4c.reads_decode [OF TrueI]
  ipv6c.reads_decode [OF TrueI]

lemma reads_ret [reads_rules]: "reads (op_ret x) [] x"
  by (simp add: reads_def)

lemma reads_bind [reads_rules]: "reads d bs x \<Longrightarrow> reads (f x) cs y \<Longrightarrow> reads (op_bind d f) (bs @ cs) y"
  by (simp add: reads_def)

text \<open>Errors of a field decoder become errors of the format it is used in.\<close>

definition map_err :: "('e \<Rightarrow> 'f) \<Rightarrow> ('s, 'e, 'a) op \<Rightarrow> ('s, 'f, 'a) op" where
  "map_err f d s = (case d s of (Inl e, s') \<Rightarrow> (Inl (f e), s') | (Inr x, s') \<Rightarrow> (Inr x, s'))"

lemma reads_map_err [reads_rules]: "reads d bs x \<Longrightarrow> reads (map_err f d) bs x"
  by (simp add: reads_def map_err_def)

lemma reads_var [reads_rules]: "x < 2 ^ 62 \<Longrightarrow> reads get_var (varint_encode x []) x"
  by (simp add: reads_def get_var_def varint_decode_encode)

lemma reads_varint [reads_rules]: "x < 2 ^ 62 \<Longrightarrow> reads varint_decode (varint_encode x []) x"
  using varintc.reads_decode by (simp add: varint_ok_def)

lemma reads_sid [reads_rules]: "x < 2 ^ 62 \<Longrightarrow> reads sid_decode (sid_encode x []) x"
  using sidc.reads_decode by (simp add: varint_ok_def)

text \<open>\<^verbatim>\<open>copy_to_slice\<close> and \<^verbatim>\<open>split_to\<close> after a check of the length.\<close>

definition take_bytes :: "nat \<Rightarrow> 'e \<Rightarrow> (bytes, 'e, bytes) op" where
  "take_bytes n e buf = (if length buf < n then (Inl e, buf) else (Inr (take n buf), drop n buf))"

lemma reads_take_bytes [reads_rules]: "length bs = n \<Longrightarrow> reads (take_bytes n e) bs bs"
  by (auto simp: reads_def take_bytes_def)

text \<open>A decoded integer is decoded in the same way from its bytes alone, whatever follows.\<close>

lemma varint_decode_local:
  assumes "varint_decode buf = (Inr x, rest)"
  obtains used where "buf = used @ rest" "used \<noteq> []" "reads varint_decode used x"
proof -
  from assms obtain b r where buf: "buf = b # r" by (cases buf) (auto simp: varint_decode_def)
  define t h where "t = unat b div 64" and "h = unat b mod 64"
  have b: "unat b = t * 64 + h" and h: "h < 64" by (simp_all add: t_def h_def)
  have t: "t < 4" using word8_unat_less [of b] by (simp add: t_def less_mult_imp_div_less)
  let ?k = "varint_tail t"
  note dec = varint_decode_byte [OF b t h]
  from assms have k: "?k \<le> length r" and x: "x = of_nat (h * 256 ^ ?k + be_acc 0 (take ?k r))" and rest: "rest = drop ?k r"
    unfolding buf dec by (auto split: if_splits)
  show thesis
  proof (rule that)
    show "buf = (b # take ?k r) @ rest" by (simp add: buf rest)
    show "reads varint_decode (b # take ?k r) x"
      unfolding reads_def using k by (simp add: dec x)
  qed simp
qed

text \<open>Whether it succeeds or fails, a decoder only moves forward: it leaves a suffix of its input.\<close>

definition consumes :: "(bytes, 'e, 'a) op \<Rightarrow> bool" where
  "consumes d \<longleftrightarrow> (\<forall>buf. \<exists>used. buf = used @ snd (d buf))"

lemma consumes_length: "consumes d \<Longrightarrow> length (snd (d buf)) \<le> length buf"
  unfolding consumes_def by (metis length_append le_add2)

lemma consumes_ret [consumes_rules]: "consumes (op_ret x)" "consumes (op_throw e)"
  by (simp_all add: consumes_def)

lemma consumes_bind [consumes_rules]: "consumes d \<Longrightarrow> (\<And>x. consumes (f x)) \<Longrightarrow> consumes (op_bind d f)"
  unfolding consumes_def op_bind_def
  by (auto split: prod.splits sum.splits) (metis append.assoc snd_conv)+

lemma consumes_map_err [consumes_rules]: "consumes d \<Longrightarrow> consumes (map_err f d)"
  unfolding consumes_def map_err_def by (auto split: prod.splits sum.splits) (metis snd_conv)+

lemma consumes_if [consumes_rules]: "(b \<Longrightarrow> consumes d) \<Longrightarrow> (\<not> b \<Longrightarrow> consumes d') \<Longrightarrow> consumes (if b then d else d')"
  by simp

lemma consumes_choice: "consumes d \<Longrightarrow> consumes d' \<Longrightarrow> consumes (\<lambda>r. if P r then d r else d' r)"
  by (simp add: consumes_def)

lemma consumes_orelse:
  assumes "consumes d" "consumes d'"
  shows "consumes (\<lambda>r. case d r of (Inr x, r') \<Rightarrow> (Inr x, r') | (Inl _, r') \<Rightarrow> d' r')"
  unfolding consumes_def
proof
  fix r
  obtain y r' where y: "d r = (y, r')" by (cases "d r")
  obtain used used' where "r = used @ r'" "r' = used' @ snd (d' r')"
    using assms y unfolding consumes_def by (metis snd_conv)
  then show "\<exists>used. r = used @ snd (case d r of (Inr x, r') \<Rightarrow> (Inr x, r') | (Inl _, r') \<Rightarrow> d' r')"
    using y by (cases y) (simp_all, metis append.assoc)
qed

lemma consumes_cut:
  assumes "\<And>buf. snd (d buf) = buf \<or> (\<exists>n. snd (d buf) = drop n buf)"
  shows "consumes d"
  unfolding consumes_def
proof
  fix buf
  from assms [of buf] show "\<exists>used. buf = used @ snd (d buf)"
    by (metis append_Nil append_take_drop_id)
qed

lemma consumes_take_bytes [consumes_rules]: "consumes (take_bytes n e)"
  by (rule consumes_cut) (auto simp: take_bytes_def)

lemma consumes_get_uint: "consumes (get_uint n)"
  by (rule consumes_cut) (auto simp: get_uint_def)

lemma consumes_varint [consumes_rules]: "consumes varint_decode"
proof -
  have "\<exists>used. buf = used @ snd (varint_decode buf)" for buf
  proof (cases "varint_decode buf")
    case (Pair r rest)
    show ?thesis
    proof (cases r)
      case (Inl e)
      then show ?thesis using Pair
        by (cases buf) (auto simp: varint_decode_def Let_def get_uint_def split: if_splits)
    next
      case (Inr x)
      then show ?thesis using Pair varint_decode_local [of buf x rest] by auto
    qed
  qed
  then show ?thesis by (simp add: consumes_def)
qed

lemma consumes_fields [consumes_rules]:
  "consumes u8_decode" "consumes u16_decode" "consumes u32_decode" "consumes u64_decode"
  "consumes ipv4_decode" "consumes ipv6_decode" "consumes get_var" "consumes sid_decode"
proof -
  show "consumes u8_decode"
    by (rule consumes_cut) (auto simp: u8_decode_def split: list.splits intro: exI [of _ 1])
  show "consumes get_var" using consumes_varint by (simp add: consumes_def get_var_def)
  show "consumes sid_decode" using consumes_varint by (simp add: consumes_def sid_decode_def)
qed (use consumes_get_uint in \<open>simp_all add: consumes_def u16_decode_def u32_decode_def u64_decode_def
  ipv4_decode_def ipv6_decode_def\<close>)

end
