(* ===== verification/Frame_Types.thy ===== *)
theory Frame_Types
  imports Wire
begin

text \<open>
  Frame types (\<^verbatim>\<open>src/src/frame.rs\<close>: \<^verbatim>\<open>FrameType\<close>, \<^verbatim>\<open>frame_types!\<close>, \<^verbatim>\<open>StreamInfo\<close>,
  \<^verbatim>\<open>DatagramInfo\<close>) and what goes wrong while frames are read (\<^verbatim>\<open>IterErr\<close>).  A frame type is the
  64-bit integer it wraps.
\<close>

unbundle bit_operations_syntax

type_synonym frame_type = u64

abbreviation (input) PADDING :: frame_type where "PADDING \<equiv> 0x00"
abbreviation (input) PING :: frame_type where "PING \<equiv> 0x01"
abbreviation (input) ACK :: frame_type where "ACK \<equiv> 0x02"
abbreviation (input) ACK_ECN :: frame_type where "ACK_ECN \<equiv> 0x03"
abbreviation (input) RESET_STREAM :: frame_type where "RESET_STREAM \<equiv> 0x04"
abbreviation (input) STOP_SENDING :: frame_type where "STOP_SENDING \<equiv> 0x05"
abbreviation (input) CRYPTO :: frame_type where "CRYPTO \<equiv> 0x06"
abbreviation (input) NEW_TOKEN :: frame_type where "NEW_TOKEN \<equiv> 0x07"
abbreviation (input) MAX_DATA :: frame_type where "MAX_DATA \<equiv> 0x10"
abbreviation (input) MAX_STREAM_DATA :: frame_type where "MAX_STREAM_DATA \<equiv> 0x11"
abbreviation (input) MAX_STREAMS_BIDI :: frame_type where "MAX_STREAMS_BIDI \<equiv> 0x12"
abbreviation (input) MAX_STREAMS_UNI :: frame_type where "MAX_STREAMS_UNI \<equiv> 0x13"
abbreviation (input) DATA_BLOCKED :: frame_type where "DATA_BLOCKED \<equiv> 0x14"
abbreviation (input) STREAM_DATA_BLOCKED :: frame_type where "STREAM_DATA_BLOCKED \<equiv> 0x15"
abbreviation (input) STREAMS_BLOCKED_BIDI :: frame_type where "STREAMS_BLOCKED_BIDI \<equiv> 0x16"
abbreviation (input) STREAMS_BLOCKED_UNI :: frame_type where "STREAMS_BLOCKED_UNI \<equiv> 0x17"
abbreviation (input) NEW_CONNECTION_ID :: frame_type where "NEW_CONNECTION_ID \<equiv> 0x18"
abbreviation (input) RETIRE_CONNECTION_ID :: frame_type where "RETIRE_CONNECTION_ID \<equiv> 0x19"
abbreviation (input) PATH_CHALLENGE :: frame_type where "PATH_CHALLENGE \<equiv> 0x1a"
abbreviation (input) PATH_RESPONSE :: frame_type where "PATH_RESPONSE \<equiv> 0x1b"
abbreviation (input) CONNECTION_CLOSE :: frame_type where "CONNECTION_CLOSE \<equiv> 0x1c"
abbreviation (input) APPLICATION_CLOSE :: frame_type where "APPLICATION_CLOSE \<equiv> 0x1d"
abbreviation (input) HANDSHAKE_DONE :: frame_type where "HANDSHAKE_DONE \<equiv> 0x1e"
abbreviation (input) ACK_FREQUENCY :: frame_type where "ACK_FREQUENCY \<equiv> 0xaf"
abbreviation (input) IMMEDIATE_ACK :: frame_type where "IMMEDIATE_ACK \<equiv> 0x1f"
abbreviation (input) ADD_ADDRESS_IPV4 :: frame_type where "ADD_ADDRESS_IPV4 \<equiv> 0x3d7e90"
abbreviation (input) ADD_ADDRESS_IPV6 :: frame_type where "ADD_ADDRESS_IPV6 \<equiv> 0x3d7e91"
abbreviation (input) PUNCH_ME_NOW_IPV4 :: frame_type where "PUNCH_ME_NOW_IPV4 \<equiv> 0x3d7e92"
abbreviation (input) PUNCH_ME_NOW_IPV6 :: frame_type where "PUNCH_ME_NOW_IPV6 \<equiv> 0x3d7e93"
abbreviation (input) REMOVE_ADDRESS :: frame_type where "REMOVE_ADDRESS \<equiv> 0x3d7e94"
abbreviation (input) OBSERVED_ADDRESS_IPV4 :: frame_type where "OBSERVED_ADDRESS_IPV4 \<equiv> 0x9f81a6"
abbreviation (input) OBSERVED_ADDRESS_IPV6 :: frame_type where "OBSERVED_ADDRESS_IPV6 \<equiv> 0x9f81a7"
abbreviation (input) TRY_CONNECT_TO_IPV4 :: frame_type where "TRY_CONNECT_TO_IPV4 \<equiv> 0x3d7e95"
abbreviation (input) TRY_CONNECT_TO_IPV6 :: frame_type where "TRY_CONNECT_TO_IPV6 \<equiv> 0x3d7e96"
abbreviation (input) TRY_CONNECT_TO_RESPONSE_IPV4 :: frame_type where "TRY_CONNECT_TO_RESPONSE_IPV4 \<equiv> 0x3d7e97"
abbreviation (input) TRY_CONNECT_TO_RESPONSE_IPV6 :: frame_type where "TRY_CONNECT_TO_RESPONSE_IPV6 \<equiv> 0x3d7e98"

definition STREAM_TYS :: "frame_type \<Rightarrow> bool" where
  "STREAM_TYS ty \<longleftrightarrow> 0x08 \<le> ty \<and> ty \<le> 0x0f"

definition DATAGRAM_TYS :: "frame_type \<Rightarrow> bool" where
  "DATAGRAM_TYS ty \<longleftrightarrow> 0x30 \<le> ty \<and> ty \<le> 0x31"

definition ft_stream :: "frame_type \<Rightarrow> u8 option" where
  "ft_stream ty = (if STREAM_TYS ty then Some (ucast ty) else None)"

definition ft_datagram :: "frame_type \<Rightarrow> u8 option" where
  "ft_datagram ty = (if DATAGRAM_TYS ty then Some (ucast ty) else None)"

definition si_fin :: "u8 \<Rightarrow> bool" where "si_fin s \<longleftrightarrow> s AND 0x01 \<noteq> 0"
definition si_len :: "u8 \<Rightarrow> bool" where "si_len s \<longleftrightarrow> s AND 0x02 \<noteq> 0"
definition si_off :: "u8 \<Rightarrow> bool" where "si_off s \<longleftrightarrow> s AND 0x04 \<noteq> 0"
definition di_len :: "u8 \<Rightarrow> bool" where "di_len s \<longleftrightarrow> s AND 0x01 \<noteq> 0"

datatype iter_err = IterUnexpectedEnd | InvalidFrameId | Malformed

text \<open>Field readers as the frame iterator uses them: \<^verbatim>\<open>From<UnexpectedEnd> for IterErr\<close>.\<close>

abbreviation it_get :: "(bytes, unexpected_end, 'a) op \<Rightarrow> (bytes, iter_err, 'a) op" where
  "it_get d \<equiv> map_err (\<lambda>_. IterUnexpectedEnd) d"

abbreviation it_var :: "(bytes, iter_err, u64) op" where
  "it_var \<equiv> it_get get_var"

lemma it_varint: "x < 2 ^ 62 \<Longrightarrow> it_var (varint_encode x [] @ rest) = (Inr x, rest)"
  by (rule readsD [OF reads_map_err [OF reads_var]])

end
