(* ===== verification/Ack_Frames.thy ===== *)
theory Ack_Frames
  imports Frame_Types Array_Range_Set
begin

text \<open>
  ACK frames (\<^verbatim>\<open>src/src/frame.rs\<close>: \<^verbatim>\<open>Ack\<close>, \<^verbatim>\<open>EcnCounts\<close>, \<^verbatim>\<open>scan_ack_blocks\<close>, \<^verbatim>\<open>AckIter\<close>).
  The encoder writes the acknowledged ranges downwards as gaps and lengths; the decoder checks them
  without building a list and the iterator recomputes the ranges from the checked bytes, with
  unchecked subtraction.  The lemmas tie the three together.
\<close>

section \<open>The frame\<close>

record ecn_counts =
  ecn_ect0 :: u64
  ecn_ect1 :: u64
  ecn_ce :: u64

definition ecn_encode :: "ecn_counts \<Rightarrow> encoder" where
  "ecn_encode x = enc_seq [write_var (ecn_ect0 x), write_var (ecn_ect1 x), write_var (ecn_ce x)]"

record ack =
  ack_largest :: u64
  ack_delay :: u64
  ack_additional :: bytes
  ack_ecn :: "ecn_counts option"

fun ack_blocks :: "nat \<Rightarrow> range list \<Rightarrow> encoder list" where
  "ack_blocks prev [] = []"
| "ack_blocks prev (block # rest) =
     write_var (of_nat (u64_sub (u64_sub prev (snd block)) 1))
     # write_var (of_nat (u64_sub (u64_sub (snd block) (fst block)) 1))
     # ack_blocks (fst block) rest"

definition ack_try_encode :: "u64 \<Rightarrow> array_range_set \<Rightarrow> ecn_counts option \<Rightarrow> encoder" where
  "ack_try_encode delay ranges ecn =
     (case rev ranges of
        [] \<Rightarrow> op_throw VarIntBoundsExceeded
      | first # rest \<Rightarrow>
          enc_seq (write_var (if ecn \<noteq> None then ACK_ECN else ACK)
            # write_var (of_nat (u64_sub (snd first) 1))
            # write_var delay
            # write_var (of_nat (u64_sub (length ranges) 1))
            # write_var (of_nat (u64_sub (u64_sub (snd first) (fst first)) 1))
            # ack_blocks (fst first) rest
            @ (case ecn of None \<Rightarrow> [] | Some x \<Rightarrow> [ecn_encode x])))"

section \<open>Decoding\<close>

text \<open>\<^verbatim>\<open>checked_sub(..).ok_or(IterErr::Malformed)\<close>\<close>

definition it_sub :: "u64 \<Rightarrow> u64 \<Rightarrow> (bytes, iter_err, u64) op" where
  "it_sub a b = (if b \<le> a then op_ret (a - b) else op_throw Malformed)"

fun scan_blocks :: "nat \<Rightarrow> u64 \<Rightarrow> (bytes, iter_err, u64) op" where
  "scan_blocks 0 smallest = op_ret smallest"
| "scan_blocks (Suc n) smallest =
     op_bind it_var (\<lambda>gap. op_bind (it_sub smallest (gap + 2)) (\<lambda>smallest.
     op_bind it_var (\<lambda>block. op_bind (it_sub smallest block) (scan_blocks n))))"

definition scan_ack_blocks :: "bytes \<Rightarrow> u64 \<Rightarrow> nat \<Rightarrow> iter_err + nat" where
  "scan_ack_blocks buf largest n =
     (case op_bind it_var (\<lambda>first_block. op_bind (it_sub largest first_block) (scan_blocks n)) buf of
        (Inl e, _) \<Rightarrow> Inl e
      | (Inr _, rest) \<Rightarrow> Inr (length buf - length rest))"

definition ecn_decode :: "u64 \<Rightarrow> (bytes, iter_err, ecn_counts option) op" where
  "ecn_decode ty = (if ty \<noteq> ACK_ECN then op_ret None
     else op_bind it_var (\<lambda>a. op_bind it_var (\<lambda>b. op_bind it_var (\<lambda>c.
            op_ret (Some \<lparr>ecn_ect0 = a, ecn_ect1 = b, ecn_ce = c\<rparr>)))))"

definition ack_decode :: "u64 \<Rightarrow> (bytes, iter_err, ack) op" where
  "ack_decode ty =
     op_bind it_var (\<lambda>largest. op_bind it_var (\<lambda>delay. op_bind it_var (\<lambda>extra_blocks.
     op_bind (\<lambda>buf. case scan_ack_blocks buf largest (unat extra_blocks) of
                Inl e \<Rightarrow> (Inl e, buf) | Inr n \<Rightarrow> (Inr (take n buf), drop n buf)) (\<lambda>additional.
     op_bind (ecn_decode ty) (\<lambda>ecn.
     op_ret \<lparr>ack_largest = largest, ack_delay = delay, ack_additional = additional, ack_ecn = ecn\<rparr>)))))"

section \<open>The iterator\<close>

definition ack_iter_next :: "u64 \<times> bytes \<Rightarrow> (u64 \<times> u64) option \<times> (u64 \<times> bytes)" where
  "ack_iter_next = (\<lambda>(largest, data).
     if data = [] then (None, (largest, data))
     else case get_var data of
            (Inl _, data) \<Rightarrow> (None, (largest, data))
          | (Inr block, data) \<Rightarrow>
              (case get_var data of
                 (Inr gap, data) \<Rightarrow> (Some (largest - block, largest), (largest - (block + gap + 2), data))
               | (Inl _, data) \<Rightarrow> (Some (largest - block, largest), (largest, data))))"

lemma ack_iter_next_shorter:
  "ack_iter_next (l, data) = (Some r, (l', data')) \<Longrightarrow> length data' < length data"
proof -
  assume step: "ack_iter_next (l, data) = (Some r, (l', data'))"
  obtain r1 d1 where d1: "varint_decode data = (r1, d1)" by (cases "varint_decode data")
  obtain r2 d2 where d2: "varint_decode d1 = (r2, d2)" by (cases "varint_decode d1")
  from step d1 d2 obtain block where "r1 = Inr block" and "data' = d2"
    by (cases r1; cases r2) (auto simp: ack_iter_next_def get_var_def split: if_splits)
  with d1 d2 varintc.decode_shorter [of data block d1] consumes_length [OF consumes_varint, of d1] show ?thesis
    by simp
qed

function ack_iter :: "u64 \<Rightarrow> bytes \<Rightarrow> (u64 \<times> u64) list" where
  "ack_iter largest data = (case ack_iter_next (largest, data) of
      (None, _) \<Rightarrow> []
    | (Some r, (largest', data')) \<Rightarrow> r # ack_iter largest' data')"
  by pat_completeness auto
termination
  by (relation "measure (length \<circ> snd)") (auto dest: ack_iter_next_shorter [OF sym])

declare ack_iter.simps [simp del]

lemma ack_iter_last: "reads varint_decode ub block \<Longrightarrow> ub \<noteq> [] \<Longrightarrow> ack_iter l ub = [(l - block, l)]"
  using readsD [of varint_decode ub block "[]"]
  by (simp add: ack_iter.simps [of l] ack_iter_next_def get_var_def varint_decode_def [of "[]"]
      ack_iter.simps [of l "[]"])

lemma ack_iter_more:
  "reads varint_decode ub block \<Longrightarrow> ub \<noteq> [] \<Longrightarrow> reads varint_decode ug gap \<Longrightarrow>
   ack_iter l (ub @ ug @ data) = (l - block, l) # ack_iter (l - (block + gap + 2)) data"
  by (simp add: ack_iter.simps [of l] ack_iter_next_def get_var_def readsD)

section \<open>Checked blocks and the ranges they stand for\<close>

text \<open>
  Inclusive ranges from the top down, each non-empty, with at least one number missing between
  neighbours.
\<close>

fun ack_descending :: "(u64 \<times> u64) list \<Rightarrow> bool" where
  "ack_descending [] \<longleftrightarrow> True"
| "ack_descending (r # rs) \<longleftrightarrow>
     fst r \<le> snd r \<and> (\<forall>s \<in> set rs. unat (snd s) + 2 \<le> unat (fst r)) \<and> ack_descending rs"

lemma ack_descending_Cons_head:
  assumes "ack_descending ((lo, hi) # rs)" "lo' \<le> hi'" "unat hi + 2 \<le> unat lo'"
  shows "ack_descending ((lo', hi') # (lo, hi) # rs)"
proof -
  have lo: "unat lo \<le> unat hi" using assms(1) by (simp add: word_le_nat_alt)
  have "unat (snd s) + 2 \<le> unat lo'" if "s \<in> set rs" for s
    using assms(1, 3) that lo by fastforce
  with assms show ?thesis by simp
qed

lemma it_var_ok:
  assumes "it_var buf = (Inr x, rest)"
  obtains used where "buf = used @ rest" "used \<noteq> []" "reads varint_decode used x"
proof -
  have "varint_decode buf = (Inr x, rest)"
    using assms by (auto simp: map_err_def get_var_def split: prod.splits sum.splits)
  from varint_decode_local [OF this] that show ?thesis by blast
qed

lemma reads_it_var [reads_rules]: "reads varint_decode us x \<Longrightarrow> reads it_var us x"
  by (simp add: reads_def map_err_def get_var_def)

lemma varint_less: "reads varint_decode used x \<Longrightarrow> x < 2 ^ 62"
  using varintc.decode_ok [of "used @ []"] readsD [of varint_decode used x "[]"]
  by (auto simp: varint_ok_def)

lemma gap_add_2: "reads varint_decode used gap \<Longrightarrow> unat (gap + 2) = unat gap + 2"
  using varint_less [of used gap] by (simp add: word_less_nat_alt unat_word_ariths)

lemma it_sub_ok: "it_sub a b buf = (Inr x, rest) \<longleftrightarrow> b \<le> a \<and> x = a - b \<and> rest = buf"
  by (auto simp: it_sub_def)

text \<open>
  The two passes over the same bytes agree: what the checker accepted, the iterator walks without
  an underflow, and produces one range more than the count of extra blocks.
\<close>

lemma scan_blocks_Suc_ok:
  assumes "scan_blocks (Suc n) s buf = (Inr s', rest)"
  obtains gap ug block ub buf' where
    "buf = ug @ ub @ buf'" "reads varint_decode ug gap" "reads varint_decode ub block" "ub \<noteq> []"
    "gap + 2 \<le> s" "block \<le> s - (gap + 2)" "scan_blocks n (s - (gap + 2) - block) buf' = (Inr s', rest)"
proof -
  from assms obtain gap b1 where g: "it_var buf = (Inr gap, b1)"
    by (auto simp: op_bind_def split: prod.splits sum.splits)
  with assms have sg: "gap + 2 \<le> s" by (auto simp: op_bind_def it_sub_def split: if_splits)
  with assms g obtain block b2 where b: "it_var b1 = (Inr block, b2)"
    by (auto simp: op_bind_def it_sub_def split: prod.splits sum.splits)
  with assms g sg have "block \<le> s - (gap + 2)" and "scan_blocks n (s - (gap + 2) - block) b2 = (Inr s', rest)"
    by (auto simp: op_bind_def it_sub_def split: if_splits)
  with it_var_ok [OF g] it_var_ok [OF b] sg that show ?thesis by metis
qed

lemma scan_blocks_iter:
  assumes "scan_blocks n s buf = (Inr s', rest)"
  shows "\<exists>us. buf = us @ rest \<and>
    (\<forall>ub block l. reads varint_decode ub block \<longrightarrow> ub \<noteq> [] \<longrightarrow> block \<le> l \<longrightarrow> s = l - block \<longrightarrow>
       (\<exists>rs. ack_iter l (ub @ us) = (s, l) # rs \<and> length rs = n \<and> ack_descending ((s, l) # rs)))"
  using assms
proof (induction n arbitrary: s buf)
  case 0
  then show ?case
    by (auto simp: ack_iter_last word_sub_le)
next
  case (Suc n)
  from scan_blocks_Suc_ok [OF Suc.prems] obtain gap ug block ub buf' where
    buf: "buf = ug @ ub @ buf'" and g: "reads varint_decode ug gap" and
    b: "reads varint_decode ub block" "ub \<noteq> []" "block \<le> s - (gap + 2)" and
    le: "gap + 2 \<le> s" and scan: "scan_blocks n (s - (gap + 2) - block) buf' = (Inr s', rest)" .
  from Suc.IH [OF scan] b obtain us rs where us: "buf' = us @ rest" and
    it: "ack_iter (s - (gap + 2)) (ub @ us) = (s - (gap + 2) - block, s - (gap + 2)) # rs"
    "length rs = n" "ack_descending ((s - (gap + 2) - block, s - (gap + 2)) # rs)" by blast
  have low: "unat (s - (gap + 2)) + 2 \<le> unat s"
    using le gap_add_2 [OF g] by (simp add: unat_sub word_le_nat_alt)
  have "\<exists>rs'. ack_iter l (ub0 @ ug @ ub @ us) = (s, l) # rs' \<and> length rs' = Suc n
      \<and> ack_descending ((s, l) # rs')"
    if ub0: "reads varint_decode ub0 block0" "ub0 \<noteq> []" and l: "block0 \<le> l" "s = l - block0" for ub0 block0 l
  proof -
    have "ack_iter l (ub0 @ ug @ ub @ us) = (s, l) # ack_iter (s - (gap + 2)) (ub @ us)"
      using ack_iter_more [OF ub0 g, of l "ub @ us"] l(2) by (simp add: diff_diff_eq add.assoc)
    moreover have "s \<le> l" using l by (simp add: word_sub_le)
    ultimately show ?thesis using it ack_descending_Cons_head [OF it(3) _ low] by simp
  qed
  with buf us show ?case by (intro exI [of _ "ug @ ub @ us"]) simp
qed

lemma scan_ack_blocks_iter:
  assumes "scan_ack_blocks buf largest n = Inr k"
  shows "k \<le> length buf \<and> (\<exists>rs. ack_iter largest (take k buf) = rs \<and> length rs = Suc n
           \<and> snd (hd rs) = largest \<and> ack_descending rs)"
proof -
  from assms obtain s' rest where
    "op_bind it_var (\<lambda>first_block. op_bind (it_sub largest first_block) (scan_blocks n)) buf = (Inr s', rest)"
    and k: "k = length buf - length rest"
    by (auto simp: scan_ack_blocks_def split: prod.splits sum.splits)
  then obtain first b1 where f: "it_var buf = (Inr first, b1)" and le: "first \<le> largest" and
    scan: "scan_blocks n (largest - first) b1 = (Inr s', rest)"
    by (auto simp: op_bind_def it_sub_def split: prod.splits sum.splits if_splits)
  from it_var_ok [OF f] obtain uf where uf: "buf = uf @ b1" "uf \<noteq> []" "reads varint_decode uf first" .
  from scan_blocks_iter [OF scan] uf le obtain us rs where "b1 = us @ rest"
    "ack_iter largest (uf @ us) = (largest - first, largest) # rs" "length rs = n"
    "ack_descending ((largest - first, largest) # rs)" by blast
  with uf k show ?thesis by simp
qed

section \<open>Encoded ranges\<close>

text \<open>The ranges below \<open>prev\<close>, from the top down.\<close>

fun ranges_below :: "nat \<Rightarrow> range list \<Rightarrow> bool" where
  "ranges_below prev [] \<longleftrightarrow> True"
| "ranges_below prev (b # bs) \<longleftrightarrow> fst b < snd b \<and> snd b < prev \<and> ranges_below (fst b) bs"

definition ack_range :: "range \<Rightarrow> u64 \<times> u64" where
  "ack_range r = (of_nat (fst r), of_nat (snd r - 1))"

lemma ranges_below_rev:
  "ranges_ok (rs @ [(s, e)]) \<Longrightarrow> s < e \<and> ranges_below s (rev rs)"
proof (induction rs arbitrary: s e rule: rev_induct)
  case Nil
  then show ?case by (simp add: ranges_ok_Cons)
next
  case (snoc r rs)
  obtain a b where r: "r = (a, b)" by (cases r)
  have "ranges_ok (rs @ [(a, b)])" and se: "s < e" and "b < s"
    using snoc.prems by (auto simp: r ranges_ok_simps)
  with snoc.IH [of a b] show ?case by (simp add: r)
qed

lemma of_nat_small: "n < 2 ^ 62 \<Longrightarrow> unat (of_nat n :: u64) = n"
  by (simp add: unat_of_nat take_bit_nat_eq_self)

lemma of_nat_varint: "n < 2 ^ 62 \<Longrightarrow> (of_nat n :: u64) < 2 ^ 62"
  by (simp add: word_less_nat_alt of_nat_small)

lemma varint_nonempty: "x < 2 ^ 62 \<Longrightarrow> varint_encode x [] \<noteq> []"
  using varint_encode_length [of x] by (auto simp: varint_size_def split: if_splits)

lemma of_nat_minus: "n \<le> m \<Longrightarrow> (of_nat m :: u64) - of_nat n = of_nat (m - n)"
  by simp

lemma of_nat_le: "n \<le> m \<Longrightarrow> m < 2 ^ 62 \<Longrightarrow> (of_nat n :: u64) \<le> of_nat m"
  by (simp add: word_le_nat_alt of_nat_small)

lemma reads_it_sub [reads_rules]: "b \<le> a \<Longrightarrow> reads (it_sub a b) [] (a - b)"
  by (simp add: reads_def it_sub_def)

lemma ack_blocks_roundtrip:
  assumes "ranges_below prev bs" "prev < 2 ^ 62"
  shows "\<exists>bytes s'. writes (enc_seq (ack_blocks prev bs)) bytes
    \<and> reads (scan_blocks (length bs) (of_nat prev)) bytes s'
    \<and> (\<forall>ub block l. reads varint_decode ub block \<longrightarrow> ub \<noteq> [] \<longrightarrow> l - block = of_nat prev \<longrightarrow>
         ack_iter l (ub @ bytes) = (of_nat prev, l) # map ack_range bs)"
  using assms
proof (induction bs arbitrary: prev)
  case Nil
  show ?case by (intro exI [of _ "[]"] exI [of _ "of_nat prev"]) (auto simp: ack_iter_last writes_def reads_def)
next
  case (Cons b bs)
  define gap blk where "gap = prev - snd b - 1" and "blk = snd b - fst b - 1"
  have ok: "fst b < snd b" "snd b < prev" "ranges_below (fst b) bs" "fst b < 2 ^ 62"
    and lt: "gap < 2 ^ 62" "blk < 2 ^ 62" using Cons.prems by (auto simp: gap_def blk_def)
  have sub: "u64_sub (u64_sub prev (snd b)) 1 = gap" "u64_sub (u64_sub (snd b) (fst b)) 1 = blk"
    using ok Cons.prems by (simp_all add: u64_sub_def gap_def blk_def)
  have top: "gap + 2 \<le> prev" "prev - (gap + 2) = snd b - 1" "blk \<le> snd b - 1" "snd b - 1 - blk = fst b"
    using ok by (simp_all add: gap_def blk_def)
  have s1: "(of_nat prev :: u64) - (of_nat gap + 2) = of_nat (snd b - 1)" "of_nat gap + 2 \<le> (of_nat prev :: u64)"
    using of_nat_minus [OF top(1)] of_nat_le [OF top(1) Cons.prems(2)] unfolding top(2) by (simp_all add: add.commute)
  have s2: "(of_nat (snd b - 1) :: u64) - of_nat blk = of_nat (fst b)" "of_nat blk \<le> (of_nat (snd b - 1) :: u64)"
    using of_nat_minus [OF top(3)] of_nat_le [OF top(3)] ok Cons.prems unfolding top(4) by (simp_all add: add.commute)
  from Cons.IH [OF ok(3,4)] obtain bytes s' where w: "writes (enc_seq (ack_blocks (fst b) bs)) bytes"
    and r: "reads (scan_blocks (length bs) (of_nat (fst b))) bytes s'"
    and it: "\<And>ub block l. reads varint_decode ub block \<Longrightarrow> ub \<noteq> [] \<Longrightarrow> l - block = of_nat (fst b) \<Longrightarrow>
         ack_iter l (ub @ bytes) = (of_nat (fst b), l) # map ack_range bs" by blast
  let ?g = "varint_encode (of_nat gap) []" and ?b = "varint_encode (of_nat blk) []"
  note dec = reads_varint [OF of_nat_varint [OF lt(1)]] reads_varint [OF of_nat_varint [OF lt(2)]]
  have "writes (enc_seq (ack_blocks prev (b # bs))) (?g @ ?b @ bytes)"
    unfolding ack_blocks.simps sub using w lt by (intro writes_rules of_nat_varint)
  moreover have "reads (scan_blocks (length (b # bs)) (of_nat prev)) (?g @ ?b @ bytes) s'"
    using readsD [OF reads_it_var [OF dec(1)]] readsD [OF reads_it_var [OF dec(2)]] readsD [OF r] s1 s2
    by (simp add: reads_def it_sub_def)
  moreover have "ack_iter l (ub @ ?g @ ?b @ bytes) = (of_nat prev, l) # map ack_range (b # bs)"
    if ub: "reads varint_decode ub block" "ub \<noteq> []" "l - block = of_nat prev" for ub block l
    using ack_iter_more [OF ub(1,2) dec(1), of l "?b @ bytes"] it [OF dec(2) varint_nonempty [OF of_nat_varint [OF lt(2)]], of "of_nat (snd b - 1)"] ub s1 s2
    by (simp add: ack_range_def diff_diff_eq [symmetric])
  ultimately show ?case by (metis append_Nil)
qed

lemma ranges_below_length: "ranges_below prev bs \<Longrightarrow> length bs \<le> prev"
  by (induction prev bs rule: ranges_below.induct) auto

definition ecn_ok :: "ecn_counts option \<Rightarrow> bool" where
  "ecn_ok ecn = (case ecn of None \<Rightarrow> True
     | Some x \<Rightarrow> ecn_ect0 x < 2 ^ 62 \<and> ecn_ect1 x < 2 ^ 62 \<and> ecn_ce x < 2 ^ 62)"

definition ack_type :: "ecn_counts option \<Rightarrow> u64" where
  "ack_type ecn = (if ecn \<noteq> None then ACK_ECN else ACK)"

text \<open>The counters, written and read.\<close>

lemma ecn_roundtrip:
  assumes "ecn_ok ecn"
  shows "\<exists>bytes. writes (enc_seq (case ecn of None \<Rightarrow> [] | Some x \<Rightarrow> [ecn_encode x])) bytes
    \<and> reads (ecn_decode (ack_type ecn)) bytes ecn"
proof (cases ecn)
  case None
  then show ?thesis by (intro exI [of _ "[]"]) (simp add: ecn_decode_def ack_type_def reads_def writes_def)
next
  case (Some x)
  then have lt: "ecn_ect0 x < 2 ^ 62" "ecn_ect1 x < 2 ^ 62" "ecn_ce x < 2 ^ 62"
    using assms by (simp_all add: ecn_ok_def)
  define bs where "bs = varint_encode (ecn_ect0 x) [] @ varint_encode (ecn_ect1 x) [] @ varint_encode (ecn_ce x) [] @ []"
  have "writes (ecn_encode x) bs"
    unfolding ecn_encode_def bs_def using lt by (intro writes_rules)
  then have "writes (enc_seq [ecn_encode x]) (bs @ [])" by (intro writes_rules)
  moreover have "reads (ecn_decode 3) bs (Some x)"
    using lt by (simp add: reads_def ecn_decode_def bs_def it_varint)
  ultimately show ?thesis using Some by (auto simp: ack_type_def)
qed

lemma ack_decode_fields:
  assumes "largest < 2 ^ 62" "delay < 2 ^ 62" "extra < 2 ^ 62"
    and "scan_ack_blocks (add @ post) largest (unat extra) = Inr (length add)"
    and "ecn_decode ty post = (Inr ecn, rest)"
  shows "ack_decode ty (varint_encode largest [] @ varint_encode delay [] @ varint_encode extra [] @ add @ post) =
    (Inr \<lparr>ack_largest = largest, ack_delay = delay, ack_additional = add, ack_ecn = ecn\<rparr>, rest)"
  using assms unfolding ack_decode_def
  by (simp add: it_varint)

lemma ack_encoding:
  assumes "ranges_ok rs" "rs \<noteq> []" "snd (last rs) \<le> 2 ^ 62" "delay < 2 ^ 62" "ecn_ok ecn"
  shows "\<exists>bytes add. writes (ack_try_encode delay rs ecn) (varint_encode (ack_type ecn) [] @ bytes)
    \<and> reads (ack_decode (ack_type ecn)) bytes
        \<lparr>ack_largest = of_nat (snd (last rs) - 1), ack_delay = delay, ack_additional = add, ack_ecn = ecn\<rparr>
    \<and> ack_iter (of_nat (snd (last rs) - 1)) add = map ack_range (rev rs)"
proof -
  obtain qs s e where rs: "rs = qs @ [(s, e)]" using assms(2) by (metis prod.exhaust rev_exhaust)
  have se: "s < e" "ranges_below s (rev qs)" "e \<le> 2 ^ 62" using ranges_below_rev assms by (auto simp: rs)
  then have n: "length qs < 2 ^ 62" "s < 2 ^ 62" using ranges_below_length [OF se(2)] by simp_all
  obtain bb sc where w: "writes (enc_seq (ack_blocks s (rev qs))) bb"
    and r: "reads (scan_blocks (length qs) (of_nat s)) bb sc"
    and it: "\<And>ub block l. reads varint_decode ub block \<Longrightarrow> ub \<noteq> [] \<Longrightarrow> l - block = of_nat s \<Longrightarrow>
      ack_iter l (ub @ bb) = (of_nat s, l) # map ack_range (rev qs)"
    using ack_blocks_roundtrip [OF se(2) n(2)] by auto
  obtain eb where ew: "writes (enc_seq (case ecn of None \<Rightarrow> [] | Some x \<Rightarrow> [ecn_encode x])) eb"
    and er: "reads (ecn_decode (ack_type ecn)) eb ecn" using ecn_roundtrip [OF assms(5)] by blast
  define fst_b where "fst_b = e - s - 1"
  let ?v = "\<lambda>n. varint_encode n []" and ?L = "of_nat (e - 1) :: u64"
  have lt: "fst_b < 2 ^ 62" "e - 1 < 2 ^ 62" "fst_b \<le> e - 1" "e - 1 - fst_b = s" using se by (auto simp: fst_b_def)
  note lim = of_nat_varint [OF lt(1)] of_nat_varint [OF lt(2)] of_nat_varint [OF n(1)] assms(4)
  have sub: "u64_sub e 1 = e - 1" "u64_sub (u64_sub e s) 1 = fst_b" "u64_sub (length rs) 1 = length qs"
    using se by (simp_all add: u64_sub_def fst_b_def rs)
  have first: "?L - of_nat fst_b = of_nat s" "of_nat fst_b \<le> ?L"
    using of_nat_minus [OF lt(3)] of_nat_le [OF lt(3,2)] unfolding lt(4) by simp_all
  define add where "add = ?v (of_nat fst_b) @ bb"
  have rev_rs: "rev rs = (s, e) # rev qs" by (simp add: rs)
  have lim_ty: "ack_type ecn < 2 ^ 62" by (simp add: ack_type_def)
  have "writes (ack_try_encode delay rs ecn)
    (?v (ack_type ecn) @ ?v ?L @ ?v delay @ ?v (of_nat (length qs)) @ ?v (of_nat fst_b) @ bb @ eb)"
    unfolding ack_try_encode_def rev_rs list.case fst_conv snd_conv sub ack_type_def [symmetric]
    using w ew lim lim_ty by (intro writes_rules)
  moreover have "scan_ack_blocks (add @ eb @ rest) ?L (length qs) = Inr (length add)" for rest
    using first readsD [OF r] lim by (simp add: scan_ack_blocks_def add_def it_varint it_sub_def)
  then have "reads (ack_decode (ack_type ecn)) (?v ?L @ ?v delay @ ?v (of_nat (length qs)) @ add @ eb)
      \<lparr>ack_largest = ?L, ack_delay = delay, ack_additional = add, ack_ecn = ecn\<rparr>"
    unfolding reads_def using ack_decode_fields [where ty = "ack_type ecn"] lim readsD [OF er] of_nat_small [OF n(1)] by simp
  moreover have "ack_iter ?L add = map ack_range (rev rs)"
    using it [OF reads_varint varint_nonempty, OF lim(1) lim(1) first(1)] by (simp add: add_def rs ack_range_def)
  ultimately show ?thesis unfolding add_def by (auto simp: rs)
qed

section \<open>Properties\<close>

text \<open>
  (C30) An ACK frame round-trips: for any set of received packet numbers below \<open>2 ^ 62\<close>, as the
  range set holds them, the encoder succeeds, the decoder of the frame's type accepts the bytes it
  wrote and stops at their end whatever follows, and the iterator over the decoded frame yields the
  same ranges from the largest down; delay and ECN counters come back unchanged.
\<close>

theorem ack_frame_roundtrip:
  assumes "ranges_ok rs" "rs \<noteq> []" "snd (last rs) \<le> 2 ^ 62" "delay < 2 ^ 62" "ecn_ok ecn"
  shows "\<exists>bytes a. ack_try_encode delay rs ecn w = (Inr (), w @ varint_encode (ack_type ecn) [] @ bytes)
    \<and> (\<forall>rest. ack_decode (ack_type ecn) (bytes @ rest) = (Inr a, rest))
    \<and> ack_delay a = delay \<and> ack_ecn a = ecn
    \<and> ack_iter (ack_largest a) (ack_additional a) = map ack_range (rev rs)"
proof -
  from ack_encoding [OF assms] obtain bytes add where
    "writes (ack_try_encode delay rs ecn) (varint_encode (ack_type ecn) [] @ bytes)"
    "reads (ack_decode (ack_type ecn)) bytes
       \<lparr>ack_largest = of_nat (snd (last rs) - 1), ack_delay = delay, ack_additional = add, ack_ecn = ecn\<rparr>"
    "ack_iter (of_nat (snd (last rs) - 1)) add = map ack_range (rev rs)" by blast
  then show ?thesis
    by (intro exI [of _ bytes] exI) (auto simp: writes_def reads_def)
qed

theorem ack_frame_roundtrip_witness:
  "\<exists>bytes a. ack_try_encode 42 [(1, 4), (5, 6), (10, 12), (14, 15)] (Some \<lparr>ecn_ect0 = 42, ecn_ect1 = 24, ecn_ce = 12\<rparr>) [7] =
      (Inr (), [7] @ varint_encode 3 [] @ bytes)
    \<and> (\<forall>rest. ack_decode 3 (bytes @ rest) = (Inr a, rest))
    \<and> ack_iter (ack_largest a) (ack_additional a) = [(14, 14), (10, 11), (5, 5), (1, 3)]"
  using ack_frame_roundtrip [of "[(1, 4), (5, 6), (10, 12), (14, 15)]" 42
      "Some \<lparr>ecn_ect0 = 42, ecn_ect1 = 24, ecn_ce = 12\<rparr>" "[7]"]
  by (auto simp: ranges_ok_Cons ecn_ok_def ack_type_def ack_range_def)

text \<open>
  (C31) Whatever bytes a peer sends, an ACK frame that the decoder accepts iterates to ranges
  that start at the largest number, every range non-empty, strictly descending and
  with a gap between neighbours: the iterator's unchecked subtractions never wrap around.
\<close>

theorem accepted_ack_descends:
  assumes "ack_decode ty buf = (Inr a, rest)"
  shows "ack_iter (ack_largest a) (ack_additional a) \<noteq> []
    \<and> snd (hd (ack_iter (ack_largest a) (ack_additional a))) = ack_largest a
    \<and> ack_descending (ack_iter (ack_largest a) (ack_additional a))"
proof -
  from assms obtain buf' n k where "scan_ack_blocks buf' (ack_largest a) n = Inr k"
    "ack_additional a = take k buf'"
    by (auto simp: ack_decode_def op_bind_def split: prod.splits sum.splits)
  with scan_ack_blocks_iter [of buf' "ack_largest a" n k] show ?thesis by auto
qed

theorem accepted_ack_descends_witness:
  "ack_decode 2 [20, 5, 2, 2, 3, 4, 1, 0, 99] =
     (Inr \<lparr>ack_largest = 20, ack_delay = 5, ack_additional = [2, 3, 4, 1, 0], ack_ecn = None\<rparr>, [99])
    \<and> ack_iter 20 [2, 3, 4, 1, 0] \<noteq> [] \<and> snd (hd (ack_iter 20 [2, 3, 4, 1, 0])) = 20
    \<and> ack_descending (ack_iter 20 [2, 3, 4, 1, 0])"
proof -
  have dec: "ack_decode 2 [20, 5, 2, 2, 3, 4, 1, 0, 99] =
      (Inr \<lparr>ack_largest = 20, ack_delay = 5, ack_additional = [2, 3, 4, 1, 0], ack_ecn = None\<rparr>, [99])"
    by code_simp
  from accepted_ack_descends [OF dec] dec show ?thesis by simp
qed

end
