(* ===== verification/Nat_Frames.thy ===== *)
theory Nat_Frames
  imports Frame_Types
begin

text \<open>
  NAT traversal and address discovery frames (\<^verbatim>\<open>src/src/frame/nat_traversal_unified.rs\<close> and
  \<^verbatim>\<open>ObservedAddress\<close> of \<^verbatim>\<open>src/src/frame.rs\<close>): \<^verbatim>\<open>ADD_ADDRESS\<close> and \<^verbatim>\<open>PUNCH_ME_NOW\<close> in the RFC and
  in the legacy format with the decoder that tries both, \<^verbatim>\<open>REMOVE_ADDRESS\<close>, \<^verbatim>\<open>TRY_CONNECT_TO\<close> and
  its response.  The lemmas are the round trips; the last section shows what becomes of a legacy
  frame under the automatic decoder.
\<close>

section \<open>Socket addresses\<close>

text \<open>\<^verbatim>\<open>std::net::SocketAddr\<close>: an IP address as one big-endian number, port, and for IPv6 flow
  information and scope.\<close>

datatype socket_addr = V4 u32 u16 | V6 "128 word" u16 u32 u32

fun is_v6 :: "socket_addr \<Rightarrow> bool" where
  "is_v6 (V4 _ _) = False"
| "is_v6 (V6 _ _ _ _) = True"

text \<open>IP address and port, without a version byte.\<close>

fun addr_put :: "socket_addr \<Rightarrow> encoder list" where
  "addr_put (V4 ip port) = [put (ipv4_encode ip), put (u16_encode port)]"
| "addr_put (V6 ip port _ _) = [put (ipv6_encode ip), put (u16_encode port)]"

definition ensure_remaining :: "nat \<Rightarrow> unit decoder" where
  "ensure_remaining n buf = (if length buf < n then (Inl UnexpectedEnd, buf) else (Inr (), buf))"

definition addr_get :: "bool \<Rightarrow> socket_addr decoder" where
  "addr_get is_ipv6 =
     (if is_ipv6
      then op_bind (ensure_remaining (16 + 2)) (\<lambda>_. op_bind ipv6_decode (\<lambda>ip. op_bind u16_decode (\<lambda>port.
             op_ret (V6 ip port 0 0))))
      else op_bind (ensure_remaining (4 + 2)) (\<lambda>_. op_bind ipv4_decode (\<lambda>ip. op_bind u16_decode (\<lambda>port.
             op_ret (V4 ip port)))))"

text \<open>The legacy form: a version byte, and the IPv6 flow information and scope.\<close>

fun addr_put_legacy :: "socket_addr \<Rightarrow> encoder list" where
  "addr_put_legacy (V4 ip port) = [put (u8_encode 4), put (ipv4_encode ip), put (u16_encode port)]"
| "addr_put_legacy (V6 ip port flowinfo scope_id) =
     [put (u8_encode 6), put (ipv6_encode ip), put (u16_encode port), put (u32_encode flowinfo), put (u32_encode scope_id)]"

definition addr_get_legacy :: "socket_addr decoder" where
  "addr_get_legacy = op_bind u8_decode (\<lambda>ip_version.
     if ip_version = 4
     then op_bind (ensure_remaining (4 + 2)) (\<lambda>_. op_bind ipv4_decode (\<lambda>ip. op_bind u16_decode (\<lambda>port.
            op_ret (V4 ip port))))
     else if ip_version = 6
     then op_bind (ensure_remaining (16 + 2 + 4 + 4)) (\<lambda>_. op_bind ipv6_decode (\<lambda>ip. op_bind u16_decode (\<lambda>port.
            op_bind u32_decode (\<lambda>flowinfo. op_bind u32_decode (\<lambda>scope_id.
            op_ret (V6 ip port flowinfo scope_id))))))
     else op_throw UnexpectedEnd)"

text \<open>The addresses the RFC form can carry.\<close>

fun rfc_addr :: "socket_addr \<Rightarrow> bool" where
  "rfc_addr (V4 _ _) = True"
| "rfc_addr (V6 _ _ flowinfo scope_id) \<longleftrightarrow> flowinfo = 0 \<and> scope_id = 0"

fun addr_bytes :: "socket_addr \<Rightarrow> bytes" where
  "addr_bytes (V4 ip port) = ipv4_encode ip [] @ u16_encode port []"
| "addr_bytes (V6 ip port _ _) = ipv6_encode ip [] @ u16_encode port []"

fun addr_bytes_legacy :: "socket_addr \<Rightarrow> bytes" where
  "addr_bytes_legacy (V4 ip port) = 4 # ipv4_encode ip [] @ u16_encode port []"
| "addr_bytes_legacy (V6 ip port flowinfo scope_id) =
     6 # ipv6_encode ip [] @ u16_encode port [] @ u32_encode flowinfo [] @ u32_encode scope_id []"

lemma writes_addr_put: "writes (enc_seq (addr_put a)) (addr_bytes a)"
  using writes_Cons [OF codec_writes(6) writes_Cons [OF codec_writes(3) writes_Nil]]
    writes_Cons [OF codec_writes(7) writes_Cons [OF codec_writes(3) writes_Nil]]
  by (cases a) simp_all

lemma u8_encode_Nil: "u8_encode x [] = [x]"
  by (simp add: u8_encode_def)

lemma writes_addr_put_legacy: "writes (enc_seq (addr_put_legacy a)) (addr_bytes_legacy a)"
  using writes_Cons [OF codec_writes(2) writes_Cons [OF codec_writes(6) writes_Cons [OF codec_writes(3) writes_Nil]]]
    writes_Cons [OF codec_writes(2) writes_Cons [OF codec_writes(7) writes_Cons [OF codec_writes(3)
      writes_Cons [OF codec_writes(4) writes_Cons [OF codec_writes(4) writes_Nil]]]]]
  by (cases a) (simp_all add: u8_encode_Nil)

lemmas field_lengths = ipv4c.encode_width ipv6c.encode_width u16c.encode_width u32c.encode_width

lemma reads_addr_get: "rfc_addr a \<Longrightarrow> reads (addr_get (is_v6 a)) (addr_bytes a) a"
  by (cases a) (simp_all add: reads_def addr_get_def ensure_remaining_def ipv4c.decode_encode ipv6c.decode_encode
      u16c.decode_encode field_lengths)

lemma reads_addr_get_legacy: "reads addr_get_legacy (addr_bytes_legacy a) a"
  by (cases a) (simp_all add: reads_def addr_get_legacy_def ensure_remaining_def u8_decode_def ipv4c.decode_encode
      ipv6c.decode_encode u16c.decode_encode u32c.decode_encode field_lengths)

section \<open>Priorities\<close>

definition v4_is_loopback :: "u32 \<Rightarrow> bool" where
  "v4_is_loopback ip \<longleftrightarrow> drop_bit 24 ip = 127"

definition v4_is_private :: "u32 \<Rightarrow> bool" where
  "v4_is_private ip \<longleftrightarrow> drop_bit 24 ip = 10 \<or> drop_bit 20 ip = 0xac1 \<or> drop_bit 16 ip = 0xc0a8"

definition v6_is_loopback :: "128 word \<Rightarrow> bool" where
  "v6_is_loopback ip \<longleftrightarrow> ip = 1"

definition v6_is_unicast_link_local :: "128 word \<Rightarrow> bool" where
  "v6_is_unicast_link_local ip \<longleftrightarrow> drop_bit 118 ip = 0x3fa"

definition calculate_priority :: "socket_addr \<Rightarrow> u32" where
  "calculate_priority addr =
     (let type_pref = (case addr of
            V4 ip _ \<Rightarrow> if v4_is_loopback ip then 0 else if v4_is_private ip then 100 else 126
          | V6 ip _ _ _ \<Rightarrow> if v6_is_loopback ip then 0 else if v6_is_unicast_link_local ip then 90 else 120);
          local_pref = (case addr of V4 _ _ \<Rightarrow> 65535 | V6 _ _ _ _ \<Rightarrow> 65534)
      in push_bit 24 type_pref + push_bit 8 local_pref + 255)"

section \<open>ADD\_ADDRESS\<close>

record add_address =
  aa_sequence :: varint
  aa_address :: socket_addr
  aa_priority :: varint

definition aa_new :: "varint \<Rightarrow> socket_addr \<Rightarrow> add_address" where
  "aa_new seq addr = \<lparr>aa_sequence = seq, aa_address = addr, aa_priority = ucast (calculate_priority addr)\<rparr>"

definition aa_type :: "socket_addr \<Rightarrow> frame_type" where
  "aa_type addr = (if is_v6 addr then ADD_ADDRESS_IPV6 else ADD_ADDRESS_IPV4)"

definition aa_try_encode_rfc :: "add_address \<Rightarrow> encoder" where
  "aa_try_encode_rfc f = enc_seq (write_var (aa_type (aa_address f)) # write_var (aa_sequence f) # addr_put (aa_address f))"

definition aa_try_encode_legacy :: "add_address \<Rightarrow> encoder" where
  "aa_try_encode_legacy f = enc_seq (write_var (aa_type (aa_address f)) # write_var (aa_sequence f)
     # write_var (aa_priority f) # addr_put_legacy (aa_address f))"

definition aa_try_encode :: "add_address \<Rightarrow> encoder" where
  "aa_try_encode f = aa_try_encode_legacy f"

definition aa_decode_rfc :: "bool \<Rightarrow> add_address decoder" where
  "aa_decode_rfc is_ipv6 = op_bind varint_decode (\<lambda>seq. op_bind (addr_get is_ipv6) (\<lambda>address.
     op_ret (aa_new seq address)))"

definition aa_decode_legacy :: "add_address decoder" where
  "aa_decode_legacy = op_bind varint_decode (\<lambda>seq. op_bind varint_decode (\<lambda>priority.
     op_bind addr_get_legacy (\<lambda>address.
     op_ret \<lparr>aa_sequence = seq, aa_address = address, aa_priority = priority\<rparr>)))"

text \<open>The second attempt goes on where the first one stopped.\<close>

definition aa_decode_auto :: "bool \<Rightarrow> add_address decoder" where
  "aa_decode_auto is_ipv6 r = (case aa_decode_rfc is_ipv6 r of
      (Inr frame, r) \<Rightarrow> (Inr frame, r)
    | (Inl _, r) \<Rightarrow> aa_decode_legacy r)"

section \<open>PUNCH\_ME\_NOW\<close>

record punch_me_now =
  pm_round :: varint
  pm_paired_with_sequence_number :: varint
  pm_address :: socket_addr
  pm_target_peer_id :: "bytes option"

definition pm_new :: "varint \<Rightarrow> varint \<Rightarrow> socket_addr \<Rightarrow> punch_me_now" where
  "pm_new round paired addr =
     \<lparr>pm_round = round, pm_paired_with_sequence_number = paired, pm_address = addr, pm_target_peer_id = None\<rparr>"

definition pm_type :: "socket_addr \<Rightarrow> frame_type" where
  "pm_type addr = (if is_v6 addr then PUNCH_ME_NOW_IPV6 else PUNCH_ME_NOW_IPV4)"

definition peer_id_put :: "bytes option \<Rightarrow> encoder list" where
  "peer_id_put target = (case target of
      Some peer_id \<Rightarrow> [put (u8_encode 1), put_slice peer_id]
    | None \<Rightarrow> [put (u8_encode 0)])"

definition pm_try_encode_rfc :: "punch_me_now \<Rightarrow> encoder" where
  "pm_try_encode_rfc f = enc_seq ([write_var (pm_type (pm_address f)), write_var (pm_round f),
     write_var (pm_paired_with_sequence_number f)] @ addr_put (pm_address f) @ peer_id_put (pm_target_peer_id f))"

definition pm_try_encode_legacy :: "punch_me_now \<Rightarrow> encoder" where
  "pm_try_encode_legacy f = enc_seq ([write_var (pm_type (pm_address f)), write_var (pm_round f),
     write_var (pm_paired_with_sequence_number f)] @ addr_put_legacy (pm_address f) @ peer_id_put (pm_target_peer_id f))"

definition pm_try_encode :: "punch_me_now \<Rightarrow> encoder" where
  "pm_try_encode f = pm_try_encode_legacy f"

definition peer_id_get_rfc :: "bytes option decoder" where
  "peer_id_get_rfc r =
     (if length r \<ge> 1
      then op_bind u8_decode (\<lambda>has_peer_id.
             if has_peer_id = 1 then op_bind (take_bytes 32 UnexpectedEnd) (\<lambda>p. op_ret (Some p))
             else if has_peer_id = 0 then op_ret None
             else op_throw UnexpectedEnd) r
      else (Inr None, r))"

definition pm_decode_rfc :: "bool \<Rightarrow> punch_me_now decoder" where
  "pm_decode_rfc is_ipv6 = op_bind varint_decode (\<lambda>round. op_bind varint_decode (\<lambda>paired.
     op_bind (addr_get is_ipv6) (\<lambda>address. op_bind peer_id_get_rfc (\<lambda>target.
     op_ret ((pm_new round paired address)\<lparr>pm_target_peer_id := target\<rparr>)))))"

definition peer_id_get_legacy :: "bytes option decoder" where
  "peer_id_get_legacy r =
     (if length r > 0
      then op_bind u8_decode (\<lambda>has_peer_id r.
             if has_peer_id = 1 \<and> length r \<ge> 32 then (Inr (Some (take 32 r)), drop 32 r)
             else (Inr None, r)) r
      else (Inr None, r))"

definition pm_decode_legacy :: "punch_me_now decoder" where
  "pm_decode_legacy = op_bind varint_decode (\<lambda>round. op_bind varint_decode (\<lambda>target_sequence.
     op_bind addr_get_legacy (\<lambda>address. op_bind peer_id_get_legacy (\<lambda>target.
     op_ret \<lparr>pm_round = round, pm_paired_with_sequence_number = target_sequence, pm_address = address,
       pm_target_peer_id = target\<rparr>))))"

definition pm_decode_auto :: "bool \<Rightarrow> punch_me_now decoder" where
  "pm_decode_auto is_ipv6 r = (case pm_decode_rfc is_ipv6 r of
      (Inr frame, r) \<Rightarrow> (Inr frame, r)
    | (Inl _, r) \<Rightarrow> pm_decode_legacy r)"

section \<open>REMOVE\_ADDRESS, OBSERVED\_ADDRESS\<close>

record remove_address =
  ra_sequence :: varint

definition ra_try_encode :: "remove_address \<Rightarrow> encoder" where
  "ra_try_encode f = enc_seq [write_var REMOVE_ADDRESS, write_var (ra_sequence f)]"

definition ra_decode :: "remove_address decoder" where
  "ra_decode = op_bind varint_decode (\<lambda>seq. op_ret \<lparr>ra_sequence = seq\<rparr>)"

record observed_address =
  oa_sequence_number :: varint
  oa_address :: socket_addr

definition oa_type :: "socket_addr \<Rightarrow> frame_type" where
  "oa_type addr = (if is_v6 addr then OBSERVED_ADDRESS_IPV6 else OBSERVED_ADDRESS_IPV4)"

definition oa_try_encode :: "observed_address \<Rightarrow> encoder" where
  "oa_try_encode f = enc_seq (write_var (oa_type (oa_address f)) # write_var (oa_sequence_number f) # addr_put (oa_address f))"

definition oa_decode :: "bool \<Rightarrow> observed_address decoder" where
  "oa_decode is_ipv6 = op_bind get_var (\<lambda>seq.
     if seq < 2 ^ 62
     then op_bind (addr_get is_ipv6) (\<lambda>address. op_ret \<lparr>oa_sequence_number = seq, oa_address = address\<rparr>)
     else op_throw UnexpectedEnd)"

section \<open>TRY\_CONNECT\_TO and its response\<close>

datatype try_connect_error = Timeout | ConnectionRefused | NetworkUnreachable | HostUnreachable
  | RateLimited | InvalidAddress | InternalError

fun tce_as_u8 :: "try_connect_error \<Rightarrow> u8" where
  "tce_as_u8 Timeout = 0"
| "tce_as_u8 ConnectionRefused = 1"
| "tce_as_u8 NetworkUnreachable = 2"
| "tce_as_u8 HostUnreachable = 3"
| "tce_as_u8 RateLimited = 4"
| "tce_as_u8 InvalidAddress = 5"
| "tce_as_u8 InternalError = 255"

definition tce_from_u8 :: "u8 \<Rightarrow> try_connect_error" where
  "tce_from_u8 value = (if value = 0 then Timeout else if value = 1 then ConnectionRefused
     else if value = 2 then NetworkUnreachable else if value = 3 then HostUnreachable
     else if value = 4 then RateLimited else if value = 5 then InvalidAddress else InternalError)"

record try_connect_to =
  tc_request_id :: varint
  tc_target_address :: socket_addr
  tc_timeout_ms :: u16

definition tc_type :: "socket_addr \<Rightarrow> frame_type" where
  "tc_type addr = (if is_v6 addr then TRY_CONNECT_TO_IPV6 else TRY_CONNECT_TO_IPV4)"

definition tc_try_encode :: "try_connect_to \<Rightarrow> encoder" where
  "tc_try_encode f = enc_seq ([write_var (tc_type (tc_target_address f)), write_var (tc_request_id f)]
     @ addr_put (tc_target_address f) @ [put (u16_encode (tc_timeout_ms f))])"

definition tc_decode :: "bool \<Rightarrow> try_connect_to decoder" where
  "tc_decode is_ipv6 = op_bind varint_decode (\<lambda>request_id. op_bind (addr_get is_ipv6) (\<lambda>target_address.
     op_bind (ensure_remaining 2) (\<lambda>_. op_bind u16_decode (\<lambda>timeout_ms.
     op_ret \<lparr>tc_request_id = request_id, tc_target_address = target_address, tc_timeout_ms = timeout_ms\<rparr>))))"

record try_connect_to_response =
  tr_request_id :: varint
  tr_success :: bool
  tr_error_code :: "try_connect_error option"
  tr_source_address :: socket_addr

definition tr_make_success :: "varint \<Rightarrow> socket_addr \<Rightarrow> try_connect_to_response" where
  "tr_make_success request_id source_address =
     \<lparr>tr_request_id = request_id, tr_success = True, tr_error_code = None, tr_source_address = source_address\<rparr>"

definition tr_make_failure :: "varint \<Rightarrow> try_connect_error \<Rightarrow> socket_addr \<Rightarrow> try_connect_to_response" where
  "tr_make_failure request_id error_code source_address =
     \<lparr>tr_request_id = request_id, tr_success = False, tr_error_code = Some error_code, tr_source_address = source_address\<rparr>"

definition tr_type :: "socket_addr \<Rightarrow> frame_type" where
  "tr_type addr = (if is_v6 addr then TRY_CONNECT_TO_RESPONSE_IPV6 else TRY_CONNECT_TO_RESPONSE_IPV4)"

definition tr_try_encode :: "try_connect_to_response \<Rightarrow> encoder" where
  "tr_try_encode f = enc_seq ([write_var (tr_type (tr_source_address f)), write_var (tr_request_id f),
     put (u8_encode (if tr_success f then 1 else 0)),
     put (u8_encode (case tr_error_code f of Some e \<Rightarrow> tce_as_u8 e | None \<Rightarrow> 0))]
     @ addr_put (tr_source_address f))"

definition tr_decode :: "bool \<Rightarrow> try_connect_to_response decoder" where
  "tr_decode is_ipv6 = op_bind varint_decode (\<lambda>request_id. op_bind (ensure_remaining 2) (\<lambda>_.
     op_bind u8_decode (\<lambda>s. op_bind u8_decode (\<lambda>error_byte. op_bind (addr_get is_ipv6) (\<lambda>source_address.
     let success = (s \<noteq> 0) in
     op_ret \<lparr>tr_request_id = request_id, tr_success = success,
       tr_error_code = (if success then None else Some (tce_from_u8 error_byte)),
       tr_source_address = source_address\<rparr>)))))"

section \<open>Round trips\<close>

lemma tce_from_as: "tce_from_u8 (tce_as_u8 e) = e"
  by (cases e) (simp_all add: tce_from_u8_def)

lemma frame_types_small:
  "aa_type a < 2 ^ 62" "pm_type a < 2 ^ 62" "oa_type a < 2 ^ 62" "tc_type a < 2 ^ 62" "tr_type a < 2 ^ 62"
  by (simp_all add: aa_type_def pm_type_def oa_type_def tc_type_def tr_type_def)

lemma priority_small: "(ucast (p :: u32) :: u64) < 2 ^ 62"
proof -
  have "unat p < 2 ^ 32" using unsigned_less [of p] by simp
  then show ?thesis by (simp add: word_less_nat_alt unsigned_ucast_eq take_bit_nat_eq_self)
qed

definition aa_ok :: "add_address \<Rightarrow> bool" where
  "aa_ok f \<longleftrightarrow> aa_sequence f < 2 ^ 62 \<and> rfc_addr (aa_address f) \<and> aa_priority f = ucast (calculate_priority (aa_address f))"

definition pm_ok :: "punch_me_now \<Rightarrow> bool" where
  "pm_ok f \<longleftrightarrow> pm_round f < 2 ^ 62 \<and> pm_paired_with_sequence_number f < 2 ^ 62 \<and> rfc_addr (pm_address f)
     \<and> (case pm_target_peer_id f of None \<Rightarrow> True | Some p \<Rightarrow> length p = 32)"

definition oa_ok :: "observed_address \<Rightarrow> bool" where
  "oa_ok f \<longleftrightarrow> oa_sequence_number f < 2 ^ 62 \<and> rfc_addr (oa_address f)"

definition tc_ok :: "try_connect_to \<Rightarrow> bool" where
  "tc_ok f \<longleftrightarrow> tc_request_id f < 2 ^ 62 \<and> rfc_addr (tc_target_address f)"

definition tr_ok :: "try_connect_to_response \<Rightarrow> bool" where
  "tr_ok f \<longleftrightarrow> tr_request_id f < 2 ^ 62 \<and> rfc_addr (tr_source_address f) \<and> (tr_success f \<longleftrightarrow> tr_error_code f = None)"

lemma varint_read: "x < 2 ^ 62 \<Longrightarrow> varint_decode (varint_encode x [] @ rest) = (Inr x, rest)"
  by (rule readsD [OF reads_varint])

lemma addr_read: "rfc_addr a \<Longrightarrow> addr_get (is_v6 a) (addr_bytes a @ rest) = (Inr a, rest)"
  by (rule readsD [OF reads_addr_get])

lemma aa_rfc_roundtrip:
  assumes "aa_ok f"
  shows "\<exists>bytes. writes (aa_try_encode_rfc f) (varint_encode (aa_type (aa_address f)) [] @ bytes)
    \<and> reads (aa_decode_auto (is_v6 (aa_address f))) bytes f"
proof (intro exI conjI)
  show "writes (aa_try_encode_rfc f)
      (varint_encode (aa_type (aa_address f)) [] @ varint_encode (aa_sequence f) [] @ addr_bytes (aa_address f))"
    unfolding aa_try_encode_rfc_def using assms
    by (intro writes_rules writes_addr_put frame_types_small) (simp add: aa_ok_def)
  show "reads (aa_decode_auto (is_v6 (aa_address f))) (varint_encode (aa_sequence f) [] @ addr_bytes (aa_address f)) f"
    using assms by (simp add: reads_def aa_decode_auto_def aa_decode_rfc_def aa_ok_def varint_read addr_read aa_new_def)
qed

lemma aa_legacy_roundtrip:
  assumes "aa_sequence f < 2 ^ 62" "aa_priority f < 2 ^ 62"
  shows "\<exists>bytes. writes (aa_try_encode_legacy f) (varint_encode (aa_type (aa_address f)) [] @ bytes)
    \<and> reads aa_decode_legacy bytes f"
proof (intro exI conjI)
  show "writes (aa_try_encode_legacy f) (varint_encode (aa_type (aa_address f)) [] @ varint_encode (aa_sequence f) []
      @ varint_encode (aa_priority f) [] @ addr_bytes_legacy (aa_address f))"
    unfolding aa_try_encode_legacy_def using assms by (intro writes_rules writes_addr_put_legacy frame_types_small)
  show "reads aa_decode_legacy
      (varint_encode (aa_sequence f) [] @ varint_encode (aa_priority f) [] @ addr_bytes_legacy (aa_address f)) f"
    using assms by (simp add: reads_def aa_decode_legacy_def varint_read readsD [OF reads_addr_get_legacy])
qed

definition peer_id_bytes :: "bytes option \<Rightarrow> bytes" where
  "peer_id_bytes target = (case target of Some p \<Rightarrow> 1 # p | None \<Rightarrow> [0])"

lemma writes_peer_id: "writes (enc_seq (peer_id_put target)) (peer_id_bytes target)"
  using writes_Cons [OF codec_writes(2) writes_Cons [OF writes_put_slice writes_Nil]] writes_Cons [OF codec_writes(2) writes_Nil]
  by (cases target) (simp_all add: peer_id_put_def peer_id_bytes_def u8_encode_Nil)

lemma peer_id_read:
  assumes "case target of None \<Rightarrow> True | Some p \<Rightarrow> length p = 32"
  shows "peer_id_get_rfc (peer_id_bytes target @ rest) = (Inr target, rest)"
    and "peer_id_get_legacy (peer_id_bytes target @ rest) = (Inr target, rest)"
  using assms by (auto simp: peer_id_get_rfc_def peer_id_get_legacy_def peer_id_bytes_def u8_decode_def take_bytes_def
      split: option.splits)

lemma pm_rfc_roundtrip:
  assumes "pm_ok f"
  shows "\<exists>bytes. writes (pm_try_encode_rfc f) (varint_encode (pm_type (pm_address f)) [] @ bytes)
    \<and> reads (pm_decode_auto (is_v6 (pm_address f))) bytes f"
proof (intro exI conjI)
  let ?bs = "varint_encode (pm_round f) [] @ varint_encode (pm_paired_with_sequence_number f) []
    @ addr_bytes (pm_address f) @ peer_id_bytes (pm_target_peer_id f)"
  show "writes (pm_try_encode_rfc f) (varint_encode (pm_type (pm_address f)) [] @ ?bs)"
    unfolding pm_try_encode_rfc_def append_Cons append_Nil using assms
    by (intro writes_rules writes_addr_put writes_peer_id frame_types_small) (simp_all add: pm_ok_def)
  show "reads (pm_decode_auto (is_v6 (pm_address f))) ?bs f"
    using assms by (simp add: reads_def pm_decode_auto_def pm_decode_rfc_def pm_ok_def pm_new_def varint_read addr_read peer_id_read)
qed

lemma ra_roundtrip:
  assumes "ra_sequence f < 2 ^ 62"
  shows "writes (ra_try_encode f) (varint_encode REMOVE_ADDRESS [] @ varint_encode (ra_sequence f) [])
    \<and> reads ra_decode (varint_encode (ra_sequence f) []) f"
  using assms writes_Cons [OF writes_var [of REMOVE_ADDRESS] writes_Cons [OF writes_var writes_Nil]]
  by (simp add: ra_try_encode_def reads_def ra_decode_def varint_read)

lemma oa_roundtrip:
  assumes "oa_ok f"
  shows "\<exists>bytes. writes (oa_try_encode f) (varint_encode (oa_type (oa_address f)) [] @ bytes)
    \<and> reads (oa_decode (is_v6 (oa_address f))) bytes f"
proof (intro exI conjI)
  let ?bs = "varint_encode (oa_sequence_number f) [] @ addr_bytes (oa_address f)"
  show "writes (oa_try_encode f) (varint_encode (oa_type (oa_address f)) [] @ ?bs)"
    unfolding oa_try_encode_def using assms
    by (intro writes_rules writes_addr_put frame_types_small) (simp_all add: oa_ok_def)
  show "reads (oa_decode (is_v6 (oa_address f))) ?bs f"
    using assms readsD [OF reads_var, of "oa_sequence_number f"]
    by (simp add: reads_def oa_decode_def oa_ok_def addr_read)
qed

lemma tc_roundtrip:
  assumes "tc_ok f"
  shows "\<exists>bytes. writes (tc_try_encode f) (varint_encode (tc_type (tc_target_address f)) [] @ bytes)
    \<and> reads (tc_decode (is_v6 (tc_target_address f))) bytes f"
proof (intro exI conjI)
  let ?bs = "varint_encode (tc_request_id f) [] @ addr_bytes (tc_target_address f) @ u16_encode (tc_timeout_ms f) [] @ []"
  show "writes (tc_try_encode f) (varint_encode (tc_type (tc_target_address f)) [] @ ?bs)"
    unfolding tc_try_encode_def append_Cons append_Nil using assms
    by (intro writes_rules writes_addr_put frame_types_small) (simp_all add: tc_ok_def)
  show "reads (tc_decode (is_v6 (tc_target_address f))) ?bs f"
    using assms
    by (simp add: reads_def tc_decode_def tc_ok_def varint_read addr_read ensure_remaining_def field_lengths u16c.decode_encode)
qed

lemma tr_roundtrip:
  assumes "tr_ok f"
  shows "\<exists>bytes. writes (tr_try_encode f) (varint_encode (tr_type (tr_source_address f)) [] @ bytes)
    \<and> reads (tr_decode (is_v6 (tr_source_address f))) bytes f"
proof (intro exI conjI)
  let ?s = "if tr_success f then 1 else 0 :: u8"
  let ?e = "case tr_error_code f of Some e \<Rightarrow> tce_as_u8 e | None \<Rightarrow> 0"
  let ?bs = "varint_encode (tr_request_id f) [] @ u8_encode ?s [] @ u8_encode ?e [] @ addr_bytes (tr_source_address f)"
  show "writes (tr_try_encode f) (varint_encode (tr_type (tr_source_address f)) [] @ ?bs)"
    unfolding tr_try_encode_def append_Cons append_Nil using assms
    by (intro writes_rules writes_addr_put frame_types_small) (simp_all add: tr_ok_def)
  show "reads (tr_decode (is_v6 (tr_source_address f))) ?bs f"
    using assms
    by (cases "tr_error_code f") (simp_all add: reads_def tr_decode_def tr_ok_def varint_read addr_read
        ensure_remaining_def u8_encode_Nil u8_decode_def tce_from_as)
qed

section \<open>Legacy frames under the automatic decoder\<close>

text \<open>
  The priority of a non-loopback IPv4 address takes eight bytes, of which the first six make a
  complete RFC address.
\<close>

lemma be_bytes_numeral:
  "be_bytes (numeral k) n = of_nat (n div 256 ^ pred_numeral k) # be_bytes (pred_numeral k) n"
  by (simp add: numeral_eq_Suc)

lemma legacy_priority_bytes:
  assumes "\<not> v4_is_loopback ip"
  obtains t where "varint_encode (ucast (calculate_priority (V4 ip port))) [] = [0xC0, 0, 0, 0, t, 0xFF, 0xFF, 0xFF]"
proof (cases "v4_is_private ip")
  case True
  then have "calculate_priority (V4 ip port) = 0x64FFFFFF" using assms by (simp add: calculate_priority_def)
  moreover have "varint_encode (ucast (0x64FFFFFF :: u32)) [] = [0xC0, 0, 0, 0, 0x64, 0xFF, 0xFF, 0xFF]"
    by (simp add: varint_encode_shape varint_tag_def be_bytes_numeral)
  ultimately show ?thesis using that by simp
next
  case False
  then have "calculate_priority (V4 ip port) = 0x7EFFFFFF" using assms by (simp add: calculate_priority_def)
  moreover have "varint_encode (ucast (0x7EFFFFFF :: u32)) [] = [0xC0, 0, 0, 0, 0x7E, 0xFF, 0xFF, 0xFF]"
    by (simp add: varint_encode_shape varint_tag_def be_bytes_numeral)
  ultimately show ?thesis using that by simp
qed

lemma addr_get_priority:
  "\<exists>port. addr_get False (0xC0 # 0 # 0 # 0 # t # 0xFF # rest) = (Inr (V4 0xC0000000 port), rest)"
  by (simp add: addr_get_def ensure_remaining_def ipv4_decode_def u16_decode_def get_uint_def)

lemma legacy_add_address_auto:
  assumes "seq < 2 ^ 62" "\<not> v4_is_loopback ip"
  shows "\<exists>port'. aa_decode_auto False (varint_encode seq [] @ varint_encode (ucast (calculate_priority (V4 ip port))) []
      @ addr_bytes_legacy (V4 ip port) @ rest) =
    (Inr (aa_new seq (V4 0xC0000000 port')), 0xFF # 0xFF # addr_bytes_legacy (V4 ip port) @ rest)"
proof -
  obtain t where p: "varint_encode (ucast (calculate_priority (V4 ip port))) [] = [0xC0, 0, 0, 0, t, 0xFF, 0xFF, 0xFF]"
    using legacy_priority_bytes [OF assms(2)] .
  obtain port' where a: "addr_get False (0xC0 # 0 # 0 # 0 # t # 0xFF # 0xFF # 0xFF # addr_bytes_legacy (V4 ip port) @ rest) =
      (Inr (V4 0xC0000000 port'), 0xFF # 0xFF # addr_bytes_legacy (V4 ip port) @ rest)"
    using addr_get_priority by blast
  show ?thesis
    using a varint_read [OF assms(1)] unfolding p
    by (intro exI [of _ port']) (simp add: aa_decode_auto_def aa_decode_rfc_def del: addr_bytes_legacy.simps)
qed

lemma consumes_addr [consumes_rules]:
  "consumes (ensure_remaining n)" "consumes (addr_get v6)" "consumes addr_get_legacy"
proof -
  have e: "consumes (ensure_remaining n)" for n by (rule consumes_cut) (simp add: ensure_remaining_def)
  then show "consumes (ensure_remaining n)" .
  show "consumes (addr_get v6)" "consumes addr_get_legacy"
    unfolding addr_get_def addr_get_legacy_def by (intro consumes_rules e)+
qed

lemma consumes_peer_id [consumes_rules]: "consumes peer_id_get_rfc" "consumes peer_id_get_legacy"
proof -
  have none: "consumes (\<lambda>r. (Inr None, r))" by (rule consumes_cut) simp
  have some: "consumes (\<lambda>r. if x = 1 \<and> length r \<ge> 32 then (Inr (Some (take 32 r)), drop 32 r) else (Inr None, r))"
    for x :: u8 by (rule consumes_cut) auto
  show "consumes peer_id_get_rfc"
    unfolding peer_id_get_rfc_def [abs_def] by (intro consumes_choice none consumes_rules)
  show "consumes peer_id_get_legacy"
    unfolding peer_id_get_legacy_def [abs_def] by (intro consumes_choice none some consumes_rules)
qed

lemma consumes_nat_frames [consumes_rules]:
  "consumes (aa_decode_auto v6)" "consumes (pm_decode_auto v6)" "consumes ra_decode"
  "consumes (oa_decode v6)" "consumes (tc_decode v6)" "consumes (tr_decode v6)"
  unfolding aa_decode_auto_def [abs_def] pm_decode_auto_def [abs_def] aa_decode_rfc_def aa_decode_legacy_def
    pm_decode_rfc_def pm_decode_legacy_def ra_decode_def oa_decode_def tc_decode_def tr_decode_def Let_def
  by (intro consumes_orelse consumes_rules)+

end
