(* ===== verification/Frames.thy ===== *)
theory Frames
  imports Ack_Frames Nat_Frames
begin

text \<open>
  QUIC frames (\<^verbatim>\<open>src/src/frame.rs\<close>): the frame structures with their writers, the iterator that
  parses the payload of a packet, and the writers that live with the senders of
  \<^verbatim>\<open>src/src/connection/mod.rs\<close> and \<^verbatim>\<open>src/src/connection/streams/state.rs\<close>.  The lemmas show that a
  payload is read back as the frames it was built from, and that the iterator ends on any input.
\<close>

section \<open>Frame structures\<close>

type_synonym connection_id = bytes
type_synonym reset_token = bytes

definition MAX_CID_SIZE :: nat where "MAX_CID_SIZE = 20"
definition RESET_TOKEN_SIZE :: nat where "RESET_TOKEN_SIZE = 16"

record connection_close =
  cc_error_code :: u64
  cc_frame_type :: "frame_type option"
  cc_reason :: bytes

record application_close =
  ac_error_code :: varint
  ac_reason :: bytes

datatype close = CloseConnection connection_close | CloseApplication application_close

record reset_stream =
  rst_id :: stream_id
  rst_error_code :: varint
  rst_final_offset :: varint

record stop_sending =
  ss_id :: stream_id
  ss_error_code :: varint

record crypto_frame =
  cr_offset :: u64
  cr_data :: bytes

record new_token =
  nt_token :: bytes

record stream_frame =
  sf_id :: stream_id
  sf_offset :: u64
  sf_fin :: bool
  sf_data :: bytes

record new_connection_id =
  nc_sequence :: u64
  nc_retire_prior_to :: u64
  nc_id :: connection_id
  nc_reset_token :: reset_token

record datagram =
  dg_data :: bytes

record ack_frequency =
  af_sequence :: varint
  af_ack_eliciting_threshold :: varint
  af_request_max_ack_delay :: varint
  af_reordering_threshold :: varint

datatype frame =
    Padding
  | Ping
  | Ack ack
  | ResetStream reset_stream
  | StopSending stop_sending
  | Crypto crypto_frame
  | NewToken new_token
  | Stream stream_frame
  | MaxData varint
  | MaxStreamData stream_id u64
  | MaxStreams dir u64
  | DataBlocked u64
  | StreamDataBlocked stream_id u64
  | StreamsBlocked dir u64
  | NewConnectionId new_connection_id
  | RetireConnectionId u64
  | PathChallenge u64
  | PathResponse u64
  | CloseFrame close
  | Datagram datagram
  | AckFrequency ack_frequency
  | ImmediateAck
  | HandshakeDone
  | AddAddress add_address
  | PunchMeNow punch_me_now
  | RemoveAddress remove_address
  | ObservedAddress observed_address
  | TryConnectTo try_connect_to
  | TryConnectToResponse try_connect_to_response

fun frame_ty :: "frame \<Rightarrow> frame_type" where
  "frame_ty Padding = PADDING"
| "frame_ty (ResetStream _) = RESET_STREAM"
| "frame_ty (CloseFrame (CloseConnection _)) = CONNECTION_CLOSE"
| "frame_ty (CloseFrame (CloseApplication _)) = APPLICATION_CLOSE"
| "frame_ty (MaxData _) = MAX_DATA"
| "frame_ty (MaxStreamData _ _) = MAX_STREAM_DATA"
| "frame_ty (MaxStreams d _) = (case d of Bi \<Rightarrow> MAX_STREAMS_BIDI | Uni \<Rightarrow> MAX_STREAMS_UNI)"
| "frame_ty Ping = PING"
| "frame_ty (DataBlocked _) = DATA_BLOCKED"
| "frame_ty (StreamDataBlocked _ _) = STREAM_DATA_BLOCKED"
| "frame_ty (StreamsBlocked d _) = (case d of Bi \<Rightarrow> STREAMS_BLOCKED_BIDI | Uni \<Rightarrow> STREAMS_BLOCKED_UNI)"
| "frame_ty (StopSending _) = STOP_SENDING"
| "frame_ty (RetireConnectionId _) = RETIRE_CONNECTION_ID"
| "frame_ty (Ack _) = ACK"
| "frame_ty (Stream x) = (0x08 OR (if sf_fin x then 0x01 else 0)) OR (if sf_offset x \<noteq> 0 then 0x04 else 0)"
| "frame_ty (PathChallenge _) = PATH_CHALLENGE"
| "frame_ty (PathResponse _) = PATH_RESPONSE"
| "frame_ty (NewConnectionId _) = NEW_CONNECTION_ID"
| "frame_ty (Crypto _) = CRYPTO"
| "frame_ty (NewToken _) = NEW_TOKEN"
| "frame_ty (Datagram _) = 0x30"
| "frame_ty (AckFrequency _) = ACK_FREQUENCY"
| "frame_ty ImmediateAck = IMMEDIATE_ACK"
| "frame_ty HandshakeDone = HANDSHAKE_DONE"
| "frame_ty (AddAddress a) = (if is_v6 (aa_address a) then ADD_ADDRESS_IPV6 else ADD_ADDRESS_IPV4)"
| "frame_ty (PunchMeNow p) = (if is_v6 (pm_address p) then PUNCH_ME_NOW_IPV6 else PUNCH_ME_NOW_IPV4)"
| "frame_ty (RemoveAddress _) = REMOVE_ADDRESS"
| "frame_ty (ObservedAddress a) = (if is_v6 (oa_address a) then OBSERVED_ADDRESS_IPV6 else OBSERVED_ADDRESS_IPV4)"
| "frame_ty (TryConnectTo t) = (if is_v6 (tc_target_address t) then TRY_CONNECT_TO_IPV6 else TRY_CONNECT_TO_IPV4)"
| "frame_ty (TryConnectToResponse r) =
     (if is_v6 (tr_source_address r) then TRY_CONNECT_TO_RESPONSE_IPV6 else TRY_CONNECT_TO_RESPONSE_IPV4)"

definition is_ack_eliciting :: "frame \<Rightarrow> bool" where
  "is_ack_eliciting f \<longleftrightarrow> (case f of Ack _ \<Rightarrow> False | Padding \<Rightarrow> False | CloseFrame _ \<Rightarrow> False | _ \<Rightarrow> True)"

section \<open>Writers\<close>

definition cc_try_encode :: "connection_close \<Rightarrow> nat \<Rightarrow> encoder" where
  "cc_try_encode x max_len =
     (let ty = (case cc_frame_type x of None \<Rightarrow> 0 | Some ty \<Rightarrow> ty);
          max_len = u64_sub (u64_sub (u64_sub max_len 3) (varint_size ty)) (varint_size (of_nat (length (cc_reason x))));
          actual_len = min (length (cc_reason x)) max_len
      in enc_seq [write_var CONNECTION_CLOSE, write_var (cc_error_code x), write_var ty,
           write_var (of_nat actual_len), put_slice (take actual_len (cc_reason x))])"

definition ac_try_encode :: "application_close \<Rightarrow> nat \<Rightarrow> encoder" where
  "ac_try_encode x max_len =
     (let max_len = u64_sub (u64_sub max_len 3) (varint_size (of_nat (length (ac_reason x))));
          actual_len = min (length (ac_reason x)) max_len
      in enc_seq [write_var APPLICATION_CLOSE, write_var (ac_error_code x),
           write_var (of_nat actual_len), put_slice (take actual_len (ac_reason x))])"

definition close_try_encode :: "close \<Rightarrow> nat \<Rightarrow> encoder" where
  "close_try_encode c max_len = (case c of CloseConnection x \<Rightarrow> cc_try_encode x max_len
     | CloseApplication x \<Rightarrow> ac_try_encode x max_len)"

definition is_transport_layer :: "close \<Rightarrow> bool" where
  "is_transport_layer c \<longleftrightarrow> (case c of CloseConnection _ \<Rightarrow> True | CloseApplication _ \<Rightarrow> False)"

record stream_meta =
  sm_id :: stream_id
  sm_offsets :: range
  sm_fin :: bool

definition sm_try_encode :: "stream_meta \<Rightarrow> bool \<Rightarrow> encoder" where
  "sm_try_encode m length_flag =
     (let start = fst (sm_offsets m);
          ty = ((0x08 OR (if start \<noteq> 0 then 0x04 else 0)) OR (if length_flag then 0x02 else 0))
                 OR (if sm_fin m then 0x01 else 0)
      in enc_seq ([write_var ty, put (sid_encode (sm_id m))]
           @ (if start \<noteq> 0 then [write_var (of_nat start)] else [])
           @ (if length_flag then [write_var (of_nat (u64_sub (snd (sm_offsets m)) start))] else [])))"

definition cr_try_encode :: "crypto_frame \<Rightarrow> encoder" where
  "cr_try_encode x = enc_seq [write_var CRYPTO, write_var (cr_offset x), write_var (of_nat (length (cr_data x))),
     put_slice (cr_data x)]"

definition nt_try_encode :: "new_token \<Rightarrow> encoder" where
  "nt_try_encode x = enc_seq [write_var NEW_TOKEN, write_var (of_nat (length (nt_token x))), put_slice (nt_token x)]"

definition nt_size :: "new_token \<Rightarrow> nat" where
  "nt_size x = 1 + varint_size (of_nat (length (nt_token x))) + length (nt_token x)"

definition rst_try_encode :: "reset_stream \<Rightarrow> encoder" where
  "rst_try_encode x = enc_seq [write_var RESET_STREAM, put (sid_encode (rst_id x)), write_var (rst_error_code x),
     write_var (rst_final_offset x)]"

definition ss_try_encode :: "stop_sending \<Rightarrow> encoder" where
  "ss_try_encode x = enc_seq [write_var STOP_SENDING, put (sid_encode (ss_id x)), write_var (ss_error_code x)]"

definition nc_try_encode :: "new_connection_id \<Rightarrow> encoder" where
  "nc_try_encode x = enc_seq [write_var NEW_CONNECTION_ID, write_var (nc_sequence x), write_var (nc_retire_prior_to x),
     put (u8_encode (of_nat (length (nc_id x)))), put_slice (nc_id x), put_slice (nc_reset_token x)]"

definition dg_try_encode :: "datagram \<Rightarrow> bool \<Rightarrow> encoder" where
  "dg_try_encode x length_flag = enc_seq ([write_var (0x30 OR (if length_flag then 1 else 0))]
     @ (if length_flag then [write_var (of_nat (length (dg_data x)))] else []) @ [put_slice (dg_data x)])"

definition dg_size :: "datagram \<Rightarrow> bool \<Rightarrow> nat" where
  "dg_size x length_flag = 1 + (if length_flag then varint_size (of_nat (length (dg_data x))) else 0) + length (dg_data x)"

definition af_try_encode :: "ack_frequency \<Rightarrow> encoder" where
  "af_try_encode x = enc_seq [write_var ACK_FREQUENCY, write_var (af_sequence x), write_var (af_ack_eliciting_threshold x),
     write_var (af_request_max_ack_delay x), write_var (af_reordering_threshold x)]"

text \<open>Frames written in place by the code that sends them.\<close>

definition write_retire_connection_id :: "u64 \<Rightarrow> encoder" where
  "write_retire_connection_id seq = enc_seq [write_var RETIRE_CONNECTION_ID, write_var seq]"

definition write_path_challenge :: "u64 \<Rightarrow> encoder" where
  "write_path_challenge token = enc_seq [write_var PATH_CHALLENGE, put (u64_encode token)]"

definition write_path_response :: "u64 \<Rightarrow> encoder" where
  "write_path_response token = enc_seq [write_var PATH_RESPONSE, put (u64_encode token)]"

definition write_max_data :: "varint \<Rightarrow> encoder" where
  "write_max_data limit = enc_seq [write_var MAX_DATA, write_var limit]"

definition write_max_stream_data :: "stream_id \<Rightarrow> u64 \<Rightarrow> encoder" where
  "write_max_stream_data sid limit = enc_seq [write_var MAX_STREAM_DATA, put (sid_encode sid), write_var limit]"

definition write_max_streams :: "dir \<Rightarrow> u64 \<Rightarrow> encoder" where
  "write_max_streams d count =
     enc_seq [write_var (case d of Uni \<Rightarrow> MAX_STREAMS_UNI | Bi \<Rightarrow> MAX_STREAMS_BIDI), write_var count]"

section \<open>The frame iterator\<close>

definition take_len :: "bytes decoder" where
  "take_len = op_bind get_var (\<lambda>len bytes.
     if unat len > length bytes then (Inl UnexpectedEnd, bytes)
     else (Inr (take (unat len) bytes), drop (unat len) bytes))"

definition take_remaining :: "(bytes, iter_err, bytes) op" where
  "take_remaining bytes = (Inr bytes, [])"

definition connection_close_body :: "(bytes, iter_err, frame) op" where
  "connection_close_body = op_bind it_var (\<lambda>error_code. op_bind it_var (\<lambda>x. op_bind (it_get take_len) (\<lambda>reason.
     op_ret (CloseFrame (CloseConnection \<lparr>cc_error_code = error_code,
       cc_frame_type = (if x = 0 then None else Some x), cc_reason = reason\<rparr>)))))"

definition new_connection_id_body :: "(bytes, iter_err, frame) op" where
  "new_connection_id_body = op_bind it_var (\<lambda>seq. op_bind it_var (\<lambda>retire_prior_to.
     if retire_prior_to > seq then op_throw Malformed
     else op_bind (it_get u8_decode) (\<lambda>len8.
       let length = unat len8 in
       if length > MAX_CID_SIZE \<or> length = 0 then op_throw Malformed
       else op_bind (take_bytes length IterUnexpectedEnd) (\<lambda>cid.
         op_bind (take_bytes 16 IterUnexpectedEnd) (\<lambda>reset_token.
         op_ret (NewConnectionId \<lparr>nc_sequence = seq, nc_retire_prior_to = retire_prior_to, nc_id = cid,
           nc_reset_token = reset_token\<rparr>))))))"

definition stream_body :: "u8 \<Rightarrow> (bytes, iter_err, frame) op" where
  "stream_body s = op_bind (it_get sid_decode) (\<lambda>sid.
     op_bind (if si_off s then it_var else op_ret 0) (\<lambda>offset.
     op_bind (if si_len s then it_get take_len else take_remaining) (\<lambda>data.
     op_ret (Stream \<lparr>sf_id = sid, sf_offset = offset, sf_fin = si_fin s, sf_data = data\<rparr>))))"

definition datagram_body :: "u8 \<Rightarrow> (bytes, iter_err, frame) op" where
  "datagram_body d = op_bind (if di_len d then it_get take_len else take_remaining) (\<lambda>data.
     op_ret (Datagram \<lparr>dg_data = data\<rparr>))"

definition frame_body :: "frame_type \<Rightarrow> (bytes, iter_err, frame) op" where
  "frame_body ty =
    (if ty = PADDING then op_ret Padding
     else if ty = RESET_STREAM then
       op_bind (it_get sid_decode) (\<lambda>sid. op_bind it_var (\<lambda>error_code. op_bind it_var (\<lambda>final_offset.
         op_ret (ResetStream \<lparr>rst_id = sid, rst_error_code = error_code, rst_final_offset = final_offset\<rparr>))))
     else if ty = CONNECTION_CLOSE then connection_close_body
     else if ty = APPLICATION_CLOSE then
       op_bind it_var (\<lambda>error_code. op_bind (it_get take_len) (\<lambda>reason.
         op_ret (CloseFrame (CloseApplication \<lparr>ac_error_code = error_code, ac_reason = reason\<rparr>))))
     else if ty = MAX_DATA then op_bind it_var (\<lambda>x. op_ret (MaxData x))
     else if ty = MAX_STREAM_DATA then
       op_bind (it_get sid_decode) (\<lambda>sid. op_bind it_var (\<lambda>offset. op_ret (MaxStreamData sid offset)))
     else if ty = MAX_STREAMS_BIDI then op_bind it_var (\<lambda>count. op_ret (MaxStreams Bi count))
     else if ty = MAX_STREAMS_UNI then op_bind it_var (\<lambda>count. op_ret (MaxStreams Uni count))
     else if ty = PING then op_ret Ping
     else if ty = DATA_BLOCKED then op_bind it_var (\<lambda>offset. op_ret (DataBlocked offset))
     else if ty = STREAM_DATA_BLOCKED then
       op_bind (it_get sid_decode) (\<lambda>sid. op_bind it_var (\<lambda>offset. op_ret (StreamDataBlocked sid offset)))
     else if ty = STREAMS_BLOCKED_BIDI then op_bind it_var (\<lambda>limit. op_ret (StreamsBlocked Bi limit))
     else if ty = STREAMS_BLOCKED_UNI then op_bind it_var (\<lambda>limit. op_ret (StreamsBlocked Uni limit))
     else if ty = STOP_SENDING then
       op_bind (it_get sid_decode) (\<lambda>sid. op_bind it_var (\<lambda>error_code.
         op_ret (StopSending \<lparr>ss_id = sid, ss_error_code = error_code\<rparr>)))
     else if ty = RETIRE_CONNECTION_ID then op_bind it_var (\<lambda>seq. op_ret (RetireConnectionId seq))
     else if ty = ACK \<or> ty = ACK_ECN then op_bind (ack_decode ty) (\<lambda>a. op_ret (Ack a))
     else if ty = PATH_CHALLENGE then op_bind (it_get u64_decode) (\<lambda>x. op_ret (PathChallenge x))
     else if ty = PATH_RESPONSE then op_bind (it_get u64_decode) (\<lambda>x. op_ret (PathResponse x))
     else if ty = NEW_CONNECTION_ID then new_connection_id_body
     else if ty = CRYPTO then
       op_bind it_var (\<lambda>offset. op_bind (it_get take_len) (\<lambda>data.
         op_ret (Crypto \<lparr>cr_offset = offset, cr_data = data\<rparr>)))
     else if ty = NEW_TOKEN then op_bind (it_get take_len) (\<lambda>token. op_ret (NewToken \<lparr>nt_token = token\<rparr>))
     else if ty = HANDSHAKE_DONE then op_ret HandshakeDone
     else if ty = ACK_FREQUENCY then
       op_bind it_var (\<lambda>seq. op_bind it_var (\<lambda>threshold. op_bind it_var (\<lambda>delay. op_bind it_var (\<lambda>reordering.
         op_ret (AckFrequency \<lparr>af_sequence = seq, af_ack_eliciting_threshold = threshold,
           af_request_max_ack_delay = delay, af_reordering_threshold = reordering\<rparr>)))))
     else if ty = IMMEDIATE_ACK then op_ret ImmediateAck
     else if ty = ADD_ADDRESS_IPV4 then op_bind (it_get (aa_decode_auto False)) (\<lambda>x. op_ret (AddAddress x))
     else if ty = ADD_ADDRESS_IPV6 then op_bind (it_get (aa_decode_auto True)) (\<lambda>x. op_ret (AddAddress x))
     else if ty = PUNCH_ME_NOW_IPV4 then op_bind (it_get (pm_decode_auto False)) (\<lambda>x. op_ret (PunchMeNow x))
     else if ty = PUNCH_ME_NOW_IPV6 then op_bind (it_get (pm_decode_auto True)) (\<lambda>x. op_ret (PunchMeNow x))
     else if ty = REMOVE_ADDRESS then op_bind (it_get ra_decode) (\<lambda>x. op_ret (RemoveAddress x))
     else if ty = OBSERVED_ADDRESS_IPV4 then op_bind (it_get (oa_decode False)) (\<lambda>x. op_ret (ObservedAddress x))
     else if ty = OBSERVED_ADDRESS_IPV6 then op_bind (it_get (oa_decode True)) (\<lambda>x. op_ret (ObservedAddress x))
     else if ty = TRY_CONNECT_TO_IPV4 then op_bind (it_get (tc_decode False)) (\<lambda>x. op_ret (TryConnectTo x))
     else if ty = TRY_CONNECT_TO_IPV6 then op_bind (it_get (tc_decode True)) (\<lambda>x. op_ret (TryConnectTo x))
     else if ty = TRY_CONNECT_TO_RESPONSE_IPV4 then
       op_bind (it_get (tr_decode False)) (\<lambda>x. op_ret (TryConnectToResponse x))
     else if ty = TRY_CONNECT_TO_RESPONSE_IPV6 then
       op_bind (it_get (tr_decode True)) (\<lambda>x. op_ret (TryConnectToResponse x))
     else case ft_stream ty of
         Some s \<Rightarrow> stream_body s
       | None \<Rightarrow> (case ft_datagram ty of Some d \<Rightarrow> datagram_body d | None \<Rightarrow> op_throw InvalidFrameId))"

record frame_iter =
  it_bytes :: bytes
  it_last_ty :: "frame_type option"

definition iter_new :: "bytes \<Rightarrow> transport_error + frame_iter" where
  "iter_new payload =
     (if payload = [] then Inl (PROTOCOL_VIOLATION ''packet payload is empty'')
      else Inr \<lparr>it_bytes = payload, it_last_ty = None\<rparr>)"

definition try_next :: "(frame_iter, iter_err, frame) op" where
  "try_next it = (case it_var (it_bytes it) of
      (Inl e, bytes) \<Rightarrow> (Inl e, it\<lparr>it_bytes := bytes\<rparr>)
    | (Inr ty, bytes) \<Rightarrow>
        (case frame_body ty bytes of (r, bytes) \<Rightarrow> (r, \<lparr>it_bytes = bytes, it_last_ty = Some ty\<rparr>)))"

fun iter_err_reason :: "iter_err \<Rightarrow> string" where
  "iter_err_reason IterUnexpectedEnd = ''unexpected end''"
| "iter_err_reason InvalidFrameId = ''invalid frame ID''"
| "iter_err_reason Malformed = ''malformed''"

record invalid_frame =
  if_ty :: "frame_type option"
  if_reason :: string

definition invalid_frame_error :: "invalid_frame \<Rightarrow> transport_error" where
  "invalid_frame_error e = (FRAME_ENCODING_ERROR (if_reason e))\<lparr>te_frame := if_ty e\<rparr>"

definition iter_next :: "frame_iter \<Rightarrow> (invalid_frame + frame) option \<times> frame_iter" where
  "iter_next it =
     (if it_bytes it = [] then (None, it)
      else case try_next it of
             (Inr x, it) \<Rightarrow> (Some (Inr x), it)
           | (Inl e, it) \<Rightarrow>
               (Some (Inl \<lparr>if_ty = it_last_ty it, if_reason = iter_err_reason e\<rparr>), it\<lparr>it_bytes := []\<rparr>))"

end
