(* ===== verification/Frame_Payload.thy ===== *)
theory Frame_Payload
  imports Frames
begin

text \<open>
  Whole packet payloads: the loop over the frame iterator (\<^verbatim>\<open>for result in frame::Iter::new(payload)?\<close>
  in \<^verbatim>\<open>src/src/connection/mod.rs\<close>) ends on any input, and reads a payload back as the frames that
  were written into it.
\<close>

section \<open>The iterator ends\<close>

lemma consumes_take_len [consumes_rules]: "consumes take_len"
proof -
  have "consumes (\<lambda>bytes. if unat len > length bytes then (Inl UnexpectedEnd, bytes)
     else (Inr (take (unat len) bytes), drop (unat len) bytes))" for len :: u64
    by (rule consumes_cut) auto
  then show ?thesis unfolding take_len_def by (intro consumes_rules)
qed

lemma consumes_take_remaining [consumes_rules]: "consumes take_remaining"
  by (rule consumes_cut) (auto simp: take_remaining_def intro: exI [of _ "length _"])

lemma consumes_ack [consumes_rules]: "consumes (ack_decode ty)"
proof -
  have "consumes (\<lambda>buf. case scan_ack_blocks buf l n of Inl e \<Rightarrow> (Inl e, buf) | Inr k \<Rightarrow> (Inr (take k buf), drop k buf))"
    for l n by (rule consumes_cut) (auto split: sum.splits)
  then show ?thesis unfolding ack_decode_def ecn_decode_def by (intro consumes_rules)
qed

lemma consumes_bodies [consumes_rules]:
  "consumes connection_close_body" "consumes new_connection_id_body" "consumes (stream_body s)" "consumes (datagram_body s)"
  unfolding connection_close_body_def new_connection_id_body_def stream_body_def datagram_body_def Let_def
  by (intro consumes_rules)+

lemma consumes_frame_body: "consumes (frame_body ty)"
proof -
  have "consumes (case ft_stream ty of Some s \<Rightarrow> stream_body s
     | None \<Rightarrow> (case ft_datagram ty of Some d \<Rightarrow> datagram_body d | None \<Rightarrow> op_throw InvalidFrameId))"
    by (auto split: option.splits intro: consumes_rules)
  then show ?thesis unfolding frame_body_def by (intro consumes_rules)
qed

lemma iter_next_shorter:
  assumes "iter_next it = (Some r, it')"
  shows "length (it_bytes it') < length (it_bytes it)"
proof -
  obtain v b1 where v: "it_var (it_bytes it) = (v, b1)" by (cases "it_var (it_bytes it)")
  obtain f b2 where f: "frame_body ty b1 = (f ty, b2 ty)" for ty
    by (meson surj_pair)
  have ne: "it_bytes it \<noteq> []" using assms by (auto simp: iter_next_def)
  have "length (b2 ty) \<le> length b1" for ty
    using consumes_length [OF consumes_frame_body, of ty b1] f by simp
  moreover have "length b1 < length (it_bytes it)" if "v = Inr ty" for ty
  proof -
    from v that obtain used where "it_bytes it = used @ b1" "used \<noteq> []" by (auto elim: it_var_ok)
    then show ?thesis by simp
  qed
  ultimately have "length (b2 ty) < length (it_bytes it)" if "v = Inr ty" for ty
    using that le_less_trans by blast
  then show ?thesis
    using assms v f ne by (cases v; cases "f (projr v)") (auto simp: iter_next_def try_next_def)
qed

function iter_collect :: "frame_iter \<Rightarrow> (invalid_frame + frame) list" where
  "iter_collect it = (case iter_next it of
      (None, _) \<Rightarrow> []
    | (Some r, it') \<Rightarrow> r # iter_collect it')"
  by pat_completeness auto
termination
  by (relation "measure (length \<circ> it_bytes)") (auto dest: iter_next_shorter [OF sym])

declare iter_collect.simps [simp del]

text \<open>What a packet's payload is read as.\<close>

definition payload_frames :: "bytes \<Rightarrow> transport_error + (invalid_frame + frame) list" where
  "payload_frames payload = (case iter_new payload of Inl e \<Rightarrow> Inl e | Inr it \<Rightarrow> Inr (iter_collect it))"

section \<open>Frames read back\<close>

text \<open>
  An encoder and the frame it is read back as: the encoder writes the type, then a body that the
  iterator's code for this type reads as the frame, whatever follows.
\<close>

definition coded :: "encoder \<Rightarrow> frame \<Rightarrow> bool" where
  "coded e f \<longleftrightarrow> (\<exists>ty bytes. ty < 2 ^ 62 \<and> writes e (varint_encode ty [] @ bytes) \<and> reads (frame_body ty) bytes f)"

lemma codedI:
  "ty < 2 ^ 62 \<Longrightarrow> writes (enc_seq es) bytes \<Longrightarrow> (\<And>rest. frame_body ty (bytes @ rest) = (Inr f, rest)) \<Longrightarrow>
   coded (enc_seq (write_var ty # es)) f"
  unfolding coded_def reads_def by (blast intro: writes_Cons writes_var)

lemma it_sid: "x < 2 ^ 62 \<Longrightarrow> it_get sid_decode (sid_encode x [] @ rest) = (Inr x, rest)"
  by (rule readsD [OF reads_map_err [OF reads_sid]])

lemma it_u64: "it_get u64_decode (u64_encode x [] @ rest) = (Inr x, rest)"
  by (rule readsD [OF reads_map_err]) (rule codec_reads)

lemma it_take_len:
  assumes "length d < 2 ^ 62"
  shows "it_get take_len (varint_encode (of_nat (length d)) [] @ d @ rest) = (Inr d, rest)"
proof -
  have "get_var (varint_encode (of_nat (length d)) [] @ d @ rest) = (Inr (of_nat (length d)), d @ rest)"
    by (rule readsD [OF reads_var]) (rule of_nat_varint [OF assms])
  then show ?thesis using of_nat_small [OF assms] by (simp add: map_err_def take_len_def)
qed

lemma it_take_bytes: "length d = n \<Longrightarrow> take_bytes n e (d @ rest) = (Inr d, rest)"
  by (rule readsD [OF reads_take_bytes])

lemmas frame_reads = it_varint it_sid it_u64 it_take_len it_take_bytes

lemma writes_sid: "writes (put (sid_encode x)) (sid_encode x [])"
  by (rule codec_writes)

lemma coded_basic:
  "coded (enc_seq [write_var PADDING]) Padding" "coded (enc_seq [write_var PING]) Ping"
  "coded (enc_seq [write_var HANDSHAKE_DONE]) HandshakeDone" "coded (enc_seq [write_var IMMEDIATE_ACK]) ImmediateAck"
  by (rule codedI [OF _ writes_Nil]; simp add: frame_body_def)+

lemma coded_reset:
  assumes "rst_id x < 2 ^ 62" "rst_error_code x < 2 ^ 62" "rst_final_offset x < 2 ^ 62"
  shows "coded (rst_try_encode x) (ResetStream x)"
  unfolding rst_try_encode_def
  by (rule codedI [OF _ writes_Cons [OF writes_sid writes_Cons [OF writes_var writes_Cons [OF writes_var writes_Nil]]]])
    (use assms in \<open>simp_all add: frame_body_def frame_reads\<close>)

lemma coded_stop:
  assumes "ss_id x < 2 ^ 62" "ss_error_code x < 2 ^ 62"
  shows "coded (ss_try_encode x) (StopSending x)"
  unfolding ss_try_encode_def
  by (rule codedI [OF _ writes_Cons [OF writes_sid writes_Cons [OF writes_var writes_Nil]]])
    (use assms in \<open>simp_all add: frame_body_def frame_reads\<close>)

lemma coded_crypto:
  assumes "cr_offset x < 2 ^ 62" "length (cr_data x) < 2 ^ 62"
  shows "coded (cr_try_encode x) (Crypto x)"
  unfolding cr_try_encode_def
  by (rule codedI [OF _ writes_Cons [OF writes_var writes_Cons [OF writes_var writes_Cons [OF writes_put_slice writes_Nil]]]])
    (use assms of_nat_varint [of "length (cr_data x)"] in \<open>simp_all add: frame_body_def frame_reads\<close>)

lemma coded_new_token:
  assumes "length (nt_token x) < 2 ^ 62"
  shows "coded (nt_try_encode x) (NewToken x)"
  unfolding nt_try_encode_def
  by (rule codedI [OF _ writes_Cons [OF writes_var writes_Cons [OF writes_put_slice writes_Nil]]])
    (use assms of_nat_varint [of "length (nt_token x)"] in \<open>simp_all add: frame_body_def frame_reads\<close>)

lemma coded_flow:
  assumes "x < 2 ^ 62"
  shows "coded (write_max_data x) (MaxData x)" "coded (write_max_streams d x) (MaxStreams d x)"
    "coded (write_retire_connection_id x) (RetireConnectionId x)"
    "sid < 2 ^ 62 \<Longrightarrow> coded (write_max_stream_data sid x) (MaxStreamData sid x)"
  unfolding write_max_data_def write_max_streams_def write_retire_connection_id_def write_max_stream_data_def
  by (rule codedI [OF _ writes_Cons [OF writes_var writes_Nil]]; use assms in \<open>cases d; simp add: frame_body_def frame_reads\<close>)+
    (rule codedI [OF _ writes_Cons [OF writes_sid writes_Cons [OF writes_var writes_Nil]]];
      use assms in \<open>simp add: frame_body_def frame_reads\<close>)

lemma coded_path:
  "coded (write_path_challenge token) (PathChallenge token)" "coded (write_path_response token) (PathResponse token)"
  unfolding write_path_challenge_def write_path_response_def
  by (rule codedI [OF _ writes_Cons [OF codec_writes(5) writes_Nil]]; simp add: frame_body_def frame_reads)+

lemma coded_ack_frequency:
  assumes "af_sequence x < 2 ^ 62" "af_ack_eliciting_threshold x < 2 ^ 62"
    "af_request_max_ack_delay x < 2 ^ 62" "af_reordering_threshold x < 2 ^ 62"
  shows "coded (af_try_encode x) (AckFrequency x)"
  unfolding af_try_encode_def
  by (rule codedI [OF _ writes_Cons [OF writes_var writes_Cons [OF writes_var writes_Cons [OF writes_var
      writes_Cons [OF writes_var writes_Nil]]]]])
    (use assms in \<open>simp_all add: frame_body_def frame_reads\<close>)

definition nc_ok :: "new_connection_id \<Rightarrow> bool" where
  "nc_ok x \<longleftrightarrow> nc_sequence x < 2 ^ 62 \<and> nc_retire_prior_to x \<le> nc_sequence x
     \<and> nc_id x \<noteq> [] \<and> length (nc_id x) \<le> MAX_CID_SIZE \<and> length (nc_reset_token x) = RESET_TOKEN_SIZE"

lemma coded_new_connection_id:
  assumes "nc_ok x"
  shows "coded (nc_try_encode x) (NewConnectionId x)"
proof -
  have lt: "nc_sequence x < 2 ^ 62" "nc_retire_prior_to x < 2 ^ 62"
    using assms by (auto simp: nc_ok_def)
  have len: "unat (of_nat (length (nc_id x)) :: u8) = length (nc_id x)"
    using assms by (simp add: nc_ok_def MAX_CID_SIZE_def unat_of_nat take_bit_nat_eq_self)
  have u8: "it_get u8_decode (u8_encode b [] @ rest) = (Inr b, rest)" for b rest
    by (simp add: map_err_def u8_encode_def u8_decode_def)
  show ?thesis unfolding nc_try_encode_def
    by (rule codedI [OF _ writes_Cons [OF writes_var writes_Cons [OF writes_var writes_Cons [OF codec_writes(2)
        writes_Cons [OF writes_put_slice writes_Cons [OF writes_put_slice writes_Nil]]]]]])
      (use assms lt len in \<open>auto simp: frame_body_def new_connection_id_body_def frame_reads u8 nc_ok_def RESET_TOKEN_SIZE_def\<close>)
qed

lemma of_nat_min_varint: "length d < 2 ^ 62 \<Longrightarrow> (of_nat (min (length d) n) :: u64) < 2 ^ 62"
  by (rule of_nat_varint) simp

lemma it_take_len_min:
  assumes "length d < 2 ^ 62"
  shows "it_get take_len (varint_encode (of_nat (min (length d) n)) [] @ take (min (length d) n) d @ rest) = (Inr (take n d), rest)"
proof -
  have "take (min (length d) n) d = take n d" by (simp add: min_def)
  with it_take_len [of "take n d" rest] assms show ?thesis by simp
qed

lemma coded_close:
  assumes "case c of CloseConnection x \<Rightarrow> cc_error_code x < 2 ^ 62 \<and> length (cc_reason x) < 2 ^ 62
       \<and> (case cc_frame_type x of None \<Rightarrow> True | Some ty \<Rightarrow> ty \<noteq> 0 \<and> ty < 2 ^ 62)
     | CloseApplication x \<Rightarrow> ac_error_code x < 2 ^ 62 \<and> length (ac_reason x) < 2 ^ 62"
  shows "\<exists>n. coded (close_try_encode c max_len)
    (CloseFrame (case c of CloseConnection x \<Rightarrow> CloseConnection (x\<lparr>cc_reason := take n (cc_reason x)\<rparr>)
       | CloseApplication x \<Rightarrow> CloseApplication (x\<lparr>ac_reason := take n (ac_reason x)\<rparr>)))"
proof (cases c)
  case (CloseConnection x)
  define ty where "ty = (case cc_frame_type x of None \<Rightarrow> 0 | Some ty \<Rightarrow> ty)"
  define n where "n = u64_sub (u64_sub (u64_sub max_len 3) (varint_size ty)) (varint_size (of_nat (length (cc_reason x))))"
  have lt: "cc_error_code x < 2 ^ 62" "length (cc_reason x) < 2 ^ 62" "ty < 2 ^ 62"
    and ty: "cc_frame_type x = (if ty = 0 then None else Some ty)"
    using assms by (auto simp: CloseConnection ty_def split: option.splits)
  have "coded (cc_try_encode x max_len) (CloseFrame (CloseConnection (x\<lparr>cc_reason := take n (cc_reason x)\<rparr>)))"
    unfolding cc_try_encode_def ty_def [symmetric] Let_def n_def [symmetric]
    by (rule codedI [OF _ writes_Cons [OF writes_var writes_Cons [OF writes_var writes_Cons [OF writes_var
        writes_Cons [OF writes_put_slice writes_Nil]]]]])
      (use lt ty of_nat_min_varint [OF lt(2), of n] in
        \<open>simp_all add: frame_body_def connection_close_body_def frame_reads it_take_len_min\<close>)
  then show ?thesis by (auto simp: CloseConnection close_try_encode_def)
next
  case (CloseApplication x)
  define n where "n = u64_sub (u64_sub max_len 3) (varint_size (of_nat (length (ac_reason x))))"
  have lt: "ac_error_code x < 2 ^ 62" "length (ac_reason x) < 2 ^ 62" using assms by (simp_all add: CloseApplication)
  have "coded (ac_try_encode x max_len) (CloseFrame (CloseApplication (x\<lparr>ac_reason := take n (ac_reason x)\<rparr>)))"
    unfolding ac_try_encode_def Let_def n_def [symmetric]
    by (rule codedI [OF _ writes_Cons [OF writes_var writes_Cons [OF writes_var writes_Cons [OF writes_put_slice writes_Nil]]]])
      (use lt of_nat_min_varint [OF lt(2), of n] in \<open>simp_all add: frame_body_def frame_reads it_take_len_min\<close>)
  then show ?thesis by (auto simp: CloseApplication close_try_encode_def)
qed

lemma coded_datagram:
  assumes "length (dg_data x) < 2 ^ 62"
  shows "coded (dg_try_encode x True) (Datagram x)"
proof -
  have ty: "0x30 OR (if True then 1 else 0) = (0x31 :: u64)" by simp
  show ?thesis unfolding dg_try_encode_def ty if_True append_Cons append_Nil
    by (rule codedI [OF _ writes_Cons [OF writes_var writes_Cons [OF writes_put_slice writes_Nil]]])
      (use assms of_nat_varint [of "length (dg_data x)"] in
        \<open>simp_all add: frame_body_def ft_stream_def ft_datagram_def STREAM_TYS_def DATAGRAM_TYS_def datagram_body_def
           di_len_def frame_reads\<close>)
qed

text \<open>A STREAM frame: the metadata, then the data it announces.\<close>

definition write_stream :: "stream_frame \<Rightarrow> bool \<Rightarrow> encoder" where
  "write_stream x length_flag = enc_seq [sm_try_encode \<lparr>sm_id = sf_id x,
     sm_offsets = (unat (sf_offset x), unat (sf_offset x) + length (sf_data x)), sm_fin = sf_fin x\<rparr> length_flag,
     put_slice (sf_data x)]"

definition stream_ty :: "stream_frame \<Rightarrow> bool \<Rightarrow> frame_type" where
  "stream_ty x length_flag = ((0x08 OR (if sf_offset x \<noteq> 0 then 0x04 else 0)) OR (if length_flag then 0x02 else 0))
     OR (if sf_fin x then 0x01 else 0)"

definition stream_bytes :: "stream_frame \<Rightarrow> bool \<Rightarrow> bytes" where
  "stream_bytes x length_flag = sid_encode (sf_id x) [] @ (if sf_offset x \<noteq> 0 then varint_encode (sf_offset x) [] else [])
     @ (if length_flag then varint_encode (of_nat (length (sf_data x))) [] else []) @ sf_data x"

definition stream_ok :: "stream_frame \<Rightarrow> bool" where
  "stream_ok x \<longleftrightarrow> sf_id x < 2 ^ 62 \<and> sf_offset x < 2 ^ 62 \<and> length (sf_data x) < 2 ^ 62"

lemma writes_opt: "(b \<Longrightarrow> writes e bs) \<Longrightarrow> writes (enc_seq (if b then [e] else [])) (if b then bs else [])"
  using writes_Cons [OF _ writes_Nil, of e bs] writes_Nil by (cases b) simp_all

lemma writes_stream:
  assumes "stream_ok x"
  shows "writes (write_stream x l) (varint_encode (stream_ty x l) [] @ stream_bytes x l)"
proof -
  have lt: "sf_offset x < 2 ^ 62" "(of_nat (length (sf_data x)) :: u64) < 2 ^ 62" "stream_ty x l < 2 ^ 62"
    using assms of_nat_varint by (auto simp: stream_ok_def stream_ty_def)
  have off: "(unat (sf_offset x) \<noteq> 0) = (sf_offset x \<noteq> 0)" "of_nat (unat (sf_offset x)) = sf_offset x"
    by (simp_all add: unat_eq_zero)
  have sub: "u64_sub (unat (sf_offset x) + length (sf_data x)) (unat (sf_offset x)) = length (sf_data x)"
    by (simp add: u64_sub_def)
  have "writes (sm_try_encode \<lparr>sm_id = sf_id x,
      sm_offsets = (unat (sf_offset x), unat (sf_offset x) + length (sf_data x)), sm_fin = sf_fin x\<rparr> l)
    (varint_encode (stream_ty x l) [] @ sid_encode (sf_id x) []
      @ (if sf_offset x \<noteq> 0 then varint_encode (sf_offset x) [] else [])
      @ (if l then varint_encode (of_nat (length (sf_data x))) [] else []))"
    unfolding sm_try_encode_def Let_def stream_meta.select_convs fst_conv snd_conv off sub stream_ty_def [symmetric]
      append_Cons append_Nil
    by (intro writes_rules writes_opt writes_append lt)
  from writes_Cons [OF this writes_Cons [OF writes_put_slice writes_Nil]] show ?thesis
    by (simp add: write_stream_def stream_bytes_def)
qed

lemma stream_ty_body:
  shows "frame_body (stream_ty x l) = stream_body (ucast (stream_ty x l))"
    and "si_off (ucast (stream_ty x l)) = (sf_offset x \<noteq> 0)" "si_len (ucast (stream_ty x l)) = l"
      "si_fin (ucast (stream_ty x l)) = sf_fin x"
  by (cases "sf_offset x = 0"; cases l; cases "sf_fin x";
      simp add: stream_ty_def frame_body_def ft_stream_def STREAM_TYS_def si_off_def si_len_def si_fin_def)+

lemma coded_stream:
  assumes "stream_ok x"
  shows "coded (write_stream x True) (Stream x)"
proof -
  have "stream_ty x True < 2 ^ 62" by (auto simp: stream_ty_def)
  moreover have "reads (frame_body (stream_ty x True)) (stream_bytes x True) (Stream x)"
    using assms unfolding stream_ty_body reads_def stream_body_def stream_bytes_def
    by (simp add: frame_reads stream_ok_def)
  ultimately show ?thesis using writes_stream [OF assms] unfolding coded_def by blast
qed

text \<open>The last frame of a packet can do without its length.\<close>

lemma final_stream:
  assumes "stream_ok x"
  shows "frame_body (stream_ty x False) (stream_bytes x False) = (Inr (Stream x), [])"
  using assms unfolding stream_ty_body stream_body_def stream_bytes_def
  by (auto simp: frame_reads stream_ok_def take_remaining_def)

text \<open>NAT traversal frames in the RFC form.\<close>

lemma coded_bodyI:
  assumes "\<exists>bytes. writes e (varint_encode ty [] @ bytes) \<and> reads d bytes x" "ty < 2 ^ 62"
    and "frame_body ty = op_bind (it_get d) (\<lambda>x. op_ret (K x))"
  shows "coded e (K x)"
proof -
  from assms(1) obtain bytes where w: "writes e (varint_encode ty [] @ bytes)" and r: "reads d bytes x" by blast
  have "reads (frame_body ty) bytes (K x)"
    using readsD [OF r] by (simp add: assms(3) reads_def map_err_def op_bind_def)
  with w assms(2) show ?thesis unfolding coded_def by blast
qed

lemma coded_nat:
  "aa_ok a \<Longrightarrow> coded (aa_try_encode_rfc a) (AddAddress a)"
  "pm_ok p \<Longrightarrow> coded (pm_try_encode_rfc p) (PunchMeNow p)"
  "ra_sequence r < 2 ^ 62 \<Longrightarrow> coded (ra_try_encode r) (RemoveAddress r)"
  "oa_ok oa \<Longrightarrow> coded (oa_try_encode oa) (ObservedAddress oa)"
  "tc_ok tc \<Longrightarrow> coded (tc_try_encode tc) (TryConnectTo tc)"
  "tr_ok tr \<Longrightarrow> coded (tr_try_encode tr) (TryConnectToResponse tr)"
proof -
  show "aa_ok a \<Longrightarrow> coded (aa_try_encode_rfc a) (AddAddress a)"
    by (erule coded_bodyI [OF aa_rfc_roundtrip frame_types_small(1)]) (simp add: aa_type_def frame_body_def)
  show "pm_ok p \<Longrightarrow> coded (pm_try_encode_rfc p) (PunchMeNow p)"
    by (erule coded_bodyI [OF pm_rfc_roundtrip frame_types_small(2)]) (simp add: pm_type_def frame_body_def)
  show "ra_sequence r < 2 ^ 62 \<Longrightarrow> coded (ra_try_encode r) (RemoveAddress r)"
    by (drule ra_roundtrip, rule coded_bodyI [where ty = REMOVE_ADDRESS and d = ra_decode])
      (auto simp: frame_body_def)
  show "oa_ok oa \<Longrightarrow> coded (oa_try_encode oa) (ObservedAddress oa)"
    by (erule coded_bodyI [OF oa_roundtrip frame_types_small(3)]) (simp add: oa_type_def frame_body_def)
  show "tc_ok tc \<Longrightarrow> coded (tc_try_encode tc) (TryConnectTo tc)"
    by (erule coded_bodyI [OF tc_roundtrip frame_types_small(4)]) (simp add: tc_type_def frame_body_def)
  show "tr_ok tr \<Longrightarrow> coded (tr_try_encode tr) (TryConnectToResponse tr)"
    by (erule coded_bodyI [OF tr_roundtrip frame_types_small(5)]) (simp add: tr_type_def frame_body_def)
qed

section \<open>Payloads\<close>

text \<open>What a sender puts into a packet: an ACK from its ranges, a close with the room left for it, and
  every other frame that the source has a writer for.\<close>

datatype outgoing = SendAck u64 array_range_set "ecn_counts option" | SendClose close nat | Send frame

fun frame_writer :: "frame \<Rightarrow> encoder" where
  "frame_writer Padding = enc_seq [write_var PADDING]"
| "frame_writer Ping = enc_seq [write_var PING]"
| "frame_writer HandshakeDone = enc_seq [write_var HANDSHAKE_DONE]"
| "frame_writer ImmediateAck = enc_seq [write_var IMMEDIATE_ACK]"
| "frame_writer (ResetStream x) = rst_try_encode x"
| "frame_writer (StopSending x) = ss_try_encode x"
| "frame_writer (Crypto x) = cr_try_encode x"
| "frame_writer (NewToken x) = nt_try_encode x"
| "frame_writer (Stream x) = write_stream x True"
| "frame_writer (MaxData x) = write_max_data x"
| "frame_writer (MaxStreamData sid x) = write_max_stream_data sid x"
| "frame_writer (MaxStreams d x) = write_max_streams d x"
| "frame_writer (NewConnectionId x) = nc_try_encode x"
| "frame_writer (RetireConnectionId x) = write_retire_connection_id x"
| "frame_writer (PathChallenge x) = write_path_challenge x"
| "frame_writer (PathResponse x) = write_path_response x"
| "frame_writer (Datagram x) = dg_try_encode x True"
| "frame_writer (AckFrequency x) = af_try_encode x"
| "frame_writer (AddAddress x) = aa_try_encode_rfc x"
| "frame_writer (PunchMeNow x) = pm_try_encode_rfc x"
| "frame_writer (RemoveAddress x) = ra_try_encode x"
| "frame_writer (ObservedAddress x) = oa_try_encode x"
| "frame_writer (TryConnectTo x) = tc_try_encode x"
| "frame_writer (TryConnectToResponse x) = tr_try_encode x"
| "frame_writer _ = op_throw VarIntBoundsExceeded"

text \<open>The frames with a writer whose fields are in the range of the wire format.\<close>

fun frame_ok :: "frame \<Rightarrow> bool" where
  "frame_ok (ResetStream x) \<longleftrightarrow> rst_id x < 2 ^ 62 \<and> rst_error_code x < 2 ^ 62 \<and> rst_final_offset x < 2 ^ 62"
| "frame_ok (StopSending x) \<longleftrightarrow> ss_id x < 2 ^ 62 \<and> ss_error_code x < 2 ^ 62"
| "frame_ok (Crypto x) \<longleftrightarrow> cr_offset x < 2 ^ 62 \<and> length (cr_data x) < 2 ^ 62"
| "frame_ok (NewToken x) \<longleftrightarrow> length (nt_token x) < 2 ^ 62"
| "frame_ok (Stream x) \<longleftrightarrow> stream_ok x"
| "frame_ok (MaxData x) \<longleftrightarrow> x < 2 ^ 62"
| "frame_ok (MaxStreamData sid x) \<longleftrightarrow> sid < 2 ^ 62 \<and> x < 2 ^ 62"
| "frame_ok (MaxStreams d x) \<longleftrightarrow> x < 2 ^ 62"
| "frame_ok (NewConnectionId x) \<longleftrightarrow> nc_ok x"
| "frame_ok (RetireConnectionId x) \<longleftrightarrow> x < 2 ^ 62"
| "frame_ok (Datagram x) \<longleftrightarrow> length (dg_data x) < 2 ^ 62"
| "frame_ok (AckFrequency x) \<longleftrightarrow> af_sequence x < 2 ^ 62 \<and> af_ack_eliciting_threshold x < 2 ^ 62
     \<and> af_request_max_ack_delay x < 2 ^ 62 \<and> af_reordering_threshold x < 2 ^ 62"
| "frame_ok (AddAddress x) \<longleftrightarrow> aa_ok x"
| "frame_ok (PunchMeNow x) \<longleftrightarrow> pm_ok x"
| "frame_ok (RemoveAddress x) \<longleftrightarrow> ra_sequence x < 2 ^ 62"
| "frame_ok (ObservedAddress x) \<longleftrightarrow> oa_ok x"
| "frame_ok (TryConnectTo x) \<longleftrightarrow> tc_ok x"
| "frame_ok (TryConnectToResponse x) \<longleftrightarrow> tr_ok x"
| "frame_ok (Ack _) \<longleftrightarrow> False"
| "frame_ok (CloseFrame _) \<longleftrightarrow> False"
| "frame_ok (DataBlocked _) \<longleftrightarrow> False"
| "frame_ok (StreamDataBlocked _ _) \<longleftrightarrow> False"
| "frame_ok (StreamsBlocked _ _) \<longleftrightarrow> False"
| "frame_ok _ \<longleftrightarrow> True"

lemma coded_frame: "frame_ok f \<Longrightarrow> coded (frame_writer f) f"
  by (cases f) (simp_all del: enc_seq.simps add: coded_basic coded_reset coded_stop coded_crypto coded_new_token coded_stream coded_flow
      coded_new_connection_id coded_path coded_datagram coded_ack_frequency coded_nat)

fun out_writer :: "outgoing \<Rightarrow> encoder" where
  "out_writer (SendAck delay ranges ecn) = ack_try_encode delay ranges ecn"
| "out_writer (SendClose c max_len) = close_try_encode c max_len"
| "out_writer (Send f) = frame_writer f"

fun out_ok :: "outgoing \<Rightarrow> bool" where
  "out_ok (SendAck delay ranges ecn) \<longleftrightarrow>
     ranges_ok ranges \<and> ranges \<noteq> [] \<and> snd (last ranges) \<le> 2 ^ 62 \<and> delay < 2 ^ 62 \<and> ecn_ok ecn"
| "out_ok (SendClose c _) \<longleftrightarrow> (case c of
      CloseConnection x \<Rightarrow> cc_error_code x < 2 ^ 62 \<and> length (cc_reason x) < 2 ^ 62
        \<and> (case cc_frame_type x of None \<Rightarrow> True | Some ty \<Rightarrow> ty \<noteq> 0 \<and> ty < 2 ^ 62)
    | CloseApplication x \<Rightarrow> ac_error_code x < 2 ^ 62 \<and> length (ac_reason x) < 2 ^ 62)"
| "out_ok (Send f) \<longleftrightarrow> frame_ok f"

text \<open>What the receiver may get for it.\<close>

fun received :: "outgoing \<Rightarrow> frame \<Rightarrow> bool" where
  "received (SendAck delay ranges ecn) g \<longleftrightarrow> (\<exists>a. g = Ack a \<and> ack_delay a = delay \<and> ack_ecn a = ecn
     \<and> ack_iter (ack_largest a) (ack_additional a) = map ack_range (rev ranges))"
| "received (SendClose c _) g \<longleftrightarrow> (\<exists>n. g = CloseFrame (case c of
      CloseConnection x \<Rightarrow> CloseConnection (x\<lparr>cc_reason := take n (cc_reason x)\<rparr>)
    | CloseApplication x \<Rightarrow> CloseApplication (x\<lparr>ac_reason := take n (ac_reason x)\<rparr>)))"
| "received (Send f) g \<longleftrightarrow> g = f"

lemma coded_ack:
  assumes "out_ok (SendAck delay ranges ecn)"
  shows "\<exists>g. coded (ack_try_encode delay ranges ecn) g \<and> received (SendAck delay ranges ecn) g"
proof -
  from assms have "\<exists>bytes add. writes (ack_try_encode delay ranges ecn) (varint_encode (ack_type ecn) [] @ bytes)
    \<and> reads (ack_decode (ack_type ecn)) bytes
        \<lparr>ack_largest = of_nat (snd (last ranges) - 1), ack_delay = delay, ack_additional = add, ack_ecn = ecn\<rparr>
    \<and> ack_iter (of_nat (snd (last ranges) - 1)) add = map ack_range (rev ranges)"
    by (intro ack_encoding) simp_all
  then obtain bytes a where w: "writes (ack_try_encode delay ranges ecn) (varint_encode (ack_type ecn) [] @ bytes)"
    and r: "reads (ack_decode (ack_type ecn)) bytes a" and a: "received (SendAck delay ranges ecn) (Ack a)"
    by fastforce
  have "reads (frame_body (ack_type ecn)) bytes (Ack a)"
    using readsD [OF r] by (auto simp: reads_def frame_body_def ack_type_def)
  moreover have "ack_type ecn < 2 ^ 62" by (simp add: ack_type_def)
  ultimately show ?thesis using w a unfolding coded_def by blast
qed

lemma coded_out: "out_ok x \<Longrightarrow> \<exists>g. coded (out_writer x) g \<and> received x g"
proof (cases x)
  case (SendAck delay ranges ecn)
  then show "out_ok x \<Longrightarrow> ?thesis" using coded_ack by simp
next
  case (SendClose c n)
  then show "out_ok x \<Longrightarrow> ?thesis" using coded_close [of c n] by auto
next
  case (Send f)
  then show "out_ok x \<Longrightarrow> ?thesis" using coded_frame by auto
qed

lemma iter_collect_body:
  assumes "ty < 2 ^ 62" "frame_body ty bytes = (Inr f, rest)"
  shows "iter_collect \<lparr>it_bytes = varint_encode ty [] @ bytes, it_last_ty = l\<rparr> =
    Inr f # iter_collect \<lparr>it_bytes = rest, it_last_ty = Some ty\<rparr>"
  using assms varint_nonempty [OF assms(1)]
  by (subst iter_collect.simps) (simp add: iter_next_def try_next_def it_varint)

lemma iter_collect_coded:
  assumes "coded e f"
  shows "\<exists>bytes. bytes \<noteq> [] \<and> writes e bytes \<and> (\<forall>rest l. \<exists>l'.
    iter_collect \<lparr>it_bytes = bytes @ rest, it_last_ty = l\<rparr> = Inr f # iter_collect \<lparr>it_bytes = rest, it_last_ty = l'\<rparr>)"
proof -
  from assms obtain ty bytes where "ty < 2 ^ 62" "writes e (varint_encode ty [] @ bytes)" "reads (frame_body ty) bytes f"
    by (auto simp: coded_def)
  with iter_collect_body [of ty "bytes @ _" f] show ?thesis
    by (intro exI [of _ "varint_encode ty [] @ bytes"]) (auto simp: varint_nonempty reads_def)
qed

lemma iter_collect_payload:
  assumes "\<forall>x \<in> set os. out_ok x"
  shows "\<exists>bytes fs. (os \<noteq> [] \<longrightarrow> bytes \<noteq> []) \<and> writes (enc_seq (map out_writer os)) bytes \<and> list_all2 received os fs
    \<and> (\<forall>rest l. \<exists>l'. iter_collect \<lparr>it_bytes = bytes @ rest, it_last_ty = l\<rparr> =
         map Inr fs @ iter_collect \<lparr>it_bytes = rest, it_last_ty = l'\<rparr>)"
  using assms
proof (induction os)
  case Nil
  show ?case by (intro exI [of _ "[]"]) (auto simp: writes_def)
next
  case (Cons x os)
  then obtain bytes fs where IH: "writes (enc_seq (map out_writer os)) bytes" "list_all2 received os fs"
    "\<And>rest l. \<exists>l'. iter_collect \<lparr>it_bytes = bytes @ rest, it_last_ty = l\<rparr> =
       map Inr fs @ iter_collect \<lparr>it_bytes = rest, it_last_ty = l'\<rparr>" by auto
  obtain g where g: "coded (out_writer x) g" "received x g" using coded_out Cons.prems by auto
  from iter_collect_coded [OF g(1)] obtain bs where bs: "bs \<noteq> []" "writes (out_writer x) bs"
    "\<And>rest l. \<exists>l'. iter_collect \<lparr>it_bytes = bs @ rest, it_last_ty = l\<rparr> = Inr g # iter_collect \<lparr>it_bytes = rest, it_last_ty = l'\<rparr>"
    by blast
  have "writes (enc_seq (map out_writer (x # os))) (bs @ bytes)"
    using writes_Cons [OF bs(2) IH(1)] by simp
  moreover have "\<exists>l'. iter_collect \<lparr>it_bytes = (bs @ bytes) @ rest, it_last_ty = l\<rparr> =
      map Inr (g # fs) @ iter_collect \<lparr>it_bytes = rest, it_last_ty = l'\<rparr>" for rest l
    using bs(3) [of "bytes @ rest" l] IH(3) [of rest] by fastforce
  ultimately show ?case using IH(2) g(2) bs(1)
    by (intro exI [of _ "bs @ bytes"] exI [of _ "g # fs"]) simp
qed

text \<open>No frame type has more than 24 bits, so bytes that start with \<open>0xFF\<close> are no frame.\<close>

lemma frame_body_unknown:
  assumes "0xFFFFFF < ty"
  shows "frame_body ty = op_throw InvalidFrameId"
proof -
  have ne: "ty \<noteq> c" if "c \<le> 0xFFFFFF" for c using assms that by auto
  have le: "\<not> ty \<le> c" if "c \<le> 0xFFFFFF" for c using assms that by auto
  show ?thesis by (simp add: frame_body_def ne ft_stream_def ft_datagram_def STREAM_TYS_def DATAGRAM_TYS_def le)
qed

lemma iter_collect_garbage:
  assumes "7 \<le> length r"
  shows "\<exists>ty. iter_collect \<lparr>it_bytes = 0xFF # r, it_last_ty = l\<rparr> = [Inl \<lparr>if_ty = Some ty, if_reason = ''invalid frame ID''\<rparr>]"
proof -
  define ty where "ty = (of_nat (63 * 256 ^ 7 + be_acc 0 (take 7 r)) :: u64)"
  have v: "varint_decode (0xFF # r) = (Inr ty, drop 7 r)"
    using varint_decode_byte [of "0xFF" 3 63 r] assms by (simp add: ty_def)
  have "be_acc 0 (take 7 r) < 256 ^ 7" using be_acc_less [of "take 7 r"] assms by simp
  then have "unat ty = 63 * 256 ^ 7 + be_acc 0 (take 7 r)"
    unfolding ty_def by (subst of_nat_small) simp_all
  then have "0xFFFFFF < ty" by (simp add: word_less_nat_alt)
  then show ?thesis using v
    by (subst iter_collect.simps, subst iter_collect.simps)
      (simp add: iter_next_def try_next_def map_err_def get_var_def frame_body_unknown)
qed

text \<open>
  The room that \<^verbatim>\<open>ApplicationClose::try_encode\<close> computes for the reason leaves two bytes for an error
  code that may take eight: a long reason with a large code overruns the room by six bytes.
\<close>

lemma application_close_overruns:
  assumes "2 ^ 30 \<le> ac_error_code x" "ac_error_code x < 2 ^ 62" "length (ac_reason x) < 64"
    and "4 \<le> max_len" "max_len - 4 \<le> length (ac_reason x)"
  shows "length (snd (ac_try_encode x max_len [])) = max_len + 6"
proof -
  define n where "n = max_len - 4"
  have small: "(of_nat k :: u64) < 2 ^ 62 \<and> varint_size (of_nat k) = 1" if "k < 64" for k
    using that of_nat_small [of k] by (simp add: varint_size_def word_less_nat_alt)
  have room: "min (length (ac_reason x)) (u64_sub (u64_sub max_len 3) (varint_size (of_nat (length (ac_reason x))))) = n"
    using assms(3-5) small by (simp add: u64_sub_eq n_def)
  have n: "n < 64" using assms(3,5) by (simp add: n_def)
  have code: "varint_size (ac_error_code x) = 8" "varint_size APPLICATION_CLOSE = 1"
    using assms(1,2) by (auto simp: varint_size_def word_less_nat_alt word_le_nat_alt)
  have "writes (ac_try_encode x max_len) (varint_encode APPLICATION_CLOSE [] @ varint_encode (ac_error_code x) []
      @ varint_encode (of_nat n) [] @ take n (ac_reason x) @ [])"
    unfolding ac_try_encode_def Let_def room using assms(2) small [OF n] by (intro writes_rules) simp_all
  from writesD [OF this, of "[]"] show ?thesis
    using assms(2,4,5) code small [OF n] by (simp add: varint_encode_length n_def)
qed

section \<open>Properties\<close>



text \<open>
  (C32) Parsing ends on every payload, however malformed: the iterator returns at most as many items
  as the payload has bytes, and after the first invalid frame it returns nothing more.
\<close>

theorem frame_iterator_ends:
  "length (iter_collect it) \<le> length (it_bytes it)
   \<and> list_all (\<lambda>r. \<not> isl r) (butlast (iter_collect it))"
proof (induction it rule: iter_collect.induct)
  case (1 it)
  show ?case
  proof (cases "iter_next it")
    case (Pair r it')
    show ?thesis
    proof (cases r)
      case None
      then show ?thesis using Pair by (simp add: iter_collect.simps)
    next
      case (Some x)
      note IH = "1.IH" [OF Pair [symmetric] Some]
      have unf: "iter_collect it = x # iter_collect it'" using Pair Some by (subst iter_collect.simps) simp
      have short: "length (it_bytes it') < length (it_bytes it)" using iter_next_shorter Pair Some by simp
      have "iter_collect it' = []" if "x = Inl e" for e
        using Pair Some that
        by (subst iter_collect.simps) (auto simp: iter_next_def split: if_splits prod.splits sum.splits)
      with IH short show ?thesis unfolding unf by (cases x) auto
    qed
  qed
qed

text \<open>
  (C33) An ADD\_ADDRESS frame in the legacy format, which is what \<^verbatim>\<open>try_encode\<close> writes and what is sent to a
  peer without RFC support, is misread by every receiver: whatever IPv4 address other than a loopback
  one was advertised, the receiver learns the address 192.0.0.0, fails on the bytes that are left, and
  drops the rest of the packet.
\<close>

theorem legacy_add_address_misread:
  assumes "seq < 2 ^ 62" "\<not> v4_is_loopback ip"
  shows "\<exists>bytes port' ty. aa_try_encode (aa_new seq (V4 ip port)) [] = (Inr (), bytes)
    \<and> payload_frames (bytes @ rest) = Inr [Inr (AddAddress (aa_new seq (V4 0xC0000000 port'))),
        Inl \<lparr>if_ty = Some ty, if_reason = ''invalid frame ID''\<rparr>]"
proof -
  let ?a = "V4 ip port" and ?p = "ucast (calculate_priority (V4 ip port)) :: u64"
  let ?body = "varint_encode seq [] @ varint_encode ?p [] @ addr_bytes_legacy ?a"
  have w: "writes (aa_try_encode (aa_new seq ?a)) (varint_encode ADD_ADDRESS_IPV4 [] @ ?body)"
    unfolding aa_try_encode_def aa_try_encode_legacy_def aa_new_def add_address.select_convs
    using assms(1) priority_small writes_addr_put_legacy [of ?a] by (intro writes_rules) (simp_all add: aa_type_def writes_rules)
  obtain port' where auto: "aa_decode_auto False (?body @ rest) =
      (Inr (aa_new seq (V4 0xC0000000 port')), 0xFF # 0xFF # addr_bytes_legacy ?a @ rest)"
    using legacy_add_address_auto [OF assms] by auto
  then have first: "frame_body ADD_ADDRESS_IPV4 (?body @ rest) =
      (Inr (AddAddress (aa_new seq (V4 0xC0000000 port'))), 0xFF # 0xFF # addr_bytes_legacy ?a @ rest)"
    by (simp add: frame_body_def map_err_def del: addr_bytes_legacy.simps)
  obtain ty where err: "iter_collect \<lparr>it_bytes = 0xFF # 0xFF # addr_bytes_legacy ?a @ rest, it_last_ty = Some ADD_ADDRESS_IPV4\<rparr> =
      [Inl \<lparr>if_ty = Some ty, if_reason = ''invalid frame ID''\<rparr>]"
    using iter_collect_garbage [of "0xFF # addr_bytes_legacy ?a @ rest"] by (auto simp: field_lengths)
  have "iter_collect \<lparr>it_bytes = varint_encode ADD_ADDRESS_IPV4 [] @ ?body @ rest, it_last_ty = None\<rparr> =
    [Inr (AddAddress (aa_new seq (V4 0xC0000000 port'))), Inl \<lparr>if_ty = Some ty, if_reason = ''invalid frame ID''\<rparr>]"
    using iter_collect_body [OF _ first] err by simp
  then show ?thesis using writesD [OF w, of "[]"] varint_nonempty [of ADD_ADDRESS_IPV4]
    by (intro exI [of _ "varint_encode ADD_ADDRESS_IPV4 [] @ ?body"] exI [of _ port'] exI [of _ ty])
      (simp add: payload_frames_def iter_new_def del: addr_bytes_legacy.simps)
qed

theorem legacy_add_address_misread_witness:
  "\<exists>bytes port' ty. aa_try_encode (aa_new 7 (V4 0xCB007105 9000)) [] = (Inr (), bytes)
    \<and> payload_frames (bytes @ []) = Inr [Inr (AddAddress (aa_new 7 (V4 0xC0000000 port'))),
        Inl \<lparr>if_ty = Some ty, if_reason = ''invalid frame ID''\<rparr>]"
  by (rule legacy_add_address_misread) (simp_all add: v4_is_loopback_def)

end
