(* ===== verification/Streams_Send.thy ===== *)
theory Streams_Send
  imports Frames Send_Buffer
begin

text \<open>
  The sending half of a stream (\<^verbatim>\<open>src/src/connection/streams/send.rs\<close>): its state, the sources an
  application can write from, and the loop that moves chunks of a source into the send buffer.  The
  loop relies on the \<^verbatim>\<open>BytesSource\<close> trait only, so its correctness is proved in a locale that is
  interpreted for both sources.
\<close>

section \<open>The stream\<close>

datatype send_state = Ready | DataSent bool | ResetSent

record send_stream =
  tx_max_data :: nat
  tx_state :: send_state
  tx_pending :: send_buffer
  tx_priority :: int
  tx_fin_pending :: bool
  tx_connection_blocked :: bool
  tx_stop_reason :: "varint option"

datatype write_error = WriteBlocked | WriteStopped varint | WriteClosedStream | WriteConnectionClosed
datatype finish_error = FinishStopped varint | FinishClosedStream | FinishConnectionClosed

record written =
  wr_bytes :: nat
  wr_chunks :: nat

definition tx_new :: "nat \<Rightarrow> send_stream" where
  "tx_new max_data = \<lparr>tx_max_data = max_data, tx_state = Ready, tx_pending = sb_new, tx_priority = 0,
     tx_fin_pending = False, tx_connection_blocked = False, tx_stop_reason = None\<rparr>"

definition tx_is_reset :: "send_stream \<Rightarrow> bool" where
  "tx_is_reset t \<longleftrightarrow> tx_state t = ResetSent"

definition tx_is_writable :: "send_stream \<Rightarrow> bool" where
  "tx_is_writable t \<longleftrightarrow> tx_state t = Ready"

definition tx_offset :: "send_stream \<Rightarrow> nat" where
  "tx_offset t = sb_offset (tx_pending t)"

definition tx_is_pending :: "send_stream \<Rightarrow> bool" where
  "tx_is_pending t \<longleftrightarrow> sb_has_unsent_data (tx_pending t) \<or> tx_fin_pending t"

definition tx_finish :: "(send_stream, finish_error, unit) op" where
  "tx_finish t = (case tx_stop_reason t of
      Some error_code \<Rightarrow> (Inl (FinishStopped error_code), t)
    | None \<Rightarrow> if tx_state t = Ready
              then (Inr (), t\<lparr>tx_state := DataSent False, tx_fin_pending := True\<rparr>)
              else (Inl FinishClosedStream, t))"

definition tx_reset :: "send_stream \<Rightarrow> send_stream" where
  "tx_reset t = (case tx_state t of ResetSent \<Rightarrow> t | _ \<Rightarrow> t\<lparr>tx_state := ResetSent\<rparr>)"

definition tx_try_stop :: "varint \<Rightarrow> send_stream \<Rightarrow> bool \<times> send_stream" where
  "tx_try_stop error_code t =
     (if tx_stop_reason t = None then (True, t\<lparr>tx_stop_reason := Some error_code\<rparr>) else (False, t))"

definition tx_ack :: "stream_meta \<Rightarrow> send_stream \<Rightarrow> (bool \<times> send_stream) option" where
  "tx_ack frame t = (case sb_ack (sm_offsets frame) (tx_pending t) of
      None \<Rightarrow> None
    | Some sb \<Rightarrow> (case tx_state t of
          DataSent finish_acked \<Rightarrow>
            let finish_acked = (finish_acked \<or> sm_fin frame)
            in Some (finish_acked \<and> sb_is_fully_acked sb, t\<lparr>tx_pending := sb, tx_state := DataSent finish_acked\<rparr>)
        | _ \<Rightarrow> Some (False, t\<lparr>tx_pending := sb\<rparr>)))"

definition tx_increase_max_data :: "nat \<Rightarrow> send_stream \<Rightarrow> bool \<times> send_stream" where
  "tx_increase_max_data offset t =
     (if offset \<le> tx_max_data t \<or> tx_state t \<noteq> Ready then (False, t)
      else (tx_offset t = tx_max_data t, t\<lparr>tx_max_data := offset\<rparr>))"

section \<open>Sources and writing\<close>

text \<open>\<^verbatim>\<open>pop_chunk\<close> takes a limit and gives a chunk, the number of chunks used up, and the rest.\<close>

type_synonym 's pop_chunk = "nat \<Rightarrow> 's \<Rightarrow> (bytes \<times> nat) \<times> 's"

record bytes_array =
  ba_chunks :: "bytes list"
  ba_consumed :: nat

definition ba_from_chunks :: "bytes list \<Rightarrow> bytes_array" where
  "ba_from_chunks cs = \<lparr>ba_chunks = cs, ba_consumed = 0\<rparr>"

function ba_pop_loop :: "nat \<Rightarrow> nat \<Rightarrow> bytes_array \<Rightarrow> (bytes \<times> nat) \<times> bytes_array" where
  "ba_pop_loop limit chunks_consumed a =
     (if ba_consumed a < length (ba_chunks a)
      then let chunk = ba_chunks a ! ba_consumed a in
           if length chunk \<le> limit
           then let a = a\<lparr>ba_chunks := (ba_chunks a)[ba_consumed a := []], ba_consumed := ba_consumed a + 1\<rparr>
                in if chunk = [] then ba_pop_loop limit (chunks_consumed + 1) a
                   else ((chunk, chunks_consumed + 1), a)
           else if limit > 0
           then ((take limit chunk, chunks_consumed),
                 a\<lparr>ba_chunks := (ba_chunks a)[ba_consumed a := drop limit chunk]\<rparr>)
           else (([], chunks_consumed), a)
      else (([], chunks_consumed), a))"
  by pat_completeness auto
termination
  by (relation "measure (\<lambda>(_, _, a). length (ba_chunks a) - ba_consumed a)") auto

declare ba_pop_loop.simps [simp del]

definition ba_pop_chunk :: "bytes_array pop_chunk" where
  "ba_pop_chunk limit a = ba_pop_loop limit 0 a"

definition slice_pop_chunk :: "bytes pop_chunk" where
  "slice_pop_chunk limit data =
     (let limit = min limit (length data) in
      if limit = 0 then (([], 0), data)
      else let chunk = take limit data; data = drop (length chunk) data
           in ((chunk, if data = [] then 1 else 0), data))"

text \<open>The loop of \<^verbatim>\<open>Send::write\<close>.  Nothing but the trait bounds it, so it is a partial function; None is
  the value of a run that does not end.\<close>

partial_function (option) tx_write_loop ::
    "'s pop_chunk \<Rightarrow> nat \<Rightarrow> written \<Rightarrow> 's \<Rightarrow> send_buffer \<Rightarrow> (written \<times> 's \<times> send_buffer) option" where
  "tx_write_loop pop limit result source sb =
     (case pop limit source of ((chunk, n), source) \<Rightarrow>
        let result = \<lparr>wr_bytes = u64_add (wr_bytes result) (length chunk), wr_chunks = u64_add (wr_chunks result) n\<rparr>
        in if chunk = [] then Some (result, source, sb)
           else tx_write_loop pop (u64_sub limit (length chunk)) result source (sb_write chunk sb))"

declare tx_write_loop.simps [code]

definition tx_write :: "'s pop_chunk \<Rightarrow> 's \<Rightarrow> nat \<Rightarrow> send_stream \<Rightarrow> ((write_error + written) \<times> 's \<times> send_stream) option" where
  "tx_write pop source limit t =
     (if \<not> tx_is_writable t then Some (Inl WriteClosedStream, source, t)
      else case tx_stop_reason t of
        Some error_code \<Rightarrow> Some (Inl (WriteStopped error_code), source, t)
      | None \<Rightarrow>
          let budget = u64_sub (tx_max_data t) (tx_offset t) in
          if budget = 0 then Some (Inl WriteBlocked, source, t)
          else case tx_write_loop pop (min limit budget) \<lparr>wr_bytes = 0, wr_chunks = 0\<rparr> source (tx_pending t) of
                 None \<Rightarrow> None
               | Some (result, source, sb) \<Rightarrow> Some (Inr result, source, t\<lparr>tx_pending := sb\<rparr>))"

text \<open>What \<^verbatim>\<open>BytesSource\<close> promises: chunks up to the limit, cut off the front of what is left, and an
  empty one only when there is no room or nothing left.\<close>

locale bytes_source =
  fixes pop :: "'s pop_chunk" and content :: "'s \<Rightarrow> bytes"
  assumes pop_front: "pop limit s = ((chunk, n), s') \<Longrightarrow> content s = chunk @ content s' \<and> length chunk \<le> limit"
    and pop_empty: "pop limit s = (([], n), s') \<Longrightarrow> limit = 0 \<or> content s' = []"
begin

lemma write_loop_takes:
  assumes "sb_inv w sb" "length w + limit < 2 ^ 62" "wr_bytes r + limit < 2 ^ 62"
  shows "\<exists>r' s' sb'. tx_write_loop pop limit r s sb = Some (r', s', sb')
    \<and> content s = take limit (content s) @ content s'
    \<and> wr_bytes r' = wr_bytes r + length (take limit (content s))
    \<and> sb_inv (w @ take limit (content s)) sb' \<and> sb_acks sb' = sb_acks sb \<and> sb_retransmits sb' = sb_retransmits sb
    \<and> sb_unsent sb' = sb_unsent sb \<and> sb_base sb' = sb_base sb"
  using assms
proof (induction limit arbitrary: w r s sb rule: less_induct)
  case (less limit)
  obtain chunk n s' where p: "pop limit s = ((chunk, n), s')" by (metis surj_pair)
  note front = pop_front [OF p]
  show ?case
  proof (cases "chunk = []")
    case True
    then show ?thesis using less.prems front pop_empty [of limit s n s'] p
      by (auto simp: tx_write_loop.simps [of pop limit] u64_add_eq)
  next
    case False
    let ?k = "length chunk"
    have k: "0 < ?k" "?k \<le> limit" using False front by auto
    define r' where "r' = \<lparr>wr_bytes = wr_bytes r + ?k, wr_chunks = u64_add (wr_chunks r) n\<rparr>"
    have unf: "tx_write_loop pop limit r s sb = tx_write_loop pop (limit - ?k) r' s' (sb_write chunk sb)"
      using p False less.prems(3) k by (subst tx_write_loop.simps) (simp add: r'_def u64_add_eq u64_sub_eq)
    have sb': "sb_inv (w @ chunk) (sb_write chunk sb)" using less.prems k by (intro sb_write_inv) auto
    have lt: "limit - ?k < limit" "length (w @ chunk) + (limit - ?k) < 2 ^ 62" "wr_bytes r' + (limit - ?k) < 2 ^ 62"
      subgoal using k by linarith
      subgoal using k less.prems by simp
      subgoal using k less.prems by (simp add: r'_def)
      done
    from less.IH [OF lt(1) sb' lt(2,3)] obtain r'' s'' sb'' where "tx_write_loop pop (limit - ?k) r' s' (sb_write chunk sb) = Some (r'', s'', sb'')"
      "content s' = take (limit - ?k) (content s') @ content s''"
      "wr_bytes r'' = wr_bytes r' + length (take (limit - ?k) (content s'))"
      "sb_inv ((w @ chunk) @ take (limit - ?k) (content s')) sb''" "sb_acks sb'' = sb_acks (sb_write chunk sb)"
      "sb_retransmits sb'' = sb_retransmits (sb_write chunk sb)" "sb_unsent sb'' = sb_unsent (sb_write chunk sb)"
      "sb_base sb'' = sb_base (sb_write chunk sb)" by blast
    moreover have "take limit (content s) = chunk @ take (limit - ?k) (content s')" using front by simp
    ultimately show ?thesis
      unfolding unf using front sb_write_fields [of w sb chunk] less.prems k by (auto simp: r'_def)
  qed
qed

end

text \<open>Both sources keep the promise.\<close>

interpretation slice_source: bytes_source slice_pop_chunk "\<lambda>data. data"
  by unfold_locales (auto simp: slice_pop_chunk_def Let_def min_def split: if_splits)

definition ba_content :: "bytes_array \<Rightarrow> bytes" where
  "ba_content a = concat (drop (ba_consumed a) (ba_chunks a))"

lemma ba_content_next:
  assumes "ba_consumed a < length (ba_chunks a)"
  shows "ba_content a = ba_chunks a ! ba_consumed a @ concat (drop (Suc (ba_consumed a)) (ba_chunks a))"
  using Cons_nth_drop_Suc [OF assms] by (simp add: ba_content_def flip: concat.simps(2))

lemma ba_pop_loop_front:
  assumes "ba_pop_loop limit n a = ((chunk, m), a')"
  shows "ba_content a = chunk @ ba_content a' \<and> length chunk \<le> limit \<and> (chunk = [] \<longrightarrow> limit = 0 \<or> ba_content a' = [])"
  using assms
proof (induction limit n a rule: ba_pop_loop.induct)
  case (1 limit n a)
  show ?case
  proof (cases "ba_consumed a < length (ba_chunks a)")
    case False
    then show ?thesis using "1.prems" by (auto simp: ba_pop_loop.simps [of limit n] ba_content_def)
  next
    case True
    define c where "c = ba_chunks a ! ba_consumed a"
    define a1 where "a1 = a\<lparr>ba_chunks := (ba_chunks a)[ba_consumed a := []], ba_consumed := ba_consumed a + 1\<rparr>"
    have con: "ba_content a = c @ ba_content a1"
      unfolding ba_content_next [OF True] c_def a1_def by (simp add: ba_content_def)
    consider "c = []" | "c \<noteq> []" "length c \<le> limit" | "\<not> length c \<le> limit" "limit > 0" | "\<not> length c \<le> limit" "limit = 0"
      by auto
    then show ?thesis
    proof cases
      case 1
      then have "ba_pop_loop limit (n + 1) a1 = ((chunk, m), a')"
        using "1.prems" True by (subst (asm) ba_pop_loop.simps) (simp add: c_def a1_def Let_def)
      from "1.IH" [OF True c_def _ _ _ this] 1 con show ?thesis by (simp add: a1_def)
    next
      case 2
      then have "chunk = c" "a' = a1" using "1.prems" True by (auto simp: ba_pop_loop.simps [of limit n] c_def a1_def Let_def)
      then show ?thesis using 2 con by simp
    next
      case 3
      then have "chunk = take limit c" "a' = a\<lparr>ba_chunks := (ba_chunks a)[ba_consumed a := drop limit c]\<rparr>"
        using "1.prems" True by (auto simp: ba_pop_loop.simps [of limit n] c_def Let_def)
      moreover from this have "ba_content a' = drop limit c @ concat (drop (Suc (ba_consumed a)) (ba_chunks a))"
        using True by (subst ba_content_next) simp_all
      ultimately show ?thesis using 3 ba_content_next [OF True] by (auto simp: c_def)
    next
      case 4
      then have "chunk = []" "a' = a" using "1.prems" True by (auto simp: ba_pop_loop.simps [of 0 n] c_def Let_def)
      then show ?thesis using 4 by simp
    qed
  qed
qed

interpretation array_source: bytes_source ba_pop_chunk ba_content
  by unfold_locales (auto simp: ba_pop_chunk_def dest: ba_pop_loop_front)

section \<open>Unacknowledged bytes\<close>

lemma ranges_size:
  assumes "ranges_ok rs" "\<forall>x \<in> ranges_elems rs. x < 2 ^ 62" "n + card (ranges_elems rs) < 2 ^ 64"
  shows "fold (\<lambda>r acc. u64_add acc (u64_sub (snd r) (fst r))) rs n = n + card (ranges_elems rs)"
  using assms
proof (induction rs arbitrary: n)
  case (Cons r rs)
  have r: "fst r < snd r" and ok: "ranges_ok rs" and sep: "\<forall>s\<in>set rs. snd r < fst s" using Cons.prems(1) by (auto simp: ranges_ok_Cons)
  have "range_elems r \<inter> ranges_elems rs = {}"
    using sep by (fastforce simp: range_elems_def ranges_elems_def)
  moreover have fin: "finite (range_elems r)" "finite (ranges_elems rs)" by (simp_all add: range_elems_def)
  ultimately have card: "card (ranges_elems (r # rs)) = (snd r - fst r) + card (ranges_elems rs)"
    by (simp add: card_Un_disjoint range_elems_def)
  have "fold (\<lambda>r acc. u64_add acc (u64_sub (snd r) (fst r))) rs (n + (snd r - fst r)) =
      n + (snd r - fst r) + card (ranges_elems rs)"
    using Cons.prems card ok by (intro Cons.IH) auto
  moreover have "u64_add n (u64_sub (snd r) (fst r)) = n + (snd r - fst r)"
    using r Cons.prems(3) card by (simp add: u64_arith)
  ultimately show ?case using card by simp
qed simp

lemma sb_unacked_eq:
  assumes "sb_inv w sb"
  shows "sb_unacked sb = card ({..<length w} - sb_acked sb)"
proof -
  let ?A = "ranges_elems (sb_acks sb)"
  have w: "length w < 2 ^ 62" "ranges_ok (sb_acks sb)" and A: "\<forall>x\<in>?A. sb_base sb < x \<and> x < length w"
    using assms by (auto simp: sb_inv_def)
  note base = sb_inv_base [OF assms]
  have sub: "?A \<subseteq> {sb_base sb..<length w}" using A by auto
  have le: "card ?A \<le> sb_unacked_len sb" using card_mono [OF _ sub] base by auto
  have "fold (\<lambda>r acc. u64_add acc (u64_sub (snd r) (fst r))) (sb_acks sb) 0 = 0 + card ?A"
    using w A le base by (intro ranges_size) auto
  then have "sb_unacked sb = sb_unacked_len sb - card ?A" using le by (simp add: sb_unacked_def u64_sub_eq)
  also have "\<dots> = card ({sb_base sb..<length w} - ?A)" using sub base by (simp add: card_Diff_subset finite_subset)
  also have "{sb_base sb..<length w} - ?A = {..<length w} - sb_acked sb" by (auto simp: sb_acked_def)
  finally show ?thesis .
qed

lemma sb_unacked_write:
  assumes "sb_inv w sb" "sb_inv (w @ data) sb'" "sb_acks sb' = sb_acks sb" "sb_base sb' = sb_base sb"
  shows "sb_unacked sb' = sb_unacked sb + length data"
proof -
  have lim: "\<forall>x\<in>sb_acked sb. x < length w" using assms(1) sb_inv_base [OF assms(1)]
    by (auto simp: sb_inv_def sb_acked_def)
  have acked: "sb_acked sb' = sb_acked sb" using assms(3,4) by (simp add: sb_acked_def)
  have "{..<length (w @ data)} - sb_acked sb' = ({..<length w} - sb_acked sb) \<union> {length w..<length w + length data}"
    using lim by (auto simp: acked not_less)
  moreover have "({..<length w} - sb_acked sb) \<inter> {length w..<length w + length data} = {}" by auto
  ultimately show ?thesis
    by (simp add: sb_unacked_eq [OF assms(1)] sb_unacked_eq [OF assms(2)] card_Un_disjoint)
qed

lemma sb_unacked_ack:
  assumes inv: "sy_inv s" and r: "r \<in> set (sy_flight s)"
  obtains sb' where "sb_ack r (sy_buf s) = Some sb'" "sb_unacked sb' + (snd r - fst r) = sb_unacked (sy_buf s)"
    "sb_offset sb' = sb_offset (sy_buf s)" "fst r \<le> snd r"
proof -
  let ?w = "sy_written s" and ?sb = "sy_buf s"
  have sb: "sb_inv ?w ?sb" and fl: "fst r \<le> snd r" "snd r \<le> length ?w"
    using inv r by (auto simp: sy_inv_def sb_inv_def)
  from sb_ack_correct [OF sb, of r] fl obtain sb' where ack: "sb_ack r ?sb = Some sb'"
    and sb': "sb_inv ?w sb'" "sb_acked sb' = sb_acked ?sb \<union> range_elems r" by auto
  have "x \<notin> sb_acked ?sb" if "x \<in> range_elems r" for x
  proof
    assume "x \<in> sb_acked ?sb"
    moreover have "1 \<le> length (filter (\<lambda>r. x \<in> range_elems r) (sy_flight s))"
      using places_remove1 [OF r, of "\<lambda>r. x \<in> range_elems r"] that by simp
    ultimately have "2 \<le> sb_places s x" by (simp add: sb_places_def)
    moreover have "sb_places s x = of_bool (x < sb_unsent ?sb)" using inv by (simp add: sy_inv_def)
    ultimately show False by (cases "x < sb_unsent ?sb") auto
  qed
  then have split: "{..<length ?w} - sb_acked ?sb = ({..<length ?w} - sb_acked sb') \<union> range_elems r"
    and disj: "({..<length ?w} - sb_acked sb') \<inter> range_elems r = {}"
    using fl sb'(2) by (auto simp: range_elems_def)
  have "card ({..<length ?w} - sb_acked ?sb) = card ({..<length ?w} - sb_acked sb') + (snd r - fst r)"
    unfolding split using disj by (subst card_Un_disjoint) (auto simp: range_elems_def)
  then show ?thesis
    using that [OF ack] fl sb sb' by (simp add: sb_unacked_eq [OF sb] sb_unacked_eq [OF sb'(1)] sb_inv_def)
qed

end
