(* ===== verification/Streams_Recv.thy ===== *)
theory Streams_Recv
  imports Frames Assembler
begin

text \<open>
  The receiving half of a stream (\<^verbatim>\<open>Recv\<close> of \<^verbatim>\<open>src/src/connection/streams/recv.rs\<close>): ingestion of
  STREAM frames under flow control, stopping, resets and window updates.  Lemmas: no frame that
  exceeds a limit is taken, and what a frame charges to the connection is exactly the growth of the
  high-water mark.
\<close>

section \<open>The stream\<close>

datatype recv_state = Recv "nat option" | ResetRecvd nat varint

record recv_stream =
  rx_state :: recv_state
  rx_assembler :: assembler
  rx_sent_max_stream_data :: nat
  rx_end :: nat
  rx_stopped :: bool

datatype closed_stream = ClosedStream

definition rx_new :: "nat \<Rightarrow> recv_stream" where
  "rx_new initial_max_data = \<lparr>rx_state = Recv None, rx_assembler = asm_new,
     rx_sent_max_stream_data = initial_max_data, rx_end = 0, rx_stopped = False\<rparr>"

definition rx_reinit :: "nat \<Rightarrow> recv_stream \<Rightarrow> recv_stream" where
  "rx_reinit initial_max_data rs = \<lparr>rx_state = Recv None, rx_assembler = asm_reinit (rx_assembler rs),
     rx_sent_max_stream_data = initial_max_data, rx_end = 0, rx_stopped = False\<rparr>"

definition final_offset_unknown :: "recv_stream \<Rightarrow> bool" where
  "final_offset_unknown rs \<longleftrightarrow> rx_state rs = Recv None"

definition rx_can_send_flow_control :: "recv_stream \<Rightarrow> bool" where
  "rx_can_send_flow_control rs \<longleftrightarrow> final_offset_unknown rs \<and> \<not> rx_stopped rs"

definition is_receiving :: "recv_stream \<Rightarrow> bool" where
  "is_receiving rs \<longleftrightarrow> (case rx_state rs of Recv _ \<Rightarrow> True | ResetRecvd _ _ \<Rightarrow> False)"

definition final_offset :: "recv_stream \<Rightarrow> nat option" where
  "final_offset rs = (case rx_state rs of Recv sz \<Rightarrow> sz | ResetRecvd sz _ \<Rightarrow> Some sz)"

definition reset_code :: "recv_stream \<Rightarrow> varint option" where
  "reset_code rs = (case rx_state rs of ResetRecvd _ error_code \<Rightarrow> Some error_code | Recv _ \<Rightarrow> None)"

definition credit_consumed_by :: "recv_stream \<Rightarrow> nat \<Rightarrow> nat \<Rightarrow> nat \<Rightarrow> transport_error + nat" where
  "credit_consumed_by rs offset received max_data =
     (let new_bytes = offset - rx_end rs in
      if rx_sent_max_stream_data rs < offset \<or> max_data < u64_add received new_bytes
      then Inl (FLOW_CONTROL_ERROR '''') else Inr new_bytes)"

definition ingest :: "stream_frame \<Rightarrow> nat \<Rightarrow> nat \<Rightarrow> nat \<Rightarrow> (recv_stream, transport_error failure, nat \<times> bool) op" where
  "ingest f payload_len received max_data rs =
     (let stop = u64_add (unat (sf_offset f)) (length (sf_data f)) in
      if 2 ^ 62 \<le> stop then (Inl (Err (FLOW_CONTROL_ERROR ''maximum stream offset too large'')), rs)
      else if (case final_offset rs of Some final \<Rightarrow> final < stop \<or> sf_fin f \<and> stop \<noteq> final | None \<Rightarrow> False)
      then (Inl (Err (FINAL_SIZE_ERROR '''')), rs)
      else case credit_consumed_by rs stop received max_data of
        Inl e \<Rightarrow> (Inl (Err e), rs)
      | Inr new_bytes \<Rightarrow>
          let rs = (if sf_fin f \<and> \<not> rx_stopped rs
                    then (case rx_state rs of Recv _ \<Rightarrow> rs\<lparr>rx_state := Recv (Some stop)\<rparr> | ResetRecvd _ _ \<Rightarrow> rs)
                    else rs);
              rs = rs\<lparr>rx_end := max (rx_end rs) stop\<rparr>
          in if \<not> rx_stopped rs
             then (case asm_insert (unat (sf_offset f)) (sf_data f) payload_len (rx_assembler rs) of
                     None \<Rightarrow> (Inl Panic, rs)
                   | Some a \<Rightarrow> (Inr (new_bytes, sf_fin f \<and> rx_stopped rs), rs\<lparr>rx_assembler := a\<rparr>))
             else (Inr (new_bytes, sf_fin f \<and> rx_stopped rs), rs))"

definition rx_stop :: "(recv_stream, closed_stream, nat \<times> bool) op" where
  "rx_stop rs =
     (if rx_stopped rs then (Inl ClosedStream, rs)
      else let rs = rs\<lparr>rx_stopped := True, rx_assembler := asm_clear (rx_assembler rs)\<rparr>;
               read_credits = u64_sub (rx_end rs) (as_bytes_read (rx_assembler rs))
           in (Inr (read_credits, is_receiving rs), rs))"

definition rx_max_stream_data :: "nat \<Rightarrow> recv_stream \<Rightarrow> nat \<times> bool" where
  "rx_max_stream_data stream_receive_window rs =
     (let max_stream_data = u64_add (as_bytes_read (rx_assembler rs)) stream_receive_window;
          diff = u64_sub max_stream_data (rx_sent_max_stream_data rs);
          transmit = (rx_can_send_flow_control rs \<and> stream_receive_window div 8 \<le> diff)
      in (max_stream_data, transmit))"

definition record_sent_max_stream_data :: "nat \<Rightarrow> recv_stream \<Rightarrow> recv_stream" where
  "record_sent_max_stream_data sent_value rs =
     (if rx_sent_max_stream_data rs < sent_value then rs\<lparr>rx_sent_max_stream_data := sent_value\<rparr> else rs)"

definition rx_reset :: "varint \<Rightarrow> nat \<Rightarrow> nat \<Rightarrow> nat \<Rightarrow> (recv_stream, transport_error, bool) op" where
  "rx_reset error_code final received max_data rs =
     (case (case final_offset rs of
              Some offset \<Rightarrow> if offset \<noteq> final then Some (FINAL_SIZE_ERROR ''inconsistent value'') else None
            | None \<Rightarrow> if final < rx_end rs then Some (FINAL_SIZE_ERROR ''lower than high water mark'') else None) of
        Some e \<Rightarrow> (Inl e, rs)
      | None \<Rightarrow>
          (case credit_consumed_by rs final received max_data of
             Inl e \<Rightarrow> (Inl e, rs)
           | Inr _ \<Rightarrow>
               if \<not> is_receiving rs then (Inr False, rs)
               else (Inr True, rs\<lparr>rx_state := ResetRecvd final error_code,
                       rx_assembler := asm_clear (rx_assembler rs)\<rparr>)))"

section \<open>The assembler takes every frame\<close>

text \<open>
  Whatever the peer sends, inserting does not panic, as long as a stream that is read out of order
  gets no empty frame: an empty range breaks the set of received ranges.
\<close>

definition asm_ok :: "assembler \<Rightarrow> bool" where
  "asm_ok a \<longleftrightarrow> (case as_state a of Unordered recvd \<Rightarrow> ranges_ok recvd | Ordered \<Rightarrow> True)"

lemma asm_dedup_returns:
  assumes "ranges_ok dups" "\<forall>d\<in>set dups. off \<le> fst d \<and> snd d \<le> off + length bytes" "off + length bytes < 2 ^ 62"
  shows "\<exists>off' bytes' a'. asm_dedup n dups off bytes a = Some (off', bytes', a') \<and> as_state a' = as_state a"
  using assms
proof (induction dups arbitrary: off bytes a)
  case (Cons d dups)
  have d: "off \<le> fst d" "fst d < snd d" "snd d \<le> off + length bytes" and ok: "ranges_ok dups"
    and gap: "\<forall>c\<in>set dups. snd d < fst c" using Cons.prems(1,2) by (auto simp: ranges_ok_Cons)
  define a1 where "a1 = (if off < fst d
      then a\<lparr>as_buffered := u64_add (as_buffered a) (fst d - off), as_allocated := u64_add (as_allocated a) n,
             as_data := heap_push (buffer_new off (take (fst d - off) bytes) n) (as_data a)\<rparr> else a)"
  have a1: "as_state a1 = as_state a" by (simp add: a1_def)
  have step: "asm_dedup n (d # dups) off bytes a = asm_dedup n dups (snd d) (drop (snd d - off) bytes) a1"
    using d Cons.prems(3) by (auto simp: Let_def u64_arith a1_def)
  have "\<forall>c\<in>set dups. snd d \<le> fst c \<and> snd c \<le> snd d + length (drop (snd d - off) bytes)"
    using gap d Cons.prems(2) by (auto simp: less_imp_le)
  then show ?case unfolding step a1 [symmetric] using ok d Cons.prems(3) by (intro Cons.IH) auto
qed simp

lemma asm_store_state [simp]: "as_state (asm_store n off bytes a) = as_state a"
  by (simp add: asm_store_def defragment_def Let_def)

lemma asm_insert_returns:
  assumes "asm_ok a" "off + length bytes < 2 ^ 62" "bytes \<noteq> [] \<or> as_state a = Ordered"
  shows "\<exists>a'. asm_insert off bytes n a = Some a' \<and> asm_ok a'"
proof (cases "as_state a")
  case Ordered
  then show ?thesis by (simp add: asm_insert_def asm_ok_def Let_def)
next
  case (Unordered recvd)
  let ?r = "(off, off + length bytes)"
  obtain dups recvd' where rep: "btree_replace_all recvd ?r = (dups, recvd')" by fastforce
  have ok: "ranges_ok recvd'" "ranges_ok dups" "ranges_elems dups = ranges_elems recvd \<inter> range_elems ?r"
    using btree_replace_all_correct [of recvd ?r] assms rep Unordered by (auto simp: asm_ok_def)
  have "off \<le> fst d \<and> snd d \<le> off + length bytes" if "d \<in> set dups" for d
  proof -
    have "fst d < snd d" using ok(2) that by (rule ranges_okD)
    then have "fst d \<in> ranges_elems dups" "snd d - 1 \<in> ranges_elems dups"
      using that by (auto simp: ranges_elems_iff intro!: bexI [of _ d])
    then show ?thesis using \<open>fst d < snd d\<close> unfolding ok(3) by (auto simp: range_elems_def)
  qed
  with ok(1) asm_dedup_returns [OF ok(2) _ assms(2), of n "a\<lparr>as_end := max (as_end a) (off + length bytes), as_state := Unordered recvd'\<rparr>"]
  show ?thesis using Unordered rep assms(2) by (auto simp: asm_insert_def asm_ok_def Let_def u64_add_eq)
qed

lemma asm_ok_simps [simp]: "asm_ok asm_new" "asm_ok (asm_reinit a)" "asm_ok (asm_clear a) = asm_ok a"
  by (simp_all add: asm_ok_def asm_new_def asm_reinit_def asm_clear_def)

lemma ranges_ok_fold_insert:
  "ranges_ok t \<Longrightarrow> ranges_ok (fold (\<lambda>c t. snd (btree_insert t (f c))) bs t)"
  by (induction bs arbitrary: t) (auto intro: brs.inv_insert)

lemma ensure_ordering_ok: "ensure_ordering ordered a = (r, a') \<Longrightarrow> asm_ok a \<Longrightarrow> asm_ok a'"
  by (auto simp: ensure_ordering_def asm_ok_def Let_def btree_new_def split: if_splits
      intro!: ranges_ok_fold_insert brs.inv_insert)

lemma asm_read_state: "as_state (snd (asm_read max_length ordered a)) = as_state a"
proof (induction max_length ordered a rule: asm_read.induct)
  case (1 max_length ordered a)
  then show ?case
    by (subst asm_read.simps) (auto simp: asm_take_def Let_def split: list.splits)
qed

lemma asm_read_ok: "asm_read max_length ordered a = (r, a') \<Longrightarrow> asm_ok a \<Longrightarrow> asm_ok a'"
  using asm_read_state [of max_length ordered a] by (simp add: asm_ok_def)

section \<open>Limits\<close>

text \<open>The high-water mark is within the window that was advertised, and the assembler is sound.\<close>

definition rx_ok :: "recv_stream \<Rightarrow> bool" where
  "rx_ok rs \<longleftrightarrow> rx_end rs \<le> rx_sent_max_stream_data rs \<and> rx_end rs < 2 ^ 62
     \<and> asm_ok (rx_assembler rs)"

lemma rx_ok_new [simp]: "rx_ok (rx_new w)" "rx_ok (rx_reinit w rs)"
  by (simp_all add: rx_ok_def rx_new_def rx_reinit_def)

lemma credit_consumed_by_ok:
  assumes "credit_consumed_by rs offset received max_data = Inr n" "received < 2 ^ 63" "offset < 2 ^ 63"
  shows "n = offset - rx_end rs" "offset \<le> rx_sent_max_stream_data rs" "received + n \<le> max_data"
proof -
  have "offset - rx_end rs < 2 ^ 63" using assms(3) by linarith
  then have "u64_add received (offset - rx_end rs) = received + (offset - rx_end rs)"
    using assms(2) by (intro u64_add_eq) simp
  with assms(1) show "n = offset - rx_end rs" "offset \<le> rx_sent_max_stream_data rs" "received + n \<le> max_data"
    by (auto simp: credit_consumed_by_def Let_def split: if_splits)
qed

lemma ingest_ok:
  assumes "ingest f n received max_data rs = (Inr (new_bytes, closed), rs')" "rx_ok rs" "received < 2 ^ 63"
  shows "asm_ok (rx_assembler rs') \<Longrightarrow> rx_ok rs'" and "new_bytes = rx_end rs' - rx_end rs" and "rx_end rs \<le> rx_end rs'"
    and "received + new_bytes \<le> max_data"
    and "rx_sent_max_stream_data rs' = rx_sent_max_stream_data rs" "rx_stopped rs' = rx_stopped rs"
    and "closed = (sf_fin f \<and> rx_stopped rs)"
    and "is_receiving rs' = is_receiving rs"
proof -
  define stop where "stop = u64_add (unat (sf_offset f)) (length (sf_data f))"
  note unf = assms(1) [unfolded ingest_def stop_def [symmetric] Let_def]
  have lt: "stop < 2 ^ 62" and cr: "credit_consumed_by rs stop received max_data = Inr new_bytes"
    and c: "closed = (sf_fin f \<and> rx_stopped rs)"
    using unf by (auto split: if_splits option.splits recv_state.splits sum.splits)
  have ok: "new_bytes = stop - rx_end rs" "stop \<le> rx_sent_max_stream_data rs" "received + new_bytes \<le> max_data"
    using credit_consumed_by_ok [OF cr assms(3)] lt by auto
  have rs': "rx_end rs' = max (rx_end rs) stop" "rx_sent_max_stream_data rs' = rx_sent_max_stream_data rs"
    "rx_stopped rs' = rx_stopped rs" "is_receiving rs' = is_receiving rs"
    using unf by (auto simp: is_receiving_def split: if_splits option.splits recv_state.splits sum.splits)
  show "new_bytes = rx_end rs' - rx_end rs" "rx_end rs \<le> rx_end rs'" "closed = (sf_fin f \<and> rx_stopped rs)"
    "rx_sent_max_stream_data rs' = rx_sent_max_stream_data rs" "rx_stopped rs' = rx_stopped rs"
    "is_receiving rs' = is_receiving rs" "received + new_bytes \<le> max_data"
    using ok c rs' by auto
  show "asm_ok (rx_assembler rs') \<Longrightarrow> rx_ok rs'" using assms(2) ok lt rs' by (auto simp: rx_ok_def)
qed

lemma ingest_error: "ingest f n received max_data rs = (Inl (Err e), rs') \<Longrightarrow> rs' = rs"
  by (auto simp: ingest_def Let_def split: if_splits option.splits recv_state.splits sum.splits)

text \<open>A frame with an offset and a length that are integers of the wire format does not panic.\<close>

lemma ingest_no_panic:
  assumes "rx_ok rs" "unat (sf_offset f) + length (sf_data f) < 2 ^ 64"
    and "sf_data f \<noteq> [] \<or> as_state (rx_assembler rs) = Ordered"
  shows "\<exists>r rs'. ingest f n received max_data rs = (r, rs') \<and> r \<noteq> Inl Panic \<and> asm_ok (rx_assembler rs')"
proof -
  have stop: "u64_add (unat (sf_offset f)) (length (sf_data f)) = unat (sf_offset f) + length (sf_data f)"
    using assms(2) by (rule u64_add_eq)
  show ?thesis
  proof (cases "unat (sf_offset f) + length (sf_data f) < 2 ^ 62")
    case True
    from asm_insert_returns [OF _ this assms(3), of n] assms(1)
    obtain a' where "asm_insert (unat (sf_offset f)) (sf_data f) n (rx_assembler rs) = Some a'" "asm_ok a'"
      by (auto simp: rx_ok_def)
    then show ?thesis using assms(1) by (auto simp: ingest_def Let_def rx_ok_def split: if_splits option.splits sum.splits recv_state.splits)
  next
    case False
    then show ?thesis using assms(1) by (simp add: ingest_def stop rx_ok_def)
  qed
qed

lemma rx_stop_ok:
  assumes "rx_stop rs = (Inr (credits, transmit), rs')"
  shows "\<not> rx_stopped rs" "rx_stopped rs'" "rx_state rs' = rx_state rs" "rx_end rs' = rx_end rs"
    "rx_sent_max_stream_data rs' = rx_sent_max_stream_data rs" "transmit = is_receiving rs"
    "credits = u64_sub (rx_end rs) (as_bytes_read (rx_assembler rs))"
  using assms by (auto simp: rx_stop_def asm_clear_def is_receiving_def Let_def split: if_splits)

lemma rx_reset_ok:
  assumes "rx_reset code final received max_data rs = (Inr b, rs')" "received < 2 ^ 63" "final < 2 ^ 62"
  shows "rx_end rs' = rx_end rs" "rx_sent_max_stream_data rs' = rx_sent_max_stream_data rs" "rx_stopped rs' = rx_stopped rs"
    "b = is_receiving rs" "\<not> b \<Longrightarrow> rs' = rs" "b \<Longrightarrow> rx_state rs' = ResetRecvd final code"
    "received + (final - rx_end rs) \<le> max_data" "final \<le> rx_sent_max_stream_data rs"
    "as_bytes_read (rx_assembler rs') = as_bytes_read (rx_assembler rs)"
proof -
  from assms(1) obtain n where "credit_consumed_by rs final received max_data = Inr n"
    by (auto simp: rx_reset_def split: option.splits if_splits sum.splits)
  from credit_consumed_by_ok [OF this assms(2)] assms(3)
  show "received + (final - rx_end rs) \<le> max_data" "final \<le> rx_sent_max_stream_data rs" by auto
qed (use assms(1) in \<open>auto simp: rx_reset_def asm_clear_def split: option.splits if_splits sum.splits\<close>)

text \<open>
  A FIN below the high-water mark is accepted: the final size is then smaller than what has been
  received, and a reader waits for ever for an end that cannot match.
\<close>

lemma fin_below_high_water_accepted:
  assumes "ingest f n received max_data rs = (Inr (new_bytes, closed), rs')" "rx_ok rs" "received < 2 ^ 63"
    and "final_offset rs = None" "sf_fin f" "\<not> rx_stopped rs"
    and "unat (sf_offset f) + length (sf_data f) < rx_end rs"
  shows "final_offset rs' = Some (unat (sf_offset f) + length (sf_data f))" "final_offset rs' \<noteq> Some (rx_end rs')"
proof -
  have stop: "u64_add (unat (sf_offset f)) (length (sf_data f)) = unat (sf_offset f) + length (sf_data f)"
    using assms(2,7) by (intro u64_add_eq) (simp add: rx_ok_def)
  show f: "final_offset rs' = Some (unat (sf_offset f) + length (sf_data f))"
    using assms(1,4-6) unfolding ingest_def stop Let_def
    by (auto simp: final_offset_def split: if_splits option.splits recv_state.splits sum.splits)
  show "final_offset rs' \<noteq> Some (rx_end rs')"
    using f ingest_ok(3) [OF assms(1-3)] assms(7) by auto
qed

end
