(* ===== verification/Pending_Streams.thy ===== *)
theory Pending_Streams
  imports Stream_Ids Binary_Heap
begin

text \<open>
  The queue of streams with data to send (\<^verbatim>\<open>PendingStreamsQueue\<close> of
  \<^verbatim>\<open>src/src/connection/streams/mod.rs\<close>): a heap ordered by priority and, among equals, by a recency
  counter that counts down, so that streams of the same priority take turns.
\<close>

record pending_stream =
  ps_priority :: int
  ps_recency :: nat
  ps_id :: stream_id

text \<open>The derived \<^verbatim>\<open>Ord\<close> compares the fields in their order; the heap gives up the greatest element.\<close>

definition ps_before :: "pending_stream \<Rightarrow> pending_stream \<Rightarrow> bool" where
  "ps_before a b \<longleftrightarrow> ps_priority b < ps_priority a \<or> ps_priority a = ps_priority b
     \<and> (ps_recency b < ps_recency a \<or> ps_recency a = ps_recency b \<and> ps_id b \<le> ps_id a)"

interpretation pending_heap: heap_order ps_before
  by unfold_locales (auto simp: ps_before_def)

record pending_queue =
  pq_streams :: "pending_stream list"
  pq_next :: "pending_stream option"
  pq_recency :: nat

definition pq_new :: pending_queue where
  "pq_new = \<lparr>pq_streams = [], pq_next = None, pq_recency = 2 ^ 64 - 1\<rparr>"

definition reinsert_pending :: "stream_id \<Rightarrow> int \<Rightarrow> pending_queue \<Rightarrow> pending_queue" where
  "reinsert_pending sid priority q =
     (if pq_next q \<noteq> None then q
      else q\<lparr>pq_next := Some \<lparr>ps_priority = priority, ps_recency = pq_recency q, ps_id = sid\<rparr>\<rparr>)"

definition push_pending :: "stream_id \<Rightarrow> int \<Rightarrow> pending_queue \<Rightarrow> pending_queue" where
  "push_pending sid priority q =
     (let recency = pq_recency q - 1 in
      q\<lparr>pq_recency := recency, pq_streams := heap_insert ps_before
          \<lparr>ps_priority = priority, ps_recency = recency, ps_id = sid\<rparr> (pq_streams q)\<rparr>)"

definition pq_pop :: "pending_queue \<Rightarrow> pending_stream option \<times> pending_queue" where
  "pq_pop q = (case pq_next q of
      Some p \<Rightarrow> (Some p, q\<lparr>pq_next := None\<rparr>)
    | None \<Rightarrow> (case pq_streams q of
          [] \<Rightarrow> (None, q)
        | p # rest \<Rightarrow> (Some p, q\<lparr>pq_streams := rest\<rparr>)))"

definition pq_clear :: "pending_queue \<Rightarrow> pending_queue" where
  "pq_clear q = q\<lparr>pq_next := None, pq_streams := []\<rparr>"

definition pq_iter :: "pending_queue \<Rightarrow> pending_stream list" where
  "pq_iter q = (case pq_next q of Some p \<Rightarrow> [p] | None \<Rightarrow> []) @ pq_streams q"

definition pq_len :: "pending_queue \<Rightarrow> nat" where
  "pq_len q = length (pq_streams q) + (if pq_next q \<noteq> None then 1 else 0)"

section \<open>Scheduling\<close>

text \<open>The heap is in order, and the counter is below every recency in it.\<close>

definition pq_inv :: "pending_queue \<Rightarrow> bool" where
  "pq_inv q \<longleftrightarrow> sorted_wrt ps_before (pq_streams q) \<and> (\<forall>p\<in>set (pq_streams q). pq_recency q \<le> ps_recency p)"

lemma pq_inv_new: "pq_inv pq_new" and pq_inv_clear: "pq_inv (pq_clear q)"
  by (simp_all add: pq_inv_def pq_new_def pq_clear_def)

lemma pq_inv_push [step_inv]: "pq_inv q \<Longrightarrow> pq_inv (push_pending sid priority q)"
  by (auto simp: pq_inv_def push_pending_def Let_def intro: pending_heap.sorted_heap_insert diff_le_self le_trans)

lemma pq_inv_reinsert [step_inv]: "pq_inv q \<Longrightarrow> pq_inv (reinsert_pending sid priority q)"
  by (simp add: pq_inv_def reinsert_pending_def)

lemma pq_inv_pop [step_inv]: "pq_inv q \<Longrightarrow> pq_inv (snd (pq_pop q))"
  by (auto simp: pq_inv_def pq_pop_def split: option.splits list.splits)

lemma set_pq_push: "ps_id ` set (pq_iter (push_pending sid priority q)) = insert sid (ps_id ` set (pq_iter q))"
  by (auto simp: pq_iter_def push_pending_def Let_def split: option.splits)

lemma pq_pop_len: "pq_pop q = (Some p, q') \<Longrightarrow> pq_len q = Suc (pq_len q')"
  by (auto simp: pq_pop_def pq_len_def split: option.splits list.splits)

text \<open>
  Streams of one priority take turns: a stream that is pushed is served after every stream of at least its
  priority that was waiting already.
\<close>

lemma push_pending_last:
  assumes "pq_inv q" "p \<in> set (pq_streams q)" "priority \<le> ps_priority p" "0 < pq_recency q"
  shows "ps_before p \<lparr>ps_priority = priority, ps_recency = pq_recency q - 1, ps_id = sid\<rparr>"
  using assms by (auto simp: pq_inv_def ps_before_def)

end
