(* ===== verification/Streams_State.thy ===== *)
theory Streams_State
  imports Streams_Send Streams_Recv Pending_Streams "HOL-Library.Monad_Syntax"
begin

text \<open>
  All streams of a connection (\<^verbatim>\<open>StreamsState\<close> of \<^verbatim>\<open>src/src/connection/streams/state.rs\<close>): stream
  tables, limits on their number, connection-level flow control in both directions, the incoming
  frames and acknowledgements, and the writers of control and STREAM frames.  A hash map is a map, a
  vector used as a stack is a list with its top first, and an array indexed by \<^verbatim>\<open>dir as usize\<close> is a
  function of the direction.  The counters of \<^verbatim>\<open>FrameStats\<close> are left out.  A function without a result
  type that can panic returns an option, None for the panic.
\<close>

section \<open>State\<close>

lemma unat_varint_max [code_unfold]: "unat varint_max = 2 ^ 62 - 1"
  by (simp add: varint_max_def)

datatype stream_recv = FreeRecv recv_stream | OpenRecv recv_stream

datatype stream_event =
    Opened dir
  | Readable stream_id
  | Writable stream_id
  | Finished stream_id
  | Stopped stream_id varint
  | Available dir

datatype stream_half = SendHalf | RecvHalf

record streams_state =
  st_side :: side
  st_send :: "stream_id \<rightharpoonup> send_stream option"
  st_recv :: "stream_id \<rightharpoonup> stream_recv option"
  st_free_recv :: "stream_recv list"
  st_next :: "dir \<Rightarrow> nat"
  st_max :: "dir \<Rightarrow> nat"
  st_max_remote :: "dir \<Rightarrow> nat"
  st_sent_max_remote :: "dir \<Rightarrow> nat"
  st_allocated_remote_count :: "dir \<Rightarrow> nat"
  st_max_concurrent_remote_count :: "dir \<Rightarrow> nat"
  st_flow_control_adjusted :: bool
  st_next_remote :: "dir \<Rightarrow> nat"
  st_opened :: "dir \<Rightarrow> bool"
  st_next_reported_remote :: "dir \<Rightarrow> nat"
  st_send_streams :: nat
  st_pending :: pending_queue
  st_events :: "stream_event list"
  st_connection_blocked :: "stream_id list"
  st_max_data :: nat
  st_receive_window :: nat
  st_local_max_data :: nat
  st_sent_max_data :: nat
  st_data_sent :: nat
  st_data_recvd :: nat
  st_unacked_data :: nat
  st_send_window :: nat
  st_stream_receive_window :: nat
  st_initial_max_stream_data_uni :: nat
  st_initial_max_stream_data_bidi_local :: nat
  st_initial_max_stream_data_bidi_remote :: nat
  st_receive_window_shrink_debt :: nat

text \<open>The part of \<^verbatim>\<open>Retransmits\<close> that the streams use: frames to send, or frames sent with a packet.  A
  vector that is popped at its end is a list with its last element first, also in
  \<^verbatim>\<open>connection_blocked\<close> and \<^verbatim>\<open>free_recv\<close>.\<close>

record retransmits =
  rt_max_data :: bool
  rt_max_stream_id :: "dir \<Rightarrow> bool"
  rt_reset_stream :: "(stream_id \<times> varint) list"
  rt_stop_sending :: "stop_sending list"
  rt_max_stream_data :: "stream_id list"

text \<open>The values of the peer's transport parameters that the streams use.\<close>

record stream_params =
  sp_initial_max_stream_data_uni :: nat
  sp_initial_max_stream_data_bidi_local :: nat
  sp_initial_max_stream_data_bidi_remote :: nat
  sp_initial_max_streams_bidi :: nat
  sp_initial_max_streams_uni :: nat
  sp_initial_max_data :: nat

type_synonym 'a streams_op = "(streams_state, transport_error failure, 'a) op"

section \<open>Stream tables\<close>

definition as_open_recv :: "stream_recv \<Rightarrow> recv_stream option" where
  "as_open_recv r = (case r of OpenRecv rs \<Rightarrow> Some rs | FreeRecv _ \<Rightarrow> None)"

definition recv_into_inner :: "stream_recv \<Rightarrow> recv_stream" where
  "recv_into_inner r = (case r of FreeRecv rs \<Rightarrow> rs | OpenRecv rs \<Rightarrow> rs)"

definition recv_free :: "nat \<Rightarrow> stream_recv \<Rightarrow> stream_recv option" where
  "recv_free initial_max_data r = (case r of
      FreeRecv _ \<Rightarrow> None
    | OpenRecv rs \<Rightarrow> Some (FreeRecv (rx_reinit initial_max_data rs)))"

definition get_or_insert_send :: "nat \<Rightarrow> send_stream option \<Rightarrow> send_stream" where
  "get_or_insert_send max_data opt = (case opt of None \<Rightarrow> tx_new max_data | Some t \<Rightarrow> t)"

definition get_or_insert_recv :: "nat \<Rightarrow> stream_recv option \<Rightarrow> recv_stream" where
  "get_or_insert_recv initial_max_data opt = (case opt of
      None \<Rightarrow> rx_new initial_max_data
    | Some r \<Rightarrow> recv_into_inner r)"

text \<open>The reference into a table that the code holds while it works on a stream: looking it up creates
  or opens the stream, and changes are written back.\<close>

definition put_send :: "stream_id \<Rightarrow> send_stream \<Rightarrow> streams_state \<Rightarrow> streams_state" where
  "put_send sid t s = s\<lparr>st_send := (st_send s)(sid \<mapsto> Some t)\<rparr>"

definition put_recv :: "stream_id \<Rightarrow> recv_stream \<Rightarrow> streams_state \<Rightarrow> streams_state" where
  "put_recv sid rs s = s\<lparr>st_recv := (st_recv s)(sid \<mapsto> Some (OpenRecv rs))\<rparr>"

definition st_insert :: "bool \<Rightarrow> stream_id \<Rightarrow> streams_state \<Rightarrow> streams_state option" where
  "st_insert remote sid s =
     (let bi = (sid_dir sid = Bi) in do {
        s \<leftarrow> (if bi \<or> \<not> remote
             then if st_send s sid \<noteq> None then None else Some (s\<lparr>st_send := (st_send s)(sid \<mapsto> None)\<rparr>)
             else Some s);
        if bi \<or> remote
        then let (recv, free) = (case st_free_recv s of [] \<Rightarrow> (None, []) | r # rest \<Rightarrow> (Some r, rest))
             in if st_recv s sid \<noteq> None then None
                else Some (s\<lparr>st_free_recv := free, st_recv := (st_recv s)(sid \<mapsto> recv)\<rparr>)
        else Some s
      })"

text \<open>\<^verbatim>\<open>for i in is { this.insert(true, StreamId::new(!side, dir, i)) }\<close>\<close>

fun insert_remotes :: "dir \<Rightarrow> nat list \<Rightarrow> streams_state \<Rightarrow> streams_state option" where
  "insert_remotes d [] s = Some s"
| "insert_remotes d (i # is) s = do {
     s \<leftarrow> st_insert True (sid_new (side_not (st_side s)) d i) s;
     insert_remotes d is s
   }"

text \<open>The fields of a new connection, before its first streams are inserted.\<close>

definition st_blank :: "side \<Rightarrow> nat \<Rightarrow> nat \<Rightarrow> nat \<Rightarrow> nat \<Rightarrow> nat \<Rightarrow> streams_state" where
  "st_blank side max_remote_uni max_remote_bi send_window receive_window stream_receive_window =
     (let remote = (\<lambda>d. case d of Bi \<Rightarrow> max_remote_bi | Uni \<Rightarrow> max_remote_uni)
      in \<lparr>st_side = side, st_send = Map.empty, st_recv = Map.empty, st_free_recv = [],
            st_next = (\<lambda>_. 0), st_max = (\<lambda>_. 0), st_max_remote = remote, st_sent_max_remote = remote,
            st_allocated_remote_count = remote, st_max_concurrent_remote_count = remote,
            st_flow_control_adjusted = False, st_next_remote = (\<lambda>_. 0), st_opened = (\<lambda>_. False),
            st_next_reported_remote = (\<lambda>_. 0), st_send_streams = 0, st_pending = pq_new, st_events = [],
            st_connection_blocked = [], st_max_data = 0, st_receive_window = receive_window,
            st_local_max_data = receive_window, st_sent_max_data = receive_window, st_data_sent = 0,
            st_data_recvd = 0, st_unacked_data = 0, st_send_window = send_window,
            st_stream_receive_window = stream_receive_window, st_initial_max_stream_data_uni = 0,
            st_initial_max_stream_data_bidi_local = 0, st_initial_max_stream_data_bidi_remote = 0,
            st_receive_window_shrink_debt = 0\<rparr>)"

definition st_new :: "side \<Rightarrow> nat \<Rightarrow> nat \<Rightarrow> nat \<Rightarrow> nat \<Rightarrow> nat \<Rightarrow> streams_state option" where
  "st_new side max_remote_uni max_remote_bi send_window receive_window stream_receive_window = do {
     s \<leftarrow> insert_remotes Bi [0..<max_remote_bi]
            (st_blank side max_remote_uni max_remote_bi send_window receive_window stream_receive_window);
     insert_remotes Uni [0..<max_remote_uni] s
   }"

section \<open>Limits and credit\<close>

definition received_max_data :: "nat \<Rightarrow> streams_state \<Rightarrow> streams_state" where
  "received_max_data n s = s\<lparr>st_max_data := max (st_max_data s) n\<rparr>"

definition set_params :: "stream_params \<Rightarrow> streams_state \<Rightarrow> streams_state" where
  "set_params params s =
     (let s = s\<lparr>st_initial_max_stream_data_uni := sp_initial_max_stream_data_uni params,
            st_initial_max_stream_data_bidi_local := sp_initial_max_stream_data_bidi_local params,
            st_initial_max_stream_data_bidi_remote := sp_initial_max_stream_data_bidi_remote params,
            st_max := (st_max s)(Bi := sp_initial_max_streams_bidi params, Uni := sp_initial_max_streams_uni params)\<rparr>;
          s = received_max_data (sp_initial_max_data params) s
      in fold (\<lambda>i s. let sid = sid_new (side_not (st_side s)) Bi i in
             case st_send s sid of
               Some (Some t) \<Rightarrow> put_send sid (t\<lparr>tx_max_data := sp_initial_max_stream_data_bidi_local params\<rparr>) s
             | _ \<Rightarrow> s) [0..<st_max_remote s Bi] s)"

definition ensure_remote_streams :: "dir \<Rightarrow> streams_state \<Rightarrow> streams_state option" where
  "ensure_remote_streams d s =
     (let new_count = st_max_concurrent_remote_count s d - st_allocated_remote_count s d in do {
        s \<leftarrow> insert_remotes d (map (u64_add (st_max_remote s d)) [0..<new_count]) s;
        Some (s\<lparr>st_allocated_remote_count := (st_allocated_remote_count s)
                  (d := u64_add (st_allocated_remote_count s d) new_count),
                st_max_remote := (st_max_remote s)(d := u64_add (st_max_remote s d) new_count)\<rparr>)
      })"

definition stream_freed :: "stream_id \<Rightarrow> stream_half \<Rightarrow> streams_state \<Rightarrow> streams_state option" where
  "stream_freed sid half s = do {
     s \<leftarrow> (if sid_initiator sid \<noteq> st_side s
          then if sid_dir sid = Uni \<or> (case half of
                    SendHalf \<Rightarrow> st_recv s sid = None
                  | RecvHalf \<Rightarrow> st_send s sid = None)
               then ensure_remote_streams (sid_dir sid)
                      (s\<lparr>st_allocated_remote_count := (st_allocated_remote_count s)
                           (sid_dir sid := u64_sub (st_allocated_remote_count s (sid_dir sid)) 1)\<rparr>)
               else Some s
          else Some s);
     Some (if half = SendHalf then s\<lparr>st_send_streams := u64_sub (st_send_streams s) 1\<rparr> else s)
   }"

definition stream_recv_freed :: "stream_id \<Rightarrow> stream_recv \<Rightarrow> streams_state \<Rightarrow> streams_state option" where
  "stream_recv_freed sid recv s = do {
     r \<leftarrow> recv_free (st_stream_receive_window s) recv;
     stream_freed sid RecvHalf (s\<lparr>st_free_recv := r # st_free_recv s\<rparr>)
   }"

definition max_send_data :: "stream_id \<Rightarrow> streams_state \<Rightarrow> nat" where
  "max_send_data sid s =
     (case sid_dir sid of
        Uni \<Rightarrow> st_initial_max_stream_data_uni s
      | Bi \<Rightarrow> if st_side s \<noteq> sid_initiator sid then st_initial_max_stream_data_bidi_local s
              else st_initial_max_stream_data_bidi_remote s)"

definition add_read_credits :: "nat \<Rightarrow> streams_state \<Rightarrow> bool \<times> streams_state" where
  "add_read_credits credits s =
     (let s = (if st_receive_window_shrink_debt s < credits
               then s\<lparr>st_local_max_data := u64_sat_add (st_local_max_data s)
                        (u64_sub credits (st_receive_window_shrink_debt s)),
                      st_receive_window_shrink_debt := 0\<rparr>
               else s\<lparr>st_receive_window_shrink_debt := u64_sub (st_receive_window_shrink_debt s) credits\<rparr>)
      in if unat varint_max < st_local_max_data s then (False, s)
         else (st_receive_window s div 8 \<le> u64_sub (st_local_max_data s) (st_sent_max_data s), s))"

definition set_receive_window :: "nat \<Rightarrow> streams_state \<Rightarrow> bool \<times> streams_state" where
  "set_receive_window receive_window s =
     (if st_receive_window s < receive_window
      then (True, s\<lparr>st_local_max_data := u64_sat_add (st_local_max_data s) (receive_window - st_receive_window s),
                    st_receive_window := receive_window\<rparr>)
      else (False, s\<lparr>st_receive_window_shrink_debt := u64_sat_add (st_receive_window_shrink_debt s)
                       (st_receive_window s - receive_window),
                     st_receive_window := receive_window\<rparr>))"

definition set_max_concurrent :: "dir \<Rightarrow> nat \<Rightarrow> streams_state \<Rightarrow> streams_state option" where
  "set_max_concurrent d n s = ensure_remote_streams d
     (s\<lparr>st_flow_control_adjusted := True,
        st_max_concurrent_remote_count := (st_max_concurrent_remote_count s)(d := n)\<rparr>)"

definition max_concurrent :: "dir \<Rightarrow> streams_state \<Rightarrow> nat" where
  "max_concurrent d s = st_allocated_remote_count s d"

definition write_limit :: "streams_state \<Rightarrow> nat" where
  "write_limit s = min (u64_sub (st_max_data s) (st_data_sent s)) (u64_sub (st_send_window s) (st_unacked_data s))"

definition queue_max_stream_id :: "retransmits \<Rightarrow> streams_state \<Rightarrow> bool \<times> retransmits" where
  "queue_max_stream_id pending s =
     fold (\<lambda>d (queued, pending).
        let diff = u64_sub (st_max_remote s d) (st_sent_max_remote s d) in
        if st_max_concurrent_remote_count s d div 8 < diff
        then (True, pending\<lparr>rt_max_stream_id := (rt_max_stream_id pending)(d := True)\<rparr>)
        else (queued, pending)) dir_iter (False, pending)"

definition is_local_unopened :: "stream_id \<Rightarrow> streams_state \<Rightarrow> bool" where
  "is_local_unopened sid s \<longleftrightarrow> st_next s (sid_dir sid) \<le> sid_index sid"

definition validate_receive_id :: "stream_id \<Rightarrow> streams_state \<Rightarrow> transport_error + unit" where
  "validate_receive_id sid s =
     (if st_side s = sid_initiator sid
      then (case sid_dir sid of
              Uni \<Rightarrow> Inl (STREAM_STATE_ERROR ''illegal operation on send-only stream'')
            | Bi \<Rightarrow> if st_next s Bi \<le> sid_index sid then Inl (STREAM_STATE_ERROR ''operation on unopened stream'')
                    else Inr ())
      else if st_max_remote s (sid_dir sid) \<le> sid_index sid then Inl (STREAM_LIMIT_ERROR '''')
      else Inr ())"

definition on_stream_frame :: "bool \<Rightarrow> stream_id \<Rightarrow> streams_state \<Rightarrow> streams_state" where
  "on_stream_frame notify_readable sid s =
     (if sid_initiator sid = st_side s
      then if notify_readable then s\<lparr>st_events := st_events s @ [Readable sid]\<rparr> else s
      else if st_next_remote s (sid_dir sid) \<le> sid_index sid
      then s\<lparr>st_next_remote := (st_next_remote s)(sid_dir sid := u64_add (sid_index sid) 1),
             st_opened := (st_opened s)(sid_dir sid := True)\<rparr>
      else if notify_readable then s\<lparr>st_events := st_events s @ [Readable sid]\<rparr> else s)"

section \<open>Incoming frames\<close>

text \<open>A function that can only panic, inside one that returns a result.\<close>

definition or_panic :: "('s \<Rightarrow> 's option) \<Rightarrow> ('s, 'e failure, unit) op" where
  "or_panic f s = (case f s of None \<Rightarrow> (Inl Panic, s) | Some s \<Rightarrow> (Inr (), s))"

text \<open>\<^verbatim>\<open>self.recv.remove(&id).flatten().unwrap()\<close> and \<^verbatim>\<open>stream_recv_freed\<close>\<close>

definition remove_recv_freed :: "stream_id \<Rightarrow> streams_state \<Rightarrow> streams_state option" where
  "remove_recv_freed sid s = (case st_recv s sid of
      Some (Some r) \<Rightarrow> stream_recv_freed sid r (s\<lparr>st_recv := (st_recv s)(sid := None)\<rparr>)
    | _ \<Rightarrow> None)"

definition st_received :: "stream_frame \<Rightarrow> nat \<Rightarrow> bool streams_op" where
  "st_received f payload_len s =
     (let sid = sf_id f in
      case validate_receive_id sid s of
        Inl e \<Rightarrow> (Inl (Err e), s)
      | Inr _ \<Rightarrow> (case st_recv s sid of
            None \<Rightarrow> (Inr False, s)
          | Some opt \<Rightarrow>
              let rs = get_or_insert_recv (st_stream_receive_window s) opt in
              if \<not> is_receiving rs then (Inr False, put_recv sid rs s)
              else case ingest f payload_len (st_data_recvd s) (st_local_max_data s) rs of
                (Inl e, rs) \<Rightarrow> (Inl e, put_recv sid rs s)
              | (Inr (new_bytes, closed), rs) \<Rightarrow>
                  let s = (put_recv sid rs s)\<lparr>st_data_recvd := u64_sat_add (st_data_recvd s) new_bytes\<rparr> in
                  if \<not> rx_stopped rs then (Inr False, on_stream_frame True sid s)
                  else op_bind (if closed then or_panic (remove_recv_freed sid) else op_ret ()) (\<lambda>_ s.
                         let (transmit, s) = add_read_credits new_bytes s in (Inr transmit, s)) s))"

definition st_received_reset :: "reset_stream \<Rightarrow> bool streams_op" where
  "st_received_reset f s =
     (let sid = rst_id f; final = unat (rst_final_offset f) in
      case validate_receive_id sid s of
        Inl e \<Rightarrow> (Inl (Err e), s)
      | Inr _ \<Rightarrow> (case st_recv s sid of
            None \<Rightarrow> (Inr False, s)
          | Some opt \<Rightarrow>
              let rs = get_or_insert_recv (st_stream_receive_window s) opt in
              case rx_reset (rst_error_code f) final (st_data_recvd s) (st_local_max_data s) rs of
                (Inl e, rs) \<Rightarrow> (Inl (Err e), put_recv sid rs s)
              | (Inr False, rs) \<Rightarrow> (Inr False, put_recv sid rs s)
              | (Inr True, rs) \<Rightarrow>
                  let bytes_read = as_bytes_read (rx_assembler rs) in
                  op_bind (if rx_stopped rs then or_panic (remove_recv_freed sid) else op_ret ()) (\<lambda>_ s.
                    let s = on_stream_frame (\<not> rx_stopped rs) sid s in
                    if bytes_read \<noteq> final
                    then let s = s\<lparr>st_data_recvd := u64_sat_add (st_data_recvd s) (u64_sub final (rx_end rs))\<rparr>;
                             (transmit, s) = add_read_credits (u64_sub final bytes_read) s
                         in (Inr transmit, s)
                    else (Inr False, s)) (put_recv sid rs s)))"

definition received_stop_sending :: "stream_id \<Rightarrow> varint \<Rightarrow> streams_state \<Rightarrow> streams_state" where
  "received_stop_sending sid error_code s =
     (case st_send s sid of
        None \<Rightarrow> s
      | Some opt \<Rightarrow>
          (case tx_try_stop error_code (get_or_insert_send (max_send_data sid s) opt) of
             (True, t) \<Rightarrow>
               let s = put_send sid t s
               in on_stream_frame False sid (s\<lparr>st_events := st_events s @ [Stopped sid error_code]\<rparr>)
           | (False, t) \<Rightarrow> put_send sid t s))"

definition reset_acked :: "stream_id \<Rightarrow> streams_state \<Rightarrow> streams_state option" where
  "reset_acked sid s =
     (case st_send s sid of
        Some (Some t) \<Rightarrow>
          if tx_state t = ResetSent then stream_freed sid SendHalf (s\<lparr>st_send := (st_send s)(sid := None)\<rparr>)
          else Some s
      | _ \<Rightarrow> Some s)"

definition received_max_streams :: "dir \<Rightarrow> nat \<Rightarrow> (streams_state, transport_error, unit) op" where
  "received_max_streams d n s =
     (if max_stream_count < n then (Inl (FRAME_ENCODING_ERROR ''unrepresentable stream limit''), s)
      else if st_max s d < n
      then (Inr (), s\<lparr>st_max := (st_max s)(d := n), st_events := st_events s @ [Available d]\<rparr>)
      else (Inr (), s))"

definition received_max_stream_data :: "stream_id \<Rightarrow> nat \<Rightarrow> (streams_state, transport_error, unit) op" where
  "received_max_stream_data sid offset s =
     (if sid_initiator sid \<noteq> st_side s \<and> sid_dir sid = Uni
      then (Inl (STREAM_STATE_ERROR ''MAX_STREAM_DATA on recv-only stream''), s)
      else case st_send s sid of
        Some opt \<Rightarrow>
          let limit = write_limit s;
              (unblocked, t) = tx_increase_max_data offset (get_or_insert_send (max_send_data sid s) opt);
              s = (if unblocked
                   then if 0 < limit then (put_send sid t s)\<lparr>st_events := st_events s @ [Writable sid]\<rparr>
                        else if \<not> tx_connection_blocked t
                        then (put_send sid (t\<lparr>tx_connection_blocked := True\<rparr>) s)
                               \<lparr>st_connection_blocked := sid # st_connection_blocked s\<rparr>
                        else put_send sid t s
                   else put_send sid t s)
          in (Inr (), on_stream_frame False sid s)
      | None \<Rightarrow>
          if sid_initiator sid = st_side s \<and> is_local_unopened sid s
          then (Inl (STREAM_STATE_ERROR ''MAX_STREAM_DATA on unopened stream''), s)
          else (Inr (), on_stream_frame False sid s))"

section \<open>Acknowledgement and loss\<close>

definition received_ack_of :: "stream_meta \<Rightarrow> streams_state \<Rightarrow> streams_state option" where
  "received_ack_of f s =
     (case st_send s (sm_id f) of
        Some (Some t) \<Rightarrow>
          if tx_is_reset t then Some s
          else let s = s\<lparr>st_unacked_data := u64_sub (st_unacked_data s) (u64_sub (snd (sm_offsets f)) (fst (sm_offsets f)))\<rparr>
               in (case tx_ack f t of
                     None \<Rightarrow> None
                   | Some (False, t) \<Rightarrow> Some (put_send (sm_id f) t s)
                   | Some (True, t) \<Rightarrow> do {
                       s \<leftarrow> stream_freed (sm_id f) SendHalf (s\<lparr>st_send := (st_send s)(sm_id f := None)\<rparr>);
                       Some (s\<lparr>st_events := st_events s @ [Finished (sm_id f)]\<rparr>)
                     })
      | _ \<Rightarrow> Some s)"

definition st_retransmit :: "stream_meta \<Rightarrow> streams_state \<Rightarrow> streams_state" where
  "st_retransmit f s =
     (case st_send s (sm_id f) of
        Some (Some t) \<Rightarrow>
          let s = (if \<not> tx_is_pending t
                   then s\<lparr>st_pending := push_pending (sm_id f) (tx_priority t) (st_pending s)\<rparr> else s)
          in put_send (sm_id f) (t\<lparr>tx_fin_pending := (tx_fin_pending t \<or> sm_fin f),
               tx_pending := sb_retransmit (sm_offsets f) (tx_pending t)\<rparr>) s
      | _ \<Rightarrow> s)"

definition retransmit_0rtt_stream :: "stream_id \<Rightarrow> streams_state \<Rightarrow> streams_state" where
  "retransmit_0rtt_stream sid s =
     (case st_send s sid of
        Some (Some t) \<Rightarrow>
          if sb_is_fully_acked (tx_pending t) \<and> \<not> tx_fin_pending t then s
          else let s = (if \<not> tx_is_pending t
                        then s\<lparr>st_pending := push_pending sid (tx_priority t) (st_pending s)\<rparr> else s)
               in put_send sid (t\<lparr>tx_pending := sb_retransmit_all_for_0rtt (tx_pending t)\<rparr>) s
      | _ \<Rightarrow> s)"

definition st_retransmit_all_for_0rtt :: "streams_state \<Rightarrow> streams_state" where
  "st_retransmit_all_for_0rtt s =
     fold (\<lambda>d s. fold (\<lambda>i. retransmit_0rtt_stream (sid_new Client d i)) [0..<st_next s d] s) dir_iter s"

definition remove_0rtt_stream :: "dir \<Rightarrow> nat \<Rightarrow> streams_state \<Rightarrow> streams_state option" where
  "remove_0rtt_stream d i s =
     (let sid = sid_new (st_side s) d i in
      if st_send s sid = None \<or> d = Bi \<and> st_recv s sid = None then None
      else Some (s\<lparr>st_send := (st_send s)(sid := None),
                   st_recv := (if d = Bi then (st_recv s)(sid := None) else st_recv s)\<rparr>))"

fun remove_0rtt_streams :: "dir \<Rightarrow> nat list \<Rightarrow> streams_state \<Rightarrow> streams_state option" where
  "remove_0rtt_streams d [] s = Some s"
| "remove_0rtt_streams d (i # is) s = do { s \<leftarrow> remove_0rtt_stream d i s; remove_0rtt_streams d is s }"

definition zero_rtt_rejected_dir :: "dir \<Rightarrow> streams_state \<Rightarrow> streams_state option" where
  "zero_rtt_rejected_dir d s = do {
     s \<leftarrow> remove_0rtt_streams d [0..<st_next s d] s;
     Some (s\<lparr>st_next := (st_next s)(d := 0),
       st_sent_max_remote := (if st_flow_control_adjusted s then (st_sent_max_remote s)(d := 0) else st_sent_max_remote s)\<rparr>)
   }"

definition zero_rtt_rejected :: "streams_state \<Rightarrow> streams_state option" where
  "zero_rtt_rejected s = do {
     s \<leftarrow> zero_rtt_rejected_dir Bi s;
     s \<leftarrow> zero_rtt_rejected_dir Uni s;
     Some (s\<lparr>st_pending := pq_clear (st_pending s), st_send_streams := 0, st_data_sent := 0, st_connection_blocked := []\<rparr>)
   }"

section \<open>Events\<close>

fun poll_blocked :: "stream_id list \<Rightarrow> streams_state \<Rightarrow> stream_event option \<times> streams_state" where
  "poll_blocked [] s = (None, s\<lparr>st_connection_blocked := []\<rparr>)"
| "poll_blocked (sid # blocked) s =
     (case st_send s sid of
        Some (Some t) \<Rightarrow>
          let s = put_send sid (t\<lparr>tx_connection_blocked := False\<rparr>) s in
          if tx_is_writable t \<and> tx_offset t < tx_max_data t
          then (Some (Writable sid), s\<lparr>st_connection_blocked := blocked\<rparr>)
          else poll_blocked blocked s
      | _ \<Rightarrow> poll_blocked blocked s)"

definition st_poll :: "streams_state \<Rightarrow> stream_event option \<times> streams_state" where
  "st_poll s =
     (if st_opened s Bi then (Some (Opened Bi), s\<lparr>st_opened := (st_opened s)(Bi := False)\<rparr>)
      else if st_opened s Uni then (Some (Opened Uni), s\<lparr>st_opened := (st_opened s)(Uni := False)\<rparr>)
      else let (e, s) = (if 0 < write_limit s then poll_blocked (st_connection_blocked s) s else (None, s)) in
        case e of
          Some e \<Rightarrow> (Some e, s)
        | None \<Rightarrow> (case st_events s of
              [] \<Rightarrow> (None, s)
            | e # rest \<Rightarrow> (Some e, s\<lparr>st_events := rest\<rparr>)))"

definition can_send_stream_data :: "streams_state \<Rightarrow> bool" where
  "can_send_stream_data s \<longleftrightarrow> list_ex (\<lambda>p. case st_send s (ps_id p) of
      Some (Some t) \<Rightarrow> \<not> tx_is_reset t | _ \<Rightarrow> False) (pq_iter (st_pending s))"

definition open_recv :: "stream_id \<Rightarrow> streams_state \<Rightarrow> recv_stream option" where
  "open_recv sid s = (case st_recv s sid of Some (Some r) \<Rightarrow> as_open_recv r | _ \<Rightarrow> None)"

definition st_can_send_flow_control :: "stream_id \<Rightarrow> streams_state \<Rightarrow> bool" where
  "st_can_send_flow_control sid s =
     (case open_recv sid s of Some rs \<Rightarrow> rx_can_send_flow_control rs | None \<Rightarrow> False)"

section \<open>Outgoing frames\<close>

text \<open>\<^verbatim>\<open>write_control_frames\<close> works on the streams, the frames waiting, the frames written so far and
  the buffer.\<close>

record control_state =
  wc_streams :: streams_state
  wc_pending :: retransmits
  wc_sent :: retransmits
  wc_buf :: bytes

type_synonym control_op = "(control_state, varint_bounds_exceeded failure, unit) op"

definition wc_encode :: "encoder \<Rightarrow> control_op" where
  "wc_encode e c = (case e (wc_buf c) of
      (Inl x, buf) \<Rightarrow> (Inl (Err x), c\<lparr>wc_buf := buf\<rparr>)
    | (Inr _, buf) \<Rightarrow> (Inr (), c\<lparr>wc_buf := buf\<rparr>))"

definition wc_room :: "nat \<Rightarrow> nat \<Rightarrow> control_state \<Rightarrow> bool" where
  "wc_room max_size n c \<longleftrightarrow> length (wc_buf c) + n < max_size"

fun wc_reset_streams :: "nat \<Rightarrow> (stream_id \<times> varint) list \<Rightarrow> control_op" where
  "wc_reset_streams max_size [] c = (Inr (), c)"
| "wc_reset_streams max_size ((sid, error_code) # rest) c =
     (if wc_room max_size (1 + 8 + 8 + 8) c
      then let c = c\<lparr>wc_pending := (wc_pending c)\<lparr>rt_reset_stream := rest\<rparr>\<rparr> in
        case st_send (wc_streams c) sid of
          Some (Some t) \<Rightarrow>
            let c = c\<lparr>wc_sent := (wc_sent c)\<lparr>rt_reset_stream := (sid, error_code) # rt_reset_stream (wc_sent c)\<rparr>\<rparr> in
            if 2 ^ 62 \<le> tx_offset t then (Inl Panic, c)
            else op_bind (wc_encode (rst_try_encode
                   \<lparr>rst_id = sid, rst_error_code = error_code, rst_final_offset = of_nat (tx_offset t)\<rparr>))
                   (\<lambda>_. wc_reset_streams max_size rest) c
        | _ \<Rightarrow> wc_reset_streams max_size rest c
      else (Inr (), c))"

fun wc_stop_sendings :: "nat \<Rightarrow> stop_sending list \<Rightarrow> control_op" where
  "wc_stop_sendings max_size [] c = (Inr (), c)"
| "wc_stop_sendings max_size (f # rest) c =
     (if wc_room max_size (1 + 8 + 8) c
      then op_bind (wc_encode (ss_try_encode f)) (\<lambda>_ c.
             wc_stop_sendings max_size rest
               (c\<lparr>wc_sent := (wc_sent c)\<lparr>rt_stop_sending := f # rt_stop_sending (wc_sent c)\<rparr>\<rparr>))
             (c\<lparr>wc_pending := (wc_pending c)\<lparr>rt_stop_sending := rest\<rparr>\<rparr>)
      else (Inr (), c))"

definition wc_max_data :: "nat \<Rightarrow> control_op" where
  "wc_max_data max_size c =
     (if rt_max_data (wc_pending c) \<and> wc_room max_size 9 c
      then let s = wc_streams c;
               limit = (if st_local_max_data s < 2 ^ 62 then st_local_max_data s else unat varint_max)
           in wc_encode (write_max_data (of_nat limit))
                (c\<lparr>wc_pending := (wc_pending c)\<lparr>rt_max_data := False\<rparr>,
                   wc_streams := (if st_sent_max_data s < limit then s\<lparr>st_sent_max_data := limit\<rparr> else s),
                   wc_sent := (wc_sent c)\<lparr>rt_max_data := True\<rparr>\<rparr>)
      else (Inr (), c))"

fun wc_max_stream_data :: "nat \<Rightarrow> stream_id list \<Rightarrow> control_op" where
  "wc_max_stream_data max_size [] c = (Inr (), c)"
| "wc_max_stream_data max_size (sid # rest) c =
     (if wc_room max_size 17 c
      then let c = c\<lparr>wc_pending := (wc_pending c)\<lparr>rt_max_stream_data := rest\<rparr>\<rparr>; s = wc_streams c in
        case open_recv sid s of
          Some rs \<Rightarrow>
            if \<not> rx_can_send_flow_control rs then wc_max_stream_data max_size rest c
            else let limit = fst (rx_max_stream_data (st_stream_receive_window s) rs)
                 in op_bind (wc_encode (write_max_stream_data sid (of_nat limit)))
                      (\<lambda>_. wc_max_stream_data max_size rest)
                      (c\<lparr>wc_sent := (wc_sent c)\<lparr>rt_max_stream_data := List.insert sid (rt_max_stream_data (wc_sent c))\<rparr>,
                         wc_streams := put_recv sid (record_sent_max_stream_data limit rs) s\<rparr>)
        | None \<Rightarrow> wc_max_stream_data max_size rest c
      else (Inr (), c))"

definition wc_max_streams :: "nat \<Rightarrow> dir \<Rightarrow> control_op" where
  "wc_max_streams max_size d c =
     (if \<not> rt_max_stream_id (wc_pending c) d \<or> max_size \<le> length (wc_buf c) + 9 then (Inr (), c)
      else let s = wc_streams c
           in wc_encode (write_max_streams d (of_nat (st_max_remote s d)))
                (c\<lparr>wc_pending := (wc_pending c)\<lparr>rt_max_stream_id := (rt_max_stream_id (wc_pending c))(d := False)\<rparr>,
                   wc_sent := (wc_sent c)\<lparr>rt_max_stream_id := (rt_max_stream_id (wc_sent c))(d := True)\<rparr>,
                   wc_streams := s\<lparr>st_sent_max_remote := (st_sent_max_remote s)(d := st_max_remote s d)\<rparr>\<rparr>))"

definition write_control_frames :: "nat \<Rightarrow> control_op" where
  "write_control_frames max_size =
     op_bind (\<lambda>c. wc_reset_streams max_size (rt_reset_stream (wc_pending c)) c) (\<lambda>_.
     op_bind (\<lambda>c. wc_stop_sendings max_size (rt_stop_sending (wc_pending c)) c) (\<lambda>_.
     op_bind (wc_max_data max_size) (\<lambda>_.
     op_bind (\<lambda>c. wc_max_stream_data max_size (rt_max_stream_data (wc_pending c)) c) (\<lambda>_.
     op_bind (wc_max_streams max_size Bi) (\<lambda>_. wc_max_streams max_size Uni)))))"

text \<open>\<^verbatim>\<open>StreamMeta::encode\<close> goes on after an encoding error with what was written.\<close>

definition sm_encode :: "stream_meta \<Rightarrow> bool \<Rightarrow> bytes \<Rightarrow> bytes" where
  "sm_encode m length_flag buf = snd (sm_try_encode m length_flag buf)"

lemma sm_encode_longer: "length buf < length (sm_encode m l buf)"
proof -
  define ty :: u64 where "ty = ((0x08 OR (if fst (sm_offsets m) \<noteq> 0 then 0x04 else 0)) OR (if l then 0x02 else 0))
     OR (if sm_fin m then 0x01 else 0)"
  have ty: "ty < 2 ^ 62" by (auto simp: ty_def)
  define es where "es = put (sid_encode (sm_id m)) # (if fst (sm_offsets m) \<noteq> 0 then [write_var (of_nat (fst (sm_offsets m)))] else [])
     @ (if l then [write_var (of_nat (u64_sub (snd (sm_offsets m)) (fst (sm_offsets m))))] else [])"
  have grow: "length w \<le> length (snd (enc_seq es w))" for w
  proof -
    have v: "length w \<le> length (snd (write_var x w))" for x w
      by (auto simp: write_var_def encode_checked_def put_uint_def)
    have p: "length w \<le> length (snd (put (sid_encode x) w))" for x w
      using sidc.encode_append [of x w] by (simp add: put_def)
    have e: "length w \<le> length (snd (enc_seq fs w))" if "\<forall>f \<in> set fs. \<forall>w. length w \<le> length (snd (f w))" for fs w
      using that
    proof (induction fs arbitrary: w)
      case (Cons f fs)
      then have "length w \<le> length (snd (f w))" "\<And>w. length w \<le> length (snd (enc_seq fs w))" by auto
      then show ?case by (auto simp: op_bind_def split: prod.splits sum.splits) (metis le_trans snd_conv)
    qed simp
    show ?thesis by (rule e) (auto simp: es_def v p split: if_splits)
  qed
  have "sm_try_encode m l buf = enc_seq es (buf @ varint_encode ty [])"
    unfolding sm_try_encode_def Let_def ty_def [symmetric] using writesD [OF writes_var [OF ty]] by (simp add: es_def)
  then show ?thesis
    using grow [of "buf @ varint_encode ty []"] varint_nonempty [OF ty] by (simp add: sm_encode_def)
      (metis length_greater_0_conv less_add_same_cancel1 less_le_trans)
qed

text \<open>One round of the loop of \<^verbatim>\<open>write_stream_frames\<close> for the stream that was popped: None is a panic of
  \<^verbatim>\<open>get\<close> or a copying loop that does not end.\<close>

definition write_stream_frame :: "nat \<Rightarrow> bool \<Rightarrow> stream_id \<Rightarrow> send_stream \<Rightarrow> bytes \<Rightarrow> streams_state \<Rightarrow>
    (stream_meta \<times> bytes \<times> streams_state) option" where
  "write_stream_frame max_buf_size fair sid t buf s =
     (let max_len = u64_sub (u64_sub (u64_sub max_buf_size (length buf)) 1) (varint_size sid);
          ((offsets, encode_length), sb) = sb_poll_transmit max_len (tx_pending t);
          fin = (snd offsets = sb_offset sb \<and> (case tx_state t of DataSent _ \<Rightarrow> True | _ \<Rightarrow> False));
          t = t\<lparr>tx_pending := sb, tx_fin_pending := (if fin then False else tx_fin_pending t)\<rparr>;
          s = (put_send sid t s)\<lparr>st_pending := (if tx_is_pending t
                 then (if fair then push_pending else reinsert_pending) sid (tx_priority t) (st_pending s)
                 else st_pending s)\<rparr>;
          meta = \<lparr>sm_id = sid, sm_offsets = offsets, sm_fin = fin\<rparr>
      in do {
        data \<leftarrow> sb_collect sb (fst offsets) (snd offsets);
        Some (meta, sm_encode meta encode_length buf @ data, s)
      })"

lemma write_stream_frame_longer:
  assumes "write_stream_frame m fair sid t buf s = Some (meta, buf', s')"
  shows "length buf < length buf'"
proof -
  from assms obtain enc data where "buf' = sm_encode meta enc buf @ data"
    by (auto simp: write_stream_frame_def Let_def split: prod.splits bind_splits option.splits)
  with sm_encode_longer [of buf meta enc] show ?thesis by simp
qed

function write_stream_frames :: "nat \<Rightarrow> bool \<Rightarrow> bytes \<Rightarrow> streams_state \<Rightarrow> (stream_meta list \<times> bytes \<times> streams_state) option" where
  "write_stream_frames max_buf_size fair buf s =
     (if length buf + (1 + 8 + 8 + 8) < max_buf_size
      then case pq_pop (st_pending s) of
             (None, _) \<Rightarrow> Some ([], buf, s)
           | (Some p, pending) \<Rightarrow>
               let s1 = s\<lparr>st_pending := pending\<rparr> in
               (case st_send s1 (ps_id p) of
                  Some (Some t) \<Rightarrow>
                    if tx_is_reset t then write_stream_frames max_buf_size fair buf s1
                    else (case write_stream_frame max_buf_size fair (ps_id p) t buf s1 of
                            None \<Rightarrow> None
                          | Some (meta, buf', s2) \<Rightarrow> do {
                              (metas, buf'', s3) \<leftarrow> write_stream_frames max_buf_size fair buf' s2;
                              Some (meta # metas, buf'', s3)
                            })
                | _ \<Rightarrow> write_stream_frames max_buf_size fair buf s1)
      else Some ([], buf, s))"
  by pat_completeness auto
termination
proof (relation "inv_image (less_than <*lex*> less_than) (\<lambda>(m, _, buf, s). (m - length buf, pq_len (st_pending s)))", goal_cases)
  case 1
  then show ?case by auto
qed (auto dest!: write_stream_frame_longer pq_pop_len [OF sym])

declare write_stream_frames.simps [simp del]

end
