(* ===== verification/Streams_Api.thy ===== *)
theory Streams_Api
  imports Streams_State
begin

text \<open>
  What the application does with streams (\<^verbatim>\<open>src/src/connection/streams/mod.rs\<close>: \<^verbatim>\<open>Streams\<close>,
  \<^verbatim>\<open>RecvStream\<close>, \<^verbatim>\<open>SendStream\<close>; \<^verbatim>\<open>Chunks\<close> of \<^verbatim>\<open>recv.rs\<close>): opening and accepting, writing, finishing and
  resetting, reading, stopping.  The handles borrow the streams and the frames to retransmit, which
  are passed along here; \<open>conn_closed\<close> is \<^verbatim>\<open>conn_state.is_closed()\<close>.
\<close>

section \<open>Opening and accepting\<close>

definition st_open :: "bool \<Rightarrow> dir \<Rightarrow> streams_state \<Rightarrow> (stream_id option \<times> streams_state) option" where
  "st_open conn_closed d s =
     (if conn_closed then Some (None, s)
      else if st_max s d \<le> st_next s d then Some (None, s)
      else let s = s\<lparr>st_next := (st_next s)(d := u64_add (st_next s d) 1)\<rparr>;
               sid = sid_new (st_side s) d (u64_sub (st_next s d) 1)
           in do {
             s \<leftarrow> st_insert False sid s;
             Some (Some sid, s\<lparr>st_send_streams := u64_add (st_send_streams s) 1\<rparr>)
           })"

definition st_accept :: "dir \<Rightarrow> streams_state \<Rightarrow> stream_id option \<times> streams_state" where
  "st_accept d s =
     (if st_next_remote s d = st_next_reported_remote s d then (None, s)
      else let x = st_next_reported_remote s d
           in (Some (sid_new (side_not (st_side s)) d x),
               s\<lparr>st_next_reported_remote := (st_next_reported_remote s)(d := u64_add x 1),
                 st_send_streams := (if d = Bi then u64_add (st_send_streams s) 1 else st_send_streams s)\<rparr>))"

definition remote_open_streams :: "dir \<Rightarrow> streams_state \<Rightarrow> nat" where
  "remote_open_streams d s = u64_sub (st_next_remote s d) (u64_sub (st_max_remote s d) (st_allocated_remote_count s d))"

section \<open>Sending\<close>

text \<open>None is the value of a write whose source never gives out: see \<^const>\<open>tx_write_loop\<close>.\<close>

definition write_source :: "bool \<Rightarrow> stream_id \<Rightarrow> 's pop_chunk \<Rightarrow> 's \<Rightarrow> streams_state \<Rightarrow>
    ((write_error + written) \<times> 's \<times> streams_state) option" where
  "write_source conn_closed sid pop source s =
     (if conn_closed then Some (Inl WriteBlocked, source, s)
      else let limit = write_limit s in
        case st_send s sid of
          None \<Rightarrow> Some (Inl WriteClosedStream, source, s)
        | Some opt \<Rightarrow>
            let t = get_or_insert_send (max_send_data sid s) opt in
            if limit = 0
            then Some (Inl WriteBlocked, source,
                   if \<not> tx_connection_blocked t
                   then (put_send sid (t\<lparr>tx_connection_blocked := True\<rparr>) s)
                          \<lparr>st_connection_blocked := sid # st_connection_blocked s\<rparr>
                   else put_send sid t s)
            else do {
              (r, source, t') \<leftarrow> tx_write pop source limit t;
              Some (case r of
                  Inl e \<Rightarrow> (Inl e, source, put_send sid t' s)
                | Inr w \<Rightarrow> (Inr w, source,
                    (put_send sid t' s)\<lparr>st_data_sent := u64_add (st_data_sent s) (wr_bytes w),
                      st_unacked_data := u64_add (st_unacked_data s) (wr_bytes w),
                      st_pending := (if \<not> tx_is_pending t then push_pending sid (tx_priority t') (st_pending s)
                                     else st_pending s)\<rparr>))
            })"

definition send_write :: "bool \<Rightarrow> stream_id \<Rightarrow> bytes \<Rightarrow> streams_state \<Rightarrow> ((write_error + nat) \<times> streams_state) option" where
  "send_write conn_closed sid data s = do {
     (r, _, s) \<leftarrow> write_source conn_closed sid slice_pop_chunk data s;
     Some (case r of Inl e \<Rightarrow> Inl e | Inr w \<Rightarrow> Inr (wr_bytes w), s)
   }"

definition send_write_chunks :: "bool \<Rightarrow> stream_id \<Rightarrow> bytes list \<Rightarrow> streams_state \<Rightarrow>
    ((write_error + written) \<times> bytes list \<times> streams_state) option" where
  "send_write_chunks conn_closed sid cs s = do {
     (r, a, s) \<leftarrow> write_source conn_closed sid ba_pop_chunk (ba_from_chunks cs) s;
     Some (r, ba_chunks a, s)
   }"

definition send_stopped :: "stream_id \<Rightarrow> streams_state \<Rightarrow> closed_stream + varint option" where
  "send_stopped sid s = (case st_send s sid of
      Some (Some t) \<Rightarrow> Inr (tx_stop_reason t) | Some None \<Rightarrow> Inr None | None \<Rightarrow> Inl ClosedStream)"

definition send_finish :: "stream_id \<Rightarrow> (streams_state, finish_error, unit) op" where
  "send_finish sid s = (case st_send s sid of
      None \<Rightarrow> (Inl FinishClosedStream, s)
    | Some opt \<Rightarrow>
        let t = get_or_insert_send (max_send_data sid s) opt in
        (case tx_finish t of
           (Inl e, t') \<Rightarrow> (Inl e, put_send sid t' s)
         | (Inr _, t') \<Rightarrow> (Inr (), (put_send sid t' s)
             \<lparr>st_pending := (if \<not> tx_is_pending t then push_pending sid (tx_priority t') (st_pending s)
                             else st_pending s)\<rparr>)))"

definition send_reset :: "stream_id \<Rightarrow> varint \<Rightarrow> (streams_state \<times> retransmits, closed_stream, unit) op" where
  "send_reset sid error_code = (\<lambda>(s, pending). case st_send s sid of
      None \<Rightarrow> (Inl ClosedStream, (s, pending))
    | Some opt \<Rightarrow>
        let t = get_or_insert_send (max_send_data sid s) opt in
        if tx_state t = ResetSent then (Inl ClosedStream, (put_send sid t s, pending))
        else (Inr (), ((put_send sid (tx_reset t) s)
                 \<lparr>st_unacked_data := u64_sub (st_unacked_data s) (sb_unacked (tx_pending t))\<rparr>,
               pending\<lparr>rt_reset_stream := (sid, error_code) # rt_reset_stream pending\<rparr>)))"

definition send_set_priority :: "stream_id \<Rightarrow> int \<Rightarrow> (streams_state, closed_stream, unit) op" where
  "send_set_priority sid priority s = (case st_send s sid of
      None \<Rightarrow> (Inl ClosedStream, s)
    | Some opt \<Rightarrow> (Inr (), put_send sid ((get_or_insert_send (max_send_data sid s) opt)\<lparr>tx_priority := priority\<rparr>) s))"

definition send_priority :: "stream_id \<Rightarrow> streams_state \<Rightarrow> closed_stream + int" where
  "send_priority sid s = (case st_send s sid of
      None \<Rightarrow> Inl ClosedStream | Some None \<Rightarrow> Inr 0 | Some (Some t) \<Rightarrow> Inr (tx_priority t))"

section \<open>Receiving\<close>

text \<open>\<^verbatim>\<open>expect\<close> and \<^verbatim>\<open>unwrap\<close> of a table entry panic, as in the incoming frames.\<close>

definition conn_closed :: "streams_state \<Rightarrow> bool" where
  [simp]: "conn_closed s = False"

definition recv_stop :: "stream_id \<Rightarrow> varint \<Rightarrow> (streams_state \<times> retransmits, closed_stream failure, unit) op" where
  "recv_stop sid error_code = (\<lambda>(s, pending). if conn_closed s then (Inl (Err ClosedStream), (s, pending)) else case st_recv s sid of
      None \<Rightarrow> (Inl (Err ClosedStream), (s, pending))
    | Some opt \<Rightarrow>
        (case rx_stop (get_or_insert_recv (st_stream_receive_window s) opt) of
           (Inl e, rs) \<Rightarrow> (Inl (Err e), (put_recv sid rs s, pending))
         | (Inr (read_credits, stop_sending), rs) \<Rightarrow>
             let pending = (if stop_sending
                   then pending\<lparr>rt_stop_sending := \<lparr>ss_id = sid, ss_error_code = error_code\<rparr> # rt_stop_sending pending\<rparr>
                   else pending);
                 s = put_recv sid rs s in
             (case (if \<not> final_offset_unknown rs then remove_recv_freed sid s else Some s) of
                None \<Rightarrow> (Inl Panic, (s, pending))
              | Some s \<Rightarrow>
                  let (transmit, s) = add_read_credits read_credits s
                  in (Inr (), (s, if transmit then pending\<lparr>rt_max_data := True\<rparr> else pending)))))"

definition recv_received_reset :: "stream_id \<Rightarrow> (streams_state \<times> retransmits, closed_stream failure, varint option) op" where
  "recv_received_reset sid = (\<lambda>(s, pending). if conn_closed s then (Inl (Err ClosedStream), (s, pending)) else case st_recv s sid of
      None \<Rightarrow> (Inl (Err ClosedStream), (s, pending))
    | Some opt \<Rightarrow> (case Option.bind opt as_open_recv of
          None \<Rightarrow> (Inr None, (s, pending))
        | Some rs \<Rightarrow>
            if rx_stopped rs then (Inl (Err ClosedStream), (s, pending))
            else case reset_code rs of
              None \<Rightarrow> (Inr None, (s, pending))
            | Some code \<Rightarrow> (case remove_recv_freed sid s of
                  None \<Rightarrow> (Inl Panic, (s, pending))
                | Some s \<Rightarrow> (Inr (Some code), (s, snd (queue_max_stream_id pending s))))))"

section \<open>Reading\<close>

text \<open>A \<^verbatim>\<open>Chunks\<close> takes the stream out of its table while it is read and puts it back when it is
  finalized.\<close>

datatype chunks_state = CkReadable recv_stream | CkReset varint | CkFinished | CkFinalized

record chunks_reader =
  ck_id :: stream_id
  ck_ordered :: bool
  ck_state :: chunks_state
  ck_read :: nat

datatype readable_error = ReadableClosedStream | ReadableIllegalOrderedRead | ReadableConnectionClosed
datatype read_error = ReadBlocked | ReadReset varint | ReadConnectionClosed

definition chunks_new :: "stream_id \<Rightarrow> bool \<Rightarrow> (streams_state, readable_error, chunks_reader) op" where
  "chunks_new sid ordered s = (case st_recv s sid of
      None \<Rightarrow> (Inl ReadableClosedStream, s)
    | Some opt \<Rightarrow>
        let rs = get_or_insert_recv (st_stream_receive_window s) opt in
        if rx_stopped rs then (Inl ReadableClosedStream, put_recv sid rs s)
        else let s = s\<lparr>st_recv := (st_recv s)(sid := None)\<rparr> in
          case ensure_ordering ordered (rx_assembler rs) of
            (Inl _, _) \<Rightarrow> (Inl ReadableIllegalOrderedRead, s)
          | (Inr _, a) \<Rightarrow> (Inr \<lparr>ck_id = sid, ck_ordered = ordered, ck_state = CkReadable (rs\<lparr>rx_assembler := a\<rparr>),
                                ck_read = 0\<rparr>, s))"

definition recv_read :: "stream_id \<Rightarrow> bool \<Rightarrow> (streams_state, readable_error, chunks_reader) op" where
  "recv_read sid ordered s = (if conn_closed s then (Inl ReadableConnectionClosed, s) else chunks_new sid ordered s)"

definition chunks_next :: "nat \<Rightarrow> (chunks_reader \<times> streams_state, read_error failure, chunk option) op" where
  "chunks_next max_length = (\<lambda>(ck, s). case ck_state ck of
      CkReset error_code \<Rightarrow> (Inl (Err (ReadReset error_code)), (ck, s))
    | CkFinished \<Rightarrow> (Inr None, (ck, s))
    | CkFinalized \<Rightarrow> (Inl Panic, (ck, s))
    | CkReadable rs \<Rightarrow>
        (case asm_read max_length (ck_ordered ck) (rx_assembler rs) of
           (Some c, a) \<Rightarrow> (Inr (Some c), (ck\<lparr>ck_read := u64_add (ck_read ck) (length (ch_bytes c)),
               ck_state := CkReadable (rs\<lparr>rx_assembler := a\<rparr>)\<rparr>, s))
         | (None, a) \<Rightarrow>
             let rs = rs\<lparr>rx_assembler := a\<rparr> in
             (case rx_state rs of
                ResetRecvd _ error_code \<Rightarrow>
                  (case stream_recv_freed (ck_id ck) (OpenRecv rs) s of
                     None \<Rightarrow> (Inl Panic, (ck, s))
                   | Some s \<Rightarrow> (Inl (Err (ReadReset error_code)), (ck\<lparr>ck_state := CkReset error_code\<rparr>, s)))
              | Recv final \<Rightarrow>
                  if final = Some (rx_end rs) \<and> as_bytes_read (rx_assembler rs) = rx_end rs
                  then (case stream_recv_freed (ck_id ck) (OpenRecv rs) s of
                          None \<Rightarrow> (Inl Panic, (ck, s))
                        | Some s \<Rightarrow> (Inr None, (ck\<lparr>ck_state := CkFinished\<rparr>, s)))
                  else (Inl (Err ReadBlocked), (ck\<lparr>ck_state := CkReadable rs\<rparr>, s)))))"

definition chunks_finalize :: "chunks_reader \<Rightarrow> streams_state \<Rightarrow> retransmits \<Rightarrow>
    bool \<times> chunks_reader \<times> streams_state \<times> retransmits" where
  "chunks_finalize ck s pending =
     (if ck_state ck = CkFinalized then (False, ck, s, pending)
      else let (transmit1, pending) = queue_max_stream_id pending s;
               (transmit2, s, pending) = (case ck_state ck of
                   CkReadable rs \<Rightarrow>
                     let more = snd (rx_max_stream_data (st_stream_receive_window s) rs)
                     in (more, put_recv (ck_id ck) rs s,
                         if more then pending\<lparr>rt_max_stream_data := List.insert (ck_id ck) (rt_max_stream_data pending)\<rparr>
                         else pending)
                 | _ \<Rightarrow> (False, s, pending));
               (transmit3, s) = add_read_credits (ck_read ck) s
           in (transmit1 \<or> transmit2 \<or> transmit3, ck\<lparr>ck_state := CkFinalized\<rparr>, s,
               pending\<lparr>rt_max_data := (rt_max_data pending \<or> transmit3)\<rparr>))"

end
