(* ===== verification/Streams_Tables.thy ===== *)
theory Streams_Tables
  imports Streams_Api
begin

text \<open>
  The stream tables of \<^verbatim>\<open>StreamsState\<close>: which identifiers are in them, how many streams of the peer
  are allocated, and that creating, opening and freeing streams keeps the books.  The assertions of
  \<^verbatim>\<open>insert\<close> never fire, and \<^verbatim>\<open>stream_freed\<close> never takes the count below zero.
\<close>

section \<open>Sums over a table\<close>

definition map_total :: "('b option \<Rightarrow> nat) \<Rightarrow> ('a \<rightharpoonup> 'b) \<Rightarrow> nat" where
  "map_total f m = (\<Sum>x\<in>dom m. f (m x))"

lemma map_total_superset: "finite A \<Longrightarrow> dom m \<subseteq> A \<Longrightarrow> f None = 0 \<Longrightarrow> map_total f m = (\<Sum>x\<in>A. f (m x))"
  unfolding map_total_def by (rule sum.mono_neutral_left) (auto simp: dom_def)

lemma map_total_update:
  assumes "finite (dom m)" "f None = 0"
  shows "map_total f (m(x := e)) + f (m x) = map_total f m + f e"
proof -
  let ?A = "insert x (dom m)"
  have "map_total f (m(x := e)) = (\<Sum>y\<in>?A. f ((m(x := e)) y))" "map_total f m = (\<Sum>y\<in>?A. f (m y))"
    using assms by (intro map_total_superset; auto split: if_splits)+
  moreover have "(\<Sum>y\<in>?A - {x}. f ((m(x := e)) y)) = (\<Sum>y\<in>?A - {x}. f (m y))" by (rule sum.cong) auto
  ultimately show ?thesis using assms(1) by (simp add: sum.remove [of ?A x])
qed

lemma map_total_cong:
  assumes "finite (dom m)" "finite (dom m')" "f None = 0" "\<And>x. f (m' x) = f (m x)"
  shows "map_total f m' = map_total f m"
  using map_total_superset [of "dom m \<union> dom m'" m f] map_total_superset [of "dom m \<union> dom m'" m' f] assms by simp

section \<open>The books\<close>

text \<open>An identifier is in use when the stream has been opened, or the peer may open it.\<close>

definition st_used :: "streams_state \<Rightarrow> stream_id \<Rightarrow> bool" where
  "st_used s sid \<longleftrightarrow> sid_index sid < (if sid_initiator sid = st_side s then st_next s (sid_dir sid)
     else st_max_remote s (sid_dir sid))"

text \<open>The streams of the peer in the tables, counting those in \<open>X\<close> as well.\<close>

definition remote_ids :: "stream_id set \<Rightarrow> streams_state \<Rightarrow> dir \<Rightarrow> stream_id set" where
  "remote_ids X s d = {sid \<in> dom (st_send s) \<union> dom (st_recv s) \<union> X. sid_initiator sid \<noteq> st_side s \<and> sid_dir sid = d}"

definition tables_ok :: "stream_id set \<Rightarrow> streams_state \<Rightarrow> bool" where
  "tables_ok X s \<longleftrightarrow> finite (dom (st_send s)) \<and> finite (dom (st_recv s)) \<and> finite X
     \<and> (\<forall>sid\<in>dom (st_send s). st_used s sid \<and> (sid_initiator sid \<noteq> st_side s \<longrightarrow> sid_dir sid = Bi))
     \<and> (\<forall>sid\<in>dom (st_recv s). st_used s sid \<and> (sid_initiator sid = st_side s \<longrightarrow> sid_dir sid = Bi))
     \<and> (\<forall>sid\<in>X. st_used s sid)
     \<and> (\<forall>d. card (remote_ids X s d) \<le> st_allocated_remote_count s d
          \<and> st_allocated_remote_count s d \<le> st_max_remote s d \<and> st_max_remote s d \<le> 2 ^ 60
          \<and> st_next s d \<le> 2 ^ 60 \<and> st_max s d \<le> 2 ^ 60)"

text \<open>There are identifiers left for as many streams as the peer may have open.\<close>

definition ids_left :: "streams_state \<Rightarrow> bool" where
  "ids_left s \<longleftrightarrow> (\<forall>d. st_max_remote s d + st_max_concurrent_remote_count s d \<le> 2 ^ 60)"

text \<open>What the tables invariant reads.\<close>

definition tables_view :: "streams_state \<Rightarrow> side \<times> stream_id set \<times> stream_id set \<times> (dir \<Rightarrow> nat) \<times> (dir \<Rightarrow> nat)
    \<times> (dir \<Rightarrow> nat) \<times> (dir \<Rightarrow> nat)" where
  "tables_view s = (st_side s, dom (st_send s), dom (st_recv s), st_next s, st_max s, st_max_remote s,
     st_allocated_remote_count s)"

lemma st_used_cong: "tables_view s' = tables_view s \<Longrightarrow> st_used s' = st_used s"
  by (simp add: tables_view_def st_used_def fun_eq_iff)

lemma tables_ok_cong:
  assumes "tables_ok X s" "tables_view s' = tables_view s"
  shows "tables_ok X s'"
  using assms st_used_cong [OF assms(2)] by (simp add: tables_ok_def remote_ids_def tables_view_def)

lemma st_used_simps [simp]:
  "st_used (s\<lparr>st_send := m\<rparr>) = st_used s" "st_used (s\<lparr>st_recv := m'\<rparr>) = st_used s"
  "st_used (s\<lparr>st_free_recv := fr\<rparr>) = st_used s" "st_used (s\<lparr>st_allocated_remote_count := c\<rparr>) = st_used s"
  "st_used (s\<lparr>st_send_streams := n\<rparr>) = st_used s"
  by (simp_all add: st_used_def fun_eq_iff)

lemma tables_view_put [simp]:
  "st_send s sid \<noteq> None \<Longrightarrow> tables_view (put_send sid t s) = tables_view s"
  "st_recv s sid \<noteq> None \<Longrightarrow> tables_view (put_recv sid rs s) = tables_view s"
  "tables_view (on_stream_frame b sid s) = tables_view s"
  "tables_view (snd (add_read_credits n s)) = tables_view s"
  by (auto simp: tables_view_def put_send_def put_recv_def on_stream_frame_def add_read_credits_def Let_def)

lemma tables_ok_mono: "tables_ok X s \<Longrightarrow> Y \<subseteq> X \<Longrightarrow> tables_ok Y s"
proof -
  assume ok: "tables_ok X s" and sub: "Y \<subseteq> X"
  have "remote_ids Y s d \<subseteq> remote_ids X s d" "finite (remote_ids X s d)" for d
    using ok sub by (auto simp: remote_ids_def tables_ok_def)
  then have "card (remote_ids Y s d) \<le> card (remote_ids X s d)" for d by (rule card_mono [rotated])
  moreover have "card (remote_ids X s d) \<le> st_allocated_remote_count s d" for d using ok by (simp add: tables_ok_def)
  ultimately have "card (remote_ids Y s d) \<le> st_allocated_remote_count s d" for d by (rule order_trans)
  then show "tables_ok Y s" using ok sub by (auto simp: tables_ok_def intro: finite_subset)
qed

text \<open>A stream that leaves a table is still counted until it is freed.\<close>

lemma tables_ok_remove:
  assumes "tables_ok {} s"
  shows "sid \<in> dom (st_send s) \<Longrightarrow> tables_ok {sid} (s\<lparr>st_send := (st_send s)(sid := None)\<rparr>)"
    and "sid \<in> dom (st_recv s) \<Longrightarrow> tables_ok {sid} (s\<lparr>st_recv := (st_recv s)(sid := None)\<rparr>)"
proof -
  have a: "remote_ids {sid} (s\<lparr>st_send := (st_send s)(sid := None)\<rparr>) d = remote_ids {} s d" if "sid \<in> dom (st_send s)" for d
    using that by (auto simp: remote_ids_def)
  have b: "remote_ids {sid} (s\<lparr>st_recv := (st_recv s)(sid := None)\<rparr>) d = remote_ids {} s d" if "sid \<in> dom (st_recv s)" for d
    using that by (auto simp: remote_ids_def)
  show "sid \<in> dom (st_send s) \<Longrightarrow> tables_ok {sid} (s\<lparr>st_send := (st_send s)(sid := None)\<rparr>)"
    using assms a by (simp add: tables_ok_def)
  show "sid \<in> dom (st_recv s) \<Longrightarrow> tables_ok {sid} (s\<lparr>st_recv := (st_recv s)(sid := None)\<rparr>)"
    using assms b by (simp add: tables_ok_def)
qed

section \<open>New streams\<close>

lemma insert_remotes_fresh:
  assumes "distinct is" "\<forall>i\<in>set is. i < 2 ^ 62"
    and "\<forall>i\<in>set is. sid_new (side_not (st_side s)) d i \<notin> dom (st_send s) \<union> dom (st_recv s)"
  shows "\<exists>R F. insert_remotes d is s = Some (s\<lparr>st_send := (\<lambda>x. if d = Bi \<and> x \<in> sid_new (side_not (st_side s)) d ` set is
        then Some None else st_send s x), st_recv := R, st_free_recv := F\<rparr>)
    \<and> (\<forall>x. x \<notin> sid_new (side_not (st_side s)) d ` set is \<longrightarrow> R x = st_recv s x)
    \<and> (\<forall>x\<in>sid_new (side_not (st_side s)) d ` set is. R x = Some None \<or> (\<exists>r\<in>set (st_free_recv s). R x = Some (Some r)))
    \<and> set F \<subseteq> set (st_free_recv s)"
  using assms
proof (induction "is" arbitrary: s)
  case Nil
  have "s = s\<lparr>st_send := \<lambda>x. st_send s x, st_recv := st_recv s, st_free_recv := st_free_recv s\<rparr>" by simp
  then show ?case by (auto intro!: exI [of _ "st_recv s"] exI [of _ "st_free_recv s"])
next
  case (Cons i "is")
  let ?sid = "\<lambda>i. sid_new (side_not (st_side s)) d i"
  obtain r F1 where rf: "(case st_free_recv s of [] \<Rightarrow> (None, []) | r # rest \<Rightarrow> (Some r, rest)) = (r, F1)" by fastforce
  then have r: "r = None \<or> (\<exists>r'\<in>set (st_free_recv s). r = Some r')" and F1: "set F1 \<subseteq> set (st_free_recv s)"
    by (auto split: list.splits)
  define s1 where "s1 = s\<lparr>st_send := (if d = Bi then (st_send s)(?sid i \<mapsto> None) else st_send s),
     st_free_recv := F1, st_recv := (st_recv s)(?sid i \<mapsto> r)\<rparr>"
  have s1: "st_insert True (?sid i) s = Some s1"
    using Cons.prems(3) rf by (auto simp: st_insert_def s1_def Let_def domIff)
  have new: "?sid j \<noteq> ?sid i" if "j \<in> set is" for j
    using that Cons.prems(1,2) by (auto simp: sid_new_eq_iff)
  have side: "st_side s1 = st_side s" by (simp add: s1_def)
  have "\<forall>j\<in>set is. sid_new (side_not (st_side s1)) d j \<notin> dom (st_send s1) \<union> dom (st_recv s1)"
    using Cons.prems(3) new by (auto simp: s1_def)
  with Cons.IH [of s1] Cons.prems(1,2) obtain R F where
    IH: "insert_remotes d is s1 = Some (s1\<lparr>st_send := (\<lambda>x. if d = Bi \<and> x \<in> ?sid ` set is then Some None else st_send s1 x),
        st_recv := R, st_free_recv := F\<rparr>)"
    and R: "\<forall>x. x \<notin> ?sid ` set is \<longrightarrow> R x = st_recv s1 x"
      "\<forall>x\<in>?sid ` set is. R x = Some None \<or> (\<exists>r\<in>set (st_free_recv s1). R x = Some (Some r))"
    and F: "set F \<subseteq> set (st_free_recv s1)" unfolding side by auto
  have "(\<lambda>x. if d = Bi \<and> x \<in> ?sid ` set is then Some None else st_send s1 x)
      = (\<lambda>x. if d = Bi \<and> x \<in> ?sid ` set (i # is) then Some None else st_send s x)"
    by (auto simp: s1_def fun_eq_iff)
  then have "insert_remotes d (i # is) s = Some (s\<lparr>st_send := (\<lambda>x. if d = Bi \<and> x \<in> ?sid ` set (i # is) then Some None else st_send s x),
      st_recv := R, st_free_recv := F\<rparr>)"
    using s1 IH by (simp add: s1_def)
  moreover have "?sid i \<notin> ?sid ` set is" using new by force
  then have "R (?sid i) = Some r" using R(1) by (simp add: s1_def)
  moreover have "R x = Some None \<or> (\<exists>r\<in>set (st_free_recv s). R x = Some (Some r))" if "x \<in> ?sid ` set is" for x
    using R(2) that F1 by (force simp: s1_def)
  moreover have "x \<notin> ?sid ` set (i # is) \<longrightarrow> R x = st_recv s x" for x using R(1) by (simp add: s1_def)
  ultimately show ?case using F F1 r by (intro exI [of _ R] exI [of _ F]) (auto simp: s1_def)
qed

text \<open>What creating streams of the peer does to everything else: the new entries belong to identifiers
  that were not in use, and reuse freed streams.\<close>

definition st_rest :: "streams_state \<Rightarrow> nat list" where
  "st_rest s = [st_max_data s, st_receive_window s, st_local_max_data s, st_sent_max_data s, st_data_sent s, st_data_recvd s,
     st_unacked_data s, st_send_window s, st_stream_receive_window s, st_initial_max_stream_data_uni s,
     st_initial_max_stream_data_bidi_local s, st_initial_max_stream_data_bidi_remote s, st_receive_window_shrink_debt s]"

definition st_grows :: "streams_state \<Rightarrow> streams_state \<Rightarrow> bool" where
  "st_grows s s' \<longleftrightarrow> st_side s' = st_side s \<and> st_rest s' = st_rest s
     \<and> (\<forall>x. st_used s x \<longrightarrow> st_used s' x)
     \<and> (\<forall>x. st_send s' x = st_send s x \<or> \<not> st_used s x \<and> st_send s' x = Some None)
     \<and> (\<forall>x. st_recv s' x = st_recv s x \<or> \<not> st_used s x \<and> (st_recv s' x = Some None
          \<or> (\<exists>r\<in>set (st_free_recv s). st_recv s' x = Some (Some r))))
     \<and> set (st_free_recv s') \<subseteq> set (st_free_recv s)
     \<and> st_pending s' = st_pending s \<and> st_connection_blocked s' = st_connection_blocked s"

lemma st_grows_refl: "st_grows s s"
  by (simp add: st_grows_def)

lemma remote_ids_bound:
  assumes "tables_ok X s"
  shows "finite (remote_ids X s d)"
  using assms by (simp add: remote_ids_def tables_ok_def)

lemma tables_ok_more:
  assumes ok: "tables_ok X s"
    and same: "st_side s' = st_side s" "st_next s' = st_next s" "st_max s' = st_max s"
    and doms: "dom (st_send s') = dom (st_send s) \<union> (if d = Bi then ids else {})" "dom (st_recv s') = dom (st_recv s) \<union> ids"
    and ids: "finite ids" "card ids \<le> n" "\<And>x. x \<in> ids \<Longrightarrow> sid_initiator x \<noteq> st_side s \<and> sid_dir x = d \<and> st_used s' x"
    and used: "\<And>x. st_used s x \<Longrightarrow> st_used s' x"
    and counts: "st_allocated_remote_count s' = (st_allocated_remote_count s)(d := st_allocated_remote_count s d + n)"
      "st_max_remote s' = (st_max_remote s)(d := st_max_remote s d + n)" "st_max_remote s d + n \<le> 2 ^ 60"
  shows "tables_ok X s'"
proof -
  have ids': "\<forall>x\<in>ids. sid_initiator x \<noteq> st_side s \<and> sid_dir x = d" using ids(3) by blast
  have remote: "remote_ids X s' e = remote_ids X s e \<union> (if e = d then ids else {})" for e
    unfolding remote_ids_def doms same using ids' by (auto split: if_splits)
  have "card (remote_ids X s' e) \<le> st_allocated_remote_count s' e" for e
  proof -
    have "card (remote_ids X s' e) \<le> card (remote_ids X s e) + card (if e = d then ids else {})"
      unfolding remote by (rule card_Un_le)
    also have "\<dots> \<le> st_allocated_remote_count s e + (if e = d then n else 0)"
      using ok ids by (auto simp: tables_ok_def add_mono)
    also have "\<dots> = st_allocated_remote_count s' e" by (simp add: counts)
    finally show ?thesis .
  qed
  moreover have "st_allocated_remote_count s' e \<le> st_max_remote s' e \<and> st_max_remote s' e \<le> 2 ^ 60" for e
    using ok counts by (auto simp: tables_ok_def)
  moreover have "st_used s' x \<and> (sid_initiator x \<noteq> st_side s' \<longrightarrow> sid_dir x = Bi)" if "x \<in> dom (st_send s')" for x
    using that ok ids(3) [of x] used [of x] unfolding doms same by (auto simp: tables_ok_def split: if_splits)
  moreover have "st_used s' x \<and> (sid_initiator x = st_side s' \<longrightarrow> sid_dir x = Bi)" if "x \<in> dom (st_recv s')" for x
    using that ok ids(3) [of x] used [of x] unfolding doms same by (auto simp: tables_ok_def)
  moreover have "finite (dom (st_send s'))" "finite (dom (st_recv s'))" "finite X" "\<forall>x\<in>X. st_used s' x"
      "\<forall>e. st_next s' e \<le> 2 ^ 60 \<and> st_max s' e \<le> 2 ^ 60"
    using ok ids(1) used unfolding doms same by (auto simp: tables_ok_def)
  ultimately show ?thesis by (simp add: tables_ok_def)
qed

lemma map_u64_add_upt:
  assumes "m + n < 2 ^ 64"
  shows "map (u64_add m) [0..<n] = [m..<m + n]"
proof -
  have "map (u64_add m) [0..<n] = map (\<lambda>i. i + m) [0..<n]" using assms by (auto simp: u64_add_eq)
  also have "\<dots> = [m..<n + m]" by (rule map_add_upt)
  finally show ?thesis by (simp add: add.commute)
qed

lemma ensure_remote_streams_ok:
  assumes ok: "tables_ok X s" and room: "st_max_remote s d + st_max_concurrent_remote_count s d \<le> 2 ^ 60"
  shows "\<exists>s'. ensure_remote_streams d s = Some s' \<and> tables_ok X s' \<and> st_grows s s'
    \<and> st_max_concurrent_remote_count s' = st_max_concurrent_remote_count s
    \<and> st_max_concurrent_remote_count s d \<le> st_allocated_remote_count s' d"
proof -
  define n where "n = st_max_concurrent_remote_count s d - st_allocated_remote_count s d"
  define m where "m = st_max_remote s d"
  define ids where "ids = sid_new (side_not (st_side s)) d ` {m..<m + n}"
  have lim: "m + n \<le> 2 ^ 60" "st_allocated_remote_count s d \<le> m" using room ok by (auto simp: n_def m_def tables_ok_def)
  have upt: "map (u64_add m) [0..<n] = [m..<m + n]" by (rule map_u64_add_upt) (use lim in simp)
  have unused: "\<not> st_used s x" if "x \<in> ids" for x
    using that lim by (auto simp: ids_def st_used_def m_def)
  have "\<forall>i\<in>set [m..<m + n]. sid_new (side_not (st_side s)) d i \<notin> dom (st_send s) \<union> dom (st_recv s)"
    using unused ok by (fastforce simp: ids_def tables_ok_def)
  from insert_remotes_fresh [OF distinct_upt _ this, unfolded set_upt, folded ids_def] lim
  obtain R F where ins: "insert_remotes d [m..<m + n] s =
      Some (s\<lparr>st_send := (\<lambda>x. if d = Bi \<and> x \<in> ids then Some None else st_send s x), st_recv := R, st_free_recv := F\<rparr>)"
    and R: "\<forall>x. x \<notin> ids \<longrightarrow> R x = st_recv s x" "\<forall>x\<in>ids. R x = Some None \<or> (\<exists>r\<in>set (st_free_recv s). R x = Some (Some r))"
    and F: "set F \<subseteq> set (st_free_recv s)" by auto
  define s' where "s' = s\<lparr>st_send := (\<lambda>x. if d = Bi \<and> x \<in> ids then Some None else st_send s x), st_recv := R, st_free_recv := F,
     st_allocated_remote_count := (st_allocated_remote_count s)(d := st_allocated_remote_count s d + n),
     st_max_remote := (st_max_remote s)(d := m + n)\<rparr>"
  have eq: "ensure_remote_streams d s = Some s'"
    using ins lim by (simp add: ensure_remote_streams_def Let_def n_def [symmetric] m_def [symmetric] upt s'_def u64_add_eq)
  have doms: "dom (st_send s') = dom (st_send s) \<union> (if d = Bi then ids else {})" "dom (st_recv s') = dom (st_recv s) \<union> ids"
    using R by (auto simp: s'_def dom_def split: if_splits)
  have used: "st_used s x \<Longrightarrow> st_used s' x" and ids_used: "x \<in> ids \<Longrightarrow> st_used s' x" for x
    using lim by (auto simp: st_used_def s'_def m_def ids_def)
  have "finite ids" "card ids \<le> n" by (auto simp: ids_def intro: order_trans [OF card_image_le])
  then have "tables_ok X s'"
    using lim ids_used by (intro tables_ok_more [OF ok _ _ _ doms _ _ _ used, of n]) (auto simp: s'_def m_def ids_def)
  moreover have "st_grows s s'"
    using used unused R F by (auto simp: st_grows_def st_rest_def s'_def)
  ultimately show ?thesis using eq by (auto simp: s'_def n_def)
qed

section \<open>Freed streams\<close>

lemma tables_ok_uncount:
  assumes ok: "tables_ok {sid} s" and sid: "sid_initiator sid \<noteq> st_side s" "sid \<notin> dom (st_send s)" "sid \<notin> dom (st_recv s)"
  defines "n \<equiv> st_allocated_remote_count s (sid_dir sid)"
  shows "tables_ok {} (s\<lparr>st_allocated_remote_count := (st_allocated_remote_count s)(sid_dir sid := n - 1)\<rparr>)" and "0 < n"
proof -
  let ?d = "sid_dir sid"
  have "remote_ids {sid} s ?d = insert sid (remote_ids {} s ?d)" "sid \<notin> remote_ids {} s ?d"
    using sid by (auto simp: remote_ids_def)
  then have "card (remote_ids {} s ?d) + 1 = card (remote_ids {sid} s ?d)"
    using remote_ids_bound [OF tables_ok_mono [OF ok, of "{}"]] by simp
  moreover have le: "card (remote_ids {sid} s ?d) \<le> n" using ok by (simp add: tables_ok_def n_def)
  ultimately have d: "card (remote_ids {} s ?d) \<le> n - 1" "0 < n" by auto
  then show "0 < n" by simp
  note ok0 = tables_ok_mono [OF ok, of "{}", simplified]
  have rem: "remote_ids {} (s\<lparr>st_allocated_remote_count := c\<rparr>) = remote_ids {} s" for c
    by (simp add: remote_ids_def fun_eq_iff)
  have "n - 1 \<le> st_max_remote s ?d" using ok0 by (auto simp: tables_ok_def n_def intro: diff_le_self order_trans)
  then show "tables_ok {} (s\<lparr>st_allocated_remote_count := (st_allocated_remote_count s)(?d := n - 1)\<rparr>)"
    using ok0 d(1) by (simp add: tables_ok_def rem)
qed

definition half_gone :: "stream_id \<Rightarrow> stream_half \<Rightarrow> streams_state \<Rightarrow> bool" where
  "half_gone sid half s \<longleftrightarrow> (case half of SendHalf \<Rightarrow> sid \<notin> dom (st_send s) | RecvHalf \<Rightarrow> sid \<notin> dom (st_recv s))"

lemma stream_freed_ok:
  assumes ok: "tables_ok {sid} s" and room: "ids_left s" and gone: "half_gone sid half s"
    and uni: "sid_dir sid = Uni \<Longrightarrow> sid_initiator sid \<noteq> st_side s \<Longrightarrow> half = RecvHalf"
  shows "\<exists>s'. stream_freed sid half s = Some s' \<and> tables_ok {} s' \<and> st_grows s s'"
proof -
  have adj: "tables_ok {} (s'\<lparr>st_send_streams := n\<rparr>) = tables_ok {} s'" "st_grows s (s'\<lparr>st_send_streams := n\<rparr>) = st_grows s s'" for s' n
    by (simp_all add: tables_ok_def st_grows_def remote_ids_def st_rest_def)
  have "\<exists>s'. (if sid_initiator sid \<noteq> st_side s
          then if sid_dir sid = Uni \<or> (case half of SendHalf \<Rightarrow> st_recv s sid = None | RecvHalf \<Rightarrow> st_send s sid = None)
               then ensure_remote_streams (sid_dir sid)
                      (s\<lparr>st_allocated_remote_count := (st_allocated_remote_count s)
                           (sid_dir sid := u64_sub (st_allocated_remote_count s (sid_dir sid)) 1)\<rparr>)
               else Some s
          else Some s) = Some s' \<and> tables_ok {} s' \<and> st_grows s s'"
  proof (cases "sid_initiator sid \<noteq> st_side s \<and> (sid_dir sid = Uni \<or> (case half of SendHalf \<Rightarrow> st_recv s sid = None | RecvHalf \<Rightarrow> st_send s sid = None))")
    case True
    let ?n = "st_allocated_remote_count s (sid_dir sid)"
    define s1 where "s1 = s\<lparr>st_allocated_remote_count := (st_allocated_remote_count s)(sid_dir sid := ?n - 1)\<rparr>"
    have "sid \<notin> dom (st_send s)" "sid \<notin> dom (st_recv s)"
      using True gone uni ok by (auto simp: half_gone_def tables_ok_def split: stream_half.splits)
    note un = tables_ok_uncount [OF ok _ this, folded s1_def]
    have t1: "tables_ok {} s1" and n: "0 < ?n" using True un by auto
    have room1: "st_max_remote s1 (sid_dir sid) + st_max_concurrent_remote_count s1 (sid_dir sid) \<le> 2 ^ 60"
      using room by (simp add: s1_def ids_left_def)
    have "st_grows s s'" if "st_grows s1 s'" for s'
      using that by (simp add: st_grows_def s1_def st_rest_def)
    then show ?thesis
      using ensure_remote_streams_ok [OF t1 room1] True n by (auto simp: s1_def u64_sub_eq)
  next
    case False
    then show ?thesis using tables_ok_mono [OF ok, of "{}"] by (auto simp: st_grows_refl)
  qed
  then show ?thesis unfolding stream_freed_def by (auto simp: adj)
qed

end
