(* ===== verification/Streams_Receiving.thy ===== *)
theory Streams_Receiving
  imports Streams_Tables
begin

text \<open>
  Receiving on all streams: the invariant of the receiving halves and of connection-level flow control,
  and that incoming frames and the calls of the reading application keep it, keep the tables, do not
  panic, and leave the sending halves alone.
\<close>

section \<open>Invariants\<close>

text \<open>A stream that was freed is like a new one.\<close>

definition slot_ok :: "stream_recv \<Rightarrow> bool" where
  "slot_ok r \<longleftrightarrow> (case r of OpenRecv rs \<Rightarrow> rx_ok rs | FreeRecv rs \<Rightarrow> \<exists>w. rs = rx_new w)"

definition recv_ok :: "streams_state \<Rightarrow> bool" where
  "recv_ok s \<longleftrightarrow> (\<forall>sid r. st_recv s sid = Some (Some r) \<longrightarrow> slot_ok r) \<and> (\<forall>r\<in>set (st_free_recv s). slot_ok r)
     \<and> st_data_recvd s \<le> st_local_max_data s \<and> st_local_max_data s < 2 ^ 64"

text \<open>The sending halves are as before, apart from new streams of the peer.\<close>

definition tx_fields :: "streams_state \<Rightarrow> nat list" where
  "tx_fields s = [st_max_data s, st_data_sent s, st_unacked_data s, st_send_window s, st_initial_max_stream_data_uni s,
     st_initial_max_stream_data_bidi_local s, st_initial_max_stream_data_bidi_remote s]"

definition tx_kept :: "streams_state \<Rightarrow> streams_state \<Rightarrow> bool" where
  "tx_kept s s' \<longleftrightarrow> st_side s' = st_side s \<and> tx_fields s' = tx_fields s \<and> st_pending s' = st_pending s
     \<and> (\<forall>x. st_used s x \<longrightarrow> st_used s' x)
     \<and> (\<forall>x. st_send s' x = st_send s x \<or> \<not> st_used s x \<and> st_send s' x = Some None)"

lemma tx_kept_refl [simp]: "tx_kept s s"
  by (simp add: tx_kept_def)

lemma tx_kept_trans: "tx_kept s1 s2 \<Longrightarrow> tx_kept s2 s3 \<Longrightarrow> tx_kept s1 s3"
  unfolding tx_kept_def by metis

lemma st_grows_kept: "st_grows s s' \<Longrightarrow> tx_kept s s'"
  by (simp add: st_grows_def tx_kept_def st_rest_def tx_fields_def)

lemma recv_ok_grows: "st_grows s s' \<Longrightarrow> recv_ok s \<Longrightarrow> recv_ok s'"
  unfolding st_grows_def recv_ok_def st_rest_def by (auto simp: subset_iff) (metis option.inject option.distinct(1))

lemma recv_ok_frame [simp]: "recv_ok (on_stream_frame b sid s) = recv_ok s"
  by (simp add: recv_ok_def on_stream_frame_def)

lemma tx_kept_simps [simp]:
  "tx_kept s (on_stream_frame b sid s') = tx_kept s s'"
  "tx_kept s (put_recv sid rs s') = tx_kept s s'"
  "tx_kept s (snd (add_read_credits n s')) = tx_kept s s'"
  "tx_kept s (s'\<lparr>st_recv := m\<rparr>) = tx_kept s s'" "tx_kept s (s'\<lparr>st_data_recvd := n\<rparr>) = tx_kept s s'"
  unfolding tx_kept_def
  by (simp_all add: tx_fields_def on_stream_frame_def put_recv_def add_read_credits_def st_used_def Let_def)

lemma recv_ok_put: "recv_ok s \<Longrightarrow> rx_ok rs \<Longrightarrow> recv_ok (put_recv sid rs s)"
  by (auto simp: recv_ok_def put_recv_def slot_ok_def)

lemma recv_ok_get:
  assumes "recv_ok s" "st_recv s sid = Some opt"
  shows "rx_ok (get_or_insert_recv w opt)"
    and "Option.bind opt as_open_recv = None \<Longrightarrow> \<exists>w'. get_or_insert_recv w opt = rx_new w'"
    and "Option.bind opt as_open_recv = Some rs \<Longrightarrow> get_or_insert_recv w opt = rs"
proof -
  have "slot_ok r" if "opt = Some r" for r using assms that by (simp add: recv_ok_def)
  then show "rx_ok (get_or_insert_recv w opt)"
    and "Option.bind opt as_open_recv = None \<Longrightarrow> \<exists>w'. get_or_insert_recv w opt = rx_new w'"
    and "Option.bind opt as_open_recv = Some rs \<Longrightarrow> get_or_insert_recv w opt = rs"
    by (auto simp: get_or_insert_recv_def recv_into_inner_def slot_ok_def as_open_recv_def split: option.splits stream_recv.splits)
qed

lemma add_read_credits_grows:
  "st_local_max_data s < 2 ^ 64 \<Longrightarrow> st_local_max_data s \<le> st_local_max_data (snd (add_read_credits n s))
    \<and> st_local_max_data (snd (add_read_credits n s)) < 2 ^ 64"
  by (auto simp: add_read_credits_def u64_sat_add_def Let_def)

lemma add_read_credits_fields [simp]:
  "st_recv (snd (add_read_credits n s)) = st_recv s" "st_free_recv (snd (add_read_credits n s)) = st_free_recv s"
  "st_data_recvd (snd (add_read_credits n s)) = st_data_recvd s"
  by (simp_all add: add_read_credits_def Let_def)

lemma recv_ok_credits: "recv_ok s \<Longrightarrow> recv_ok (snd (add_read_credits n s))"
  using add_read_credits_grows [of s n] by (simp add: recv_ok_def)

section \<open>Freeing a receiving half\<close>

lemma stream_recv_freed_ok:
  assumes "tables_ok {sid} s" "recv_ok s" "ids_left s" "sid \<notin> dom (st_recv s)"
  shows "\<exists>s'. stream_recv_freed sid (OpenRecv rs) s = Some s' \<and> tables_ok {} s' \<and> recv_ok s' \<and> tx_kept s s'
    \<and> st_rest s' = st_rest s"
proof -
  define s1 where "s1 = s\<lparr>st_free_recv := FreeRecv (rx_reinit (st_stream_receive_window s) rs) # st_free_recv s\<rparr>"
  have "tables_view s1 = tables_view s" by (simp add: s1_def tables_view_def)
  then have t1: "tables_ok {sid} s1" by (rule tables_ok_cong [OF assms(1)])
  have r1: "recv_ok s1" using assms(2) by (auto simp: s1_def recv_ok_def slot_ok_def rx_reinit_def rx_new_def asm_reinit_def asm_new_def)
  have "ids_left s1" "half_gone sid RecvHalf s1" using assms(3,4) by (simp_all add: s1_def ids_left_def half_gone_def)
  from stream_freed_ok [OF t1 this] obtain s' where s': "stream_freed sid RecvHalf s1 = Some s'" "tables_ok {} s'" "st_grows s1 s'"
    by blast
  have "tx_kept s s1" "st_rest s1 = st_rest s" by (simp_all add: s1_def tx_kept_def tx_fields_def st_rest_def)
  then show ?thesis
    using s' recv_ok_grows [OF s'(3) r1] tx_kept_trans [OF _ st_grows_kept [OF s'(3)]]
    by (auto simp: stream_recv_freed_def recv_free_def s1_def [symmetric] st_grows_def)
qed

lemma remove_recv_freed_ok:
  assumes "tables_ok {} s" "recv_ok s" "ids_left s" "st_recv s sid = Some (Some (OpenRecv rs))"
  shows "\<exists>s'. remove_recv_freed sid s = Some s' \<and> tables_ok {} s' \<and> recv_ok s' \<and> tx_kept s s' \<and> st_rest s' = st_rest s"
proof -
  define s1 where "s1 = s\<lparr>st_recv := (st_recv s)(sid := None)\<rparr>"
  have "tables_ok {sid} s1" "recv_ok s1" "ids_left s1" "sid \<notin> dom (st_recv s1)"
    using assms tables_ok_remove(2) [OF assms(1), of sid]
    by (auto simp: s1_def recv_ok_def ids_left_def split: if_splits)
  moreover have k: "tx_kept s s1" "st_rest s1 = st_rest s" by (simp_all add: s1_def st_rest_def)
  ultimately show ?thesis
    using stream_recv_freed_ok [of sid s1 rs] assms(4) tx_kept_trans [OF k(1)]
    by (auto simp: remove_recv_freed_def s1_def [symmetric])
qed

section \<open>Incoming frames\<close>

definition rx_good :: "streams_state \<Rightarrow> streams_state \<Rightarrow> bool" where
  "rx_good s s' \<longleftrightarrow> tables_ok {} s' \<and> recv_ok s' \<and> tx_kept s s'"

lemma rx_good_view:
  assumes "tables_ok {} s" "recv_ok s'" "tx_kept s s'" "tables_view s' = tables_view s"
  shows "rx_good s s'"
  using assms tables_ok_cong [OF assms(1,4)] by (simp add: rx_good_def)

lemma rx_good_trans: "tx_kept s s1 \<Longrightarrow> rx_good s1 s2 \<Longrightarrow> rx_good s s2"
  by (auto simp: rx_good_def intro: tx_kept_trans)

lemma rx_good_credits: "rx_good s s' \<Longrightarrow> rx_good s (snd (add_read_credits n s'))"
  by (auto simp: rx_good_def recv_ok_credits elim: tables_ok_cong)

lemma rx_good_frame: "rx_good s s' \<Longrightarrow> rx_good s (on_stream_frame b sid s')"
  by (auto simp: rx_good_def elim: tables_ok_cong)

lemma tables_view_data_recvd [simp]: "tables_view (s\<lparr>st_data_recvd := n\<rparr>) = tables_view s"
  by (simp add: tables_view_def)

text \<open>The frames the assembler takes without panicking.\<close>

definition frame_fits :: "stream_frame \<Rightarrow> streams_state \<Rightarrow> bool" where
  "frame_fits f s \<longleftrightarrow> unat (sf_offset f) + length (sf_data f) < 2 ^ 64 \<and> st_data_recvd s < 2 ^ 62
     \<and> (sf_data f = [] \<longrightarrow> (case open_recv (sf_id f) s of Some rs \<Rightarrow> as_state (rx_assembler rs) = Ordered | None \<Rightarrow> True))"

lemma remove_recv_freed_good:
  assumes "rx_good s0 s" "ids_left s" "st_recv s sid = Some (Some (OpenRecv rs))"
  shows "\<exists>s'. remove_recv_freed sid s = Some s' \<and> rx_good s0 s' \<and> st_rest s' = st_rest s"
  using remove_recv_freed_ok [of s sid rs] assms by (auto simp: rx_good_def intro: tx_kept_trans)

lemma ingest_stored:
  assumes ok: "tables_ok {} s" "recv_ok s" "st_recv s sid = Some opt" and recvd: "st_data_recvd s < 2 ^ 62"
    and ing: "ingest f n (st_data_recvd s) (st_local_max_data s) (get_or_insert_recv (st_stream_receive_window s) opt) = (Inr (new_bytes, closed), rs)"
    and asm: "asm_ok (rx_assembler rs)"
  shows "rx_good s ((put_recv sid rs s)\<lparr>st_data_recvd := u64_sat_add (st_data_recvd s) new_bytes\<rparr>)"
proof -
  note g = recv_ok_get(1) [OF ok(2,3)]
  have i: "rx_ok rs" "st_data_recvd s + new_bytes \<le> st_local_max_data s"
    using ingest_ok(1,4) [OF ing g] recvd asm by auto
  then have "u64_sat_add (st_data_recvd s) new_bytes = st_data_recvd s + new_bytes"
    using ok(2) by (intro u64_sat_add_eq) (simp add: recv_ok_def)
  then have "recv_ok ((put_recv sid rs s)\<lparr>st_data_recvd := u64_sat_add (st_data_recvd s) new_bytes\<rparr>)"
    using i recv_ok_put [OF ok(2) i(1), of sid] by (simp add: recv_ok_def put_recv_def)
  moreover have "tables_view (put_recv sid rs s) = tables_view s" using ok(3) by simp
  ultimately show ?thesis
    by (intro rx_good_view [OF ok(1)]) simp_all
qed

lemma st_received_ok:
  assumes ok: "tables_ok {} s" "recv_ok s" "ids_left s" and f: "frame_fits f s"
  shows "\<exists>r s'. st_received f n s = (r, s') \<and> r \<noteq> Inl Panic \<and> rx_good s s'"
proof -
  let ?sid = "sf_id f"
  have here: "rx_good s s" using ok by (simp add: rx_good_def)
  have put: "rx_good s (put_recv ?sid rs s)" if "rx_ok rs" "st_recv s ?sid \<noteq> None" for rs
    using that ok by (intro rx_good_view) (auto simp: recv_ok_put)
  show ?thesis
  proof (cases "validate_receive_id ?sid s = Inr () \<and> st_recv s ?sid \<noteq> None")
    case False
    then show ?thesis using here by (auto simp: st_received_def Let_def split: sum.splits)
  next
    case True
    then obtain opt where v: "validate_receive_id ?sid s = Inr ()" and opt: "st_recv s ?sid = Some opt" by auto
    define rs where "rs = get_or_insert_recv (st_stream_receive_window s) opt"
    note g = recv_ok_get [OF ok(2) opt, where w = "st_stream_receive_window s", folded rs_def]
    have "sf_data f \<noteq> [] \<or> as_state (rx_assembler rs) = Ordered"
      using f g(2,3) opt by (cases "Option.bind opt as_open_recv")
        (auto simp: frame_fits_def open_recv_def rx_new_def asm_new_def split: option.splits)
    from ingest_no_panic [OF g(1) _ this, of n "st_data_recvd s" "st_local_max_data s"] f
    obtain r rs' where ing: "ingest f n (st_data_recvd s) (st_local_max_data s) rs = (r, rs')"
      and r: "r \<noteq> Inl Panic" "asm_ok (rx_assembler rs')" by (auto simp: frame_fits_def)
    note unf = st_received_def [of f n s] Let_def v opt rs_def [symmetric] ing
    show ?thesis
    proof (cases "is_receiving rs")
      case False
      then show ?thesis using put [OF g(1)] opt by (simp add: unf)
    next
      case rec: True
      show ?thesis
      proof (cases r)
        case (Inl e)
        with r(1) obtain e' where "e = Err e'" by (cases e) auto
        then have "rs' = rs" using ing Inl ingest_error by blast
        then show ?thesis using put [OF g(1)] opt rec Inl r(1) by (simp add: unf)
      next
        case (Inr x)
        then obtain new_bytes closed where x: "r = Inr (new_bytes, closed)" by (cases x) auto
        define s1 where "s1 = (put_recv ?sid rs' s)\<lparr>st_data_recvd := u64_sat_add (st_data_recvd s) new_bytes\<rparr>"
        have s1: "rx_good s s1" unfolding s1_def
          using ingest_stored [OF ok(1,2) opt _ ing [unfolded x rs_def] r(2)] f by (simp add: frame_fits_def)
        have "ids_left s1" "st_recv s1 ?sid = Some (Some (OpenRecv rs'))"
          using ok(3) by (simp_all add: s1_def put_recv_def ids_left_def)
        from remove_recv_freed_good [OF s1 this] obtain s2 where s2: "remove_recv_freed ?sid s1 = Some s2" "rx_good s s2" by blast
        show ?thesis
          using rec s1 s2 rx_good_credits [OF s1, of new_bytes] rx_good_credits [OF s2(2), of new_bytes] rx_good_frame [OF s1, of True ?sid]
          by (auto simp: unf x s1_def [symmetric] op_bind_def op_ret_def or_panic_def split: prod.splits)
      qed
    qed
  qed
qed

text \<open>A reset whose final size is not below what has been received.  The code only checks this against
  a final size it does not know yet.\<close>

definition reset_fits :: "reset_stream \<Rightarrow> streams_state \<Rightarrow> bool" where
  "reset_fits f s \<longleftrightarrow> unat (rst_final_offset f) < 2 ^ 62 \<and> st_data_recvd s < 2 ^ 62
     \<and> (case open_recv (rst_id f) s of Some rs \<Rightarrow> rx_end rs \<le> unat (rst_final_offset f) | None \<Rightarrow> True)"

lemma rx_reset_keeps:
  assumes "rx_reset code final received max_data rs = (r, rs')" "rx_ok rs"
  shows "rx_ok rs'" "\<And>e. r = Inl e \<Longrightarrow> rs' = rs"
  using assms by (auto simp: rx_reset_def rx_ok_def split: option.splits if_splits sum.splits)

lemma data_recvd_good:
  assumes "rx_good s s'" "st_data_recvd s' + n \<le> st_local_max_data s'"
  shows "rx_good s (s'\<lparr>st_data_recvd := u64_sat_add (st_data_recvd s') n\<rparr>)"
proof -
  have ok: "tables_ok {} s'" "recv_ok s'" "tx_kept s s'" using assms(1) by (simp_all add: rx_good_def)
  then have "u64_sat_add (st_data_recvd s') n = st_data_recvd s' + n"
    using assms(2) by (intro u64_sat_add_eq) (simp add: recv_ok_def)
  then show ?thesis using ok assms(2) by (auto simp: rx_good_def recv_ok_def elim: tables_ok_cong)
qed

lemma on_stream_frame_rest [simp]: "st_rest (on_stream_frame b sid s) = st_rest s" "st_rest (put_recv sid rs s) = st_rest s"
  by (simp_all add: on_stream_frame_def put_recv_def st_rest_def)

lemma st_rest_recv: "st_rest s' = st_rest s \<Longrightarrow> st_data_recvd s' = st_data_recvd s \<and> st_local_max_data s' = st_local_max_data s"
  by (simp add: st_rest_def)

lemma received_reset_tail:
  assumes s0: "rx_good s s0" "ids_left s0" "st_recv s0 sid = Some (Some (OpenRecv rs))"
    and lim: "rx_end rs \<le> final" "final < 2 ^ 62" "st_data_recvd s0 + (final - rx_end rs) \<le> st_local_max_data s0"
  shows "\<exists>r s'. op_bind (if rx_stopped rs then or_panic (remove_recv_freed sid) else op_ret ()) (\<lambda>_ s.
        let s = on_stream_frame (\<not> rx_stopped rs) sid s in
        if bytes_read \<noteq> final
        then let s = s\<lparr>st_data_recvd := u64_sat_add (st_data_recvd s) (u64_sub final (rx_end rs))\<rparr>;
                 (transmit, s) = add_read_credits (u64_sub final bytes_read) s
             in (Inr transmit, s)
        else (Inr False, s)) s0 = (r, s') \<and> (r :: transport_error failure + bool) \<noteq> Inl Panic \<and> rx_good s s'"
proof -
  from remove_recv_freed_good [OF s0] obtain s2 where s2: "remove_recv_freed sid s0 = Some s2" "rx_good s s2" "st_rest s2 = st_rest s0"
    by blast
  obtain s1 where s1: "(if rx_stopped rs then or_panic (remove_recv_freed sid) else op_ret ()) s0 = (Inr () :: transport_error failure + unit, s1)"
    "rx_good s s1"
    "st_rest s1 = st_rest s0"
    using s0(1) s2 by (cases "rx_stopped rs") (auto simp: or_panic_def op_ret_def)
  define s3 where "s3 = on_stream_frame (\<not> rx_stopped rs) sid s1"
  have s3: "rx_good s s3" "st_rest s3 = st_rest s0" using s1 by (simp_all add: s3_def rx_good_frame)
  define s4 where "s4 = s3\<lparr>st_data_recvd := u64_sat_add (st_data_recvd s3) (u64_sub final (rx_end rs))\<rparr>"
  have "rx_good s s4" unfolding s4_def
    using st_rest_recv [OF s3(2)] lim by (intro data_recvd_good [OF s3(1)]) (simp add: u64_sub_eq)
  moreover obtain b s5 where c: "add_read_credits (u64_sub final bytes_read) s4 = (b, s5)" by fastforce
  ultimately have "rx_good s s5" using rx_good_credits [of s s4 "u64_sub final bytes_read"] by simp
  then show ?thesis using s3(1) unfolding op_bind_def s1(1) by (simp add: Let_def s3_def [symmetric] s4_def [symmetric] c)
qed

lemma st_received_reset_ok:
  assumes ok: "tables_ok {} s" "recv_ok s" "ids_left s" and f: "reset_fits f s"
  shows "\<exists>r s'. st_received_reset f s = (r, s') \<and> r \<noteq> Inl Panic \<and> rx_good s s'"
proof -
  let ?sid = "rst_id f" and ?final = "unat (rst_final_offset f)"
  have here: "rx_good s s" using ok by (simp add: rx_good_def)
  have put: "rx_good s (put_recv ?sid rs s)" if "rx_ok rs" "st_recv s ?sid \<noteq> None" for rs
    using that ok by (intro rx_good_view) (auto simp: recv_ok_put)
  show ?thesis
  proof (cases "validate_receive_id ?sid s = Inr () \<and> st_recv s ?sid \<noteq> None")
    case False
    then show ?thesis using here by (auto simp: st_received_reset_def Let_def split: sum.splits)
  next
    case True
    then obtain opt where v: "validate_receive_id ?sid s = Inr ()" and opt: "st_recv s ?sid = Some opt" by auto
    define rs where "rs = get_or_insert_recv (st_stream_receive_window s) opt"
    note g = recv_ok_get [OF ok(2) opt, where w = "st_stream_receive_window s", folded rs_def]
    have le: "rx_end rs \<le> ?final"
      using f g(2,3) opt by (cases "Option.bind opt as_open_recv")
        (auto simp: reset_fits_def open_recv_def rx_new_def split: option.splits)
    obtain r rs' where res: "rx_reset (rst_error_code f) ?final (st_data_recvd s) (st_local_max_data s) rs = (r, rs')" by fastforce
    note keeps = rx_reset_keeps [OF res g(1)]
    note unf = st_received_reset_def [of f s] Let_def v opt rs_def [symmetric] res
    show ?thesis
    proof (cases "r = Inr True")
      case False
      then show ?thesis using put [OF keeps(1)] opt by (cases r) (auto simp: unf)
    next
      case r: True
      have lim: "?final < 2 ^ 62" "rx_end rs' = rx_end rs" "st_data_recvd s + (?final - rx_end rs) \<le> st_local_max_data s"
        using rx_reset_ok(1,7) [OF res [unfolded r]] f by (auto simp: reset_fits_def)
      have "ids_left (put_recv ?sid rs' s)" "st_recv (put_recv ?sid rs' s) ?sid = Some (Some (OpenRecv rs'))"
        "st_data_recvd (put_recv ?sid rs' s) + (?final - rx_end rs') \<le> st_local_max_data (put_recv ?sid rs' s)"
        using ok(3) lim by (simp_all add: put_recv_def ids_left_def)
      from received_reset_tail [OF put [OF keeps(1)] this(1,2) _ lim(1) this(3), unfolded Let_def] opt le lim(2)
      show ?thesis unfolding unf r prod.case sum.case option.case bool.case by simp
    qed
  qed
qed

section \<open>The reading application\<close>

lemma rx_stop_keeps: "rx_stop rs = (r, rs') \<Longrightarrow> rx_ok rs \<Longrightarrow> rx_ok rs'"
  by (auto simp: rx_stop_def rx_ok_def asm_ok_def asm_clear_def Let_def split: if_splits)

lemma recv_stop_ok:
  assumes ok: "tables_ok {} s" "recv_ok s" "ids_left s"
  shows "\<exists>r s' p'. recv_stop sid code (s, p) = (r, (s', p')) \<and> r \<noteq> Inl Panic \<and> rx_good s s'"
proof (cases "st_recv s sid")
  case None
  then show ?thesis using ok by (simp add: recv_stop_def rx_good_def)
next
  case (Some opt)
  obtain r rs where stop: "rx_stop (get_or_insert_recv (st_stream_receive_window s) opt) = (r, rs)" by fastforce
  have rs: "rx_ok rs" using rx_stop_keeps [OF stop recv_ok_get(1) [OF ok(2) Some]] .
  then have put: "rx_good s (put_recv sid rs s)" using ok Some by (intro rx_good_view) (auto simp: recv_ok_put)
  have "ids_left (put_recv sid rs s)" "st_recv (put_recv sid rs s) sid = Some (Some (OpenRecv rs))"
    using ok(3) by (simp_all add: put_recv_def ids_left_def)
  from remove_recv_freed_good [OF put this] obtain s2 where s2: "remove_recv_freed sid (put_recv sid rs s) = Some s2" "rx_good s s2" by blast
  show ?thesis
  proof (cases r)
    case (Inl e)
    then show ?thesis using put Some stop by (simp add: recv_stop_def)
  next
    case (Inr x)
    obtain credits more where x: "x = (credits, more)" by fastforce
    show ?thesis
      using Inr x put s2 Some stop rx_good_credits [OF put, of credits] rx_good_credits [OF s2(2), of credits]
      by (auto simp: recv_stop_def Let_def split: prod.splits)
  qed
qed

lemma recv_received_reset_ok:
  assumes ok: "tables_ok {} s" "recv_ok s" "ids_left s"
  shows "\<exists>r s' p'. recv_received_reset sid (s, p) = (r, (s', p')) \<and> r \<noteq> Inl Panic \<and> rx_good s s'"
proof -
  have here: "rx_good s s" using ok by (simp add: rx_good_def)
  show ?thesis
  proof (cases "\<exists>opt rs. st_recv s sid = Some opt \<and> Option.bind opt as_open_recv = Some rs")
    case False
    then show ?thesis using here by (auto simp: recv_received_reset_def split: option.splits)
  next
    case True
    then obtain opt rs' where "st_recv s sid = Some opt" "Option.bind opt as_open_recv = Some rs'" by blast
    then obtain rs where rs: "st_recv s sid = Some (Some (OpenRecv rs))"
      by (cases opt) (auto simp: as_open_recv_def split: stream_recv.splits)
    with remove_recv_freed_good [OF here ok(3) rs] here show ?thesis
      by (auto simp: recv_received_reset_def as_open_recv_def split: option.splits)
  qed
qed

text \<open>While a stream is read it is in no table but still counted.\<close>

definition ck_ok :: "stream_id \<Rightarrow> streams_state \<Rightarrow> chunks_reader \<times> streams_state \<Rightarrow> bool" where
  "ck_ok sid s0 = (\<lambda>(ck, s). recv_ok s \<and> tx_kept s0 s \<and> ck_id ck = sid \<and> (case ck_state ck of
      CkReadable rs \<Rightarrow> tables_ok {sid} s \<and> ids_left s \<and> sid \<notin> dom (st_recv s) \<and> rx_ok rs
        \<and> (sid_initiator sid = st_side s \<longrightarrow> sid_dir sid = Bi)
    | CkFinalized \<Rightarrow> False
    | _ \<Rightarrow> tables_ok {} s))"

lemma chunks_new_ok:
  assumes ok: "tables_ok {} s" "recv_ok s" "ids_left s"
  shows "case chunks_new sid ordered s of (Inl _, s') \<Rightarrow> rx_good s s' | (Inr ck, s') \<Rightarrow> ck_ok sid s (ck, s')"
proof (cases "st_recv s sid")
  case None
  then show ?thesis using ok by (simp add: chunks_new_def rx_good_def)
next
  case (Some opt)
  define rs where "rs = get_or_insert_recv (st_stream_receive_window s) opt"
  have rs: "rx_ok rs" unfolding rs_def by (rule recv_ok_get(1) [OF ok(2) Some])
  have put: "rx_good s (put_recv sid rs s)" using ok rs Some by (intro rx_good_view) (auto simp: recv_ok_put)
  define s1 where "s1 = s\<lparr>st_recv := (st_recv s)(sid := None)\<rparr>"
  have t1: "tables_ok {sid} s1" using tables_ok_remove(2) [OF ok(1), of sid] Some by (auto simp: s1_def)
  have s1: "recv_ok s1" "tx_kept s s1" "ids_left s1" "sid \<notin> dom (st_recv s1)"
    using ok by (auto simp: s1_def recv_ok_def ids_left_def)
  have bi: "sid_initiator sid = st_side s1 \<longrightarrow> sid_dir sid = Bi" using ok(1) Some by (auto simp: tables_ok_def s1_def)
  obtain r a where o: "ensure_ordering ordered (rx_assembler rs) = (r, a)" by fastforce
  have "rx_ok (rs\<lparr>rx_assembler := a\<rparr>)" using rs ensure_ordering_ok [OF o] by (simp add: rx_ok_def)
  then show ?thesis
    using put s1 t1 bi tables_ok_mono [OF t1, of "{}"] Some o
    by (auto simp: chunks_new_def rs_def [symmetric] s1_def [symmetric] Let_def ck_ok_def rx_good_def split: sum.split)
qed

lemma chunks_next_ok:
  assumes "ck_ok sid s0 x"
  shows "\<exists>r x'. chunks_next n x = (r, x') \<and> r \<noteq> Inl Panic \<and> ck_ok sid s0 x'"
proof -
  obtain ck s where x: "x = (ck, s)" by fastforce
  show ?thesis
  proof (cases "\<exists>rs. ck_state ck = CkReadable rs")
    case False
    then show ?thesis using assms by (auto simp: chunks_next_def ck_ok_def x split: chunks_state.splits)
  next
    case True
    then obtain rs where rs: "ck_state ck = CkReadable rs" by blast
    then have inv: "recv_ok s" "tx_kept s0 s" "ck_id ck = sid" "tables_ok {sid} s" "ids_left s" "sid \<notin> dom (st_recv s)" "rx_ok rs"
        "sid_initiator sid = st_side s \<longrightarrow> sid_dir sid = Bi"
      using assms by (auto simp: ck_ok_def x)
    obtain r a where rd: "asm_read n (ck_ordered ck) (rx_assembler rs) = (r, a)" by fastforce
    have rs': "rx_ok (rs\<lparr>rx_assembler := a\<rparr>)" using inv(7) asm_read_ok [OF rd] by (simp add: rx_ok_def)
    obtain s' where s': "stream_recv_freed sid (OpenRecv (rs\<lparr>rx_assembler := a\<rparr>)) s = Some s'" "tables_ok {} s'" "recv_ok s'" "tx_kept s s'"
      using stream_recv_freed_ok [OF inv(4,1,5,6)] by blast
    have "tx_kept s0 s'" by (rule tx_kept_trans [OF inv(2) s'(4)])
    then show ?thesis
      using inv rs' s' by (auto simp: chunks_next_def x rs rd ck_ok_def Let_def split: option.splits recv_state.splits)
  qed
qed

lemma tables_ok_put_recv:
  assumes "tables_ok {sid} s" "sid_initiator sid = st_side s \<longrightarrow> sid_dir sid = Bi"
  shows "tables_ok {} (put_recv sid rs s)"
proof -
  have "remote_ids {} (put_recv sid rs s) = remote_ids {sid} s"
    by (auto simp: remote_ids_def put_recv_def fun_eq_iff)
  moreover have "st_used (put_recv sid rs s) = st_used s" by (simp add: put_recv_def)
  ultimately show ?thesis using assms by (simp add: tables_ok_def) (simp add: put_recv_def)
qed

lemma chunks_finalize_ok:
  assumes "ck_ok sid s0 (ck, s)"
  shows "rx_good s0 (fst (snd (snd (chunks_finalize ck s p))))"
proof -
  have "rx_good s0 (case ck_state ck of CkReadable rs \<Rightarrow> put_recv (ck_id ck) rs s | _ \<Rightarrow> s)"
    using assms tables_ok_put_recv [of sid s]
    by (auto simp: ck_ok_def rx_good_def recv_ok_put split: chunks_state.splits)
  moreover have "fst (snd (snd (chunks_finalize ck s p))) =
      snd (add_read_credits (ck_read ck) (case ck_state ck of CkReadable rs \<Rightarrow> put_recv (ck_id ck) rs s | _ \<Rightarrow> s))"
    using assms by (auto simp: chunks_finalize_def ck_ok_def Let_def split: chunks_state.splits prod.splits)
  ultimately show ?thesis by (simp add: rx_good_credits)
qed

end
