(* ===== verification/Streams_Sending.thy ===== *)
theory Streams_Sending
  imports Streams_Receiving
begin

text \<open>
  Sending on all streams: each stream's buffer beside its frames in flight, flow control of the peer,
  and the send window.  The amount of unacknowledged data that the connection keeps is exactly the sum
  over its streams, and no stream with something to send is missing from the queue.
\<close>

section \<open>The invariant\<close>

definition metas_of :: "stream_id \<Rightarrow> stream_meta list \<Rightarrow> stream_meta list" where
  "metas_of sid fl = filter (\<lambda>m. sm_id m = sid) fl"

definition flight_of :: "stream_id \<Rightarrow> stream_meta list \<Rightarrow> range list" where
  "flight_of sid fl = map sm_offsets (metas_of sid fl)"

text \<open>A FIN is scheduled or in flight only after the stream was finished.\<close>

definition fin_ok :: "stream_meta list \<Rightarrow> send_stream \<Rightarrow> bool" where
  "fin_ok ms t \<longleftrightarrow> (tx_state t = Ready \<longrightarrow> \<not> tx_fin_pending t \<and> (\<forall>m\<in>set ms. \<not> sm_fin m))
     \<and> (tx_state t = DataSent False \<longrightarrow> tx_fin_pending t \<or> (\<exists>m\<in>set ms. sm_fin m))"

text \<open>A stream with what was written to it and its frames in flight; nothing is known about the buffer
  once the stream has been reset.\<close>

definition tx_ok :: "stream_id \<Rightarrow> bytes \<Rightarrow> stream_meta list \<Rightarrow> send_stream \<Rightarrow> bool" where
  "tx_ok sid w fl t \<longleftrightarrow> tx_offset t \<le> tx_max_data t \<and> tx_max_data t < 2 ^ 62 \<and> fin_ok (metas_of sid fl) t
     \<and> (\<not> tx_is_reset t \<longrightarrow> sy_inv \<lparr>sy_buf = tx_pending t, sy_written = w, sy_flight = flight_of sid fl\<rparr>)"

definition tx_weight :: "send_stream option option \<Rightarrow> nat" where
  "tx_weight e = (case e of Some (Some t) \<Rightarrow> if tx_is_reset t then 0 else sb_unacked (tx_pending t) | _ \<Rightarrow> 0)"

definition queued :: "streams_state \<Rightarrow> stream_id set" where
  "queued s = ps_id ` set (pq_iter (st_pending s))"

definition send_ok :: "(stream_id \<Rightarrow> bytes) \<Rightarrow> stream_meta list \<Rightarrow> streams_state \<Rightarrow> bool" where
  "send_ok w fl s \<longleftrightarrow>
     (\<forall>sid t. st_send s sid = Some (Some t) \<longrightarrow> tx_ok sid (w sid) fl t
        \<and> (tx_is_pending t \<longrightarrow> \<not> tx_is_reset t \<longrightarrow> sid \<in> queued s))
     \<and> (\<forall>sid. \<not> st_used s sid \<or> st_send s sid = Some None \<longrightarrow> w sid = [] \<and> flight_of sid fl = [])
     \<and> st_data_sent s \<le> st_max_data s \<and> st_max_data s < 2 ^ 62
     \<and> st_unacked_data s = map_total tx_weight (st_send s)
     \<and> st_unacked_data s \<le> st_send_window s \<and> st_send_window s < 2 ^ 64
     \<and> st_initial_max_stream_data_uni s < 2 ^ 62 \<and> st_initial_max_stream_data_bidi_local s < 2 ^ 62
     \<and> st_initial_max_stream_data_bidi_remote s < 2 ^ 62"

definition streams_ok :: "(stream_id \<Rightarrow> bytes) \<Rightarrow> stream_meta list \<Rightarrow> streams_state \<Rightarrow> bool" where
  "streams_ok w fl s \<longleftrightarrow> tables_ok {} s \<and> recv_ok s \<and> send_ok w fl s"

lemma tx_weight_None [simp]: "tx_weight None = 0" "tx_weight (Some None) = 0"
  by (simp_all add: tx_weight_def)

text \<open>Operations of the receiving side keep all of it.\<close>

lemma streams_ok_kept:
  assumes "streams_ok w fl s" "tables_ok {} s'" "recv_ok s'" "tx_kept s s'"
  shows "streams_ok w fl s'"
proof -
  have kept: "tx_fields s' = tx_fields s" "st_pending s' = st_pending s" "\<And>x. st_used s x \<Longrightarrow> st_used s' x"
    and send: "\<And>x. st_send s' x = st_send s x \<or> \<not> st_used s x \<and> st_send s' x = Some None"
    using assms(4) by (auto simp: tx_kept_def)
  have fin: "finite (dom (st_send s))" "finite (dom (st_send s'))" using assms(1,2) by (auto simp: streams_ok_def tables_ok_def)
  have new: "st_send s x = None" if "\<not> st_used s x" for x using assms(1) that by (auto simp: streams_ok_def tables_ok_def)
  have "tx_weight (st_send s' x) = tx_weight (st_send s x)" for x using send [of x] new [of x] by auto
  then have total: "map_total tx_weight (st_send s') = map_total tx_weight (st_send s)"
    by (intro map_total_cong fin) auto
  have old: "st_send s x = Some (Some t)" if "st_send s' x = Some (Some t)" for x t using send [of x] that by auto
  have "w x = [] \<and> flight_of x fl = []" if "\<not> st_used s' x \<or> st_send s' x = Some None" for x
    using assms(1) that kept(3) [of x] send [of x] by (auto simp: streams_ok_def send_ok_def)
  then have "send_ok w fl s'"
    using assms(1) total kept(1,2) old by (auto simp: streams_ok_def send_ok_def queued_def tx_fields_def)
  then show ?thesis using assms(2,3) by (simp add: streams_ok_def)
qed

text \<open>What an operation on one sending half leaves alone.\<close>

definition frame_view :: "streams_state \<Rightarrow> side \<times> (stream_id \<rightharpoonup> stream_recv option) \<times> stream_recv list \<times> (dir \<Rightarrow> nat) \<times> (dir \<Rightarrow> nat)
    \<times> (dir \<Rightarrow> nat) \<times> (dir \<Rightarrow> nat) \<times> nat list" where
  "frame_view s = (st_side s, st_recv s, st_free_recv s, st_next s, st_max s, st_max_remote s, st_allocated_remote_count s,
     [st_data_recvd s, st_local_max_data s, st_send_window s, st_initial_max_stream_data_uni s,
      st_initial_max_stream_data_bidi_local s, st_initial_max_stream_data_bidi_remote s])"

lemma streams_ok_put:
  assumes ok: "streams_ok w fl s" and sid: "st_send s sid = Some e"
    and s': "frame_view s' = frame_view s" "st_send s' = (st_send s)(sid \<mapsto> Some t)"
    and t: "tx_ok sid w1 fl' t" "tx_is_pending t \<Longrightarrow> \<not> tx_is_reset t \<Longrightarrow> sid \<in> queued s'"
    and others: "\<And>x. x \<noteq> sid \<Longrightarrow> metas_of x fl' = metas_of x fl" "queued s - {sid} \<subseteq> queued s'"
    and flow: "st_data_sent s' \<le> st_max_data s'" "st_max_data s' < 2 ^ 62" "st_unacked_data s' \<le> st_send_window s'"
      "st_unacked_data s' + tx_weight (Some e) = st_unacked_data s + tx_weight (Some (Some t))"
  shows "streams_ok (w(sid := w1)) fl' s'"
proof -
  have tv: "tables_view s' = tables_view s"
    using s' sid by (auto simp: tables_view_def frame_view_def)
  have tables: "tables_ok {} s'" by (rule tables_ok_cong [OF _ tv]) (use ok in \<open>simp add: streams_ok_def\<close>)
  have used: "st_used s' = st_used s" by (rule st_used_cong [OF tv])
  have recv: "recv_ok s'" using ok s'(1) by (simp add: streams_ok_def recv_ok_def frame_view_def)
  have fin: "finite (dom (st_send s))" "st_used s sid" using ok sid by (auto simp: streams_ok_def tables_ok_def)
  have send: "send_ok w fl s" using ok by (simp add: streams_ok_def)
  have total: "st_unacked_data s' = map_total tx_weight (st_send s')"
    using map_total_update [OF fin(1), of tx_weight sid "Some (Some t)"] send flow(4) unfolding s'(2) send_ok_def sid by simp
  have "tx_ok x ((w(sid := w1)) x) fl' u \<and> (tx_is_pending u \<longrightarrow> \<not> tx_is_reset u \<longrightarrow> x \<in> queued s')"
    if "st_send s' x = Some (Some u)" for x u
  proof (cases "x = sid")
    case False
    then have "st_send s x = Some (Some u)" using that s'(2) by simp
    with send have "tx_ok x (w x) fl u" "tx_is_pending u \<Longrightarrow> \<not> tx_is_reset u \<Longrightarrow> x \<in> queued s" by (auto simp: send_ok_def)
    then show ?thesis using False others by (auto simp: tx_ok_def flight_of_def)
  qed (use that s'(2) t in auto)
  moreover have "(w(sid := w1)) x = [] \<and> flight_of x fl' = []" if "\<not> st_used s' x \<or> st_send s' x = Some None" for x
  proof -
    have "x \<noteq> sid" using that fin(2) used s'(2) by auto
    then show ?thesis using that send others(1) used s'(2) by (auto simp: send_ok_def flight_of_def)
  qed
  ultimately have "send_ok (w(sid := w1)) fl' s'"
    using total flow send s'(1) unfolding send_ok_def frame_view_def by auto
  then show ?thesis using tables recv by (simp add: streams_ok_def)
qed

text \<open>Looking a stream up.\<close>

lemma max_send_data_bound: "send_ok w fl s \<Longrightarrow> max_send_data sid s < 2 ^ 62"
  by (simp add: send_ok_def max_send_data_def split: dir.split)

lemma streams_ok_get:
  assumes "streams_ok w fl s" "st_send s sid = Some opt"
  defines "t \<equiv> get_or_insert_send (max_send_data sid s) opt"
  shows "tx_ok sid (w sid) fl t" "tx_weight (Some opt) = tx_weight (Some (Some t))"
    and "tx_is_pending t \<Longrightarrow> \<not> tx_is_reset t \<Longrightarrow> sid \<in> queued s"
proof -
  have send: "send_ok w fl s" using assms(1) by (simp add: streams_ok_def)
  note lim = max_send_data_bound [OF send, of sid]
  have new: "\<not> tx_is_pending (tx_new n)" "tx_weight (Some (Some (tx_new n))) = 0" for n
    by (simp_all add: tx_is_pending_def tx_new_def sb_has_unsent_data_def sb_new_def btree_is_empty_def btree_new_def
        tx_weight_def sb_unacked_def u64_arith)
  have "tx_ok sid (w sid) fl t \<and> tx_weight (Some opt) = tx_weight (Some (Some t)) \<and> (tx_is_pending t \<longrightarrow> \<not> tx_is_reset t \<longrightarrow> sid \<in> queued s)"
  proof (cases opt)
    case None
    then have "w sid = []" "flight_of sid fl = []" using send assms(2) by (auto simp: send_ok_def)
    then show ?thesis using lim sy_inv_start new None
      by (simp add: t_def get_or_insert_send_def tx_ok_def sb_start_def) (simp add: tx_new_def tx_offset_def sb_new_def fin_ok_def flight_of_def)
  next
    case (Some u)
    then show ?thesis using send assms(2) by (simp add: t_def get_or_insert_send_def send_ok_def)
  qed
  then show "tx_ok sid (w sid) fl t" "tx_weight (Some opt) = tx_weight (Some (Some t))"
    and "tx_is_pending t \<Longrightarrow> \<not> tx_is_reset t \<Longrightarrow> sid \<in> queued s" by auto
qed

section \<open>Operations that leave the buffers alone\<close>

definition send_view :: "streams_state \<Rightarrow> nat list" where
  "send_view s = [st_data_sent s, st_max_data s, st_unacked_data s]"

lemma on_stream_frame_fields [simp]:
  "st_send (on_stream_frame b sid s) = st_send s" "st_pending (on_stream_frame b sid s) = st_pending s"
  "frame_view (on_stream_frame b sid s) = frame_view s" "send_view (on_stream_frame b sid s) = send_view s"
  by (simp_all add: on_stream_frame_def frame_view_def send_view_def)

lemma put_send_fields [simp]:
  "st_send (put_send sid t s) = (st_send s)(sid \<mapsto> Some t)" "st_pending (put_send sid t s) = st_pending s"
  "frame_view (put_send sid t s) = frame_view s" "send_view (put_send sid t s) = send_view s"
  by (simp_all add: put_send_def frame_view_def send_view_def)

lemma view_updates [simp]:
  "frame_view (s\<lparr>st_events := ev\<rparr>) = frame_view s" "send_view (s\<lparr>st_events := ev\<rparr>) = send_view s"
  "frame_view (s\<lparr>st_connection_blocked := cb\<rparr>) = frame_view s" "send_view (s\<lparr>st_connection_blocked := cb\<rparr>) = send_view s"
  "frame_view (s\<lparr>st_pending := pq\<rparr>) = frame_view s" "send_view (s\<lparr>st_pending := pq\<rparr>) = send_view s"
  "frame_view (s\<lparr>st_data_sent := n\<rparr>) = frame_view s" "frame_view (s\<lparr>st_unacked_data := n\<rparr>) = frame_view s"
  "frame_view (s\<lparr>st_max_data := n\<rparr>) = frame_view s"
  by (simp_all add: frame_view_def send_view_def)

lemma queued_push [simp]: "queued (s\<lparr>st_pending := push_pending sid priority (st_pending s)\<rparr>) = insert sid (queued s)"
  by (simp add: queued_def set_pq_push)

lemma streams_ok_view:
  assumes "streams_ok w fl s" "frame_view s' = frame_view s" "send_view s' = send_view s" "st_send s' = st_send s"
    and "\<And>sid t. st_send s sid = Some (Some t) \<Longrightarrow> \<not> tx_is_reset t \<Longrightarrow> sid \<in> queued s \<Longrightarrow> sid \<in> queued s'"
  shows "streams_ok w fl s'"
proof -
  have tv: "tables_view s' = tables_view s" using assms(2,4) by (simp add: tables_view_def frame_view_def)
  have "recv_ok s'" using assms(1,2) by (simp add: streams_ok_def recv_ok_def frame_view_def)
  moreover have "send_ok w fl s'"
    using assms st_used_cong [OF tv] unfolding streams_ok_def send_ok_def send_view_def frame_view_def by auto
  moreover have "tables_ok {} s'" using assms(1) tables_ok_cong [OF _ tv] by (simp add: streams_ok_def)
  ultimately show ?thesis by (simp add: streams_ok_def)
qed

lemma streams_ok_touch:
  assumes ok: "streams_ok w fl s" and sid: "st_send s sid = Some opt"
    and t: "tx_pending t' = tx_pending (get_or_insert_send (max_send_data sid s) opt)"
      "tx_is_reset t' = tx_is_reset (get_or_insert_send (max_send_data sid s) opt)"
      "tx_state t' = tx_state (get_or_insert_send (max_send_data sid s) opt)
        \<and> tx_fin_pending t' = tx_fin_pending (get_or_insert_send (max_send_data sid s) opt)
       \<or> tx_state t' = DataSent False \<and> tx_fin_pending t'"
      "tx_max_data (get_or_insert_send (max_send_data sid s) opt) \<le> tx_max_data t'" "tx_max_data t' < 2 ^ 62"
    and s': "frame_view s' = frame_view s" "send_view s' = send_view s" "st_send s' = (st_send s)(sid \<mapsto> Some t')"
    and q: "queued s \<subseteq> queued s'" "tx_fin_pending t' = tx_fin_pending (get_or_insert_send (max_send_data sid s) opt) \<or> sid \<in> queued s'"
  shows "streams_ok w fl s'"
proof -
  let ?t = "get_or_insert_send (max_send_data sid s) opt"
  note g = streams_ok_get [OF ok sid]
  have "tx_ok sid (w sid) fl t'" using g(1) t by (auto simp: tx_ok_def tx_offset_def fin_ok_def)
  moreover have "tx_is_pending t' \<Longrightarrow> \<not> tx_is_reset t' \<Longrightarrow> sid \<in> queued s'" using g(3) t q by (auto simp: tx_is_pending_def)
  moreover have "tx_weight (Some (Some t')) = tx_weight (Some (Some ?t))" using t by (simp add: tx_weight_def)
  moreover have "send_ok w fl s" using ok by (simp add: streams_ok_def)
  ultimately show ?thesis
    using streams_ok_put [OF ok sid s'(1,3), of "w sid" fl] g(2) q(1) s'(1,2)
    by (auto simp: send_view_def send_ok_def frame_view_def)
qed

lemma send_set_priority_ok: "streams_ok w fl s \<Longrightarrow> streams_ok w fl (snd (send_set_priority sid p s))"
proof (cases "st_send s sid")
  case (Some opt)
  assume ok: "streams_ok w fl s"
  then show ?thesis using Some streams_ok_get(1) [OF ok Some]
    by (intro streams_ok_touch [OF ok Some, of "(get_or_insert_send (max_send_data sid s) opt)\<lparr>tx_priority := p\<rparr>"])
      (auto simp: send_set_priority_def tx_is_reset_def queued_def tx_ok_def)
qed (simp add: send_set_priority_def)

lemma tx_finish_cases:
  assumes "tx_finish t = (r, t')"
  obtains "t' = t" "\<not> (\<exists>u. r = Inr u)" | "r = Inr ()" "t' = t\<lparr>tx_state := DataSent False, tx_fin_pending := True\<rparr>" "\<not> tx_is_reset t"
  using assms by (auto simp: tx_finish_def tx_is_reset_def split: option.splits if_splits)

lemma send_finish_ok:
  assumes ok: "streams_ok w fl s"
  shows "streams_ok w fl (snd (send_finish sid s))"
proof (cases "st_send s sid")
  case (Some opt)
  let ?t = "get_or_insert_send (max_send_data sid s) opt"
  note g = streams_ok_get [OF ok Some]
  obtain r t' where fin: "tx_finish ?t = (r, t')" by fastforce
  from fin show ?thesis
  proof (cases rule: tx_finish_cases)
    case 1
    then have eq: "snd (send_finish sid s) = put_send sid ?t s" using Some fin by (cases r) (auto simp: send_finish_def)
    show ?thesis unfolding eq using g(1) by (intro streams_ok_touch [OF ok Some, of ?t]) (auto simp: queued_def tx_ok_def)
  next
    case 2
    then show ?thesis using Some fin g
      by (intro streams_ok_touch [OF ok Some, of t'])
        (auto simp: send_finish_def tx_is_reset_def queued_def set_pq_push tx_ok_def Let_def)
  qed
qed (simp add: send_finish_def ok)

lemma received_stop_sending_ok:
  assumes ok: "streams_ok w fl s"
  shows "streams_ok w fl (received_stop_sending sid code s)"
proof (cases "st_send s sid")
  case (Some opt)
  let ?t = "get_or_insert_send (max_send_data sid s) opt"
  show ?thesis using Some streams_ok_get(1) [OF ok Some]
    by (intro streams_ok_touch [OF ok Some, of "snd (tx_try_stop code ?t)"])
      (auto simp: received_stop_sending_def tx_try_stop_def tx_is_reset_def queued_def tx_ok_def Let_def)
qed (simp add: received_stop_sending_def ok)

lemma received_max_stream_data_ok:
  assumes ok: "streams_ok w fl s" and n: "n < 2 ^ 62"
  shows "streams_ok w fl (snd (received_max_stream_data sid n s))"
proof (cases "st_send s sid")
  case (Some opt)
  let ?t = "get_or_insert_send (max_send_data sid s) opt"
  obtain b t' where inc: "tx_increase_max_data n ?t = (b, t')" by fastforce
  then have t': "tx_pending t' = tx_pending ?t" "tx_is_reset t' = tx_is_reset ?t" "tx_state t' = tx_state ?t" "tx_fin_pending t' = tx_fin_pending ?t"
      "tx_max_data ?t \<le> tx_max_data t'" "tx_max_data t' < 2 ^ 62"
    using streams_ok_get(1) [OF ok Some] n by (auto simp: tx_increase_max_data_def tx_is_reset_def tx_ok_def split: if_splits)
  have put: "streams_ok w fl s'" if "frame_view s' = frame_view s" "send_view s' = send_view s" "st_pending s' = st_pending s"
    "st_send s' = (st_send s)(sid \<mapsto> Some u)" "u = t' \<or> u = t'\<lparr>tx_connection_blocked := True\<rparr>" for s' u
    using that t' by (intro streams_ok_touch [OF ok Some, of u]) (auto simp: queued_def tx_is_reset_def)
  show ?thesis using Some inc ok
    by (auto simp: received_max_stream_data_def Let_def intro!: put)
next
  case None
  then show ?thesis using ok by (auto simp: received_max_stream_data_def queued_def intro: streams_ok_view)
qed

section \<open>Writing\<close>

lemma sy_inv_extend:
  assumes "sy_inv \<lparr>sy_buf = sb, sy_written = w, sy_flight = fl\<rparr>" "sb_inv (w @ data) sb'" "sb_acks sb' = sb_acks sb"
    "sb_retransmits sb' = sb_retransmits sb" "sb_unsent sb' = sb_unsent sb" "sb_base sb' = sb_base sb"
  shows "sy_inv \<lparr>sy_buf = sb', sy_written = w @ data, sy_flight = fl\<rparr>"
  using assms by (simp add: sy_inv_def sb_places_def sb_acked_def)

lemma write_limit_ok:
  assumes "send_ok w fl s"
  shows "st_data_sent s + write_limit s \<le> st_max_data s" "st_unacked_data s + write_limit s \<le> st_send_window s"
  using assms by (auto simp: send_ok_def write_limit_def u64_sub_eq)

context bytes_source
begin

lemma tx_write_ok:
  assumes t: "tx_ok sid w fl t" and limit: "limit < 2 ^ 62"
  shows "\<exists>r source' t'. tx_write pop source limit t = Some (r, source', t')
    \<and> (case r of Inl _ \<Rightarrow> t' = t
       | Inr wr \<Rightarrow> wr_bytes wr \<le> limit \<and> content source = take (wr_bytes wr) (content source) @ content source'
           \<and> length (take (wr_bytes wr) (content source)) = wr_bytes wr
           \<and> tx_ok sid (w @ take (wr_bytes wr) (content source)) fl t' \<and> \<not> tx_is_reset t' \<and> \<not> tx_is_reset t
           \<and> sb_unacked (tx_pending t') = sb_unacked (tx_pending t) + wr_bytes wr \<and> tx_fin_pending t' = tx_fin_pending t)"
proof (cases "tx_is_writable t \<and> tx_stop_reason t = None \<and> u64_sub (tx_max_data t) (tx_offset t) \<noteq> 0")
  case False
  then show ?thesis by (auto simp: tx_write_def split: option.splits)
next
  case True
  define m where "m = min limit (tx_max_data t - tx_offset t)"
  have off: "tx_offset t \<le> tx_max_data t" "tx_max_data t < 2 ^ 62" and live: "\<not> tx_is_reset t"
    and sy: "sy_inv \<lparr>sy_buf = tx_pending t, sy_written = w, sy_flight = flight_of sid fl\<rparr>"
    using t True by (auto simp: tx_ok_def tx_is_writable_def tx_is_reset_def)
  have sb: "sb_inv w (tx_pending t)" and len: "tx_offset t = length w"
    using sy by (auto simp: sy_inv_def tx_offset_def sb_inv_def)
  have fits: "length w + m < 2 ^ 62" "wr_bytes \<lparr>wr_bytes = 0, wr_chunks = 0\<rparr> + m < 2 ^ 62" using off len limit by (auto simp: m_def)
  obtain wr source' sb' where loop: "tx_write_loop pop m \<lparr>wr_bytes = 0, wr_chunks = 0\<rparr> source (tx_pending t) = Some (wr, source', sb')"
    and cont: "content source = take m (content source) @ content source'"
    and wr: "wr_bytes wr = length (take m (content source))" and sb': "sb_inv (w @ take m (content source)) sb'"
      "sb_acks sb' = sb_acks (tx_pending t)" "sb_retransmits sb' = sb_retransmits (tx_pending t)"
      "sb_unsent sb' = sb_unsent (tx_pending t)" "sb_base sb' = sb_base (tx_pending t)"
    using write_loop_takes [OF sb fits, of source] by auto
  have data: "take (wr_bytes wr) (content source) = take m (content source)" using wr by (auto simp: min_def)
  have "sy_inv \<lparr>sy_buf = sb', sy_written = w @ take m (content source), sy_flight = flight_of sid fl\<rparr>"
    by (rule sy_inv_extend [OF sy sb'])
  moreover have "sb_offset sb' \<le> tx_max_data t" using sb'(1) off(1) len by (auto simp: sb_inv_def m_def)
  ultimately have "tx_ok sid (w @ take m (content source)) fl (t\<lparr>tx_pending := sb'\<rparr>)"
    using off t by (simp add: tx_ok_def tx_offset_def fin_ok_def)
  moreover have "sb_unacked sb' = sb_unacked (tx_pending t) + wr_bytes wr"
    using sb_unacked_write [OF sb sb'(1,2,5)] wr by simp
  moreover have "tx_write pop source limit t = Some (Inr wr, source', t\<lparr>tx_pending := sb'\<rparr>)"
    using True loop off by (simp add: tx_write_def m_def u64_sub_eq Let_def)
  ultimately show ?thesis using live cont wr data by (simp add: tx_is_reset_def) (simp add: m_def)
qed

text \<open>Writing never hangs or panics, takes a prefix of what it is given, and stays within the peer's
  limits and the send window.\<close>

lemma write_source_ok:
  assumes ok: "streams_ok w fl s"
  shows "\<exists>r source' s'. write_source closed sid pop source s = Some (r, source', s')
    \<and> (case r of Inl _ \<Rightarrow> streams_ok w fl s'
       | Inr wr \<Rightarrow> content source = take (wr_bytes wr) (content source) @ content source'
           \<and> streams_ok (w(sid := w sid @ take (wr_bytes wr) (content source))) fl s')"
proof (cases "closed \<or> st_send s sid = None")
  case True
  then show ?thesis using ok by (auto simp: write_source_def)
next
  case False
  then obtain opt where opt: "st_send s sid = Some opt" and open_conn: "\<not> closed" by auto
  define t where "t = get_or_insert_send (max_send_data sid s) opt"
  note g = streams_ok_get [OF ok opt, folded t_def]
  have send: "send_ok w fl s" using ok by (simp add: streams_ok_def)
  note lim = write_limit_ok [OF send]
  have touch: "streams_ok w fl s'" if "st_send s' = (st_send s)(sid \<mapsto> Some t') \<and> frame_view s' = frame_view s \<and> send_view s' = send_view s
      \<and> st_pending s' = st_pending s" "t' = t \<or> t' = t\<lparr>tx_connection_blocked := True\<rparr>" for s' t'
    using that g(1) by (intro streams_ok_touch [OF ok opt, of t']) (auto simp: t_def [symmetric] queued_def tx_is_reset_def tx_ok_def)
  have small: "write_limit s < 2 ^ 62" using lim(1) send by (auto simp: send_ok_def)
  from tx_write_ok [OF g(1) small, of source] obtain r source' t' where
    wr: "tx_write pop source (write_limit s) t = Some (r, source', t')" and
    res: "case r of Inl _ \<Rightarrow> t' = t
       | Inr wr \<Rightarrow> wr_bytes wr \<le> write_limit s \<and> content source = take (wr_bytes wr) (content source) @ content source'
           \<and> length (take (wr_bytes wr) (content source)) = wr_bytes wr
           \<and> tx_ok sid (w sid @ take (wr_bytes wr) (content source)) fl t' \<and> \<not> tx_is_reset t' \<and> \<not> tx_is_reset t
           \<and> sb_unacked (tx_pending t') = sb_unacked (tx_pending t) + wr_bytes wr \<and> tx_fin_pending t' = tx_fin_pending t" by blast
  note unf = write_source_def open_conn opt Let_def t_def [symmetric]
  show ?thesis
  proof (cases "write_limit s = 0")
    case True
    then show ?thesis by (auto simp: unf intro!: touch)
  next
    case pos: False
    show ?thesis
    proof (cases r)
      case (Inl e)
      then show ?thesis using pos wr res by (auto simp: unf intro!: touch)
    next
      case (Inr x)
      define s' where "s' = (put_send sid t' s)\<lparr>st_data_sent := u64_add (st_data_sent s) (wr_bytes x),
         st_unacked_data := u64_add (st_unacked_data s) (wr_bytes x),
         st_pending := (if \<not> tx_is_pending t then push_pending sid (tx_priority t') (st_pending s) else st_pending s)\<rparr>"
      have eq: "write_source closed sid pop source s = Some (Inr x, source', s')"
        using pos wr Inr by (simp add: unf s'_def)
      have le: "st_data_sent s + wr_bytes x \<le> st_max_data s" "st_unacked_data s + wr_bytes x \<le> st_send_window s"
        using lim res Inr by auto
      have flow: "st_data_sent s' = st_data_sent s + wr_bytes x" "st_unacked_data s' = st_unacked_data s + wr_bytes x"
        using le send by (auto simp: s'_def u64_add_eq send_ok_def)
      have "streams_ok (w(sid := w sid @ take (wr_bytes x) (content source))) fl s'"
      proof (rule streams_ok_put [OF ok opt, of s' t'])
        show "st_send s' = (st_send s)(sid \<mapsto> Some t')" "frame_view s' = frame_view s" by (simp_all add: s'_def)
        show "tx_ok sid (w sid @ take (wr_bytes x) (content source)) fl t'" using res Inr by simp
        show "sid \<in> queued s'" using g(3) res Inr by (auto simp: s'_def queued_def set_pq_push)
        show "queued s - {sid} \<subseteq> queued s'" by (auto simp: s'_def queued_def set_pq_push)
        show "st_data_sent s' \<le> st_max_data s'" "st_unacked_data s' \<le> st_send_window s'" "st_max_data s' < 2 ^ 62"
          using le send flow by (simp_all add: s'_def put_send_def send_ok_def)
        show "st_unacked_data s' + tx_weight (Some opt) = st_unacked_data s + tx_weight (Some (Some t'))"
          using g(2) res Inr flow(2) by (simp add: tx_weight_def)
      qed simp
      then show ?thesis using eq res Inr by simp
    qed
  qed
qed

end

section \<open>Resets\<close>

lemma map_total_ge: "finite (dom m) \<Longrightarrow> f None = 0 \<Longrightarrow> f (m x) \<le> map_total f m"
  using map_total_update [of m f x None] by simp

lemma tx_weight_le: "streams_ok w fl s \<Longrightarrow> tx_weight (st_send s sid) \<le> st_unacked_data s"
  using map_total_ge [of "st_send s" tx_weight sid] by (simp add: streams_ok_def send_ok_def tables_ok_def)

lemma send_reset_ok:
  assumes ok: "streams_ok w fl s"
  shows "streams_ok w fl (fst (snd (send_reset sid code (s, p))))"
proof (cases "st_send s sid")
  case None
  then show ?thesis using ok by (simp add: send_reset_def)
next
  case (Some opt)
  define t where "t = get_or_insert_send (max_send_data sid s) opt"
  note g = streams_ok_get [OF ok Some, folded t_def]
  have send: "send_ok w fl s" using ok by (simp add: streams_ok_def)
  show ?thesis
  proof (cases "tx_state t = ResetSent")
    case True
    then have "snd (send_reset sid code (s, p)) = (put_send sid t s, p)"
      using Some by (simp add: send_reset_def t_def [symmetric])
    then show ?thesis using g(1)
      by (auto simp: t_def [symmetric] queued_def tx_ok_def intro!: streams_ok_touch [OF ok Some, of t])
  next
    case False
    define s' where "s' = (put_send sid (tx_reset t) s)\<lparr>st_unacked_data := u64_sub (st_unacked_data s) (sb_unacked (tx_pending t))\<rparr>"
    have t': "tx_reset t = t\<lparr>tx_state := ResetSent\<rparr>" using False by (auto simp: tx_reset_def split: send_state.split)
    have wt: "tx_weight (Some opt) = sb_unacked (tx_pending t)" "tx_weight (Some (Some (tx_reset t))) = 0"
      using False g(2) by (simp_all add: tx_weight_def t' tx_is_reset_def)
    have le: "sb_unacked (tx_pending t) \<le> st_unacked_data s" using tx_weight_le [OF ok, of sid] Some wt by simp
    then have u: "st_unacked_data s' = st_unacked_data s - sb_unacked (tx_pending t)"
      using send by (simp add: s'_def u64_sub_eq send_ok_def)
    have "streams_ok (w(sid := w sid)) fl s'"
    proof (rule streams_ok_put [OF ok Some, of s' "tx_reset t"])
      show "frame_view s' = frame_view s" "st_send s' = (st_send s)(sid \<mapsto> Some (tx_reset t))" by (simp_all add: s'_def)
      show "tx_ok sid (w sid) fl (tx_reset t)" using g(1) by (simp add: tx_ok_def t' tx_is_reset_def tx_offset_def fin_ok_def)
      show "st_data_sent s' \<le> st_max_data s'" "st_max_data s' < 2 ^ 62" "st_unacked_data s' \<le> st_send_window s'"
        using send u by (auto simp: s'_def put_send_def send_ok_def)
      show "st_unacked_data s' + tx_weight (Some opt) = st_unacked_data s + tx_weight (Some (Some (tx_reset t)))"
        using wt u le by simp
    qed (auto simp: s'_def queued_def t' tx_is_reset_def)
    then show ?thesis using Some False by (simp add: send_reset_def t_def [symmetric] s'_def)
  qed
qed

lemma free_send_ok:
  assumes ok: "streams_ok w fl s" and sid: "st_send s sid = Some (Some t)" "tx_weight (st_send s sid) = 0" and room: "ids_left s"
  shows "\<exists>s'. stream_freed sid SendHalf (s\<lparr>st_send := (st_send s)(sid := None)\<rparr>) = Some s' \<and> streams_ok w fl s'"
proof -
  define s1 where "s1 = s\<lparr>st_send := (st_send s)(sid := None)\<rparr>"
  have tab: "tables_ok {} s" and send: "send_ok w fl s" and recv: "recv_ok s" using ok by (auto simp: streams_ok_def)
  have used: "st_used s1 = st_used s" "st_used s sid" using tab sid by (auto simp: s1_def tables_ok_def)
  have tab1: "tables_ok {sid} s1" using tables_ok_remove(1) [OF tab, of sid] sid by (auto simp: s1_def)
  have fin: "finite (dom (st_send s))" using tab by (simp add: tables_ok_def)
  have "map_total tx_weight (st_send s1) = map_total tx_weight (st_send s)"
    using map_total_update [OF fin, of tx_weight sid None] sid(2) by (simp add: s1_def)
  then have "send_ok w fl s1" using send used by (auto simp: send_ok_def s1_def queued_def)
  moreover have recv1: "recv_ok s1" using recv by (simp add: s1_def recv_ok_def)
  ultimately have ok1: "streams_ok w fl s1" using tables_ok_mono [OF tab1, of "{}"] by (simp add: streams_ok_def)
  have uni: "sid_dir sid = Uni \<Longrightarrow> sid_initiator sid \<noteq> st_side s1 \<Longrightarrow> SendHalf = RecvHalf"
    using tab sid by (auto simp: tables_ok_def s1_def)
  have "ids_left s1" "half_gone sid SendHalf s1" using room by (simp_all add: s1_def ids_left_def half_gone_def)
  from stream_freed_ok [OF tab1 this uni] obtain s' where s': "stream_freed sid SendHalf s1 = Some s'" "tables_ok {} s'" "st_grows s1 s'" by auto
  then show ?thesis
    using streams_ok_kept [OF ok1 s'(2) recv_ok_grows [OF s'(3) recv1] st_grows_kept [OF s'(3)]] by (simp add: s1_def)
qed

lemma reset_acked_ok:
  assumes "streams_ok w fl s" "ids_left s"
  shows "\<exists>s'. reset_acked sid s = Some s' \<and> streams_ok w fl s'"
proof (cases "\<exists>t. st_send s sid = Some (Some t) \<and> tx_state t = ResetSent")
  case True
  then obtain t where t: "st_send s sid = Some (Some t)" "tx_state t = ResetSent" by blast
  then show ?thesis using free_send_ok [OF assms(1) t(1) _ assms(2)] by (simp add: reset_acked_def tx_weight_def tx_is_reset_def)
next
  case False
  then show ?thesis using assms(1) by (auto simp: reset_acked_def split: option.splits)
qed

section \<open>Acknowledgement and loss\<close>

lemma sy_inv_mset:
  assumes "sy_inv \<lparr>sy_buf = sb, sy_written = w, sy_flight = fl\<rparr>" "mset fl = mset fl'"
  shows "sy_inv \<lparr>sy_buf = sb, sy_written = w, sy_flight = fl'\<rparr>"
proof -
  have "length (filter P fl') = length (filter P fl)" for P
    using assms(2) by (metis mset_filter size_mset)
  moreover have "set fl' = set fl" using assms(2) by (metis set_mset_mset)
  ultimately show ?thesis using assms(1) by (simp add: sy_inv_def sb_places_def)
qed

lemma flight_of_remove:
  assumes "f \<in> set fl"
  shows "sm_offsets f \<in> set (flight_of (sm_id f) fl)" "f \<in> set (metas_of (sm_id f) fl)"
    and "mset (flight_of (sm_id f) (remove1 f fl)) = mset (remove1 (sm_offsets f) (flight_of (sm_id f) fl))"
    and "x \<noteq> sm_id f \<Longrightarrow> metas_of x (remove1 f fl) = metas_of x fl"
    and "set (metas_of x (remove1 f fl)) \<subseteq> set (metas_of x fl)" "set (metas_of x fl) - {f} \<subseteq> set (metas_of x (remove1 f fl))"
proof -
  show in_fl: "f \<in> set (metas_of (sm_id f) fl)" using assms by (simp add: metas_of_def)
  then show "sm_offsets f \<in> set (flight_of (sm_id f) fl)" by (simp add: flight_of_def)
  have "metas_of (sm_id f) (remove1 f fl) = remove1 f (metas_of (sm_id f) fl)"
    by (simp add: metas_of_def filter_remove1)
  then show "mset (flight_of (sm_id f) (remove1 f fl)) = mset (remove1 (sm_offsets f) (flight_of (sm_id f) fl))"
    using in_fl by (simp add: flight_of_def image_mset_Diff)
  show "metas_of x (remove1 f fl) = metas_of x fl" if "x \<noteq> sm_id f"
    using that by (induction fl) (auto simp: metas_of_def)
  show "set (metas_of x (remove1 f fl)) \<subseteq> set (metas_of x fl)"
    using set_remove1_subset [of f fl] by (auto simp: metas_of_def)
  show "set (metas_of x fl) - {f} \<subseteq> set (metas_of x (remove1 f fl))" by (auto simp: metas_of_def)
qed

lemma fin_ok_reset: "tx_is_reset t \<Longrightarrow> fin_ok ms t"
  by (simp add: tx_is_reset_def fin_ok_def)

lemma streams_ok_forget:
  assumes ok: "streams_ok w fl s" and f: "f \<in> set fl" and gone: "\<And>t. st_send s (sm_id f) = Some (Some t) \<Longrightarrow> tx_is_reset t"
  shows "streams_ok w (remove1 f fl) s"
proof -
  have send: "send_ok w fl s" using ok by (simp add: streams_ok_def)
  have "tx_ok x (w x) (remove1 f fl) t" if "st_send s x = Some (Some t)" for x t
  proof (cases "x = sm_id f")
    case True
    then show ?thesis using send that gone fin_ok_reset by (auto simp: send_ok_def tx_ok_def)
  next
    case False
    then show ?thesis using send that flight_of_remove(4) [OF f] by (auto simp: send_ok_def tx_ok_def flight_of_def)
  qed
  moreover have "flight_of x (remove1 f fl) = []" if "flight_of x fl = []" for x
    using flight_of_remove(5) [OF f, of x] that by (simp add: flight_of_def)
  ultimately show ?thesis using ok by (auto simp: streams_ok_def send_ok_def)
qed

lemma fully_acked_unacked:
  assumes "sb_inv w sb" "sb_is_fully_acked sb"
  shows "sb_unacked sb = 0"
  using assms sb_fully_acked_iff [OF assms(1)] by (simp add: sb_unacked_eq [OF assms(1)])

lemma ack_stream:
  assumes t: "tx_ok (sm_id f) w fl t" "\<not> tx_is_reset t" and f: "f \<in> set fl"
  obtains b t' where "tx_ack f t = Some (b, t')" "tx_ok (sm_id f) w (remove1 f fl) t'" "\<not> tx_is_reset t'"
    "sb_unacked (tx_pending t') + (snd (sm_offsets f) - fst (sm_offsets f)) = sb_unacked (tx_pending t)"
    "fst (sm_offsets f) \<le> snd (sm_offsets f)" "tx_is_pending t' = tx_is_pending t" "b \<Longrightarrow> sb_unacked (tx_pending t') = 0"
proof -
  let ?sy = "\<lparr>sy_buf = tx_pending t, sy_written = w, sy_flight = flight_of (sm_id f) fl\<rparr>"
  have sy: "sy_inv ?sy" using t by (simp add: tx_ok_def)
  have r: "sm_offsets f \<in> set (sy_flight ?sy)" using flight_of_remove(1) [OF f] by simp
  from sb_unacked_ack [OF sy r] obtain sb' where ack: "sb_ack (sm_offsets f) (tx_pending t) = Some sb'"
    and un: "sb_unacked sb' + (snd (sm_offsets f) - fst (sm_offsets f)) = sb_unacked (tx_pending t)"
      "sb_offset sb' = sb_offset (tx_pending t)" "fst (sm_offsets f) \<le> snd (sm_offsets f)" by auto
  have sy': "sy_inv \<lparr>sy_buf = sb', sy_written = w, sy_flight = flight_of (sm_id f) (remove1 f fl)\<rparr>"
    using sy_inv_ack [OF sy r] ack flight_of_remove(3) [OF f] by (auto intro: sy_inv_mset)
  have sb: "sb_inv w (tx_pending t)" and le: "snd (sm_offsets f) \<le> length w"
    using sy r by (auto simp: sy_inv_def sb_inv_def)
  have same: "sb_unsent sb' = sb_unsent (tx_pending t)" "sb_retransmits sb' = sb_retransmits (tx_pending t)"
    using sb_ack_correct [OF sb le] ack by auto
  have full: "sb_is_fully_acked sb' \<Longrightarrow> sb_unacked sb' = 0" using sy' fully_acked_unacked [of w sb'] by (simp add: sy_inv_def)
  obtain b t' where ta: "tx_ack f t = Some (b, t')" and t': "tx_pending t' = sb'" "\<not> tx_is_reset t'"
      "tx_max_data t' = tx_max_data t" "tx_fin_pending t' = tx_fin_pending t" "tx_state t' = Ready \<longleftrightarrow> tx_state t = Ready"
      "tx_state t' = DataSent False \<longleftrightarrow> tx_state t = DataSent False \<and> \<not> sm_fin f" "b \<Longrightarrow> sb_is_fully_acked sb'"
    using ack t(2) by (cases "tx_state t") (auto simp: tx_ack_def tx_is_reset_def Let_def)
  have "fin_ok (metas_of (sm_id f) (remove1 f fl)) t'"
    using t(1) t' flight_of_remove(5,6) [OF f, of "sm_id f"] by (auto simp: tx_ok_def fin_ok_def)
  then have "tx_ok (sm_id f) w (remove1 f fl) t'" using t(1) sy' t' un(2) by (simp add: tx_ok_def tx_offset_def)
  moreover have "tx_is_pending t' = tx_is_pending t"
    using t' same un(2) by (simp add: tx_is_pending_def sb_has_unsent_data_def)
  ultimately show ?thesis using that [OF ta] t' un full by simp
qed

lemma received_ack_of_ok:
  assumes ok: "streams_ok w fl s" and room: "ids_left s" and f: "f \<in> set fl"
  shows "\<exists>s'. received_ack_of f s = Some s' \<and> streams_ok w (remove1 f fl) s'"
proof (cases "\<exists>t. st_send s (sm_id f) = Some (Some t) \<and> \<not> tx_is_reset t")
  case False
  then have "streams_ok w (remove1 f fl) s" by (intro streams_ok_forget [OF ok f]) auto
  then show ?thesis using False by (auto simp: received_ack_of_def split: option.splits)
next
  case True
  then obtain t where t: "st_send s (sm_id f) = Some (Some t)" "\<not> tx_is_reset t" by blast
  let ?sid = "sm_id f" and ?n = "snd (sm_offsets f) - fst (sm_offsets f)"
  have send: "send_ok w fl s" using ok by (simp add: streams_ok_def)
  then have tok: "tx_ok ?sid (w ?sid) fl t" and q: "tx_is_pending t \<Longrightarrow> ?sid \<in> queued s" using t by (auto simp: send_ok_def)
  from ack_stream [OF tok t(2) f] obtain b t' where ta: "tx_ack f t = Some (b, t')" and
    t': "tx_ok ?sid (w ?sid) (remove1 f fl) t'" "\<not> tx_is_reset t'" "sb_unacked (tx_pending t') + ?n = sb_unacked (tx_pending t)"
      "fst (sm_offsets f) \<le> snd (sm_offsets f)" "tx_is_pending t' = tx_is_pending t" "b \<Longrightarrow> sb_unacked (tx_pending t') = 0" by blast
  define s1 where "s1 = s\<lparr>st_unacked_data := u64_sub (st_unacked_data s) (u64_sub (snd (sm_offsets f)) (fst (sm_offsets f)))\<rparr>"
  have "sb_unacked (tx_pending t) \<le> st_unacked_data s" using tx_weight_le [OF ok, of ?sid] t by (simp add: tx_weight_def)
  then have u: "st_unacked_data s1 = st_unacked_data s - ?n" "?n \<le> st_unacked_data s" using t'(3,4) by (auto simp: s1_def u64_sub_eq)
  have "streams_ok (w(?sid := w ?sid)) (remove1 f fl) (put_send ?sid t' s1)"
  proof (rule streams_ok_put [OF ok t(1), of _ t'])
    show "st_unacked_data (put_send ?sid t' s1) + tx_weight (Some (Some t)) = st_unacked_data s + tx_weight (Some (Some t'))"
      using u t t'(2,3) by (simp add: put_send_def tx_weight_def)
    show "st_data_sent (put_send ?sid t' s1) \<le> st_max_data (put_send ?sid t' s1)" "st_max_data (put_send ?sid t' s1) < 2 ^ 62"
      "st_unacked_data (put_send ?sid t' s1) \<le> st_send_window (put_send ?sid t' s1)"
      using send u by (auto simp: put_send_def send_ok_def) (auto simp: s1_def)
    show "metas_of x (remove1 f fl) = metas_of x fl" if "x \<noteq> ?sid" for x using flight_of_remove(4) [OF f that] .
  qed (use t' q t(2) in \<open>auto simp: s1_def queued_def\<close>)
  then have put: "streams_ok w (remove1 f fl) (put_send ?sid t' s1)" by simp
  show ?thesis
  proof (cases b)
    case False
    then show ?thesis using t ta put by (simp add: received_ack_of_def s1_def [symmetric] Let_def)
  next
    case True
    have "ids_left (put_send ?sid t' s1)" using room by (simp add: ids_left_def put_send_def s1_def)
    moreover have "tx_weight (Some (Some t')) = 0" using t'(6) True by (simp add: tx_weight_def)
    ultimately obtain s' where s': "stream_freed ?sid SendHalf (s1\<lparr>st_send := (st_send s1)(?sid := None)\<rparr>) = Some s'"
      "streams_ok w (remove1 f fl) s'"
      using free_send_ok [OF put, of ?sid t'] by (auto simp: put_send_def)
    have "streams_ok w (remove1 f fl) (s'\<lparr>st_events := st_events s' @ [Finished ?sid]\<rparr>)"
      by (rule streams_ok_view [OF s'(2)]) (simp_all add: queued_def)
    then show ?thesis using t ta True s' by (simp add: received_ack_of_def s1_def [symmetric] Let_def)
  qed
qed

lemma st_retransmit_ok:
  assumes ok: "streams_ok w fl s" and f: "f \<in> set fl"
  shows "streams_ok w (remove1 f fl) (st_retransmit f s)"
proof (cases "\<exists>t. st_send s (sm_id f) = Some (Some t)")
  case False
  then have "streams_ok w (remove1 f fl) s" by (intro streams_ok_forget [OF ok f]) auto
  then show ?thesis using False by (auto simp: st_retransmit_def split: option.splits)
next
  case True
  then obtain t where t: "st_send s (sm_id f) = Some (Some t)" by blast
  let ?sid = "sm_id f"
  have send: "send_ok w fl s" using ok by (simp add: streams_ok_def)
  then have tok: "tx_ok ?sid (w ?sid) fl t" and q: "tx_is_pending t \<Longrightarrow> \<not> tx_is_reset t \<Longrightarrow> ?sid \<in> queued s"
    using t by (auto simp: send_ok_def)
  define t' where "t' = t\<lparr>tx_fin_pending := (tx_fin_pending t \<or> sm_fin f), tx_pending := sb_retransmit (sm_offsets f) (tx_pending t)\<rparr>"
  define s' where "s' = st_retransmit f s"
  have unacked: "sb_unacked (sb_retransmit r sb) = sb_unacked sb" for r sb by (simp add: sb_retransmit_def sb_unacked_def)
  have "sy_inv \<lparr>sy_buf = tx_pending t', sy_written = w ?sid, sy_flight = flight_of ?sid (remove1 f fl)\<rparr>" if "\<not> tx_is_reset t"
  proof -
    have "sy_inv \<lparr>sy_buf = tx_pending t, sy_written = w ?sid, sy_flight = flight_of ?sid fl\<rparr>" using tok that by (simp add: tx_ok_def)
    from sy_inv_lose [OF this, of "sm_offsets f"] flight_of_remove(1,3) [OF f] show ?thesis
      by (auto simp: t'_def intro: sy_inv_mset)
  qed
  moreover have "fin_ok (metas_of ?sid (remove1 f fl)) t'"
    using tok flight_of_remove(2) [OF f] flight_of_remove(5,6) [OF f, of ?sid] by (auto simp: tx_ok_def fin_ok_def t'_def)
  ultimately have t'_ok: "tx_ok ?sid (w ?sid) (remove1 f fl) t'"
    using tok by (auto simp: tx_ok_def t'_def tx_is_reset_def tx_offset_def sb_retransmit_def)
  have "streams_ok (w(?sid := w ?sid)) (remove1 f fl) s'"
  proof (rule streams_ok_put [OF ok t, of s' t'])
    show "st_unacked_data s' + tx_weight (Some (Some t)) = st_unacked_data s + tx_weight (Some (Some t'))"
      using t by (simp add: s'_def st_retransmit_def put_send_def Let_def tx_weight_def t'_def tx_is_reset_def unacked)
    show "st_data_sent s' \<le> st_max_data s'" "st_max_data s' < 2 ^ 62" "st_unacked_data s' \<le> st_send_window s'"
      using send t by (simp_all add: s'_def st_retransmit_def put_send_def Let_def send_ok_def)
    show "metas_of x (remove1 f fl) = metas_of x fl" if "x \<noteq> ?sid" for x using flight_of_remove(4) [OF f that] .
    show "?sid \<in> queued s'" if "\<not> tx_is_reset t'"
      using q that t by (auto simp: s'_def st_retransmit_def Let_def queued_def set_pq_push t'_def tx_is_reset_def)
    show "queued s - {?sid} \<subseteq> queued s'" using t by (auto simp: s'_def st_retransmit_def Let_def queued_def set_pq_push)
  qed (use t t'_ok in \<open>auto simp: s'_def st_retransmit_def Let_def t'_def\<close>)
  then show ?thesis by (simp add: s'_def)
qed

end
