(* ===== verification/Streams_Transmit.thy ===== *)
theory Streams_Transmit
  imports Streams_Sending Frame_Payload
begin

text \<open>
  Putting stream data into packets: \<^verbatim>\<open>write_stream_frames\<close> returns on every reachable state, keeps
  the invariant with its frames added to those in flight, and fills the packet with frames that the
  receiver's iterator reads back as the data the application wrote.
\<close>

section \<open>One frame\<close>

text \<open>The frame that a range in flight stands for.\<close>

definition frame_of :: "(stream_id \<Rightarrow> bytes) \<Rightarrow> stream_meta \<Rightarrow> stream_frame" where
  "frame_of w m = \<lparr>sf_id = sm_id m, sf_offset = of_nat (fst (sm_offsets m)), sf_fin = sm_fin m,
     sf_data = byte_slice (w (sm_id m)) (sm_offsets m)\<rparr>"

definition range_written :: "(stream_id \<Rightarrow> bytes) \<Rightarrow> stream_meta \<Rightarrow> bool" where
  "range_written w m \<longleftrightarrow> fst (sm_offsets m) \<le> snd (sm_offsets m) \<and> snd (sm_offsets m) \<le> length (w (sm_id m))"

lemma pq_pop_iter:
  assumes "pq_pop q = (Some p, q')"
  shows "set (pq_iter q) = insert p (set (pq_iter q'))" "pq_next q' = None"
  using assms by (auto simp: pq_pop_def pq_iter_def split: option.splits list.splits)

lemma pq_requeue:
  assumes "pq_next q = None"
  shows "ps_id ` set (pq_iter ((if fair then push_pending else reinsert_pending) sid priority q)) = insert sid (ps_id ` set (pq_iter q))"
  using assms set_pq_push [of sid priority q] by (auto simp: reinsert_pending_def pq_iter_def)

lemma sb_poll_unacked:
  assumes "sb_poll_transmit n sb = (x, sb')"
  shows "sb_unacked sb' = sb_unacked sb" "sb_offset sb' = sb_offset sb"
  using assms by (auto simp: sb_poll_transmit_def sb_unacked_def Let_def split: prod.splits option.splits)

lemma sid_bound:
  assumes "sid_index x < 2 ^ 60"
  shows "x < 2 ^ 62"
proof -
  have "unat x div 4 < 2 ^ 60" using assms by (simp add: sid_index_def unat_drop_bit_eq drop_bit_nat_def)
  then have "unat x < 2 ^ 62" by (simp add: div_less_iff_less_mult)
  then show ?thesis by (simp add: word_less_nat_alt)
qed

lemma used_bound: "tables_ok X s \<Longrightarrow> st_used s x \<Longrightarrow> x < 2 ^ 62"
  by (rule sid_bound) (auto simp: tables_ok_def st_used_def split: if_splits intro: less_le_trans)

lemma stream_frame_length:
  assumes "stream_ok x"
  shows "length (varint_encode (stream_ty x l) [] @ stream_bytes x l) = 1 + varint_size (sf_id x) + offset_size (unat (sf_offset x))
     + (if l then varint_size (of_nat (length (sf_data x))) else 0) + length (sf_data x)"
proof -
  have ty: "stream_ty x l < 2 ^ 6" by (auto simp: stream_ty_def)
  then have "stream_ty x l < 2 ^ 62" using less_trans by fastforce
  moreover have "varint_size (stream_ty x l) = 1" using ty by (simp add: varint_size_def)
  moreover have "(of_nat (length (sf_data x)) :: u64) < 2 ^ 62" using assms of_nat_varint by (simp add: stream_ok_def)
  ultimately show ?thesis using assms
    by (simp add: stream_bytes_def stream_ok_def varint_encode_length sid_encode_def from_u64_def offset_size_def unat_eq_zero)
qed

lemma sm_encode_stream:
  assumes "stream_ok x"
  shows "sm_encode \<lparr>sm_id = sf_id x, sm_offsets = (unat (sf_offset x), unat (sf_offset x) + length (sf_data x)), sm_fin = sf_fin x\<rparr> l buf
      @ sf_data x = buf @ varint_encode (stream_ty x l) [] @ stream_bytes x l"
proof -
  let ?m = "\<lparr>sm_id = sf_id x, sm_offsets = (unat (sf_offset x), unat (sf_offset x) + length (sf_data x)), sm_fin = sf_fin x\<rparr>"
  obtain r b where e: "sm_try_encode ?m l buf = (r, b)" by fastforce
  have "write_stream x l buf = (Inr (), buf @ varint_encode (stream_ty x l) [] @ stream_bytes x l)"
    using writesD [OF writes_stream [OF assms], of l buf] .
  then show ?thesis using e
    by (cases r) (auto simp: write_stream_def op_bind_def op_ret_def put_slice_def put_def sm_encode_def)
qed

text \<open>Taking a range from the buffer of the stream that was popped and putting the stream back if it has more.\<close>

lemma streams_ok_transmit:
  assumes ok: "streams_ok w fl s" and pop: "pq_pop (st_pending s) = (Some p, pq)" and sid: "ps_id p = sid"
    and t: "st_send s sid = Some (Some t)" "\<not> tx_is_reset t" and n: "17 \<le> n" "n < 2 ^ 62"
    and poll: "sb_poll_transmit n (tx_pending t) = ((r, enc), sb)"
    and t': "tx_pending t' = sb" "tx_is_reset t' = tx_is_reset t" "tx_max_data t' = tx_max_data t" "tx_state t' = tx_state t"
      "tx_fin_pending t' \<longleftrightarrow> tx_fin_pending t \<and> \<not> sm_fin meta" "sm_fin meta \<Longrightarrow> tx_state t \<noteq> Ready"
    and s': "s' = (put_send sid t' s)\<lparr>st_pending := (if tx_is_pending t'
      then (if fair then push_pending else reinsert_pending) sid (tx_priority t') pq else pq)\<rparr>"
    and meta: "sm_id meta = sid" "sm_offsets meta = r"
  shows "streams_ok w (meta # fl) s'"
proof -
  have send: "send_ok w fl s" using ok by (simp add: streams_ok_def)
  have tok: "tx_ok sid (w sid) fl t" using send t by (simp add: send_ok_def)
  let ?sy = "\<lparr>sy_buf = tx_pending t, sy_written = w sid, sy_flight = flight_of sid fl\<rparr>"
  have sy: "sy_inv ?sy" using tok t(2) by (simp add: tx_ok_def)
  have "streams_ok (w(sid := w sid)) (meta # fl) s'"
  proof (rule streams_ok_put [OF ok t(1), of s' t'])
    show "frame_view s' = frame_view s" "st_send s' = (st_send s)(sid \<mapsto> Some t')" by (simp_all add: s')
    have "sy_inv \<lparr>sy_buf = sb, sy_written = w sid, sy_flight = r # flight_of sid fl\<rparr>"
      using sy_inv_transmit [OF sy n, simplified, OF poll] by simp
    moreover have "fin_ok (metas_of sid (meta # fl)) t'" using tok t' meta(1) by (auto simp: tx_ok_def fin_ok_def metas_of_def)
    ultimately show "tx_ok sid (w sid) (meta # fl) t'"
      using tok sb_poll_unacked(2) [OF poll] by (simp add: tx_ok_def t' tx_offset_def flight_of_def metas_of_def meta)
    have q: "queued s = insert sid (ps_id ` set (pq_iter pq))" using pq_pop_iter(1) [OF pop] sid by (simp add: queued_def)
    show "queued s - {sid} \<subseteq> queued s'" "tx_is_pending t' \<Longrightarrow> sid \<in> queued s'"
      using q pq_requeue [OF pq_pop_iter(2) [OF pop], of fair sid "tx_priority t'"] by (auto simp: s' queued_def)
    show "st_data_sent s' \<le> st_max_data s'" "st_max_data s' < 2 ^ 62" "st_unacked_data s' \<le> st_send_window s'"
      using send by (simp_all add: s' put_send_def send_ok_def)
    show "st_unacked_data s' + tx_weight (Some (Some t)) = st_unacked_data s + tx_weight (Some (Some t'))"
      using sb_poll_unacked(1) [OF poll] by (simp add: s' put_send_def tx_weight_def t')
    show "metas_of x (meta # fl) = metas_of x fl" if "x \<noteq> sid" for x using that by (simp add: metas_of_def meta)
  qed
  then show ?thesis by simp
qed

lemma write_stream_frame_ok:
  assumes ok: "streams_ok w fl s" and pop: "pq_pop (st_pending s) = (Some p, pq)" and sid: "ps_id p = sid"
    and t: "st_send s sid = Some (Some t)" "\<not> tx_is_reset t" and room: "length buf + 25 < m" "m < 2 ^ 62"
  shows "\<exists>meta bytes s' enc. write_stream_frame m fair sid t buf (s\<lparr>st_pending := pq\<rparr>) = Some (meta, buf @ bytes, s')
    \<and> streams_ok w (meta # fl) s' \<and> stream_ok (frame_of w meta)
    \<and> bytes = varint_encode (stream_ty (frame_of w meta) enc) [] @ stream_bytes (frame_of w meta) enc
    \<and> length (buf @ bytes) \<le> m \<and> (\<not> enc \<longrightarrow> length (buf @ bytes) = m)
    \<and> sm_id meta = sid \<and> range_written w meta
    \<and> (sb_has_unsent_data (tx_pending t) \<longrightarrow> fst (sm_offsets meta) < snd (sm_offsets meta))"
proof -
  have send: "send_ok w fl s" and tab: "tables_ok {} s" using ok by (auto simp: streams_ok_def)
  have tok: "tx_ok sid (w sid) fl t" using send t by (simp add: send_ok_def)
  let ?sy = "\<lparr>sy_buf = tx_pending t, sy_written = w sid, sy_flight = flight_of sid fl\<rparr>"
  have sy: "sy_inv ?sy" using tok t(2) by (simp add: tx_ok_def)
  have small: "sid < 2 ^ 62" using used_bound [OF tab] tab t by (auto simp: tables_ok_def)
  define n where "n = u64_sub (u64_sub (u64_sub m (length buf)) 1) (varint_size sid)"
  have n: "n = m - length buf - 1 - varint_size sid" "17 \<le> n" "n < 2 ^ 62"
    using room varint_size_bounds [of sid] by (auto simp: n_def u64_sub_eq)
  obtain r enc sb where poll: "sb_poll_transmit n (tx_pending t) = ((r, enc), sb)" by (metis surj_pair)
  note tr = sb_transmit_correct [OF sy n(2,3), simplified, OF poll]
  define fin where "fin = (snd r = sb_offset sb \<and> (case tx_state t of DataSent _ \<Rightarrow> True | _ \<Rightarrow> False))"
  define meta where "meta = \<lparr>sm_id = sid, sm_offsets = r, sm_fin = fin\<rparr>"
  define t' where "t' = t\<lparr>tx_pending := sb, tx_fin_pending := (if fin then False else tx_fin_pending t)\<rparr>"
  define s' where "s' = (put_send sid t' s)\<lparr>st_pending := (if tx_is_pending t'
      then (if fair then push_pending else reinsert_pending) sid (tx_priority t') pq else pq)\<rparr>"
  have off: "sb_offset sb = length (w sid)" "length (w sid) < 2 ^ 62"
    using sb_poll_unacked(2) [OF poll] sy by (auto simp: sy_inv_def sb_inv_def)
  have data: "sb_collect sb (fst r) (snd r) = Some (byte_slice (w sid) r)" and r: "fst r \<le> snd r" "snd r \<le> length (w sid)"
    and fit: "offset_size (fst r) + (if enc then 8 else 0) + (snd r - fst r) \<le> n" "\<not> enc \<Longrightarrow> offset_size (fst r) + (snd r - fst r) = n"
    and prog: "sb_has_unsent_data (tx_pending t) \<longrightarrow> fst r < snd r"
    using tr by auto
  let ?x = "frame_of w meta"
  have x: "sf_id ?x = sid" "unat (sf_offset ?x) = fst r" "sf_data ?x = byte_slice (w sid) r" "sf_fin ?x = fin"
    "length (sf_data ?x) = snd r - fst r"
    using r off(2) by (simp_all add: frame_of_def meta_def of_nat_small)
  then have xok: "stream_ok ?x"
    using small r off(2) by (simp add: stream_ok_def word_less_nat_alt)
  define bytes where "bytes = varint_encode (stream_ty ?x enc) [] @ stream_bytes ?x enc"
  have enc: "sm_encode meta enc buf @ byte_slice (w sid) r = buf @ bytes"
    using sm_encode_stream [OF xok, of enc buf] x r by (simp add: bytes_def meta_def)
  have eq: "write_stream_frame m fair sid t buf (s\<lparr>st_pending := pq\<rparr>) = Some (meta, buf @ bytes, s')"
    using data unfolding enc [symmetric] write_stream_frame_def n_def [symmetric] Let_def poll
    by (simp add: fin_def t'_def meta_def s'_def put_send_def)
  have "length bytes = 1 + varint_size sid + offset_size (fst r) + (if enc then varint_size (of_nat (snd r - fst r)) else 0) + (snd r - fst r)"
    using stream_frame_length [OF xok, of enc] x by (simp add: bytes_def)
  moreover have "m = n + length buf + 1 + varint_size sid" using n room varint_size_bounds(2) [of sid] by simp
  ultimately have len: "length (buf @ bytes) \<le> m" "\<not> enc \<Longrightarrow> length (buf @ bytes) = m"
    using fit varint_size_bounds(2) [of "of_nat (snd r - fst r)"] by (cases enc; simp)+
  have "streams_ok w (meta # fl) s'"
    by (rule streams_ok_transmit [OF ok pop sid t n(2,3) poll _ _ _ _ _ _ s'_def])
      (auto simp: t'_def meta_def fin_def tx_is_reset_def split: if_splits)
  then show ?thesis
    using eq xok len r prog by (intro exI [of _ meta] exI [of _ bytes] exI [of _ s'] exI [of _ enc]) (simp add: bytes_def meta_def range_written_def)
qed

section \<open>A packet's worth of frames\<close>

lemma streams_ok_pop:
  assumes ok: "streams_ok w fl s" and pop: "pq_pop (st_pending s) = (Some p, pq)"
    and gone: "\<And>t. st_send s (ps_id p) = Some (Some t) \<Longrightarrow> tx_is_reset t"
  shows "streams_ok w fl (s\<lparr>st_pending := pq\<rparr>)"
proof (rule streams_ok_view [OF ok])
  fix sid t
  assume "st_send s sid = Some (Some t)" "\<not> tx_is_reset t" "sid \<in> queued s"
  then show "sid \<in> queued (s\<lparr>st_pending := pq\<rparr>)" using gone [of t] pq_pop_iter(1) [OF pop] by (auto simp: queued_def)
qed simp_all

text \<open>What a frame adds to the payload is read back as the frame, and a frame without a length fills the packet.\<close>

lemma iter_collect_stream:
  assumes "stream_ok x"
  shows "\<exists>l'. iter_collect \<lparr>it_bytes = (varint_encode (stream_ty x True) [] @ stream_bytes x True) @ rest, it_last_ty = l\<rparr> =
      Inr (Stream x) # iter_collect \<lparr>it_bytes = rest, it_last_ty = l'\<rparr>"
    and "iter_collect \<lparr>it_bytes = varint_encode (stream_ty x False) [] @ stream_bytes x False, it_last_ty = l\<rparr> = [Inr (Stream x)]"
proof -
  have ty: "stream_ty x b < 2 ^ 62" for b by (auto simp: stream_ty_def)
  have "frame_body (stream_ty x True) (stream_bytes x True @ rest) = (Inr (Stream x), rest)"
    using assms unfolding stream_ty_body stream_body_def stream_bytes_def by (simp add: frame_reads stream_ok_def)
  from iter_collect_body [OF ty this, of l] show "\<exists>l'. iter_collect \<lparr>it_bytes = (varint_encode (stream_ty x True) [] @ stream_bytes x True) @ rest,
      it_last_ty = l\<rparr> = Inr (Stream x) # iter_collect \<lparr>it_bytes = rest, it_last_ty = l'\<rparr>" by auto
  have "iter_collect \<lparr>it_bytes = [], it_last_ty = Some (stream_ty x False)\<rparr> = []" by (simp add: iter_collect.simps iter_next_def)
  with iter_collect_body [OF ty final_stream [OF assms], of l]
  show "iter_collect \<lparr>it_bytes = varint_encode (stream_ty x False) [] @ stream_bytes x False, it_last_ty = l\<rparr> = [Inr (Stream x)]" by simp
qed

definition frames_written :: "(stream_id \<Rightarrow> bytes) \<Rightarrow> stream_meta list \<Rightarrow> nat \<Rightarrow> bytes \<Rightarrow> bytes \<Rightarrow> bool" where
  "frames_written w metas m buf payload \<longleftrightarrow> (length buf \<le> m \<longrightarrow> length (buf @ payload) \<le> m)
     \<and> (\<forall>x\<in>set metas. range_written w x)
     \<and> (\<forall>l. iter_collect \<lparr>it_bytes = payload, it_last_ty = l\<rparr> = map (\<lambda>x. Inr (Stream (frame_of w x))) metas)"

lemma frames_written_Nil [simp]: "frames_written w [] m buf []"
  by (simp add: frames_written_def iter_collect.simps iter_next_def)

lemma frames_written_Cons:
  assumes x: "stream_ok (frame_of w meta)" "range_written w meta"
    and bytes: "bytes = varint_encode (stream_ty (frame_of w meta) enc) [] @ stream_bytes (frame_of w meta) enc" "length (buf @ bytes) \<le> m"
    and rest: "frames_written w metas m (buf @ bytes) payload" "\<not> enc \<Longrightarrow> metas = [] \<and> payload = []"
  shows "frames_written w (meta # metas) m buf (bytes @ payload)"
proof (cases enc)
  case True
  then show ?thesis using iter_collect_stream(1) [OF x(1), of payload] assms by (fastforce simp: frames_written_def)
next
  case False
  then show ?thesis using iter_collect_stream(2) [OF x(1)] assms by (simp add: frames_written_def)
qed

lemma pq_pop_empty: "fst (pq_pop q) = None \<longleftrightarrow> pq_iter q = []"
  by (auto simp: pq_pop_def pq_iter_def split: option.splits list.splits)

text \<open>The loop round by round: it stops, passes over a stream that is gone, or writes a frame.\<close>

lemma write_stream_frames_rounds:
  assumes "streams_ok w fl s" "m < 2 ^ 62"
    and stop: "\<And>fl buf s. streams_ok w fl s \<Longrightarrow> \<not> (length buf + 25 < m \<and> pq_iter (st_pending s) \<noteq> []) \<Longrightarrow> P fl buf s [] [] s"
    and skip: "\<And>fl buf s p pq metas payload s'. streams_ok w fl s \<Longrightarrow> length buf + 25 < m \<Longrightarrow> pq_pop (st_pending s) = (Some p, pq) \<Longrightarrow>
      P fl buf (s\<lparr>st_pending := pq\<rparr>) metas payload s' \<Longrightarrow> P fl buf s metas payload s'"
    and frame: "\<And>fl buf s p pq t meta bytes s' metas payload s''. streams_ok w fl s \<Longrightarrow> length buf + 25 < m \<Longrightarrow>
      pq_pop (st_pending s) = (Some p, pq) \<Longrightarrow> st_send s (ps_id p) = Some (Some t) \<Longrightarrow> \<not> tx_is_reset t \<Longrightarrow>
      write_stream_frame m fair (ps_id p) t buf (s\<lparr>st_pending := pq\<rparr>) = Some (meta, buf @ bytes, s') \<Longrightarrow> streams_ok w (meta # fl) s' \<Longrightarrow>
      write_stream_frames m fair (buf @ bytes) s' = Some (metas, buf @ bytes @ payload, s'') \<Longrightarrow>
      P (meta # fl) (buf @ bytes) s' metas payload s'' \<Longrightarrow> P fl buf s (meta # metas) (bytes @ payload) s''"
  shows "\<exists>metas payload s'. write_stream_frames m fair buf s = Some (metas, buf @ payload, s') \<and> P fl buf s metas payload s'"
  using assms(1)
proof (induction "(m - length buf, pq_len (st_pending s))" arbitrary: fl buf s rule: wf_induct_rule [OF wf_lex_prod [OF wf_less_than wf_less_than]])
  case 1
  note unf = write_stream_frames.simps [of m fair buf s]
  show ?case
  proof (cases "length buf + 25 < m \<and> fst (pq_pop (st_pending s)) \<noteq> None")
    case False
    then have "write_stream_frames m fair buf s = Some ([], buf @ [], s)"
      by (subst unf) (auto split: prod.splits option.splits)
    then show ?thesis using False stop [OF "1.prems", of buf] by (auto simp: pq_pop_empty)
  next
    case True
    then obtain p pq where room: "length buf + 25 < m" and pop: "pq_pop (st_pending s) = (Some p, pq)"
      by (cases "pq_pop (st_pending s)") auto
    let ?s1 = "s\<lparr>st_pending := pq\<rparr>"
    show ?thesis
    proof (cases "\<exists>t. st_send s (ps_id p) = Some (Some t) \<and> \<not> tx_is_reset t")
      case False
      then have "streams_ok w fl ?s1" using streams_ok_pop [OF "1.prems" pop] by auto
      moreover have "write_stream_frames m fair buf s = write_stream_frames m fair buf ?s1"
        using room pop False by (subst unf) (auto simp: Let_def split: option.splits)
      ultimately show ?thesis using "1.hyps" [of buf ?s1 fl] skip [OF "1.prems" room pop] pq_pop_len [OF pop] by auto
    next
      case True
      then obtain t where t: "st_send s (ps_id p) = Some (Some t)" "\<not> tx_is_reset t" by blast
      obtain meta bytes s' where fr: "write_stream_frame m fair (ps_id p) t buf ?s1 = Some (meta, buf @ bytes, s')"
        and ok': "streams_ok w (meta # fl) s'"
        using write_stream_frame_ok [OF "1.prems" pop refl t room assms(2), of fair] by blast
      have "m - length (buf @ bytes) < m - length buf" by (rule diff_less_mono2 [OF write_stream_frame_longer [OF fr]]) (use room in simp)
      then obtain metas payload s'' where IH: "write_stream_frames m fair (buf @ bytes) s' = Some (metas, buf @ bytes @ payload, s'')"
        "P (meta # fl) (buf @ bytes) s' metas payload s''" using "1.hyps" [of "buf @ bytes" s' "meta # fl"] ok' by auto
      have "write_stream_frames m fair buf s = Some (meta # metas, buf @ bytes @ payload, s'')"
        using room pop t fr IH(1) by (subst unf) simp
      then show ?thesis using frame [OF "1.prems" room pop t fr ok' IH] by blast
    qed
  qed
qed

lemma write_stream_frames_ok:
  assumes "streams_ok w fl s" "m < 2 ^ 62"
  shows "\<exists>metas payload s'. write_stream_frames m fair buf s = Some (metas, buf @ payload, s')
    \<and> streams_ok w (rev metas @ fl) s' \<and> frames_written w metas m buf payload"
proof (rule write_stream_frames_rounds [OF assms])
  fix fl buf s p pq t meta bytes s' metas payload s''
  assume ok: "streams_ok w fl s" and room: "length buf + 25 < m" and pop: "pq_pop (st_pending s) = (Some p, pq)"
    and t: "st_send s (ps_id p) = Some (Some t)" "\<not> tx_is_reset t"
    and fr: "write_stream_frame m fair (ps_id p) t buf (s\<lparr>st_pending := pq\<rparr>) = Some (meta, buf @ bytes, s')"
    and wr: "write_stream_frames m fair (buf @ bytes) s' = Some (metas, buf @ bytes @ payload, s'')"
    and IH: "streams_ok w (rev metas @ meta # fl) s'' \<and> frames_written w metas m (buf @ bytes) payload"
  from write_stream_frame_ok [OF ok pop refl t room assms(2), of fair] obtain meta' bytes' s1 enc where
    fr': "write_stream_frame m fair (ps_id p) t buf (s\<lparr>st_pending := pq\<rparr>) = Some (meta', buf @ bytes', s1)"
    and x': "stream_ok (frame_of w meta')" "range_written w meta'"
    and bytes': "bytes' = varint_encode (stream_ty (frame_of w meta') enc) [] @ stream_bytes (frame_of w meta') enc"
    and len': "length (buf @ bytes') \<le> m" "\<not> enc \<Longrightarrow> length (buf @ bytes') = m" by blast
  have eq: "meta' = meta" "bytes' = bytes" using fr fr' by simp_all
  note x = x' [unfolded eq] and bytes = bytes' [unfolded eq] and len = len' [unfolded eq]
  have "metas = [] \<and> payload = []" if "\<not> enc"
    using wr len(2) that by (subst (asm) write_stream_frames.simps) simp
  then have "frames_written w (meta # metas) m buf (bytes @ payload)" using IH by (intro frames_written_Cons [OF x bytes len(1)]) auto
  then show "streams_ok w (rev (meta # metas) @ fl) s'' \<and> frames_written w (meta # metas) m buf (bytes @ payload)" using IH by simp
qed simp_all

end
