(* ===== verification/Streams_System.thy ===== *)
theory Streams_System
  imports Streams_Transmit
begin

text \<open>
  What is left of the streams of a connection: polling for events, opening streams, limits, control
  frames, and the state after the handshake.  Each keeps the invariant of the streams and returns
  without a panic.
\<close>

section \<open>The remaining operations\<close>

lemma poll_blocked_ok: "streams_ok w fl s \<Longrightarrow> streams_ok w fl (snd (poll_blocked bs s))"
proof (induction bs s rule: poll_blocked.induct)
  case (1 s)
  then show ?case by (auto intro: streams_ok_view simp: queued_def)
next
  case (2 sid bs s)
  show ?case
  proof (cases "\<exists>t. st_send s sid = Some (Some t)")
    case False
    then show ?thesis using 2 by (auto split: option.splits)
  next
    case True
    then obtain t where t: "st_send s sid = Some (Some t)" by blast
    let ?t' = "t\<lparr>tx_connection_blocked := False\<rparr>"
    have lim: "tx_max_data t < 2 ^ 62" using "2.prems" t by (auto simp: streams_ok_def send_ok_def tx_ok_def)
    have put: "streams_ok w fl (put_send sid ?t' s)"
      using lim by (intro streams_ok_touch [OF "2.prems" t, of ?t']) (auto simp: get_or_insert_send_def tx_is_reset_def queued_def)
    have "streams_ok w fl ((put_send sid ?t' s)\<lparr>st_connection_blocked := bs\<rparr>)"
      by (rule streams_ok_view [OF put]) (auto simp: queued_def)
    then show ?thesis using t put 2 by (auto simp: Let_def)
  qed
qed

lemma streams_ok_events: "streams_ok w fl s \<Longrightarrow> streams_ok w fl (s\<lparr>st_events := ev\<rparr>)"
  and streams_ok_opened: "streams_ok w fl s \<Longrightarrow> streams_ok w fl (s\<lparr>st_opened := op\<rparr>)"
  by (erule streams_ok_view; simp add: queued_def frame_view_def send_view_def)+

lemma st_poll_ok:
  assumes "streams_ok w fl s"
  shows "streams_ok w fl (snd (st_poll s))"
  using assms poll_blocked_ok [OF assms, of "st_connection_blocked s"]
  by (auto simp: st_poll_def Let_def intro: streams_ok_events streams_ok_opened split: prod.splits option.splits list.splits)

text \<open>Opening a stream: what the new state looks like, and that it is good.\<close>

lemma st_open_effect:
  assumes tab: "tables_ok {} s" and can: "\<not> closed" "st_next s d < st_max s d"
  defines "sid \<equiv> sid_new (st_side s) d (st_next s d)"
  shows "\<not> st_used s sid" and "st_next s d < 2 ^ 60"
    and "\<exists>R F. st_open closed d s = Some (Some sid, s\<lparr>st_next := (st_next s)(d := st_next s d + 1),
        st_send := (st_send s)(sid \<mapsto> None), st_recv := R, st_free_recv := F, st_send_streams := u64_add (st_send_streams s) 1\<rparr>)
      \<and> (\<forall>x. x \<noteq> sid \<longrightarrow> R x = st_recv s x) \<and> (d = Uni \<longrightarrow> R sid = None)
      \<and> (\<forall>r. R sid = Some (Some r) \<longrightarrow> r \<in> set (st_free_recv s)) \<and> set F \<subseteq> set (st_free_recv s)"
proof -
  have "st_max s d \<le> 2 ^ 60" using tab by (simp add: tables_ok_def)
  then show lim: "st_next s d < 2 ^ 60" using can by linarith
  then have idx: "sid_index sid = st_next s d" "sid_initiator sid = st_side s" "sid_dir sid = d" by (simp_all add: sid_def)
  then show unused: "\<not> st_used s sid" by (simp add: st_used_def)
  have fresh: "st_send s sid = None" "st_recv s sid = None" using tab unused by (auto simp: tables_ok_def)
  let ?s1 = "s\<lparr>st_next := (st_next s)(d := st_next s d + 1)\<rparr>"
  have "\<exists>R F. st_insert False sid ?s1 = Some (?s1\<lparr>st_send := (st_send s)(sid \<mapsto> None), st_recv := R, st_free_recv := F\<rparr>)
      \<and> (\<forall>x. x \<noteq> sid \<longrightarrow> R x = st_recv s x) \<and> (d = Uni \<longrightarrow> R sid = None)
      \<and> (\<forall>r. R sid = Some (Some r) \<longrightarrow> r \<in> set (st_free_recv s)) \<and> set F \<subseteq> set (st_free_recv s)"
  proof (cases d)
    case Uni
    then show ?thesis using fresh idx
      by (intro exI [of _ "st_recv s"] exI [of _ "st_free_recv s"]) (simp add: st_insert_def)
  next
    case Bi
    obtain r F where rf: "(case st_free_recv s of [] \<Rightarrow> (None, []) | r # rest \<Rightarrow> (Some r, rest)) = (r, F)" by fastforce
    then have "\<forall>x. r = Some x \<longrightarrow> x \<in> set (st_free_recv s)" "set F \<subseteq> set (st_free_recv s)" by (auto split: list.splits)
    then show ?thesis using fresh idx Bi rf
      by (intro exI [of _ "(st_recv s)(sid \<mapsto> r)"] exI [of _ F]) (simp add: st_insert_def)
  qed
  then show "\<exists>R F. st_open closed d s = Some (Some sid, s\<lparr>st_next := (st_next s)(d := st_next s d + 1),
        st_send := (st_send s)(sid \<mapsto> None), st_recv := R, st_free_recv := F, st_send_streams := u64_add (st_send_streams s) 1\<rparr>)
      \<and> (\<forall>x. x \<noteq> sid \<longrightarrow> R x = st_recv s x) \<and> (d = Uni \<longrightarrow> R sid = None)
      \<and> (\<forall>r. R sid = Some (Some r) \<longrightarrow> r \<in> set (st_free_recv s)) \<and> set F \<subseteq> set (st_free_recv s)"
  proof -
    assume "\<exists>R F. st_insert False sid ?s1 = Some (?s1\<lparr>st_send := (st_send s)(sid \<mapsto> None), st_recv := R, st_free_recv := F\<rparr>)
      \<and> (\<forall>x. x \<noteq> sid \<longrightarrow> R x = st_recv s x) \<and> (d = Uni \<longrightarrow> R sid = None)
      \<and> (\<forall>r. R sid = Some (Some r) \<longrightarrow> r \<in> set (st_free_recv s)) \<and> set F \<subseteq> set (st_free_recv s)"
    then obtain R F where ins: "st_insert False sid ?s1 = Some (?s1\<lparr>st_send := (st_send s)(sid \<mapsto> None), st_recv := R, st_free_recv := F\<rparr>)"
      and more: "(\<forall>x. x \<noteq> sid \<longrightarrow> R x = st_recv s x) \<and> (d = Uni \<longrightarrow> R sid = None)
      \<and> (\<forall>r. R sid = Some (Some r) \<longrightarrow> r \<in> set (st_free_recv s)) \<and> set F \<subseteq> set (st_free_recv s)" by blast
    show ?thesis
      by (rule exI [of _ R], rule exI [of _ F])
        (use can lim ins more in \<open>simp add: st_open_def Let_def u64_add_eq u64_sub_eq sid_def\<close>)
  qed
qed

lemma st_open_ok:
  assumes ok: "streams_ok w fl s"
  shows "\<exists>r s'. st_open closed d s = Some (r, s') \<and> streams_ok w fl s'"
proof (cases "closed \<or> st_max s d \<le> st_next s d")
  case True
  then show ?thesis using ok by (auto simp: st_open_def)
next
  case False
  define sid where "sid = sid_new (st_side s) d (st_next s d)"
  have tab: "tables_ok {} s" and recv: "recv_ok s" and send: "send_ok w fl s" using ok by (auto simp: streams_ok_def)
  have can: "\<not> closed" "st_next s d < st_max s d" using False by auto
  note eff = st_open_effect [OF tab can, folded sid_def]
  obtain R F where eq: "st_open closed d s = Some (Some sid, s\<lparr>st_next := (st_next s)(d := st_next s d + 1),
        st_send := (st_send s)(sid \<mapsto> None), st_recv := R, st_free_recv := F, st_send_streams := u64_add (st_send_streams s) 1\<rparr>)"
    and R: "\<forall>x. x \<noteq> sid \<longrightarrow> R x = st_recv s x" "d = Uni \<longrightarrow> R sid = None" "\<forall>r. R sid = Some (Some r) \<longrightarrow> r \<in> set (st_free_recv s)"
    and F: "set F \<subseteq> set (st_free_recv s)" using eff(3) by blast
  define s' where "s' = s\<lparr>st_next := (st_next s)(d := st_next s d + 1), st_send := (st_send s)(sid \<mapsto> None), st_recv := R,
     st_free_recv := F, st_send_streams := u64_add (st_send_streams s) 1\<rparr>"
  have idx: "sid_index sid = st_next s d" "sid_initiator sid = st_side s" "sid_dir sid = d"
    using eff(2) by (simp_all add: sid_def)
  have used: "st_used s' x \<longleftrightarrow> st_used s x \<or> x = sid" for x
  proof (cases "x = sid")
    case True
    then show ?thesis using idx by (simp add: st_used_def s'_def)
  next
    case False
    then have "\<not> (sid_initiator x = st_side s \<and> sid_dir x = d \<and> sid_index x = st_next s d)"
      using sid_of_parts [of x] by (auto simp: sid_def)
    then show ?thesis using False by (auto simp: st_used_def s'_def)
  qed
  have recv_dom: "x \<in> dom (st_recv s') \<longleftrightarrow> x \<in> dom (st_recv s)" if "x \<noteq> sid" for x using R(1) that by (simp add: s'_def domIff)
  have bi: "d = Bi" if "sid \<in> dom (st_recv s')" using R(2) that by (cases d) (auto simp: s'_def)
  have remote: "remote_ids {} s' e = remote_ids {} s e" for e
  proof (rule set_eqI)
    fix x
    show "x \<in> remote_ids {} s' e \<longleftrightarrow> x \<in> remote_ids {} s e"
      using idx recv_dom [of x] by (cases "x = sid") (simp_all add: remote_ids_def s'_def)
  qed
  have "dom (st_recv s') \<subseteq> insert sid (dom (st_recv s))" using recv_dom by blast
  then have "finite (dom (st_recv s'))" using tab by (auto simp: tables_ok_def intro: finite_subset)
  moreover have "st_used s' x \<and> (sid_initiator x = st_side s \<longrightarrow> sid_dir x = Bi)" if "x \<in> dom (st_recv s')" for x
    using tab used that recv_dom [of x] bi idx by (cases "x = sid") (auto simp: tables_ok_def)
  moreover have "st_used s' x \<and> (sid_initiator x \<noteq> st_side s \<longrightarrow> sid_dir x = Bi)" if "x \<in> dom (st_send s')" for x
    using tab used that idx by (cases "x = sid") (auto simp: tables_ok_def s'_def)
  ultimately have tab': "tables_ok {} s'" using tab remote eff(2) by (simp add: tables_ok_def) (simp add: s'_def)
  have recv': "recv_ok s'"
    using recv R F unfolding recv_ok_def s'_def by simp (metis subsetD)
  have fin: "finite (dom (st_send s))" "finite (dom (st_send s'))" using tab tab' by (auto simp: tables_ok_def)
  have fresh: "st_send s sid = None" using tab eff(1) by (auto simp: tables_ok_def)
  then have "map_total tx_weight (st_send s') = map_total tx_weight (st_send s)"
    by (intro map_total_cong fin) (simp_all add: s'_def)
  then have "send_ok w fl s'"
    using send used eff(1) unfolding send_ok_def queued_def s'_def by (auto split: if_splits)
  then show ?thesis using eq tab' recv' by (simp add: streams_ok_def s'_def)
qed

lemma streams_ok_recv_view:
  assumes "streams_ok w fl s" "tables_view s' = tables_view s" "recv_ok s'" "tx_kept s s'"
  shows "streams_ok w fl s'"
  using assms tables_ok_cong [OF _ assms(2)] by (intro streams_ok_kept [OF assms(1)]) (auto simp: streams_ok_def)

lemma received_max_data_ok:
  assumes "streams_ok w fl s" "n < 2 ^ 62"
  shows "streams_ok w fl (received_max_data n s)"
proof -
  have tv: "tables_view (received_max_data n s) = tables_view s" by (simp add: tables_view_def received_max_data_def)
  have "send_ok w fl (received_max_data n s)"
    using assms st_used_cong [OF tv] by (auto simp: streams_ok_def send_ok_def received_max_data_def queued_def)
  then show ?thesis
    using assms(1) tables_ok_cong [OF _ tv] by (simp add: streams_ok_def) (simp add: received_max_data_def recv_ok_def)
qed

lemma received_max_streams_ok:
  assumes "streams_ok w fl s"
  shows "streams_ok w fl (snd (received_max_streams d n s))"
proof -
  have "streams_ok w fl (s\<lparr>st_max := (st_max s)(d := n), st_events := ev\<rparr>)" if "n \<le> 2 ^ 60" for ev
  proof -
    have used: "st_used (s\<lparr>st_max := (st_max s)(d := n), st_events := ev\<rparr>) = st_used s" by (simp add: st_used_def fun_eq_iff)
    have "tables_ok {} (s\<lparr>st_max := (st_max s)(d := n), st_events := ev\<rparr>)"
      using assms that used by (simp add: streams_ok_def tables_ok_def remote_ids_def)
    moreover have "recv_ok (s\<lparr>st_max := (st_max s)(d := n), st_events := ev\<rparr>)" using assms by (simp add: streams_ok_def recv_ok_def)
    moreover have "tx_kept s (s\<lparr>st_max := (st_max s)(d := n), st_events := ev\<rparr>)" using used by (simp add: tx_kept_def tx_fields_def)
    ultimately show ?thesis by (rule streams_ok_kept [OF assms])
  qed
  then show ?thesis using assms by (auto simp: received_max_streams_def max_stream_count_def)
qed

lemma set_receive_window_ok:
  assumes ok: "streams_ok w fl s" and n: "n < 2 ^ 64"
  shows "streams_ok w fl (snd (set_receive_window n s))"
proof (rule streams_ok_recv_view [OF ok])
  show "tables_view (snd (set_receive_window n s)) = tables_view s" by (simp add: set_receive_window_def tables_view_def)
  show "tx_kept s (snd (set_receive_window n s))"
    by (simp add: set_receive_window_def tx_kept_def tx_fields_def st_used_def)
  show "recv_ok (snd (set_receive_window n s))"
    using ok by (auto simp: streams_ok_def recv_ok_def set_receive_window_def u64_sat_add_def)
qed

lemma set_max_concurrent_ok:
  assumes ok: "streams_ok w fl s" and n: "st_max_remote s d + n \<le> 2 ^ 60"
  shows "\<exists>s'. set_max_concurrent d n s = Some s' \<and> streams_ok w fl s'"
proof -
  define s1 where "s1 = s\<lparr>st_flow_control_adjusted := True, st_max_concurrent_remote_count := (st_max_concurrent_remote_count s)(d := n)\<rparr>"
  have ok1: "streams_ok w fl s1"
    using ok by (intro streams_ok_recv_view [OF ok]) (simp_all add: s1_def tables_view_def streams_ok_def recv_ok_def tx_kept_def tx_fields_def st_used_def)
  have "tables_ok {} s1" using ok1 by (simp add: streams_ok_def)
  from ensure_remote_streams_ok [OF this, of d] n obtain s' where s': "ensure_remote_streams d s1 = Some s'" "tables_ok {} s'" "st_grows s1 s'"
    by (auto simp: s1_def)
  then have "streams_ok w fl s'"
    using ok1 by (intro streams_ok_kept [OF ok1 s'(2)]) (auto simp: streams_ok_def intro: recv_ok_grows st_grows_kept)
  then show ?thesis using s'(1) by (simp add: set_max_concurrent_def s1_def)
qed

lemma st_accept_ok: "streams_ok w fl s \<Longrightarrow> streams_ok w fl (snd (st_accept d s))"
  by (erule streams_ok_view) (simp_all add: st_accept_def Let_def queued_def frame_view_def send_view_def)

section \<open>Control frames\<close>

text \<open>An encoding error is possible, a panic is not.\<close>

definition wc_good :: "(stream_id \<Rightarrow> bytes) \<Rightarrow> stream_meta list \<Rightarrow> (varint_bounds_exceeded failure + unit) \<times> control_state \<Rightarrow> bool" where
  "wc_good w fl = (\<lambda>(r, c). r \<noteq> Inl Panic \<and> streams_ok w fl (wc_streams c))"

lemma wc_good_pair [simp]: "wc_good w fl (r, c) \<longleftrightarrow> r \<noteq> Inl Panic \<and> streams_ok w fl (wc_streams c)"
  by (simp add: wc_good_def)

lemma wc_good_bind:
  assumes "wc_good w fl (m c)" "\<And>x c. streams_ok w fl (wc_streams c) \<Longrightarrow> wc_good w fl (f x c)"
  shows "wc_good w fl (op_bind m f c)"
proof -
  obtain r c' where m: "m c = (r, c')" by fastforce
  then show ?thesis using assms(1) assms(2) [of c'] by (cases r) (auto simp: wc_good_pair op_bind_def)
qed

lemma wc_good_encode: "streams_ok w fl (wc_streams c) \<Longrightarrow> wc_good w fl (wc_encode e c)"
  by (auto simp: wc_good_def wc_encode_def split: prod.splits sum.splits)

lemma streams_ok_tx: "streams_ok w fl s \<Longrightarrow> st_send s sid = Some (Some t) \<Longrightarrow> tx_ok sid (w sid) fl t"
  by (simp add: streams_ok_def send_ok_def)

lemma wc_reset_streams_ok: "streams_ok w fl (wc_streams c) \<Longrightarrow> wc_good w fl (wc_reset_streams m rs c)"
proof (induction rs arbitrary: c)
  case (Cons x rest)
  obtain sid code where x: "x = (sid, code)" by fastforce
  have off: "tx_offset t < 2 ^ 62" if "st_send (wc_streams c) sid = Some (Some t)" for t
    using streams_ok_tx [OF Cons.prems that] by (simp add: tx_ok_def)
  have enc: "wc_good w fl (op_bind (wc_encode e) (\<lambda>_. wc_reset_streams m rest) c')" if "streams_ok w fl (wc_streams c')" for e c'
    using that Cons.IH by (intro wc_good_bind wc_good_encode)
  show ?case
    using Cons off by (auto simp: x Let_def wc_good_pair split: option.splits intro!: enc)
qed simp

lemma wc_stop_sendings_ok: "streams_ok w fl (wc_streams c) \<Longrightarrow> wc_good w fl (wc_stop_sendings m fs c)"
proof (induction fs arbitrary: c)
  case (Cons f rest)
  have "wc_good w fl (op_bind (wc_encode (ss_try_encode f)) (\<lambda>_ c. wc_stop_sendings m rest
      (c\<lparr>wc_sent := (wc_sent c)\<lparr>rt_stop_sending := f # rt_stop_sending (wc_sent c)\<rparr>\<rparr>)) c')" if "streams_ok w fl (wc_streams c')" for c'
    using that Cons.IH by (intro wc_good_bind wc_good_encode) simp_all
  then show ?case using Cons.prems by simp
qed simp

lemma wc_max_data_ok: "streams_ok w fl (wc_streams c) \<Longrightarrow> wc_good w fl (wc_max_data m c)"
proof -
  assume ok: "streams_ok w fl (wc_streams c)"
  have "streams_ok w fl ((wc_streams c)\<lparr>st_sent_max_data := n\<rparr>)" for n
    using ok by (intro streams_ok_recv_view [OF ok]) (simp_all add: tables_view_def streams_ok_def recv_ok_def tx_kept_def tx_fields_def st_used_def)
  then show ?thesis using ok by (auto simp: wc_max_data_def Let_def wc_good_pair intro!: wc_good_encode)
qed

lemma streams_ok_put_recv:
  assumes ok: "streams_ok w fl s" and rs: "rx_ok rs" "st_recv s sid \<noteq> None"
  shows "streams_ok w fl (put_recv sid rs s)"
  using assms by (intro streams_ok_recv_view [OF ok]) (auto simp: streams_ok_def recv_ok_put)

lemma wc_max_stream_data_ok: "streams_ok w fl (wc_streams c) \<Longrightarrow> wc_good w fl (wc_max_stream_data m sids c)"
proof (induction sids arbitrary: c)
  case (Cons sid rest)
  have put: "streams_ok w fl (put_recv sid (record_sent_max_stream_data n rs) (wc_streams c))" if "open_recv sid (wc_streams c) = Some rs" for n rs
  proof -
    have r: "st_recv (wc_streams c) sid = Some (Some (OpenRecv rs))"
      using that by (auto simp: open_recv_def as_open_recv_def split: option.splits stream_recv.splits)
    then have "rx_ok rs" using Cons.prems by (auto simp: streams_ok_def recv_ok_def slot_ok_def split: stream_recv.splits)
    then show ?thesis using r Cons.prems
      by (intro streams_ok_put_recv) (auto simp: record_sent_max_stream_data_def rx_ok_def)
  qed
  have enc: "wc_good w fl (op_bind (wc_encode e) (\<lambda>_. wc_max_stream_data m rest) c')" if "streams_ok w fl (wc_streams c')" for e c'
    using that Cons.IH by (intro wc_good_bind wc_good_encode)
  show ?case using Cons put
    by (auto simp: Let_def wc_good_pair split: option.splits intro!: enc)
qed simp

lemma wc_max_streams_ok: "streams_ok w fl (wc_streams c) \<Longrightarrow> wc_good w fl (wc_max_streams m d c)"
proof -
  assume ok: "streams_ok w fl (wc_streams c)"
  have "streams_ok w fl ((wc_streams c)\<lparr>st_sent_max_remote := x\<rparr>)" for x
    using ok by (intro streams_ok_recv_view [OF ok]) (simp_all add: tables_view_def streams_ok_def recv_ok_def tx_kept_def tx_fields_def st_used_def)
  then show ?thesis using ok by (auto simp: wc_max_streams_def Let_def wc_good_pair intro!: wc_good_encode)
qed

lemma write_control_frames_ok: "streams_ok w fl (wc_streams c) \<Longrightarrow> wc_good w fl (write_control_frames m c)"
  unfolding write_control_frames_def
  by (intro wc_good_bind wc_reset_streams_ok wc_stop_sendings_ok wc_max_data_ok wc_max_stream_data_ok wc_max_streams_ok)

section \<open>A new connection\<close>

text \<open>The peer's parameters as the handshake has checked them: the fields are integers of the wire format,
  and a number of streams is at most \<open>2\<^sup>6\<^sup>0\<close>.\<close>

definition params_ok :: "stream_params \<Rightarrow> bool" where
  "params_ok p \<longleftrightarrow> sp_initial_max_stream_data_uni p < 2 ^ 62 \<and> sp_initial_max_stream_data_bidi_local p < 2 ^ 62
     \<and> sp_initial_max_stream_data_bidi_remote p < 2 ^ 62 \<and> sp_initial_max_data p < 2 ^ 62
     \<and> sp_initial_max_streams_bidi p \<le> 2 ^ 60 \<and> sp_initial_max_streams_uni p \<le> 2 ^ 60"

lemma dir_all: "(\<forall>d. P d) \<longleftrightarrow> P Bi \<and> P Uni"
  by (auto intro: dir.induct)

lemma st_new_shape:
  fixes sd :: side and sw rw srw :: nat
  assumes lim: "max_uni \<le> 2 ^ 60" "max_bi \<le> 2 ^ 60"
  defines "bi \<equiv> sid_new (side_not sd) Bi ` {0..<max_bi}" and "uni \<equiv> sid_new (side_not sd) Uni ` {0..<max_uni}"
    and "b \<equiv> st_blank sd max_uni max_bi sw rw srw"
  shows "\<exists>R. st_new sd max_uni max_bi sw rw srw = Some (b\<lparr>st_send := (\<lambda>x. if x \<in> bi then Some None else None),
      st_recv := R, st_free_recv := []\<rparr>) \<and> dom R = bi \<union> uni \<and> (\<forall>x. R x = None \<or> R x = Some None)"
proof -
  have b: "st_side b = sd" "st_send b = Map.empty" "st_recv b = Map.empty" "st_free_recv b = []" by (simp_all add: b_def st_blank_def Let_def)
  have small: "\<forall>i\<in>set [0..<max_bi]. i < 2 ^ 62" "\<forall>i\<in>set [0..<max_uni]. i < 2 ^ 62" using lim by auto
  have "\<forall>i\<in>set [0..<max_bi]. sid_new (side_not (st_side b)) Bi i \<notin> dom (st_send b) \<union> dom (st_recv b)" by (simp add: b)
  from insert_remotes_fresh [OF distinct_upt small(1) this, unfolded set_upt b, folded bi_def]
  obtain R1 F1 where i1: "insert_remotes Bi [0..<max_bi] b = Some (b\<lparr>st_send := (\<lambda>x. if x \<in> bi then Some None else None), st_recv := R1, st_free_recv := F1\<rparr>)"
    and R1: "\<forall>x. x \<notin> bi \<longrightarrow> R1 x = None" "\<forall>x\<in>bi. R1 x = Some None" and F1: "F1 = []" by (auto simp: b)
  let ?b1 = "b\<lparr>st_send := (\<lambda>x. if x \<in> bi then Some None else None), st_recv := R1, st_free_recv := F1\<rparr>"
  have "\<forall>i\<in>set [0..<max_uni]. sid_new (side_not (st_side ?b1)) Uni i \<notin> dom (st_send ?b1) \<union> dom (st_recv ?b1)"
  proof
    fix i
    have notin: "sid_new (side_not sd) Uni i \<notin> bi"
    proof
      assume "sid_new (side_not sd) Uni i \<in> bi"
      then have "sid_dir (sid_new (side_not sd) Uni i) = Bi" unfolding bi_def by (elim imageE) simp
      then show False by simp
    qed
    then have "R1 (sid_new (side_not sd) Uni i) = None" using R1(1) by blast
    then show "sid_new (side_not (st_side ?b1)) Uni i \<notin> dom (st_send ?b1) \<union> dom (st_recv ?b1)"
      using notin by (simp add: b domIff)
  qed
  from insert_remotes_fresh [OF distinct_upt small(2) this, unfolded set_upt] F1
  obtain R where i2: "insert_remotes Uni [0..<max_uni] ?b1 = Some (?b1\<lparr>st_recv := R, st_free_recv := []\<rparr>)"
    and R: "\<forall>x. x \<notin> uni \<longrightarrow> R x = R1 x" "\<forall>x\<in>uni. R x = Some None" by (auto simp: b uni_def)
  have "R x = (if x \<in> bi \<union> uni then Some None else None)" for x using R R1 by auto
  then have "dom R = bi \<union> uni" "\<forall>x. R x = None \<or> R x = Some None" by (auto simp: dom_def)
  then show ?thesis using i1 i2 by (auto simp: st_new_def b_def)
qed

text \<open>A connection after the handshake.\<close>

definition st_start :: "side \<Rightarrow> nat \<Rightarrow> nat \<Rightarrow> nat \<Rightarrow> nat \<Rightarrow> nat \<Rightarrow> stream_params \<Rightarrow> streams_state option" where
  "st_start side max_uni max_bi send_window receive_window stream_receive_window params =
     map_option (set_params params) (st_new side max_uni max_bi send_window receive_window stream_receive_window)"

lemma set_params_fresh:
  assumes "\<forall>x. st_send s x = None \<or> st_send s x = Some None"
  shows "set_params p s = received_max_data (sp_initial_max_data p) (s\<lparr>st_initial_max_stream_data_uni := sp_initial_max_stream_data_uni p,
            st_initial_max_stream_data_bidi_local := sp_initial_max_stream_data_bidi_local p,
            st_initial_max_stream_data_bidi_remote := sp_initial_max_stream_data_bidi_remote p,
            st_max := (st_max s)(Bi := sp_initial_max_streams_bidi p, Uni := sp_initial_max_streams_uni p)\<rparr>)"
proof -
  have no_open: "st_send s x \<noteq> Some (Some t)" for x t using assms by (metis option.distinct(1) option.inject)
  have "fold (\<lambda>i s. let sid = sid_new (side_not (st_side s)) Bi i in case st_send s sid of
      Some (Some t) \<Rightarrow> put_send sid (t\<lparr>tx_max_data := n\<rparr>) s | _ \<Rightarrow> s) is s' = s'"
    if "st_send s' = st_send s" for "is" n s'
    using that no_open by (induction "is") (auto simp: Let_def split: option.splits)
  then show ?thesis by (simp add: set_params_def Let_def received_max_data_def)
qed

lemma st_start_ok:
  assumes lim: "max_uni \<le> 2 ^ 60" "max_bi \<le> 2 ^ 60" "sw < 2 ^ 64" "rw < 2 ^ 64" and p: "params_ok p"
  shows "\<exists>s. st_start sd max_uni max_bi sw rw srw p = Some s \<and> streams_ok (\<lambda>_. []) [] s"
proof -
  let ?bi = "sid_new (side_not sd) Bi ` {0..<max_bi}" and ?uni = "sid_new (side_not sd) Uni ` {0..<max_uni}"
  obtain R where new: "st_new sd max_uni max_bi sw rw srw = Some ((st_blank sd max_uni max_bi sw rw srw)
      \<lparr>st_send := (\<lambda>x. if x \<in> ?bi then Some None else None), st_recv := R, st_free_recv := []\<rparr>)"
    and R: "dom R = ?bi \<union> ?uni" "\<forall>x. R x = None \<or> R x = Some None" using st_new_shape [OF lim(1,2)] by blast
  define s0 where "s0 = (st_blank sd max_uni max_bi sw rw srw)\<lparr>st_send := (\<lambda>x. if x \<in> ?bi then Some None else None),
     st_recv := R, st_free_recv := []\<rparr>"
  define s where "s = set_params p s0"
  have "\<forall>x. st_send s0 x = None \<or> st_send s0 x = Some None" by (simp add: s0_def)
  note s = set_params_fresh [OF this, of p, folded s_def]
  have start: "st_start sd max_uni max_bi sw rw srw p = Some s" by (simp add: st_start_def new s_def s0_def)
  have doms: "dom (st_send s) = ?bi" "dom (st_recv s) = ?bi \<union> ?uni"
    using R(1) by (simp_all add: s received_max_data_def s0_def dom_def)
  have fields: "st_side s = sd" "st_next s = (\<lambda>_. 0)" "st_max_remote s = (\<lambda>d. case d of Bi \<Rightarrow> max_bi | Uni \<Rightarrow> max_uni)"
    "st_allocated_remote_count s = (\<lambda>d. case d of Bi \<Rightarrow> max_bi | Uni \<Rightarrow> max_uni)"
    "st_max s = (\<lambda>_. 0)(Bi := sp_initial_max_streams_bidi p, Uni := sp_initial_max_streams_uni p)"
    by (simp_all add: s received_max_data_def s0_def st_blank_def Let_def)
  have remote: "remote_ids {} s Bi = ?bi" "remote_ids {} s Uni = ?uni"
    by (auto simp: remote_ids_def doms fields)
  have card: "card ?bi \<le> max_bi" "card ?uni \<le> max_uni"
    using card_image_le [of "{0..<max_bi}" "sid_new (side_not sd) Bi"] card_image_le [of "{0..<max_uni}" "sid_new (side_not sd) Uni"] by simp_all
  have used: "x \<in> ?bi \<union> ?uni \<Longrightarrow> st_used s x" for x using lim by (auto simp: st_used_def fields)
  have init: "\<forall>x\<in>?bi. sid_initiator x \<noteq> sd \<and> sid_dir x = Bi" "\<forall>x\<in>?uni. sid_initiator x \<noteq> sd" by auto
  have "tables_ok {} s" unfolding tables_ok_def dir_all doms remote
  proof (intro conjI ballI)
    show "st_used s x" if "x \<in> ?bi \<union> ?uni" for x by (rule used [OF that])
    show "st_used s x" "sid_initiator x \<noteq> st_side s \<longrightarrow> sid_dir x = Bi" if "x \<in> ?bi" for x using used init that by auto
    show "sid_initiator x = st_side s \<longrightarrow> sid_dir x = Bi" if "x \<in> ?bi \<union> ?uni" for x using init that unfolding fields by blast
  qed (use card lim p in \<open>auto simp: fields params_ok_def\<close>)
  moreover have "R x \<noteq> Some (Some r)" for x r using R(2) by (metis option.distinct(1) option.inject)
  then have "recv_ok s" using lim by (auto simp: recv_ok_def s received_max_data_def s0_def st_blank_def Let_def)
  moreover have "send_ok (\<lambda>_. []) [] s"
    using lim p by (auto simp: send_ok_def s received_max_data_def s0_def st_blank_def Let_def params_ok_def flight_of_def metas_of_def fin_ok_def map_total_def split: if_splits)
  ultimately show ?thesis using start by (simp add: streams_ok_def)
qed

end
