(* ===== verification/Streams_Flow.thy ===== *)
theory Streams_Flow
  imports Streams_System
begin

text \<open>
  The streams of a connection as one system: the application's calls, the peer's frames, the
  acknowledgement and loss of packets and the filling of packets, in any order.  On every reachable
  state each of them returns without a panic, and flow control holds in both directions.
\<close>

section \<open>The system\<close>

text \<open>Beside the streams and the control frames waiting: the stream frames in flight, and, for the
  statements only, what has been written to each stream.\<close>

record streams_system =
  sx_streams :: streams_state
  sx_control :: retransmits
  sx_flight :: "stream_meta list"
  sx_written :: "stream_id \<Rightarrow> bytes"

definition rt_default :: retransmits where
  "rt_default = \<lparr>rt_max_data = False, rt_max_stream_id = (\<lambda>_. False), rt_reset_stream = [], rt_stop_sending = [], rt_max_stream_data = []\<rparr>"

text \<open>\<^verbatim>\<open>Retransmits::bitor_assign\<close>, for the frames of a packet that was lost.\<close>

definition rt_merge :: "retransmits \<Rightarrow> retransmits \<Rightarrow> retransmits" where
  "rt_merge self rhs = \<lparr>rt_max_data = (rt_max_data self \<or> rt_max_data rhs),
     rt_max_stream_id = (\<lambda>d. rt_max_stream_id self d \<or> rt_max_stream_id rhs d),
     rt_reset_stream = rt_reset_stream rhs @ rt_reset_stream self,
     rt_stop_sending = rt_stop_sending rhs @ rt_stop_sending self,
     rt_max_stream_data = fold List.insert (rt_max_stream_data rhs) (rt_max_stream_data self)\<rparr>"

datatype streams_event =
    XOpen dir
  | XAccept dir
  | XWrite stream_id bytes
  | XWriteChunks stream_id "bytes list"
  | XFinish stream_id
  | XReset stream_id varint
  | XPriority stream_id int
  | XRead stream_id bool "nat list"
  | XStop stream_id varint
  | XReceivedReset stream_id
  | XPoll
  | XMaxConcurrent dir nat
  | XReceiveWindow nat
  | RxStream stream_frame nat
  | RxReset reset_stream
  | RxStopSending stream_id varint
  | RxMaxData nat
  | RxMaxStreams dir nat
  | RxMaxStreamData stream_id nat
  | AckStream stream_meta
  | AckReset stream_id
  | LoseStream stream_meta
  | LoseControl retransmits
  | TxControl nat bytes
  | TxStreams nat bool bytes

text \<open>A stream is read with one \<^verbatim>\<open>Chunks\<close>: any number of calls of \<^verbatim>\<open>next\<close>, then \<^verbatim>\<open>finalize\<close>.\<close>

fun read_chunks :: "nat list \<Rightarrow> chunks_reader \<times> streams_state \<Rightarrow> (chunks_reader \<times> streams_state) option" where
  "read_chunks [] x = Some x"
| "read_chunks (n # ns) x = (case chunks_next n x of
      (Inl Panic, _) \<Rightarrow> None
    | (_, x') \<Rightarrow> read_chunks ns x')"

text \<open>The state after a result, None for a panic.\<close>

definition after :: "('e failure + 'a) \<times> 's \<Rightarrow> 's option" where
  "after = (\<lambda>(r, s). case r of Inl Panic \<Rightarrow> None | _ \<Rightarrow> Some s)"

definition sx_put :: "streams_system \<Rightarrow> streams_state \<Rightarrow> streams_system" where
  "sx_put x s = x\<lparr>sx_streams := s\<rparr>"

definition sx_put2 :: "streams_system \<Rightarrow> streams_state \<times> retransmits \<Rightarrow> streams_system" where
  "sx_put2 x = (\<lambda>(s, rt). x\<lparr>sx_streams := s, sx_control := rt\<rparr>)"

definition sx_wrote :: "stream_id \<Rightarrow> bytes \<Rightarrow> streams_system \<Rightarrow> streams_system" where
  "sx_wrote sid data x = x\<lparr>sx_written := (sx_written x)(sid := sx_written x sid @ data)\<rparr>"

definition sx_exec :: "streams_event \<Rightarrow> streams_system \<Rightarrow> streams_system option" where
  "sx_exec e x = (let s = sx_streams x; rt = sx_control x in case e of
      XOpen d \<Rightarrow> map_option (sx_put x \<circ> snd) (st_open False d s)
    | XAccept d \<Rightarrow> Some (sx_put x (snd (st_accept d s)))
    | XWrite sid data \<Rightarrow> (case send_write False sid data s of
          None \<Rightarrow> None
        | Some (Inl _, s') \<Rightarrow> Some (sx_put x s')
        | Some (Inr n, s') \<Rightarrow> Some (sx_wrote sid (take n data) (sx_put x s')))
    | XWriteChunks sid cs \<Rightarrow> (case send_write_chunks False sid cs s of
          None \<Rightarrow> None
        | Some (Inl _, _, s') \<Rightarrow> Some (sx_put x s')
        | Some (Inr wr, _, s') \<Rightarrow> Some (sx_wrote sid (take (wr_bytes wr) (concat cs)) (sx_put x s')))
    | XFinish sid \<Rightarrow> Some (sx_put x (snd (send_finish sid s)))
    | XReset sid code \<Rightarrow> Some (sx_put2 x (snd (send_reset sid code (s, rt))))
    | XPriority sid p \<Rightarrow> Some (sx_put x (snd (send_set_priority sid p s)))
    | XRead sid ordered ns \<Rightarrow> (case recv_read sid ordered s of
          (Inl _, s') \<Rightarrow> Some (sx_put x s')
        | (Inr ck, s') \<Rightarrow> map_option (\<lambda>(ck, s'). case chunks_finalize ck s' rt of
              (_, _, s'', rt') \<Rightarrow> sx_put2 x (s'', rt')) (read_chunks ns (ck, s')))
    | XStop sid code \<Rightarrow> map_option (sx_put2 x) (after (recv_stop sid code (s, rt)))
    | XReceivedReset sid \<Rightarrow> map_option (sx_put2 x) (after (recv_received_reset sid (s, rt)))
    | XPoll \<Rightarrow> Some (sx_put x (snd (st_poll s)))
    | XMaxConcurrent d n \<Rightarrow> map_option (sx_put x) (set_max_concurrent d n s)
    | XReceiveWindow n \<Rightarrow> Some (sx_put x (snd (set_receive_window n s)))
    | RxStream f n \<Rightarrow> map_option (sx_put x) (after (st_received f n s))
    | RxReset f \<Rightarrow> map_option (sx_put x) (after (st_received_reset f s))
    | RxStopSending sid code \<Rightarrow> Some (sx_put x (received_stop_sending sid code s))
    | RxMaxData n \<Rightarrow> Some (sx_put x (received_max_data n s))
    | RxMaxStreams d n \<Rightarrow> Some (sx_put x (snd (received_max_streams d n s)))
    | RxMaxStreamData sid n \<Rightarrow> Some (sx_put x (snd (received_max_stream_data sid n s)))
    | AckStream f \<Rightarrow> map_option (\<lambda>s'. (sx_put x s')\<lparr>sx_flight := remove1 f (sx_flight x)\<rparr>) (received_ack_of f s)
    | AckReset sid \<Rightarrow> map_option (sx_put x) (reset_acked sid s)
    | LoseStream f \<Rightarrow> Some ((sx_put x (st_retransmit f s))\<lparr>sx_flight := remove1 f (sx_flight x)\<rparr>)
    | LoseControl sent \<Rightarrow> Some (x\<lparr>sx_control := rt_merge rt sent\<rparr>)
    | TxControl m buf \<Rightarrow> map_option (\<lambda>c. x\<lparr>sx_streams := wc_streams c, sx_control := wc_pending c\<rparr>)
        (after (write_control_frames m \<lparr>wc_streams = s, wc_pending = rt, wc_sent = rt_default, wc_buf = buf\<rparr>))
    | TxStreams m fair buf \<Rightarrow> map_option (\<lambda>(metas, _, s'). (sx_put x s')\<lparr>sx_flight := rev metas @ sx_flight x\<rparr>)
        (write_stream_frames m fair buf s))"

text \<open>
  When an event can happen: acknowledged and lost frames are in flight, the peer's integers are those
  of the wire format, a final size is not below what was received, a stream that is read out of order
  gets no empty frame, and identifiers have not run out.
\<close>

definition sx_enabled :: "streams_event \<Rightarrow> streams_system \<Rightarrow> bool" where
  "sx_enabled e x \<longleftrightarrow> ids_left (sx_streams x) \<and> (case e of
      RxStream f n \<Rightarrow> frame_fits f (sx_streams x)
    | RxReset f \<Rightarrow> reset_fits f (sx_streams x)
    | RxMaxData n \<Rightarrow> n < 2 ^ 62
    | RxMaxStreamData sid n \<Rightarrow> n < 2 ^ 62
    | AckStream f \<Rightarrow> f \<in> set (sx_flight x)
    | LoseStream f \<Rightarrow> f \<in> set (sx_flight x)
    | XMaxConcurrent d n \<Rightarrow> st_max_remote (sx_streams x) d + n \<le> 2 ^ 60
    | XReceiveWindow n \<Rightarrow> n < 2 ^ 64
    | TxStreams m fair buf \<Rightarrow> m < 2 ^ 62
    | _ \<Rightarrow> True)"

inductive sx_step :: "streams_system \<Rightarrow> streams_event \<Rightarrow> streams_system \<Rightarrow> bool" where
  sx_stepI: "sx_enabled e x \<Longrightarrow> sx_exec e x = Some x' \<Longrightarrow> sx_step x e x'"

text \<open>A connection after the handshake, with nothing written yet.\<close>

definition sx_of :: "streams_state \<Rightarrow> streams_system" where
  "sx_of s = \<lparr>sx_streams = s, sx_control = rt_default, sx_flight = [], sx_written = (\<lambda>_. [])\<rparr>"

definition sx_start :: "streams_system \<Rightarrow> bool" where
  "sx_start x \<longleftrightarrow> (\<exists>sd max_uni max_bi sw rw srw p s. max_uni \<le> 2 ^ 60 \<and> max_bi \<le> 2 ^ 60 \<and> sw < 2 ^ 64 \<and> rw < 2 ^ 64
     \<and> params_ok p \<and> st_start sd max_uni max_bi sw rw srw p = Some s \<and> x = sx_of s)"

section \<open>The invariant\<close>

definition sx_inv :: "streams_system \<Rightarrow> bool" where
  "sx_inv x \<longleftrightarrow> streams_ok (sx_written x) (sx_flight x) (sx_streams x)"

lemma sx_inv_simps [simp]:
  "sx_inv (sx_put x s) \<longleftrightarrow> streams_ok (sx_written x) (sx_flight x) s"
  "sx_inv (sx_put2 x (s, rt)) \<longleftrightarrow> streams_ok (sx_written x) (sx_flight x) s"
  "sx_inv (sx_wrote sid data (sx_put x s)) \<longleftrightarrow> streams_ok ((sx_written x)(sid := sx_written x sid @ data)) (sx_flight x) s"
  "sx_inv ((sx_put x s)\<lparr>sx_flight := fl\<rparr>) \<longleftrightarrow> streams_ok (sx_written x) fl s"
  by (simp_all add: sx_inv_def sx_put_def sx_put2_def sx_wrote_def)

lemma streams_ok_rx: "streams_ok w fl s \<Longrightarrow> rx_good s s' \<Longrightarrow> streams_ok w fl s'"
  by (auto simp: rx_good_def intro: streams_ok_kept)

lemma read_chunks_ok: "ck_ok sid s0 x \<Longrightarrow> \<exists>x'. read_chunks ns x = Some x' \<and> ck_ok sid s0 x'"
proof (induction ns arbitrary: x)
  case (Cons n ns)
  obtain r x' where "chunks_next n x = (r, x')" "r \<noteq> Inl Panic" "ck_ok sid s0 x'" using chunks_next_ok [OF Cons.prems, of n] by blast
  then show ?case using Cons.IH [of x'] by (cases x) (auto split: sum.splits failure.splits)
qed simp

text \<open>What each event needs and keeps.\<close>

lemma after_ok: "r \<noteq> Inl Panic \<Longrightarrow> after (r, s) = Some s"
  by (auto simp: after_def split: sum.splits failure.splits)

lemma exec_write:
  assumes "sx_inv x"
  shows "\<exists>x'. sx_exec (XWrite sid data) x = Some x' \<and> sx_inv x'"
proof -
  from slice_source.write_source_ok [OF assms [unfolded sx_inv_def], of False sid data] obtain r rest s' where
    w: "write_source False sid slice_pop_chunk data (sx_streams x) = Some (r, rest, s')"
    and ok: "case r of Inl _ \<Rightarrow> streams_ok (sx_written x) (sx_flight x) s'
      | Inr wr \<Rightarrow> data = take (wr_bytes wr) data @ rest
          \<and> streams_ok ((sx_written x)(sid := sx_written x sid @ take (wr_bytes wr) data)) (sx_flight x) s'" by blast
  then show ?thesis by (cases r) (auto simp: sx_exec_def send_write_def Let_def)
qed

lemma exec_write_chunks:
  assumes "sx_inv x"
  shows "\<exists>x'. sx_exec (XWriteChunks sid cs) x = Some x' \<and> sx_inv x'"
proof -
  have c: "ba_content (ba_from_chunks cs) = concat cs" by (simp add: ba_content_def ba_from_chunks_def)
  from array_source.write_source_ok [OF assms [unfolded sx_inv_def], of False sid "ba_from_chunks cs", unfolded c] obtain r rest s' where
    w: "write_source False sid ba_pop_chunk (ba_from_chunks cs) (sx_streams x) = Some (r, rest, s')"
    and ok: "case r of Inl _ \<Rightarrow> streams_ok (sx_written x) (sx_flight x) s'
      | Inr wr \<Rightarrow> concat cs = take (wr_bytes wr) (concat cs) @ ba_content rest
          \<and> streams_ok ((sx_written x)(sid := sx_written x sid @ take (wr_bytes wr) (concat cs))) (sx_flight x) s'" by blast
  then show ?thesis by (cases r) (auto simp: sx_exec_def send_write_chunks_def Let_def)
qed

lemma exec_read:
  assumes "sx_inv x" "ids_left (sx_streams x)"
  shows "\<exists>x'. sx_exec (XRead sid ordered ns) x = Some x' \<and> sx_inv x'"
proof -
  have ok: "streams_ok (sx_written x) (sx_flight x) (sx_streams x)" using assms(1) by (simp add: sx_inv_def)
  then have new: "case chunks_new sid ordered (sx_streams x) of (Inl _, s') \<Rightarrow> rx_good (sx_streams x) s'
      | (Inr ck, s') \<Rightarrow> ck_ok sid (sx_streams x) (ck, s')"
    using assms(2) by (intro chunks_new_ok) (auto simp: streams_ok_def)
  obtain r s' where r: "chunks_new sid ordered (sx_streams x) = (r, s')" by fastforce
  show ?thesis
  proof (cases r)
    case (Inl e)
    then show ?thesis using new r streams_ok_rx [OF ok] by (simp add: sx_exec_def recv_read_def)
  next
    case (Inr ck)
    then obtain ck' s2 where rd: "read_chunks ns (ck, s') = Some (ck', s2)" and ck: "ck_ok sid (sx_streams x) (ck', s2)"
      using new r read_chunks_ok [of sid "sx_streams x" "(ck, s')" ns] by auto
    obtain b ck'' s3 rt where fin: "chunks_finalize ck' s2 (sx_control x) = (b, ck'', s3, rt)" by (metis surj_pair)
    then have "streams_ok (sx_written x) (sx_flight x) s3"
      using chunks_finalize_ok [OF ck, of "sx_control x"] streams_ok_rx [OF ok] by simp
    then show ?thesis using Inr r rd fin by (simp add: sx_exec_def recv_read_def)
  qed
qed

lemma exec_receive:
  assumes "sx_inv x" "ids_left (sx_streams x)"
  shows "frame_fits f (sx_streams x) \<Longrightarrow> \<exists>x'. sx_exec (RxStream f n) x = Some x' \<and> sx_inv x'"
    and "reset_fits g (sx_streams x) \<Longrightarrow> \<exists>x'. sx_exec (RxReset g) x = Some x' \<and> sx_inv x'"
    and "\<exists>x'. sx_exec (XStop sid code) x = Some x' \<and> sx_inv x'"
    and "\<exists>x'. sx_exec (XReceivedReset sid) x = Some x' \<and> sx_inv x'"
proof -
  let ?s = "sx_streams x"
  have ok: "streams_ok (sx_written x) (sx_flight x) ?s" using assms(1) by (simp add: sx_inv_def)
  then have tr: "tables_ok {} ?s" "recv_ok ?s" by (auto simp: streams_ok_def)
  note rx = streams_ok_rx [OF ok]
  show "\<exists>x'. sx_exec (RxStream f n) x = Some x' \<and> sx_inv x'" if "frame_fits f ?s"
    using st_received_ok [OF tr assms(2) that, of n] rx by (auto simp: sx_exec_def after_ok)
  show "\<exists>x'. sx_exec (RxReset g) x = Some x' \<and> sx_inv x'" if "reset_fits g ?s"
    using st_received_reset_ok [OF tr assms(2) that] rx by (auto simp: sx_exec_def after_ok)
  show "\<exists>x'. sx_exec (XStop sid code) x = Some x' \<and> sx_inv x'"
    using recv_stop_ok [OF tr assms(2), of sid code "sx_control x"] rx by (auto simp: sx_exec_def after_ok)
  show "\<exists>x'. sx_exec (XReceivedReset sid) x = Some x' \<and> sx_inv x'"
    using recv_received_reset_ok [OF tr assms(2), of sid "sx_control x"] rx by (auto simp: sx_exec_def after_ok)
qed

lemma exec_transmit:
  assumes "sx_inv x"
  shows "\<exists>x'. sx_exec (TxControl m buf) x = Some x' \<and> sx_inv x'"
    and "m < 2 ^ 62 \<Longrightarrow> \<exists>x'. sx_exec (TxStreams m fair buf) x = Some x' \<and> sx_inv x'"
proof -
  have ok: "streams_ok (sx_written x) (sx_flight x) (sx_streams x)" using assms by (simp add: sx_inv_def)
  let ?c = "\<lparr>wc_streams = sx_streams x, wc_pending = sx_control x, wc_sent = rt_default, wc_buf = buf\<rparr>"
  have good: "wc_good (sx_written x) (sx_flight x) (write_control_frames m ?c)" by (rule write_control_frames_ok) (simp add: ok)
  obtain r c where rc: "write_control_frames m ?c = (r, c)" by fastforce
  show "\<exists>x'. sx_exec (TxControl m buf) x = Some x' \<and> sx_inv x'"
    using good by (simp add: sx_exec_def rc after_ok) (simp add: sx_inv_def)
  show "\<exists>x'. sx_exec (TxStreams m fair buf) x = Some x' \<and> sx_inv x'" if "m < 2 ^ 62"
    using write_stream_frames_ok [OF ok that, of fair buf] by (auto simp: sx_exec_def)
qed

text \<open>Every event that can happen returns, and keeps the invariant.\<close>

lemma sx_exec_ok:
  assumes inv: "sx_inv x" and en: "sx_enabled e x"
  shows "\<exists>x'. sx_exec e x = Some x' \<and> sx_inv x'"
proof -
  have ok: "streams_ok (sx_written x) (sx_flight x) (sx_streams x)" using inv by (simp add: sx_inv_def)
  have ids: "ids_left (sx_streams x)" using en by (simp add: sx_enabled_def)
  show ?thesis
  proof (cases e)
    case (XOpen d)
    then show ?thesis using st_open_ok [OF ok, of False d] by (auto simp: sx_exec_def)
  next
    case (XReset sid code)
    obtain s' rt where "snd (send_reset sid code (sx_streams x, sx_control x)) = (s', rt)" by fastforce
    then show ?thesis using XReset send_reset_ok [OF ok, of sid code "sx_control x"] by (simp add: sx_exec_def)
  next
    case (XMaxConcurrent d n)
    then show ?thesis using en set_max_concurrent_ok [OF ok, of d n] by (auto simp: sx_exec_def sx_enabled_def)
  next
    case (AckStream f)
    then show ?thesis using en received_ack_of_ok [OF ok ids, of f] by (auto simp: sx_exec_def sx_enabled_def)
  next
    case (AckReset sid)
    then show ?thesis using reset_acked_ok [OF ok ids, of sid] by (auto simp: sx_exec_def)
  next
    case (LoseControl rt)
    then show ?thesis using ok by (simp add: sx_exec_def sx_inv_def)
  qed (use en ids inv in \<open>simp_all add: sx_enabled_def exec_write exec_write_chunks exec_read exec_receive exec_transmit\<close>,
       use en ok in \<open>simp_all add: sx_exec_def sx_enabled_def st_accept_ok send_finish_ok send_set_priority_ok st_poll_ok
         set_receive_window_ok received_stop_sending_ok received_max_data_ok received_max_streams_ok received_max_stream_data_ok
         st_retransmit_ok\<close>)
qed

lemma sx_start_inv:
  assumes "sx_start x"
  shows "sx_inv x"
proof -
  from assms obtain sd max_uni max_bi sw rw srw p s where
    lim: "max_uni \<le> 2 ^ 60" "max_bi \<le> 2 ^ 60" "sw < 2 ^ 64" "rw < 2 ^ 64" "params_ok p"
    and s: "st_start sd max_uni max_bi sw rw srw p = Some s" "x = sx_of s" unfolding sx_start_def by blast
  from st_start_ok [OF lim, of sd srw] s show ?thesis by (simp add: sx_inv_def sx_of_def)
qed

lemma reachable_sx_inv: "reachable sx_start sx_step x \<Longrightarrow> sx_inv x"
  by (erule reachable_invariant) (auto simp: sx_start_inv sx_step.simps dest: sx_exec_ok)

text \<open>Running a list of events.\<close>

fun sx_run :: "streams_event list \<Rightarrow> streams_system \<Rightarrow> streams_system option" where
  "sx_run [] x = Some x"
| "sx_run (e # es) x = (if sx_enabled e x then Option.bind (sx_exec e x) (sx_run es) else None)"

lemma sx_run_reachable: "sx_run es x = Some x' \<Longrightarrow> reachable sx_start sx_step x \<Longrightarrow> reachable sx_start sx_step x'"
  by (induction es arbitrary: x) (auto simp: bind_eq_Some_conv intro: reach_step sx_stepI split: if_splits)

lemma ids_left_code [code]:
  "ids_left s \<longleftrightarrow> list_all (\<lambda>d. st_max_remote s d + st_max_concurrent_remote_count s d \<le> 2 ^ 60) dir_iter"
  by (simp add: ids_left_def dir_all dir_iter_def)

end
