(* ===== verification/Streams_Progress.thy ===== *)
theory Streams_Progress
  imports Streams_Flow
begin

text \<open>
  Progress of the sending side: every call of \<^verbatim>\<open>write_stream_frames\<close> with room for a frame and a stream
  waiting does some of the work there is, so that enough packets put everything the application wrote,
  and every end of a stream, into flight.
\<close>

section \<open>The work left\<close>

text \<open>The bytes a buffer has to send, again or for the first time.\<close>

definition togo :: "send_buffer \<Rightarrow> nat" where
  "togo sb = (sb_offset sb - sb_unsent sb) + card (ranges_elems (sb_retransmits sb))"

definition tx_owed :: "send_stream option option \<Rightarrow> nat" where
  "tx_owed e = (case e of Some (Some t) \<Rightarrow> if tx_is_reset t then 0 else togo (tx_pending t) + of_bool (tx_fin_pending t) | _ \<Rightarrow> 0)"

definition st_work :: "streams_state \<Rightarrow> nat" where
  "st_work s = map_total tx_owed (st_send s) + pq_len (st_pending s)"

lemma has_unsent_togo:
  assumes "sb_inv w sb"
  shows "sb_has_unsent_data sb \<longleftrightarrow> togo sb \<noteq> 0"
proof -
  have "sb_unsent sb \<le> sb_offset sb" "card (ranges_elems (sb_retransmits sb)) = 0 \<longleftrightarrow> sb_retransmits sb = []"
    using assms ranges_elems_empty_iff [of "sb_retransmits sb"] by (auto simp: sb_inv_def)
  then show ?thesis by (simp add: sb_has_unsent_data_def togo_def btree_is_empty_def, linarith)
qed

lemma sb_poll_togo:
  assumes inv: "sb_inv w sb" and len: "16 \<le> n" "n < 2 ^ 62" and poll: "sb_poll_transmit n sb = ((r, enc), sb')"
    and r: "fst r \<le> snd r" "snd r \<le> sb_offset sb"
  shows "togo sb' + (snd r - fst r) = togo sb" "sb_inv w sb'" "\<not> sb_has_unsent_data sb \<Longrightarrow> snd r = sb_offset sb'"
proof -
  show "togo sb' + (snd r - fst r) = togo sb"
  proof (cases "ranges_elems (sb_retransmits sb) = {}")
    case True
    note p = sb_poll_new [OF inv len True poll]
    show ?thesis using p r sb_poll_unacked(2) [OF poll] by (simp add: togo_def)
  next
    case False
    note p = sb_poll_retransmit [OF inv len False poll]
    have "card (ranges_elems (sb_retransmits sb)) = card (range_elems r) + card (ranges_elems (sb_retransmits sb'))"
      unfolding p(5) by (rule card_Un_disjoint) (use p(6) in \<open>simp_all add: range_elems_def\<close>)
    then show ?thesis using p(2) sb_poll_unacked(2) [OF poll] by (simp add: togo_def range_elems_def)
  qed
  show "sb_inv w sb'" using sb_poll_new(1) [OF inv len _ poll] sb_poll_retransmit(1) [OF inv len _ poll] by blast
  assume "\<not> sb_has_unsent_data sb"
  then have u: "ranges_elems (sb_retransmits sb) = {}" "sb_unsent sb = sb_offset sb"
    by (auto simp: sb_has_unsent_data_def btree_is_empty_def)
  show "snd r = sb_offset sb'" using sb_poll_new(5) [OF inv len u(1) poll] r u(2) sb_poll_unacked(2) [OF poll] by simp
qed

lemma length_heap_insert: "length (heap_insert before x xs) = Suc (length xs)"
  by (induction xs) auto

lemma pq_requeue_len: "pq_len ((if fair then push_pending else reinsert_pending) sid priority q) \<le> Suc (pq_len q)"
  by (auto simp: pq_len_def push_pending_def reinsert_pending_def Let_def length_heap_insert)

text \<open>A stream that takes a range from its buffer owes less if it owed anything.\<close>

lemma tx_frame_owed:
  assumes tok: "tx_ok sid w fl t" "\<not> tx_is_reset t" and len: "17 \<le> n" "n < 2 ^ 62"
    and poll: "sb_poll_transmit n (tx_pending t) = ((r, enc), sb)"
    and fin: "fin \<longleftrightarrow> snd r = sb_offset sb \<and> (case tx_state t of DataSent _ \<Rightarrow> True | _ \<Rightarrow> False)"
    and t': "t' = t\<lparr>tx_pending := sb, tx_fin_pending := (if fin then False else tx_fin_pending t)\<rparr>"
  shows "tx_is_pending t \<Longrightarrow> tx_owed (Some (Some t')) < tx_owed (Some (Some t))"
    and "\<not> tx_is_pending t \<Longrightarrow> tx_owed (Some (Some t')) \<le> tx_owed (Some (Some t)) \<and> \<not> tx_is_pending t'"
proof -
  have sy: "sy_inv \<lparr>sy_buf = tx_pending t, sy_written = w, sy_flight = flight_of sid fl\<rparr>"
    and sb: "sb_inv w (tx_pending t)" using tok by (simp_all add: tx_ok_def sy_inv_def)
  note tr = sb_transmit_correct [OF sy len, simplified, OF poll]
  have r: "fst r \<le> snd r" "snd r \<le> sb_offset (tx_pending t)" using tr sb by (auto simp: sb_inv_def)
  have "16 \<le> n" using len(1) by simp
  note togo = sb_poll_togo [OF sb this len(2) poll r]
  have nr: "\<not> tx_is_reset t'" using tok(2) by (simp add: t' tx_is_reset_def)
  note owed = tx_owed_def [of "Some (Some t')"] tx_owed_def [of "Some (Some t)"]
  show "tx_owed (Some (Some t')) < tx_owed (Some (Some t))" if pend: "tx_is_pending t"
  proof (cases "sb_has_unsent_data (tx_pending t)")
    case True
    then have "togo sb < togo (tx_pending t)" using togo(1) tr by auto
    then show ?thesis using tok(2) nr by (simp add: owed) (simp add: t')
  next
    case False
    then have f: "tx_fin_pending t" using pend by (simp add: tx_is_pending_def)
    then have "tx_state t \<noteq> Ready" using tok(1) by (auto simp: tx_ok_def fin_ok_def)
    then have "fin" using togo(3) [OF False] tok(2) unfolding fin by (cases "tx_state t") (auto simp: tx_is_reset_def)
    then show ?thesis using f togo(1) tok(2) nr by (simp add: owed) (simp add: t')
  qed
  show "tx_owed (Some (Some t')) \<le> tx_owed (Some (Some t)) \<and> \<not> tx_is_pending t'" if "\<not> tx_is_pending t"
    using that tok(2) nr togo(1) has_unsent_togo [OF sb] has_unsent_togo [OF togo(2)]
    by (auto simp: owed tx_is_pending_def) (auto simp: t' split: if_splits)
qed

text \<open>A frame takes data, or the end of its stream, or the stream from the queue.\<close>

lemma write_stream_frame_work:
  assumes ok: "streams_ok w fl s" and pop: "pq_pop (st_pending s) = (Some p, pq)" and sid: "ps_id p = sid"
    and t: "st_send s sid = Some (Some t)" "\<not> tx_is_reset t" and room: "length buf + 25 < m" "m < 2 ^ 62"
    and frame: "write_stream_frame m fair sid t buf (s\<lparr>st_pending := pq\<rparr>) = Some (meta, buf', s')"
  shows "st_work s' < st_work s \<and> frame_view s' = frame_view s \<and> st_max_concurrent_remote_count s' = st_max_concurrent_remote_count s"
proof -
  have send: "send_ok w fl s" and fin: "finite (dom (st_send s))" using ok by (auto simp: streams_ok_def tables_ok_def)
  have tok: "tx_ok sid (w sid) fl t" using send t by (simp add: send_ok_def)
  define n where "n = u64_sub (u64_sub (u64_sub m (length buf)) 1) (varint_size sid)"
  have n: "17 \<le> n" "n < 2 ^ 62" using room varint_size_bounds [of sid] by (auto simp: n_def u64_sub_eq)
  obtain r enc sb where poll: "sb_poll_transmit n (tx_pending t) = ((r, enc), sb)" by (metis surj_pair)
  define fin' where "fin' = (snd r = sb_offset sb \<and> (case tx_state t of DataSent _ \<Rightarrow> True | _ \<Rightarrow> False))"
  define t' where "t' = t\<lparr>tx_pending := sb, tx_fin_pending := (if fin' then False else tx_fin_pending t)\<rparr>"
  define pq' where "pq' = (if tx_is_pending t' then (if fair then push_pending else reinsert_pending) sid (tx_priority t') pq else pq)"
  have s': "s' = (put_send sid t' s)\<lparr>st_pending := pq'\<rparr>"
    using frame unfolding write_stream_frame_def n_def [symmetric] Let_def poll
    by (auto simp: fin'_def t'_def pq'_def put_send_def bind_eq_Some_conv)
  note owed = tx_frame_owed [OF tok t(2) n poll fin'_def t'_def]
  have "pq_len pq' \<le> Suc (pq_len pq)" "\<not> tx_is_pending t' \<Longrightarrow> pq_len pq' = pq_len pq"
    using pq_requeue_len [of fair sid "tx_priority t'" pq] by (simp_all add: pq'_def)
  moreover have "map_total tx_owed (st_send s') + tx_owed (Some (Some t)) = map_total tx_owed (st_send s) + tx_owed (Some (Some t'))"
    using map_total_update [OF fin, of tx_owed sid "Some (Some t')"] t(1) by (simp add: s' tx_owed_def)
  moreover have "pq_len (st_pending s) = Suc (pq_len pq)" by (rule pq_pop_len [OF pop])
  ultimately have "st_work s' < st_work s" using owed by (cases "tx_is_pending t") (auto simp: st_work_def s')
  then show ?thesis by (simp add: s' put_send_def frame_view_def)
qed

text \<open>A call with room for a frame and a stream waiting does some of the work.\<close>

lemma write_stream_frames_work:
  assumes "streams_ok w fl s" "m < 2 ^ 62" "write_stream_frames m fair buf s = Some (metas, buf', s')"
  shows "(if length buf + 25 < m \<and> pq_iter (st_pending s) \<noteq> [] then st_work s' < st_work s else s' = s)
    \<and> frame_view s' = frame_view s \<and> st_max_concurrent_remote_count s' = st_max_concurrent_remote_count s"
proof -
  have "\<exists>metas payload s'. write_stream_frames m fair buf s = Some (metas, buf @ payload, s') \<and>
    (if length buf + 25 < m \<and> pq_iter (st_pending s) \<noteq> [] then st_work s' < st_work s else s' = s)
    \<and> frame_view s' = frame_view s \<and> st_max_concurrent_remote_count s' = st_max_concurrent_remote_count s"
  proof (rule write_stream_frames_rounds [OF assms(1,2)], goal_cases)
    case 1
    then show ?case by simp
  next
    case (2 fl buf s p pq metas payload s')
    then show ?case using pq_pop_empty [of "st_pending s"] pq_pop_len [of "st_pending s" p pq]
      by (auto simp: st_work_def split: if_splits)
  next
    case (3 fl buf s p pq t meta bytes s' metas payload s'')
    then show ?case using pq_pop_empty [of "st_pending s"] write_stream_frame_work [OF 3(1,3) refl 3(4,5,2) assms(2) 3(6)]
      by (auto split: if_splits)
  qed
  then show ?thesis using assms(3) by auto
qed

section \<open>Draining the queue\<close>

lemma drain:
  assumes "sx_inv x" "ids_left (sx_streams x)" "25 < m" "m < 2 ^ 62"
  shows "\<exists>n x'. sx_run (replicate n (TxStreams m fair [])) x = Some x' \<and> sx_inv x'
    \<and> pq_iter (st_pending (sx_streams x')) = [] \<and> sx_written x' = sx_written x"
  using assms(1,2)
proof (induction "st_work (sx_streams x)" arbitrary: x rule: less_induct)
  case less
  show ?case
  proof (cases "pq_iter (st_pending (sx_streams x)) = []")
    case True
    then show ?thesis using less.prems by (intro exI [of _ 0]) simp
  next
    case False
    let ?e = "TxStreams m fair []"
    have ok: "streams_ok (sx_written x) (sx_flight x) (sx_streams x)" using less.prems(1) by (simp add: sx_inv_def)
    then obtain metas payload s' where tx: "write_stream_frames m fair [] (sx_streams x) = Some (metas, payload, s')"
      using write_stream_frames_ok [OF ok assms(4), of fair "[]"] by auto
    define x1 where "x1 = (sx_put x s')\<lparr>sx_flight := rev metas @ sx_flight x\<rparr>"
    have exec: "sx_exec ?e x = Some x1" by (simp add: sx_exec_def tx x1_def)
    have en: "sx_enabled ?e x" using less.prems(2) assms(4) by (simp add: sx_enabled_def)
    have x1: "sx_inv x1" "sx_streams x1 = s'" "sx_written x1 = sx_written x"
      using sx_exec_ok [OF less.prems(1) en] exec by (simp_all add: x1_def sx_put_def)
    note work = write_stream_frames_work [OF ok assms(4) tx]
    have "st_work (sx_streams x1) < st_work (sx_streams x)" using work False assms(3) x1(2) by simp
    moreover have "ids_left (sx_streams x1)" using work less.prems(2) x1(2) by (simp add: ids_left_def frame_view_def)
    ultimately obtain n x' where "sx_run (replicate n ?e) x1 = Some x'" "sx_inv x'"
      "pq_iter (st_pending (sx_streams x')) = []" "sx_written x' = sx_written x"
      using less.hyps x1 by metis
    then show ?thesis using en exec by (intro exI [of _ "Suc n"] exI [of _ x']) simp
  qed
qed

text \<open>With the queue empty, what was written is in flight or acknowledged, and so is the end of a finished stream.\<close>

lemma drained:
  assumes inv: "sx_inv x" and q: "pq_iter (st_pending (sx_streams x)) = []"
    and t: "st_send (sx_streams x) sid = Some (Some t)" "\<not> tx_is_reset t"
  shows "\<not> tx_is_pending t"
    and "k < length (sx_written x sid) \<Longrightarrow> k \<in> sb_acked (tx_pending t) \<or> (\<exists>f\<in>set (sx_flight x). sm_id f = sid \<and> k \<in> range_elems (sm_offsets f))"
    and "tx_state t = DataSent False \<Longrightarrow> \<exists>f\<in>set (sx_flight x). sm_id f = sid \<and> sm_fin f"
proof -
  have "send_ok (sx_written x) (sx_flight x) (sx_streams x)" using inv by (simp add: sx_inv_def streams_ok_def)
  then have tok: "tx_ok sid (sx_written x sid) (sx_flight x) t" and np: "\<not> tx_is_pending t"
    using t q by (auto simp: send_ok_def queued_def)
  show "\<not> tx_is_pending t" by (rule np)
  have sy: "sy_inv \<lparr>sy_buf = tx_pending t, sy_written = sx_written x sid, sy_flight = flight_of sid (sx_flight x)\<rparr>"
    using tok t(2) by (simp add: tx_ok_def)
  have sent: "sb_unsent (tx_pending t) = length (sx_written x sid)" "ranges_elems (sb_retransmits (tx_pending t)) = {}"
    using sy np by (auto simp: sy_inv_def sb_inv_def tx_is_pending_def sb_has_unsent_data_def btree_is_empty_def)
  show "k \<in> sb_acked (tx_pending t) \<or> (\<exists>f\<in>set (sx_flight x). sm_id f = sid \<and> k \<in> range_elems (sm_offsets f))"
    if "k < length (sx_written x sid)"
  proof (rule ccontr)
    assume no: "\<not> (k \<in> sb_acked (tx_pending t) \<or> (\<exists>f\<in>set (sx_flight x). sm_id f = sid \<and> k \<in> range_elems (sm_offsets f)))"
    then have "filter (\<lambda>r. k \<in> range_elems r) (flight_of sid (sx_flight x)) = []"
      by (auto simp: filter_empty_conv flight_of_def metas_of_def)
    then have "sb_places \<lparr>sy_buf = tx_pending t, sy_written = sx_written x sid, sy_flight = flight_of sid (sx_flight x)\<rparr> k = 0"
      using no sent(2) by (simp add: sb_places_def)
    then show False using sy sent that by (simp add: sy_inv_def)
  qed
  show "\<exists>f\<in>set (sx_flight x). sm_id f = sid \<and> sm_fin f" if "tx_state t = DataSent False"
    using tok np that by (auto simp: tx_ok_def fin_ok_def tx_is_pending_def metas_of_def)
qed

section \<open>A run\<close>

text \<open>A server opens a stream, writes to it, receives on the peer's stream, sends, writes again and finishes.\<close>

definition run_params :: stream_params where
  "run_params = \<lparr>sp_initial_max_stream_data_uni = 50, sp_initial_max_stream_data_bidi_local = 50,
     sp_initial_max_stream_data_bidi_remote = 50, sp_initial_max_streams_bidi = 2, sp_initial_max_streams_uni = 1,
     sp_initial_max_data = 60\<rparr>"

definition run_events :: "streams_event list" where
  "run_events = [XOpen Bi, XWrite 1 [1, 2, 3, 4, 5], RxStream \<lparr>sf_id = 0, sf_offset = 0, sf_fin = False, sf_data = [9, 8, 7]\<rparr> 3,
     TxStreams 100 True [], XWrite 1 [6, 7], XFinish 1]"

definition run_shape :: "streams_system \<Rightarrow> bool" where
  "run_shape x \<longleftrightarrow> ids_left (sx_streams x) \<and> sx_enabled XPoll x \<and> sx_written x 1 = [1, 2, 3, 4, 5, 6, 7]
     \<and> map (\<lambda>f. (sm_id f, sm_offsets f)) (sx_flight x) = [(1, (0, 5))]
     \<and> (case st_send (sx_streams x) 1 of Some (Some t) \<Rightarrow> \<not> tx_is_reset t \<and> tx_is_pending t \<and> sb_unacked (tx_pending t) = 7 | _ \<Rightarrow> False)
     \<and> st_unacked_data (sx_streams x) = 7 \<and> st_data_recvd (sx_streams x) = 3"

lemma run_eval:
  "case st_start Server 0 1 100 20 10 run_params of None \<Rightarrow> False
     | Some s \<Rightarrow> (case sx_run run_events (sx_of s) of None \<Rightarrow> False | Some x \<Rightarrow> run_shape x)"
  by code_simp

lemma run_reachable:
  obtains x where "reachable sx_start sx_step x" "run_shape x"
proof -
  from run_eval obtain s x where s: "st_start Server 0 1 100 20 10 run_params = Some s" and x: "sx_run run_events (sx_of s) = Some x" "run_shape x"
    by (auto split: option.splits)
  have "sx_start (sx_of s)"
    unfolding sx_start_def using s
    by (intro exI [of _ Server] exI [of _ 0] exI [of _ 1] exI [of _ 100] exI [of _ 20] exI [of _ 10] exI [of _ run_params] exI [of _ s])
      (simp add: run_params_def params_ok_def)
  then have "reachable sx_start sx_step (sx_of s)" by (rule reach_init)
  from that [OF sx_run_reachable [OF x(1) this] x(2)] show ?thesis .
qed

section \<open>Correctness of the streams\<close>





text \<open>
  (C4) A packet's stream frames are a piece of what the application wrote: \<^verbatim>\<open>write_stream_frames\<close>
  returns within the size it is given, and the receiver's iterator reads from its output exactly the
  frames it reports, each with the bytes written to its stream at its offset.
\<close>

theorem packets_carry_written_data:
  assumes "reachable sx_start sx_step x" "m < 2 ^ 62" "length buf \<le> m"
  shows "\<exists>metas payload s'. write_stream_frames m fair buf (sx_streams x) = Some (metas, buf @ payload, s')
    \<and> length (buf @ payload) \<le> m
    \<and> iter_collect \<lparr>it_bytes = payload, it_last_ty = None\<rparr> = map (\<lambda>f. Inr (Stream
         \<lparr>sf_id = sm_id f, sf_offset = of_nat (fst (sm_offsets f)), sf_fin = sm_fin f,
           sf_data = byte_slice (sx_written x (sm_id f)) (sm_offsets f)\<rparr>)) metas
    \<and> (\<forall>f\<in>set metas. fst (sm_offsets f) \<le> snd (sm_offsets f) \<and> snd (sm_offsets f) \<le> length (sx_written x (sm_id f)))"
proof -
  have ok: "streams_ok (sx_written x) (sx_flight x) (sx_streams x)" using reachable_sx_inv [OF assms(1)] by (simp add: sx_inv_def)
  from write_stream_frames_ok [OF ok assms(2), of fair buf] show ?thesis
    using assms(3) unfolding frames_written_def range_written_def frame_of_def by blast
qed

theorem packets_carry_written_data_witness:
  "\<exists>x metas payload s'. reachable sx_start sx_step x \<and> sx_written x 1 = [1, 2, 3, 4, 5, 6, 7]
    \<and> write_stream_frames 1200 True [] (sx_streams x) = Some (metas, payload, s') \<and> length payload \<le> 1200"
proof (rule run_reachable)
  fix x
  assume x: "reachable sx_start sx_step x" "run_shape x"
  from packets_carry_written_data [OF x(1), of 1200 "[]" True] obtain metas payload s' where
    "write_stream_frames 1200 True [] (sx_streams x) = Some (metas, payload, s')" "length payload \<le> 1200" by auto
  then show ?thesis using x by (intro exI [of _ x] exI [of _ metas] exI [of _ payload] exI [of _ s']) (simp add: run_shape_def)
qed

text \<open>
  (C2) Everything written is sent: from every state a connection can reach, enough packets of any size that
  holds a frame put every byte written to an open stream in flight, unless it has been acknowledged, and
  also the end of every stream that was finished.
\<close>

theorem written_data_is_sent:
  assumes "reachable sx_start sx_step x" "ids_left (sx_streams x)" "25 < m" "m < 2 ^ 62"
  shows "\<exists>n x'. sx_run (replicate n (TxStreams m fair [])) x = Some x' \<and> sx_written x' = sx_written x
    \<and> (\<forall>sid t. st_send (sx_streams x') sid = Some (Some t) \<and> \<not> tx_is_reset t \<longrightarrow>
        (\<forall>k<length (sx_written x sid). k \<in> sb_acked (tx_pending t)
           \<or> (\<exists>f\<in>set (sx_flight x'). sm_id f = sid \<and> k \<in> range_elems (sm_offsets f)))
        \<and> (tx_state t = DataSent False \<longrightarrow> (\<exists>f\<in>set (sx_flight x'). sm_id f = sid \<and> sm_fin f)))"
proof -
  obtain n x' where x': "sx_run (replicate n (TxStreams m fair [])) x = Some x'" "sx_inv x'"
    "pq_iter (st_pending (sx_streams x')) = []" "sx_written x' = sx_written x"
    using drain [OF reachable_sx_inv [OF assms(1)] assms(2-4), of fair] by blast
  show ?thesis using x' drained(2,3) [OF x'(2,3)] by (intro exI [of _ n] exI [of _ x']) fastforce
qed

theorem written_data_is_sent_witness:
  "\<exists>x n x'. reachable sx_start sx_step x \<and> run_shape x \<and> sx_run (replicate n (TxStreams 26 False [])) x = Some x'
    \<and> sx_written x' 1 = [1, 2, 3, 4, 5, 6, 7]
    \<and> (\<forall>t. st_send (sx_streams x') 1 = Some (Some t) \<and> \<not> tx_is_reset t \<longrightarrow>
         6 \<in> sb_acked (tx_pending t) \<or> (\<exists>f\<in>set (sx_flight x'). sm_id f = 1 \<and> 6 \<in> range_elems (sm_offsets f)))"
proof (rule run_reachable)
  fix x
  assume x: "reachable sx_start sx_step x" "run_shape x"
  then have shape: "ids_left (sx_streams x)" "sx_written x 1 = [1, 2, 3, 4, 5, 6, 7]" by (simp_all add: run_shape_def)
  from written_data_is_sent [OF x(1) shape(1), of 26 False] obtain n x' where
    run: "sx_run (replicate n (TxStreams 26 False [])) x = Some x'" "sx_written x' = sx_written x"
    and sent: "\<forall>t. st_send (sx_streams x') 1 = Some (Some t) \<and> \<not> tx_is_reset t \<longrightarrow>
      (\<forall>k<length (sx_written x 1). k \<in> sb_acked (tx_pending t) \<or> (\<exists>f\<in>set (sx_flight x'). sm_id f = 1 \<and> k \<in> range_elems (sm_offsets f)))"
    by auto
  have "6 < length (sx_written x 1)" by (simp add: shape)
  then show ?thesis using x run sent shape(2) by (intro exI [of _ x] exI [of _ n] exI [of _ x']) auto
qed

end
