(* ===== verification/Streams_Limits.thy ===== *)
theory Streams_Limits
  imports Streams_Flow
begin

text \<open>
  Where the accounting of the streams (\<^verbatim>\<open>src/src/connection/streams/state.rs\<close>) departs from the limits it
  announces: sequences of frames and calls after which a limit no longer binds the peer, or binds this
  side for good.
\<close>

section \<open>A connection and its peer\<close>

text \<open>The peer may open two streams, send 20 bytes in all and 50 on each stream.\<close>

definition lim_params :: stream_params where
  "lim_params = \<lparr>sp_initial_max_stream_data_uni = 50, sp_initial_max_stream_data_bidi_local = 50,
     sp_initial_max_stream_data_bidi_remote = 50, sp_initial_max_streams_bidi = 2, sp_initial_max_streams_uni = 1,
     sp_initial_max_data = 60\<rparr>"

definition lim_start :: "side \<Rightarrow> streams_state option" where
  "lim_start sd = st_start sd 0 2 100 20 50 lim_params"

definition lim_frame :: "stream_id \<Rightarrow> u64 \<Rightarrow> nat \<Rightarrow> bool \<Rightarrow> stream_frame" where
  "lim_frame sid offset n fin = \<lparr>sf_id = sid, sf_offset = offset, sf_fin = fin, sf_data = replicate n 0\<rparr>"

text \<open>What a call returned, and the state it left.\<close>

definition accepts :: "('e + 'a) \<times> 's \<Rightarrow> bool" where
  "accepts x = (case fst x of Inl _ \<Rightarrow> False | Inr _ \<Rightarrow> True)"

section \<open>The final size\<close>


text \<open>
  Stopping a stream and then receiving its reset returns the same bytes to the peer twice: after ten
  bytes of a stream that nobody read, the limit of the connection has grown by twenty.
\<close>

theorem stop_then_reset_credits_twice:
  "case lim_start Server of None \<Rightarrow> False
    | Some s \<Rightarrow>
        let x1 = st_received (lim_frame 0 0 10 False) 10 s;
            x2 = recv_stop 0 7 (snd x1, rt_default);
            x3 = st_received_reset \<lparr>rst_id = 0, rst_error_code = 0, rst_final_offset = 10\<rparr> (fst (snd x2))
        in accepts x1 \<and> accepts x2 \<and> accepts x3 \<and> st_data_recvd (snd x3) = 10
          \<and> st_local_max_data s = 20 \<and> st_local_max_data (snd x3) = 40"
  by code_simp

text \<open>
  A MAX_STREAM_DATA frame for a stream of the peer that it may not open is accepted, and
  \<^verbatim>\<open>accept\<close> then hands out a stream beyond the limit, for which there is no state.
\<close>

theorem max_stream_data_opens_beyond_limit:
  "case lim_start Server of None \<Rightarrow> False
    | Some s \<Rightarrow>
        let x1 = received_max_stream_data (sid_new Client Bi 3) 0 s;
            s3 = snd (st_accept Bi (snd (st_accept Bi (snd x1))));
            x4 = st_accept Bi s3
        in accepts x1 \<and> st_max_remote s Bi = 2 \<and> fst x4 = Some (sid_new Client Bi 2)
          \<and> st_send (snd x4) (sid_new Client Bi 2) = None \<and> st_recv (snd x4) (sid_new Client Bi 2) = None
          \<and> \<not> accepts (st_received (lim_frame (sid_new Client Bi 2) 0 1 False) 1 s)"
  by code_simp

section \<open>Rejected early data\<close>

lemma remove_0rtt_streams_unacked: "remove_0rtt_streams d is s = Some s' \<Longrightarrow> st_unacked_data s' = st_unacked_data s"
  by (induction "is" arbitrary: s)
    (auto simp: remove_0rtt_stream_def Let_def bind_eq_Some_conv split: if_splits)

lemma zero_rtt_rejected_dir_unacked: "zero_rtt_rejected_dir d s = Some s' \<Longrightarrow> st_unacked_data s' = st_unacked_data s"
  by (auto simp: zero_rtt_rejected_dir_def bind_eq_Some_conv dest: remove_0rtt_streams_unacked)

text \<open>
  Rejected early data stays in the send window for good: \<^verbatim>\<open>zero_rtt_rejected\<close> forgets the streams and the
  bytes sent, but the bytes counted as unacknowledged remain, and what may be written stays below the
  window less these bytes.
\<close>

theorem zero_rtt_rejected_keeps_unacked:
  assumes "zero_rtt_rejected s = Some s'"
  shows "st_data_sent s' = 0 \<and> st_unacked_data s' = st_unacked_data s
    \<and> write_limit s' \<le> u64_sub (st_send_window s') (st_unacked_data s)"
proof -
  from assms have "st_unacked_data s' = st_unacked_data s" "st_data_sent s' = 0"
    by (auto simp: zero_rtt_rejected_def bind_eq_Some_conv dest!: zero_rtt_rejected_dir_unacked)
  then show ?thesis by (simp add: write_limit_def)
qed

end
