(* ===== verification/Cid_Queue.thy ===== *)
theory Cid_Queue
  imports Frames
begin

text \<open>
  The connection identifiers that the peer has issued (\<^verbatim>\<open>src/src/cid_queue.rs\<close>): a ring buffer of five
  slots that starts at the active identifier.  It implements a finite map from sequence numbers to
  identifiers, on which a NEW_CONNECTION_ID frame retires a prefix and adds one entry.
\<close>

section \<open>The queue\<close>

type_synonym cid_data = "connection_id \<times> reset_token option"

record cid_queue =
  cq_buffer :: "cid_data option list"
  cq_cursor :: nat
  cq_offset :: nat

definition CID_QUEUE_LEN :: nat where
  "CID_QUEUE_LEN = 5"

datatype cid_insert_error = CidRetired | CidExceedsLimit

definition cq_new :: "connection_id \<Rightarrow> cid_queue" where
  "cq_new cid = \<lparr>cq_buffer = (replicate CID_QUEUE_LEN None)[0 := Some (cid, None)], cq_cursor = 0, cq_offset = 0\<rparr>"

definition cq_iter :: "cid_queue \<Rightarrow> (nat \<times> cid_data) list" where
  "cq_iter q = List.map_filter (\<lambda>step.
     let index = (cq_cursor q + step) mod CID_QUEUE_LEN
     in map_option (\<lambda>cid_data. (step, cid_data)) (cq_buffer q ! index)) [0..<CID_QUEUE_LEN]"

text \<open>The loop that empties the slots of the identifiers retired.\<close>

definition cq_discard :: "nat \<Rightarrow> cid_queue \<Rightarrow> cid_queue" where
  "cq_discard n q = fold (\<lambda>i q. q\<lparr>cq_buffer := (cq_buffer q)[(cq_cursor q + i) mod CID_QUEUE_LEN := None]\<rparr>) [0..<n] q"

definition cq_insert :: "new_connection_id \<Rightarrow> (cid_queue, cid_insert_error, (range \<times> reset_token) option) op" where
  "cq_insert cid q =
     (let sequence = unat (nc_sequence cid); retire_prior_to = unat (nc_retire_prior_to cid) in
      if sequence < cq_offset q then (Inl CidRetired, q)
      else let index = sequence - cq_offset q;
               retired_count = retire_prior_to - cq_offset q
           in if u64_add CID_QUEUE_LEN retired_count \<le> index then (Inl CidExceedsLimit, q)
              else let q = cq_discard (min retired_count CID_QUEUE_LEN) q;
                       q = q\<lparr>cq_buffer := (cq_buffer q)[u64_add (cq_cursor q) index mod CID_QUEUE_LEN
                             := Some (nc_id cid, Some (nc_reset_token cid))]\<rparr>
                   in if retired_count = 0 then (Inr None, q)
                      else let q = q\<lparr>cq_cursor := u64_add (cq_cursor q) retired_count mod CID_QUEUE_LEN\<rparr>
                           in case cq_iter q of
                                [] \<Rightarrow> (Inr None, q)
                              | (i, (_, token)) # _ \<Rightarrow>
                                  let orig_offset = cq_offset q;
                                      q = q\<lparr>cq_cursor := (cq_cursor q + i) mod CID_QUEUE_LEN, cq_offset := u64_add retire_prior_to i\<rparr>
                                  in (Inr (map_option (\<lambda>token.
                                        ((orig_offset, min (cq_offset q) (u64_add orig_offset CID_QUEUE_LEN)), token)) token), q))"

definition cq_next :: "cid_queue \<Rightarrow> (reset_token \<times> range) option \<times> cid_queue" where
  "cq_next q = (case cq_iter q of
      _ # (i, cid_data) # _ \<Rightarrow>
        let orig_offset = cq_offset q;
            q = q\<lparr>cq_buffer := (cq_buffer q)[cq_cursor q := None], cq_offset := u64_add orig_offset i,
                  cq_cursor := (cq_cursor q + i) mod CID_QUEUE_LEN\<rparr>
        in (map_option (\<lambda>token. (token, (orig_offset, cq_offset q))) (snd cid_data), q)
    | _ \<Rightarrow> (None, q))"

definition cq_update_initial_cid :: "connection_id \<Rightarrow> cid_queue \<Rightarrow> cid_queue" where
  "cq_update_initial_cid cid q = q\<lparr>cq_buffer := (cq_buffer q)[cq_cursor q := Some (cid, None)]\<rparr>"

definition cq_active :: "cid_queue \<Rightarrow> connection_id" where
  "cq_active q = (case cq_buffer q ! cq_cursor q of Some (cid, _) \<Rightarrow> cid | None \<Rightarrow> [])"

definition cq_active_seq :: "cid_queue \<Rightarrow> nat" where
  "cq_active_seq q = cq_offset q"

section \<open>The map it implements\<close>

text \<open>The identifiers known by their sequence numbers, from the active one on.\<close>

record cid_set =
  cs_active :: nat
  cs_known :: "nat \<rightharpoonup> cid_data"

definition cs_insert :: "new_connection_id \<Rightarrow> (cid_set, cid_insert_error, (range \<times> reset_token) option) op" where
  "cs_insert cid S =
     (let sequence = unat (nc_sequence cid); retire = unat (nc_retire_prior_to cid); active = cs_active S in
      if sequence < active then (Inl CidRetired, S)
      else if max active retire + 5 \<le> sequence then (Inl CidExceedsLimit, S)
      else let known = (cs_known S |` {retire..})(sequence \<mapsto> (nc_id cid, Some (nc_reset_token cid)))
           in if retire \<le> active then (Inr None, S\<lparr>cs_known := known\<rparr>)
              else let active' = Min (dom known)
                   in (Inr (Some ((active, min active' (active + 5)), the (snd (the (known active'))))),
                       \<lparr>cs_active = active', cs_known = known\<rparr>))"

definition cs_next :: "cid_set \<Rightarrow> (reset_token \<times> range) option \<times> cid_set" where
  "cs_next S =
     (let others = dom (cs_known S) - {cs_active S} in
      if others = {} then (None, S)
      else let active' = Min others
           in (Some (the (snd (the (cs_known S active'))), (cs_active S, active')),
               \<lparr>cs_active = active', cs_known = (cs_known S)(cs_active S := None)\<rparr>))"

definition cq_slot :: "cid_queue \<Rightarrow> nat \<Rightarrow> cid_data option" where
  "cq_slot q k = cq_buffer q ! ((cq_cursor q + k) mod 5)"

definition cq_set :: "cid_queue \<Rightarrow> cid_set" where
  "cq_set q = \<lparr>cs_active = cq_offset q,
     cs_known = (\<lambda>seq. if cq_offset q \<le> seq \<and> seq < cq_offset q + 5 then cq_slot q (seq - cq_offset q) else None)\<rparr>"

text \<open>The active identifier is known, every other one came with a token, and sequence numbers are those of
  the wire format.\<close>

definition cq_inv :: "cid_queue \<Rightarrow> bool" where
  "cq_inv q \<longleftrightarrow> length (cq_buffer q) = 5 \<and> cq_cursor q < 5 \<and> cq_slot q 0 \<noteq> None \<and> (\<forall>k<5. cq_slot q k \<noteq> None \<longrightarrow> cq_offset q + k < 2 ^ 62)
     \<and> (\<forall>k d. 0 < k \<longrightarrow> k < 5 \<longrightarrow> cq_slot q k = Some d \<longrightarrow> snd d \<noteq> None)"

section \<open>Slots\<close>

lemma mod_add_cancel: "((c::nat) + i) mod n = (c + k) mod n \<longleftrightarrow> i mod n = k mod n"
  by (simp add: nat_mod_eq_iff add.assoc)

lemma slot_update:
  assumes "length b = 5" "k < 5"
  shows "b[(c + i) mod 5 := x] ! ((c + k) mod 5) = (if k = i mod 5 then x else b ! ((c + k) mod 5))"
proof -
  have "(c + i) mod 5 = (c + k) mod 5 \<longleftrightarrow> k = i mod 5" using assms(2) by (auto simp: mod_add_cancel)
  then show ?thesis using assms(1) by (simp add: nth_list_update)
qed

lemma discard_slots:
  assumes "length (cq_buffer q) = 5" "n \<le> 5"
  shows "k < 5 \<Longrightarrow> cq_slot (cq_discard n q) k = (if k < n then None else cq_slot q k)"
    and "length (cq_buffer (cq_discard n q)) = 5" "cq_cursor (cq_discard n q) = cq_cursor q" "cq_offset (cq_discard n q) = cq_offset q"
  using assms(2)
proof (induction n)
  case (Suc n)
  let ?q = "cq_discard n q"
  have step: "cq_discard (Suc n) q = ?q\<lparr>cq_buffer := (cq_buffer ?q)[(cq_cursor ?q + n) mod 5 := None]\<rparr>"
    by (simp add: cq_discard_def CID_QUEUE_LEN_def)
  {
    case 1
    then show ?case using Suc by (simp add: step cq_slot_def slot_update less_Suc_eq)
  next
    case 2
    then show ?case using Suc by (simp add: step)
  next
    case 3
    then show ?case using Suc by (simp add: step)
  next
    case 4
    then show ?case using Suc by (simp add: step)
  }
qed (simp_all add: cq_discard_def assms(1))

text \<open>Looking through the slots in order.\<close>

lemma scan_Nil: "List.map_filter (\<lambda>k. map_option (Pair k) (f k)) ks = [] \<longleftrightarrow> (\<forall>k\<in>set ks. f k = None)"
  by (induction ks) (auto split: option.splits)

lemma scan_Cons_list:
  "List.map_filter (\<lambda>k. map_option (Pair k) (f k)) ks = (i, d) # rest \<Longrightarrow>
     \<exists>us vs. ks = us @ i # vs \<and> f i = Some d \<and> (\<forall>k\<in>set us. f k = None) \<and> rest = List.map_filter (\<lambda>k. map_option (Pair k) (f k)) vs"
proof (induction ks)
  case (Cons k ks)
  show ?case
  proof (cases "f k")
    case None
    with Cons obtain us vs where "ks = us @ i # vs" "f i = Some d" "\<forall>k\<in>set us. f k = None"
      "rest = List.map_filter (\<lambda>k. map_option (Pair k) (f k)) vs" by auto
    then show ?thesis using None by (intro exI [of _ "k # us"] exI [of _ vs]) simp
  next
    case (Some e)
    then show ?thesis using Cons.prems by (intro exI [of _ "[]"] exI [of _ ks]) auto
  qed
qed simp

lemma scan_Cons:
  assumes "List.map_filter (\<lambda>k. map_option (Pair k) (f k)) [a..<b] = (i, d) # rest"
  shows "a \<le> i" "i < b" "f i = Some d" "\<forall>k. a \<le> k \<and> k < i \<longrightarrow> f k = None"
    "rest = List.map_filter (\<lambda>k. map_option (Pair k) (f k)) [Suc i..<b]"
proof -
  from scan_Cons_list [OF assms] obtain us vs where split: "[a..<b] = us @ i # vs" and f: "f i = Some d" "\<forall>k\<in>set us. f k = None"
    and rest: "rest = List.map_filter (\<lambda>k. map_option (Pair k) (f k)) vs" by blast
  have "length us < b - a" using arg_cong [OF split, of length] by simp
  then have i: "i = a + length us" using arg_cong [OF split, of "\<lambda>xs. xs ! length us"] by (simp add: nth_append)
  moreover have "us = [a..<a + length us]" using arg_cong [OF split, of "take (length us)"] \<open>length us < b - a\<close> by simp
  moreover have "vs = [Suc (a + length us)..<b]" using arg_cong [OF split, of "drop (Suc (length us))"] by simp
  ultimately show "a \<le> i" "i < b" "f i = Some d" "\<forall>k. a \<le> k \<and> k < i \<longrightarrow> f k = None"
    "rest = List.map_filter (\<lambda>k. map_option (Pair k) (f k)) [Suc i..<b]"
    using \<open>length us < b - a\<close> f rest by (simp_all, metis atLeastLessThan_iff set_upt)
qed

lemma cq_iter_slots: "cq_iter q = List.map_filter (\<lambda>k. map_option (Pair k) (cq_slot q k)) [0..<5]"
  by (simp add: cq_iter_def cq_slot_def CID_QUEUE_LEN_def)

lemma slot_advance:
  "cq_slot (q\<lparr>cq_cursor := (cq_cursor q + n) mod 5, cq_offset := x\<rparr>) k = cq_slot q ((n + k) mod 5)"
  "cq_slot (q\<lparr>cq_cursor := (cq_cursor q + n) mod 5\<rparr>) k = cq_slot q ((n + k) mod 5)"
  by (simp_all add: cq_slot_def add.assoc mod_simps)

section \<open>Insertion\<close>

text \<open>The slots after an insertion, counted from the first sequence number not retired.\<close>

lemma insert_slots:
  assumes inv: "cq_inv q" and seq: "cq_offset q \<le> seq" "retire \<le> seq" "seq < max (cq_offset q) retire + 5"
    and q': "q' = cq_discard (min (retire - cq_offset q) 5) q"
    and q'': "q'' = q'\<lparr>cq_buffer := (cq_buffer q')[(cq_cursor q' + (seq - cq_offset q)) mod 5 := Some x]\<rparr>"
    and k: "k < 5"
  shows "cq_slot q'' ((retire - cq_offset q + k) mod 5)
    = ((cs_known (cq_set q) |` {retire..})(seq \<mapsto> x)) (max (cq_offset q) retire + k)"
proof -
  define rc where "rc = retire - cq_offset q"
  define j where "j = (rc + k) mod 5"
  have len: "length (cq_buffer q) = 5" using inv by (simp add: cq_inv_def)
  note dis = discard_slots [OF len, of "min rc 5"]
  have j: "j < 5" by (simp add: j_def)
  have base: "max (cq_offset q) retire = cq_offset q + rc" by (auto simp: rc_def)
  have "(seq - cq_offset q) mod 5 = j \<longleftrightarrow> seq = cq_offset q + rc + k"
  proof -
    define a where "a = seq - cq_offset q - rc"
    have a: "seq - cq_offset q = rc + a" "a < 5" using seq base by (auto simp: a_def rc_def)
    then have "(seq - cq_offset q) mod 5 = j \<longleftrightarrow> a = k" using k by (simp add: j_def mod_add_cancel)
    then show ?thesis using a seq(1) by auto
  qed
  then have slot: "cq_slot q'' j = (if seq = cq_offset q + rc + k then Some x else if j < rc then None else cq_slot q j)"
    using dis j by (simp add: q'' q' rc_def [symmetric] cq_slot_def slot_update) (auto simp: cq_slot_def)
  have "cs_known (cq_set q) (cq_offset q + rc + k) = (if j < rc then None else cq_slot q j)"
  proof (cases "rc + k < 5")
    case True
    then show ?thesis by (simp add: cq_set_def j_def)
  next
    case False
    then have "j < rc" using k j by (cases "rc < 5") (auto simp: j_def le_mod_geq)
    then show ?thesis using False by (simp add: cq_set_def)
  qed
  moreover have "retire \<le> cq_offset q + rc + k" by (simp add: rc_def)
  ultimately show ?thesis using slot unfolding base rc_def [symmetric] j_def [symmetric] by (simp add: restrict_map_def)
qed

lemma cq_set_eqI:
  assumes "\<And>k. k < 5 \<Longrightarrow> cq_slot q k = m (cq_offset q + k)" "\<And>x. m x \<noteq> None \<Longrightarrow> cq_offset q \<le> x \<and> x < cq_offset q + 5"
  shows "cq_set q = \<lparr>cs_active = cq_offset q, cs_known = m\<rparr>"
proof -
  have "(if cq_offset q \<le> x \<and> x < cq_offset q + 5 then cq_slot q (x - cq_offset q) else None) = m x" for x
    using assms(1) [of "x - cq_offset q"] assms(2) [of x] by (cases "m x = None") auto
  then show ?thesis by (auto simp: cq_set_def)
qed

lemma cq_set_fields [simp]: "cs_active (cq_set q) = cq_offset q"
  by (simp add: cq_set_def)

lemma known_window: "cs_known (cq_set q) x \<noteq> None \<Longrightarrow> cq_offset q \<le> x \<and> x < cq_offset q + 5"
  by (auto simp: cq_set_def split: if_splits)

lemma known_token: "cq_inv q \<Longrightarrow> cs_known (cq_set q) x = Some d \<Longrightarrow> cq_offset q < x \<Longrightarrow> snd d \<noteq> None"
  unfolding cq_inv_def by (elim conjE allE [of _ "x - cq_offset q"] allE [of _ d]) (auto simp: cq_set_def split: if_splits)

lemma known_bound: "cq_inv q \<Longrightarrow> cs_known (cq_set q) x \<noteq> None \<Longrightarrow> x < 2 ^ 62"
  unfolding cq_inv_def by (elim conjE allE [of _ "x - cq_offset q"]) (auto simp: cq_set_def less_diff_conv2 split: if_splits)

text \<open>Moving to the first identifier known from the first slot on.\<close>

lemma move_to_first:
  assumes slots: "\<And>k. k < 5 \<Longrightarrow> cq_slot q k = m (base + k)" and dom: "\<And>x. m x \<noteq> None \<Longrightarrow> base \<le> x \<and> x < base + 5"
    and iter: "cq_iter q = (i, d) # rest" and q': "q' = q\<lparr>cq_cursor := (cq_cursor q + i) mod 5, cq_offset := base + i\<rparr>"
  shows "cq_set q' = \<lparr>cs_active = base + i, cs_known = m\<rparr>" "Min (dom m) = base + i" "m (base + i) = Some d" "i < 5"
    "\<And>k. k < 5 \<Longrightarrow> cq_slot q' k = m (base + i + k)"
proof -
  note it = scan_Cons [OF iter [unfolded cq_iter_slots]]
  show i: "i < 5" using it(2) .
  show md: "m (base + i) = Some d" using slots [OF i] it(3) by simp
  have below: "m (base + k) = None" if "k < i" for k using slots [of k] it(4) that i by simp
  have low: "base + i \<le> x \<and> x < base + 5" if "m x \<noteq> None" for x
    using dom [OF that] below [of "x - base"] that by (cases "x < base + i") (auto simp: less_diff_conv2)
  show "cq_slot q' k = m (base + i + k)" if k: "k < 5" for k
  proof (cases "i + k < 5")
    case True
    then show ?thesis using slots [of "i + k"] by (simp add: q' slot_advance add.assoc)
  next
    case False
    then have "(i + k) mod 5 < i" using i k by (auto simp: le_mod_geq)
    then have "cq_slot q' k = None" using slots [of "(i + k) mod 5"] below by (simp add: q' slot_advance)
    moreover have "m (base + i + k) = None" using low [of "base + i + k"] False by (cases "m (base + i + k) = None") auto
    ultimately show ?thesis by simp
  qed
  then show "cq_set q' = \<lparr>cs_active = base + i, cs_known = m\<rparr>"
    using cq_set_eqI [of q' m] low by (fastforce simp: q')
  have "finite (dom m)" by (rule finite_subset [of _ "{base..<base + 5}"]) (use dom in auto)
  then show "Min (dom m) = base + i" using md low by (intro Min_eqI) auto
qed

text \<open>The steps of an insertion that is not refused.\<close>

lemma cq_insert_steps:
  assumes inv: "cq_inv q" and seq: "seq = unat (nc_sequence cid)" "seq < 2 ^ 62" "cq_offset q \<le> seq" "seq < max (cq_offset q) retire + 5"
    and retire: "retire = unat (nc_retire_prior_to cid)" "retire \<le> seq" and rc: "rc = retire - cq_offset q"
    and q1: "q1 = cq_discard (min rc 5) q"
    and q2: "q2 = q1\<lparr>cq_buffer := (cq_buffer q1)[(cq_cursor q1 + (seq - cq_offset q)) mod 5 := Some (nc_id cid, Some (nc_reset_token cid))]\<rparr>"
    and q3: "q3 = q2\<lparr>cq_cursor := (cq_cursor q2 + rc) mod 5\<rparr>"
  shows "rc = 0 \<Longrightarrow> cq_insert cid q = (Inr None, q2)"
    and "0 < rc \<Longrightarrow> cq_iter q3 = (i, (c, Some token)) # rest \<Longrightarrow> i < 5 \<Longrightarrow> cq_insert cid q =
      (Inr (Some ((cq_offset q, min (retire + i) (cq_offset q + 5)), token)),
       q3\<lparr>cq_cursor := (cq_cursor q3 + i) mod 5, cq_offset := retire + i\<rparr>)"
proof -
  have fields: "length (cq_buffer q) = 5" "cq_cursor q < 5" "cq_offset q < 2 ^ 62" using inv unfolding cq_inv_def by (auto elim: allE [of _ 0])
  have f1: "cq_cursor q1 < 5" "cq_cursor q2 < 5" "cq_offset q3 = cq_offset q"
    using discard_slots(3,4) [OF fields(1), of "min rc 5"] fields by (simp_all add: q1 q2 q3)
  have add: "u64_add 5 rc = 5 + rc" "u64_add (cq_cursor q2) rc = cq_cursor q2 + rc"
    "u64_add (cq_cursor q1) (seq - cq_offset q) = cq_cursor q1 + (seq - cq_offset q)"
    "u64_add (cq_offset q) 5 = cq_offset q + 5" "\<And>i. i < 5 \<Longrightarrow> u64_add retire i = retire + i"
    using seq(2,3) retire(2) fields f1 by (simp_all add: u64_add_eq rc)
  have lim: "\<not> seq < cq_offset q" "\<not> 5 + rc \<le> seq - cq_offset q" using seq(3,4) by (auto simp: rc)
  note unf = cq_insert_def Let_def CID_QUEUE_LEN_def seq(1) [symmetric] retire(1) [symmetric] rc [symmetric] q1 [symmetric]
    add(1,3) q2 [symmetric] add(2) q3 [symmetric]
  show "cq_insert cid q = (Inr None, q2)" if "rc = 0" unfolding unf using lim that by simp
  show "cq_insert cid q = (Inr (Some ((cq_offset q, min (retire + i) (cq_offset q + 5)), token)),
       q3\<lparr>cq_cursor := (cq_cursor q3 + i) mod 5, cq_offset := retire + i\<rparr>)"
    if "0 < rc" "cq_iter q3 = (i, (c, Some token)) # rest" "i < 5"
    unfolding unf using lim that add(4,5) f1 by simp
qed

text \<open>Insertion into the ring is insertion into the map.\<close>

lemma cq_insert_refines:
  assumes inv: "cq_inv q" and ord: "nc_retire_prior_to cid \<le> nc_sequence cid" and bound: "nc_sequence cid < 2 ^ 62"
  shows "cq_inv (snd (cq_insert cid q))
    \<and> (fst (cq_insert cid q), cq_set (snd (cq_insert cid q))) = cs_insert cid (cq_set q)"
proof -
  define seq where "seq = unat (nc_sequence cid)"
  define retire where "retire = unat (nc_retire_prior_to cid)"
  define x where "x = (nc_id cid, Some (nc_reset_token cid))"
  have le: "retire \<le> seq" "seq < 2 ^ 62" using ord bound by (simp_all add: seq_def retire_def word_le_nat_alt word_less_nat_alt)
  have fields: "length (cq_buffer q) = 5" "cq_cursor q < 5" "cq_offset q < 2 ^ 62" using inv unfolding cq_inv_def by (auto elim: allE [of _ 0])
  define base where "base = max (cq_offset q) retire"
  define rc where "rc = retire - cq_offset q"
  have base: "base = cq_offset q + rc" by (auto simp: base_def rc_def)
  have add: "u64_add 5 rc = 5 + rc" using le by (simp add: u64_add_eq rc_def)
  note unf = cq_insert_def Let_def CID_QUEUE_LEN_def seq_def [symmetric] retire_def [symmetric] rc_def [symmetric] add
  note spec = cs_insert_def Let_def seq_def [symmetric] retire_def [symmetric] base_def [symmetric] x_def [symmetric] cq_set_fields
  consider "seq < cq_offset q" | "cq_offset q \<le> seq" "base + 5 \<le> seq" | "cq_offset q \<le> seq" "seq < base + 5" by linarith
  then show ?thesis
  proof cases
    case 1
    then show ?thesis using inv by (simp add: unf spec)
  next
    case 2
    then have "5 + rc \<le> seq - cq_offset q" by (simp add: base)
    then show ?thesis using inv 2 by (simp add: unf spec)
  next
    case 3
    define q1 where "q1 = cq_discard (min rc 5) q"
    define q2 where "q2 = q1\<lparr>cq_buffer := (cq_buffer q1)[(cq_cursor q1 + (seq - cq_offset q)) mod 5 := Some x]\<rparr>"
    define m where "m = (cs_known (cq_set q) |` {retire..})(seq \<mapsto> x)"
    have q1: "length (cq_buffer q1) = 5" "cq_cursor q1 = cq_cursor q" "cq_offset q1 = cq_offset q"
      using discard_slots(2-4) [OF fields(1), of "min rc 5"] by (simp_all add: q1_def)
    have slots: "cq_slot q2 ((rc + k) mod 5) = m (base + k)" if "k < 5" for k
      using insert_slots [OF inv 3(1) le(1) 3(2) [unfolded base_def] q1_def [unfolded rc_def] q2_def that] by (simp add: rc_def m_def base_def)
    have dom: "base \<le> y \<and> y < base + 5" if "m y \<noteq> None" for y
      using known_window [of q y] that 3 le(1) by (auto simp: m_def restrict_map_def base_def split: if_splits)
    have token: "snd d \<noteq> None" if "m y = Some d" "cq_offset q < y" for y d
      using known_token [OF inv, of y d] that by (auto simp: m_def x_def restrict_map_def split: if_splits)
    have bound: "y < 2 ^ 62" if "m y \<noteq> None" for y
      using known_bound [OF inv, of y] that le(2) by (auto simp: m_def restrict_map_def split: if_splits)
    note steps = cq_insert_steps [OF inv seq_def le(2) 3(1) 3(2) [unfolded base_def] retire_def le(1) rc_def q1_def q2_def [unfolded x_def]]
    show ?thesis
    proof (cases "rc = 0")
      case True
      have slot: "cq_slot q2 k = m (cq_offset q + k)" if "k < 5" for k using slots [OF that] that True by (simp add: base)
      have set: "cq_set q2 = \<lparr>cs_active = cq_offset q, cs_known = m\<rparr>"
        using cq_set_eqI [of q2 m] slot dom True by (simp add: q2_def q1 base)
      have "m (cq_offset q) \<noteq> None" using inv True by (auto simp: m_def cq_inv_def cq_set_def rc_def restrict_map_def)
      then have "cq_inv q2" using slot token bound fields q1 by (auto simp: cq_inv_def q2_def)
      moreover have "cs_insert cid (cq_set q) = (Inr None, \<lparr>cs_active = cq_offset q, cs_known = m\<rparr>)"
        using 3 True base unfolding spec by (simp add: m_def [symmetric] rc_def)
      ultimately show ?thesis using steps(1) [OF refl True] set by simp
    next
      case False
      then have b: "base = retire" "cq_offset q < retire" by (auto simp: base_def rc_def)
      define q3 where "q3 = q2\<lparr>cq_cursor := (cq_cursor q2 + rc) mod 5\<rparr>"
      have slot3: "cq_slot q3 k = m (retire + k)" if "k < 5" for k using slots [OF that] by (simp add: q3_def slot_advance b)
      have ms: "m seq \<noteq> None" by (simp add: m_def)
      then have "cq_slot q3 (seq - retire) \<noteq> None" "seq - retire < 5" using slot3 [of "seq - retire"] le(1) 3(2) b by auto
      then have "cq_iter q3 \<noteq> []" unfolding cq_iter_slots scan_Nil set_upt by (meson atLeastLessThan_iff zero_le)
      then obtain i c tok rest where iter: "cq_iter q3 = (i, (c, tok)) # rest" by (cases "cq_iter q3") auto
      define q4 where "q4 = q3\<lparr>cq_cursor := (cq_cursor q3 + i) mod 5, cq_offset := retire + i\<rparr>"
      note mv = move_to_first [OF slot3 dom [unfolded b(1)] iter q4_def]
      obtain t where tok: "tok = Some t" using token [OF mv(3)] b by auto
      have "cq_inv q4" using mv(3,5) token bound b q1
        by (auto simp: cq_inv_def q4_def q3_def q2_def)
      moreover have "cs_insert cid (cq_set q) = (Inr (Some ((cq_offset q, min (retire + i) (cq_offset q + 5)), t)), cq_set q4)"
        using 3 b mv tok unfolding spec by (simp add: m_def [symmetric])
      moreover have "cq_insert cid q = (Inr (Some ((cq_offset q, min (retire + i) (cq_offset q + 5)), t)), q4)"
        using steps(2) [OF q3_def] False iter mv(4) tok by (simp add: q4_def)
      ultimately show ?thesis by simp
    qed
  qed
qed

section \<open>Switching to the next identifier\<close>

lemma cq_next_refines:
  assumes inv: "cq_inv q"
  shows "cq_inv (snd (cq_next q)) \<and> (fst (cq_next q), cq_set (snd (cq_next q))) = cs_next (cq_set q)"
proof -
  have fields: "length (cq_buffer q) = 5" "cq_cursor q < 5" and first: "cq_slot q 0 \<noteq> None" using inv by (auto simp: cq_inv_def)
  define q0 where "q0 = q\<lparr>cq_buffer := (cq_buffer q)[cq_cursor q := None]\<rparr>"
  define m where "m = (cs_known (cq_set q))(cq_offset q := None)"
  have q0: "cq_slot q0 k = (if k = 0 then None else cq_slot q k)" if "k < 5" for k
    using slot_update [OF fields(1) that, of "cq_cursor q" 0 None] fields by (simp add: q0_def cq_slot_def)
  have slots: "cq_slot q0 k = m (cq_offset q + k)" if "k < 5" for k using q0 [OF that] that by (simp add: m_def cq_set_def)
  have dom: "cq_offset q \<le> x \<and> x < cq_offset q + 5" if "m x \<noteq> None" for x
    using known_window [of q x] that by (auto simp: m_def split: if_splits)
  have others: "dom (cs_known (cq_set q)) - {cq_offset q} = dom m" by (auto simp: m_def)
  have token: "snd d \<noteq> None" if "m y = Some d" for y d
    using known_token [OF inv, of y d] known_window [of q y] that by (auto simp: m_def split: if_splits)
  have "[0..<5] = 0 # [Suc 0..<5]" by (simp add: upt_conv_Cons)
  then have iter: "\<exists>d. cq_iter q = (0, d) # cq_iter q0"
    using first q0 by (auto simp: cq_iter_slots List.map_filter_def intro!: map_cong filter_cong)
  show ?thesis
  proof (cases "cq_iter q0")
    case Nil
    then have "\<forall>k<5. cq_slot q0 k = None" by (auto simp: cq_iter_slots scan_Nil)
    then have "m x = None" for x using slots [of "x - cq_offset q"] dom [of x] by (cases "m x = None") (auto simp: less_diff_conv2)
    then have "dom m = {}" by auto
    then show ?thesis using inv iter Nil others by (auto simp: cq_next_def cs_next_def)
  next
    case (Cons e rest)
    then obtain i c tok where e: "cq_iter q0 = (i, (c, tok)) # rest" by (cases e) auto
    define q' where "q' = q0\<lparr>cq_cursor := (cq_cursor q0 + i) mod 5, cq_offset := cq_offset q + i\<rparr>"
    note mv = move_to_first [OF slots dom e q'_def]
    obtain t where tok: "tok = Some t" using token [OF mv(3)] by auto
    have bound: "y < 2 ^ 62" if "m y \<noteq> None" for y
      using known_bound [OF inv, of y] that by (auto simp: m_def split: if_splits)
    have off: "cq_offset q + i < 2 ^ 62" using bound mv(3) by simp
    have "cq_inv q'" using mv(3,5) token bound fields by (auto simp: cq_inv_def q'_def q0_def)
    moreover have "cs_next (cq_set q) = (Some (t, (cq_offset q, cq_offset q + i)), cq_set q')"
    proof -
      have "cs_known (cq_set q) (cq_offset q + i) = Some (c, Some t)" using mv(3) tok by (simp add: m_def split: if_splits)
      moreover have "dom m \<noteq> {}" using mv(3) by auto
      ultimately show ?thesis using mv(1,2) unfolding cs_next_def Let_def cq_set_fields others m_def [symmetric] by simp
    qed
    moreover have "cq_next q = (Some (t, (cq_offset q, cq_offset q + i)), q')"
      using iter e tok off by (auto simp: cq_next_def Let_def q'_def q0_def CID_QUEUE_LEN_def u64_add_eq)
    ultimately show ?thesis by simp
  qed
qed

section \<open>The queue implements the map\<close>

datatype cid_event = CidNew new_connection_id | CidSwitch

datatype cid_result = CidInserted "cid_insert_error + (range \<times> reset_token) option" | CidSwitched "(reset_token \<times> range) option"

definition cq_exec :: "cid_event \<Rightarrow> cid_queue \<Rightarrow> cid_result \<times> cid_queue" where
  "cq_exec e q = (case e of CidNew cid \<Rightarrow> apfst CidInserted (cq_insert cid q) | CidSwitch \<Rightarrow> apfst CidSwitched (cq_next q))"

definition cs_exec :: "cid_event \<Rightarrow> cid_set \<Rightarrow> cid_result \<times> cid_set" where
  "cs_exec e S = (case e of CidNew cid \<Rightarrow> apfst CidInserted (cs_insert cid S) | CidSwitch \<Rightarrow> apfst CidSwitched (cs_next S))"

fun cid_run :: "(cid_event \<Rightarrow> 's \<Rightarrow> cid_result \<times> 's) \<Rightarrow> cid_event list \<Rightarrow> 's \<Rightarrow> cid_result list \<times> 's" where
  "cid_run exec [] s = ([], s)"
| "cid_run exec (e # es) s = (case exec e s of (r, s) \<Rightarrow> apfst ((#) r) (cid_run exec es s))"

text \<open>A frame as the parser lets it through.\<close>

definition cid_event_ok :: "cid_event \<Rightarrow> bool" where
  "cid_event_ok e \<longleftrightarrow> (case e of
      CidNew cid \<Rightarrow> nc_retire_prior_to cid \<le> nc_sequence cid \<and> nc_sequence cid < 2 ^ 62
    | CidSwitch \<Rightarrow> True)"

lemma cq_set_new: "cq_inv (cq_new cid)" "cq_set (cq_new cid) = \<lparr>cs_active = 0, cs_known = [0 \<mapsto> (cid, None)]\<rparr>"
proof -
  have slot: "cq_slot (cq_new cid) k = (if k = 0 then Some (cid, None) else None)" if "k < 5" for k
    using that by (auto simp: cq_slot_def cq_new_def CID_QUEUE_LEN_def nth_list_update)
  then show "cq_inv (cq_new cid)" by (auto simp: cq_inv_def) (simp_all add: cq_new_def CID_QUEUE_LEN_def)
  have off: "cq_offset (cq_new cid) = 0" by (simp add: cq_new_def)
  have "cq_set (cq_new cid) = \<lparr>cs_active = cq_offset (cq_new cid), cs_known = [0 \<mapsto> (cid, None)]\<rparr>"
    by (rule cq_set_eqI) (use slot off in \<open>auto split: if_splits\<close>)
  then show "cq_set (cq_new cid) = \<lparr>cs_active = 0, cs_known = [0 \<mapsto> (cid, None)]\<rparr>" by (simp add: off)
qed

lemma cid_run_refines:
  assumes "cq_inv q" "list_all cid_event_ok es"
  shows "fst (cid_run cq_exec es q) = fst (cid_run cs_exec es (cq_set q))
    \<and> cq_set (snd (cid_run cq_exec es q)) = snd (cid_run cs_exec es (cq_set q)) \<and> cq_inv (snd (cid_run cq_exec es q))"
  using assms
proof (induction es arbitrary: q)
  case (Cons e es)
  obtain r q' where exec: "cq_exec e q = (r, q')" by fastforce
  have "cq_inv q' \<and> cs_exec e (cq_set q) = (r, cq_set q')"
  proof (cases e)
    case (CidNew cid)
    then show ?thesis using cq_insert_refines [OF Cons.prems(1), of cid] Cons.prems(2) exec
      by (cases "cq_insert cid q"; cases "cs_insert cid (cq_set q)") (auto simp: cq_exec_def cs_exec_def cid_event_ok_def)
  next
    case CidSwitch
    then show ?thesis using cq_next_refines [OF Cons.prems(1)] exec
      by (cases "cq_next q"; cases "cs_next (cq_set q)") (auto simp: cq_exec_def cs_exec_def)
  qed
  then show ?case using Cons.IH [of q'] Cons.prems(2) exec by simp
qed simp

text \<open>
  (C35) The ring buffer implements the map: for every sequence of NEW_CONNECTION_ID frames and switches, the
  queue returns what the map from sequence numbers to identifiers returns, every retired range and reset
  token included, and its active identifier is the one the map has for the active sequence number.  It
  never has more than five identifiers.
\<close>

theorem cid_queue_implements_map:
  assumes "list_all cid_event_ok es"
  shows "case cid_run cq_exec es (cq_new cid) of (rs, q) \<Rightarrow>
    case cid_run cs_exec es \<lparr>cs_active = 0, cs_known = [0 \<mapsto> (cid, None)]\<rparr> of (rs', S) \<Rightarrow>
      rs = rs' \<and> cq_active_seq q = cs_active S \<and> (\<exists>token. cs_known S (cs_active S) = Some (cq_active q, token))
      \<and> card (dom (cs_known S)) \<le> 5"
proof -
  obtain rs q where run: "cid_run cq_exec es (cq_new cid) = (rs, q)" by fastforce
  obtain rs' S where run': "cid_run cs_exec es \<lparr>cs_active = 0, cs_known = [0 \<mapsto> (cid, None)]\<rparr> = (rs', S)" by fastforce
  have r: "rs = rs'" "cq_set q = S" "cq_inv q"
    using cid_run_refines [OF cq_set_new(1) assms, of cid] run run' by (simp_all add: cq_set_new(2))
  have "cs_known S (cs_active S) = cq_buffer q ! cq_cursor q" using r(3) by (auto simp: r(2) [symmetric] cq_set_def cq_slot_def cq_inv_def)
  moreover have "cq_buffer q ! cq_cursor q \<noteq> None" using r(3) by (auto simp: cq_inv_def cq_slot_def)
  moreover have "dom (cs_known S) \<subseteq> {cq_offset q..<cq_offset q + 5}" using known_window [of q] by (auto simp: r(2) [symmetric])
  then have "card (dom (cs_known S)) \<le> 5" using card_mono [of "{cq_offset q..<cq_offset q + 5}"] by fastforce
  ultimately show ?thesis using r(1,2) by (auto simp: run run' cq_active_seq_def cq_active_def split: prod.splits)
qed

text \<open>Two frames, of which the second retires the first identifier, and a switch.\<close>

definition cid_events :: "cid_event list" where
  "cid_events = [CidNew \<lparr>nc_sequence = 2, nc_retire_prior_to = 0, nc_id = [2], nc_reset_token = [22]\<rparr>,
     CidNew \<lparr>nc_sequence = 3, nc_retire_prior_to = 1, nc_id = [3], nc_reset_token = [33]\<rparr>, CidSwitch]"

theorem cid_queue_implements_map_witness:
  "list_all cid_event_ok cid_events
   \<and> cid_run cq_exec cid_events (cq_new [1]) =
      ([CidInserted (Inr None), CidInserted (Inr (Some ((0, 2), [22]))), CidSwitched (Some ([33], (2, 3)))],
       \<lparr>cq_buffer = [None, None, None, Some ([3], Some [33]), None], cq_cursor = 3, cq_offset = 3\<rparr>)
   \<and> fst (cid_run cs_exec cid_events \<lparr>cs_active = 0, cs_known = [0 \<mapsto> ([1], None)]\<rparr>)
      = fst (cid_run cq_exec cid_events (cq_new [1]))"
proof -
  have ok: "list_all cid_event_ok cid_events" by (simp add: cid_events_def cid_event_ok_def)
  have run: "cid_run cq_exec cid_events (cq_new [1]) =
      ([CidInserted (Inr None), CidInserted (Inr (Some ((0, 2), [22]))), CidSwitched (Some ([33], (2, 3)))],
       \<lparr>cq_buffer = [None, None, None, Some ([3], Some [33]), None], cq_cursor = 3, cq_offset = 3\<rparr>)" by code_simp
  from cid_queue_implements_map [OF ok, of "[1]"] ok run show ?thesis by (auto split: prod.splits)
qed

end
