(* ===== verification/Cid_State.thy ===== *)
theory Cid_State
  imports Frame_Payload
begin

text \<open>
  The connection identifiers issued to the peer (\<^verbatim>\<open>src/src/connection/cid_state.rs\<close>): which sequence
  numbers the peer may still use, when they expire, and the value that asks the peer to retire them.
\<close>

section \<open>The state\<close>

text \<open>Instants are nanoseconds.  The standard library counts the seconds of an instant in 63 bits.\<close>

definition instant_checked_add :: "nat \<Rightarrow> nat \<Rightarrow> nat option" where
  "instant_checked_add now d = (if now + d < 2 ^ 63 * 10 ^ 9 then Some (now + d) else None)"

record cid_timestamp =
  ct_sequence :: nat
  ct_timestamp :: nat

record cid_state =
  ci_retire_timestamp :: "cid_timestamp list"
  ci_issued :: nat
  ci_active_seq :: "nat set"
  ci_prev_retire_seq :: nat
  ci_retire_seq :: nat
  ci_cid_len :: nat
  ci_cid_lifetime :: "nat option"

record issued_cid =
  ic_sequence :: nat
  ic_id :: connection_id
  ic_reset_token :: reset_token

definition track_lifetime :: "nat \<Rightarrow> nat \<Rightarrow> cid_state \<Rightarrow> cid_state" where
  "track_lifetime new_cid_seq now s = (case ci_cid_lifetime s of
      None \<Rightarrow> s
    | Some lifetime \<Rightarrow> (case instant_checked_add now lifetime of
          None \<Rightarrow> s
        | Some expire_at \<Rightarrow>
            let ts = ci_retire_timestamp s in
            if ts \<noteq> [] \<and> ct_timestamp (last ts) = expire_at
            then s\<lparr>ci_retire_timestamp := butlast ts @ [(last ts)\<lparr>ct_sequence := new_cid_seq\<rparr>]\<rparr>
            else s\<lparr>ci_retire_timestamp := ts @ [\<lparr>ct_sequence = new_cid_seq, ct_timestamp = expire_at\<rparr>]\<rparr>))"

definition ci_new :: "nat \<Rightarrow> nat option \<Rightarrow> nat \<Rightarrow> nat \<Rightarrow> cid_state" where
  "ci_new cid_len cid_lifetime now issued = fold (\<lambda>seq. track_lifetime seq now) [0..<issued]
     \<lparr>ci_retire_timestamp = [], ci_issued = issued, ci_active_seq = set [0..<issued], ci_prev_retire_seq = 0,
      ci_retire_seq = 0, ci_cid_len = cid_len, ci_cid_lifetime = cid_lifetime\<rparr>"

definition ci_next_timeout :: "cid_state \<Rightarrow> nat option" where
  "ci_next_timeout s = (case ci_retire_timestamp s of [] \<Rightarrow> None | t # _ \<Rightarrow> Some (ct_timestamp t))"

definition on_cid_timeout :: "cid_state \<Rightarrow> bool \<times> cid_state" where
  "on_cid_timeout s =
     (let unretired_ids_found = list_ex (\<lambda>seq. seq \<in> ci_active_seq s) [ci_prev_retire_seq s..<ci_retire_seq s];
          current_retire_prior_to = ci_retire_seq s;
          (next_retire_sequence, s) = (case ci_retire_timestamp s of
              [] \<Rightarrow> (None, s)
            | t # ts \<Rightarrow> (Some (u64_add (ct_sequence t) 1), s\<lparr>ci_retire_timestamp := ts\<rparr>));
          s = (if \<not> unretired_ids_found
               then let s = s\<lparr>ci_prev_retire_seq := ci_retire_seq s\<rparr>
                    in case next_retire_sequence of
                         Some next_retire_prior_to \<Rightarrow> s\<lparr>ci_retire_seq := next_retire_prior_to\<rparr>
                       | None \<Rightarrow> s
               else s)
      in (list_ex (\<lambda>seq. seq \<in> ci_active_seq s) [current_retire_prior_to..<ci_retire_seq s], s))"

definition new_cids :: "issued_cid list \<Rightarrow> nat \<Rightarrow> cid_state \<Rightarrow> cid_state" where
  "new_cids ids now s =
     (if ids = [] then s
      else track_lifetime (ic_sequence (last ids)) now
             (s\<lparr>ci_issued := u64_add (ci_issued s) (length ids),
                ci_active_seq := fold (\<lambda>i. Set.insert (ic_sequence i)) ids (ci_active_seq s)\<rparr>))"

definition on_cid_retirement :: "nat \<Rightarrow> nat \<Rightarrow> (cid_state, transport_error, bool) op" where
  "on_cid_retirement sequence limit s =
     (if ci_cid_len s = 0
      then (Inl (PROTOCOL_VIOLATION ''RETIRE_CONNECTION_ID when CIDs aren't in use''), s)
      else if ci_issued s < sequence
      then (Inl (PROTOCOL_VIOLATION ''RETIRE_CONNECTION_ID for unissued sequence number''), s)
      else let s = s\<lparr>ci_active_seq := Set.remove sequence (ci_active_seq s)\<rparr>
           in (Inr (card (ci_active_seq s) < limit), s))"

definition ci_retire_prior_to :: "cid_state \<Rightarrow> nat" where
  "ci_retire_prior_to s = ci_retire_seq s"

section \<open>What it keeps\<close>

text \<open>
  The sequence numbers handed out are below the counter, and the batches that wait for their end are in the
  order of their numbers, none of them below what the peer was asked to retire.
\<close>

definition ci_inv :: "cid_state \<Rightarrow> bool" where
  "ci_inv s \<longleftrightarrow> ci_active_seq s \<subseteq> {..<ci_issued s} \<and> ci_prev_retire_seq s \<le> ci_retire_seq s \<and> ci_retire_seq s \<le> ci_issued s
     \<and> sorted_wrt (<) (map ct_sequence (ci_retire_timestamp s))
     \<and> (\<forall>t\<in>set (ci_retire_timestamp s). ci_retire_seq s \<le> ct_sequence t \<and> ct_sequence t < ci_issued s)"

lemma ci_inv_finite: "ci_inv s \<Longrightarrow> finite (ci_active_seq s)"
  by (auto simp: ci_inv_def intro: finite_subset)

lemma track_lifetime_fields [simp]:
  "ci_issued (track_lifetime seq now s) = ci_issued s" "ci_active_seq (track_lifetime seq now s) = ci_active_seq s"
  "ci_prev_retire_seq (track_lifetime seq now s) = ci_prev_retire_seq s" "ci_retire_seq (track_lifetime seq now s) = ci_retire_seq s"
  "ci_cid_len (track_lifetime seq now s) = ci_cid_len s" "ci_cid_lifetime (track_lifetime seq now s) = ci_cid_lifetime s"
  by (simp_all add: track_lifetime_def Let_def split: option.splits)

lemma ci_inv_track:
  assumes "ci_inv s" "seq < ci_issued s" "ci_retire_seq s \<le> seq" "\<forall>t\<in>set (ci_retire_timestamp s). ct_sequence t < seq"
  shows "ci_inv (track_lifetime seq now s)" "\<forall>t\<in>set (ci_retire_timestamp (track_lifetime seq now s)). ct_sequence t \<le> seq"
proof -
  let ?ts = "ci_retire_timestamp s"
  have butlast: "set (butlast ?ts) \<subseteq> set ?ts" using in_set_butlastD by fast
  have "sorted_wrt (<) (map ct_sequence (butlast ?ts))" using assms(1) by (simp add: ci_inv_def butlast_conv_take take_map [symmetric] sorted_wrt_take)
  then show "ci_inv (track_lifetime seq now s)"
    using assms butlast by (auto simp: ci_inv_def track_lifetime_def Let_def sorted_wrt_append split: option.splits)
  show "\<forall>t\<in>set (ci_retire_timestamp (track_lifetime seq now s)). ct_sequence t \<le> seq"
    using assms(4) butlast by (auto simp: track_lifetime_def Let_def less_imp_le split: option.splits)
qed

lemma ci_inv_new: "ci_inv (ci_new len lifetime now 1)"
proof -
  have "ci_inv \<lparr>ci_retire_timestamp = [], ci_issued = 1, ci_active_seq = set [0..<1], ci_prev_retire_seq = 0,
      ci_retire_seq = 0, ci_cid_len = len, ci_cid_lifetime = lifetime\<rparr>" by (simp add: ci_inv_def)
  from ci_inv_track(1) [OF this, of 0 now] show ?thesis by (simp add: ci_new_def)
qed

text \<open>A timeout raises the number the peer is asked to retire, and reports whether an active one is below it.\<close>

lemma on_cid_timeout_correct:
  assumes "ci_inv s" "ci_issued s < 2 ^ 62"
  shows "ci_inv (snd (on_cid_timeout s))" "ci_active_seq (snd (on_cid_timeout s)) = ci_active_seq s"
    "ci_issued (snd (on_cid_timeout s)) = ci_issued s" "ci_cid_len (snd (on_cid_timeout s)) = ci_cid_len s"
    "ci_retire_seq s \<le> ci_retire_seq (snd (on_cid_timeout s))"
    "fst (on_cid_timeout s) \<longleftrightarrow> (\<exists>x\<in>ci_active_seq s. ci_retire_seq s \<le> x \<and> x < ci_retire_seq (snd (on_cid_timeout s)))"
proof -
  show "ci_inv (snd (on_cid_timeout s))" "ci_active_seq (snd (on_cid_timeout s)) = ci_active_seq s"
    "ci_issued (snd (on_cid_timeout s)) = ci_issued s" "ci_cid_len (snd (on_cid_timeout s)) = ci_cid_len s"
    "ci_retire_seq s \<le> ci_retire_seq (snd (on_cid_timeout s))"
    using assms by (cases "ci_retire_timestamp s"; force simp: on_cid_timeout_def Let_def ci_inv_def u64_add_eq)+
  show "fst (on_cid_timeout s) \<longleftrightarrow> (\<exists>x\<in>ci_active_seq s. ci_retire_seq s \<le> x \<and> x < ci_retire_seq (snd (on_cid_timeout s)))"
    by (cases "ci_retire_timestamp s") (auto simp: on_cid_timeout_def Let_def list_ex_iff)
qed

lemma on_cid_retirement_inv: "ci_inv s \<Longrightarrow> ci_inv (snd (on_cid_retirement seq limit s))"
  by (auto simp: on_cid_retirement_def ci_inv_def Let_def)

end
