(* ===== verification/Cid_Exchange.thy ===== *)
theory Cid_Exchange
  imports Cid_Queue Cid_State
begin

text \<open>
  The two sides of the exchange of connection identifiers together: one endpoint issues them and asks for
  their retirement, the other keeps them in its queue, and the frames in between are lost, repeated and
  reordered.  The handlers are those of \<^verbatim>\<open>src/src/connection/mod.rs\<close> and \<^verbatim>\<open>src/src/endpoint.rs\<close>.
\<close>

section \<open>The handlers\<close>

definition LOC_CID_COUNT :: nat where
  "LOC_CID_COUNT = 8"

definition issue_cids_limit :: "nat \<Rightarrow> nat" where
  "issue_cids_limit active_connection_id_limit = min active_connection_id_limit LOC_CID_COUNT"

definition MAX_PENDING_RETIRED_CIDS :: nat where
  "MAX_PENDING_RETIRED_CIDS = CID_QUEUE_LEN * 10"

text \<open>\<^verbatim>\<open>update_rem_cid\<close>: the identifiers skipped are queued for retirement.  A vector that is popped at its
  end is a list with its last element first.\<close>

definition update_rem_cid :: "cid_queue \<times> nat list \<Rightarrow> cid_queue \<times> nat list" where
  "update_rem_cid = (\<lambda>(q, pending). case cq_next q of
      (None, q) \<Rightarrow> (q, pending)
    | (Some (_, r), q) \<Rightarrow> (q, rev [fst r..<snd r] @ pending))"

text \<open>The handling of a NEW_CONNECTION_ID frame.\<close>

definition on_new_connection_id :: "bool \<Rightarrow> new_connection_id \<Rightarrow> (cid_queue \<times> nat list, transport_error, unit) op" where
  "on_new_connection_id is_server f = (\<lambda>(q, pending).
     if cq_active q = [] then (Inl (PROTOCOL_VIOLATION ''NEW_CONNECTION_ID when CIDs aren't in use''), (q, pending))
     else if nc_retire_prior_to f > nc_sequence f
     then (Inl (PROTOCOL_VIOLATION ''NEW_CONNECTION_ID retiring unissued CIDs''), (q, pending))
     else let switch = (\<lambda>x. if is_server \<and> cq_active_seq (fst x) = 0 then update_rem_cid x else x) in
       case cq_insert f q of
         (Inr None, q) \<Rightarrow> (Inr (), switch (q, pending))
       | (Inr (Some (r, _)), q) \<Rightarrow>
           if u64_sat_add (length pending) (snd r - fst r) > MAX_PENDING_RETIRED_CIDS
           then (Inl (CONNECTION_ID_LIMIT_ERROR ''queued too many retired CIDs''), (q, pending))
           else (Inr (), switch (q, rev [fst r..<snd r] @ pending))
       | (Inl CidExceedsLimit, q) \<Rightarrow> (Inl (CONNECTION_ID_LIMIT_ERROR ''''), (q, pending))
       | (Inl CidRetired, q) \<Rightarrow> (Inr (), (q, unat (nc_sequence f) # pending)))"

text \<open>The endpoint's part: identifiers are generated, their reset tokens derived, and both are kept by
  sequence number.  The generator and the key are parameters.\<close>

record cid_meta =
  cm_cids_issued :: nat
  cm_loc_cids :: "nat \<rightharpoonup> connection_id"

fun send_new_identifiers :: "(nat \<Rightarrow> connection_id) \<Rightarrow> (connection_id \<Rightarrow> reset_token) \<Rightarrow> nat \<Rightarrow> cid_meta \<Rightarrow> issued_cid list \<times> cid_meta" where
  "send_new_identifiers new_cid token 0 m = ([], m)"
| "send_new_identifiers new_cid token (Suc num) m =
     (let sequence = cm_cids_issued m; i = new_cid sequence;
          m = m\<lparr>cm_cids_issued := u64_add sequence 1, cm_loc_cids := (cm_loc_cids m)(sequence \<mapsto> i)\<rparr>;
          (ids, m) = send_new_identifiers new_cid token num m
      in (\<lparr>ic_sequence = sequence, ic_id = i, ic_reset_token = token i\<rparr> # ids, m))"

text \<open>The frame written for an identifier, whenever it is sent or sent again.\<close>

definition new_cid_frame :: "cid_state \<Rightarrow> issued_cid \<Rightarrow> new_connection_id" where
  "new_cid_frame s issued = \<lparr>nc_sequence = of_nat (ic_sequence issued), nc_retire_prior_to = of_nat (ci_retire_prior_to s),
     nc_id = ic_id issued, nc_reset_token = ic_reset_token issued\<rparr>"

section \<open>The exchange\<close>

text \<open>On one side the state, the endpoint's table and the identifiers to send, or to send again; on the
  other the queue and the retirements to send; between them every frame sent so far.\<close>

record cid_exchange =
  cx_local :: cid_state
  cx_meta :: cid_meta
  cx_ids :: "issued_cid list"
  cx_frames :: "new_connection_id list"
  cx_queue :: cid_queue
  cx_pending :: "nat list"
  cx_retires :: "nat list"

text \<open>\<^verbatim>\<open>NeedIdentifiers\<close> and \<^verbatim>\<open>NewIdentifiers\<close> in one step.\<close>

definition issue_cids :: "(nat \<Rightarrow> connection_id) \<Rightarrow> (connection_id \<Rightarrow> reset_token) \<Rightarrow> nat \<Rightarrow> nat \<Rightarrow> cid_exchange \<Rightarrow> cid_exchange" where
  "issue_cids new_cid token now n x =
     (let (ids, m) = send_new_identifiers new_cid token n (cx_meta x)
      in x\<lparr>cx_meta := m, cx_local := new_cids ids now (cx_local x), cx_ids := ids @ cx_ids x\<rparr>)"

datatype cid_exchange_event =
    CxSend issued_cid
  | CxDeliver new_connection_id
  | CxSwitch
  | CxSendRetire
  | CxRetire nat nat
  | CxTimeout nat

definition cx_exec :: "(nat \<Rightarrow> connection_id) \<Rightarrow> (connection_id \<Rightarrow> reset_token) \<Rightarrow> bool \<Rightarrow> nat \<Rightarrow> cid_exchange_event \<Rightarrow>
    cid_exchange \<Rightarrow> cid_exchange" where
  "cx_exec new_cid token is_server limit e x = (case e of
      CxSend issued \<Rightarrow> x\<lparr>cx_frames := new_cid_frame (cx_local x) issued # cx_frames x\<rparr>
    | CxDeliver f \<Rightarrow> (case on_new_connection_id is_server f (cx_queue x, cx_pending x) of
          (_, (q, pending)) \<Rightarrow> x\<lparr>cx_queue := q, cx_pending := pending\<rparr>)
    | CxSwitch \<Rightarrow> (case update_rem_cid (cx_queue x, cx_pending x) of (q, pending) \<Rightarrow> x\<lparr>cx_queue := q, cx_pending := pending\<rparr>)
    | CxSendRetire \<Rightarrow> (case cx_pending x of
          [] \<Rightarrow> x
        | seq # pending \<Rightarrow> x\<lparr>cx_pending := pending, cx_retires := seq # cx_retires x\<rparr>)
    | CxRetire seq now \<Rightarrow> (case on_cid_retirement seq limit (cx_local x) of
          (Inl _, _) \<Rightarrow> x
        | (Inr allow_more_cids, s) \<Rightarrow>
            let x = x\<lparr>cx_local := s\<rparr> in
            (case cm_loc_cids (cx_meta x) seq of
               None \<Rightarrow> x
             | Some _ \<Rightarrow>
                 let x = x\<lparr>cx_meta := (cx_meta x)\<lparr>cm_loc_cids := (cm_loc_cids (cx_meta x))(seq := None)\<rparr>\<rparr>
                 in if allow_more_cids then issue_cids new_cid token now 1 x else x))
    | CxTimeout now \<Rightarrow> (case on_cid_timeout (cx_local x) of
          (num_new_cid, s) \<Rightarrow> issue_cids new_cid token now (if num_new_cid then 1 else 0) (x\<lparr>cx_local := s\<rparr>)))"

text \<open>Frames arrive that were sent, and sequence numbers have not run out.\<close>

definition cx_enabled :: "cid_exchange_event \<Rightarrow> cid_exchange \<Rightarrow> bool" where
  "cx_enabled e x \<longleftrightarrow> ci_issued (cx_local x) < 2 ^ 62 - 1 \<and> (case e of
      CxSend issued \<Rightarrow> issued \<in> set (cx_ids x)
    | CxDeliver f \<Rightarrow> f \<in> set (cx_frames x)
    | CxRetire seq now \<Rightarrow> seq \<in> set (cx_retires x)
    | _ \<Rightarrow> True)"

text \<open>After the handshake, in which the identifier number zero was used, the first ones are issued.\<close>

definition cx_init :: "(nat \<Rightarrow> connection_id) \<Rightarrow> (connection_id \<Rightarrow> reset_token) \<Rightarrow> nat \<Rightarrow> cid_exchange \<Rightarrow> bool" where
  "cx_init new_cid token limit x \<longleftrightarrow> (\<exists>cid lifetime now. cid \<noteq> [] \<and> x = issue_cids new_cid token now (limit - 1)
     \<lparr>cx_local = ci_new (length cid) lifetime now 1, cx_meta = \<lparr>cm_cids_issued = 1, cm_loc_cids = [0 \<mapsto> cid]\<rparr>,
      cx_ids = [], cx_frames = [], cx_queue = cq_new cid, cx_pending = [], cx_retires = []\<rparr>)"

inductive cx_step :: "(nat \<Rightarrow> connection_id) \<Rightarrow> (connection_id \<Rightarrow> reset_token) \<Rightarrow> bool \<Rightarrow> nat \<Rightarrow>
    cid_exchange \<Rightarrow> cid_exchange_event \<Rightarrow> cid_exchange \<Rightarrow> bool" for new_cid token is_server limit where
  cx_stepI: "cx_enabled e x \<Longrightarrow> cx_step new_cid token is_server limit x e (cx_exec new_cid token is_server limit e x)"

section \<open>The queue's side\<close>

text \<open>What an insertion and a switch do to the queue, as the exchange needs it: the active number only
  grows, what is known came with a frame, and what is retired is below the active number.\<close>

definition cq_moved :: "cid_queue \<Rightarrow> new_connection_id list \<Rightarrow> cid_queue \<Rightarrow> bool" where
  "cq_moved q fs q' \<longleftrightarrow> cq_inv q' \<and> cq_offset q \<le> cq_offset q'
     \<and> (\<forall>seq d. cs_known (cq_set q') seq = Some d \<longrightarrow> cs_known (cq_set q) seq = Some d
          \<or> (\<exists>f\<in>set fs. seq = unat (nc_sequence f) \<and> fst d = nc_id f))"

lemma cq_moved_refl: "cq_inv q \<Longrightarrow> cq_moved q fs q"
  by (simp add: cq_moved_def)

lemma cq_moved_trans: "cq_moved q fs q' \<Longrightarrow> cq_moved q' fs q'' \<Longrightarrow> cq_moved q fs q''"
  by (fastforce simp: cq_moved_def)

lemma cq_known_facts:
  assumes "cq_inv q"
  shows "finite (dom (cs_known (cq_set q)))" "cq_offset q \<in> dom (cs_known (cq_set q))"
    "seq \<in> dom (cs_known (cq_set q)) \<Longrightarrow> cq_offset q \<le> seq"
proof -
  show "finite (dom (cs_known (cq_set q)))"
    by (rule finite_subset [of _ "{cq_offset q..<cq_offset q + 5}"]) (use known_window [of q] in auto)
  show "cq_offset q \<in> dom (cs_known (cq_set q))" using assms by (auto simp: cq_set_def cq_inv_def)
  show "cq_offset q \<le> seq" if "seq \<in> dom (cs_known (cq_set q))" using known_window [of q seq] that by auto
qed

definition cs_ok :: "cid_set \<Rightarrow> bool" where
  "cs_ok S \<longleftrightarrow> finite (dom (cs_known S)) \<and> cs_active S \<in> dom (cs_known S) \<and> (\<forall>seq\<in>dom (cs_known S). cs_active S \<le> seq)"

lemma cs_insert_facts:
  assumes ok: "cs_ok S" and ins: "cs_insert f S = (r, S')"
  shows "cs_active S \<le> cs_active S'"
    and "cs_known S' seq = Some d \<Longrightarrow> cs_known S seq = Some d \<or> seq = unat (nc_sequence f) \<and> fst d = nc_id f"
    and "r = Inr (Some (rg, token)) \<Longrightarrow> snd rg \<le> cs_active S' \<and> snd rg - fst rg \<le> 5"
    and "r = Inl CidRetired \<Longrightarrow> unat (nc_sequence f) < cs_active S'"
    and "r = Inl CidExceedsLimit \<Longrightarrow> max (cs_active S) (unat (nc_retire_prior_to f)) + 5 \<le> unat (nc_sequence f)"
proof -
  let ?seq = "unat (nc_sequence f)" and ?ret = "unat (nc_retire_prior_to f)"
  let ?K = "(cs_known S |` {?ret..})(?seq \<mapsto> (nc_id f, Some (nc_reset_token f)))"
  have "dom ?K \<subseteq> insert ?seq (dom (cs_known S))" by (auto simp: restrict_map_def split: if_splits)
  then have "finite (dom ?K)" using ok by (auto simp: cs_ok_def intro: finite_subset)
  then have "Min (dom ?K) \<in> dom ?K" by (rule Min_in) simp
  then have "\<not> ?seq < cs_active S \<Longrightarrow> cs_active S \<le> Min (dom ?K)"
    using ok by (auto simp: cs_ok_def restrict_map_def split: if_splits)
  then show "cs_active S \<le> cs_active S'" using ins by (auto simp: cs_insert_def Let_def split: if_splits)
  show "cs_known S seq = Some d \<or> seq = ?seq \<and> fst d = nc_id f" if "cs_known S' seq = Some d"
    using that ins by (auto simp: cs_insert_def Let_def restrict_map_def split: if_splits)
qed (use ins in \<open>auto simp: cs_insert_def Let_def split: if_splits\<close>)

lemma cs_next_facts:
  assumes ok: "cs_ok S" and nx: "cs_next S = (r, S')"
  shows "cs_active S \<le> cs_active S'" "cs_known S' seq = Some d \<Longrightarrow> cs_known S seq = Some d"
    "r = Some (token, rg) \<Longrightarrow> snd rg = cs_active S'"
proof -
  have "dom (cs_known S) - {cs_active S} \<noteq> {} \<Longrightarrow> Min (dom (cs_known S) - {cs_active S}) \<in> dom (cs_known S)"
    using ok Min_in [of "dom (cs_known S) - {cs_active S}"] by (simp add: cs_ok_def)
  then show "cs_active S \<le> cs_active S'" using ok nx by (auto simp: cs_next_def Let_def cs_ok_def split: if_splits)
qed (use nx in \<open>auto simp: cs_next_def Let_def split: if_splits\<close>)

lemma cs_ok_queue: "cq_inv q \<Longrightarrow> cs_ok (cq_set q)"
  using cq_known_facts [of q] by (simp add: cs_ok_def)

lemma cq_insert_moved:
  assumes inv: "cq_inv q" and f: "f \<in> set fs" "nc_retire_prior_to f \<le> nc_sequence f" "nc_sequence f < 2 ^ 62"
    and ins: "cq_insert f q = (r, q')"
  shows "cq_moved q fs q'"
    and "r = Inr (Some (rg, token)) \<Longrightarrow> snd rg \<le> cq_offset q' \<and> snd rg - fst rg \<le> 5"
    and "r = Inl CidRetired \<Longrightarrow> unat (nc_sequence f) < cq_offset q'"
    and "r = Inl CidExceedsLimit \<Longrightarrow> max (cq_offset q) (unat (nc_retire_prior_to f)) + 5 \<le> unat (nc_sequence f)"
proof -
  have ref: "cq_inv q'" "cs_insert f (cq_set q) = (r, cq_set q')" using cq_insert_refines [OF inv f(2,3)] ins by simp_all
  note facts = cs_insert_facts [OF cs_ok_queue [OF inv] ref(2), unfolded cq_set_fields]
  have "cs_known (cq_set q) seq = Some d \<or> (\<exists>f\<in>set fs. seq = unat (nc_sequence f) \<and> fst d = nc_id f)"
    if "cs_known (cq_set q') seq = Some d" for seq d using facts(2) [OF that] f(1) by blast
  then show "cq_moved q fs q'" using ref(1) facts(1) by (simp add: cq_moved_def)
  show "r = Inr (Some (rg, token)) \<Longrightarrow> snd rg \<le> cq_offset q' \<and> snd rg - fst rg \<le> 5" by (rule facts(3))
  show "r = Inl CidRetired \<Longrightarrow> unat (nc_sequence f) < cq_offset q'" by (rule facts(4))
  show "r = Inl CidExceedsLimit \<Longrightarrow> max (cq_offset q) (unat (nc_retire_prior_to f)) + 5 \<le> unat (nc_sequence f)" by (rule facts(5))
qed

lemma cq_next_moved:
  assumes inv: "cq_inv q" and nx: "cq_next q = (r, q')"
  shows "cq_moved q fs q'" "r = Some (token, rg) \<Longrightarrow> snd rg = cq_offset q'"
proof -
  have ref: "cq_inv q'" "cs_next (cq_set q) = (r, cq_set q')" using cq_next_refines [OF inv] nx by simp_all
  note facts = cs_next_facts [OF cs_ok_queue [OF inv] ref(2), unfolded cq_set_fields]
  show "cq_moved q fs q'" using ref(1) facts(1,2) by (auto simp: cq_moved_def)
  show "r = Some (token, rg) \<Longrightarrow> snd rg = cq_offset q'" using facts(3) by simp
qed

lemma update_rem_cid_moved:
  assumes "cq_inv q" "\<forall>seq\<in>set pending. seq < cq_offset q" "update_rem_cid (q, pending) = (q', pending')"
  shows "cq_moved q fs q'" "\<forall>seq\<in>set pending'. seq < cq_offset q'"
proof -
  obtain r q1 where nx: "cq_next q = (r, q1)" by fastforce
  note moved = cq_next_moved [OF assms(1) nx]
  show "cq_moved q fs q'" using assms(3) moved(1) nx by (auto simp: update_rem_cid_def split: option.splits prod.splits)
  show "\<forall>seq\<in>set pending'. seq < cq_offset q'"
    using assms(2,3) moved nx by (fastforce simp: update_rem_cid_def cq_moved_def split: option.splits prod.splits)
qed

definition switch_if :: "bool \<Rightarrow> cid_queue \<times> nat list \<Rightarrow> cid_queue \<times> nat list" where
  "switch_if is_server x = (if is_server \<and> cq_active_seq (fst x) = 0 then update_rem_cid x else x)"

lemma switch_if_moved:
  assumes "cq_moved q fs q1" "\<forall>seq\<in>set pending. seq < cq_offset q1" "switch_if b (q1, pending) = (q', pending')"
  shows "cq_moved q fs q' \<and> (\<forall>seq\<in>set pending'. seq < cq_offset q')"
proof (cases "b \<and> cq_active_seq q1 = 0")
  case True
  have inv: "cq_inv q1" using assms(1) by (simp add: cq_moved_def)
  from True assms(3) have "update_rem_cid (q1, pending) = (q', pending')" by (simp add: switch_if_def)
  from update_rem_cid_moved [OF inv assms(2) this] show ?thesis using cq_moved_trans [OF assms(1)] by blast
qed (use assms in \<open>auto simp: switch_if_def\<close>)

lemma on_new_connection_id_moved:
  assumes q: "cq_inv q" "\<forall>seq\<in>set pending. seq < cq_offset q" and f: "f \<in> set fs" "nc_sequence f < 2 ^ 62"
    and h: "on_new_connection_id is_server f (q, pending) = (r, (q', pending'))"
  shows "cq_moved q fs q' \<and> (\<forall>seq\<in>set pending'. seq < cq_offset q')"
    and "cq_active q \<noteq> [] \<Longrightarrow> nc_retire_prior_to f \<le> nc_sequence f \<Longrightarrow> length pending \<le> 45 \<Longrightarrow>
      unat (nc_sequence f) < max (cq_offset q) (unat (nc_retire_prior_to f)) + 5 \<Longrightarrow> r = Inr ()"
proof -
  obtain ir q1 where ins: "cq_insert f q = (ir, q1)" by fastforce
  consider "cq_active q = []" | "nc_sequence f < nc_retire_prior_to f" | "cq_active q \<noteq> []" "nc_retire_prior_to f \<le> nc_sequence f" by force
  then have "(cq_moved q fs q' \<and> (\<forall>seq\<in>set pending'. seq < cq_offset q')) \<and>
    (cq_active q \<noteq> [] \<longrightarrow> nc_retire_prior_to f \<le> nc_sequence f \<longrightarrow> length pending \<le> 45 \<longrightarrow>
      unat (nc_sequence f) < max (cq_offset q) (unat (nc_retire_prior_to f)) + 5 \<longrightarrow> r = Inr ())"
  proof cases
    case 1
    then show ?thesis using h q cq_moved_refl by (auto simp: on_new_connection_id_def)
  next
    case 2
    then show ?thesis using h q cq_moved_refl by (auto simp: on_new_connection_id_def split: if_splits)
  next
    case 3
    then have nl: "\<not> nc_sequence f < nc_retire_prior_to f" by simp
    note ins' = cq_insert_moved [OF q(1) f(1) 3(2) f(2) ins]
    have below: "\<forall>seq\<in>set pending. seq < cq_offset q1" using ins'(1) q(2) by (force simp: cq_moved_def)
    consider "ir = Inl CidRetired" | "ir = Inl CidExceedsLimit" | "ir = Inr None" | rg token where "ir = Inr (Some (rg, token))"
      by (cases ir) (auto, metis cid_insert_error.exhaust, metis option.exhaust prod.exhaust)
    then show ?thesis
    proof cases
      case 1
      then show ?thesis using h 3 nl ins ins'(1,3) below by (auto simp: on_new_connection_id_def Let_def)
    next
      case 2
      then show ?thesis using h 3 nl ins ins'(1,4) below by (auto simp: on_new_connection_id_def Let_def)
    next
      case c: 3
      then have "r = Inr ()" "switch_if is_server (q1, pending) = (q', pending')"
        using h 3 nl ins by (simp_all add: on_new_connection_id_def switch_if_def Let_def)
      then show ?thesis using switch_if_moved [OF ins'(1) below] by simp
    next
      case 4
      note rg = ins'(2) [OF 4]
      show ?thesis
      proof (cases "u64_sat_add (length pending) (snd rg - fst rg) > MAX_PENDING_RETIRED_CIDS")
        case True
        then have "\<not> length pending \<le> 45"
          using rg by (auto simp: u64_sat_add_def MAX_PENDING_RETIRED_CIDS_def CID_QUEUE_LEN_def)
        then show ?thesis using True h 3 nl ins 4 ins'(1) below by (auto simp: on_new_connection_id_def Let_def)
      next
        case False
        then have "r = Inr ()" "switch_if is_server (q1, rev [fst rg..<snd rg] @ pending) = (q', pending')"
          using h 3 nl ins 4 by (simp_all add: on_new_connection_id_def switch_if_def Let_def)
        moreover have "\<forall>seq\<in>set (rev [fst rg..<snd rg] @ pending). seq < cq_offset q1" using below rg by auto
        ultimately show ?thesis using switch_if_moved [OF ins'(1)] by blast
      qed
    qed
  qed
  then show "cq_moved q fs q' \<and> (\<forall>seq\<in>set pending'. seq < cq_offset q')"
    and "cq_active q \<noteq> [] \<Longrightarrow> nc_retire_prior_to f \<le> nc_sequence f \<Longrightarrow> length pending \<le> 45 \<Longrightarrow>
      unat (nc_sequence f) < max (cq_offset q) (unat (nc_retire_prior_to f)) + 5 \<Longrightarrow> r = Inr ()" by blast+
qed

section \<open>The invariant\<close>

definition cx_inv :: "nat \<Rightarrow> cid_exchange \<Rightarrow> bool" where
  "cx_inv limit x \<longleftrightarrow> ci_inv (cx_local x) \<and> ci_issued (cx_local x) < 2 ^ 62
     \<and> cm_cids_issued (cx_meta x) = ci_issued (cx_local x) \<and> dom (cm_loc_cids (cx_meta x)) = ci_active_seq (cx_local x)
     \<and> card (ci_active_seq (cx_local x) \<inter> {ci_retire_seq (cx_local x)..}) \<le> limit
     \<and> (\<forall>i\<in>set (cx_ids x). ic_sequence i < ci_issued (cx_local x) \<and> ic_id i \<noteq> [])
     \<and> (\<forall>f\<in>set (cx_frames x). unat (nc_sequence f) < ci_issued (cx_local x) \<and> nc_id f \<noteq> []
          \<and> unat (nc_sequence f) < max (cq_offset (cx_queue x)) (unat (nc_retire_prior_to f)) + limit)
     \<and> cq_inv (cx_queue x) \<and> (\<forall>seq d. cs_known (cq_set (cx_queue x)) seq = Some d \<longrightarrow> seq < ci_issued (cx_local x) \<and> fst d \<noteq> [])
     \<and> {cq_offset (cx_queue x)..<ci_issued (cx_local x)} \<subseteq> ci_active_seq (cx_local x)
     \<and> (\<forall>seq\<in>set (cx_pending x) \<union> set (cx_retires x). seq < cq_offset (cx_queue x))"

text \<open>The next frame written for any identifier fits the peer's window.\<close>

lemma window_fits:
  assumes "cx_inv limit x" "seq < ci_issued (cx_local x)"
  shows "seq < max (cq_offset (cx_queue x)) (ci_retire_seq (cx_local x)) + limit"
proof -
  let ?o = "cq_offset (cx_queue x)" and ?r = "ci_retire_seq (cx_local x)" and ?n = "ci_issued (cx_local x)"
  have "{max ?o ?r..<?n} \<subseteq> ci_active_seq (cx_local x) \<inter> {?r..}" using assms(1) by (auto simp: cx_inv_def)
  then have "card {max ?o ?r..<?n} \<le> card (ci_active_seq (cx_local x) \<inter> {?r..})"
    using ci_inv_finite assms(1) by (intro card_mono) (auto simp: cx_inv_def)
  then have "?n - max ?o ?r \<le> limit" using assms(1) by (simp add: cx_inv_def)
  then show ?thesis using assms(2) by linarith
qed

section \<open>Every step keeps it\<close>

lemma send_new_identifiers_facts:
  assumes "send_new_identifiers new_cid token n m = (ids, m')" "cm_cids_issued m + n < 2 ^ 64"
  shows "map ic_sequence ids = [cm_cids_issued m..<cm_cids_issued m + n] \<and> cm_cids_issued m' = cm_cids_issued m + n
    \<and> dom (cm_loc_cids m') = dom (cm_loc_cids m) \<union> {cm_cids_issued m..<cm_cids_issued m + n}
    \<and> (\<forall>i\<in>set ids. \<exists>k. ic_id i = new_cid k)"
  using assms
proof (induction n arbitrary: m ids m')
  case (Suc n)
  define m1 where "m1 = m\<lparr>cm_cids_issued := u64_add (cm_cids_issued m) 1, cm_loc_cids := (cm_loc_cids m)(cm_cids_issued m \<mapsto> new_cid (cm_cids_issued m))\<rparr>"
  have m1: "cm_cids_issued m1 = Suc (cm_cids_issued m)" "cm_cids_issued m1 + n < 2 ^ 64"
    "dom (cm_loc_cids m1) = insert (cm_cids_issued m) (dom (cm_loc_cids m))"
    using Suc.prems(2) by (simp_all add: m1_def u64_add_eq)
  obtain ids1 m2 where rec: "send_new_identifiers new_cid token n m1 = (ids1, m2)" by fastforce
  have "ids = \<lparr>ic_sequence = cm_cids_issued m, ic_id = new_cid (cm_cids_issued m), ic_reset_token = token (new_cid (cm_cids_issued m))\<rparr> # ids1" "m' = m2"
    using Suc.prems(1) rec by (auto simp: Let_def m1_def)
  then show ?case using Suc.IH [OF rec m1(2)] by (auto simp: m1 upt_conv_Cons)
qed simp

lemma new_cids_inv:
  assumes inv: "ci_inv s" and ids: "map ic_sequence ids = [ci_issued s..<ci_issued s + n]" "ci_issued s + n < 2 ^ 62"
  shows "ci_inv (new_cids ids now s)" "ci_issued (new_cids ids now s) = ci_issued s + n"
    "ci_active_seq (new_cids ids now s) = ci_active_seq s \<union> {ci_issued s..<ci_issued s + n}"
    "ci_retire_seq (new_cids ids now s) = ci_retire_seq s"
proof -
  have len: "length ids = n" using arg_cong [OF ids(1), of length] by simp
  have "fold (\<lambda>i. Set.insert (ic_sequence i)) xs A = A \<union> set (map ic_sequence xs)" for xs :: "issued_cid list" and A
    by (induction xs arbitrary: A) auto
  from this [of ids "ci_active_seq s", unfolded ids(1)] have act: "fold (\<lambda>i. Set.insert (ic_sequence i)) ids (ci_active_seq s) = ci_active_seq s \<union> {ci_issued s..<ci_issued s + n}"
    by simp
  show iss: "ci_issued (new_cids ids now s) = ci_issued s + n"
    "ci_active_seq (new_cids ids now s) = ci_active_seq s \<union> {ci_issued s..<ci_issued s + n}"
    "ci_retire_seq (new_cids ids now s) = ci_retire_seq s"
    using len ids(2) by (auto simp: new_cids_def act u64_add_eq)
  show "ci_inv (new_cids ids now s)"
  proof (cases "ids = []")
    case False
    let ?s = "s\<lparr>ci_issued := u64_add (ci_issued s) (length ids), ci_active_seq := fold (\<lambda>i. Set.insert (ic_sequence i)) ids (ci_active_seq s)\<rparr>"
    have n: "0 < n" using False len by auto
    have last: "ic_sequence (last ids) = ci_issued s + n - 1"
      using ids(1) False n by (metis last_map last_upt less_add_same_cancel1)
    have "ci_inv ?s" using inv ids(2) len unfolding act by (auto simp: ci_inv_def u64_add_eq)
    moreover have "ci_issued s \<le> ic_sequence (last ids)" "ic_sequence (last ids) < ci_issued ?s"
      using n ids(2) len by (simp_all add: last u64_add_eq)
    then have "ic_sequence (last ids) < ci_issued ?s" "ci_retire_seq ?s \<le> ic_sequence (last ids)"
      "\<forall>t\<in>set (ci_retire_timestamp ?s). ct_sequence t < ic_sequence (last ids)"
      using inv by (auto simp: ci_inv_def)
    ultimately have "ci_inv (track_lifetime (ic_sequence (last ids)) now ?s)" by (rule ci_inv_track(1))
    then show ?thesis using False by (simp add: new_cids_def)
  qed (simp add: new_cids_def inv)
qed

lemma issue_cids_inv:
  assumes inv: "cx_inv limit x" and room: "ci_issued (cx_local x) + n < 2 ^ 62" and ne: "\<And>k. new_cid k \<noteq> []"
    and card: "card (ci_active_seq (cx_local x) \<inter> {ci_retire_seq (cx_local x)..}) + n \<le> limit"
  shows "cx_inv limit (issue_cids new_cid token now n x)"
proof -
  let ?s = "cx_local x" and ?n = "ci_issued (cx_local x)"
  obtain ids m where ids: "send_new_identifiers new_cid token n (cx_meta x) = (ids, m)" by fastforce
  have meta: "cm_cids_issued (cx_meta x) = ?n" "ci_inv ?s" using inv by (auto simp: cx_inv_def)
  have sn: "map ic_sequence ids = [?n..<?n + n]" "cm_cids_issued m = ?n + n"
    "dom (cm_loc_cids m) = dom (cm_loc_cids (cx_meta x)) \<union> {?n..<?n + n}" "\<forall>i\<in>set ids. \<exists>k. ic_id i = new_cid k"
    using send_new_identifiers_facts [OF ids] room unfolding meta(1) by auto
  note nc = new_cids_inv [OF meta(2) sn(1) room, of now]
  have "ic_sequence i < ?n + n \<and> ic_id i \<noteq> []" if "i \<in> set ids" for i
  proof -
    have "ic_sequence i \<in> set (map ic_sequence ids)" using that by simp
    then show ?thesis using sn(4) that ne unfolding sn(1) by fastforce
  qed
  moreover have "card ((ci_active_seq ?s \<union> {?n..<?n + n}) \<inter> {ci_retire_seq ?s..}) \<le> limit"
  proof -
    have "(ci_active_seq ?s \<union> {?n..<?n + n}) \<inter> {ci_retire_seq ?s..} \<subseteq> (ci_active_seq ?s \<inter> {ci_retire_seq ?s..}) \<union> {?n..<?n + n}" by auto
    then have "card ((ci_active_seq ?s \<union> {?n..<?n + n}) \<inter> {ci_retire_seq ?s..}) \<le> card ((ci_active_seq ?s \<inter> {ci_retire_seq ?s..}) \<union> {?n..<?n + n})"
      using ci_inv_finite [OF meta(2)] by (intro card_mono) auto
    also have "\<dots> \<le> card (ci_active_seq ?s \<inter> {ci_retire_seq ?s..}) + n" using card_Un_le [of _ "{?n..<?n + n}"] by (metis card_atLeastLessThan add_diff_cancel_left')
    finally show ?thesis using card by simp
  qed
  ultimately show ?thesis
    using inv nc sn(2,3) room ids unfolding issue_cids_def cx_inv_def by (auto simp: less_Suc_eq_le trans_less_add1)
qed

lemma cx_queue_inv:
  assumes inv: "cx_inv limit x" and moved: "cq_moved (cx_queue x) (cx_frames x) q" and below: "\<forall>seq\<in>set pending. seq < cq_offset q"
  shows "cx_inv limit (x\<lparr>cx_queue := q, cx_pending := pending\<rparr>)"
proof -
  have le: "cq_offset (cx_queue x) \<le> cq_offset q" using moved by (simp add: cq_moved_def)
  have "seq < ci_issued (cx_local x) \<and> fst d \<noteq> []" if "cs_known (cq_set q) seq = Some d" for seq d
  proof -
    have "cs_known (cq_set (cx_queue x)) seq = Some d \<or> (\<exists>f\<in>set (cx_frames x). seq = unat (nc_sequence f) \<and> fst d = nc_id f)"
      using moved that unfolding cq_moved_def by blast
    then show ?thesis using inv unfolding cx_inv_def by metis
  qed
  moreover have "unat (nc_sequence f) < max (cq_offset q) (unat (nc_retire_prior_to f)) + limit" if "f \<in> set (cx_frames x)" for f
    using inv that le unfolding cx_inv_def by (fastforce simp: max_def split: if_splits)
  ultimately show ?thesis using inv moved below le unfolding cx_inv_def cq_moved_def by (auto intro: less_le_trans)
qed

lemma frame_bound: "cx_inv limit x \<Longrightarrow> f \<in> set (cx_frames x) \<Longrightarrow> nc_sequence f < 2 ^ 62"
  by (force simp: cx_inv_def word_less_nat_alt)

lemma cx_retire_inv:
  assumes inv: "cx_inv limit x" and seq: "seq \<in> set (cx_retires x)" and room: "ci_issued (cx_local x) < 2 ^ 62 - 1"
    and ne: "\<And>k. new_cid k \<noteq> []"
  shows "cx_inv limit (cx_exec new_cid token is_server limit (CxRetire seq now) x)"
proof -
  let ?s = "cx_local x"
  obtain r s where ret: "on_cid_retirement seq limit ?s = (r, s)" by fastforce
  show ?thesis
  proof (cases r)
    case (Inl e)
    then show ?thesis using inv ret by (simp add: cx_exec_def)
  next
    case (Inr allow)
    then have s: "s = ?s\<lparr>ci_active_seq := ci_active_seq ?s - {seq}\<rparr>" "allow \<longleftrightarrow> card (ci_active_seq ?s - {seq}) < limit"
      using ret by (auto simp: on_cid_retirement_def Let_def split: if_splits)
    have below: "seq < cq_offset (cx_queue x)" using inv seq by (auto simp: cx_inv_def)
    have ci: "ci_inv s" using on_cid_retirement_inv [of ?s seq limit] inv ret by (simp add: cx_inv_def)
    define x1 where "x1 = x\<lparr>cx_local := s, cx_meta := (cx_meta x)\<lparr>cm_loc_cids := (cm_loc_cids (cx_meta x))(seq := None)\<rparr>\<rparr>"
    have "card (ci_active_seq s \<inter> {ci_retire_seq s..}) \<le> card (ci_active_seq ?s \<inter> {ci_retire_seq ?s..})"
      using inv ci_inv_finite by (intro card_mono) (auto simp: s cx_inv_def)
    then have inv1: "cx_inv limit x1" using inv ci below by (auto simp: cx_inv_def x1_def s)
    have "card (ci_active_seq s \<inter> {ci_retire_seq s..}) \<le> card (ci_active_seq s)"
      using ci_inv_finite [OF ci] by (intro card_mono) auto
    then have more: "cx_inv limit (issue_cids new_cid token now 1 x1)" if allow
      using that s room by (intro issue_cids_inv [OF inv1]) (auto simp: x1_def ne)
    show ?thesis
    proof (cases "cm_loc_cids (cx_meta x) seq")
      case None
      then have "(cx_meta x)\<lparr>cm_loc_cids := (cm_loc_cids (cx_meta x))(seq := None)\<rparr> = cx_meta x" by (simp add: fun_upd_idem)
      then have "x1 = x\<lparr>cx_local := s\<rparr>" by (simp add: x1_def)
      then show ?thesis using None inv1 ret Inr by (simp add: cx_exec_def)
    next
      case (Some c)
      then show ?thesis using inv1 more ret Inr by (simp add: cx_exec_def x1_def Let_def)
    qed
  qed
qed

lemma cx_timeout_inv:
  assumes inv: "cx_inv limit x" and room: "ci_issued (cx_local x) < 2 ^ 62 - 1" and ne: "\<And>k. new_cid k \<noteq> []"
  shows "cx_inv limit (cx_exec new_cid token is_server limit (CxTimeout now) x)"
proof -
  let ?s = "cx_local x"
  obtain b s where to: "on_cid_timeout ?s = (b, s)" by fastforce
  have ci: "ci_inv ?s" "ci_issued ?s < 2 ^ 62" using inv by (auto simp: cx_inv_def)
  note t = on_cid_timeout_correct [OF ci, unfolded to, simplified]
  let ?A = "ci_active_seq ?s \<inter> {ci_retire_seq s..}" and ?B = "ci_active_seq ?s \<inter> {ci_retire_seq ?s..}"
  have fin: "finite ?B" using ci_inv_finite [OF ci(1)] by simp
  have sub: "?A \<subseteq> ?B" using t(5) by auto
  have card: "card ?A + (if b then 1 else 0) \<le> limit"
  proof -
    have "card ?A < card ?B" if active: b
    proof -
      obtain y where "y \<in> ?B" "y \<notin> ?A" using t(6) active by auto
      then show ?thesis using sub by (intro psubset_card_mono [OF fin]) blast
    qed
    moreover have "card ?A \<le> card ?B" by (rule card_mono [OF fin sub])
    moreover have "card ?B \<le> limit" using inv by (simp add: cx_inv_def)
    ultimately show ?thesis by auto
  qed
  have "cx_inv limit (x\<lparr>cx_local := s\<rparr>)" using inv t card by (auto simp: cx_inv_def)
  from issue_cids_inv [OF this, of "if b then 1 else 0" new_cid token now] show ?thesis
    using t card room ne by (simp add: cx_exec_def to)
qed

lemma cx_exec_inv:
  assumes inv: "cx_inv limit x" and en: "cx_enabled e x" and ne: "\<And>k. new_cid k \<noteq> []"
  shows "cx_inv limit (cx_exec new_cid token is_server limit e x)"
proof (cases e)
  case (CxSend issued)
  then have i: "ic_sequence issued < ci_issued (cx_local x)" "ic_id issued \<noteq> []" using inv en by (auto simp: cx_enabled_def cx_inv_def)
  have b: "ci_issued (cx_local x) < 2 ^ 62" "ci_retire_seq (cx_local x) \<le> ci_issued (cx_local x)" using inv by (auto simp: cx_inv_def ci_inv_def)
  have "unat (of_nat (ic_sequence issued) :: u64) = ic_sequence issued" "unat (of_nat (ci_retire_seq (cx_local x)) :: u64) = ci_retire_seq (cx_local x)"
    using i(1) b by (simp_all add: of_nat_small)
  then show ?thesis using inv i window_fits [OF inv i(1)] CxSend
    by (auto simp: cx_exec_def cx_inv_def new_cid_frame_def ci_retire_prior_to_def)
next
  case (CxDeliver f)
  then have f: "f \<in> set (cx_frames x)" using en by (simp add: cx_enabled_def)
  obtain r q pending where h: "on_new_connection_id is_server f (cx_queue x, cx_pending x) = (r, (q, pending))" by (metis surj_pair)
  have q: "cq_inv (cx_queue x)" "\<forall>seq\<in>set (cx_pending x). seq < cq_offset (cx_queue x)" using inv by (auto simp: cx_inv_def)
  from on_new_connection_id_moved(1) [OF q f frame_bound [OF inv f] h] cx_queue_inv [OF inv] show ?thesis
    using CxDeliver h by (simp add: cx_exec_def)
next
  case CxSwitch
  obtain q pending where u: "update_rem_cid (cx_queue x, cx_pending x) = (q, pending)" by fastforce
  have q: "cq_inv (cx_queue x)" "\<forall>seq\<in>set (cx_pending x). seq < cq_offset (cx_queue x)" using inv by (auto simp: cx_inv_def)
  from update_rem_cid_moved [OF q u] cx_queue_inv [OF inv] show ?thesis using CxSwitch u by (simp add: cx_exec_def)
next
  case CxSendRetire
  then show ?thesis using inv by (auto simp: cx_exec_def cx_inv_def split: list.splits)
next
  case (CxRetire seq now)
  then show ?thesis using cx_retire_inv [OF inv _ _ ne] en by (simp add: cx_enabled_def)
next
  case (CxTimeout now)
  then show ?thesis using cx_timeout_inv [OF inv _ ne] en by (simp add: cx_enabled_def)
qed

lemma cx_init_inv:
  assumes "cx_init new_cid token limit x" "0 < limit" "limit \<le> 8" and ne: "\<And>k. new_cid k \<noteq> []"
  shows "cx_inv limit x"
proof -
  from assms(1) obtain cid lifetime now where cid: "cid \<noteq> []" and x: "x = issue_cids new_cid token now (limit - 1)
     \<lparr>cx_local = ci_new (length cid) lifetime now 1, cx_meta = \<lparr>cm_cids_issued = 1, cm_loc_cids = [0 \<mapsto> cid]\<rparr>,
      cx_ids = [], cx_frames = [], cx_queue = cq_new cid, cx_pending = [], cx_retires = []\<rparr>"
    unfolding cx_init_def by blast
  define s0 where "s0 = ci_new (length cid) lifetime now 1"
  have new: "ci_issued s0 = 1" "ci_active_seq s0 = {0}" "ci_retire_seq s0 = 0" "ci_inv s0"
    using ci_inv_new by (simp_all add: s0_def) (simp_all add: ci_new_def)
  have queue: "cq_offset (cq_new cid) = 0" by (simp add: cq_new_def)
  show ?thesis unfolding x s0_def [symmetric]
  proof (rule issue_cids_inv [OF _ _ ne])
    show "cx_inv limit \<lparr>cx_local = s0, cx_meta = \<lparr>cm_cids_issued = 1, cm_loc_cids = [0 \<mapsto> cid]\<rparr>,
        cx_ids = [], cx_frames = [], cx_queue = cq_new cid, cx_pending = [], cx_retires = []\<rparr>"
      using cq_set_new [of cid] cid assms(2) new queue by (auto simp: cx_inv_def split: if_splits)
  qed (use assms(2,3) new in auto)
qed

lemma reachable_cx_inv:
  assumes "reachable (cx_init new_cid token limit) (cx_step new_cid token is_server limit) x" "0 < limit" "limit \<le> 8" "\<And>k. new_cid k \<noteq> []"
  shows "cx_inv limit x"
  using assms(1) by (rule reachable_invariant) (use assms cx_init_inv cx_exec_inv in \<open>auto simp: cx_step.simps\<close>)


text \<open>An exchange with identifiers that expire after ten nanoseconds, and a run of events.\<close>

fun cx_run :: "(nat \<Rightarrow> connection_id) \<Rightarrow> (connection_id \<Rightarrow> reset_token) \<Rightarrow> bool \<Rightarrow> nat \<Rightarrow> cid_exchange_event list \<Rightarrow>
    cid_exchange \<Rightarrow> cid_exchange option" where
  "cx_run new_cid token is_server limit [] x = Some x"
| "cx_run new_cid token is_server limit (e # es) x =
     (if cx_enabled e x then cx_run new_cid token is_server limit es (cx_exec new_cid token is_server limit e x) else None)"

lemma cx_run_reachable:
  "cx_run new_cid token is_server limit es x = Some x' \<Longrightarrow>
   reachable (cx_init new_cid token limit) (cx_step new_cid token is_server limit) x \<Longrightarrow>
   reachable (cx_init new_cid token limit) (cx_step new_cid token is_server limit) x'"
  by (induction es arbitrary: x) (auto intro: reach_step cx_stepI split: if_splits)

definition ex_cid :: "nat \<Rightarrow> connection_id" where
  "ex_cid k = [7]"

definition ex_token :: "connection_id \<Rightarrow> reset_token" where
  "ex_token c = replicate 16 0"

definition ex_start :: cid_exchange where
  "ex_start = issue_cids ex_cid ex_token 0 4
     \<lparr>cx_local = ci_new 1 (Some 10) 0 1, cx_meta = \<lparr>cm_cids_issued = 1, cm_loc_cids = [0 \<mapsto> [9]]\<rparr>,
      cx_ids = [], cx_frames = [], cx_queue = cq_new [9], cx_pending = [], cx_retires = []\<rparr>"

definition ex_id :: "nat \<Rightarrow> issued_cid" where
  "ex_id seq = \<lparr>ic_sequence = seq, ic_id = [7], ic_reset_token = replicate 16 0\<rparr>"

lemma ex_start_reachable: "reachable (cx_init ex_cid ex_token 5) (cx_step ex_cid ex_token is_server 5) ex_start"
proof (rule reach_init)
  have "ex_start = issue_cids ex_cid ex_token 0 (5 - 1)
     \<lparr>cx_local = ci_new (length [9 :: u8]) (Some 10) 0 1, cx_meta = \<lparr>cm_cids_issued = 1, cm_loc_cids = [0 \<mapsto> [9]]\<rparr>,
      cx_ids = [], cx_frames = [], cx_queue = cq_new [9], cx_pending = [], cx_retires = []\<rparr>" by (simp add: ex_start_def)
  then show "cx_init ex_cid ex_token 5 ex_start" unfolding cx_init_def by (metis list.distinct(1))
qed

definition ex_frame :: "nat \<Rightarrow> nat \<Rightarrow> new_connection_id" where
  "ex_frame seq retire = \<lparr>nc_sequence = of_nat seq, nc_retire_prior_to = of_nat retire, nc_id = [7], nc_reset_token = replicate 16 0\<rparr>"

lemma ex_run_eval:
  "case cx_run ex_cid ex_token False 5 [CxSend (ex_id 4), CxTimeout 10, CxSend (ex_id 2)] ex_start of
     None \<Rightarrow> False
   | Some x \<Rightarrow> cx_frames x = [ex_frame 2 5, ex_frame 4 0] \<and> cx_queue x = cq_new [9] \<and> cx_pending x = []"
  by code_simp

lemma ex_run_reachable:
  obtains x where "reachable (cx_init ex_cid ex_token 5) (cx_step ex_cid ex_token False 5) x"
    "cx_frames x = [ex_frame 2 5, ex_frame 4 0]" "cx_queue x = cq_new [9]" "cx_pending x = []"
proof (cases "cx_run ex_cid ex_token False 5 [CxSend (ex_id 4), CxTimeout 10, CxSend (ex_id 2)] ex_start")
  case None
  then show ?thesis using ex_run_eval by simp
next
  case (Some x)
  then show ?thesis using ex_run_eval that [OF cx_run_reachable [OF Some ex_start_reachable]] by simp
qed


section \<open>Frames sent again\<close>

text \<open>
  A frame is written with the number to retire at the time it is written.  One that is sent after its
  identifier has expired asks for the retirement of more than it issues: the peer's parser takes the
  packet for malformed, and its handler would close the connection.
\<close>

theorem late_frame_refused:
  "\<exists>x f bytes. reachable (cx_init ex_cid ex_token 5) (cx_step ex_cid ex_token False 5) x \<and> f \<in> set (cx_frames x)
    \<and> nc_sequence f < nc_retire_prior_to f
    \<and> fst (on_new_connection_id False f (cx_queue x, cx_pending x)) = Inl (PROTOCOL_VIOLATION ''NEW_CONNECTION_ID retiring unissued CIDs'')
    \<and> nc_try_encode f [] = (Inr (), varint_encode NEW_CONNECTION_ID [] @ bytes) \<and> fst (new_connection_id_body bytes) = Inl Malformed"
proof (rule ex_run_reachable)
  fix x
  assume x: "reachable (cx_init ex_cid ex_token 5) (cx_step ex_cid ex_token False 5) x"
    "cx_frames x = [ex_frame 2 5, ex_frame 4 0]" "cx_queue x = cq_new [9]" "cx_pending x = []"
  let ?f = "ex_frame 2 5" and ?bytes = "[2, 5, 1, 7] @ replicate 16 0 :: bytes"
  have "nc_try_encode ?f [] = (Inr (), varint_encode NEW_CONNECTION_ID [] @ ?bytes)" by code_simp
  moreover have "fst (new_connection_id_body ?bytes) = Inl Malformed" by code_simp
  moreover have "nc_sequence ?f < nc_retire_prior_to ?f" by (simp add: ex_frame_def)
  moreover have "cq_active (cq_new [9]) \<noteq> []" by code_simp
  ultimately show ?thesis using x by (intro exI [of _ x] exI [of _ ?f] exI [of _ ?bytes]) (simp add: on_new_connection_id_def)
qed

end
