(* ===== verification/Dedup.thy ===== *)
theory Dedup
  imports Prelude
begin

text \<open>
  The duplicate filter of received packet numbers (\<^verbatim>\<open>Dedup\<close> of \<^verbatim>\<open>connection/spaces.rs\<close>): a window
  of 128 bits below the highest number authenticated.  After any sequence of insertions it answers
  exactly as the set of the numbers inserted does, numbers left of the window taken as seen; the search
  for the smallest missing number agrees with a linear scan of that set.
\<close>

unbundle bit_operations_syntax

section \<open>Model\<close>

type_synonym u128 = "128 word"

record dedup =
  dd_window :: u128
  dd_next :: nat

definition WINDOW_SIZE :: nat where
  "WINDOW_SIZE = 129"

definition u128_checked_shl :: "u128 \<Rightarrow> nat \<Rightarrow> u128 option" where
  "u128_checked_shl w n = (if n < 128 then Some (push_bit n w) else None)"

definition u128_leading_zeros :: "u128 \<Rightarrow> nat" where
  "u128_leading_zeros w = length (takeWhile (\<lambda>i. \<not> bit w i) (rev [0..<128]))"

definition dd_new :: dedup where
  "dd_new = \<lparr>dd_window = 0, dd_next = 0\<rparr>"

definition dd_highest :: "dedup \<Rightarrow> nat" where
  "dd_highest d = u64_sub (dd_next d) 1"

definition dd_insert :: "nat \<Rightarrow> dedup \<Rightarrow> bool \<times> dedup" where
  "dd_insert packet d = (case checked_sub packet (dd_next d) of
      Some diff \<Rightarrow> (False, \<lparr>dd_window = (case u128_checked_shl (push_bit 1 (dd_window d) OR 1) (min diff (2 ^ 32 - 1)) of
            Some w \<Rightarrow> w | None \<Rightarrow> 0), dd_next = u64_add packet 1\<rparr>)
    | None \<Rightarrow> (if u64_sub (dd_highest d) packet < WINDOW_SIZE
        then (case checked_sub (u64_sub (dd_highest d) packet) 1 of
            Some b \<Rightarrow> (let mask = push_bit b 1 in
              (dd_window d AND mask \<noteq> 0, d\<lparr>dd_window := dd_window d OR mask\<rparr>))
          | None \<Rightarrow> (True, d))
        else (True, d)))"

definition smallest_missing_in_interval :: "nat \<Rightarrow> nat \<Rightarrow> dedup \<Rightarrow> nat option" where
  "smallest_missing_in_interval lower_bound upper_bound d = (
     let lower = u64_add lower_bound 1;
         upper = upper_bound - 1;
         start_offset = max (u64_sub (dd_highest d) upper) 1 - 1
     in if 128 \<le> start_offset then None
     else let end_offset_exclusive = dd_highest d - lower;
              range_len = min (end_offset_exclusive - start_offset) 128
     in if range_len = 0 then None
     else let mask = (if range_len = 128 then - 1 else push_bit start_offset (push_bit range_len 1 - 1));
              gaps = NOT (dd_window d) AND mask;
              smallest_missing_offset = 128 - u128_leading_zeros gaps;
              smallest_missing_packet = u64_sub (dd_highest d) smallest_missing_offset
     in if smallest_missing_packet \<le> upper then Some smallest_missing_packet else None)"

definition missing_in_interval :: "nat \<Rightarrow> nat \<Rightarrow> dedup \<Rightarrow> bool" where
  "missing_in_interval lower_bound upper_bound d = (smallest_missing_in_interval lower_bound upper_bound d \<noteq> None)"

section \<open>The set of numbers seen\<close>

text \<open>What the filter stands for: the highest number, the bits of the window, and everything left of it.\<close>

definition dd_seen :: "dedup \<Rightarrow> nat \<Rightarrow> bool" where
  "dd_seen d q \<longleftrightarrow> q < dd_next d \<and> (q + 1 = dd_next d \<or> 128 \<le> dd_next d - 2 - q \<or> bit (dd_window d) (dd_next d - 2 - q))"

lemma bit_u128_or_mask: "bit ((w :: u128) OR push_bit b 1) i \<longleftrightarrow> bit w i \<or> (i = b \<and> b < 128)"
  by (auto simp: bit_simps dest: bit_imp_le_length)

lemma and_mask_nonzero: "(w :: u128) AND push_bit b 1 \<noteq> 0 \<longleftrightarrow> bit w b"
proof
  assume "bit w b"
  then have "bit (w AND push_bit b 1) b" by (auto simp: bit_simps dest: bit_imp_le_length)
  then show "w AND push_bit b 1 \<noteq> 0" by auto
next
  have "w AND push_bit b 1 = 0" if "\<not> bit w b" by (rule bit_eqI) (use that in \<open>auto simp: bit_simps\<close>)
  then show "w AND push_bit b 1 \<noteq> 0 \<Longrightarrow> bit w b" by blast
qed

lemma bit_shifted: "n < 128 \<Longrightarrow> bit (push_bit n (push_bit 1 (w :: u128) OR 1)) i
    \<longleftrightarrow> i < 128 \<and> (i = n \<or> n + 1 \<le> i \<and> bit w (i - n - 1))"
  unfolding bit_push_bit_iff bit_or_iff by (cases "i - n") (auto simp: bit_1_iff dest: bit_imp_le_length)

lemma dd_insert_right:
  assumes "packet < 2 ^ 64 - 1" "dd_next d \<le> packet"
  shows "fst (dd_insert packet d) = False" and "dd_next (snd (dd_insert packet d)) = packet + 1"
    and "bit (dd_window (snd (dd_insert packet d))) i
      \<longleftrightarrow> i < 128 \<and> (i = packet - dd_next d \<or> packet - dd_next d + 1 \<le> i \<and> bit (dd_window d) (i - (packet - dd_next d) - 1))"
proof -
  define n where "n = packet - dd_next d"
  have cs: "checked_sub packet (dd_next d) = Some n" using assms by (simp add: checked_sub_def n_def)
  have "min n (2 ^ 32 - 1) < 128 \<longleftrightarrow> n < 128" "n < 128 \<Longrightarrow> min n (2 ^ 32 - 1) = n" by auto
  then show "fst (dd_insert packet d) = False" "dd_next (snd (dd_insert packet d)) = packet + 1"
    "bit (dd_window (snd (dd_insert packet d))) i
      \<longleftrightarrow> i < 128 \<and> (i = packet - dd_next d \<or> packet - dd_next d + 1 \<le> i \<and> bit (dd_window d) (i - (packet - dd_next d) - 1))"
    using assms(1) cs bit_shifted [of n "dd_window d" i] unfolding n_def [symmetric]
    by (auto simp: dd_insert_def u128_checked_shl_def u64_add_eq split: if_splits)
qed

lemma dd_insert_seen:
  assumes "packet < 2 ^ 64 - 1"
  shows "fst (dd_insert packet d) \<longleftrightarrow> dd_seen d packet"
    and "dd_next (snd (dd_insert packet d)) = max (dd_next d) (packet + 1)"
    and "dd_seen (snd (dd_insert packet d)) q \<longleftrightarrow> q = packet \<or> dd_seen d q \<or> q + WINDOW_SIZE < max (dd_next d) (packet + 1)"
proof -
  have "(fst (dd_insert packet d) \<longleftrightarrow> dd_seen d packet) \<and> dd_next (snd (dd_insert packet d)) = max (dd_next d) (packet + 1)
     \<and> (dd_seen (snd (dd_insert packet d)) q \<longleftrightarrow> q = packet \<or> dd_seen d q \<or> q + WINDOW_SIZE < max (dd_next d) (packet + 1))"
  proof (cases "dd_next d \<le> packet")
    case True
    note eff = dd_insert_right [OF assms True]
    have "dd_seen (snd (dd_insert packet d)) q \<longleftrightarrow> q = packet \<or> dd_seen d q \<or> q + WINDOW_SIZE < packet + 1"
    proof (cases "packet - 1 - q < 128 \<and> q < packet")
      case True
      moreover have "packet - 1 - q - (packet - dd_next d) - 1 = dd_next d - 2 - q" using \<open>dd_next d \<le> packet\<close> by linarith
      ultimately have "bit (dd_window (snd (dd_insert packet d))) (packet - 1 - q) \<longleftrightarrow>
          q + 1 = dd_next d \<or> q + 1 < dd_next d \<and> bit (dd_window d) (dd_next d - 2 - q)"
        using \<open>dd_next d \<le> packet\<close> eff(3) [of "packet - 1 - q"] by auto
      then show ?thesis using True \<open>dd_next d \<le> packet\<close> unfolding dd_seen_def eff(2) WINDOW_SIZE_def by force
    next
      case False
      then show ?thesis using True unfolding dd_seen_def eff(2) WINDOW_SIZE_def by force
    qed
    then show ?thesis using True eff(1,2) by (simp add: dd_seen_def max_def)
  next
    case False
    then have cs: "checked_sub packet (dd_next d) = None" and hi: "dd_highest d = dd_next d - 1"
      and gap: "u64_sub (dd_highest d) packet = dd_next d - 1 - packet"
      by (auto simp: checked_sub_def dd_highest_def u64_sub_def)
    consider "packet + 1 = dd_next d" | "packet + 1 < dd_next d" "dd_next d - 2 - packet < 128" | "128 \<le> dd_next d - 2 - packet"
      using False by linarith
    then show ?thesis
    proof cases
      case 1
      then show ?thesis using False cs gap by (auto simp: dd_insert_def checked_sub_def WINDOW_SIZE_def dd_seen_def)
    next
      case 2
      have "checked_sub (dd_next d - 1 - packet) 1 = Some (dd_next d - 2 - packet)" using 2 by (simp add: checked_sub_def)
      then have eq: "dd_insert packet d = (bit (dd_window d) (dd_next d - 2 - packet), d\<lparr>dd_window := dd_window d OR push_bit (dd_next d - 2 - packet) 1\<rparr>)"
        using 2 cs gap and_mask_nonzero [of "dd_window d" "dd_next d - 2 - packet"]
        by (simp add: dd_insert_def WINDOW_SIZE_def Let_def) linarith
      show ?thesis using 2 unfolding eq by (auto simp: dd_seen_def bit_u128_or_mask [simplified] WINDOW_SIZE_def)
    next
      case 3
      then show ?thesis using False cs gap by (auto simp: dd_insert_def WINDOW_SIZE_def dd_seen_def)
    qed
  qed
  then show "fst (dd_insert packet d) \<longleftrightarrow> dd_seen d packet" "dd_next (snd (dd_insert packet d)) = max (dd_next d) (packet + 1)"
    "dd_seen (snd (dd_insert packet d)) q \<longleftrightarrow> q = packet \<or> dd_seen d q \<or> q + WINDOW_SIZE < max (dd_next d) (packet + 1)" by blast+
qed

lemma dd_insert_dup:
  assumes "fst (dd_insert packet d)"
  shows "snd (dd_insert packet d) = d"
proof -
  have "dd_window d OR push_bit b 1 = dd_window d" if "dd_window d AND push_bit b 1 \<noteq> 0" for b
    by (rule bit_eqI) (use that in \<open>auto simp: and_mask_nonzero [simplified] bit_u128_or_mask [simplified]\<close>)
  then show ?thesis using assms by (auto simp: dd_insert_def Let_def split: option.splits if_splits)
qed

section \<open>Runs\<close>

definition dd_run :: "nat list \<Rightarrow> dedup" where
  "dd_run ps = fold (\<lambda>p d. snd (dd_insert p d)) ps dd_new"

text \<open>The specification: a number is known once it was inserted or has fallen out of the window.\<close>

definition seen_or_old :: "nat list \<Rightarrow> nat \<Rightarrow> bool" where
  "seen_or_old ps p \<longleftrightarrow> p \<in> set ps \<or> list_ex (\<lambda>q. p + WINDOW_SIZE \<le> q) ps"

lemma dd_run_snoc: "dd_run (ps @ [p]) = snd (dd_insert p (dd_run ps))"
  by (simp add: dd_run_def)

lemma dd_run_seen:
  assumes "\<forall>p \<in> set ps. p < 2 ^ 64 - 1"
  shows "dd_next (dd_run ps) = fold max (map Suc ps) 0" and "dd_seen (dd_run ps) q \<longleftrightarrow> seen_or_old ps q"
proof -
  have "dd_next (dd_run ps) = fold max (map Suc ps) 0 \<and> (\<forall>q. dd_seen (dd_run ps) q \<longleftrightarrow> seen_or_old ps q)" using assms
  proof (induction ps rule: rev_induct)
    case Nil
    then show ?case by (simp add: dd_run_def dd_new_def dd_seen_def seen_or_old_def)
  next
    case (snoc p ps)
    then have p: "p < 2 ^ 64 - 1" and IH: "dd_next (dd_run ps) = fold max (map Suc ps) 0"
      "\<And>q. dd_seen (dd_run ps) q \<longleftrightarrow> seen_or_old ps q" by auto
    have old: "q + WINDOW_SIZE < dd_next (dd_run ps) \<longrightarrow> seen_or_old ps q" for q
      using IH(2) [of q] by (auto simp: dd_seen_def WINDOW_SIZE_def)
    have "dd_seen (dd_run (ps @ [p])) q \<longleftrightarrow> q = p \<or> seen_or_old ps q \<or> q + WINDOW_SIZE < max (dd_next (dd_run ps)) (p + 1)" for q
      using dd_insert_seen(3) [OF p, of "dd_run ps" q] IH(2) by (simp add: dd_run_snoc)
    then have "dd_seen (dd_run (ps @ [p])) q \<longleftrightarrow> seen_or_old (ps @ [p]) q" for q
      using old [of q] by (auto simp: seen_or_old_def max_def split: if_splits)
    moreover have "dd_next (dd_run (ps @ [p])) = max (fold max (map Suc ps) 0) (p + 1)"
      using dd_insert_seen(2) [OF p] IH(1) by (simp add: dd_run_snoc)
    ultimately show ?case by (simp add: max.commute)
  qed
  then show "dd_next (dd_run ps) = fold max (map Suc ps) 0" "dd_seen (dd_run ps) q \<longleftrightarrow> seen_or_old ps q" by blast+
qed

section \<open>The smallest number missing\<close>

lemma takeWhile_rev_upt:
  "\<exists>i < n. P i \<Longrightarrow> \<exists>t < n. n - length (takeWhile (\<lambda>i. \<not> P i) (rev [0..<n])) = t + 1 \<and> P t \<and> (\<forall>i. t < i \<and> i < n \<longrightarrow> \<not> P i)"
proof (induction n)
  case (Suc n)
  then show ?case
  proof (cases "P n")
    case False
    then have "\<exists>i < n. P i" using Suc.prems less_Suc_eq by auto
    then obtain t where "t < n" "n - length (takeWhile (\<lambda>i. \<not> P i) (rev [0..<n])) = t + 1" "P t" "\<forall>i. t < i \<and> i < n \<longrightarrow> \<not> P i"
      using Suc.IH by blast
    then show ?thesis using False by (intro exI [of _ t]) (auto simp: less_Suc_eq)
  qed auto
qed simp

lemma leading_zeros_top:
  assumes "w \<noteq> 0"
  obtains t where "t < 128" "128 - u128_leading_zeros w = t + 1" "bit w t" "\<And>i. t < i \<Longrightarrow> \<not> bit w i"
proof -
  have "\<exists>i < 128. bit w i"
  proof (rule ccontr)
    assume "\<not> (\<exists>i < 128. bit w i)"
    then have "w = 0" by (intro bit_eqI) auto
    then show False using assms by simp
  qed
  from takeWhile_rev_upt [OF this] show ?thesis
    using that bit_imp_le_length [of w] unfolding u128_leading_zeros_def by auto
qed

lemma leading_zeros_zero: "u128_leading_zeros 0 = 128"
proof -
  have "takeWhile (\<lambda>i. \<not> bit (0 :: u128) i) (rev [0..<128]) = rev [0..<128]" by (subst takeWhile_eq_all_conv) simp
  then show ?thesis unfolding u128_leading_zeros_def by (metis length_rev length_upt diff_zero)
qed

lemma none_missing: "(\<And>j. lo < j \<Longrightarrow> j < hi \<Longrightarrow> P j) \<Longrightarrow> find (\<lambda>q. \<not> P q) [lo + 1..<hi] = None"
  by (auto simp: find_None_iff)

lemma find_upt_Some:
  assumes "a \<le> q" "q < b" "P q" "\<And>j. a \<le> j \<Longrightarrow> j < q \<Longrightarrow> \<not> P j"
  shows "find P [a..<b] = Some q"
  unfolding find_Some_iff by (rule exI [of _ "q - a"]) (use assms in auto)

definition interval_mask :: "nat \<Rightarrow> nat \<Rightarrow> u128" where
  "interval_mask start len = (if len = 128 then - 1 else push_bit start (push_bit len 1 - 1))"

lemma bit_interval_mask:
  "len \<le> 128 \<Longrightarrow> bit (interval_mask start len) i \<longleftrightarrow> i < 128 \<and> (len = 128 \<or> start \<le> i \<and> i < start + len)"
proof -
  have "push_bit len 1 - 1 = (mask len :: u128)" by (simp add: mask_eq_exp_minus_1)
  then show "len \<le> 128 \<Longrightarrow> ?thesis" by (auto simp: interval_mask_def bit_push_bit_iff bit_mask_iff bit_minus_1_iff)
qed

lemma smallest_missing_correct:
  assumes hi: "hi < dd_next d" and lo: "lo \<le> hi" and lim: "dd_next d < 2 ^ 64"
  shows "smallest_missing_in_interval lo hi d = find (\<lambda>q. \<not> dd_seen d q) [lo + 1..<hi]"
proof -
  define H where "H = dd_next d - 1"
  have H: "dd_highest d = H" "dd_next d = H + 1" "hi \<le> H" using hi by (auto simp: H_def dd_highest_def u64_sub_def)
  have lower: "u64_add lo 1 = lo + 1" using hi lo lim by (simp add: u64_add_eq)
  show ?thesis
  proof (cases "hi \<le> lo + 1")
    case True
    have "H - (lo + 1) - (max (u64_sub H (hi - 1)) 1 - 1) = 0" using True H(3) by (auto simp: u64_sub_def max_def)
    then show ?thesis using True unfolding smallest_missing_in_interval_def Let_def H(1) lower by (simp del: One_nat_def)
  next
    case False
    define start where "start = H - hi"
    have start: "max (u64_sub H (hi - 1)) 1 - 1 = start" using False H by (auto simp: u64_sub_def start_def)
    define len where "len = min (hi - lo - 1) 128"
    have len: "min (H - (lo + 1) - start) 128 = len" "0 < len" "len \<le> 128" using False H by (auto simp: len_def start_def)
    define gaps where "gaps = NOT (dd_window d) AND interval_mask start len"
    define q where "q = u64_sub H (128 - u128_leading_zeros gaps)"
    have eq: "smallest_missing_in_interval lo hi d = (if 128 \<le> start then None else if q \<le> hi - 1 then Some q else None)"
      unfolding smallest_missing_in_interval_def Let_def H(1) lower start len(1) q_def gaps_def interval_mask_def using len(2) by simp
    have gap: "\<not> dd_seen d j \<longleftrightarrow> bit gaps (H - 1 - j)" if "lo < j" "j < hi" for j
    proof -
      have "start \<le> H - 1 - j" "H - 1 - j < start + (hi - lo - 1)" using that H by (auto simp: start_def)
      then show ?thesis using that H unfolding gaps_def
        by (auto simp: dd_seen_def bit_and_iff bit_not_iff bit_interval_mask len(3)) (auto simp: len_def)
    qed
    show ?thesis
    proof (cases "128 \<le> start")
      case True
      then have "\<not> bit gaps (H - 1 - j)" if "lo < j" "j < hi" for j
        using that H by (auto simp: start_def gaps_def bit_and_iff bit_interval_mask len(3))
      then show ?thesis using gap True by (simp add: eq none_missing [simplified])
    next
      case small: False
      show ?thesis
      proof (cases "gaps = 0")
        case True
        then have "q = H" by (simp add: q_def leading_zeros_zero u64_sub_def)
        moreover have "find (\<lambda>q. \<not> dd_seen d q) [lo + 1..<hi] = None" using True gap by (intro none_missing) simp
        ultimately show ?thesis using H False small by (simp add: eq)
      next
        case gaps: False
        obtain t where t: "t < 128" "128 - u128_leading_zeros gaps = t + 1" "bit gaps t" "\<And>i. t < i \<Longrightarrow> \<not> bit gaps i"
          using leading_zeros_top [OF gaps] by blast
        have "len = 128 \<or> t < start + len" using t(3) by (auto simp: gaps_def bit_and_iff bit_interval_mask len(3))
        then have tH: "t + 1 + lo < H" using t(1) False H by (auto simp: len_def start_def)
        then have q: "q = H - 1 - t" by (simp add: q_def t(2) u64_sub_def)
        show ?thesis
        proof (cases "q \<le> hi - 1")
          case True
          have "find (\<lambda>q. \<not> dd_seen d q) [lo + 1..<hi] = Some q"
          proof (rule find_upt_Some)
            show "\<not> dd_seen d q" using gap [of q] True tH False t(3) by (simp add: q)
            show "\<not> \<not> dd_seen d j" if "lo + 1 \<le> j" "j < q" for j
              using gap [of j] t(4) [of "H - 1 - j"] that True tH False by (simp add: q)
          qed (use True tH False in \<open>auto simp: q\<close>)
          then show ?thesis using True small by (simp add: eq)
        next
          case above: False
          have "dd_seen d j" if "lo < j" "j < hi" for j
            using gap [OF that] t(4) [of "H - 1 - j"] that above tH by (simp add: q)
          then show ?thesis using above by (simp add: eq none_missing [simplified])
        qed
      qed
    qed
  qed
qed

section \<open>The filter as a set\<close>

lemma fold_max_cases: "fold max xs (a :: nat) = a \<or> fold max xs a \<in> set xs"
proof (induction xs arbitrary: a)
  case (Cons x xs)
  then show ?case using Cons.IH [of "max x a"] by (auto simp: max_def split: if_splits)
qed simp

lemma fold_max_ge: "x = a \<or> x \<in> set xs \<Longrightarrow> x \<le> fold max xs (a :: nat)"
proof (induction xs arbitrary: a x)
  case (Cons y ys)
  then consider "x \<le> max y a" | "x \<in> set ys" by force
  then show ?case
  proof cases
    case 1
    then show ?thesis using le_trans [OF 1 Cons.IH [of "max y a" "max y a"]] by simp
  qed (simp add: Cons.IH)
qed simp

lemma dd_run_bounds:
  assumes "\<forall>p \<in> set ps. p < 2 ^ 64 - 1"
  shows "dd_next (dd_run ps) < 2 ^ 64" and "p \<in> set ps \<Longrightarrow> p < dd_next (dd_run ps)"
proof -
  have "fold max (map Suc ps) 0 = 0 \<or> fold max (map Suc ps) 0 \<in> Suc ` set ps" using fold_max_cases [of "map Suc ps" 0] by simp
  then show "dd_next (dd_run ps) < 2 ^ 64" using assms by (auto simp: dd_run_seen(1))
  show "p < dd_next (dd_run ps)" if "p \<in> set ps"
    using that assms fold_max_ge [of "Suc p" 0 "map Suc ps"] by (simp add: dd_run_seen(1) Suc_le_eq)
qed

lemma dd_run_missing:
  assumes "\<forall>p \<in> set ps. p < 2 ^ 64 - 1" "lo \<le> hi" "hi \<in> set ps"
  shows "smallest_missing_in_interval lo hi (dd_run ps) = find (\<lambda>q. \<not> seen_or_old ps q) [lo + 1..<hi]"
  using smallest_missing_correct [OF dd_run_bounds(2) [OF assms(1,3)] assms(2) dd_run_bounds(1) [OF assms(1)]] assms(1)
  by (simp add: dd_run_seen(2))

text \<open>(C37) The duplicate filter implements a set.  After any sequence of packet numbers, inserting a number
  reports a duplicate exactly when it was inserted before or lies 129 or more below the highest one; so
  no packet is processed twice, and a packet that is late by at most 128 is never refused.  Between two
  numbers, the upper one received, the bit scan finds exactly the smallest number not yet seen.\<close>

theorem dedup_implements_set:
  assumes "\<forall>q \<in> set ps. q < 2 ^ 64 - 1"
  shows "(p < 2 ^ 64 - 1 \<longrightarrow> (fst (dd_insert p (dd_run ps)) \<longleftrightarrow> seen_or_old ps p))
    \<and> (lo \<le> hi \<and> hi \<in> set ps \<longrightarrow>
      smallest_missing_in_interval lo hi (dd_run ps) = find (\<lambda>q. \<not> seen_or_old ps q) [lo + 1..<hi])"
  using assms dd_insert_seen(1) dd_run_seen(2) dd_run_missing by simp

theorem dedup_implements_set_witness:
  "\<not> fst (dd_insert 6 (dd_run [0, 1, 5, 7, 134])) \<and> fst (dd_insert 4 (dd_run [0, 1, 5, 7, 134]))
    \<and> fst (dd_insert 7 (dd_run [0, 1, 5, 7, 134])) \<and> smallest_missing_in_interval 0 7 (dd_run [0, 1, 5, 7, 134]) = Some 6"
proof -
  let ?ps = "[0, 1, 5, 7, 134] :: nat list"
  have ps: "\<forall>q \<in> set ?ps. q < 2 ^ 64 - 1" by simp
  have "find (\<lambda>q. \<not> seen_or_old ?ps q) [0 + 1..<7] = Some 6" by (simp add: upt_rec seen_or_old_def WINDOW_SIZE_def)
  moreover have "\<not> seen_or_old ?ps 6" "seen_or_old ?ps 4" "seen_or_old ?ps 7" by (simp_all add: seen_or_old_def WINDOW_SIZE_def)
  ultimately show ?thesis
    using dedup_implements_set [OF ps, of 6 0 7] dedup_implements_set [OF ps, of 4 0 7] dedup_implements_set [OF ps, of 7 0 7] by simp
qed

end
