(* ===== verification/Pending_Acks.thy ===== *)
theory Pending_Acks
  imports Dedup Array_Range_Set Frames
begin

text \<open>
  The acknowledgements a packet number space owes its peer (\<^verbatim>\<open>PendingAcks\<close> of \<^verbatim>\<open>connection/spaces.rs\<close>) and the
  ACK frequency extension (\<^verbatim>\<open>connection/ack_frequency.rs\<close>).  Along every run only received packets are
  acknowledged, none above the numbers given up is left out, the ranges fit their limit, and an
  ack-eliciting packet not yet acknowledged has an ACK due or the delay timer running.
\<close>

section \<open>Model\<close>

subsection \<open>Pending acknowledgements\<close>

record pending_acks =
  pa_immediate_ack_required :: bool
  pa_ack_eliciting_since_last_ack_sent :: nat
  pa_non_ack_eliciting_since_last_ack_sent :: nat
  pa_ack_eliciting_threshold :: nat
  pa_reordering_threshold :: nat
  pa_earliest_ack_eliciting_since_last_ack_sent :: "instant option"
  pa_ranges :: array_range_set
  pa_largest_packet :: "(nat \<times> instant) option"
  pa_largest_ack_eliciting_packet :: "nat option"
  pa_largest_acked :: "nat option"

definition MAX_ACK_BLOCKS :: nat where "MAX_ACK_BLOCKS = 64"
definition LAZY_ACK_THRESHOLD :: nat where "LAZY_ACK_THRESHOLD = 10"

definition pa_new :: pending_acks where
  "pa_new = \<lparr>pa_immediate_ack_required = False, pa_ack_eliciting_since_last_ack_sent = 0,
     pa_non_ack_eliciting_since_last_ack_sent = 0, pa_ack_eliciting_threshold = 1, pa_reordering_threshold = 1,
     pa_earliest_ack_eliciting_since_last_ack_sent = None, pa_ranges = array_new, pa_largest_packet = None,
     pa_largest_ack_eliciting_packet = None, pa_largest_acked = None\<rparr>"

definition set_ack_frequency_params :: "ack_frequency \<Rightarrow> pending_acks \<Rightarrow> pending_acks" where
  "set_ack_frequency_params f p = p\<lparr>pa_ack_eliciting_threshold := unat (af_ack_eliciting_threshold f),
     pa_reordering_threshold := unat (af_reordering_threshold f)\<rparr>"

definition set_immediate_ack_required :: "pending_acks \<Rightarrow> pending_acks" where
  "set_immediate_ack_required p = p\<lparr>pa_immediate_ack_required := True\<rparr>"

definition on_max_ack_delay_timeout :: "pending_acks \<Rightarrow> pending_acks" where
  "on_max_ack_delay_timeout p = p\<lparr>pa_immediate_ack_required := (0 < pa_ack_eliciting_since_last_ack_sent p)\<rparr>"

definition max_ack_delay_timeout :: "duration \<Rightarrow> pending_acks \<Rightarrow> instant option" where
  "max_ack_delay_timeout max_ack_delay p =
     map_option (\<lambda>earliest. earliest + max_ack_delay) (pa_earliest_ack_eliciting_since_last_ack_sent p)"

definition pa_can_send :: "pending_acks \<Rightarrow> bool" where
  "pa_can_send p \<longleftrightarrow> pa_immediate_ack_required p \<and> \<not> array_is_empty (pa_ranges p)"

definition pa_ack_delay :: "instant \<Rightarrow> pending_acks \<Rightarrow> duration" where
  "pa_ack_delay now p = (case pa_largest_packet p of None \<Rightarrow> 0 | Some (_, received) \<Rightarrow> now - received)"

definition is_out_of_order :: "nat \<Rightarrow> nat \<Rightarrow> dedup \<Rightarrow> pending_acks \<Rightarrow> bool" where
  "is_out_of_order packet_number prev_largest_ack_eliciting d p =
     (if pa_reordering_threshold p = 0 then False
      else if pa_reordering_threshold p = 1
      then packet_number < prev_largest_ack_eliciting \<or> missing_in_interval prev_largest_ack_eliciting packet_number d
      else case (pa_largest_acked p, pa_largest_ack_eliciting_packet p) of
             (Some largest_acked, Some largest_unacked) \<Rightarrow>
               if largest_acked < pa_reordering_threshold p then False
               else let largest_reported = u64_add (u64_sub largest_acked (pa_reordering_threshold p)) 1 in
                 (case smallest_missing_in_interval largest_reported largest_unacked d of
                    None \<Rightarrow> False
                  | Some smallest_missing_unreported \<Rightarrow>
                      pa_reordering_threshold p \<le> u64_sub largest_unacked smallest_missing_unreported)
           | _ \<Rightarrow> False)"

definition packet_received :: "instant \<Rightarrow> nat \<Rightarrow> bool \<Rightarrow> dedup \<Rightarrow> pending_acks \<Rightarrow> bool \<times> pending_acks" where
  "packet_received now packet_number ack_eliciting d p =
     (if \<not> ack_eliciting
      then (False, p\<lparr>pa_non_ack_eliciting_since_last_ack_sent := u64_add (pa_non_ack_eliciting_since_last_ack_sent p) 1\<rparr>)
      else let prev_largest_ack_eliciting = (case pa_largest_ack_eliciting_packet p of None \<Rightarrow> 0 | Some pn \<Rightarrow> pn);
               p = p\<lparr>pa_largest_ack_eliciting_packet := Some (case pa_largest_ack_eliciting_packet p of
                       Some pn \<Rightarrow> max pn packet_number | None \<Rightarrow> packet_number)\<rparr>;
               p = p\<lparr>pa_ack_eliciting_since_last_ack_sent := u64_add (pa_ack_eliciting_since_last_ack_sent p) 1\<rparr>;
               p = p\<lparr>pa_immediate_ack_required := (pa_immediate_ack_required p
                       \<or> pa_ack_eliciting_threshold p < pa_ack_eliciting_since_last_ack_sent p)\<rparr>;
               p = p\<lparr>pa_immediate_ack_required := (pa_immediate_ack_required p
                       \<or> is_out_of_order packet_number prev_largest_ack_eliciting d p)\<rparr>
           in if pa_earliest_ack_eliciting_since_last_ack_sent p = None \<and> \<not> pa_can_send p
              then (True, p\<lparr>pa_earliest_ack_eliciting_since_last_ack_sent := Some now\<rparr>)
              else (False, p))"

definition acks_sent :: "pending_acks \<Rightarrow> pending_acks" where
  "acks_sent p = p\<lparr>pa_immediate_ack_required := False, pa_ack_eliciting_since_last_ack_sent := 0,
     pa_non_ack_eliciting_since_last_ack_sent := 0, pa_earliest_ack_eliciting_since_last_ack_sent := None,
     pa_largest_acked := pa_largest_ack_eliciting_packet p\<rparr>"

definition pa_insert_one :: "nat \<Rightarrow> instant \<Rightarrow> pending_acks \<Rightarrow> pending_acks" where
  "pa_insert_one packet now p =
     (let p = p\<lparr>pa_ranges := snd (array_insert_one (pa_ranges p) packet)\<rparr>;
          p = (if (case pa_largest_packet p of None \<Rightarrow> True | Some (pn, _) \<Rightarrow> pn < packet)
               then p\<lparr>pa_largest_packet := Some (packet, now)\<rparr> else p)
      in if MAX_ACK_BLOCKS < array_len (pa_ranges p) then p\<lparr>pa_ranges := snd (array_pop_min (pa_ranges p))\<rparr> else p)"

definition subtract_below :: "nat \<Rightarrow> pending_acks \<Rightarrow> pending_acks" where
  "subtract_below acked p = p\<lparr>pa_ranges := snd (array_remove (pa_ranges p) (0, u64_add acked 1))\<rparr>"

definition maybe_ack_non_eliciting :: "pending_acks \<Rightarrow> pending_acks" where
  "maybe_ack_non_eliciting p =
     (if LAZY_ACK_THRESHOLD < pa_non_ack_eliciting_since_last_ack_sent p then p\<lparr>pa_immediate_ack_required := True\<rparr> else p)"

subsection \<open>ACK frequency\<close>

record ack_frequency_state =
  fs_in_flight_ack_frequency_frame :: "(nat \<times> duration) option"
  fs_next_outgoing_sequence_number :: nat
  fs_peer_max_ack_delay :: duration
  fs_last_ack_frequency_frame :: "nat option"
  fs_max_ack_delay :: duration

record ack_frequency_config =
  ac_ack_eliciting_threshold :: varint
  ac_max_ack_delay :: "duration option"
  ac_reordering_threshold :: varint

definition TIMER_GRANULARITY :: duration where "TIMER_GRANULARITY = 10 ^ 6"
definition MIN_AUTOMATIC_ACK_DELAY :: duration where "MIN_AUTOMATIC_ACK_DELAY = 25 * 10 ^ 6"

definition fs_new :: "duration \<Rightarrow> ack_frequency_state" where
  "fs_new default_max_ack_delay = \<lparr>fs_in_flight_ack_frequency_frame = None, fs_next_outgoing_sequence_number = 0,
     fs_peer_max_ack_delay = default_max_ack_delay, fs_last_ack_frequency_frame = None, fs_max_ack_delay = default_max_ack_delay\<rparr>"

text \<open>\<^verbatim>\<open>Duration::clamp\<close> panics when its bounds are the wrong way round.\<close>

definition candidate_max_ack_delay :: "duration \<Rightarrow> ack_frequency_config \<Rightarrow> nat option \<Rightarrow> ack_frequency_state \<Rightarrow> duration option" where
  "candidate_max_ack_delay rtt config peer_min_ack_delay s =
     (let min_ack_delay = (case peer_min_ack_delay of None \<Rightarrow> 0 | Some micros \<Rightarrow> 1000 * micros);
          hi = max rtt MIN_AUTOMATIC_ACK_DELAY;
          want = (case ac_max_ack_delay config of None \<Rightarrow> fs_peer_max_ack_delay s | Some d \<Rightarrow> d)
      in if hi < min_ack_delay then None
         else Some (if want < min_ack_delay then min_ack_delay else if hi < want then hi else want))"

definition max_ack_delay_for_pto :: "ack_frequency_state \<Rightarrow> duration" where
  "max_ack_delay_for_pto s = (case fs_in_flight_ack_frequency_frame s of
      Some (_, max_ack_delay) \<Rightarrow> max (fs_peer_max_ack_delay s) max_ack_delay
    | None \<Rightarrow> fs_peer_max_ack_delay s)"

definition next_sequence_number :: "ack_frequency_state \<Rightarrow> (nat \<times> ack_frequency_state) option" where
  "next_sequence_number s =
     (if fs_next_outgoing_sequence_number s \<le> 2 ^ 62 - 1
      then Some (fs_next_outgoing_sequence_number s,
             s\<lparr>fs_next_outgoing_sequence_number := u64_add (fs_next_outgoing_sequence_number s) 1\<rparr>)
      else None)"

definition ack_frequency_sent :: "nat \<Rightarrow> duration \<Rightarrow> ack_frequency_state \<Rightarrow> ack_frequency_state" where
  "ack_frequency_sent pn requested_max_ack_delay s = s\<lparr>fs_in_flight_ack_frequency_frame := Some (pn, requested_max_ack_delay)\<rparr>"

definition fs_on_acked :: "nat \<Rightarrow> ack_frequency_state \<Rightarrow> ack_frequency_state" where
  "fs_on_acked pn s = (case fs_in_flight_ack_frequency_frame s of
      Some (number, requested_max_ack_delay) \<Rightarrow>
        if number = pn then s\<lparr>fs_in_flight_ack_frequency_frame := None, fs_peer_max_ack_delay := requested_max_ack_delay\<rparr> else s
    | None \<Rightarrow> s)"

definition ack_frequency_received :: "ack_frequency \<Rightarrow> (ack_frequency_state \<times> pending_acks, transport_error, bool) op" where
  "ack_frequency_received f = (\<lambda>(s, p).
     if (case fs_last_ack_frequency_frame s of Some highest \<Rightarrow> unat (af_sequence f) \<le> highest | None \<Rightarrow> False)
     then (Inr False, (s, p))
     else let s = s\<lparr>fs_last_ack_frequency_frame := Some (unat (af_sequence f))\<rparr>;
              max_ack_delay = 1000 * unat (af_request_max_ack_delay f)
          in if max_ack_delay < TIMER_GRANULARITY
             then (Inl (PROTOCOL_VIOLATION ''Requested Max Ack Delay in ACK_FREQUENCY frame is less than min_ack_delay''), (s, p))
             else (Inr True, (s\<lparr>fs_max_ack_delay := max_ack_delay\<rparr>, set_ack_frequency_params f p)))"

section \<open>Acknowledgement ranges\<close>

lemma array_merge_length: "length (array_merge r ns) \<le> Suc (length ns)"
  by (induction r ns rule: array_merge.induct) auto

lemma array_insert_length: "length (snd (array_insert s x)) \<le> Suc (length s)"
proof -
  have "length (snd (array_insert_loop s x b)) \<le> Suc (length s)" for b
    by (induction s arbitrary: b) (simp_all add: Let_def case_prod_beta le_SucI array_merge_length)
  then show ?thesis by (simp add: array_insert_def)
qed

lemma array_remove_below_length: "length (snd (array_remove s (0, b))) \<le> length s"
proof -
  have "length (snd (array_remove_loop s (0, b) c)) \<le> length s" for c
    by (induction s arbitrary: c) (simp_all add: Let_def case_prod_beta range_empty_def le_SucI)
  then show ?thesis by (simp add: array_remove_def)
qed

section \<open>Receiving packets\<close>

text \<open>
  A space that receives: the duplicate filter and the pending acknowledgements, with the packets received
  so far and a bound below which acknowledgements were given up, both for the statements only.  A packet
  goes through \<^verbatim>\<open>Dedup::insert\<close>, \<^verbatim>\<open>on_packet_authenticated\<close> and, its payload processed, \<^verbatim>\<open>packet_received\<close>.
\<close>

record receiver =
  rc_dedup :: dedup
  rc_acks :: pending_acks
  rc_received :: "nat list"
  rc_given_up :: nat

datatype receiver_event =
    Receive instant nat bool
  | SendAck
  | AckAcked nat
  | DelayTimeout
  | ImmediateAck
  | LazyAck
  | Frequency ack_frequency

definition rc_put :: "receiver \<Rightarrow> pending_acks \<Rightarrow> receiver" where
  "rc_put r p = r\<lparr>rc_acks := p\<rparr>"

text \<open>What leaves the ranges when a number is inserted: nothing, or the lowest range.\<close>

definition popped_below :: "nat \<Rightarrow> pending_acks \<Rightarrow> nat" where
  "popped_below packet p = (let rs = snd (array_insert_one (pa_ranges p) packet) in
     if MAX_ACK_BLOCKS < array_len rs then (case rs of [] \<Rightarrow> 0 | x # _ \<Rightarrow> snd x) else 0)"

fun rc_exec :: "receiver_event \<Rightarrow> receiver \<Rightarrow> receiver" where
  "rc_exec (Receive now n eliciting) r = (case dd_insert n (rc_dedup r) of
      (True, d) \<Rightarrow> r\<lparr>rc_dedup := d\<rparr>
    | (False, d) \<Rightarrow> \<lparr>rc_dedup = d, rc_acks = snd (packet_received now n eliciting d (pa_insert_one n now (rc_acks r))),
        rc_received = rc_received r @ [n], rc_given_up = max (rc_given_up r) (popped_below n (rc_acks r))\<rparr>)"
| "rc_exec SendAck r = (if pa_can_send (rc_acks r) then rc_put r (acks_sent (rc_acks r)) else r)"
| "rc_exec (AckAcked acked) r = (rc_put r (subtract_below acked (rc_acks r)))\<lparr>rc_given_up := max (rc_given_up r) (acked + 1)\<rparr>"
| "rc_exec DelayTimeout r = rc_put r (on_max_ack_delay_timeout (rc_acks r))"
| "rc_exec ImmediateAck r = rc_put r (set_immediate_ack_required (rc_acks r))"
| "rc_exec LazyAck r = rc_put r (maybe_ack_non_eliciting (rc_acks r))"
| "rc_exec (Frequency f) r = rc_put r (set_ack_frequency_params f (rc_acks r))"

fun rc_enabled :: "receiver_event \<Rightarrow> receiver \<Rightarrow> bool" where
  "rc_enabled (Receive now n eliciting) r \<longleftrightarrow> n < 2 ^ 62 \<and> length (rc_received r) < 2 ^ 62"
| "rc_enabled (AckAcked acked) r \<longleftrightarrow> acked < 2 ^ 62"
| "rc_enabled _ r \<longleftrightarrow> True"

definition rc_step :: "receiver \<Rightarrow> receiver_event \<Rightarrow> receiver \<Rightarrow> bool" where
  "rc_step r e r' \<longleftrightarrow> rc_enabled e r \<and> r' = rc_exec e r"

definition rc_new :: receiver where
  "rc_new = \<lparr>rc_dedup = dd_new, rc_acks = pa_new, rc_received = [], rc_given_up = 0\<rparr>"

subsection \<open>Invariant\<close>

text \<open>What every operation keeps of the acknowledgements of a set of received packets.\<close>

definition acks_ok :: "nat set \<Rightarrow> nat \<Rightarrow> pending_acks \<Rightarrow> bool" where
  "acks_ok got floor p \<longleftrightarrow> ranges_ok (pa_ranges p) \<and> length (pa_ranges p) \<le> MAX_ACK_BLOCKS \<and> ranges_elems (pa_ranges p) \<subseteq> got
     \<and> (\<forall>n \<in> got. floor \<le> n \<longrightarrow> n \<in> ranges_elems (pa_ranges p))
     \<and> (0 < pa_ack_eliciting_since_last_ack_sent p \<longrightarrow>
          pa_immediate_ack_required p \<or> pa_earliest_ack_eliciting_since_last_ack_sent p \<noteq> None)"

lemma acks_ok_insert:
  assumes ok: "acks_ok got floor p" and n: "n < 2 ^ 62"
  shows "acks_ok (insert n got) (max floor (popped_below n p)) (pa_insert_one n now p)"
proof -
  define rs where "rs = snd (array_insert_one (pa_ranges p) n)"
  have ins: "array_insert_one (pa_ranges p) n = array_insert (pa_ranges p) (n, n + 1)" using n by (simp add: array_insert_one_def u64_add_eq)
  have rs: "ranges_ok rs" "ranges_elems rs = insert n (ranges_elems (pa_ranges p))" "length rs \<le> Suc MAX_ACK_BLOCKS"
    using ok ars.inv_insert [of "pa_ranges p"] ars.elems_insert [of "pa_ranges p"] array_insert_length [of "pa_ranges p" "(n, n + 1)"]
    by (auto simp: rs_def ins acks_ok_def range_elems_def)
  have ranges: "pa_ranges (pa_insert_one n now p) = (if MAX_ACK_BLOCKS < length rs then snd (array_pop_min rs) else rs)"
    by (simp add: pa_insert_one_def Let_def rs_def array_len_def)
  have rest: "pa_ack_eliciting_since_last_ack_sent (pa_insert_one n now p) = pa_ack_eliciting_since_last_ack_sent p"
    "pa_immediate_ack_required (pa_insert_one n now p) = pa_immediate_ack_required p"
    "pa_earliest_ack_eliciting_since_last_ack_sent (pa_insert_one n now p) = pa_earliest_ack_eliciting_since_last_ack_sent p"
    by (simp_all add: pa_insert_one_def Let_def)
  have "ranges_ok (pa_ranges (pa_insert_one n now p)) \<and> length (pa_ranges (pa_insert_one n now p)) \<le> MAX_ACK_BLOCKS
    \<and> ranges_elems (pa_ranges (pa_insert_one n now p)) \<subseteq> insert n got
    \<and> (\<forall>m \<in> insert n got. max floor (popped_below n p) \<le> m \<longrightarrow> m \<in> ranges_elems (pa_ranges (pa_insert_one n now p)))"
  proof (cases "MAX_ACK_BLOCKS < length rs")
    case False
    then show ?thesis using rs ok by (auto simp: ranges acks_ok_def)
  next
    case True
    then obtain x xs where xs: "rs = x # xs" by (cases rs) auto
    have "ranges_elems rs = {fst x..<snd x} \<union> ranges_elems xs" by (simp add: xs)
    moreover have "m \<in> ranges_elems rs" if "m \<in> insert n got" "floor \<le> m" for m
      using that rs(2) ok by (auto simp: acks_ok_def)
    ultimately have "m \<in> ranges_elems xs" if "m \<in> insert n got" "floor \<le> m" "snd x \<le> m" for m
      using that by fastforce
    then show ?thesis using True rs ok
      by (auto simp: ranges xs array_pop_min_def popped_below_def Let_def rs_def [symmetric] array_len_def ranges_ok_Cons acks_ok_def)
  qed
  then show ?thesis using ok rest by (simp add: acks_ok_def)
qed

lemma acks_ok_received:
  assumes "acks_ok got floor p" "pa_ack_eliciting_since_last_ack_sent p < 2 ^ 64 - 1"
  shows "acks_ok got floor (snd (packet_received now n eliciting d p))"
  using assms by (auto simp: acks_ok_def packet_received_def Let_def pa_can_send_def)

lemma acks_ok_subtract:
  assumes "acks_ok got floor p" "acked < 2 ^ 62"
  shows "acks_ok got (max floor (acked + 1)) (subtract_below acked p)"
proof -
  have "ranges_ok (pa_ranges p)" using assms(1) by (simp add: acks_ok_def)
  note rm = ars.inv_remove [OF this, of "(0, acked + 1)"] ars.elems_remove [OF this, of "(0, acked + 1)"]
    array_remove_below_length [of "pa_ranges p" "acked + 1"]
  show ?thesis using assms rm by (auto simp: acks_ok_def subtract_below_def u64_add_eq range_elems_def)
qed

lemma acks_ok_other:
  assumes "acks_ok got floor p"
  shows "acks_ok got floor (acks_sent p)" "acks_ok got floor (on_max_ack_delay_timeout p)" "acks_ok got floor (set_immediate_ack_required p)"
    "acks_ok got floor (maybe_ack_non_eliciting p)" "acks_ok got floor (set_ack_frequency_params f p)"
  using assms by (auto simp: acks_ok_def acks_sent_def on_max_ack_delay_timeout_def set_immediate_ack_required_def
      maybe_ack_non_eliciting_def set_ack_frequency_params_def)

definition rc_inv :: "receiver \<Rightarrow> bool" where
  "rc_inv r \<longleftrightarrow> (\<forall>n \<in> set (rc_received r). n < 2 ^ 62) \<and> rc_dedup r = dd_run (rc_received r) \<and> distinct (rc_received r)
     \<and> acks_ok (set (rc_received r)) (rc_given_up r) (rc_acks r)
     \<and> pa_ack_eliciting_since_last_ack_sent (rc_acks r) \<le> length (rc_received r) \<and> length (rc_received r) \<le> 2 ^ 62"

lemma rc_inv_receive:
  assumes inv: "rc_inv r" and n: "n < 2 ^ 62" "length (rc_received r) < 2 ^ 62"
  shows "rc_inv (rc_exec (Receive now n eliciting) r)"
proof -
  obtain dup d where ins: "dd_insert n (rc_dedup r) = (dup, d)" by fastforce
  have got: "\<forall>q \<in> set (rc_received r). q < 2 ^ 64 - 1" using inv by (auto simp: rc_inv_def)
  have dup: "dup \<longleftrightarrow> seen_or_old (rc_received r) n"
    using ins inv n dd_insert_seen(1) [of n "rc_dedup r"] dd_run_seen(2) [OF got, of n] by (simp add: rc_inv_def)
  show ?thesis
  proof (cases dup)
    case True
    then have "d = rc_dedup r" using ins dd_insert_dup [of n "rc_dedup r"] by simp
    then show ?thesis using True ins inv by simp
  next
    case False
    let ?p = "pa_insert_one n now (rc_acks r)"
    have "acks_ok (insert n (set (rc_received r))) (max (rc_given_up r) (popped_below n (rc_acks r))) ?p"
      using inv n(1) by (intro acks_ok_insert) (simp_all add: rc_inv_def)
    moreover have since: "pa_ack_eliciting_since_last_ack_sent ?p = pa_ack_eliciting_since_last_ack_sent (rc_acks r)"
      by (simp add: pa_insert_one_def Let_def)
    ultimately have "acks_ok (insert n (set (rc_received r))) (max (rc_given_up r) (popped_below n (rc_acks r)))
        (snd (packet_received now n eliciting d ?p))"
      using inv n(2) by (intro acks_ok_received) (auto simp: rc_inv_def)
    moreover have "pa_ack_eliciting_since_last_ack_sent (snd (packet_received now n eliciting d ?p)) \<le> Suc (length (rc_received r))"
      using inv n(2) since by (auto simp: packet_received_def Let_def rc_inv_def u64_add_eq)
    moreover have "n \<notin> set (rc_received r)" using False dup by (simp add: seen_or_old_def)
    ultimately show ?thesis using False ins inv n by (auto simp: rc_inv_def dd_run_snoc)
  qed
qed

lemma rc_inv_reachable:
  assumes "reachable (\<lambda>r. r = rc_new) rc_step r"
  shows "rc_inv r"
  using assms
proof (rule reachable_invariant)
  show "rc_inv r" if "r = rc_new" for r
    using that by (simp add: rc_inv_def rc_new_def dd_run_def acks_ok_def pa_new_def array_new_def)
  show "rc_inv r'" if "rc_inv r" "rc_step r e r'" for r e r'
  proof (cases e)
    case (Receive now n eliciting)
    then show ?thesis using that rc_inv_receive by (simp add: rc_step_def)
  next
    case (AckAcked acked)
    then show ?thesis using that acks_ok_subtract [of _ _ "rc_acks r" acked]
      by (auto simp: rc_step_def rc_inv_def rc_put_def) (simp add: subtract_below_def)
  qed (use that acks_ok_other [of "set (rc_received r)" "rc_given_up r" "rc_acks r"] in
      \<open>auto simp: rc_step_def rc_inv_def rc_put_def acks_sent_def on_max_ack_delay_timeout_def set_immediate_ack_required_def
        maybe_ack_non_eliciting_def set_ack_frequency_params_def\<close>)
qed

text \<open>RFC 9000, 13.2.1: an ack-eliciting packet is acknowledged at once when it arrives below the largest one
  so far or leaves a gap above it.\<close>

definition largest_eliciting :: "receiver \<Rightarrow> nat" where
  "largest_eliciting r = (case pa_largest_ack_eliciting_packet (rc_acks r) of None \<Rightarrow> 0 | Some pn \<Rightarrow> pn)"

lemma reordered_packet_acked:
  assumes inv: "rc_inv r" and n: "n < 2 ^ 62" "length (rc_received r) < 2 ^ 62" and new: "\<not> seen_or_old (rc_received r) n"
    and threshold: "pa_reordering_threshold (rc_acks r) = 1"
  shows "pa_immediate_ack_required (rc_acks (rc_exec (Receive now n True) r)) \<longleftrightarrow>
    pa_immediate_ack_required (rc_acks r) \<or> pa_ack_eliciting_threshold (rc_acks r) \<le> pa_ack_eliciting_since_last_ack_sent (rc_acks r)
    \<or> n < largest_eliciting r \<or> (\<exists>q > largest_eliciting r. q < n \<and> \<not> seen_or_old (rc_received r @ [n]) q)"
proof -
  have got: "\<forall>q \<in> set (rc_received r @ [n]). q < 2 ^ 64 - 1" using inv n by (auto simp: rc_inv_def)
  then have ins: "dd_insert n (rc_dedup r) = (False, dd_run (rc_received r @ [n]))"
    using inv new dd_insert_seen(1) [of n "rc_dedup r"] dd_run_seen(2) [of "rc_received r" n]
    by (auto simp: rc_inv_def dd_run_snoc prod_eq_iff)
  have gap: "missing_in_interval lo n (dd_run (rc_received r @ [n])) \<longleftrightarrow> (\<exists>q > lo. q < n \<and> \<not> seen_or_old (rc_received r @ [n]) q)"
    if "lo \<le> n" for lo
    using dd_run_missing [OF got that] by (auto simp: missing_in_interval_def find_None_iff Suc_le_eq)
  have since: "u64_add (pa_ack_eliciting_since_last_ack_sent (rc_acks r)) 1 = pa_ack_eliciting_since_last_ack_sent (rc_acks r) + 1"
    using inv n(2) by (simp add: rc_inv_def u64_add_eq)
  have same: "pa_reordering_threshold (pa_insert_one n now (rc_acks r)) = 1"
    "pa_largest_ack_eliciting_packet (pa_insert_one n now (rc_acks r)) = pa_largest_ack_eliciting_packet (rc_acks r)"
    "pa_immediate_ack_required (pa_insert_one n now (rc_acks r)) = pa_immediate_ack_required (rc_acks r)"
    "pa_ack_eliciting_threshold (pa_insert_one n now (rc_acks r)) = pa_ack_eliciting_threshold (rc_acks r)"
    "pa_ack_eliciting_since_last_ack_sent (pa_insert_one n now (rc_acks r)) = pa_ack_eliciting_since_last_ack_sent (rc_acks r)"
    using threshold by (simp_all add: pa_insert_one_def Let_def)
  have "pa_immediate_ack_required (rc_acks (rc_exec (Receive now n True) r)) \<longleftrightarrow>
    pa_immediate_ack_required (rc_acks r) \<or> pa_ack_eliciting_threshold (rc_acks r) \<le> pa_ack_eliciting_since_last_ack_sent (rc_acks r)
    \<or> n < largest_eliciting r \<or> missing_in_interval (largest_eliciting r) n (dd_run (rc_received r @ [n]))"
    using since by (auto simp: ins packet_received_def Let_def is_out_of_order_def same largest_eliciting_def [symmetric])
  then show ?thesis using gap [of "largest_eliciting r"] by (cases "n < largest_eliciting r") simp_all
qed



text \<open>A peer may announce a \<^verbatim>\<open>min_ack_delay\<close> of up to its \<^verbatim>\<open>max_ack_delay\<close>.  Once it exceeds both the round-trip
  time and 25 milliseconds, computing the delay to request panics: the bounds of \<^verbatim>\<open>clamp\<close> are crossed.\<close>

theorem candidate_delay_panics_iff:
  "candidate_max_ack_delay rtt config (Some micros) s = None \<longleftrightarrow> max rtt MIN_AUTOMATIC_ACK_DELAY < 1000 * micros"
  by (simp add: candidate_max_ack_delay_def Let_def)

end
