(* ===== verification/Packet_Space.thy ===== *)
theory Packet_Space
  imports Streams_Flow Cid_State Pending_Acks
begin

text \<open>
  Packet number spaces (\<^verbatim>\<open>connection/spaces.rs\<close>): the packets sent and not yet acknowledged, the frames
  waiting to be sent, the ECN counters, and the filter that skips packet numbers to catch optimistic
  acknowledgements.  The bytes in flight are those of the packets tracked, and the count of trailing
  packets that elicit no acknowledgement never makes tracking a packet fail.
\<close>

section \<open>Model\<close>

datatype space_id = SpaceInitial | SpaceHandshake | SpaceData

definition space_iter :: "space_id list" where
  "space_iter = [SpaceInitial, SpaceHandshake, SpaceData]"

subsection \<open>Frames to send\<close>

text \<open>\<^verbatim>\<open>Retransmits\<close>, with the frames of the streams as one field.\<close>

record pending_frames =
  pf_streams :: retransmits
  pf_crypto :: "crypto_frame list"
  pf_new_cids :: "issued_cid list"
  pf_retire_cids :: "nat list"
  pf_ack_frequency :: bool
  pf_handshake_done :: bool
  pf_new_tokens :: "socket_addr list"
  pf_add_addresses :: "add_address list"
  pf_punch_me_now :: "punch_me_now list"
  pf_remove_addresses :: "remove_address list"
  pf_outbound_observations :: "observed_address list"
  pf_try_connect_to :: "try_connect_to list"
  pf_try_connect_to_responses :: "try_connect_to_response list"

definition pf_default :: pending_frames where
  "pf_default = \<lparr>pf_streams = rt_default, pf_crypto = [], pf_new_cids = [], pf_retire_cids = [], pf_ack_frequency = False,
     pf_handshake_done = False, pf_new_tokens = [], pf_add_addresses = [], pf_punch_me_now = [], pf_remove_addresses = [],
     pf_outbound_observations = [], pf_try_connect_to = [], pf_try_connect_to_responses = []\<rparr>"

definition rt_is_empty :: "streams_state \<Rightarrow> retransmits \<Rightarrow> bool" where
  "rt_is_empty streams rt \<longleftrightarrow> \<not> rt_max_data rt \<and> \<not> rt_max_stream_id rt Bi \<and> \<not> rt_max_stream_id rt Uni
     \<and> rt_reset_stream rt = [] \<and> rt_stop_sending rt = []
     \<and> list_all (\<lambda>sid. \<not> st_can_send_flow_control sid streams) (rt_max_stream_data rt)"

definition pf_is_empty :: "streams_state \<Rightarrow> pending_frames \<Rightarrow> bool" where
  "pf_is_empty streams f \<longleftrightarrow> rt_is_empty streams (pf_streams f) \<and> pf_crypto f = [] \<and> pf_new_cids f = [] \<and> pf_retire_cids f = []
     \<and> \<not> pf_ack_frequency f \<and> \<not> pf_handshake_done f \<and> pf_new_tokens f = [] \<and> pf_add_addresses f = [] \<and> pf_punch_me_now f = []
     \<and> pf_remove_addresses f = [] \<and> pf_outbound_observations f = [] \<and> pf_try_connect_to f = []
     \<and> pf_try_connect_to_responses f = []"

definition pf_merge :: "pending_frames \<Rightarrow> pending_frames \<Rightarrow> pending_frames" where
  "pf_merge self rhs = \<lparr>pf_streams = rt_merge (pf_streams self) (pf_streams rhs),
     pf_crypto = pf_crypto rhs @ pf_crypto self,
     pf_new_cids = pf_new_cids self @ pf_new_cids rhs,
     pf_retire_cids = pf_retire_cids self @ pf_retire_cids rhs,
     pf_ack_frequency = (pf_ack_frequency self \<or> pf_ack_frequency rhs),
     pf_handshake_done = (pf_handshake_done self \<or> pf_handshake_done rhs),
     pf_new_tokens = pf_new_tokens self @ pf_new_tokens rhs,
     pf_add_addresses = pf_add_addresses self @ pf_add_addresses rhs,
     pf_punch_me_now = pf_punch_me_now self @ pf_punch_me_now rhs,
     pf_remove_addresses = pf_remove_addresses self @ pf_remove_addresses rhs,
     pf_outbound_observations = pf_outbound_observations self @ pf_outbound_observations rhs,
     pf_try_connect_to = pf_try_connect_to self @ pf_try_connect_to rhs,
     pf_try_connect_to_responses = pf_try_connect_to_responses self @ pf_try_connect_to_responses rhs\<rparr>"

text \<open>\<^verbatim>\<open>ThinRetransmits\<close> is an optional \<^verbatim>\<open>Retransmits\<close>.\<close>

type_synonym thin_retransmits = "pending_frames option"

definition thin_is_empty :: "streams_state \<Rightarrow> thin_retransmits \<Rightarrow> bool" where
  "thin_is_empty streams r = (case r of Some f \<Rightarrow> pf_is_empty streams f | None \<Rightarrow> True)"

definition thin_get_or_create :: "thin_retransmits \<Rightarrow> pending_frames" where
  "thin_get_or_create r = (case r of Some f \<Rightarrow> f | None \<Rightarrow> pf_default)"

definition pf_merge_thin :: "pending_frames \<Rightarrow> thin_retransmits \<Rightarrow> pending_frames" where
  "pf_merge_thin self rhs = (case rhs of Some f \<Rightarrow> pf_merge self f | None \<Rightarrow> self)"

subsection \<open>Sent packets\<close>

record sent_packet =
  sn_time_sent :: instant
  sn_sample_pn :: nat
  sn_size :: nat
  sn_ack_eliciting :: bool
  sn_largest_acked :: "nat option"
  sn_retransmits :: thin_retransmits
  sn_stream_frames :: "stream_meta list"

text \<open>\<^verbatim>\<open>BTreeMap<u64, SentPacket>\<close>: an association list in the order of its keys.\<close>

type_synonym packet_map = "(nat \<times> sent_packet) list"

definition pm_insert :: "nat \<Rightarrow> sent_packet \<Rightarrow> packet_map \<Rightarrow> packet_map" where
  "pm_insert n p m = filter (\<lambda>x. fst x < n) m @ (n, p) # filter (\<lambda>x. n < fst x) m"

definition pm_remove :: "nat \<Rightarrow> packet_map \<Rightarrow> packet_map" where
  "pm_remove n m = filter (\<lambda>x. fst x \<noteq> n) m"

record packet_space =
  pk_has_keys :: bool
  pk_dedup :: dedup
  pk_rx_packet :: nat
  pk_pending :: pending_frames
  pk_pending_acks :: pending_acks
  pk_next_packet_number :: nat
  pk_largest_acked_packet :: "nat option"
  pk_largest_acked_packet_sent :: instant
  pk_largest_ack_eliciting_sent :: nat
  pk_unacked_non_ack_eliciting_tail :: nat
  pk_sent_packets :: packet_map
  pk_ecn_counters :: ecn_counts
  pk_ecn_feedback :: ecn_counts
  pk_crypto_offset :: nat
  pk_time_of_last_ack_eliciting_packet :: "instant option"
  pk_loss_time :: "instant option"
  pk_loss_probes :: nat
  pk_ping_pending :: bool
  pk_immediate_ack_pending :: bool
  pk_in_flight :: nat
  pk_sent_with_keys :: nat

definition ecn_ZERO :: ecn_counts where
  "ecn_ZERO = \<lparr>ecn_ect0 = 0, ecn_ect1 = 0, ecn_ce = 0\<rparr>"

definition pk_new :: "instant \<Rightarrow> packet_space" where
  "pk_new now = \<lparr>pk_has_keys = False, pk_dedup = dd_new, pk_rx_packet = 0, pk_pending = pf_default, pk_pending_acks = pa_new,
     pk_next_packet_number = 0, pk_largest_acked_packet = None, pk_largest_acked_packet_sent = now,
     pk_largest_ack_eliciting_sent = 0, pk_unacked_non_ack_eliciting_tail = 0, pk_sent_packets = [],
     pk_ecn_counters = ecn_ZERO, pk_ecn_feedback = ecn_ZERO, pk_crypto_offset = 0,
     pk_time_of_last_ack_eliciting_packet = None, pk_loss_time = None, pk_loss_probes = 0, pk_ping_pending = False,
     pk_immediate_ack_pending = False, pk_in_flight = 0, pk_sent_with_keys = 0\<rparr>"

text \<open>The first packet with data to retransmit gives it up.\<close>

fun take_retransmits :: "streams_state \<Rightarrow> packet_map \<Rightarrow> (thin_retransmits \<times> packet_map) option" where
  "take_retransmits streams [] = None"
| "take_retransmits streams ((n, p) # rest) =
     (if \<not> thin_is_empty streams (sn_retransmits p) then Some (sn_retransmits p, (n, p\<lparr>sn_retransmits := None\<rparr>) # rest)
      else map_option (\<lambda>(r, m). (r, (n, p) # m)) (take_retransmits streams rest))"

definition maybe_queue_probe :: "bool \<Rightarrow> streams_state \<Rightarrow> packet_space \<Rightarrow> packet_space" where
  "maybe_queue_probe request_immediate_ack streams k =
     (if pk_loss_probes k = 0 then k
      else let k = (if request_immediate_ack then k\<lparr>pk_immediate_ack_pending := True\<rparr> else k) in
        if \<not> pf_is_empty streams (pk_pending k) then k
        else case take_retransmits streams (pk_sent_packets k) of
               Some (r, m) \<Rightarrow> k\<lparr>pk_sent_packets := m, pk_pending := pf_merge_thin (pk_pending k) r\<rparr>
             | None \<Rightarrow> if \<not> pk_immediate_ack_pending k then k\<lparr>pk_ping_pending := True\<rparr> else k)"

text \<open>None is the failed assertion on the packet number.\<close>

definition get_tx_number :: "packet_space \<Rightarrow> (nat \<times> packet_space) option" where
  "get_tx_number k =
     (if pk_next_packet_number k < 2 ^ 62
      then Some (pk_next_packet_number k, k\<lparr>pk_next_packet_number := u64_add (pk_next_packet_number k) 1,
             pk_sent_with_keys := u64_add (pk_sent_with_keys k) 1\<rparr>)
      else None)"

definition pk_can_send :: "streams_state \<Rightarrow> packet_space \<Rightarrow> bool \<times> bool" where
  "pk_can_send streams k = (pa_can_send (pk_pending_acks k),
     \<not> pf_is_empty streams (pk_pending k) \<or> pk_ping_pending k \<or> pk_immediate_ack_pending k)"

definition detect_ecn :: "nat \<Rightarrow> ecn_counts \<Rightarrow> (packet_space, string, bool) op" where
  "detect_ecn newly_acked ecn k =
     (if ecn_ect0 ecn < ecn_ect0 (pk_ecn_feedback k) then (Inl ''peer ECT(0) count regression'', k)
      else if ecn_ect1 ecn < ecn_ect1 (pk_ecn_feedback k) then (Inl ''peer ECT(1) count regression'', k)
      else if ecn_ce ecn < ecn_ce (pk_ecn_feedback k) then (Inl ''peer CE count regression'', k)
      else let ect0_increase = ecn_ect0 ecn - ecn_ect0 (pk_ecn_feedback k);
               ect1_increase = ecn_ect1 ecn - ecn_ect1 (pk_ecn_feedback k);
               ce_increase = ecn_ce ecn - ecn_ce (pk_ecn_feedback k)
           in if unat (ect0_increase + ect1_increase + ce_increase) < newly_acked then (Inl ''ECN bleaching'', k)
              else if unat (ect0_increase + ce_increase) < newly_acked \<or> ect1_increase \<noteq> 0 then (Inl ''ECN corruption'', k)
              else (Inr (ce_increase \<noteq> 0), k\<lparr>pk_ecn_feedback := ecn\<rparr>))"

definition pk_take :: "nat \<Rightarrow> packet_space \<Rightarrow> sent_packet option \<times> packet_space" where
  "pk_take number k = (case map_of (pk_sent_packets k) number of
      None \<Rightarrow> (None, k)
    | Some packet \<Rightarrow>
        (Some packet, k\<lparr>pk_sent_packets := pm_remove number (pk_sent_packets k),
           pk_in_flight := u64_sub (pk_in_flight k) (sn_size packet),
           pk_unacked_non_ack_eliciting_tail :=
             (if \<not> sn_ack_eliciting packet \<and> pk_largest_ack_eliciting_sent k < number
              then pk_unacked_non_ack_eliciting_tail k - 1 else pk_unacked_non_ack_eliciting_tail k)\<rparr>))"

definition MAX_UNACKED_NON_ACK_ELICTING_TAIL :: nat where
  "MAX_UNACKED_NON_ACK_ELICTING_TAIL = 1000"

text \<open>None is the panic of \<^verbatim>\<open>unwrap\<close> when no packet follows the last ack-eliciting one.\<close>

definition pk_sent :: "nat \<Rightarrow> sent_packet \<Rightarrow> packet_space \<Rightarrow> (nat \<times> packet_space) option" where
  "pk_sent number packet k =
     map_option (\<lambda>(forgotten_bytes, k). (forgotten_bytes, k\<lparr>pk_in_flight := u64_add (pk_in_flight k) (sn_size packet),
         pk_sent_packets := pm_insert number packet (pk_sent_packets k)\<rparr>))
       (if sn_ack_eliciting packet
        then Some (0, k\<lparr>pk_unacked_non_ack_eliciting_tail := 0, pk_largest_ack_eliciting_sent := number\<rparr>)
        else if MAX_UNACKED_NON_ACK_ELICTING_TAIL < pk_unacked_non_ack_eliciting_tail k
        then (case filter (\<lambda>x. pk_largest_ack_eliciting_sent k < fst x) (pk_sent_packets k) of
                [] \<Rightarrow> None
              | (oldest, p) # _ \<Rightarrow> Some (sn_size p, k\<lparr>pk_sent_packets := pm_remove oldest (pk_sent_packets k),
                  pk_in_flight := u64_sub (pk_in_flight k) (sn_size p)\<rparr>))
        else Some (0, k\<lparr>pk_unacked_non_ack_eliciting_tail := u64_add (pk_unacked_non_ack_eliciting_tail k) 1\<rparr>))"

subsection \<open>Packet number filter\<close>

record packet_number_filter =
  nf_next_skipped_packet_number :: nat
  nf_prev_skipped_packet_number :: "nat option"
  nf_exponent :: nat

definition two_pow :: "nat \<Rightarrow> nat" where
  "two_pow e = (if e < 64 then 2 ^ e else 2 ^ 64 - 1)"

text \<open>The random number generator gives the number chosen.\<close>

definition nf_new :: "nat \<Rightarrow> packet_number_filter" where
  "nf_new chosen = \<lparr>nf_next_skipped_packet_number = chosen, nf_prev_skipped_packet_number = None, nf_exponent = 6\<rparr>"

definition nf_peek :: "packet_space \<Rightarrow> packet_number_filter \<Rightarrow> nat" where
  "nf_peek k f = (let n = pk_next_packet_number k in if n \<noteq> nf_next_skipped_packet_number f then n else u64_add n 1)"

text \<open>None is the panic of \<^verbatim>\<open>gen_range\<close> on an empty range or of \<^verbatim>\<open>get_tx_number\<close>.\<close>

definition nf_allocate :: "nat \<Rightarrow> packet_number_filter \<times> packet_space \<Rightarrow> (nat \<times> packet_number_filter \<times> packet_space) option" where
  "nf_allocate chosen = (\<lambda>(f, k). do {
     (n, k) \<leftarrow> get_tx_number k;
     (if n \<noteq> nf_next_skipped_packet_number f then Some (n, f, k)
      else let next_exponent = min (nf_exponent f + 1) (2 ^ 32 - 1) in
        if two_pow next_exponent \<le> two_pow (nf_exponent f) then None
        else map_option (\<lambda>(m, k). (m, f\<lparr>nf_prev_skipped_packet_number := Some n, nf_next_skipped_packet_number := chosen,
               nf_exponent := next_exponent\<rparr>, k)) (get_tx_number k))
   })"

definition nf_check_ack :: "space_id \<Rightarrow> nat \<times> nat \<Rightarrow> packet_number_filter \<Rightarrow> transport_error option" where
  "nf_check_ack space r f =
     (if space = SpaceData \<and> (case nf_prev_skipped_packet_number f of Some x \<Rightarrow> fst r \<le> x \<and> x \<le> snd r | None \<Rightarrow> False)
      then Some (PROTOCOL_VIOLATION ''unsent packet acked'') else None)"

section \<open>Packets tracked\<close>

definition pm_size :: "packet_map \<Rightarrow> nat" where
  "pm_size m = sum_list (map (\<lambda>x. sn_size (snd x)) m)"

definition pm_eliciting :: "packet_map \<Rightarrow> nat" where
  "pm_eliciting m = length (filter (\<lambda>x. sn_ack_eliciting (snd x)) m)"

definition pm_frames :: "packet_map \<Rightarrow> stream_meta list" where
  "pm_frames m = concat (map (\<lambda>x. sn_stream_frames (snd x)) m)"

definition pm_keys :: "packet_map \<Rightarrow> bool" where
  "pm_keys m \<longleftrightarrow> sorted_wrt (<) (map fst m)"

lemma pm_simps [simp]:
  "pm_size [] = 0" "pm_size (x # m) = sn_size (snd x) + pm_size m" "pm_size (m @ m') = pm_size m + pm_size m'"
  "pm_eliciting [] = 0" "pm_eliciting (x # m) = of_bool (sn_ack_eliciting (snd x)) + pm_eliciting m"
  "pm_eliciting (m @ m') = pm_eliciting m + pm_eliciting m'"
  "pm_frames [] = []" "pm_frames (x # m) = sn_stream_frames (snd x) @ pm_frames m" "pm_frames (m @ m') = pm_frames m @ pm_frames m'"
  by (simp_all add: pm_size_def pm_eliciting_def pm_frames_def)

lemma pm_keys_distinct: "pm_keys m \<Longrightarrow> distinct (map fst m)"
  by (simp add: pm_keys_def strict_sorted_iff)

lemma pm_keys_filter: "pm_keys m \<Longrightarrow> pm_keys (filter P m)"
  by (induction m) (auto simp: pm_keys_def)

lemma pm_remove_subset: "set (pm_remove n m) \<subseteq> set m"
  by (auto simp: pm_remove_def)

lemma pm_keys_remove [simp]: "pm_keys m \<Longrightarrow> pm_keys (pm_remove n m)"
  by (simp add: pm_remove_def pm_keys_filter)

text \<open>Taking a packet out of the map.\<close>

lemma pm_remove_split:
  assumes "pm_keys m" "map_of m n = Some p"
  obtains m1 m2 where "m = m1 @ (n, p) # m2" "pm_remove n m = m1 @ m2"
proof -
  from assms(2) have "(n, p) \<in> set m" by (rule map_of_SomeD)
  then obtain m1 m2 where m: "m = m1 @ (n, p) # m2" by (meson split_list)
  have d: "n \<notin> fst ` set m1" "n \<notin> fst ` set m2" using pm_keys_distinct [OF assms(1)] by (auto simp: m)
  then have "filter (\<lambda>x. fst x \<noteq> n) m1 = m1" "filter (\<lambda>x. fst x \<noteq> n) m2 = m2" by (force intro: filter_True)+
  then show thesis using m by (intro that [of m1 m2]) (simp_all add: pm_remove_def)
qed

lemma pm_remove_counts:
  assumes "pm_keys m" "map_of m n = Some p"
  shows "pm_size m = sn_size p + pm_size (pm_remove n m)"
    and "pm_eliciting m = of_bool (sn_ack_eliciting p) + pm_eliciting (pm_remove n m)"
    and "mset (pm_frames m) = mset (sn_stream_frames p) + mset (pm_frames (pm_remove n m))"
  by (rule pm_remove_split [OF assms]; simp)+

lemma pm_insert_last: "\<forall>x\<in>set m. fst x < n \<Longrightarrow> pm_insert n p m = m @ [(n, p)]"
  by (auto simp: pm_insert_def intro!: filter_True filter_False)

lemma pm_keys_append: "pm_keys (m @ [(n, p)]) \<longleftrightarrow> pm_keys m \<and> (\<forall>x\<in>set m. fst x < n)"
  by (auto simp: pm_keys_def sorted_wrt_append)

text \<open>What is in flight is what is tracked, and every packet tracked was numbered.  Fewer than \<open>2\<^sup>4\<^sup>6\<close> packets
  are sent, which keeps the counts of bytes below \<open>2\<^sup>6\<^sup>2\<close>.\<close>

definition pk_ok :: "packet_space \<Rightarrow> bool" where
  "pk_ok k \<longleftrightarrow> pm_keys (pk_sent_packets k) \<and> pk_in_flight k = pm_size (pk_sent_packets k) \<and> pk_next_packet_number k \<le> 2 ^ 46
     \<and> (\<forall>x\<in>set (pk_sent_packets k). fst x < pk_next_packet_number k \<and> sn_size (snd x) < 2 ^ 16)
     \<and> (\<forall>n. pk_largest_acked_packet k = Some n \<longrightarrow> n < pk_next_packet_number k)"

lemma pm_size_bound:
  assumes "pm_keys m" "\<forall>x\<in>set m. fst x < n \<and> sn_size (snd x) < 2 ^ 16"
  shows "pm_size m \<le> n * 2 ^ 16"
proof -
  have "pm_size m \<le> length m * 2 ^ 16" using assms(2) by (induction m) auto
  moreover have "length m \<le> n"
  proof -
    have "length m = card (fst ` set m)" using distinct_card [OF pm_keys_distinct [OF assms(1)]] by simp
    also have "\<dots> \<le> card {..<n}" using assms(2) by (intro card_mono) auto
    finally show ?thesis by simp
  qed
  ultimately show ?thesis using mult_le_mono1 order_trans by blast
qed

lemma pk_in_flight_bound: "pk_ok k \<Longrightarrow> pk_in_flight k \<le> 2 ^ 62"
  using pm_size_bound [of "pk_sent_packets k" "pk_next_packet_number k"] by (simp add: pk_ok_def)

text \<open>The trailing packets that elicit no acknowledgement: their count is right up to packet 0, which is counted
  but indistinguishable from an ack-eliciting one.\<close>

definition pk_tail :: "packet_space \<Rightarrow> packet_map" where
  "pk_tail k = filter (\<lambda>x. pk_largest_ack_eliciting_sent k < fst x) (pk_sent_packets k)"

definition pk_tail_ok :: "packet_space \<Rightarrow> bool" where
  "pk_tail_ok k \<longleftrightarrow> length (pk_tail k) \<le> pk_unacked_non_ack_eliciting_tail k
     \<and> pk_unacked_non_ack_eliciting_tail k \<le> Suc (length (pk_tail k)) \<and> pk_unacked_non_ack_eliciting_tail k \<le> 1001
     \<and> (\<forall>x\<in>set (pk_tail k). \<not> sn_ack_eliciting (snd x))
     \<and> (pk_largest_ack_eliciting_sent k = 0 \<or> pk_largest_ack_eliciting_sent k < pk_next_packet_number k)
     \<and> (pk_next_packet_number k = 0 \<longrightarrow> pk_unacked_non_ack_eliciting_tail k = 0)"

lemma pk_take_ok:
  assumes ok: "pk_ok k" and p: "map_of (pk_sent_packets k) n = Some p"
  shows "\<exists>k'. pk_take n k = (Some p, k') \<and> pk_ok k' \<and> (pk_tail_ok k \<longrightarrow> pk_tail_ok k')
    \<and> pk_sent_packets k' = pm_remove n (pk_sent_packets k)
    \<and> k' = k\<lparr>pk_sent_packets := pk_sent_packets k', pk_in_flight := pk_in_flight k',
        pk_unacked_non_ack_eliciting_tail := pk_unacked_non_ack_eliciting_tail k'\<rparr>"
proof -
  obtain m1 m2 where m: "pk_sent_packets k = m1 @ (n, p) # m2" "pm_remove n (pk_sent_packets k) = m1 @ m2"
    using ok p by (auto simp: pk_ok_def elim: pm_remove_split)
  define k' where "k' = snd (pk_take n k)"
  have k': "pk_take n k = (Some p, k')" using p by (simp add: k'_def pk_take_def)
  have fl: "pk_in_flight k' = pm_size (m1 @ m2)" and sent: "pk_sent_packets k' = m1 @ m2"
    using ok p m by (simp_all add: k'_def pk_take_def pk_ok_def u64_sub_eq)
  have "pk_ok k'" using ok m fl sent p by (auto simp: k'_def pk_take_def pk_ok_def pm_keys_def sorted_wrt_append)
  moreover have "pk_tail_ok k'" if "pk_tail_ok k"
  proof (cases "pk_largest_ack_eliciting_sent k < n")
    case True
    then have t: "length (pk_tail k) = Suc (length (pk_tail k'))" "set (pk_tail k) = insert (n, p) (set (pk_tail k'))"
      using m sent p by (auto simp: pk_tail_def k'_def pk_take_def)
    then have "\<not> sn_ack_eliciting p" using that by (simp add: pk_tail_ok_def)
    then show ?thesis using True that t p by (auto simp: pk_tail_ok_def k'_def pk_take_def)
  next
    case False
    then have "pk_tail k' = pk_tail k" using m sent p by (simp add: pk_tail_def k'_def pk_take_def)
    then show ?thesis using False that p by (simp add: pk_tail_ok_def k'_def pk_take_def)
  qed
  moreover have "k' = k\<lparr>pk_sent_packets := pk_sent_packets k', pk_in_flight := pk_in_flight k',
        pk_unacked_non_ack_eliciting_tail := pk_unacked_non_ack_eliciting_tail k'\<rparr>" using p by (simp add: k'_def pk_take_def)
  ultimately show ?thesis using k' sent m(2) by metis
qed

text \<open>Numbering and tracking a packet: either only it is added, or the oldest of too many trailing packets is dropped.\<close>

definition pk_numbered :: "nat \<Rightarrow> packet_space \<Rightarrow> packet_space \<Rightarrow> bool" where
  "pk_numbered n k k' \<longleftrightarrow> pk_next_packet_number k \<le> n \<and> (\<exists>x. k' = k\<lparr>pk_next_packet_number := Suc n, pk_sent_with_keys := x\<rparr>)"

definition pk_forgets :: "packet_space \<Rightarrow> nat \<Rightarrow> packet_map \<Rightarrow> bool" where
  "pk_forgets k forgotten m \<longleftrightarrow> forgotten = 0 \<and> m = pk_sent_packets k
     \<or> (\<exists>q r. map_of (pk_sent_packets k) q = Some r \<and> \<not> sn_ack_eliciting r \<and> forgotten = sn_size r \<and> m = pm_remove q (pk_sent_packets k))"

lemma pk_tail_first:
  assumes "pk_ok k" "pk_tail k = (q, r) # rest"
  shows "map_of (pk_sent_packets k) q = Some r" "pk_largest_ack_eliciting_sent k < q"
proof -
  have "(q, r) \<in> set (pk_tail k)" using assms(2) by simp
  then have mem: "(q, r) \<in> set (pk_sent_packets k)" and "pk_largest_ack_eliciting_sent k < q" by (auto simp: pk_tail_def)
  then show "pk_largest_ack_eliciting_sent k < q" by simp
  show "map_of (pk_sent_packets k) q = Some r"
    using mem pm_keys_distinct [of "pk_sent_packets k"] assms(1) by (simp add: pk_ok_def)
qed

lemma pk_sent_ok:
  assumes ok: "pk_ok k" "pk_tail_ok k" and n: "pk_numbered n k k0" "n < 2 ^ 46" and p: "sn_size p < 2 ^ 16"
  shows "\<exists>forgotten k' m. pk_sent n p k0 = Some (forgotten, k') \<and> pk_forgets k forgotten m \<and> pk_sent_packets k' = m @ [(n, p)]
    \<and> pk_ok k' \<and> pk_tail_ok k' \<and> k' = k0\<lparr>pk_sent_packets := pk_sent_packets k', pk_in_flight := pk_in_flight k',
        pk_unacked_non_ack_eliciting_tail := pk_unacked_non_ack_eliciting_tail k',
        pk_largest_ack_eliciting_sent := pk_largest_ack_eliciting_sent k'\<rparr>"
proof -
  let ?m = "pk_sent_packets k"
  obtain sk where k0: "k0 = k\<lparr>pk_next_packet_number := Suc n, pk_sent_with_keys := sk\<rparr>" and le: "pk_next_packet_number k \<le> n"
    using n(1) by (auto simp: pk_numbered_def)
  have below: "\<forall>x\<in>set ?m. fst x < n" using ok(1) le by (auto simp: pk_ok_def)
  have lim: "pm_size ?m \<le> 2 ^ 62" using pk_in_flight_bound [OF ok(1)] ok(1) by (simp add: pk_ok_def)
  have ext: "pk_ok (k0\<lparr>pk_sent_packets := m @ [(n, p)], pk_in_flight := pm_size (m @ [(n, p)]), pk_unacked_non_ack_eliciting_tail := t,
      pk_largest_ack_eliciting_sent := l\<rparr>)" if "pm_keys m" "set m \<subseteq> set ?m" for m t l
    using ok(1) that below p n(2) le unfolding k0 by (auto simp: pk_ok_def pm_keys_append subset_iff less_Suc_eq)
  consider (eliciting) "sn_ack_eliciting p" | (full) "\<not> sn_ack_eliciting p" "1000 < pk_unacked_non_ack_eliciting_tail k"
    | (room) "\<not> sn_ack_eliciting p" "\<not> 1000 < pk_unacked_non_ack_eliciting_tail k" by blast
  then show ?thesis
  proof cases
    case eliciting
    let ?k' = "k0\<lparr>pk_sent_packets := ?m @ [(n, p)], pk_in_flight := pm_size (?m @ [(n, p)]), pk_unacked_non_ack_eliciting_tail := 0,
      pk_largest_ack_eliciting_sent := n\<rparr>"
    have "pk_sent n p k0 = Some (0, ?k')" using eliciting ok(1) below lim p
      by (simp add: k0 pk_sent_def pm_insert_last u64_add_eq pk_ok_def)
    moreover have "pk_tail ?k' = []" using below by (auto simp: k0 pk_tail_def filter_empty_conv)
    then have "pk_tail_ok ?k'" unfolding pk_tail_ok_def by (simp add: k0)
    ultimately show ?thesis using ext [of ?m 0 n] ok(1) by (auto simp: pk_forgets_def pk_ok_def k0)
  next
    case room
    let ?t = "Suc (pk_unacked_non_ack_eliciting_tail k)"
    let ?k' = "k0\<lparr>pk_sent_packets := ?m @ [(n, p)], pk_in_flight := pm_size (?m @ [(n, p)]), pk_unacked_non_ack_eliciting_tail := ?t,
      pk_largest_ack_eliciting_sent := pk_largest_ack_eliciting_sent k\<rparr>"
    have "pk_sent n p k0 = Some (0, ?k')" using room ok(1) below lim p
      by (simp add: k0 pk_sent_def pm_insert_last u64_add_eq pk_ok_def MAX_UNACKED_NON_ACK_ELICTING_TAIL_def)
    moreover have "pk_tail_ok ?k'"
      using room ok(2) below le by (cases "n = 0") (auto simp: k0 pk_tail_ok_def pk_tail_def)
    ultimately show ?thesis using ext [of ?m ?t "pk_largest_ack_eliciting_sent k"] ok(1) by (auto simp: pk_forgets_def pk_ok_def k0)
  next
    case full
    then have "pk_tail k \<noteq> []" using ok(2) by (auto simp: pk_tail_ok_def)
    then obtain q r rest where q: "pk_tail k = (q, r) # rest" by (metis list.exhaust surj_pair)
    note first = pk_tail_first [OF ok(1) q]
    let ?m' = "pm_remove q ?m"
    let ?k' = "k0\<lparr>pk_sent_packets := ?m' @ [(n, p)], pk_in_flight := pm_size (?m' @ [(n, p)]),
      pk_unacked_non_ack_eliciting_tail := pk_unacked_non_ack_eliciting_tail k, pk_largest_ack_eliciting_sent := pk_largest_ack_eliciting_sent k\<rparr>"
    have keys: "pm_keys ?m" using ok(1) by (simp add: pk_ok_def)
    note sz = pm_remove_counts(1) [OF keys first(1)]
    have below': "\<forall>x\<in>set ?m'. fst x < n" using below pm_remove_subset by blast
    have "q < n" using map_of_SomeD [OF first(1)] below by auto
    then have "pk_largest_ack_eliciting_sent k < n" using first(2) by simp
    then have tail: "pk_tail ?k' = rest @ [(n, p)]"
    proof -
      obtain m1 m2 where m: "?m = m1 @ (q, r) # m2" "?m' = m1 @ m2" using keys first(1) by (rule pm_remove_split)
      have "filter (\<lambda>x. pk_largest_ack_eliciting_sent k < fst x) (m1 @ m2) = rest"
        using q first(2) keys unfolding pk_tail_def m(1)
        by (cases "filter (\<lambda>x. pk_largest_ack_eliciting_sent k < fst x) m1") (auto simp: pm_keys_def sorted_wrt_append dest: filter_eq_ConsD)
      then show ?thesis using \<open>pk_largest_ack_eliciting_sent k < n\<close> by (simp add: pk_tail_def m(2))
    qed
    have "pk_sent n p k0 = Some (sn_size r, ?k')" using full ok(1) q below' lim p sz
      by (simp add: k0 pk_sent_def pm_insert_last u64_add_eq u64_sub_eq pk_ok_def MAX_UNACKED_NON_ACK_ELICTING_TAIL_def pk_tail_def)
    moreover have "pk_tail_ok ?k'" using full ok(2) q le unfolding pk_tail_ok_def tail by (auto simp: k0)
    moreover have "\<not> sn_ack_eliciting r" using ok(2) q by (simp add: pk_tail_ok_def)
    ultimately show ?thesis
      using ext [of ?m' "pk_largest_ack_eliciting_sent k" "pk_unacked_non_ack_eliciting_tail k"] keys first(1) pm_remove_subset [of q ?m]
      by (auto simp: pk_forgets_def k0)
  qed
qed

text \<open>A new space.\<close>

lemma pk_new_ok: "pk_ok (pk_new now)" "pk_tail_ok (pk_new now)"
  by (simp_all add: pk_new_def pk_ok_def pk_tail_ok_def pk_tail_def pm_keys_def)

section \<open>Packet numbers\<close>

lemma get_tx_number_ok:
  "pk_next_packet_number k < 2 ^ 62 \<Longrightarrow> \<exists>k'. get_tx_number k = Some (pk_next_packet_number k, k') \<and> pk_numbered (pk_next_packet_number k) k k'"
  by (auto simp: get_tx_number_def pk_numbered_def u64_add_eq)

text \<open>The exponent of the filter grows with the packet numbers, so it stays far below 64 and a number can always be
  handed out: the next one or, past the number to skip, the one after it.\<close>

definition nf_ok :: "packet_number_filter \<Rightarrow> bool" where
  "nf_ok f \<longleftrightarrow> 6 \<le> nf_exponent f \<and> nf_exponent f \<le> 48 \<and> (6 < nf_exponent f \<longrightarrow> 2 ^ (nf_exponent f - 1) \<le> nf_next_skipped_packet_number f)"

lemma pk_numbered_twice: "pk_numbered n k k1 \<Longrightarrow> pk_numbered m k1 k2 \<Longrightarrow> pk_numbered m k k2"
  by (auto simp: pk_numbered_def)

lemma nf_allocate_ok:
  assumes f: "nf_ok f" and k: "Suc (pk_next_packet_number k) < 2 ^ 46" and chosen: "2 ^ nf_exponent f \<le> chosen"
  shows "\<exists>n f' k'. nf_allocate chosen (f, k) = Some (n, f', k') \<and> nf_ok f' \<and> pk_numbered n k k'
    \<and> n = nf_peek k f"
proof -
  let ?n = "pk_next_packet_number k"
  have n62: "?n < 2 ^ 62" using k by (rule less_trans [OF Suc_lessD]) simp
  then obtain k1 where k1: "get_tx_number k = Some (?n, k1)" "pk_numbered ?n k k1" using get_tx_number_ok by blast
  show ?thesis
  proof (cases "?n = nf_next_skipped_packet_number f")
    case False
    then show ?thesis using k1 f by (auto simp: nf_allocate_def nf_peek_def)
  next
    case True
    let ?e = "nf_exponent f"
    have "?e \<le> 47"
    proof (rule ccontr)
      assume "\<not> ?e \<le> 47"
      then have e: "47 \<le> ?e - 1" "6 < ?e" by simp_all
      have "(2 :: nat) ^ 47 \<le> 2 ^ (?e - 1)" using e(1) by (rule power_increasing) simp
      also have "\<dots> \<le> ?n" using f e(2) True by (simp add: nf_ok_def)
      finally show False using k by simp
    qed
    then have e: "two_pow ?e = 2 ^ ?e" "two_pow (Suc ?e) = 2 * 2 ^ ?e" "min (Suc ?e) 4294967295 = Suc ?e" by (simp_all add: two_pow_def)
    have n1: "pk_next_packet_number k1 = Suc ?n" using k1(2) by (auto simp: pk_numbered_def)
    then have "pk_next_packet_number k1 < 2 ^ 62" using k by simp
    then obtain k2 where k2: "get_tx_number k1 = Some (Suc ?n, k2)" "pk_numbered (Suc ?n) k1 k2" using get_tx_number_ok [of k1] n1 by auto
    have "nf_ok (f\<lparr>nf_prev_skipped_packet_number := Some ?n, nf_next_skipped_packet_number := chosen, nf_exponent := Suc ?e\<rparr>)"
      using f chosen \<open>?e \<le> 47\<close> by (simp add: nf_ok_def)
    then show ?thesis using True k1 k2 e pk_numbered_twice [OF k1(2) k2(2)] n62
      by (auto simp: nf_allocate_def nf_peek_def Let_def u64_add_eq)
  qed
qed

text \<open>
  The next number to skip is drawn from the following power of two on.  When the number skipped is the last before a
  power of two and the draw gives exactly that power of two, the number is handed out at once in place of the one
  skipped: the filter has already been passed and never skips again.
\<close>

theorem packet_number_filter_stalls:
  assumes "6 \<le> e" "e < 62" "pk_next_packet_number k = 2 ^ e - 1"
    "f = \<lparr>nf_next_skipped_packet_number = 2 ^ e - 1, nf_prev_skipped_packet_number = prev, nf_exponent = e\<rparr>"
  shows "\<exists>f' k'. nf_allocate (2 ^ e) (f, k) = Some (2 ^ e, f', k') \<and> nf_next_skipped_packet_number f' = 2 ^ e
    \<and> pk_next_packet_number k' = 2 ^ e + 1"
proof -
  have lim: "(2 :: nat) ^ e < 2 ^ 62" using assms(2) by (intro power_strict_increasing) auto
  then show ?thesis using assms
    by (auto simp: nf_allocate_def get_tx_number_def u64_add_eq two_pow_def Let_def)
qed

end
