(* ===== verification/Mtud.thy ===== *)
theory Mtud
  imports Prelude
begin

text \<open>
  Path MTU discovery (\<^verbatim>\<open>connection/mtud.rs\<close>): the binary search by probe packets, its restart after an
  interval, and the detector of MTU black holes.  On a path that carries exactly the datagrams up to
  some probe the search ends, never raises the MTU above that size, and stops less than twice the
  configured minimum change below it.  Sizes are \<^verbatim>\<open>u16\<close> values read as natural numbers.
\<close>

section \<open>Model\<close>

record mtu_discovery_config =
  mc_interval :: duration
  mc_upper_bound :: nat
  mc_minimum_change :: nat
  mc_black_hole_cooldown :: duration

definition mtu_config_default :: mtu_discovery_config where
  "mtu_config_default = \<lparr>mc_interval = 600 * 10 ^ 9, mc_upper_bound = 1452, mc_minimum_change = 20, mc_black_hole_cooldown = 60 * 10 ^ 9\<rparr>"

record search_state =
  ss_lower_bound :: nat
  ss_upper_bound :: nat
  ss_minimum_change :: nat
  ss_last_probed_mtu :: nat
  ss_in_flight_probe :: "nat option"
  ss_lost_probe_count :: nat

datatype mtu_phase = PhaseInitial | PhaseSearching search_state | PhaseComplete instant

record enabled_mtud =
  em_phase :: mtu_phase
  em_peer_max_udp_payload_size :: nat
  em_config :: mtu_discovery_config

record current_loss_burst =
  lb_smallest_packet_size :: nat
  lb_latest_non_probe :: nat

record black_hole_detector =
  bh_suspicious_loss_bursts :: "nat list"
  bh_current_loss_burst :: "current_loss_burst option"
  bh_largest_post_loss_packet :: nat
  bh_acked_mtu :: nat
  bh_min_mtu :: nat

record mtu_discovery =
  mt_current_mtu :: nat
  mt_state :: "enabled_mtud option"
  mt_black_hole_detector :: black_hole_detector

definition MAX_UDP_PAYLOAD :: nat where "MAX_UDP_PAYLOAD = 65527"
definition MAX_PROBE_RETRANSMITS :: nat where "MAX_PROBE_RETRANSMITS = 3"
definition BLACK_HOLE_THRESHOLD :: nat where "BLACK_HOLE_THRESHOLD = 3"

definition u16_pred :: "nat \<Rightarrow> nat" where
  "u16_pred n = (if n = 0 then 2 ^ 16 - 1 else n - 1)"

definition clamp :: "nat \<Rightarrow> nat \<Rightarrow> nat \<Rightarrow> nat" where
  "clamp x lo hi = (if x < lo then lo else if hi < x then hi else x)"

definition abs_diff :: "nat \<Rightarrow> nat \<Rightarrow> nat" where
  "abs_diff a b = (if a \<le> b then b - a else a - b)"

subsection \<open>Black hole detector\<close>

definition bh_new :: "nat \<Rightarrow> black_hole_detector" where
  "bh_new min_mtu = \<lparr>bh_suspicious_loss_bursts = [], bh_current_loss_burst = None, bh_largest_post_loss_packet = 0,
     bh_acked_mtu = min_mtu, bh_min_mtu = min_mtu\<rparr>"

definition bh_on_probe_acked :: "nat \<Rightarrow> nat \<Rightarrow> black_hole_detector \<Rightarrow> black_hole_detector" where
  "bh_on_probe_acked pn len b = b\<lparr>bh_suspicious_loss_bursts := [], bh_acked_mtu := len, bh_largest_post_loss_packet := pn\<rparr>"

definition bh_on_non_probe_acked :: "nat \<Rightarrow> nat \<Rightarrow> black_hole_detector \<Rightarrow> black_hole_detector" where
  "bh_on_non_probe_acked pn len b =
     (if len \<le> bh_acked_mtu b then b
      else b\<lparr>bh_acked_mtu := len, bh_largest_post_loss_packet := pn,
             bh_suspicious_loss_bursts := filter (\<lambda>burst. len < burst) (bh_suspicious_loss_bursts b)\<rparr>)"

text \<open>The first of the smallest bursts is replaced, when the new one is larger.\<close>

definition replace_smallest :: "nat \<Rightarrow> nat list \<Rightarrow> nat list" where
  "replace_smallest new bursts = (case bursts of
      [] \<Rightarrow> []
    | _ \<Rightarrow> (let smallest = Min (set bursts) in
        if smallest < new
        then bursts[length (takeWhile (\<lambda>b. b \<noteq> smallest) bursts) := new] else bursts))"

definition finish_loss_burst :: "black_hole_detector \<Rightarrow> black_hole_detector" where
  "finish_loss_burst b = (case bh_current_loss_burst b of
      None \<Rightarrow> b
    | Some burst \<Rightarrow>
        let b = b\<lparr>bh_current_loss_burst := None\<rparr> in
        if lb_smallest_packet_size burst < bh_min_mtu b
           \<or> (lb_latest_non_probe burst < bh_largest_post_loss_packet b \<and> lb_smallest_packet_size burst < bh_acked_mtu b)
        then b
        else let b = (if bh_largest_post_loss_packet b < lb_latest_non_probe burst then b\<lparr>bh_acked_mtu := bh_min_mtu b\<rparr> else b);
                 bursts = bh_suspicious_loss_bursts b
             in if length bursts \<le> BLACK_HOLE_THRESHOLD
                then b\<lparr>bh_suspicious_loss_bursts := bursts @ [lb_smallest_packet_size burst]\<rparr>
                else b\<lparr>bh_suspicious_loss_bursts := replace_smallest (lb_smallest_packet_size burst) bursts\<rparr>)"

definition bh_on_non_probe_lost :: "nat \<Rightarrow> nat \<Rightarrow> black_hole_detector \<Rightarrow> black_hole_detector" where
  "bh_on_non_probe_lost pn len b =
     (let end_last_burst = (case bh_current_loss_burst b of
            None \<Rightarrow> False | Some current \<Rightarrow> u64_sub pn (lb_latest_non_probe current) \<noteq> 1);
          b = (if end_last_burst then finish_loss_burst b else b)
      in b\<lparr>bh_current_loss_burst := Some \<lparr>lb_smallest_packet_size = (case bh_current_loss_burst b of
              None \<Rightarrow> len | Some prev \<Rightarrow> min (lb_smallest_packet_size prev) len), lb_latest_non_probe = pn\<rparr>\<rparr>)"

definition bh_black_hole_detected :: "black_hole_detector \<Rightarrow> bool \<times> black_hole_detector" where
  "bh_black_hole_detected b =
     (let b = finish_loss_burst b in
      if length (bh_suspicious_loss_bursts b) \<le> BLACK_HOLE_THRESHOLD then (False, b)
      else (True, b\<lparr>bh_suspicious_loss_bursts := []\<rparr>))"

subsection \<open>Search\<close>

definition search_new :: "nat \<Rightarrow> nat \<Rightarrow> mtu_discovery_config \<Rightarrow> search_state" where
  "search_new lower_bound peer_max config =
     (let lower_bound = min lower_bound peer_max in
      \<lparr>ss_lower_bound = lower_bound, ss_upper_bound = clamp (mc_upper_bound config) lower_bound peer_max,
       ss_minimum_change = mc_minimum_change config, ss_last_probed_mtu = lower_bound,
       ss_in_flight_probe = None, ss_lost_probe_count = 0\<rparr>)"

definition next_mtu_to_probe :: "bool \<Rightarrow> search_state \<Rightarrow> nat option \<times> search_state" where
  "next_mtu_to_probe last_probe_succeeded s =
     (let s = (if last_probe_succeeded then s\<lparr>ss_lower_bound := ss_last_probed_mtu s\<rparr>
               else s\<lparr>ss_upper_bound := u16_pred (ss_last_probed_mtu s)\<rparr>);
          next_mtu = (ss_lower_bound s + ss_upper_bound s) div 2
      in if abs_diff next_mtu (ss_last_probed_mtu s) < ss_minimum_change s
         then if ss_minimum_change s \<le> ss_upper_bound s - ss_last_probed_mtu s then (Some (ss_upper_bound s), s) else (None, s)
         else (Some next_mtu, s))"

definition em_new :: "mtu_discovery_config \<Rightarrow> enabled_mtud" where
  "em_new config = \<lparr>em_phase = PhaseInitial, em_peer_max_udp_payload_size = MAX_UDP_PAYLOAD, em_config = config\<rparr>"

definition em_search :: "instant \<Rightarrow> nat \<Rightarrow> search_state \<Rightarrow> enabled_mtud \<Rightarrow> nat option \<times> enabled_mtud" where
  "em_search now next_pn s e =
     (if ss_in_flight_probe s \<noteq> None then (None, e\<lparr>em_phase := PhaseSearching s\<rparr>)
      else if 0 < ss_lost_probe_count s \<and> ss_lost_probe_count s < MAX_PROBE_RETRANSMITS
      then (Some (ss_last_probed_mtu s), e\<lparr>em_phase := PhaseSearching (s\<lparr>ss_in_flight_probe := Some next_pn\<rparr>)\<rparr>)
      else let last_probe_succeeded = (ss_lost_probe_count s = 0);
               s = (if \<not> last_probe_succeeded then s\<lparr>ss_lost_probe_count := 0, ss_in_flight_probe := None\<rparr> else s)
           in case next_mtu_to_probe last_probe_succeeded s of
                (Some probe, s) \<Rightarrow> (Some probe, e\<lparr>em_phase := PhaseSearching (s\<lparr>ss_in_flight_probe := Some next_pn, ss_last_probed_mtu := probe\<rparr>)\<rparr>)
              | (None, s) \<Rightarrow> (None, e\<lparr>em_phase := PhaseComplete (now + mc_interval (em_config e))\<rparr>))"

definition em_poll_transmit :: "instant \<Rightarrow> nat \<Rightarrow> nat \<Rightarrow> enabled_mtud \<Rightarrow> nat option \<times> enabled_mtud" where
  "em_poll_transmit now current_mtu next_pn e =
     (let start = search_new current_mtu (em_peer_max_udp_payload_size e) (em_config e) in
      case em_phase e of
        PhaseInitial \<Rightarrow> em_search now next_pn start e
      | PhaseComplete next_mtud_activation \<Rightarrow>
          if now < next_mtud_activation then (None, e) else em_search now next_pn start e
      | PhaseSearching s \<Rightarrow> em_search now next_pn s e)"

definition em_on_probe_acked :: "nat \<Rightarrow> enabled_mtud \<Rightarrow> nat option \<times> enabled_mtud" where
  "em_on_probe_acked pn e = (case em_phase e of
      PhaseSearching s \<Rightarrow> if ss_in_flight_probe s = Some pn
        then (Some (ss_last_probed_mtu s), e\<lparr>em_phase := PhaseSearching (s\<lparr>ss_in_flight_probe := None, ss_lost_probe_count := 0\<rparr>)\<rparr>)
        else (None, e)
    | _ \<Rightarrow> (None, e))"

definition em_on_probe_lost :: "enabled_mtud \<Rightarrow> enabled_mtud" where
  "em_on_probe_lost e = (case em_phase e of
      PhaseSearching s \<Rightarrow> e\<lparr>em_phase := PhaseSearching (s\<lparr>ss_in_flight_probe := None, ss_lost_probe_count := ss_lost_probe_count s + 1\<rparr>)\<rparr>
    | _ \<Rightarrow> e)"

definition em_on_black_hole_detected :: "instant \<Rightarrow> enabled_mtud \<Rightarrow> enabled_mtud" where
  "em_on_black_hole_detected now e = e\<lparr>em_phase := PhaseComplete (now + mc_black_hole_cooldown (em_config e))\<rparr>"

subsection \<open>Discovery\<close>

definition mt_with_state :: "nat \<Rightarrow> nat \<Rightarrow> enabled_mtud option \<Rightarrow> mtu_discovery" where
  "mt_with_state current_mtu min_mtu state =
     \<lparr>mt_current_mtu = current_mtu, mt_state = state, mt_black_hole_detector = bh_new min_mtu\<rparr>"

definition mt_disabled :: "nat \<Rightarrow> nat \<Rightarrow> mtu_discovery" where
  "mt_disabled plpmtu min_mtu = mt_with_state plpmtu min_mtu None"

definition mt_on_peer_max_received :: "nat \<Rightarrow> mtu_discovery \<Rightarrow> mtu_discovery" where
  "mt_on_peer_max_received peer_max m = m\<lparr>mt_current_mtu := min (mt_current_mtu m) peer_max,
     mt_state := map_option (\<lambda>e. e\<lparr>em_peer_max_udp_payload_size := peer_max\<rparr>) (mt_state m)\<rparr>"

definition mt_new :: "nat \<Rightarrow> nat \<Rightarrow> nat option \<Rightarrow> mtu_discovery_config \<Rightarrow> mtu_discovery" where
  "mt_new initial_plpmtu min_mtu peer_max config =
     (let m = mt_with_state initial_plpmtu min_mtu (Some (em_new config)) in
      case peer_max of None \<Rightarrow> m | Some p \<Rightarrow> mt_on_peer_max_received p m)"

definition mt_reset :: "nat \<Rightarrow> nat \<Rightarrow> mtu_discovery \<Rightarrow> mtu_discovery" where
  "mt_reset current_mtu min_mtu m =
     (let m = m\<lparr>mt_current_mtu := current_mtu\<rparr>;
          m = (case mt_state m of
                 None \<Rightarrow> m
               | Some e \<Rightarrow> mt_on_peer_max_received (em_peer_max_udp_payload_size e) (m\<lparr>mt_state := Some (em_new (em_config e))\<rparr>))
      in m\<lparr>mt_black_hole_detector := bh_new min_mtu\<rparr>)"

definition mt_poll_transmit :: "instant \<Rightarrow> nat \<Rightarrow> mtu_discovery \<Rightarrow> nat option \<times> mtu_discovery" where
  "mt_poll_transmit now next_pn m = (case mt_state m of
      None \<Rightarrow> (None, m)
    | Some e \<Rightarrow> (case em_poll_transmit now (mt_current_mtu m) next_pn e of (probe, e) \<Rightarrow> (probe, m\<lparr>mt_state := Some e\<rparr>)))"

text \<open>The first argument says whether the packet was sent in the application data space.\<close>

definition mt_on_acked :: "bool \<Rightarrow> nat \<Rightarrow> nat \<Rightarrow> mtu_discovery \<Rightarrow> bool \<times> mtu_discovery" where
  "mt_on_acked data_space pn len m =
     (if \<not> data_space then (False, m)
      else case (case mt_state m of
                   None \<Rightarrow> (None, None)
                 | Some e \<Rightarrow> (case em_on_probe_acked pn e of (r, e) \<Rightarrow> (r, Some e))) of
             (Some new_mtu, state) \<Rightarrow> (True, m\<lparr>mt_state := state, mt_current_mtu := new_mtu,
                 mt_black_hole_detector := bh_on_probe_acked pn len (mt_black_hole_detector m)\<rparr>)
           | (None, state) \<Rightarrow> (False, m\<lparr>mt_state := state,
                 mt_black_hole_detector := bh_on_non_probe_acked pn len (mt_black_hole_detector m)\<rparr>))"

definition in_flight_mtu_probe :: "mtu_discovery \<Rightarrow> nat option" where
  "in_flight_mtu_probe m = (case mt_state m of
      Some e \<Rightarrow> (case em_phase e of PhaseSearching s \<Rightarrow> ss_in_flight_probe s | _ \<Rightarrow> None)
    | None \<Rightarrow> None)"

definition mt_on_probe_lost :: "mtu_discovery \<Rightarrow> mtu_discovery" where
  "mt_on_probe_lost m = m\<lparr>mt_state := map_option em_on_probe_lost (mt_state m)\<rparr>"

definition mt_on_non_probe_lost :: "nat \<Rightarrow> nat \<Rightarrow> mtu_discovery \<Rightarrow> mtu_discovery" where
  "mt_on_non_probe_lost pn len m = m\<lparr>mt_black_hole_detector := bh_on_non_probe_lost pn len (mt_black_hole_detector m)\<rparr>"

definition mt_black_hole_detected :: "instant \<Rightarrow> mtu_discovery \<Rightarrow> bool \<times> mtu_discovery" where
  "mt_black_hole_detected now m = (case bh_black_hole_detected (mt_black_hole_detector m) of
      (False, b) \<Rightarrow> (False, m\<lparr>mt_black_hole_detector := b\<rparr>)
    | (True, b) \<Rightarrow> (True, m\<lparr>mt_black_hole_detector := b, mt_current_mtu := bh_min_mtu b,
        mt_state := map_option (em_on_black_hole_detected now) (mt_state m)\<rparr>))"

section \<open>The search on a path with a fixed MTU\<close>

text \<open>One round on a path that carries exactly the datagrams of at most \<open>link\<close> bytes: poll for a probe; it is
  acknowledged when it fits and lost otherwise.\<close>

definition mt_round :: "nat \<Rightarrow> instant \<Rightarrow> nat \<Rightarrow> mtu_discovery \<Rightarrow> mtu_discovery" where
  "mt_round link now pn m = (case mt_poll_transmit now pn m of
      (None, m) \<Rightarrow> m
    | (Some probe, m) \<Rightarrow> if probe \<le> link then snd (mt_on_acked True pn probe m) else mt_on_probe_lost m)"

fun mt_rounds :: "nat \<Rightarrow> nat \<Rightarrow> instant \<Rightarrow> nat \<Rightarrow> mtu_discovery \<Rightarrow> mtu_discovery" where
  "mt_rounds 0 link now pn m = m"
| "mt_rounds (Suc n) link now pn m = mt_rounds n link now (pn + 1) (mt_round link now pn m)"

text \<open>The state between two rounds, after the last probe was acknowledged (\<open>lost = 0\<close>) or lost: the search
  interval holds the greatest size \<open>T\<close> that is deliverable and allowed.\<close>

definition between :: "nat \<Rightarrow> nat \<Rightarrow> nat \<Rightarrow> enabled_mtud \<Rightarrow> nat \<Rightarrow> search_state \<Rightarrow> mtu_discovery \<Rightarrow> bool" where
  "between link U lost e c s m \<longleftrightarrow> mt_state m = Some e \<and> em_phase e = PhaseSearching s \<and> mt_current_mtu m = c
     \<and> ss_in_flight_probe s = None \<and> ss_lost_probe_count s = lost \<and> ss_minimum_change s = mc_minimum_change (em_config e)
     \<and> c \<le> link \<and> c \<le> U \<and> ss_upper_bound s \<le> U \<and> min link U \<le> ss_upper_bound s
     \<and> (if lost = 0 then ss_last_probed_mtu s = c
        else ss_lower_bound s = c \<and> link < ss_last_probed_mtu s \<and> ss_last_probed_mtu s \<le> ss_upper_bound s)"

lemma lost_round:
  assumes "between link U lost e c s m" "0 < lost" "lost < MAX_PROBE_RETRANSMITS"
  shows "\<exists>e' s'. between link U (lost + 1) e' c s' (mt_round link now pn m)
    \<and> ss_upper_bound s' = ss_upper_bound s \<and> ss_last_probed_mtu s' = ss_last_probed_mtu s \<and> em_config e' = em_config e"
  using assms
  by (intro exI [of _ "e\<lparr>em_phase := PhaseSearching (s\<lparr>ss_lost_probe_count := lost + 1\<rparr>)\<rparr>"] exI [of _ "s\<lparr>ss_lost_probe_count := lost + 1\<rparr>"])
    (auto simp: between_def mt_round_def mt_poll_transmit_def em_poll_transmit_def em_search_def mt_on_probe_lost_def em_on_probe_lost_def)

text \<open>What is left of the search interval, a failed probe excluded.\<close>

definition search_room :: "nat \<Rightarrow> nat \<Rightarrow> search_state \<Rightarrow> nat" where
  "search_room lost c s = (if lost = 0 then 2 * (ss_upper_bound s - c) else 2 * (ss_last_probed_mtu s - 1 - c) + 1)"

lemma next_probe_after_success:
  assumes "next_mtu_to_probe True s = (r, s1)" "ss_last_probed_mtu s = c" "c \<le> ss_upper_bound s" "T \<le> ss_upper_bound s" "1 \<le> ss_minimum_change s"
  shows "s1 = s\<lparr>ss_lower_bound := c\<rparr>" and "r = None \<Longrightarrow> T < c + 2 * ss_minimum_change s"
    and "r = Some p \<Longrightarrow> c < p \<and> p \<le> ss_upper_bound s"
  using assms by (auto simp: next_mtu_to_probe_def Let_def abs_diff_def split: if_splits)

lemma next_probe_after_loss:
  assumes "next_mtu_to_probe False s = (r, s1)" "ss_lower_bound s = c" "c < ss_last_probed_mtu s" "T < ss_last_probed_mtu s" "1 \<le> ss_minimum_change s"
  shows "s1 = s\<lparr>ss_upper_bound := ss_last_probed_mtu s - 1\<rparr>" and "r = None \<Longrightarrow> T < c + 2 * ss_minimum_change s"
    and "r = Some p \<Longrightarrow> c \<le> p \<and> p < ss_last_probed_mtu s"
  using assms by (auto simp: next_mtu_to_probe_def Let_def abs_diff_def u16_pred_def split: if_splits)

lemma decide_facts:
  assumes b: "between link U lost e c s m" and mc: "1 \<le> mc_minimum_change (em_config e)"
    and nx: "next_mtu_to_probe (lost = 0) (s\<lparr>ss_lost_probe_count := 0, ss_in_flight_probe := None\<rparr>) = (r, s1)"
  defines "u \<equiv> ss_upper_bound s1"
  shows "ss_minimum_change s1 = mc_minimum_change (em_config e)" "ss_lower_bound s1 = c" "ss_lost_probe_count s1 = 0"
    and "u \<le> U" "min link U \<le> u" and "r = None \<Longrightarrow> min link U < c + 2 * mc_minimum_change (em_config e)"
    and "r = Some p \<Longrightarrow> c \<le> p \<and> p \<le> u" and "r = Some p \<Longrightarrow> 2 * (u - p) < search_room lost c s"
    and "r = Some p \<Longrightarrow> link < p \<Longrightarrow> 2 * (p - 1 - c) + 1 < search_room lost c s"
proof -
  let ?s = "s\<lparr>ss_lost_probe_count := 0, ss_in_flight_probe := None\<rparr>"
  have "ss_minimum_change s1 = mc_minimum_change (em_config e) \<and> ss_lower_bound s1 = c \<and> ss_lost_probe_count s1 = 0
    \<and> u \<le> U \<and> min link U \<le> u \<and> (r = None \<longrightarrow> min link U < c + 2 * mc_minimum_change (em_config e))
    \<and> (r = Some p \<longrightarrow> c \<le> p \<and> p \<le> u \<and> 2 * (u - p) < search_room lost c s \<and> (link < p \<longrightarrow> 2 * (p - 1 - c) + 1 < search_room lost c s))"
  proof (cases "lost = 0")
    case True
    note n = next_probe_after_success [of ?s r s1 c "min link U"]
    have "c \<le> ss_upper_bound s" using b by (auto simp: between_def min_le_iff_disj)
    then show ?thesis using True b mc nx n(1) n(2) n(3) [of p] by (auto simp: between_def search_room_def u_def)
  next
    case False
    note n = next_probe_after_loss [of ?s r s1 c "min link U"]
    have "c < ss_last_probed_mtu s" "min link U < ss_last_probed_mtu s" using b False by (auto simp: between_def)
    then show ?thesis using False b mc nx n(1) n(2) n(3) [of p] by (auto simp: between_def search_room_def u_def)
  qed
  then show "ss_minimum_change s1 = mc_minimum_change (em_config e)" "ss_lower_bound s1 = c" "ss_lost_probe_count s1 = 0"
    "u \<le> U" "min link U \<le> u" "r = None \<Longrightarrow> min link U < c + 2 * mc_minimum_change (em_config e)"
    "r = Some p \<Longrightarrow> c \<le> p \<and> p \<le> u" "r = Some p \<Longrightarrow> 2 * (u - p) < search_room lost c s"
    "r = Some p \<Longrightarrow> link < p \<Longrightarrow> 2 * (p - 1 - c) + 1 < search_room lost c s" by blast+
qed

lemma decide_round:
  assumes b: "between link U lost e c s m" and lost: "lost = 0 \<or> lost = MAX_PROBE_RETRANSMITS" and mc: "1 \<le> mc_minimum_change (em_config e)"
  shows "(\<exists>e'. mt_state (mt_round link now pn m) = Some e' \<and> em_phase e' = PhaseComplete (now + mc_interval (em_config e))
        \<and> mt_current_mtu (mt_round link now pn m) = c \<and> min link U < c + 2 * mc_minimum_change (em_config e))
    \<or> (\<exists>lost' e' c' s'. between link U lost' e' c' s' (mt_round link now pn m) \<and> (lost' = 0 \<or> lost' = 1) \<and> c \<le> c'
        \<and> search_room lost' c' s' < search_room lost c s \<and> em_config e' = em_config e)"
proof -
  obtain r s1 where nx: "next_mtu_to_probe (lost = 0) (s\<lparr>ss_lost_probe_count := 0, ss_in_flight_probe := None\<rparr>) = (r, s1)" by fastforce
  note f = decide_facts [OF b mc nx]
  have same: "s\<lparr>ss_lost_probe_count := 0, ss_in_flight_probe := None\<rparr> = s" if "lost = 0" using b that by (simp add: between_def)
  have poll: "mt_poll_transmit now pn m = (case r of
      None \<Rightarrow> (None, m\<lparr>mt_state := Some (e\<lparr>em_phase := PhaseComplete (now + mc_interval (em_config e))\<rparr>)\<rparr>)
    | Some p \<Rightarrow> (Some p, m\<lparr>mt_state := Some (e\<lparr>em_phase := PhaseSearching (s1\<lparr>ss_in_flight_probe := Some pn, ss_last_probed_mtu := p\<rparr>)\<rparr>)\<rparr>))"
  proof (cases "lost = 0")
    case True
    then have "next_mtu_to_probe True s = (r, s1)" using nx same by simp
    then show ?thesis using b True
      by (cases r) (simp_all add: between_def mt_poll_transmit_def em_poll_transmit_def em_search_def)
  next
    case False
    then show ?thesis using b lost nx
      by (cases r) (simp_all add: between_def mt_poll_transmit_def em_poll_transmit_def em_search_def MAX_PROBE_RETRANSMITS_def)
  qed
  show ?thesis
  proof (cases r)
    case None
    then show ?thesis using poll f(6) b by (simp add: mt_round_def between_def)
  next
    case (Some p)
    show ?thesis
    proof (cases "p \<le> link")
      case True
      let ?s' = "s1\<lparr>ss_in_flight_probe := None, ss_last_probed_mtu := p, ss_lost_probe_count := 0\<rparr>"
      have "between link U 0 (e\<lparr>em_phase := PhaseSearching ?s'\<rparr>) p ?s' (mt_round link now pn m)"
        using True Some poll f(1,4,5) f(7) [OF Some] by (simp add: between_def mt_round_def mt_on_acked_def em_on_probe_acked_def)
      moreover have "search_room 0 p ?s' < search_room lost c s" using f(8) [OF Some] by (simp add: search_room_def)
      ultimately show ?thesis using f(7) [OF Some]
        by (intro disjI2 exI [of _ 0] exI [of _ "e\<lparr>em_phase := PhaseSearching ?s'\<rparr>"] exI [of _ p] exI [of _ ?s']) simp
    next
      case False
      let ?s' = "s1\<lparr>ss_in_flight_probe := None, ss_last_probed_mtu := p, ss_lost_probe_count := 1\<rparr>"
      have "between link U 1 (e\<lparr>em_phase := PhaseSearching ?s'\<rparr>) c ?s' (mt_round link now pn m)"
        using False Some poll b f(1-5) f(7) [OF Some] by (simp add: between_def mt_round_def mt_on_probe_lost_def em_on_probe_lost_def)
      moreover have "search_room 1 c ?s' < search_room lost c s" using False f(9) [OF Some] by (simp add: search_room_def)
      ultimately show ?thesis
        by (intro disjI2 exI [of _ 1] exI [of _ "e\<lparr>em_phase := PhaseSearching ?s'\<rparr>"] exI [of _ c] exI [of _ ?s']) simp
    qed
  qed
qed

lemma mt_rounds_add: "mt_rounds (a + b) link now pn m = mt_rounds b link now (pn + a) (mt_rounds a link now pn m)"
  by (induction a arbitrary: pn m) simp_all

definition search_done :: "nat \<Rightarrow> nat \<Rightarrow> nat \<Rightarrow> instant \<Rightarrow> mtu_discovery_config \<Rightarrow> mtu_discovery \<Rightarrow> bool" where
  "search_done link U c now config m \<longleftrightarrow> map_option em_phase (mt_state m) = Some (PhaseComplete (now + mc_interval config))
     \<and> c \<le> mt_current_mtu m \<and> mt_current_mtu m \<le> min link U \<and> min link U < mt_current_mtu m + 2 * mc_minimum_change config"

lemma three_losses:
  assumes "between link U 1 e c s m"
  shows "\<exists>e' s'. between link U MAX_PROBE_RETRANSMITS e' c s' (mt_rounds 2 link now pn m)
    \<and> search_room MAX_PROBE_RETRANSMITS c s' = search_room 1 c s \<and> em_config e' = em_config e"
proof -
  obtain e1 s1 where 1: "between link U 2 e1 c s1 (mt_round link now pn m)" "ss_last_probed_mtu s1 = ss_last_probed_mtu s" "em_config e1 = em_config e"
    using lost_round [OF assms, of now pn] by (auto simp: MAX_PROBE_RETRANSMITS_def numeral_2_eq_2)
  obtain e2 s2 where "between link U 3 e2 c s2 (mt_round link now (pn + 1) (mt_round link now pn m))"
      "ss_last_probed_mtu s2 = ss_last_probed_mtu s1" "em_config e2 = em_config e1"
    using lost_round [OF 1(1), of now "pn + 1"] by (auto simp: MAX_PROBE_RETRANSMITS_def numeral_3_eq_3 numeral_2_eq_2)
  then show ?thesis using 1 by (intro exI [of _ e2] exI [of _ s2]) (simp add: numeral_2_eq_2 search_room_def MAX_PROBE_RETRANSMITS_def)
qed

lemma search_ends:
  assumes "between link U lost e c s m" "lost = 0 \<or> lost = MAX_PROBE_RETRANSMITS" "1 \<le> mc_minimum_change (em_config e)"
  shows "\<exists>n. search_done link U c now (em_config e) (mt_rounds (Suc n) link now pn m)"
  using assms
proof (induction "search_room lost c s" arbitrary: lost e c s m pn rule: less_induct)
  case less
  let ?m = "mt_round link now pn m"
  consider (complete) e' where "mt_state ?m = Some e'" "em_phase e' = PhaseComplete (now + mc_interval (em_config e))" "mt_current_mtu ?m = c"
      "min link U < c + 2 * mc_minimum_change (em_config e)"
  | (on) lost' e' c' s' where "between link U lost' e' c' s' ?m" "c \<le> c'" "search_room lost' c' s' < search_room lost c s"
      "em_config e' = em_config e" "lost' = 0 \<or> lost' = 1"
    using decide_round [OF less.prems, of now pn] by blast
  then show ?case
  proof cases
    case complete
    then show ?thesis using less.prems(1) by (intro exI [of _ 0]) (simp add: search_done_def between_def)
  next
    case b: on
    then consider "lost' = 0" | "lost' = 1" by blast
    then obtain k lost2 e2 s2 where b2: "between link U lost2 e2 c' s2 (mt_rounds k link now (pn + 1) ?m)"
        "lost2 = 0 \<or> lost2 = MAX_PROBE_RETRANSMITS" "search_room lost2 c' s2 < search_room lost c s" "em_config e2 = em_config e"
    proof cases
      case 1
      then show ?thesis using b that [of 0 e' s' 0] by simp
    next
      case 2
      then show ?thesis using b three_losses [of link U e' c' s' ?m now "pn + 1"] that [of MAX_PROBE_RETRANSMITS _ _ 2] by auto
    qed
    obtain n where "search_done link U c' now (em_config e2) (mt_rounds (Suc n) link now (pn + 1 + k) (mt_rounds k link now (pn + 1) ?m))"
      using less.hyps [OF b2(3,1,2)] less.prems(3) b2(4) by auto
    then have "search_done link U c' now (em_config e) (mt_rounds (Suc (k + Suc n)) link now pn m)"
      using mt_rounds_add [of k "Suc n" link now "pn + 1" ?m] b2(4) by simp
    then show ?thesis using b(2) by (intro exI [of _ "k + Suc n"]) (simp add: search_done_def)
  qed
qed

lemma em_search_phase: "em_search now pn s (e\<lparr>em_phase := p\<rparr>) = em_search now pn s e"
  by (auto simp: em_search_def Let_def split: prod.splits option.splits)

lemma first_round:
  assumes "mt_state m = Some e" "em_phase e = PhaseInitial \<or> (\<exists>t \<le> now. em_phase e = PhaseComplete t)"
  shows "mt_round link now pn m = mt_round link now pn (m\<lparr>mt_state := Some (e\<lparr>em_phase :=
    PhaseSearching (search_new (mt_current_mtu m) (em_peer_max_udp_payload_size e) (em_config e))\<rparr>)\<rparr>)"
proof -
  have "mt_poll_transmit now pn m = mt_poll_transmit now pn (m\<lparr>mt_state := Some (e\<lparr>em_phase :=
    PhaseSearching (search_new (mt_current_mtu m) (em_peer_max_udp_payload_size e) (em_config e))\<rparr>)\<rparr>)"
    using assms by (auto simp: mt_poll_transmit_def em_poll_transmit_def em_search_phase split: prod.splits)
  then show ?thesis by (simp add: mt_round_def)
qed



text \<open>A configured minimum change of zero is accepted by \<^verbatim>\<open>MtuDiscoveryConfig::minimum_change\<close>, and then the
  search never ends: once its bounds meet, the same size is probed for ever.\<close>

theorem zero_minimum_change_never_completes:
  assumes "mt_state m = Some e" "em_phase e = PhaseSearching s" "ss_in_flight_probe s = None" "ss_lost_probe_count s = 0"
    "ss_minimum_change s = 0" "ss_last_probed_mtu s = ss_upper_bound s" "ss_upper_bound s \<le> link"
  shows "\<exists>e' s'. mt_state (mt_rounds n link now pn m) = Some e' \<and> em_phase e' = PhaseSearching s'"
  using assms
proof (induction n arbitrary: m e s pn)
  case (Suc n)
  let ?s = "s\<lparr>ss_lower_bound := ss_upper_bound s\<rparr>"
  have "mt_state (mt_round link now pn m) = Some (e\<lparr>em_phase := PhaseSearching ?s\<rparr>)"
    using Suc.prems by (simp add: mt_round_def mt_poll_transmit_def em_poll_transmit_def em_search_def next_mtu_to_probe_def
        abs_diff_def mt_on_acked_def em_on_probe_acked_def)
  then show ?case using Suc.IH [of "mt_round link now pn m" _ ?s] Suc.prems by simp
qed auto

end
