(* ===== verification/Paths.thy ===== *)
theory Paths
  imports Packet_Space Mtud
begin

text \<open>
  Network paths (\<^verbatim>\<open>connection/paths.rs\<close>) and timers (\<^verbatim>\<open>connection/timer.rs\<close>): the round-trip estimator, the
  counters of what is in flight, the anti-amplification limit, and the queue of path responses.  A congestion
  controller is known by the calls it receives (the trait \<^verbatim>\<open>Controller\<close> of \<^verbatim>\<open>congestion.rs\<close>), which a path
  records in order.
\<close>

section \<open>Model\<close>

subsection \<open>Round-trip estimation\<close>

record rtt_estimator =
  re_latest :: duration
  re_smoothed :: "duration option"
  re_var :: duration
  re_min :: duration

definition re_new :: "duration \<Rightarrow> rtt_estimator" where
  "re_new initial_rtt = \<lparr>re_latest = initial_rtt, re_smoothed = None, re_var = initial_rtt div 2, re_min = initial_rtt\<rparr>"

definition re_get :: "rtt_estimator \<Rightarrow> duration" where
  "re_get r = (case re_smoothed r of Some smoothed \<Rightarrow> smoothed | None \<Rightarrow> re_latest r)"

definition re_conservative :: "rtt_estimator \<Rightarrow> duration" where
  "re_conservative r = max (re_get r) (re_latest r)"

definition pto_base :: "rtt_estimator \<Rightarrow> duration" where
  "pto_base r = re_get r + max (4 * re_var r) TIMER_GRANULARITY"

definition re_update :: "duration \<Rightarrow> duration \<Rightarrow> rtt_estimator \<Rightarrow> rtt_estimator" where
  "re_update delay rtt r =
     (let r = r\<lparr>re_latest := rtt\<rparr>;
          r = r\<lparr>re_min := min (re_min r) (re_latest r)\<rparr>
      in case re_smoothed r of
           Some smoothed \<Rightarrow>
             let adjusted_rtt = (if re_min r + delay \<le> re_latest r then re_latest r - delay else re_latest r);
                 var_sample = abs_diff smoothed adjusted_rtt
             in r\<lparr>re_var := (3 * re_var r + var_sample) div 4, re_smoothed := Some ((7 * smoothed + adjusted_rtt) div 8)\<rparr>
         | None \<Rightarrow> r\<lparr>re_smoothed := Some (re_latest r), re_var := re_latest r div 2, re_min := re_latest r\<rparr>)"

subsection \<open>Packets in flight\<close>

record in_flight =
  if_bytes :: nat
  if_ack_eliciting :: nat

definition if_new :: in_flight where
  "if_new = \<lparr>if_bytes = 0, if_ack_eliciting = 0\<rparr>"

definition if_insert :: "sent_packet \<Rightarrow> in_flight \<Rightarrow> in_flight" where
  "if_insert packet f = \<lparr>if_bytes = u64_add (if_bytes f) (sn_size packet),
     if_ack_eliciting = u64_add (if_ack_eliciting f) (of_bool (sn_ack_eliciting packet))\<rparr>"

definition if_remove :: "sent_packet \<Rightarrow> in_flight \<Rightarrow> in_flight" where
  "if_remove packet f = \<lparr>if_bytes = u64_sub (if_bytes f) (sn_size packet),
     if_ack_eliciting = u64_sub (if_ack_eliciting f) (of_bool (sn_ack_eliciting packet))\<rparr>"

subsection \<open>Congestion controllers\<close>

datatype controller_call =
    CcOnSent instant nat nat bool
  | CcOnAck instant instant nat bool rtt_estimator nat
  | CcOnPacketLost instant nat nat
  | CcOnPacketNeutered nat
  | CcOnPacketAbandoned nat nat
  | CcOnLeastUnacked nat
  | CcOnEndAcks instant nat bool "nat option"
  | CcOnCongestionEvent instant instant bool nat
  | CcOnMtuUpdate nat

subsection \<open>Observed addresses\<close>

record path_address_info =
  ai_observed_address :: "socket_addr option"
  ai_last_observed :: "instant option"
  ai_observation_count :: nat
  ai_notified :: bool

definition ai_new :: path_address_info where
  "ai_new = \<lparr>ai_observed_address = None, ai_last_observed = None, ai_observation_count = 0, ai_notified = False\<rparr>"

definition update_observed_address :: "socket_addr \<Rightarrow> instant \<Rightarrow> path_address_info \<Rightarrow> path_address_info" where
  "update_observed_address address now a =
     (if ai_observed_address a = Some address then a\<lparr>ai_observation_count := u64_add (ai_observation_count a) 1, ai_last_observed := Some now\<rparr>
      else a\<lparr>ai_observed_address := Some address, ai_observation_count := 1, ai_notified := False, ai_last_observed := Some now\<rparr>)"

definition has_address_changed :: "socket_addr \<Rightarrow> path_address_info \<Rightarrow> bool" where
  "has_address_changed expected a = (case ai_observed_address a of Some observed \<Rightarrow> observed \<noteq> expected | None \<Rightarrow> False)"

definition mark_notified :: "path_address_info \<Rightarrow> path_address_info" where
  "mark_notified a = a\<lparr>ai_notified := True\<rparr>"

subsection \<open>Paths\<close>

record path_data =
  pd_remote :: socket_addr
  pd_rtt :: rtt_estimator
  pd_sending_ecn :: bool
  pd_congestion :: "controller_call list"
  pd_challenge :: "nat option"
  pd_challenge_pending :: bool
  pd_validated :: bool
  pd_total_sent :: nat
  pd_total_recvd :: nat
  pd_mtud :: mtu_discovery
  pd_first_packet_after_rtt_sample :: "(space_id \<times> nat) option"
  pd_in_flight :: in_flight
  pd_first_packet :: "nat option"
  pd_address_info :: path_address_info

record path_config =
  pc_initial_rtt :: duration
  pc_initial_mtu :: nat
  pc_min_mtu :: nat
  pc_mtu_discovery :: "mtu_discovery_config option"

definition pd_new :: "socket_addr \<Rightarrow> bool \<Rightarrow> nat option \<Rightarrow> path_config \<Rightarrow> path_data" where
  "pd_new remote allow_mtud peer_max_udp_payload_size config =
     \<lparr>pd_remote = remote, pd_rtt = re_new (pc_initial_rtt config), pd_sending_ecn = True, pd_congestion = [],
      pd_challenge = None, pd_challenge_pending = False, pd_validated = False, pd_total_sent = 0, pd_total_recvd = 0,
      pd_mtud = (case (if allow_mtud then pc_mtu_discovery config else None) of
          None \<Rightarrow> mt_disabled (pc_initial_mtu config) (pc_min_mtu config)
        | Some mtud_config \<Rightarrow> mt_new (pc_initial_mtu config) (pc_min_mtu config) peer_max_udp_payload_size mtud_config),
      pd_first_packet_after_rtt_sample = None, pd_in_flight = if_new, pd_first_packet = None, pd_address_info = ai_new\<rparr>"

definition pd_from_previous :: "socket_addr \<Rightarrow> path_data \<Rightarrow> path_data" where
  "pd_from_previous remote prev =
     \<lparr>pd_remote = remote, pd_rtt = pd_rtt prev, pd_sending_ecn = True, pd_congestion = pd_congestion prev,
      pd_challenge = None, pd_challenge_pending = False, pd_validated = False, pd_total_sent = 0, pd_total_recvd = 0,
      pd_mtud = pd_mtud prev, pd_first_packet_after_rtt_sample = pd_first_packet_after_rtt_sample prev,
      pd_in_flight = if_new, pd_first_packet = None, pd_address_info = ai_new\<rparr>"

definition pd_reset :: "path_config \<Rightarrow> path_data \<Rightarrow> path_data" where
  "pd_reset config p = p\<lparr>pd_rtt := re_new (pc_initial_rtt config), pd_congestion := [],
     pd_mtud := mt_reset (pc_initial_mtu config) (pc_min_mtu config) (pd_mtud p), pd_address_info := ai_new\<rparr>"

definition anti_amplification_blocked :: "nat \<Rightarrow> path_data \<Rightarrow> bool" where
  "anti_amplification_blocked bytes_to_send p \<longleftrightarrow>
     \<not> pd_validated p \<and> pd_total_recvd p * 3 mod 2 ^ 64 < u64_add (pd_total_sent p) bytes_to_send"

text \<open>Sending fails when tracking the packet does.\<close>

definition pd_sent :: "nat \<Rightarrow> sent_packet \<Rightarrow> path_data \<times> packet_space \<Rightarrow> (path_data \<times> packet_space) option" where
  "pd_sent pn packet = (\<lambda>(p, k).
     let p = p\<lparr>pd_in_flight := if_insert packet (pd_in_flight p)\<rparr>;
         p = (if pd_first_packet p = None then p\<lparr>pd_first_packet := Some pn\<rparr> else p)
     in map_option (\<lambda>(forgotten, k). (p\<lparr>pd_in_flight := (pd_in_flight p)\<lparr>if_bytes := u64_sub (if_bytes (pd_in_flight p)) forgotten\<rparr>\<rparr>, k))
          (pk_sent pn packet k))"

definition pd_remove_in_flight :: "nat \<Rightarrow> sent_packet \<Rightarrow> path_data \<Rightarrow> bool \<times> path_data" where
  "pd_remove_in_flight pn packet p =
     (if (case pd_first_packet p of None \<Rightarrow> True | Some first \<Rightarrow> pn < first) then (False, p)
      else (True, p\<lparr>pd_in_flight := if_remove packet (pd_in_flight p)\<rparr>))"

definition pd_call :: "controller_call \<Rightarrow> path_data \<Rightarrow> path_data" where
  "pd_call c p = p\<lparr>pd_congestion := pd_congestion p @ [c]\<rparr>"

subsection \<open>Path responses\<close>

record path_response =
  pr_packet :: nat
  pr_token :: nat
  pr_remote :: socket_addr

definition MAX_PATH_RESPONSES :: nat where "MAX_PATH_RESPONSES = 16"

definition prs_push :: "nat \<Rightarrow> nat \<Rightarrow> socket_addr \<Rightarrow> path_response list \<Rightarrow> path_response list" where
  "prs_push packet token remote pending =
     (let response = \<lparr>pr_packet = packet, pr_token = token, pr_remote = remote\<rparr> in
      case position (\<lambda>x. pr_remote x = remote) pending of
        Some i \<Rightarrow> if pr_packet (pending ! i) \<le> packet then pending[i := response] else pending
      | None \<Rightarrow> if length pending < MAX_PATH_RESPONSES then pending @ [response] else pending)"

definition pop_off_path :: "socket_addr \<Rightarrow> path_response list \<Rightarrow> (nat \<times> socket_addr) option \<times> path_response list" where
  "pop_off_path remote pending =
     (if pending = [] then (None, pending)
      else let response = last pending in
        if pr_remote response = remote then (None, pending)
        else (Some (pr_token response, pr_remote response), butlast pending))"

definition pop_on_path :: "socket_addr \<Rightarrow> path_response list \<Rightarrow> nat option \<times> path_response list" where
  "pop_on_path remote pending =
     (if pending = [] then (None, pending)
      else let response = last pending in
        if pr_remote response \<noteq> remote then (None, pending)
        else (Some (pr_token response), butlast pending))"

subsection \<open>Timers\<close>

datatype timer = LossDetection | IdleTimer | CloseTimer | KeyDiscard | PathValidation | KeepAlive | Pacing | PushNewCid
  | MaxAckDelay | NatTraversalTimer

definition timer_values :: "timer list" where
  "timer_values = [LossDetection, IdleTimer, CloseTimer, KeyDiscard, PathValidation, KeepAlive, Pacing, PushNewCid,
     MaxAckDelay, NatTraversalTimer]"

type_synonym timer_table = "timer \<Rightarrow> instant option"

definition tt_set :: "timer \<Rightarrow> instant \<Rightarrow> timer_table \<Rightarrow> timer_table" where
  "tt_set timer time t = t(timer := Some time)"

definition tt_stop :: "timer \<Rightarrow> timer_table \<Rightarrow> timer_table" where
  "tt_stop timer t = t(timer := None)"

definition next_timeout :: "timer_table \<Rightarrow> instant option" where
  "next_timeout t = (case List.map_filter t timer_values of [] \<Rightarrow> None | x # xs \<Rightarrow> Some (Min (set (x # xs))))"

definition is_expired :: "timer \<Rightarrow> instant \<Rightarrow> timer_table \<Rightarrow> bool" where
  "is_expired timer now t = (case t timer of Some x \<Rightarrow> x \<le> now | None \<Rightarrow> False)"

section \<open>The estimate stays within the samples\<close>

text \<open>The estimator after a sequence of samples, each an acknowledgement delay and a round-trip time.\<close>

definition re_run :: "duration \<Rightarrow> (duration \<times> duration) list \<Rightarrow> rtt_estimator" where
  "re_run initial_rtt samples = foldl (\<lambda>r (delay, rtt). re_update delay rtt r) (re_new initial_rtt) samples"

definition re_within :: "duration set \<Rightarrow> rtt_estimator \<Rightarrow> bool" where
  "re_within rtts r \<longleftrightarrow> (\<exists>s. re_smoothed r = Some s \<and> Min rtts \<le> s \<and> s \<le> Max rtts) \<and> re_min r = Min rtts
     \<and> re_var r \<le> Max rtts \<and> re_latest r \<in> rtts"

lemma re_update_first:
  "re_smoothed r = None \<Longrightarrow> re_within {rtt} (re_update delay rtt r)"
  by (simp add: re_update_def re_within_def Let_def)

lemma re_update_next:
  assumes r: "re_within rtts r" "finite rtts" "rtts \<noteq> {}"
  shows "re_within (insert rtt rtts) (re_update delay rtt r)"
proof -
  obtain s where s: "re_smoothed r = Some s" "Min rtts \<le> s" "s \<le> Max rtts" and m: "re_min r = Min rtts" and v: "re_var r \<le> Max rtts"
    using r(1) by (auto simp: re_within_def)
  define lo hi where "lo = Min (insert rtt rtts)" and "hi = Max (insert rtt rtts)"
  have lo: "lo = min rtt (Min rtts)" and hi: "hi = max rtt (Max rtts)" using r(2,3) by (simp_all add: lo_def hi_def)
  define a where "a = (if min (Min rtts) rtt + delay \<le> rtt then rtt - delay else rtt)"
  have a: "lo \<le> a" "a \<le> hi" unfolding a_def lo hi by auto
  have "abs_diff s a \<le> hi" using s a lo hi by (auto simp: abs_diff_def)
  then have "re_var r * 3 + abs_diff s a \<le> 4 * hi" using v hi by linarith
  then have var: "(3 * re_var r + abs_diff s a) div 4 \<le> hi" by (simp add: mult.commute)
  have sm: "lo \<le> (7 * s + a) div 8" "(7 * s + a) div 8 \<le> hi" using s a lo hi by linarith+
  have "re_update delay rtt r = r\<lparr>re_latest := rtt, re_min := lo, re_var := (3 * re_var r + abs_diff s a) div 4, re_smoothed := Some ((7 * s + a) div 8)\<rparr>"
    using s(1) by (simp add: re_update_def Let_def a_def lo m min.commute)
  then show ?thesis using var sm unfolding re_within_def lo_def [symmetric] hi_def [symmetric] by simp
qed

lemma re_run_within: "samples \<noteq> [] \<Longrightarrow> re_within (snd ` set samples) (re_run initial_rtt samples)"
proof (induction samples rule: rev_induct)
  case (snoc x xs)
  show ?case
  proof (cases "xs = []")
    case True
    then show ?thesis by (cases x) (simp add: re_run_def re_update_first re_new_def)
  next
    case False
    have "re_run initial_rtt (xs @ [x]) = re_update (fst x) (snd x) (re_run initial_rtt xs)" by (simp add: re_run_def case_prod_beta)
    then show ?thesis using re_update_next [OF snoc.IH [OF False], of "snd x" "fst x"] False by simp
  qed
qed simp



section \<open>Path responses\<close>

definition prs_ok :: "path_response list \<Rightarrow> bool" where
  "prs_ok pending \<longleftrightarrow> distinct (map pr_remote pending) \<and> length pending \<le> MAX_PATH_RESPONSES"

lemma prs_push_ok: "prs_ok pending \<Longrightarrow> prs_ok (prs_push packet token remote pending)"
proof (cases "position (\<lambda>x. pr_remote x = remote) pending")
  case None
  moreover have "\<forall>x\<in>set pending. pr_remote x \<noteq> remote" using None by (simp add: position_None_iff)
  ultimately show "prs_ok pending \<Longrightarrow> ?thesis" by (auto simp: prs_ok_def prs_push_def Let_def)
next
  case (Some i)
  then have i: "i < length pending" "pr_remote (pending ! i) = remote" using position_SomeD by fastforce+
  then have "map pr_remote (pending[i := \<lparr>pr_packet = packet, pr_token = token, pr_remote = remote\<rparr>]) = map pr_remote pending"
    by (simp add: map_update list_update_same_conv flip: i(2))
  then show "prs_ok pending \<Longrightarrow> ?thesis" using Some by (simp add: prs_ok_def prs_push_def Let_def)
qed

lemma prs_pop_ok:
  "prs_ok pending \<Longrightarrow> prs_ok (snd (pop_off_path remote pending))"
  "prs_ok pending \<Longrightarrow> prs_ok (snd (pop_on_path remote pending))"
  by (auto simp: prs_ok_def pop_off_path_def pop_on_path_def Let_def map_butlast distinct_butlast)

text \<open>A response is never lost: one of the two calls takes the last entry.\<close>

lemma prs_pop_progress:
  "pending \<noteq> [] \<Longrightarrow> fst (pop_on_path remote pending) \<noteq> None \<or> fst (pop_off_path remote pending) \<noteq> None"
  by (simp add: pop_off_path_def pop_on_path_def Let_def)

section \<open>Timers\<close>

lemma next_timeout_least:
  "next_timeout t = Some x \<longleftrightarrow> (\<exists>timer. t timer = Some x) \<and> (\<forall>timer y. t timer = Some y \<longrightarrow> x \<le> y)"
proof -
  have all: "timer \<in> set timer_values" for timer by (cases timer) (simp_all add: timer_values_def)
  have set: "set (List.map_filter t timer_values) = {x. \<exists>timer. t timer = Some x}"
    using all by (auto simp: List.map_filter_def image_iff) (metis option.sel)
  show ?thesis
  proof (cases "List.map_filter t timer_values")
    case Nil
    then show ?thesis using set by (auto simp: next_timeout_def)
  next
    case (Cons y ys)
    have "next_timeout t = Some (Min (set (List.map_filter t timer_values)))" by (simp add: next_timeout_def Cons)
    moreover have "finite (set (List.map_filter t timer_values))" "set (List.map_filter t timer_values) \<noteq> {}" by (simp_all add: Cons)
    ultimately show ?thesis unfolding set by (auto simp: Min_eq_iff)
  qed
qed

end
