(* ===== verification/Datagrams.thy ===== *)
theory Datagrams
  imports Frames
begin

text \<open>
  Unreliable datagrams (\<^verbatim>\<open>connection/datagrams.rs\<close>): the queues in both directions and their byte counts.
  The counts are exact in every state, the receive buffer stays within its window, and datagrams leave
  both queues in order.
\<close>

section \<open>Model\<close>

record datagram_state =
  dq_recv_buffered :: nat
  dq_incoming :: "datagram list"
  dq_outgoing :: "datagram list"
  dq_outgoing_total :: nat
  dq_send_blocked :: bool

datatype send_datagram_error = UnsupportedByPeer | DatagramsDisabled | DatagramTooLarge | DatagramBlocked bytes

record datagram_received =
  dr_was_empty :: bool
  dr_dropped_count :: nat
  dr_dropped_bytes :: nat

definition dq_default :: datagram_state where
  "dq_default = \<lparr>dq_recv_buffered = 0, dq_incoming = [], dq_outgoing = [], dq_outgoing_total = 0, dq_send_blocked = False\<rparr>"

definition dg_SIZE_BOUND :: nat where
  "dg_SIZE_BOUND = 1 + 8"

text \<open>\<^verbatim>\<open>Datagrams::max_size\<close>, given the path's MTU, the overhead of a 1-RTT packet and the peer's limit.\<close>

definition dq_max_size :: "nat \<Rightarrow> nat \<Rightarrow> nat option \<Rightarrow> nat option" where
  "dq_max_size mtu overhead peer_limit =
     (let max_size = u64_sub (u64_sub mtu overhead) dg_SIZE_BOUND in
      map_option (\<lambda>x. min (x - dg_SIZE_BOUND) max_size) peer_limit)"

text \<open>None is the panic of \<^verbatim>\<open>expect\<close> on an empty queue.\<close>

fun dq_make_room :: "nat \<Rightarrow> datagram list \<Rightarrow> nat \<Rightarrow> (datagram list \<times> nat) option" where
  "dq_make_room limit outgoing sum_out =
     (if limit < sum_out
      then (case outgoing of [] \<Rightarrow> None | prev # rest \<Rightarrow> dq_make_room limit rest (u64_sub sum_out (length (dg_data prev))))
      else Some (outgoing, sum_out))"

definition dq_send :: "bool \<Rightarrow> nat option \<Rightarrow> nat \<Rightarrow> bytes \<Rightarrow> bool \<Rightarrow> (datagram_state, send_datagram_error failure, unit) op" where
  "dq_send enabled max_size send_buffer_size data drop_old d =
     (if \<not> enabled then (Inl (Err DatagramsDisabled), d)
      else case max_size of
        None \<Rightarrow> (Inl (Err UnsupportedByPeer), d)
      | Some limit \<Rightarrow>
          if limit < length data then (Inl (Err DatagramTooLarge), d)
          else let enqueue = (\<lambda>d. d\<lparr>dq_outgoing_total := u64_add (dq_outgoing_total d) (length data),
                                     dq_outgoing := dq_outgoing d @ [\<lparr>dg_data = data\<rparr>]\<rparr>)
               in if drop_old
                  then (case dq_make_room send_buffer_size (dq_outgoing d) (dq_outgoing_total d) of
                          None \<Rightarrow> (Inl Panic, d)
                        | Some (outgoing, sum_out) \<Rightarrow> (Inr (), enqueue (d\<lparr>dq_outgoing := outgoing, dq_outgoing_total := sum_out\<rparr>)))
                  else if send_buffer_size < u64_add (dq_outgoing_total d) (length data)
                  then (Inl (Err (DatagramBlocked data)), d\<lparr>dq_send_blocked := True\<rparr>)
                  else (Inr (), enqueue d))"

definition dq_recv :: "datagram_state \<Rightarrow> bytes option \<times> datagram_state" where
  "dq_recv d = (case dq_incoming d of
      [] \<Rightarrow> (None, d)
    | x # rest \<Rightarrow> (Some (dg_data x), d\<lparr>dq_incoming := rest, dq_recv_buffered := u64_sub (dq_recv_buffered d) (length (dg_data x))\<rparr>))"

definition dq_send_buffer_space :: "nat \<Rightarrow> datagram_state \<Rightarrow> nat" where
  "dq_send_buffer_space send_buffer_size d = send_buffer_size - dq_outgoing_total d"

function dq_drop_stale :: "nat \<Rightarrow> nat \<Rightarrow> nat \<times> nat \<Rightarrow> datagram_state \<Rightarrow> (nat \<times> nat) \<times> datagram_state" where
  "dq_drop_stale len window dropped d =
     (if window < u64_add len (dq_recv_buffered d)
      then case dq_recv d of
             (None, d) \<Rightarrow> (dropped, d)
           | (Some x, d) \<Rightarrow> dq_drop_stale len window (fst dropped + 1, snd dropped + length x) d
      else (dropped, d))"
  by pat_completeness auto
termination
  by (relation "measure (\<lambda>(_, _, _, d). length (dq_incoming d))") (auto simp: dq_recv_def split: list.splits)

declare dq_drop_stale.simps [simp del]

definition dq_received :: "datagram \<Rightarrow> nat option \<Rightarrow> (datagram_state, transport_error, datagram_received) op" where
  "dq_received x window d = (case window of
      None \<Rightarrow> (Inl (PROTOCOL_VIOLATION ''unexpected DATAGRAM frame''), d)
    | Some window \<Rightarrow>
        if window < length (dg_data x) then (Inl (PROTOCOL_VIOLATION ''oversized datagram''), d)
        else case dq_drop_stale (length (dg_data x)) window (0, 0) d of
               ((count, bytes), d') \<Rightarrow> (Inr \<lparr>dr_was_empty = (dq_recv_buffered d = 0), dr_dropped_count = count, dr_dropped_bytes = bytes\<rparr>,
                 d'\<lparr>dq_recv_buffered := u64_add (dq_recv_buffered d') (length (dg_data x)), dq_incoming := dq_incoming d' @ [x]\<rparr>))"

definition drop_oversized :: "nat \<Rightarrow> datagram_state \<Rightarrow> datagram_state" where
  "drop_oversized max_payload d = d\<lparr>dq_outgoing := filter (\<lambda>x. length (dg_data x) < max_payload) (dq_outgoing d),
     dq_outgoing_total := foldl (\<lambda>sum_out x. u64_sub sum_out (length (dg_data x))) (dq_outgoing_total d)
       (filter (\<lambda>x. \<not> length (dg_data x) < max_payload) (dq_outgoing d))\<rparr>"

definition dq_write :: "nat \<Rightarrow> bytes \<Rightarrow> datagram_state \<Rightarrow> bool \<times> bytes \<times> datagram_state" where
  "dq_write max_size buf d = (case dq_outgoing d of
      [] \<Rightarrow> (False, buf, d)
    | x # rest \<Rightarrow>
        if max_size < length buf + dg_size x True then (False, buf, d)
        else (True, snd (dg_try_encode x True buf),
              d\<lparr>dq_outgoing := rest, dq_outgoing_total := u64_sub (dq_outgoing_total d) (length (dg_data x))\<rparr>))"

section \<open>The counts are exact\<close>

definition dg_total :: "datagram list \<Rightarrow> nat" where
  "dg_total xs = sum_list (map (length \<circ> dg_data) xs)"

lemma dg_total_simps [simp]: "dg_total [] = 0" "dg_total (x # xs) = length (dg_data x) + dg_total xs" "dg_total (xs @ ys) = dg_total xs + dg_total ys"
  by (simp_all add: dg_total_def)

text \<open>The byte counts are those of the queues, and no more than \<open>2 ^ 63\<close> bytes are queued.\<close>

definition dq_ok :: "nat \<Rightarrow> datagram_state \<Rightarrow> bool" where
  "dq_ok window d \<longleftrightarrow> dq_recv_buffered d = dg_total (dq_incoming d) \<and> dq_recv_buffered d \<le> window
     \<and> dq_outgoing_total d = dg_total (dq_outgoing d) \<and> dq_outgoing_total d < 2 ^ 63"

lemma dq_make_room_ok:
  "\<exists>dropped kept. dq_make_room limit outgoing (dg_total outgoing) = Some (kept, dg_total kept) \<and> outgoing = dropped @ kept
     \<and> dg_total kept \<le> limit \<and> (dropped \<noteq> [] \<longrightarrow> limit < length (dg_data (last dropped)) + dg_total kept)"
proof (induction outgoing)
  case (Cons x xs)
  then obtain dropped kept where IH: "dq_make_room limit xs (dg_total xs) = Some (kept, dg_total kept)" "xs = dropped @ kept"
    "dg_total kept \<le> limit" "dropped \<noteq> [] \<longrightarrow> limit < length (dg_data (last dropped)) + dg_total kept" by blast
  show ?case
  proof (cases "limit < dg_total (x # xs)")
    case True
    have "dropped = [] \<Longrightarrow> limit < length (dg_data x) + dg_total kept" using True IH(2) by simp
    then show ?thesis using True IH by (intro exI [of _ "x # dropped"] exI [of _ kept]) (simp add: u64_sub_eq)
  next
    case False
    then show ?thesis by (intro exI [of _ "[]"] exI [of _ "x # xs"]) simp
  qed
qed simp

lemma dq_send_ok:
  assumes ok: "dq_ok window d" and len: "length data < 2 ^ 61" "send_buffer_size < 2 ^ 62"
  shows "fst (dq_send enabled max_size send_buffer_size data drop_old d) \<noteq> Inl Panic"
    and "dq_ok window (snd (dq_send enabled max_size send_buffer_size data drop_old d))"
proof -
  have tot: "dq_outgoing_total d = dg_total (dq_outgoing d)" using ok by (simp add: dq_ok_def)
  obtain dropped kept where room: "dq_make_room send_buffer_size (dq_outgoing d) (dg_total (dq_outgoing d)) = Some (kept, dg_total kept)"
    "dg_total kept \<le> send_buffer_size" using dq_make_room_ok by blast
  show "fst (dq_send enabled max_size send_buffer_size data drop_old d) \<noteq> Inl Panic"
    using room tot by (auto simp: dq_send_def Let_def simp del: dq_make_room.simps split: option.splits)
  show "dq_ok window (snd (dq_send enabled max_size send_buffer_size data drop_old d))"
    using room tot ok len by (auto simp: dq_send_def Let_def dq_ok_def u64_add_eq simp del: dq_make_room.simps split: option.splits)
qed

lemma dq_recv_ok: "dq_ok window d \<Longrightarrow> dq_ok window (snd (dq_recv d))"
  by (auto simp: dq_recv_def dq_ok_def u64_sub_eq split: list.splits)

lemma dq_drop_stale_ok:
  assumes "dq_ok window d" "len \<le> window" "window < 2 ^ 62"
  shows "dq_ok window (snd (dq_drop_stale len window dropped d)) \<and> len + dq_recv_buffered (snd (dq_drop_stale len window dropped d)) \<le> window
    \<and> (\<exists>xs. dq_incoming d = xs @ dq_incoming (snd (dq_drop_stale len window dropped d))
        \<and> fst (dq_drop_stale len window dropped d) = (fst dropped + length xs, snd dropped + dg_total xs))
    \<and> dq_outgoing (snd (dq_drop_stale len window dropped d)) = dq_outgoing d"
  using assms
proof (induction "dq_incoming d" arbitrary: d dropped)
  case Nil
  then have "\<not> window < u64_add len (dq_recv_buffered d)" by (simp add: dq_ok_def u64_add_eq flip: Nil.hyps)
  then show ?case using Nil by (simp add: dq_drop_stale.simps [of len window dropped d] dq_ok_def u64_add_eq)
next
  case (Cons x rest)
  have add: "u64_add len (dq_recv_buffered d) = len + dq_recv_buffered d" using Cons.prems by (simp add: dq_ok_def u64_add_eq)
  define d' where "d' = d\<lparr>dq_incoming := rest, dq_recv_buffered := u64_sub (dq_recv_buffered d) (length (dg_data x))\<rparr>"
  have r: "dq_recv d = (Some (dg_data x), d')" by (simp add: dq_recv_def d'_def flip: Cons.hyps(2))
  have "dq_ok window d'" using dq_recv_ok [OF Cons.prems(1)] r by simp
  note IH = Cons.hyps(1) [of d' "(fst dropped + 1, snd dropped + length (dg_data x))", OF _ this Cons.prems(2,3)]
  show ?case
  proof (cases "window < len + dq_recv_buffered d")
    case False
    then show ?thesis using Cons.prems add by (simp add: dq_drop_stale.simps [of len window dropped d])
  next
    case True
    then have "dq_drop_stale len window dropped d = dq_drop_stale len window (fst dropped + 1, snd dropped + length (dg_data x)) d'"
      using add r by (simp add: dq_drop_stale.simps [of len window dropped d])
    note step = this
    have inc: "dq_incoming d' = rest" and out: "dq_outgoing d' = dq_outgoing d" by (simp_all add: d'_def)
    obtain xs where xs: "rest = xs @ dq_incoming (snd (dq_drop_stale len window dropped d))"
      "fst (dq_drop_stale len window dropped d) = (fst dropped + 1 + length xs, snd dropped + length (dg_data x) + dg_total xs)"
      using IH unfolding step inc by auto
    have "dq_incoming d = (x # xs) @ dq_incoming (snd (dq_drop_stale len window dropped d))"
      "fst (dq_drop_stale len window dropped d) = (fst dropped + length (x # xs), snd dropped + dg_total (x # xs))"
      using xs by (simp_all flip: Cons.hyps(2))
    then show ?thesis using IH [unfolded inc out] unfolding step by blast
  qed
qed

lemma dq_received_ok:
  assumes "dq_ok window d" "window < 2 ^ 62"
  shows "dq_ok window (snd (dq_received x (Some window) d))"
  using assms dq_drop_stale_ok [of window d "length (dg_data x)" "(0, 0)"]
  by (auto simp: dq_received_def dq_ok_def u64_add_eq split: prod.splits)

lemma foldl_u64_sub: "dg_total xs \<le> t \<Longrightarrow> foldl (\<lambda>sum_out x. u64_sub sum_out (length (dg_data x))) t xs = t - dg_total xs"
  by (induction xs arbitrary: t) (auto simp: u64_sub_eq)

lemma dg_total_filter: "dg_total xs = dg_total (filter P xs) + dg_total (filter (\<lambda>x. \<not> P x) xs)"
  by (induction xs) auto

lemma drop_oversized_ok: "dq_ok window d \<Longrightarrow> dq_ok window (drop_oversized n d)"
  using dg_total_filter [of "dq_outgoing d" "\<lambda>x. length (dg_data x) < n"]
  by (auto simp: dq_ok_def drop_oversized_def foldl_u64_sub)

lemma dq_write_ok: "dq_ok window d \<Longrightarrow> dq_ok window (snd (snd (dq_write max_size buf d)))"
  by (auto simp: dq_write_def dq_ok_def u64_sub_eq split: list.splits)

text \<open>\<^verbatim>\<open>drop_oversized\<close> is documented to discard datagrams larger than the limit, but discards those of exactly
  the limit as well: a datagram of the maximum size, which \<^verbatim>\<open>send\<close> accepts, is lost when a black hole
  leaves the maximum unchanged.\<close>

theorem drop_oversized_drops_maximum:
  assumes "length data = limit" "limit \<le> send_buffer_size" "send_buffer_size < 2 ^ 62"
  shows "\<exists>d. dq_send True (Some limit) send_buffer_size data False dq_default = (Inr (), d) \<and> dq_outgoing (drop_oversized limit d) = []"
  using assms by (simp add: dq_send_def dq_default_def drop_oversized_def u64_add_eq)

text \<open>With \<^verbatim>\<open>drop\<close>, room is made for what is queued already and not for the new datagram: the send buffer ends
  above its configured size.\<close>

theorem send_with_drop_exceeds_buffer:
  assumes "0 < n" "n < 2 ^ 61"
  shows "\<exists>d. dq_send True (Some n) n (replicate n 0) True (dq_default\<lparr>dq_outgoing := [\<lparr>dg_data = replicate n 0\<rparr>], dq_outgoing_total := n\<rparr>)
    = (Inr (), d) \<and> dq_outgoing_total d = 2 * n"
  using assms by (simp add: dq_send_def u64_add_eq)

end
