(* ===== verification/Connection_State.thy ===== *)
theory Connection_State
  imports Paths Datagrams Cid_Exchange
begin

text \<open>
  The state of a connection (\<^verbatim>\<open>Connection\<close> in \<^verbatim>\<open>connection/mod.rs\<close>) as far as sending, acknowledgement and loss
  recovery read or change it: packet number spaces, paths, streams, datagrams, connection identifiers and timers.
  Keys are known by their presence.
\<close>

section \<open>Configuration\<close>

text \<open>From \<^verbatim>\<open>TransportConfig\<close> and the transport parameters of the peer.  The product of a duration and the time
  threshold, a floating point number, is a function; so is the sealing of an address validation token.\<close>

record transport_config =
  tc_packet_threshold :: nat
  tc_mul_time_threshold :: "duration \<Rightarrow> duration"
  tc_persistent_congestion_threshold :: nat
  tc_send_fairness :: bool
  tc_ack_frequency :: "ack_frequency_config option"
  tc_keep_alive_interval :: "duration option"
  tc_path :: path_config
  tc_allow_mtud :: bool
  tc_ack_delay_exponent :: nat
  tc_min_ack_delay :: "nat option"
  tc_max_udp_payload_size :: nat
  tc_max_datagram_frame_size :: "nat option"
  tc_tag_len_1rtt :: nat
  tc_use_rfc_format :: bool
  tc_delay_new_tokens :: bool
  tc_encode_token :: "socket_addr \<Rightarrow> bytes option"
  tc_pqc_detected :: bool

datatype conn_state = StHandshake | StEstablished | StClosed close | StDraining | StDrained

fun conn_state_is_closed :: "conn_state \<Rightarrow> bool" where
  "conn_state_is_closed StHandshake = False"
| "conn_state_is_closed StEstablished = False"
| "conn_state_is_closed (StClosed _) = True"
| "conn_state_is_closed StDraining = True"
| "conn_state_is_closed StDrained = True"

record path_stats =
  ps_lost_packets :: nat
  ps_lost_bytes :: nat
  ps_congestion_events :: nat
  ps_black_holes_detected :: nat
  ps_lost_plpmtud_probes :: nat
  ps_sent_packets :: nat

datatype conn_event = DatagramsUnblocked

record connection =
  cn_config :: transport_config
  cn_side :: side
  cn_state :: conn_state
  cn_close :: bool
  cn_zero_rtt_keys :: bool
  cn_highest_space :: space_id
  cn_spaces :: "space_id \<Rightarrow> packet_space"
  cn_path :: path_data
  cn_prev_path :: "(connection_id \<times> path_data) option"
  cn_streams :: streams_state
  cn_datagrams :: datagram_state
  cn_packet_number_filter :: packet_number_filter
  cn_ack_frequency :: ack_frequency_state
  cn_local_cid_state :: cid_state
  cn_rem_cids :: cid_queue
  cn_path_responses :: "path_response list"
  cn_timers :: timer_table
  cn_pto_count :: nat
  cn_idle_timeout :: "duration option"
  cn_permit_idle_reset :: bool
  cn_app_limited :: bool
  cn_receiving_ecn :: bool
  cn_next_sample_pn :: nat
  cn_lost_packets :: nat
  cn_stats :: path_stats
  cn_events :: "conn_event list"

section \<open>Access\<close>

definition upd_space :: "space_id \<Rightarrow> (packet_space \<Rightarrow> packet_space) \<Rightarrow> connection \<Rightarrow> connection" where
  "upd_space space f c = c\<lparr>cn_spaces := (cn_spaces c)(space := f (cn_spaces c space))\<rparr>"

definition upd_path :: "(path_data \<Rightarrow> path_data) \<Rightarrow> connection \<Rightarrow> connection" where
  "upd_path f c = c\<lparr>cn_path := f (cn_path c)\<rparr>"

definition upd_stats :: "(path_stats \<Rightarrow> path_stats) \<Rightarrow> connection \<Rightarrow> connection" where
  "upd_stats f c = c\<lparr>cn_stats := f (cn_stats c)\<rparr>"

definition set_timer :: "timer \<Rightarrow> instant \<Rightarrow> connection \<Rightarrow> connection" where
  "set_timer timer time c = c\<lparr>cn_timers := tt_set timer time (cn_timers c)\<rparr>"

definition stop_timer :: "timer \<Rightarrow> connection \<Rightarrow> connection" where
  "stop_timer timer c = c\<lparr>cn_timers := tt_stop timer (cn_timers c)\<rparr>"

lemma upd_space_apply [simp]:
  "cn_spaces (upd_space space f c) = (cn_spaces c)(space := f (cn_spaces c space))"
  "cn_path (upd_space space f c) = cn_path c" "cn_prev_path (upd_space space f c) = cn_prev_path c"
  "cn_streams (upd_space space f c) = cn_streams c" "cn_config (upd_space space f c) = cn_config c"
  "cn_highest_space (upd_space space f c) = cn_highest_space c" "cn_state (upd_space space f c) = cn_state c"
  "cn_side (upd_space space f c) = cn_side c" "cn_timers (upd_space space f c) = cn_timers c"
  "cn_ack_frequency (upd_space space f c) = cn_ack_frequency c" "cn_pto_count (upd_space space f c) = cn_pto_count c"
  "cn_datagrams (upd_space space f c) = cn_datagrams c" "cn_packet_number_filter (upd_space space f c) = cn_packet_number_filter c"
  "cn_next_sample_pn (upd_space space f c) = cn_next_sample_pn c"
  by (simp_all add: upd_space_def)

lemma upd_path_apply [simp]:
  "cn_spaces (upd_path g c) = cn_spaces c" "cn_path (upd_path g c) = g (cn_path c)" "cn_prev_path (upd_path g c) = cn_prev_path c"
  "cn_streams (upd_path g c) = cn_streams c" "cn_config (upd_path g c) = cn_config c"
  "cn_highest_space (upd_path g c) = cn_highest_space c" "cn_state (upd_path g c) = cn_state c"
  "cn_side (upd_path g c) = cn_side c" "cn_timers (upd_path g c) = cn_timers c"
  "cn_ack_frequency (upd_path g c) = cn_ack_frequency c" "cn_pto_count (upd_path g c) = cn_pto_count c"
  "cn_datagrams (upd_path g c) = cn_datagrams c" "cn_packet_number_filter (upd_path g c) = cn_packet_number_filter c"
  "cn_next_sample_pn (upd_path g c) = cn_next_sample_pn c"
  by (simp_all add: upd_path_def)

lemma upd_stats_apply [simp]:
  "cn_spaces (upd_stats h c) = cn_spaces c" "cn_path (upd_stats h c) = cn_path c" "cn_prev_path (upd_stats h c) = cn_prev_path c"
  "cn_streams (upd_stats h c) = cn_streams c" "cn_config (upd_stats h c) = cn_config c"
  "cn_highest_space (upd_stats h c) = cn_highest_space c" "cn_state (upd_stats h c) = cn_state c"
  "cn_side (upd_stats h c) = cn_side c" "cn_timers (upd_stats h c) = cn_timers c"
  "cn_ack_frequency (upd_stats h c) = cn_ack_frequency c" "cn_pto_count (upd_stats h c) = cn_pto_count c"
  "cn_datagrams (upd_stats h c) = cn_datagrams c" "cn_packet_number_filter (upd_stats h c) = cn_packet_number_filter c"
  "cn_next_sample_pn (upd_stats h c) = cn_next_sample_pn c"
  by (simp_all add: upd_stats_def)

lemma timer_apply [simp]:
  "cn_timers (set_timer t x c) = (cn_timers c)(t := Some x)" "cn_timers (stop_timer t c) = (cn_timers c)(t := None)"
  "cn_spaces (set_timer t x c) = cn_spaces c" "cn_spaces (stop_timer t c) = cn_spaces c"
  "cn_path (set_timer t x c) = cn_path c" "cn_path (stop_timer t c) = cn_path c"
  "cn_prev_path (set_timer t x c) = cn_prev_path c" "cn_prev_path (stop_timer t c) = cn_prev_path c"
  "cn_streams (set_timer t x c) = cn_streams c" "cn_streams (stop_timer t c) = cn_streams c"
  "cn_config (set_timer t x c) = cn_config c" "cn_config (stop_timer t c) = cn_config c"
  "cn_highest_space (set_timer t x c) = cn_highest_space c" "cn_highest_space (stop_timer t c) = cn_highest_space c"
  "cn_state (set_timer t x c) = cn_state c" "cn_state (stop_timer t c) = cn_state c"
  "cn_side (set_timer t x c) = cn_side c" "cn_side (stop_timer t c) = cn_side c"
  "cn_ack_frequency (set_timer t x c) = cn_ack_frequency c" "cn_ack_frequency (stop_timer t c) = cn_ack_frequency c"
  "cn_pto_count (set_timer t x c) = cn_pto_count c" "cn_pto_count (stop_timer t c) = cn_pto_count c"
  "cn_datagrams (set_timer t x c) = cn_datagrams c" "cn_datagrams (stop_timer t c) = cn_datagrams c"
  "cn_packet_number_filter (set_timer t x c) = cn_packet_number_filter c"
  "cn_packet_number_filter (stop_timer t c) = cn_packet_number_filter c"
  "cn_next_sample_pn (set_timer t x c) = cn_next_sample_pn c" "cn_next_sample_pn (stop_timer t c) = cn_next_sample_pn c"
  by (simp_all add: set_timer_def stop_timer_def tt_set_def tt_stop_def)

section \<open>Timers of the connection\<close>

definition cn_is_closed :: "connection \<Rightarrow> bool" where
  "cn_is_closed c \<longleftrightarrow> conn_state_is_closed (cn_state c)"

definition cn_pto :: "space_id \<Rightarrow> connection \<Rightarrow> duration" where
  "cn_pto space c = pto_base (pd_rtt (cn_path c))
     + (if space = SpaceData then max_ack_delay_for_pto (cn_ack_frequency c) else 0)"

definition reset_idle_timeout :: "instant \<Rightarrow> space_id \<Rightarrow> connection \<Rightarrow> connection" where
  "reset_idle_timeout now space c = (case cn_idle_timeout c of
      None \<Rightarrow> c
    | Some timeout \<Rightarrow>
        if cn_is_closed c then stop_timer IdleTimer c
        else set_timer IdleTimer (now + max timeout (3 * cn_pto space c)) c)"

definition reset_keep_alive :: "instant \<Rightarrow> connection \<Rightarrow> connection" where
  "reset_keep_alive now c = (case tc_keep_alive_interval (cn_config c) of
      Some interval \<Rightarrow> if cn_state c = StEstablished then set_timer KeepAlive (now + interval) c else c
    | None \<Rightarrow> c)"

definition close_common :: "connection \<Rightarrow> connection" where
  "close_common c = fold stop_timer timer_values c"

definition set_close_timer :: "instant \<Rightarrow> connection \<Rightarrow> connection" where
  "set_close_timer now c = set_timer CloseTimer (now + 3 * cn_pto (cn_highest_space c) c) c"

definition close_inner :: "instant \<Rightarrow> close \<Rightarrow> connection \<Rightarrow> connection" where
  "close_inner now reason c =
     (if cn_is_closed c then c
      else (set_close_timer now (close_common c))\<lparr>cn_close := True, cn_state := StClosed reason\<rparr>)"

section \<open>Packets\<close>

definition allocate_sample_pn :: "connection \<Rightarrow> nat \<times> connection" where
  "allocate_sample_pn c = (cn_next_sample_pn c, c\<lparr>cn_next_sample_pn := u64_add (cn_next_sample_pn c) 1\<rparr>)"

definition least_unacked_sample_pn :: "connection \<Rightarrow> nat" where
  "least_unacked_sample_pn c =
     (case List.map_filter (\<lambda>space. case pk_sent_packets (cn_spaces c space) of [] \<Rightarrow> None | x # _ \<Rightarrow> Some (sn_sample_pn (snd x))) space_iter of
        [] \<Rightarrow> cn_next_sample_pn c
      | x # xs \<Rightarrow> fold min xs x)"

definition remove_in_flight :: "nat \<Rightarrow> sent_packet \<Rightarrow> connection \<Rightarrow> connection" where
  "remove_in_flight pn packet c = (case pd_remove_in_flight pn packet (cn_path c) of
      (True, p) \<Rightarrow> c\<lparr>cn_path := p\<rparr>
    | (False, _) \<Rightarrow> (case cn_prev_path c of
          None \<Rightarrow> c
        | Some (cid, prev) \<Rightarrow> c\<lparr>cn_prev_path := Some (cid, snd (pd_remove_in_flight pn packet prev))\<rparr>))"

definition can_send_1rtt :: "nat \<Rightarrow> connection \<Rightarrow> bool" where
  "can_send_1rtt max_size c \<longleftrightarrow> can_send_stream_data (cn_streams c) \<or> pd_challenge_pending (cn_path c)
     \<or> (case cn_prev_path c of Some (_, x) \<Rightarrow> pd_challenge_pending x | None \<Rightarrow> False)
     \<or> cn_path_responses c \<noteq> []
     \<or> (case dq_outgoing (cn_datagrams c) of x # _ \<Rightarrow> dg_size x True \<le> max_size | [] \<Rightarrow> False)"

definition space_can_send :: "space_id \<Rightarrow> nat \<Rightarrow> connection \<Rightarrow> bool \<times> bool" where
  "space_can_send space frame_space_1rtt c =
     (if \<not> pk_has_keys (cn_spaces c space) \<and> (space \<noteq> SpaceData \<or> \<not> cn_zero_rtt_keys c \<or> cn_side c = Server) then (False, False)
      else case pk_can_send (cn_streams c) (cn_spaces c space) of
             (acks, other) \<Rightarrow> (acks, other \<or> space = SpaceData \<and> can_send_1rtt frame_space_1rtt c))"

text \<open>Whether the packet about to be filled will elicit an acknowledgement, as \<^verbatim>\<open>poll_transmit\<close> decides beforehand.\<close>

definition packet_ack_eliciting :: "space_id \<Rightarrow> nat \<Rightarrow> connection \<Rightarrow> bool" where
  "packet_ack_eliciting space frame_space_1rtt c \<longleftrightarrow>
     \<not> pf_is_empty (cn_streams c) (pk_pending (cn_spaces c space)) \<or> pk_ping_pending (cn_spaces c space)
     \<or> pk_immediate_ack_pending (cn_spaces c space) \<or> space = SpaceData \<and> can_send_1rtt frame_space_1rtt c"

definition predict_1rtt_overhead :: "nat \<Rightarrow> connection \<Rightarrow> nat" where
  "predict_1rtt_overhead pn_len c = 1 + length (cq_active (cn_rem_cids c)) + pn_len + tc_tag_len_1rtt (cn_config c)"

definition datagrams_max_size :: "connection \<Rightarrow> nat option" where
  "datagrams_max_size c = dq_max_size (mt_current_mtu (pd_mtud (cn_path c))) (predict_1rtt_overhead 4 c)
     (tc_max_datagram_frame_size (cn_config c))"

end
