(* ===== verification/Recovery.thy ===== *)
theory Recovery
  imports Connection_State
begin

text \<open>
  Loss recovery of a connection (\<^verbatim>\<open>connection/mod.rs\<close>): acknowledgements, the detection of lost packets, the
  loss detection timer with its probe time-outs, the discarding of packet number spaces, and migration.  Every
  function is that of the source; None is a panic.
\<close>

section \<open>Model\<close>

fun opt_fold :: "('a \<Rightarrow> 's \<Rightarrow> 's option) \<Rightarrow> 'a list \<Rightarrow> 's \<Rightarrow> 's option" where
  "opt_fold f [] s = Some s"
| "opt_fold f (x # xs) s = Option.bind (f x s) (opt_fold f xs)"

definition MAX_BACKOFF_EXPONENT :: nat where "MAX_BACKOFF_EXPONENT = 16"

subsection \<open>The loss detection timer\<close>

fun first_min :: "(instant \<times> 'a) list \<Rightarrow> (instant \<times> 'a) option" where
  "first_min [] = None"
| "first_min (x # xs) = (case first_min xs of None \<Rightarrow> Some x | Some y \<Rightarrow> if fst y < fst x then Some y else Some x)"

definition loss_time_and_space :: "connection \<Rightarrow> (instant \<times> space_id) option" where
  "loss_time_and_space c =
     first_min (List.map_filter (\<lambda>space. map_option (\<lambda>t. (t, space)) (pk_loss_time (cn_spaces c space))) space_iter)"

fun pto_scan :: "nat \<Rightarrow> connection \<Rightarrow> space_id list \<Rightarrow> duration \<Rightarrow> (instant \<times> space_id) option \<Rightarrow> (instant \<times> space_id) option" where
  "pto_scan backoff c [] duration result = result"
| "pto_scan backoff c (space # spaces) duration result =
     (if pk_in_flight (cn_spaces c space) = 0 then pto_scan backoff c spaces duration result
      else if space = SpaceData \<and> cn_state c = StHandshake then result
      else let duration = (if space = SpaceData then duration + max_ack_delay_for_pto (cn_ack_frequency c) * backoff else duration) in
        case pk_time_of_last_ack_eliciting_packet (cn_spaces c space) of
          None \<Rightarrow> pto_scan backoff c spaces duration result
        | Some last_ack_eliciting \<Rightarrow>
            let pto = last_ack_eliciting + duration in
            pto_scan backoff c spaces duration
              (if (case result of None \<Rightarrow> True | Some (earliest_pto, _) \<Rightarrow> pto < earliest_pto) then Some (pto, space) else result))"

definition pto_time_and_space :: "instant \<Rightarrow> connection \<Rightarrow> (instant \<times> space_id) option" where
  "pto_time_and_space now c =
     (let backoff = 2 ^ min (cn_pto_count c) MAX_BACKOFF_EXPONENT;
          duration = pto_base (pd_rtt (cn_path c)) * backoff
      in if if_ack_eliciting (pd_in_flight (cn_path c)) = 0
         then Some (now + duration, if cn_highest_space c = SpaceHandshake then SpaceHandshake else SpaceInitial)
         else pto_scan backoff c space_iter duration None)"

definition peer_completed_address_validation :: "connection \<Rightarrow> bool" where
  "peer_completed_address_validation c \<longleftrightarrow> cn_side c = Server \<or> cn_is_closed c
     \<or> pk_largest_acked_packet (cn_spaces c SpaceHandshake) \<noteq> None
     \<or> pk_largest_acked_packet (cn_spaces c SpaceData) \<noteq> None
     \<or> pk_has_keys (cn_spaces c SpaceData) \<and> \<not> pk_has_keys (cn_spaces c SpaceHandshake)"

definition set_loss_detection_timer :: "instant \<Rightarrow> connection \<Rightarrow> connection" where
  "set_loss_detection_timer now c =
     (if cn_is_closed c then c
      else case loss_time_and_space c of
        Some (loss_time, _) \<Rightarrow> set_timer LossDetection loss_time c
      | None \<Rightarrow>
          if anti_amplification_blocked 1 (cn_path c) then stop_timer LossDetection c
          else if if_ack_eliciting (pd_in_flight (cn_path c)) = 0 \<and> peer_completed_address_validation c then stop_timer LossDetection c
          else case pto_time_and_space now c of
                 Some (timeout, _) \<Rightarrow> set_timer LossDetection timeout c
               | None \<Rightarrow> stop_timer LossDetection c)"

subsection \<open>Lost packets\<close>

fun space_rank :: "space_id \<Rightarrow> nat" where
  "space_rank SpaceInitial = 0"
| "space_rank SpaceHandshake = 1"
| "space_rank SpaceData = 2"

definition sent_before :: "space_id \<times> nat \<Rightarrow> space_id \<times> nat \<Rightarrow> bool" where
  "sent_before x y \<longleftrightarrow> space_rank (fst x) < space_rank (fst y) \<or> fst x = fst y \<and> snd x < snd y"

record loss_scan =
  ls_lost_packets :: "nat list"
  ls_lost_mtu_probe :: "nat option"
  ls_size_of_lost_packets :: nat
  ls_persistent_congestion_start :: "instant option"
  ls_prev_packet :: "nat option"
  ls_in_persistent_congestion :: bool
  ls_loss_time :: "instant option"

definition ls_start :: loss_scan where
  "ls_start = \<lparr>ls_lost_packets = [], ls_lost_mtu_probe = None, ls_size_of_lost_packets = 0, ls_persistent_congestion_start = None,
     ls_prev_packet = None, ls_in_persistent_congestion = False, ls_loss_time = None\<rparr>"

text \<open>The values that are fixed during a scan.\<close>

record loss_params =
  lp_in_flight_mtu_probe :: "nat option"
  lp_loss_delay :: duration
  lp_lost_send_time :: instant
  lp_largest_acked_packet :: nat
  lp_packet_threshold :: nat
  lp_congestion_period :: duration
  lp_due_to_ack :: bool
  lp_pn_space :: space_id
  lp_first_packet_after_rtt_sample :: "(space_id \<times> nat) option"

definition deemed_lost :: "loss_params \<Rightarrow> nat \<Rightarrow> sent_packet \<Rightarrow> bool" where
  "deemed_lost l packet info \<longleftrightarrow> sn_time_sent info \<le> lp_lost_send_time l
     \<or> u64_add packet (lp_packet_threshold l) \<le> lp_largest_acked_packet l"

definition scan_packet :: "loss_params \<Rightarrow> nat \<times> sent_packet \<Rightarrow> loss_scan \<Rightarrow> loss_scan" where
  "scan_packet l = (\<lambda>(packet, info) s.
     let s = (if ls_prev_packet s \<noteq> Some (u64_sub packet 1) then s\<lparr>ls_persistent_congestion_start := None\<rparr> else s);
         s = (if deemed_lost l packet info
              then if Some packet = lp_in_flight_mtu_probe l then s\<lparr>ls_lost_mtu_probe := lp_in_flight_mtu_probe l\<rparr>
                   else let s = s\<lparr>ls_lost_packets := ls_lost_packets s @ [packet],
                                  ls_size_of_lost_packets := u64_add (ls_size_of_lost_packets s) (sn_size info)\<rparr> in
                     if sn_ack_eliciting info \<and> lp_due_to_ack l
                     then case ls_persistent_congestion_start s of
                            Some start \<Rightarrow> if lp_congestion_period l < sn_time_sent info - start
                                          then s\<lparr>ls_in_persistent_congestion := True\<rparr> else s
                          | None \<Rightarrow> if (case lp_first_packet_after_rtt_sample l of Some x \<Rightarrow> sent_before x (lp_pn_space l, packet) | None \<Rightarrow> False)
                                    then s\<lparr>ls_persistent_congestion_start := Some (sn_time_sent info)\<rparr> else s
                     else s
              else let next_loss_time = sn_time_sent info + lp_loss_delay l in
                   s\<lparr>ls_loss_time := Some (case ls_loss_time s of None \<Rightarrow> next_loss_time | Some x \<Rightarrow> min x next_loss_time),
                     ls_persistent_congestion_start := None\<rparr>)
     in s\<lparr>ls_prev_packet := Some packet\<rparr>)"

definition loss_params_of :: "instant \<Rightarrow> space_id \<Rightarrow> bool \<Rightarrow> connection \<Rightarrow> loss_params option" where
  "loss_params_of now pn_space due_to_ack c = do {
     let loss_delay = max (tc_mul_time_threshold (cn_config c) (re_conservative (pd_rtt (cn_path c)))) TIMER_GRANULARITY;
     lost_send_time \<leftarrow> checked_sub now loss_delay;
     largest_acked \<leftarrow> pk_largest_acked_packet (cn_spaces c pn_space);
     Some \<lparr>lp_in_flight_mtu_probe = in_flight_mtu_probe (pd_mtud (cn_path c)), lp_loss_delay = loss_delay,
       lp_lost_send_time = lost_send_time, lp_largest_acked_packet = largest_acked,
       lp_packet_threshold = tc_packet_threshold (cn_config c),
       lp_congestion_period = cn_pto SpaceData c * tc_persistent_congestion_threshold (cn_config c),
       lp_due_to_ack = due_to_ack, lp_pn_space = pn_space,
       lp_first_packet_after_rtt_sample = pd_first_packet_after_rtt_sample (cn_path c)\<rparr>
   }"

definition scan_losses :: "loss_params \<Rightarrow> packet_map \<Rightarrow> loss_scan" where
  "scan_losses l sent = fold (scan_packet l) (filter (\<lambda>x. fst x < lp_largest_acked_packet l) sent) ls_start"

text \<open>What happens to each lost packet.\<close>

definition lose_packet :: "instant \<Rightarrow> space_id \<Rightarrow> nat \<Rightarrow> connection \<Rightarrow> connection option" where
  "lose_packet now pn_space packet c = (case pk_take packet (cn_spaces c pn_space) of
      (None, _) \<Rightarrow> None
    | (Some info, k) \<Rightarrow>
        let c = upd_space pn_space (\<lambda>_. k) c;
            c = (if sn_ack_eliciting info then upd_path (pd_call (CcOnPacketLost now (sn_sample_pn info) (sn_size info))) c else c);
            c = remove_in_flight packet info c;
            c = c\<lparr>cn_streams := fold st_retransmit (sn_stream_frames info) (cn_streams c)\<rparr>;
            c = upd_space pn_space (\<lambda>k. k\<lparr>pk_pending := pf_merge_thin (pk_pending k) (sn_retransmits info)\<rparr>) c
        in Some (upd_path (\<lambda>p. p\<lparr>pd_mtud := mt_on_non_probe_lost packet (sn_size info) (pd_mtud p)\<rparr>) c))"

definition check_black_hole :: "instant \<Rightarrow> connection \<Rightarrow> connection" where
  "check_black_hole now c = (case mt_black_hole_detected now (pd_mtud (cn_path c)) of
      (detected, m) \<Rightarrow>
        let c = upd_path (\<lambda>p. p\<lparr>pd_mtud := m\<rparr>) c in
        if detected
        then let c = upd_stats (\<lambda>s. s\<lparr>ps_black_holes_detected := u64_add (ps_black_holes_detected s) 1\<rparr>) c;
                 c = upd_path (pd_call (CcOnMtuUpdate (mt_current_mtu m))) c
             in case datagrams_max_size c of
                  Some max_datagram_size \<Rightarrow> c\<lparr>cn_datagrams := drop_oversized max_datagram_size (cn_datagrams c)\<rparr>
                | None \<Rightarrow> c
        else c)"

text \<open>\<^verbatim>\<open>OnPacketsLost\<close>, with the result of the scan.\<close>

definition on_packets_lost :: "instant \<Rightarrow> space_id \<Rightarrow> loss_scan \<Rightarrow> connection \<Rightarrow> connection option" where
  "on_packets_lost now pn_space s c =
     (if ls_lost_packets s = [] then Some c
      else do {
        let old_bytes_in_flight = if_bytes (pd_in_flight (cn_path c));
        largest_lost \<leftarrow> map_of (pk_sent_packets (cn_spaces c pn_space)) (last (ls_lost_packets s));
        let n = length (ls_lost_packets s);
        let c = c\<lparr>cn_lost_packets := u64_add (cn_lost_packets c) n\<rparr>;
        let c = upd_stats (\<lambda>t. t\<lparr>ps_lost_packets := u64_add (ps_lost_packets t) n,
                  ps_lost_bytes := u64_add (ps_lost_bytes t) (ls_size_of_lost_packets s)\<rparr>) c;
        c \<leftarrow> opt_fold (lose_packet now pn_space) (ls_lost_packets s) c;
        let c = check_black_hole now c;
        Some (if old_bytes_in_flight \<noteq> if_bytes (pd_in_flight (cn_path c))
              then upd_path (pd_call (CcOnCongestionEvent now (sn_time_sent largest_lost) (ls_in_persistent_congestion s) (ls_size_of_lost_packets s)))
                     (upd_stats (\<lambda>t. t\<lparr>ps_congestion_events := u64_add (ps_congestion_events t) 1\<rparr>) c)
              else c)
      })"

definition on_mtu_probe_lost :: "loss_scan \<Rightarrow> connection \<Rightarrow> connection option" where
  "on_mtu_probe_lost s c = (case ls_lost_mtu_probe s of
      None \<Rightarrow> Some c
    | Some packet \<Rightarrow> (case pk_take packet (cn_spaces c SpaceData) of
          (None, _) \<Rightarrow> None
        | (Some info, k) \<Rightarrow>
            let c = upd_space SpaceData (\<lambda>_. k) c;
                c = upd_path (pd_call (CcOnPacketAbandoned (sn_sample_pn info) (sn_size info))) c;
                c = remove_in_flight packet info c;
                c = upd_path (\<lambda>p. p\<lparr>pd_mtud := mt_on_probe_lost (pd_mtud p)\<rparr>) c
            in Some (upd_stats (\<lambda>t. t\<lparr>ps_lost_plpmtud_probes := u64_add (ps_lost_plpmtud_probes t) 1\<rparr>) c)))"

definition detect_lost_packets :: "instant \<Rightarrow> space_id \<Rightarrow> bool \<Rightarrow> connection \<Rightarrow> connection option" where
  "detect_lost_packets now pn_space due_to_ack c = do {
     l \<leftarrow> loss_params_of now pn_space due_to_ack c;
     let s = scan_losses l (pk_sent_packets (cn_spaces c pn_space));
     let c = upd_space pn_space (\<lambda>k. k\<lparr>pk_loss_time := ls_loss_time s\<rparr>) c;
     c \<leftarrow> on_packets_lost now pn_space s c;
     on_mtu_probe_lost s c
   }"

definition on_loss_detection_timeout :: "instant \<Rightarrow> connection \<Rightarrow> connection option" where
  "on_loss_detection_timeout now c = (case loss_time_and_space c of
      Some (_, pn_space) \<Rightarrow> map_option (set_loss_detection_timer now) (detect_lost_packets now pn_space False c)
    | None \<Rightarrow> (case pto_time_and_space now c of
          None \<Rightarrow> Some c
        | Some (_, space) \<Rightarrow>
            let count = (if if_ack_eliciting (pd_in_flight (cn_path c)) = 0 then 1 else 2);
                c = upd_space space (\<lambda>k. k\<lparr>pk_loss_probes := min (pk_loss_probes k + count) (2 ^ 32 - 1)\<rparr>) c;
                c = c\<lparr>cn_pto_count := min (cn_pto_count c + 1) (2 ^ 32 - 1)\<rparr>
            in Some (set_loss_detection_timer now c)))"

subsection \<open>Acknowledgements\<close>

text \<open>The new acknowledgements of the ranges, unless a number that was skipped is among them.\<close>

fun newly_acked :: "space_id \<Rightarrow> connection \<Rightarrow> (u64 \<times> u64) list \<Rightarrow> array_range_set \<Rightarrow> transport_error + array_range_set" where
  "newly_acked space c [] acked = Inr acked"
| "newly_acked space c (r # rs) acked =
     (case nf_check_ack space (unat (fst r), unat (snd r)) (cn_packet_number_filter c) of
        Some e \<Rightarrow> Inl e
      | None \<Rightarrow> newly_acked space c rs
          (fold (\<lambda>x s. snd (array_insert_one s (fst x)))
             (filter (\<lambda>x. unat (fst r) \<le> fst x \<and> fst x \<le> unat (snd r)) (pk_sent_packets (cn_spaces c space))) acked))"

definition acked_reset_streams :: "sent_packet \<Rightarrow> stream_id list" where
  "acked_reset_streams info = (case sn_retransmits info of Some f \<Rightarrow> map fst (rt_reset_stream (pf_streams f)) | None \<Rightarrow> [])"

definition on_packet_acked :: "instant \<Rightarrow> nat \<Rightarrow> sent_packet \<Rightarrow> connection \<Rightarrow> connection option" where
  "on_packet_acked now pn info c = do {
     let c = remove_in_flight pn info c;
     let c = (if sn_ack_eliciting info
              then if pd_challenge (cn_path c) = None
                   then upd_path (\<lambda>p. pd_call (CcOnAck now (sn_time_sent info) (sn_size info) (cn_app_limited c) (pd_rtt p) (sn_sample_pn info)) p) c
                   else upd_path (pd_call (CcOnPacketNeutered (sn_sample_pn info))) c
              else c);
     s \<leftarrow> opt_fold reset_acked (acked_reset_streams info) (cn_streams c);
     s \<leftarrow> opt_fold received_ack_of (sn_stream_frames info) s;
     Some (c\<lparr>cn_streams := s\<rparr>)
   }"

definition ack_packet :: "instant \<Rightarrow> space_id \<Rightarrow> nat \<Rightarrow> bool \<times> connection \<Rightarrow> (bool \<times> connection) option" where
  "ack_packet now space packet = (\<lambda>(ack_eliciting_acked, c). case pk_take packet (cn_spaces c space) of
      (None, _) \<Rightarrow> Some (ack_eliciting_acked, c)
    | (Some info, k) \<Rightarrow>
        let c = upd_space space (\<lambda>_. k) c;
            c = (case sn_largest_acked info of
                   Some acked \<Rightarrow> upd_space space (\<lambda>k. k\<lparr>pk_pending_acks := subtract_below acked (pk_pending_acks k)\<rparr>) c
                 | None \<Rightarrow> c);
            (mtu_updated, m) = mt_on_acked (space = SpaceData) packet (sn_size info) (pd_mtud (cn_path c));
            c = upd_path (\<lambda>p. p\<lparr>pd_mtud := m\<rparr>) c;
            c = (if mtu_updated then upd_path (pd_call (CcOnMtuUpdate (mt_current_mtu m))) c else c);
            c = c\<lparr>cn_ack_frequency := fs_on_acked packet (cn_ack_frequency c)\<rparr>
        in map_option (\<lambda>c. (ack_eliciting_acked \<or> sn_ack_eliciting info, c)) (on_packet_acked now packet info c))"

definition update_largest_acked :: "space_id \<Rightarrow> nat \<Rightarrow> connection \<Rightarrow> bool \<times> connection" where
  "update_largest_acked space largest c =
     (let k = cn_spaces c space in
      if (case pk_largest_acked_packet k of None \<Rightarrow> True | Some pn \<Rightarrow> pn < largest)
      then (True, upd_space space (\<lambda>k. case map_of (pk_sent_packets k) largest of
                Some info \<Rightarrow> k\<lparr>pk_largest_acked_packet := Some largest, pk_largest_acked_packet_sent := sn_time_sent info\<rparr>
              | None \<Rightarrow> k\<lparr>pk_largest_acked_packet := Some largest\<rparr>) c)
      else (False, c))"

definition update_rtt :: "instant \<Rightarrow> space_id \<Rightarrow> ack \<Rightarrow> connection \<Rightarrow> connection" where
  "update_rtt now space ack c =
     (let delay = (if space \<noteq> SpaceData then 0
                   else min (fs_peer_max_ack_delay (cn_ack_frequency c))
                          (unat (push_bit (tc_ack_delay_exponent (cn_config c)) (ack_delay ack)) * 1000));
          rtt = now - pk_largest_acked_packet_sent (cn_spaces c space);
          c = upd_path (\<lambda>p. p\<lparr>pd_rtt := re_update delay rtt (pd_rtt p)\<rparr>) c
      in if pd_first_packet_after_rtt_sample (cn_path c) = None
         then upd_path (\<lambda>p. p\<lparr>pd_first_packet_after_rtt_sample := Some (space, pk_next_packet_number (cn_spaces c space))\<rparr>) c
         else c)"

definition process_ecn :: "instant \<Rightarrow> space_id \<Rightarrow> nat \<Rightarrow> ecn_counts \<Rightarrow> instant \<Rightarrow> connection \<Rightarrow> connection" where
  "process_ecn now space acked_count ecn largest_sent_time c = (case detect_ecn acked_count ecn (cn_spaces c space) of
      (Inl _, k) \<Rightarrow> upd_space space (\<lambda>_. k\<lparr>pk_ecn_feedback := ecn_ZERO\<rparr>) (upd_path (\<lambda>p. p\<lparr>pd_sending_ecn := False\<rparr>) c)
    | (Inr False, k) \<Rightarrow> upd_space space (\<lambda>_. k) c
    | (Inr True, k) \<Rightarrow> upd_path (pd_call (CcOnCongestionEvent now largest_sent_time False 0))
        (upd_stats (\<lambda>t. t\<lparr>ps_congestion_events := u64_add (ps_congestion_events t) 1\<rparr>) (upd_space space (\<lambda>_. k) c)))"

definition ack_ecn_step :: "instant \<Rightarrow> space_id \<Rightarrow> bool \<Rightarrow> array_range_set \<Rightarrow> ack \<Rightarrow> connection \<Rightarrow> connection" where
  "ack_ecn_step now space new_largest acked ack c =
     (if pd_sending_ecn (cn_path c)
      then case ack_ecn ack of
             Some ecn \<Rightarrow> if new_largest
               then process_ecn now space (length acked) ecn (pk_largest_acked_packet_sent (cn_spaces c space)) c
               else c
           | None \<Rightarrow> upd_path (\<lambda>p. p\<lparr>pd_sending_ecn := False\<rparr>) c
      else c)"

text \<open>What follows once the new acknowledgements are known.\<close>

definition on_newly_acked :: "instant \<Rightarrow> space_id \<Rightarrow> bool \<Rightarrow> array_range_set \<Rightarrow> ack \<Rightarrow> connection \<Rightarrow> connection option" where
  "on_newly_acked now space new_largest acked ack c = do {
     (ack_eliciting_acked, c) \<leftarrow> opt_fold (ack_packet now space) (array_elts acked) (False, c);
     let c = (if new_largest \<and> ack_eliciting_acked then update_rtt now space ack c else c);
     c \<leftarrow> detect_lost_packets now space True c;
     let c = upd_path (pd_call (CcOnEndAcks now (if_bytes (pd_in_flight (cn_path c))) (cn_app_limited c)
               (pk_largest_acked_packet (cn_spaces c space)))) c;
     let c = upd_path (pd_call (CcOnLeastUnacked (least_unacked_sample_pn c))) c;
     let c = (if peer_completed_address_validation c then c\<lparr>cn_pto_count := 0\<rparr> else c);
     let c = ack_ecn_step now space new_largest acked ack c;
     Some (set_loss_detection_timer now c)
   }"

definition on_ack_received :: "instant \<Rightarrow> space_id \<Rightarrow> ack \<Rightarrow> (connection, transport_error failure, unit) op" where
  "on_ack_received now space ack c =
     (if pk_next_packet_number (cn_spaces c space) \<le> unat (ack_largest ack)
      then (Inl (Err (PROTOCOL_VIOLATION ''unsent packet acked'')), c)
      else case update_largest_acked space (unat (ack_largest ack)) c of
        (new_largest, c) \<Rightarrow> (case newly_acked space c (ack_iter (ack_largest ack) (ack_additional ack)) [] of
            Inl e \<Rightarrow> (Inl (Err e), c)
          | Inr acked \<Rightarrow>
              if acked = [] then (Inr (), c)
              else case on_newly_acked now space new_largest acked ack c of
                     None \<Rightarrow> (Inl Panic, c)
                   | Some c \<Rightarrow> (Inr (), c)))"

subsection \<open>Packets sent\<close>

record sent_frames =
  sn_frames_retransmits :: thin_retransmits
  sn_frames_largest_acked :: "nat option"
  sn_frames_stream_frames :: "stream_meta list"
  sn_frames_non_retransmits :: bool
  sn_frames_requires_padding :: bool

definition sent_frames_default :: sent_frames where
  "sent_frames_default = \<lparr>sn_frames_retransmits = None, sn_frames_largest_acked = None, sn_frames_stream_frames = [],
     sn_frames_non_retransmits = False, sn_frames_requires_padding = False\<rparr>"

text \<open>\<^verbatim>\<open>PacketBuilder::finish_and_track\<close>, given the length of the finished packet and whether it was padded.\<close>

definition finish_and_track :: "instant \<Rightarrow> space_id \<Rightarrow> nat \<Rightarrow> nat \<Rightarrow> bool \<Rightarrow> nat \<times> bool \<Rightarrow> sent_frames option \<Rightarrow> connection \<Rightarrow> connection option" where
  "finish_and_track now space exact_number sample_pn ack_eliciting finished sent c = (case sent of
      None \<Rightarrow> Some c
    | Some sent \<Rightarrow> do {
        let size = (if snd finished \<or> ack_eliciting then fst finished mod 2 ^ 16 else 0);
        (p, k) \<leftarrow> pd_sent exact_number \<lparr>sn_time_sent = now, sn_sample_pn = sample_pn, sn_size = size, sn_ack_eliciting = ack_eliciting,
            sn_largest_acked = sn_frames_largest_acked sent, sn_retransmits = sn_frames_retransmits sent,
            sn_stream_frames = sn_frames_stream_frames sent\<rparr> (cn_path c, cn_spaces c space);
        let c = upd_space space (\<lambda>_. k) (c\<lparr>cn_path := p\<rparr>);
        let c = (if size \<noteq> 0 then upd_path (pd_call (CcOnSent now size sample_pn ack_eliciting)) c else c);
        let c = upd_stats (\<lambda>t. t\<lparr>ps_sent_packets := u64_add (ps_sent_packets t) 1\<rparr>) c;
        let c = reset_keep_alive now c;
        Some (if size \<noteq> 0
              then let c = (if ack_eliciting
                            then let c = upd_space space (\<lambda>k. k\<lparr>pk_time_of_last_ack_eliciting_packet := Some now\<rparr>) c;
                                     c = (if cn_permit_idle_reset c then reset_idle_timeout now space c else c)
                                 in c\<lparr>cn_permit_idle_reset := False\<rparr>
                            else c)
                   in set_loss_detection_timer now c
              else c)
      })"

subsection \<open>Spaces and paths\<close>

definition discard_space :: "instant \<Rightarrow> space_id \<Rightarrow> connection \<Rightarrow> connection" where
  "discard_space now space c =
     (let sent = pk_sent_packets (cn_spaces c space);
          c = upd_space space (\<lambda>k. k\<lparr>pk_has_keys := False, pk_time_of_last_ack_eliciting_packet := None, pk_loss_time := None,
                pk_in_flight := 0, pk_sent_packets := []\<rparr>) c;
          c = fold (\<lambda>(pn, packet) c. remove_in_flight pn packet
                (upd_path (pd_call (CcOnPacketAbandoned (sn_sample_pn packet) (sn_size packet))) c)) sent c
      in set_loss_detection_timer now c)"

text \<open>The tokens of the challenges are random numbers.\<close>

definition same_ipv4 :: "socket_addr \<Rightarrow> socket_addr \<Rightarrow> bool" where
  "same_ipv4 a b = (case (a, b) of (V4 x _, V4 y _) \<Rightarrow> x = y | _ \<Rightarrow> False)"

definition migrate :: "instant \<Rightarrow> socket_addr \<Rightarrow> nat \<Rightarrow> nat \<Rightarrow> connection \<Rightarrow> connection" where
  "migrate now remote token prev_token c =
     (let new_path = (if same_ipv4 remote (pd_remote (cn_path c)) then pd_from_previous remote (cn_path c)
                      else pd_new remote (tc_allow_mtud (cn_config c)) (Some (min (tc_max_udp_payload_size (cn_config c)) 65535)) (tc_path (cn_config c)));
          new_path = new_path\<lparr>pd_challenge := Some token, pd_challenge_pending := True\<rparr>;
          prev_pto = cn_pto SpaceData c;
          prev = cn_path c;
          c = c\<lparr>cn_path := new_path\<rparr>;
          c = (if pd_challenge prev = None
               then c\<lparr>cn_prev_path := Some (cq_active (cn_rem_cids c), prev\<lparr>pd_challenge := Some prev_token, pd_challenge_pending := True\<rparr>)\<rparr>
               else c)
      in set_timer PathValidation (now + 3 * max (cn_pto SpaceData c) prev_pto) c)"

text \<open>The time-out of path validation.\<close>

definition on_path_validation_timeout :: "connection \<Rightarrow> connection" where
  "on_path_validation_timeout c =
     (let c = (case cn_prev_path c of Some (_, prev) \<Rightarrow> c\<lparr>cn_path := prev, cn_prev_path := None\<rparr> | None \<Rightarrow> c)
      in upd_path (\<lambda>p. p\<lparr>pd_challenge := None, pd_challenge_pending := False\<rparr>) c)"

end
