(* ===== verification/Recovery_Inv.thy ===== *)
theory Recovery_Inv
  imports Recovery
begin

text \<open>
  The invariant of loss recovery: what each space and the path count as in flight is what the packets tracked add
  up to, and the stream frames of these packets are exactly those that the streams consider in flight.
  Acknowledging and losing packets keep it and do not panic.
\<close>

section \<open>Streams under many acknowledgements\<close>

lemma fin_ok_mset: "mset ms = mset ms' \<Longrightarrow> fin_ok ms t = fin_ok ms' t"
  using mset_eq_setD [of ms ms'] by (simp add: fin_ok_def)

lemma streams_ok_mset:
  assumes "streams_ok w fl s" "mset fl = mset fl'"
  shows "streams_ok w fl' s"
proof -
  have m: "mset (metas_of sid fl') = mset (metas_of sid fl)" "mset (flight_of sid fl') = mset (flight_of sid fl)" for sid
    using assms(2) by (simp_all add: metas_of_def flight_of_def mset_map)
  have "flight_of sid fl' = [] \<longleftrightarrow> flight_of sid fl = []" for sid using m(2) [of sid] by (metis mset_zero_iff)
  moreover have "tx_ok sid b fl' t" if "tx_ok sid b fl t" for sid b t
    using that sy_inv_mset [OF _ m(2) [symmetric]] fin_ok_mset [OF m(1)] unfolding tx_ok_def by blast
  ultimately show ?thesis using assms(1) unfolding streams_ok_def send_ok_def by blast
qed

text \<open>Each stream that is closed lets the peer open another, so the room for stream identifiers shrinks with every
  acknowledgement.\<close>

definition ids_room :: "nat \<Rightarrow> streams_state \<Rightarrow> bool" where
  "ids_room n s \<longleftrightarrow> (\<forall>d. st_max_remote s d + Suc n * st_max_concurrent_remote_count s d \<le> 2 ^ 60)"

definition ids_grow :: "streams_state \<Rightarrow> streams_state \<Rightarrow> bool" where
  "ids_grow s s' \<longleftrightarrow> st_max_concurrent_remote_count s' = st_max_concurrent_remote_count s
     \<and> (\<forall>d. st_max_remote s' d \<le> st_max_remote s d + st_max_concurrent_remote_count s d)"

lemma ids_room_left: "ids_room n s \<Longrightarrow> ids_left s"
proof -
  have "a + b \<le> a + Suc n * b" for a b :: nat by simp
  then show "ids_room n s \<Longrightarrow> ids_left s" unfolding ids_room_def ids_left_def by (blast intro: order_trans)
qed

lemma ids_room_grow: "ids_room (Suc n) s \<Longrightarrow> ids_grow s s' \<Longrightarrow> ids_room n s'"
  unfolding ids_room_def ids_grow_def
proof (intro allI, elim conjE)
  fix d
  assume a: "\<forall>d. st_max_remote s d + Suc (Suc n) * st_max_concurrent_remote_count s d \<le> 2 ^ 60"
    and c: "st_max_concurrent_remote_count s' = st_max_concurrent_remote_count s"
    and g: "\<forall>d. st_max_remote s' d \<le> st_max_remote s d + st_max_concurrent_remote_count s d"
  show "st_max_remote s' d + Suc n * st_max_concurrent_remote_count s' d \<le> 2 ^ 60"
    using spec [OF a, of d] spec [OF g, of d] unfolding c by simp
qed

lemma ids_room_mono: "ids_room n s \<Longrightarrow> m \<le> n \<Longrightarrow> ids_room m s"
  unfolding ids_room_def by (meson add_left_mono le_trans mult_le_mono1 Suc_le_mono)

lemma st_insert_limits:
  "st_insert remote sid s = Some s' \<Longrightarrow> st_max_remote s' = st_max_remote s \<and> st_max_concurrent_remote_count s' = st_max_concurrent_remote_count s
     \<and> st_allocated_remote_count s' = st_allocated_remote_count s"
  by (auto simp: st_insert_def Let_def split: if_splits option.splits list.splits)

lemma insert_remotes_limits:
  "insert_remotes d is s = Some s' \<Longrightarrow> st_max_remote s' = st_max_remote s \<and> st_max_concurrent_remote_count s' = st_max_concurrent_remote_count s
     \<and> st_allocated_remote_count s' = st_allocated_remote_count s"
  by (induction "is" arbitrary: s) (auto simp: bind_eq_Some_conv dest!: st_insert_limits)

lemma stream_freed_grow: "stream_freed sid half s = Some s' \<Longrightarrow> ids_grow s s'"
proof -
  have add: "u64_add a b \<le> a + b" for a b by (simp add: u64_add_def)
  have le: "st_max_remote s d + (st_max_concurrent_remote_count s d - x) \<le> st_max_remote s d + st_max_concurrent_remote_count s d" for d x by simp
  assume "stream_freed sid half s = Some s'"
  then show ?thesis
    by (auto simp: stream_freed_def ensure_remote_streams_def Let_def bind_eq_Some_conv ids_grow_def
        dest!: insert_remotes_limits split: if_splits intro: order_trans [OF add le])
qed

lemma reset_acked_grow: "reset_acked sid s = Some s' \<Longrightarrow> ids_grow s s'"
  by (auto simp: reset_acked_def ids_grow_def split: option.splits if_splits dest!: stream_freed_grow)

lemma received_ack_of_grow: "received_ack_of f s = Some s' \<Longrightarrow> ids_grow s s'"
  by (auto simp: received_ack_of_def ids_grow_def Let_def put_send_def bind_eq_Some_conv
      split: option.splits if_splits bool.splits dest!: stream_freed_grow)

lemma reset_acks_ok:
  assumes "streams_ok w fl s" "ids_room (length ids + n) s"
  shows "\<exists>s'. opt_fold reset_acked ids s = Some s' \<and> streams_ok w fl s' \<and> ids_room n s'"
  using assms
proof (induction ids arbitrary: s)
  case (Cons sid ids)
  obtain s1 where s1: "reset_acked sid s = Some s1" "streams_ok w fl s1"
    using reset_acked_ok [OF Cons.prems(1) ids_room_left [OF Cons.prems(2)]] by blast
  then have "ids_room (length ids + n) s1" using ids_room_grow [OF _ reset_acked_grow [OF s1(1)]] Cons.prems(2) by simp
  then show ?case using Cons.IH [OF s1(2)] s1(1) by simp
qed simp

lemma frame_acks_ok:
  assumes "streams_ok w (fs @ fl) s" "ids_room (length fs + n) s"
  shows "\<exists>s'. opt_fold received_ack_of fs s = Some s' \<and> streams_ok w fl s' \<and> ids_room n s'"
  using assms
proof (induction fs arbitrary: s)
  case (Cons f fs)
  obtain s1 where s1: "received_ack_of f s = Some s1" "streams_ok w (fs @ fl) s1"
    using received_ack_of_ok [OF Cons.prems(1) ids_room_left [OF Cons.prems(2)], of f] by auto
  then have "ids_room (length fs + n) s1" using ids_room_grow [OF _ received_ack_of_grow [OF s1(1)]] Cons.prems(2) by simp
  then show ?case using Cons.IH [OF s1(2)] s1(1) by simp
qed simp

lemma frames_lost_ok: "streams_ok w (fs @ fl) s \<Longrightarrow> streams_ok w fl (fold st_retransmit fs s)"
proof (induction fs arbitrary: s)
  case (Cons f fs)
  then show ?case using st_retransmit_ok [OF Cons.prems, of f] by simp
qed simp

lemma st_retransmit_limits:
  "st_max_remote (st_retransmit f s) = st_max_remote s" "st_max_concurrent_remote_count (st_retransmit f s) = st_max_concurrent_remote_count s"
  by (auto simp: st_retransmit_def Let_def put_send_def split: option.splits)

lemma frames_lost_room: "ids_room n s \<Longrightarrow> ids_room n (fold st_retransmit fs s)"
  by (induction fs arbitrary: s) (auto simp: ids_room_def st_retransmit_limits)

section \<open>The invariant\<close>

text \<open>Spaces in use: their tail of packets that elicit no acknowledgement is counted.  A discarded space is not used
  again.\<close>

definition live :: "connection \<Rightarrow> space_id \<Rightarrow> bool" where
  "live c sp \<longleftrightarrow> sp = SpaceData \<or> pk_has_keys (cn_spaces c sp) \<or> space_rank (cn_highest_space c) < space_rank sp"

definition packet_ok :: "space_id \<Rightarrow> packet_space \<Rightarrow> sent_packet \<Rightarrow> bool" where
  "packet_ok sp k p \<longleftrightarrow> (sn_stream_frames p \<noteq> [] \<longrightarrow> sp = SpaceData \<and> sn_ack_eliciting p)
     \<and> (sn_ack_eliciting p \<longrightarrow> 0 < sn_size p \<and> pk_time_of_last_ack_eliciting_packet k \<noteq> None)"

definition space_ok :: "connection \<Rightarrow> space_id \<Rightarrow> bool" where
  "space_ok c sp \<longleftrightarrow> pk_ok (cn_spaces c sp) \<and> (live c sp \<longrightarrow> pk_tail_ok (cn_spaces c sp))
     \<and> (\<forall>x\<in>set (pk_sent_packets (cn_spaces c sp)). packet_ok sp (cn_spaces c sp) (snd x))
     \<and> (pk_loss_time (cn_spaces c sp) \<noteq> None \<longrightarrow> pk_largest_acked_packet (cn_spaces c sp) \<noteq> None)"

definition tracked :: "(packet_map \<Rightarrow> nat) \<Rightarrow> connection \<Rightarrow> nat" where
  "tracked f c = f (pk_sent_packets (cn_spaces c SpaceInitial)) + f (pk_sent_packets (cn_spaces c SpaceHandshake))
     + f (pk_sent_packets (cn_spaces c SpaceData))"

text \<open>The connection stays on its first path, whose first packet is the Initial packet numbered zero.\<close>

definition path_ok :: "connection \<Rightarrow> bool" where
  "path_ok c \<longleftrightarrow> cn_prev_path c = None \<and> if_bytes (pd_in_flight (cn_path c)) = tracked pm_size c
     \<and> if_ack_eliciting (pd_in_flight (cn_path c)) = tracked pm_eliciting c
     \<and> (case pd_first_packet (cn_path c) of
          None \<Rightarrow> (\<forall>sp. pk_sent_packets (cn_spaces c sp) = []) \<and> pk_next_packet_number (cn_spaces c SpaceInitial) = 0
        | Some first \<Rightarrow> first = 0)"

definition probe_ok :: "connection \<Rightarrow> bool" where
  "probe_ok c \<longleftrightarrow> (\<forall>n. in_flight_mtu_probe (pd_mtud (cn_path c)) = Some n \<longrightarrow>
     (\<exists>p. map_of (pk_sent_packets (cn_spaces c SpaceData)) n = Some p \<and> sn_ack_eliciting p \<and> sn_stream_frames p = []))"

definition data_frames :: "connection \<Rightarrow> stream_meta list" where
  "data_frames c = pm_frames (pk_sent_packets (cn_spaces c SpaceData))"

definition cn_ok :: "(stream_id \<Rightarrow> bytes) \<Rightarrow> connection \<Rightarrow> bool" where
  "cn_ok w c \<longleftrightarrow> (\<forall>sp. space_ok c sp) \<and> path_ok c \<and> probe_ok c \<and> streams_ok w (data_frames c) (cn_streams c)
     \<and> nf_ok (cn_packet_number_filter c)"

subsection \<open>What the invariant looks at\<close>

definition pk_view :: "packet_space \<Rightarrow> packet_map \<times> nat list \<times> nat option \<times> instant option list \<times> bool" where
  "pk_view k = (pk_sent_packets k, [pk_in_flight k, pk_next_packet_number k, pk_unacked_non_ack_eliciting_tail k, pk_largest_ack_eliciting_sent k],
     pk_largest_acked_packet k, [pk_loss_time k, pk_time_of_last_ack_eliciting_packet k], pk_has_keys k)"

definition same_tracking :: "connection \<Rightarrow> connection \<Rightarrow> bool" where
  "same_tracking c c' \<longleftrightarrow> (\<forall>sp. pk_view (cn_spaces c' sp) = pk_view (cn_spaces c sp)) \<and> cn_prev_path c' = cn_prev_path c
     \<and> pd_in_flight (cn_path c') = pd_in_flight (cn_path c) \<and> pd_first_packet (cn_path c') = pd_first_packet (cn_path c)
     \<and> cn_highest_space c' = cn_highest_space c \<and> cn_packet_number_filter c' = cn_packet_number_filter c"

lemma pk_view_eq:
  assumes "pk_view k' = pk_view k"
  shows "pk_sent_packets k' = pk_sent_packets k" "pk_in_flight k' = pk_in_flight k" "pk_next_packet_number k' = pk_next_packet_number k"
    "pk_unacked_non_ack_eliciting_tail k' = pk_unacked_non_ack_eliciting_tail k" "pk_largest_ack_eliciting_sent k' = pk_largest_ack_eliciting_sent k"
    "pk_largest_acked_packet k' = pk_largest_acked_packet k" "pk_loss_time k' = pk_loss_time k"
    "pk_time_of_last_ack_eliciting_packet k' = pk_time_of_last_ack_eliciting_packet k" "pk_has_keys k' = pk_has_keys k"
    "pk_ok k' = pk_ok k" "pk_tail_ok k' = pk_tail_ok k"
  using assms by (simp_all add: pk_view_def pk_ok_def pk_tail_ok_def pk_tail_def)

lemma same_tracking_ok:
  assumes "same_tracking c c'"
  shows "space_ok c' sp = space_ok c sp" "path_ok c' = path_ok c" "data_frames c' = data_frames c" "tracked f c' = tracked f c"
proof -
  have v: "pk_view (cn_spaces c' sp) = pk_view (cn_spaces c sp)" for sp using assms by (simp add: same_tracking_def)
  note e = pk_view_eq [OF v]
  have h: "cn_highest_space c' = cn_highest_space c" using assms by (simp add: same_tracking_def)
  show "space_ok c' sp = space_ok c sp" by (simp add: space_ok_def live_def packet_ok_def e h)
  show "data_frames c' = data_frames c" by (simp add: data_frames_def e)
  show "tracked f c' = tracked f c" for f by (simp add: tracked_def e)
  then show "path_ok c' = path_ok c" using assms by (simp add: path_ok_def e same_tracking_def split: option.split)
qed

lemma same_tracking_refl [simp]: "same_tracking c c"
  by (simp add: same_tracking_def)

lemma same_tracking_trans: "same_tracking c c' \<Longrightarrow> same_tracking c' c'' \<Longrightarrow> same_tracking c c''"
  by (simp add: same_tracking_def)

lemma cn_ok_same:
  assumes "cn_ok w c" "same_tracking c c'" "cn_streams c' = cn_streams c" "pd_mtud (cn_path c') = pd_mtud (cn_path c)"
  shows "cn_ok w c'"
proof -
  have "pk_sent_packets (cn_spaces c' sp) = pk_sent_packets (cn_spaces c sp)" for sp
    using assms(2) pk_view_eq(1) unfolding same_tracking_def by blast
  then show ?thesis using assms same_tracking_ok [OF assms(2)] by (simp add: cn_ok_def probe_ok_def same_tracking_def)
qed

section \<open>Taking a packet out\<close>

definition untrack :: "space_id \<Rightarrow> nat \<Rightarrow> sent_packet \<Rightarrow> connection \<Rightarrow> connection" where
  "untrack sp n p c = upd_path (\<lambda>q. q\<lparr>pd_in_flight := if_remove p (pd_in_flight q)\<rparr>)
     (upd_space sp (\<lambda>_. snd (pk_take n (cn_spaces c sp))) c)"

lemma remove_in_flight_first:
  "pd_first_packet (cn_path c) = Some 0 \<Longrightarrow> remove_in_flight n p c = upd_path (\<lambda>q. q\<lparr>pd_in_flight := if_remove p (pd_in_flight q)\<rparr>) c"
  by (simp add: remove_in_flight_def pd_remove_in_flight_def upd_path_def)

lemma path_ok_first: "path_ok c \<Longrightarrow> map_of (pk_sent_packets (cn_spaces c sp)) n = Some p \<Longrightarrow> pd_first_packet (cn_path c) = Some 0"
  by (auto simp: path_ok_def split: option.splits)

lemma tracked_upd:
  assumes "f m = a + f m'" "pk_sent_packets (cn_spaces c sp) = m" "pk_sent_packets (cn_spaces c' sp) = m'"
    "\<And>sp'. sp' \<noteq> sp \<Longrightarrow> pk_sent_packets (cn_spaces c' sp') = pk_sent_packets (cn_spaces c sp')"
  shows "tracked f c = a + tracked f c'"
  using assms by (cases sp) (simp_all add: tracked_def)

lemma untrack_ok:
  assumes ok: "\<forall>sp. space_ok c sp" "path_ok c" and p: "map_of (pk_sent_packets (cn_spaces c sp)) n = Some p"
  shows "\<forall>q. space_ok (untrack sp n p c) q" "path_ok (untrack sp n p c)"
    and "mset (data_frames c) = mset (sn_stream_frames p) + mset (data_frames (untrack sp n p c))"
    and "\<And>sp'. pk_sent_packets (cn_spaces (untrack sp n p c) sp')
      = (if sp' = sp then pm_remove n (pk_sent_packets (cn_spaces c sp)) else pk_sent_packets (cn_spaces c sp'))"
proof -
  let ?k = "cn_spaces c sp"
  have pk: "pk_ok ?k" "live c sp \<Longrightarrow> pk_tail_ok ?k" using ok(1) by (auto simp: space_ok_def)
  have keys: "pm_keys (pk_sent_packets ?k)" using pk(1) by (simp add: pk_ok_def)
  from pk_take_ok [OF pk(1) p] obtain k' where k': "pk_take n ?k = (Some p, k')" "pk_ok k'" "pk_tail_ok ?k \<Longrightarrow> pk_tail_ok k'"
    "pk_sent_packets k' = pm_remove n (pk_sent_packets ?k)"
    "k' = ?k\<lparr>pk_sent_packets := pk_sent_packets k', pk_in_flight := pk_in_flight k', pk_unacked_non_ack_eliciting_tail := pk_unacked_non_ack_eliciting_tail k'\<rparr>"
    by blast
  have eq: "pk_loss_time k' = pk_loss_time ?k" "pk_largest_acked_packet k' = pk_largest_acked_packet ?k" "pk_has_keys k' = pk_has_keys ?k"
    "pk_time_of_last_ack_eliciting_packet k' = pk_time_of_last_ack_eliciting_packet ?k" "pk_next_packet_number k' = pk_next_packet_number ?k"
    by (subst k'(5), simp)+
  let ?c = "untrack sp n p c"
  have sp: "cn_spaces ?c = (cn_spaces c)(sp := k')" by (simp add: untrack_def k'(1))
  show sent: "pk_sent_packets (cn_spaces ?c sp') = (if sp' = sp then pm_remove n (pk_sent_packets ?k) else pk_sent_packets (cn_spaces c sp'))" for sp'
    by (simp add: sp k'(4))
  have hi: "cn_highest_space ?c = cn_highest_space c" by (simp add: untrack_def)
  have live: "live ?c sp' = live c sp'" for sp' by (simp add: live_def sp eq hi)
  have "space_ok ?c sp" using spec [OF ok(1), of sp] k'(2,3,4) pm_remove_subset [of n "pk_sent_packets ?k"]
    unfolding space_ok_def live by (simp add: sp eq packet_ok_def) blast
  moreover have "space_ok ?c sp'" if "sp' \<noteq> sp" for sp' using spec [OF ok(1), of sp'] that unfolding space_ok_def live by (simp add: sp)
  ultimately show "\<forall>q. space_ok ?c q" by metis
  have tr: "tracked pm_size c = sn_size p + tracked pm_size ?c" "tracked pm_eliciting c = of_bool (sn_ack_eliciting p) + tracked pm_eliciting ?c"
    by (rule tracked_upd [where sp = sp]; simp add: sent pm_remove_counts [OF keys p])+
  show "mset (data_frames c) = mset (sn_stream_frames p) + mset (data_frames ?c)"
  proof (cases "sp = SpaceData")
    case True
    then show ?thesis using pm_remove_counts(3) [OF keys p] unfolding data_frames_def sent by simp
  next
    case False
    then have "sn_stream_frames p = []" using ok(1) map_of_SomeD [OF p] by (force simp: space_ok_def packet_ok_def)
    then show ?thesis using False unfolding data_frames_def sent by simp
  qed
  show "path_ok ?c" using ok(2) path_ok_first [OF ok(2) p] tr unfolding path_ok_def
    by (auto simp: untrack_def if_remove_def u64_sub_eq)
qed

text \<open>Removing another packet leaves the probe where it is.\<close>

lemma probe_ok_remove:
  assumes "probe_ok c" "in_flight_mtu_probe (pd_mtud (cn_path c')) = in_flight_mtu_probe (pd_mtud (cn_path c))
      \<or> in_flight_mtu_probe (pd_mtud (cn_path c')) = None"
    and "pk_sent_packets (cn_spaces c' SpaceData) = pk_sent_packets (cn_spaces c SpaceData)
      \<or> pk_sent_packets (cn_spaces c' SpaceData) = pm_remove n (pk_sent_packets (cn_spaces c SpaceData))
        \<and> in_flight_mtu_probe (pd_mtud (cn_path c')) \<noteq> Some n"
  shows "probe_ok c'"
proof -
  have "map_of (pm_remove n m) x = map_of m x" if "x \<noteq> n" for x :: nat and m :: packet_map
    using that by (induction m) (auto simp: pm_remove_def)
  then show ?thesis using assms unfolding probe_ok_def by (metis option.distinct(1) option.inject)
qed

lemma pk_view_upd [simp]:
  "pk_view (k\<lparr>pk_pending := x\<rparr>) = pk_view k" "pk_view (k\<lparr>pk_pending_acks := y\<rparr>) = pk_view k"
  "pk_view (k\<lparr>pk_loss_probes := z\<rparr>) = pk_view k" "pk_view (k\<lparr>pk_ecn_feedback := v\<rparr>) = pk_view k"
  "pk_view (k\<lparr>pk_ping_pending := b\<rparr>) = pk_view k" "pk_view (k\<lparr>pk_immediate_ack_pending := b\<rparr>) = pk_view k"
  "pk_view (k\<lparr>pk_largest_acked_packet_sent := z\<rparr>) = pk_view k"
  by (simp_all add: pk_view_def)

lemma pd_call_simps [simp]:
  "pd_in_flight (pd_call x p) = pd_in_flight p" "pd_first_packet (pd_call x p) = pd_first_packet p" "pd_mtud (pd_call x p) = pd_mtud p"
  "pd_rtt (pd_call x p) = pd_rtt p" "pd_challenge (pd_call x p) = pd_challenge p"
  "pd_first_packet_after_rtt_sample (pd_call x p) = pd_first_packet_after_rtt_sample p" "pd_sending_ecn (pd_call x p) = pd_sending_ecn p"
  "pd_validated (pd_call x p) = pd_validated p" "pd_total_sent (pd_call x p) = pd_total_sent p" "pd_total_recvd (pd_call x p) = pd_total_recvd p"
  by (simp_all add: pd_call_def)

text \<open>What losing or acknowledging a packet leaves: the others, and what loss detection has found out.\<close>

definition keeps_others :: "space_id \<Rightarrow> nat \<Rightarrow> connection \<Rightarrow> connection \<Rightarrow> bool" where
  "keeps_others sp n c c' \<longleftrightarrow>
     (\<forall>q. pk_sent_packets (cn_spaces c' q) = (if q = sp then pm_remove n (pk_sent_packets (cn_spaces c q)) else pk_sent_packets (cn_spaces c q))
        \<and> pk_loss_time (cn_spaces c' q) = pk_loss_time (cn_spaces c q)
        \<and> pk_largest_acked_packet (cn_spaces c' q) = pk_largest_acked_packet (cn_spaces c q)
        \<and> pk_largest_acked_packet_sent (cn_spaces c' q) = pk_largest_acked_packet_sent (cn_spaces c q))
     \<and> cn_config c' = cn_config c \<and> pd_rtt (cn_path c') = pd_rtt (cn_path c) \<and> cn_state c' = cn_state c"

lemma pk_take_keeps:
  "pk_take n k = (Some p, k') \<Longrightarrow> pk_sent_packets k' = pm_remove n (pk_sent_packets k) \<and> pk_loss_time k' = pk_loss_time k
     \<and> pk_largest_acked_packet k' = pk_largest_acked_packet k \<and> pk_largest_acked_packet_sent k' = pk_largest_acked_packet_sent k"
  by (auto simp: pk_take_def split: option.splits)

lemma lose_packet_ok:
  assumes ok: "cn_ok w c" and p: "map_of (pk_sent_packets (cn_spaces c sp)) n = Some p"
    and probe: "sp = SpaceData \<Longrightarrow> in_flight_mtu_probe (pd_mtud (cn_path c)) \<noteq> Some n"
  shows "\<exists>c'. lose_packet now sp n c = Some c' \<and> cn_ok w c' \<and> keeps_others sp n c c'
    \<and> in_flight_mtu_probe (pd_mtud (cn_path c')) = in_flight_mtu_probe (pd_mtud (cn_path c))
    \<and> (\<forall>m. ids_room m (cn_streams c) \<longrightarrow> ids_room m (cn_streams c'))"
proof -
  have inv: "\<forall>sp. space_ok c sp" "path_ok c" "probe_ok c" "streams_ok w (data_frames c) (cn_streams c)" "nf_ok (cn_packet_number_filter c)"
    using ok by (auto simp: cn_ok_def)
  note un = untrack_ok [OF inv(1,2) p] and first = path_ok_first [OF inv(2) p]
  obtain k' where k': "pk_take n (cn_spaces c sp) = (Some p, k')" using pk_take_ok [OF _ p] inv(1) by (auto simp: space_ok_def)
  define c' where "c' = the (lose_packet now sp n c)"
  have lose: "lose_packet now sp n c = Some c'" by (simp add: c'_def lose_packet_def k' Let_def)
  have c': "same_tracking (untrack sp n p c) c'" "cn_streams c' = fold st_retransmit (sn_stream_frames p) (cn_streams c)"
    "in_flight_mtu_probe (pd_mtud (cn_path c')) = in_flight_mtu_probe (pd_mtud (cn_path c))" "keeps_others sp n c c'"
    using first pk_take_keeps [OF k']
    by (simp_all add: c'_def lose_packet_def k' Let_def untrack_def same_tracking_def remove_in_flight_first in_flight_mtu_probe_def mt_on_non_probe_lost_def keeps_others_def)
  note same = same_tracking_ok [OF c'(1)]
  have "streams_ok w (sn_stream_frames p @ data_frames c') (cn_streams c)"
    using streams_ok_mset [OF inv(4)] un(3) unfolding same(3) by simp
  then have "streams_ok w (data_frames c') (cn_streams c')" unfolding c'(2) by (rule frames_lost_ok)
  moreover have "probe_ok c'"
  proof (rule probe_ok_remove [OF inv(3), where n = n])
    show "pk_sent_packets (cn_spaces c' SpaceData) = pk_sent_packets (cn_spaces c SpaceData)
      \<or> pk_sent_packets (cn_spaces c' SpaceData) = pm_remove n (pk_sent_packets (cn_spaces c SpaceData))
        \<and> in_flight_mtu_probe (pd_mtud (cn_path c')) \<noteq> Some n"
      using c'(3,4) probe by (auto simp: keeps_others_def)
  qed (use c'(3) in simp)
  moreover have "nf_ok (cn_packet_number_filter c')" using inv(5) c'(1) by (simp add: same_tracking_def untrack_def)
  ultimately have "cn_ok w c'" using un(1,2) same by (simp add: cn_ok_def)
  then show ?thesis using lose c' frames_lost_room by auto
qed

section \<open>Detecting losses\<close>

subsection \<open>The scan\<close>

lemma scan_packet_simps:
  "ls_lost_packets (scan_packet l x s) = ls_lost_packets s @ (if deemed_lost l (fst x) (snd x) \<and> Some (fst x) \<noteq> lp_in_flight_mtu_probe l then [fst x] else [])"
  "ls_lost_mtu_probe (scan_packet l x s) = (if deemed_lost l (fst x) (snd x) \<and> Some (fst x) = lp_in_flight_mtu_probe l
     then lp_in_flight_mtu_probe l else ls_lost_mtu_probe s)"
  "ls_loss_time (scan_packet l x s) = (if deemed_lost l (fst x) (snd x) then ls_loss_time s
     else Some (case ls_loss_time s of None \<Rightarrow> sn_time_sent (snd x) + lp_loss_delay l | Some y \<Rightarrow> min y (sn_time_sent (snd x) + lp_loss_delay l)))"
  by (cases x; simp add: scan_packet_def Let_def split: option.split)+

text \<open>The packets that stay have a time at which they will be deemed lost; the earliest is kept.\<close>

definition earliest :: "instant option \<Rightarrow> instant set \<Rightarrow> bool" where
  "earliest t ts \<longleftrightarrow> (case t of None \<Rightarrow> ts = {} | Some x \<Rightarrow> x \<in> ts \<and> (\<forall>y\<in>ts. x \<le> y))"

lemma earliest_insert: "earliest t ts \<Longrightarrow> earliest (Some (case t of None \<Rightarrow> x | Some y \<Rightarrow> min y x)) (insert x ts)"
  by (force simp: earliest_def min_def split: option.splits)

lemma scan_fold:
  assumes "s = fold (scan_packet l) xs ls_start"
  shows "ls_lost_packets s = map fst (filter (\<lambda>x. deemed_lost l (fst x) (snd x) \<and> Some (fst x) \<noteq> lp_in_flight_mtu_probe l) xs)"
    and "ls_lost_mtu_probe s = (if \<exists>x\<in>set xs. deemed_lost l (fst x) (snd x) \<and> Some (fst x) = lp_in_flight_mtu_probe l
      then lp_in_flight_mtu_probe l else None)"
    and "earliest (ls_loss_time s) ((\<lambda>x. sn_time_sent (snd x) + lp_loss_delay l) ` {x \<in> set xs. \<not> deemed_lost l (fst x) (snd x)})"
  unfolding assms
proof (induction xs rule: rev_induct)
  case Nil
  { case 1 then show ?case by (simp add: ls_start_def) }
  { case 2 then show ?case by (simp add: ls_start_def) }
  { case 3 then show ?case by (simp add: ls_start_def earliest_def) }
next
  case (snoc x xs)
  { case 1 then show ?case using snoc(1) by (simp add: scan_packet_simps) }
  { case 2 then show ?case using snoc(2) by (auto simp: scan_packet_simps) }
  { case 3
    have "{y \<in> set (xs @ [x]). \<not> deemed_lost l (fst y) (snd y)}
        = (if deemed_lost l (fst x) (snd x) then {} else {x}) \<union> {y \<in> set xs. \<not> deemed_lost l (fst y) (snd y)}" by auto
    then show ?case using snoc(3) earliest_insert by (simp add: scan_packet_simps) }
qed

lemma scan_losses_lost:
  "ls_lost_packets (scan_losses l sent) = map fst (filter (\<lambda>x. fst x < lp_largest_acked_packet l \<and> deemed_lost l (fst x) (snd x)
     \<and> Some (fst x) \<noteq> lp_in_flight_mtu_probe l) sent)"
  unfolding scan_losses_def scan_fold(1) [OF refl] by (simp add: conj_ac)

lemma scan_losses_probe:
  "ls_lost_mtu_probe (scan_losses l sent) = Some n \<Longrightarrow> lp_in_flight_mtu_probe l = Some n"
  unfolding scan_losses_def scan_fold(2) [OF refl] by (auto split: if_splits)

subsection \<open>Handling them\<close>

text \<open>Losing several packets, none of them the probe.\<close>

definition keeps_unlost :: "space_id \<Rightarrow> nat list \<Rightarrow> connection \<Rightarrow> connection \<Rightarrow> bool" where
  "keeps_unlost sp ns c c' \<longleftrightarrow>
     (\<forall>q. pk_sent_packets (cn_spaces c' q) = (if q = sp then filter (\<lambda>x. fst x \<notin> set ns) (pk_sent_packets (cn_spaces c q)) else pk_sent_packets (cn_spaces c q))
        \<and> pk_loss_time (cn_spaces c' q) = pk_loss_time (cn_spaces c q)
        \<and> pk_largest_acked_packet (cn_spaces c' q) = pk_largest_acked_packet (cn_spaces c q)
        \<and> pk_largest_acked_packet_sent (cn_spaces c' q) = pk_largest_acked_packet_sent (cn_spaces c q))
     \<and> cn_config c' = cn_config c \<and> pd_rtt (cn_path c') = pd_rtt (cn_path c) \<and> cn_state c' = cn_state c"

lemma keeps_unlost_Nil: "keeps_unlost sp [] c c"
  by (simp add: keeps_unlost_def)

lemma keeps_unlost_Cons:
  assumes "keeps_others sp n c c1" "keeps_unlost sp ns c1 c'"
  shows "keeps_unlost sp (n # ns) c c'"
  using assms by (auto simp: keeps_others_def keeps_unlost_def pm_remove_def intro!: filter_cong)

lemma map_of_pm_remove: "x \<noteq> n \<Longrightarrow> map_of (pm_remove n m) x = map_of m x"
  by (induction m) (auto simp: pm_remove_def)

lemma lose_packets_ok:
  assumes "cn_ok w c" "distinct ns" "\<forall>n\<in>set ns. map_of (pk_sent_packets (cn_spaces c sp)) n \<noteq> None"
    "\<forall>n\<in>set ns. sp = SpaceData \<longrightarrow> in_flight_mtu_probe (pd_mtud (cn_path c)) \<noteq> Some n"
  shows "\<exists>c'. opt_fold (lose_packet now sp) ns c = Some c' \<and> cn_ok w c' \<and> keeps_unlost sp ns c c'
    \<and> in_flight_mtu_probe (pd_mtud (cn_path c')) = in_flight_mtu_probe (pd_mtud (cn_path c))
    \<and> (\<forall>m. ids_room m (cn_streams c) \<longrightarrow> ids_room m (cn_streams c'))"
  using assms
proof (induction ns arbitrary: c)
  case Nil
  then show ?case by (auto simp: keeps_unlost_Nil)
next
  case (Cons n ns)
  then obtain p where p: "map_of (pk_sent_packets (cn_spaces c sp)) n = Some p" by auto
  obtain c1 where c1: "lose_packet now sp n c = Some c1" "cn_ok w c1" "keeps_others sp n c c1"
    "in_flight_mtu_probe (pd_mtud (cn_path c1)) = in_flight_mtu_probe (pd_mtud (cn_path c))"
    "\<forall>m. ids_room m (cn_streams c) \<longrightarrow> ids_room m (cn_streams c1)"
    using lose_packet_ok [OF Cons.prems(1) p, of now] Cons.prems(4) by auto
  have "\<forall>x\<in>set ns. map_of (pk_sent_packets (cn_spaces c1 sp)) x \<noteq> None"
  proof
    fix x assume "x \<in> set ns"
    then have "x \<noteq> n" "map_of (pk_sent_packets (cn_spaces c sp)) x \<noteq> None" using Cons.prems(2,3) by auto
    then show "map_of (pk_sent_packets (cn_spaces c1 sp)) x \<noteq> None" using c1(3) by (simp add: keeps_others_def map_of_pm_remove)
  qed
  then obtain c' where "opt_fold (lose_packet now sp) ns c1 = Some c'" "cn_ok w c'" "keeps_unlost sp ns c1 c'"
    "in_flight_mtu_probe (pd_mtud (cn_path c')) = in_flight_mtu_probe (pd_mtud (cn_path c1))"
    "\<forall>m. ids_room m (cn_streams c1) \<longrightarrow> ids_room m (cn_streams c')"
    using Cons.IH [OF c1(2)] Cons.prems(2,4) c1(4) by auto
  then show ?case using c1 keeps_unlost_Cons [OF c1(3)] by auto
qed

lemma check_black_hole_same:
  "same_tracking c (check_black_hole now c)" "cn_streams (check_black_hole now c) = cn_streams c"
  "in_flight_mtu_probe (pd_mtud (cn_path (check_black_hole now c))) = in_flight_mtu_probe (pd_mtud (cn_path c))
     \<or> in_flight_mtu_probe (pd_mtud (cn_path (check_black_hole now c))) = None"
  "cn_config (check_black_hole now c) = cn_config c" "pd_rtt (cn_path (check_black_hole now c)) = pd_rtt (cn_path c)"
  "cn_state (check_black_hole now c) = cn_state c" "cn_spaces (check_black_hole now c) = cn_spaces c"
proof -
  obtain d m where m: "mt_black_hole_detected now (pd_mtud (cn_path c)) = (d, m)" by fastforce
  have "in_flight_mtu_probe m = in_flight_mtu_probe (pd_mtud (cn_path c)) \<or> in_flight_mtu_probe m = None"
    using m by (auto simp: mt_black_hole_detected_def in_flight_mtu_probe_def em_on_black_hole_detected_def split: prod.splits bool.splits option.splits)
  then show "in_flight_mtu_probe (pd_mtud (cn_path (check_black_hole now c))) = in_flight_mtu_probe (pd_mtud (cn_path c))
     \<or> in_flight_mtu_probe (pd_mtud (cn_path (check_black_hole now c))) = None"
    using m by (auto simp: check_black_hole_def Let_def split: option.splits)
  show "same_tracking c (check_black_hole now c)" "cn_streams (check_black_hole now c) = cn_streams c"
    "cn_config (check_black_hole now c) = cn_config c" "pd_rtt (cn_path (check_black_hole now c)) = pd_rtt (cn_path c)"
    "cn_state (check_black_hole now c) = cn_state c" "cn_spaces (check_black_hole now c) = cn_spaces c"
    using m by (auto simp: check_black_hole_def Let_def same_tracking_def split: option.splits)
qed

lemma on_packets_lost_ok:
  assumes ok: "cn_ok w c" and ns: "distinct (ls_lost_packets s)" "\<forall>n\<in>set (ls_lost_packets s). map_of (pk_sent_packets (cn_spaces c sp)) n \<noteq> None"
    "\<forall>n\<in>set (ls_lost_packets s). sp = SpaceData \<longrightarrow> in_flight_mtu_probe (pd_mtud (cn_path c)) \<noteq> Some n"
  shows "\<exists>c'. on_packets_lost now sp s c = Some c' \<and> cn_ok w c' \<and> keeps_unlost sp (ls_lost_packets s) c c'
    \<and> (in_flight_mtu_probe (pd_mtud (cn_path c')) = in_flight_mtu_probe (pd_mtud (cn_path c)) \<or> in_flight_mtu_probe (pd_mtud (cn_path c')) = None)
    \<and> (\<forall>m. ids_room m (cn_streams c) \<longrightarrow> ids_room m (cn_streams c'))"
proof (cases "ls_lost_packets s = []")
  case True
  then show ?thesis using ok by (auto simp: on_packets_lost_def keeps_unlost_Nil)
next
  case False
  let ?n = "length (ls_lost_packets s)"
  let ?c0 = "upd_stats (\<lambda>t. t\<lparr>ps_lost_packets := u64_add (ps_lost_packets t) ?n, ps_lost_bytes := u64_add (ps_lost_bytes t) (ls_size_of_lost_packets s)\<rparr>)
    (c\<lparr>cn_lost_packets := u64_add (cn_lost_packets c) ?n\<rparr>)"
  have "cn_ok w ?c0" by (rule cn_ok_same [OF ok]) (simp_all add: same_tracking_def)
  moreover have "\<forall>n\<in>set (ls_lost_packets s). map_of (pk_sent_packets (cn_spaces ?c0 sp)) n \<noteq> None"
    "\<forall>n\<in>set (ls_lost_packets s). sp = SpaceData \<longrightarrow> in_flight_mtu_probe (pd_mtud (cn_path ?c0)) \<noteq> Some n" using ns by simp_all
  ultimately obtain c1 where c1: "opt_fold (lose_packet now sp) (ls_lost_packets s) ?c0 = Some c1" "cn_ok w c1" "keeps_unlost sp (ls_lost_packets s) ?c0 c1"
    "in_flight_mtu_probe (pd_mtud (cn_path c1)) = in_flight_mtu_probe (pd_mtud (cn_path ?c0))"
    "\<forall>m. ids_room m (cn_streams ?c0) \<longrightarrow> ids_room m (cn_streams c1)" using lose_packets_ok [OF _ ns(1)] by blast
  obtain p where p: "map_of (pk_sent_packets (cn_spaces c sp)) (last (ls_lost_packets s)) = Some p" using ns(2) False by fastforce
  note bh = check_black_hole_same [where now = now and c = c1]
  define c' where "c' = the (on_packets_lost now sp s c)"
  have c': "on_packets_lost now sp s c = Some c'" using False p c1(1) by (simp add: c'_def on_packets_lost_def Let_def)
  have eq: "same_tracking (check_black_hole now c1) c'" "cn_streams c' = cn_streams c1" "pd_mtud (cn_path c') = pd_mtud (cn_path (check_black_hole now c1))"
    "cn_config c' = cn_config c1" "pd_rtt (cn_path c') = pd_rtt (cn_path c1)" "cn_state c' = cn_state c1" "cn_spaces c' = cn_spaces c1"
    using False p c1(1) bh(2,4-7) by (simp_all add: c'_def on_packets_lost_def Let_def same_tracking_def)
  have same: "same_tracking c1 c'" by (rule same_tracking_trans [OF bh(1) eq(1)])
  have probe: "in_flight_mtu_probe (pd_mtud (cn_path c')) = in_flight_mtu_probe (pd_mtud (cn_path c1)) \<or> in_flight_mtu_probe (pd_mtud (cn_path c')) = None"
    using bh(3) eq(3) by simp
  have "probe_ok c'" by (rule probe_ok_remove [OF _ probe]) (use c1(2) eq(7) in \<open>simp_all add: cn_ok_def\<close>)
  then have "cn_ok w c'" using c1(2) same_tracking_ok [OF same] same eq(2) by (simp add: cn_ok_def same_tracking_def)
  moreover have "keeps_unlost sp (ls_lost_packets s) c c'" using c1(3) eq by (simp add: keeps_unlost_def)
  ultimately show ?thesis using c' probe c1(4,5) eq(2) by auto
qed

lemma probe_lost_none:
  "in_flight_mtu_probe (mt_on_probe_lost m) = None"
  by (auto simp: in_flight_mtu_probe_def mt_on_probe_lost_def em_on_probe_lost_def split: option.splits mtu_phase.splits)

lemma on_mtu_probe_lost_ok:
  assumes ok: "cn_ok w c" and p: "\<And>n. ls_lost_mtu_probe s = Some n \<Longrightarrow> \<exists>p. map_of (pk_sent_packets (cn_spaces c SpaceData)) n = Some p \<and> sn_stream_frames p = []"
  shows "\<exists>c'. on_mtu_probe_lost s c = Some c' \<and> cn_ok w c' \<and> cn_streams c' = cn_streams c
    \<and> (case ls_lost_mtu_probe s of None \<Rightarrow> c' = c | Some n \<Rightarrow> keeps_others SpaceData n c c')"
proof (cases "ls_lost_mtu_probe s")
  case None
  then show ?thesis using ok by (simp add: on_mtu_probe_lost_def)
next
  case (Some n)
  then obtain p where p: "map_of (pk_sent_packets (cn_spaces c SpaceData)) n = Some p" "sn_stream_frames p = []" using p by blast
  have inv: "\<forall>sp. space_ok c sp" "path_ok c" "streams_ok w (data_frames c) (cn_streams c)" "nf_ok (cn_packet_number_filter c)"
    using ok by (auto simp: cn_ok_def)
  note un = untrack_ok [OF inv(1,2) p(1)] and first = path_ok_first [OF inv(2) p(1)]
  obtain k' where k': "pk_take n (cn_spaces c SpaceData) = (Some p, k')" using pk_take_ok [OF _ p(1)] inv(1) by (auto simp: space_ok_def)
  define c' where "c' = the (on_mtu_probe_lost s c)"
  have lose: "on_mtu_probe_lost s c = Some c'" by (simp add: c'_def on_mtu_probe_lost_def Some k' Let_def)
  have c': "same_tracking (untrack SpaceData n p c) c'" "cn_streams c' = cn_streams c" "in_flight_mtu_probe (pd_mtud (cn_path c')) = None"
    "keeps_others SpaceData n c c'"
    using first pk_take_keeps [OF k']
    by (simp_all add: c'_def on_mtu_probe_lost_def Some k' Let_def untrack_def same_tracking_def remove_in_flight_first probe_lost_none keeps_others_def)
  note same = same_tracking_ok [OF c'(1)]
  have "streams_ok w (data_frames c') (cn_streams c')" using streams_ok_mset [OF inv(3)] un(3) p(2) unfolding same(3) c'(2) by simp
  moreover have "probe_ok c'" by (simp add: probe_ok_def c'(3))
  moreover have "nf_ok (cn_packet_number_filter c')" using inv(4) c'(1) by (simp add: same_tracking_def untrack_def)
  ultimately have "cn_ok w c'" using un(1,2) same by (simp add: cn_ok_def)
  then show ?thesis using lose c' Some by auto
qed

lemma pk_ok_loss_time: "pk_ok (k\<lparr>pk_loss_time := t\<rparr>) = pk_ok k" "pk_tail_ok (k\<lparr>pk_loss_time := t\<rparr>) = pk_tail_ok k"
  by (simp_all add: pk_ok_def pk_tail_ok_def pk_tail_def)

text \<open>The packets that remain, and the time at which the next of them is deemed lost.\<close>

definition losses_handled :: "loss_params \<Rightarrow> connection \<Rightarrow> connection \<Rightarrow> bool" where
  "losses_handled l c c' \<longleftrightarrow> (let sp = lp_pn_space l; sent = pk_sent_packets (cn_spaces c sp); lost = ls_lost_packets (scan_losses l sent) in
     (\<forall>q. pk_sent_packets (cn_spaces c' q) = filter (\<lambda>x. \<not> (q = sp \<and> fst x \<in> set lost)
        \<and> \<not> (q = SpaceData \<and> Some (fst x) = ls_lost_mtu_probe (scan_losses l sent))) (pk_sent_packets (cn_spaces c q)))
     \<and> pk_loss_time (cn_spaces c' sp) = ls_loss_time (scan_losses l sent)
     \<and> (\<forall>q. pk_largest_acked_packet (cn_spaces c' q) = pk_largest_acked_packet (cn_spaces c q)
        \<and> pk_largest_acked_packet_sent (cn_spaces c' q) = pk_largest_acked_packet_sent (cn_spaces c q))
     \<and> cn_config c' = cn_config c \<and> pd_rtt (cn_path c') = pd_rtt (cn_path c) \<and> cn_state c' = cn_state c)"

lemma loss_params_of_simps:
  assumes "loss_params_of now sp due c = Some l"
  shows "lp_pn_space l = sp" "lp_in_flight_mtu_probe l = in_flight_mtu_probe (pd_mtud (cn_path c))"
    "pk_largest_acked_packet (cn_spaces c sp) = Some (lp_largest_acked_packet l)"
  using assms by (auto simp: loss_params_of_def Let_def bind_eq_Some_conv)

lemma detect_lost_packets_ok:
  assumes ok: "cn_ok w c" and l: "loss_params_of now sp due c = Some l"
  shows "\<exists>c'. detect_lost_packets now sp due c = Some c' \<and> cn_ok w c' \<and> losses_handled l c c'
    \<and> (\<forall>m. ids_room m (cn_streams c) \<longrightarrow> ids_room m (cn_streams c'))"
proof -
  note lp = loss_params_of_simps [OF l]
  let ?sent = "pk_sent_packets (cn_spaces c sp)"
  define s where "s = scan_losses l ?sent"
  define c0 where "c0 = upd_space sp (\<lambda>k. k\<lparr>pk_loss_time := ls_loss_time s\<rparr>) c"
  have sent0: "pk_sent_packets (cn_spaces c0 q) = pk_sent_packets (cn_spaces c q)" for q by (simp add: c0_def)
  have "space_ok c0 q" for q
  proof -
    have "space_ok c q" using ok by (simp add: cn_ok_def)
    then show ?thesis using lp(3) by (cases "q = sp") (simp_all add: space_ok_def live_def c0_def packet_ok_def pk_ok_loss_time)
  qed
  moreover have "path_ok c0" using ok by (auto simp: cn_ok_def path_ok_def tracked_def c0_def split: option.splits)
  moreover have "probe_ok c0" "streams_ok w (data_frames c0) (cn_streams c0)" "nf_ok (cn_packet_number_filter c0)"
    using ok by (auto simp: cn_ok_def probe_ok_def data_frames_def sent0) (simp_all add: c0_def)
  ultimately have ok0: "cn_ok w c0" by (simp add: cn_ok_def)
  have keys: "distinct (map fst ?sent)" using ok by (auto simp: cn_ok_def space_ok_def pk_ok_def intro: pm_keys_distinct)
  have lost: "ls_lost_packets s = map fst (filter (\<lambda>x. fst x < lp_largest_acked_packet l \<and> deemed_lost l (fst x) (snd x)
      \<and> Some (fst x) \<noteq> in_flight_mtu_probe (pd_mtud (cn_path c))) ?sent)" by (simp add: s_def scan_losses_lost lp(2))
  have "distinct (ls_lost_packets s)" unfolding lost using keys by (rule distinct_map_filter)
  moreover have "\<forall>n\<in>set (ls_lost_packets s). map_of (pk_sent_packets (cn_spaces c0 sp)) n \<noteq> None"
    unfolding sent0 lost using keys by (auto simp: map_of_eq_None_iff)
  moreover have "\<forall>n\<in>set (ls_lost_packets s). sp = SpaceData \<longrightarrow> in_flight_mtu_probe (pd_mtud (cn_path c0)) \<noteq> Some n"
    unfolding lost by (auto simp: c0_def)
  ultimately obtain c1 where c1: "on_packets_lost now sp s c0 = Some c1" "cn_ok w c1" "keeps_unlost sp (ls_lost_packets s) c0 c1"
    "\<forall>m. ids_room m (cn_streams c0) \<longrightarrow> ids_room m (cn_streams c1)" using on_packets_lost_ok [OF ok0] by blast
  have probe: "\<exists>p. map_of (pk_sent_packets (cn_spaces c1 SpaceData)) n = Some p \<and> sn_stream_frames p = []" if "ls_lost_mtu_probe s = Some n" for n
  proof -
    have n: "in_flight_mtu_probe (pd_mtud (cn_path c)) = Some n" using scan_losses_probe [OF that [unfolded s_def]] lp(2) by simp
    then obtain p where p: "map_of (pk_sent_packets (cn_spaces c SpaceData)) n = Some p" "sn_stream_frames p = []"
      using ok by (auto simp: cn_ok_def probe_ok_def)
    have "n \<notin> set (ls_lost_packets s)" unfolding lost using n by auto
    then have "map_of (filter (\<lambda>x. fst x \<notin> set (ls_lost_packets s)) m) n = map_of m n" for m :: packet_map by (induction m) auto
    then have "map_of (pk_sent_packets (cn_spaces c1 SpaceData)) n = Some p" using c1(3) p(1) by (simp add: keeps_unlost_def sent0)
    then show ?thesis using p(2) by blast
  qed
  obtain c' where c': "on_mtu_probe_lost s c1 = Some c'" "cn_ok w c'" "cn_streams c' = cn_streams c1"
    "case ls_lost_mtu_probe s of None \<Rightarrow> c' = c1 | Some n \<Rightarrow> keeps_others SpaceData n c1 c'"
    using on_mtu_probe_lost_ok [OF c1(2) probe] by blast
  have "detect_lost_packets now sp due c = Some c'" using l c1(1) c'(1) by (simp add: detect_lost_packets_def s_def c0_def)
  moreover have "losses_handled l c c'"
    using c1(3) c'(4) unfolding losses_handled_def lp(1) Let_def s_def [symmetric] keeps_unlost_def keeps_others_def
    by (cases "ls_lost_mtu_probe s") (auto simp: c0_def pm_remove_def intro!: filter_cong)
  ultimately show ?thesis using c'(2,3) c1(4) by (auto simp: c0_def)
qed

end
