(* ===== verification/Recovery_Acks.thy ===== *)
theory Recovery_Acks
  imports Recovery_Inv
begin

text \<open>
  Acknowledgements, time-outs and discarded spaces keep the invariant of loss recovery and do not panic.
\<close>

section \<open>Acknowledging packets\<close>

text \<open>How many streams the acknowledgement of a packet can close.\<close>

definition sn_closes :: "sent_packet \<Rightarrow> nat" where
  "sn_closes p = length (acked_reset_streams p) + length (sn_stream_frames p)"

definition pm_closes :: "packet_map \<Rightarrow> nat" where
  "pm_closes m = sum_list (map (\<lambda>x. sn_closes (snd x)) m)"

lemma pm_closes_remove: "pm_keys m \<Longrightarrow> map_of m n = Some p \<Longrightarrow> pm_closes m = sn_closes p + pm_closes (pm_remove n m)"
  by (rule pm_remove_split, assumption+) (simp add: pm_closes_def)

lemma mt_on_acked_probe:
  assumes "mt_on_acked data n len m = (b, m')"
  shows "in_flight_mtu_probe m' = in_flight_mtu_probe m \<or> in_flight_mtu_probe m' = None"
    and "data \<Longrightarrow> in_flight_mtu_probe m' \<noteq> Some n"
  using assms by (auto simp: mt_on_acked_def in_flight_mtu_probe_def em_on_probe_acked_def
      split: if_splits option.splits prod.splits mtu_phase.splits)

text \<open>What the acknowledgement of a packet changes of the path.\<close>

definition path_acked :: "sent_packet \<Rightarrow> path_data \<Rightarrow> path_data \<Rightarrow> bool" where
  "path_acked p q q' \<longleftrightarrow> pd_in_flight q' = if_remove p (pd_in_flight q) \<and> pd_first_packet q' = pd_first_packet q \<and> pd_rtt q' = pd_rtt q"

lemma on_packet_acked_first:
  assumes "pd_first_packet (cn_path c) = Some 0" "opt_fold reset_acked (acked_reset_streams p) (cn_streams c) = Some s1"
    "opt_fold received_ack_of (sn_stream_frames p) s1 = Some s2"
  shows "\<exists>q. on_packet_acked now n p c = Some (c\<lparr>cn_path := q, cn_streams := s2\<rparr>) \<and> path_acked p (cn_path c) q \<and> pd_mtud q = pd_mtud (cn_path c)"
proof -
  let ?p = "(cn_path c)\<lparr>pd_in_flight := if_remove p (pd_in_flight (cn_path c))\<rparr>"
  define x where "x = (if pd_challenge (cn_path c) = None
    then CcOnAck now (sn_time_sent p) (sn_size p) (cn_app_limited c) (pd_rtt (cn_path c)) (sn_sample_pn p) else CcOnPacketNeutered (sn_sample_pn p))"
  define q where "q = (if sn_ack_eliciting p then pd_call x ?p else ?p)"
  have "on_packet_acked now n p c = Some (c\<lparr>cn_path := q, cn_streams := s2\<rparr>)"
    using assms(2,3) unfolding on_packet_acked_def remove_in_flight_first [OF assms(1)] by (simp add: q_def x_def upd_path_def Let_def)
  moreover have "path_acked p (cn_path c) q" "pd_mtud q = pd_mtud (cn_path c)" by (simp_all add: q_def path_acked_def pd_call_def)
  ultimately show ?thesis by blast
qed

lemma ack_packet_step:
  assumes "pk_take n (cn_spaces c sp) = (Some p, k')" "pd_first_packet (cn_path c) = Some 0"
    "opt_fold reset_acked (acked_reset_streams p) (cn_streams c) = Some s1" "opt_fold received_ack_of (sn_stream_frames p) s1 = Some s2"
  shows "\<exists>q f a. ack_packet now sp n (b, c) = Some (b \<or> sn_ack_eliciting p,
      (upd_space sp (\<lambda>_. k'\<lparr>pk_pending_acks := a\<rparr>) c)\<lparr>cn_path := q, cn_streams := s2, cn_ack_frequency := f\<rparr>)
    \<and> path_acked p (cn_path c) q \<and> pd_mtud q = snd (mt_on_acked (sp = SpaceData) n (sn_size p) (pd_mtud (cn_path c)))"
proof -
  obtain upd mt where mt: "mt_on_acked (sp = SpaceData) n (sn_size p) (pd_mtud (cn_path c)) = (upd, mt)" by fastforce
  define a where "a = (case sn_largest_acked p of Some acked \<Rightarrow> subtract_below acked (pk_pending_acks k') | None \<Rightarrow> pk_pending_acks k')"
  define c1 where "c1 = upd_space sp (\<lambda>_. k'\<lparr>pk_pending_acks := a\<rparr>) c"
  define q where "q = (if upd then pd_call (CcOnMtuUpdate (mt_current_mtu mt)) ((cn_path c)\<lparr>pd_mtud := mt\<rparr>) else (cn_path c)\<lparr>pd_mtud := mt\<rparr>)"
  have q: "pd_first_packet q = Some 0" "pd_in_flight q = pd_in_flight (cn_path c)" "pd_rtt q = pd_rtt (cn_path c)" "pd_mtud q = mt"
    using assms(2) by (simp_all add: q_def pd_call_def)
  define c2 where "c2 = c1\<lparr>cn_path := q, cn_ack_frequency := fs_on_acked n (cn_ack_frequency c)\<rparr>"
  have "ack_packet now sp n (b, c) = map_option (\<lambda>c. (b \<or> sn_ack_eliciting p, c)) (on_packet_acked now n p c2)"
    by (cases "sn_largest_acked p") (simp_all add: ack_packet_def assms(1) mt c2_def c1_def a_def q_def upd_path_def upd_space_def)
  moreover have c2: "pd_first_packet (cn_path c2) = Some 0" "cn_streams c2 = cn_streams c" "cn_path c2 = q" using q by (simp_all add: c2_def c1_def)
  obtain q' where q': "on_packet_acked now n p c2 = Some (c2\<lparr>cn_path := q', cn_streams := s2\<rparr>)" "path_acked p q q'" "pd_mtud q' = mt"
    using on_packet_acked_first [of c2 p s1 s2 now n] assms(3,4) c2 q(4) by auto
  ultimately have "ack_packet now sp n (b, c) = Some (b \<or> sn_ack_eliciting p,
      (upd_space sp (\<lambda>_. k'\<lparr>pk_pending_acks := a\<rparr>) c)\<lparr>cn_path := q', cn_streams := s2, cn_ack_frequency := fs_on_acked n (cn_ack_frequency c)\<rparr>)"
    by (simp add: c2_def c1_def)
  moreover have "path_acked p (cn_path c) q'" using q'(2) q assms(2) by (simp add: path_acked_def)
  ultimately show ?thesis using q'(3) mt by auto
qed

lemma ack_packet_tracked:
  assumes ok: "cn_ok w c" and p: "map_of (pk_sent_packets (cn_spaces c sp)) n = Some p" and room: "ids_room (sn_closes p + m) (cn_streams c)"
  shows "\<exists>c'. ack_packet now sp n (b, c) = Some (b \<or> sn_ack_eliciting p, c') \<and> cn_ok w c' \<and> keeps_others sp n c c' \<and> ids_room m (cn_streams c')"
proof -
  have inv: "\<forall>sp. space_ok c sp" "path_ok c" "probe_ok c" "streams_ok w (data_frames c) (cn_streams c)" "nf_ok (cn_packet_number_filter c)"
    using ok by (auto simp: cn_ok_def)
  note un = untrack_ok [OF inv(1,2) p] and first = path_ok_first [OF inv(2) p]
  obtain k' where k': "pk_take n (cn_spaces c sp) = (Some p, k')" using pk_take_ok [OF _ p] inv(1) by (auto simp: space_ok_def)
  obtain upd mt where mt: "mt_on_acked (sp = SpaceData) n (sn_size p) (pd_mtud (cn_path c)) = (upd, mt)" by fastforce
  have fl: "streams_ok w (sn_stream_frames p @ data_frames (untrack sp n p c)) (cn_streams c)" using streams_ok_mset [OF inv(4)] un(3) by simp
  have "ids_room (length (acked_reset_streams p) + (length (sn_stream_frames p) + m)) (cn_streams c)" using room by (simp add: sn_closes_def add.assoc)
  from reset_acks_ok [OF fl this] obtain s1 where
    s1: "opt_fold reset_acked (acked_reset_streams p) (cn_streams c) = Some s1" "streams_ok w (sn_stream_frames p @ data_frames (untrack sp n p c)) s1"
    "ids_room (length (sn_stream_frames p) + m) s1" by blast
  from frame_acks_ok [OF s1(2,3)] obtain s2 where
    s2: "opt_fold received_ack_of (sn_stream_frames p) s1 = Some s2" "streams_ok w (data_frames (untrack sp n p c)) s2" "ids_room m s2" by blast
  obtain q f a where ack: "ack_packet now sp n (b, c) = Some (b \<or> sn_ack_eliciting p,
      (upd_space sp (\<lambda>_. k'\<lparr>pk_pending_acks := a\<rparr>) c)\<lparr>cn_path := q, cn_streams := s2, cn_ack_frequency := f\<rparr>)"
    and q: "path_acked p (cn_path c) q" "pd_mtud q = mt" using ack_packet_step [OF k' first s1(1) s2(1), of now b] mt by auto
  define c' where "c' = (upd_space sp (\<lambda>_. k'\<lparr>pk_pending_acks := a\<rparr>) c)\<lparr>cn_path := q, cn_streams := s2, cn_ack_frequency := f\<rparr>"
  have c': "same_tracking (untrack sp n p c) c'" "cn_streams c' = s2" "pd_mtud (cn_path c') = mt" "keeps_others sp n c c'"
    using first pk_take_keeps [OF k'] q
    by (simp_all add: c'_def k' untrack_def same_tracking_def keeps_others_def path_acked_def pk_view_def)
  note same = same_tracking_ok [OF c'(1)]
  have "streams_ok w (data_frames c') (cn_streams c')" using s2(2) unfolding same(3) c'(2) .
  moreover have "probe_ok c'"
  proof (rule probe_ok_remove [OF inv(3), where n = n])
    show "pk_sent_packets (cn_spaces c' SpaceData) = pk_sent_packets (cn_spaces c SpaceData)
      \<or> pk_sent_packets (cn_spaces c' SpaceData) = pm_remove n (pk_sent_packets (cn_spaces c SpaceData))
        \<and> in_flight_mtu_probe (pd_mtud (cn_path c')) \<noteq> Some n"
      using c'(3,4) mt_on_acked_probe(2) [OF mt] by (auto simp: keeps_others_def)
  qed (use c'(3) mt_on_acked_probe(1) [OF mt] in simp)
  moreover have "nf_ok (cn_packet_number_filter c')" using inv(5) c'(1) by (simp add: same_tracking_def untrack_def)
  ultimately have "cn_ok w c'" using un(1,2) same by (simp add: cn_ok_def)
  then show ?thesis using ack c' s2(3) by (auto simp: c'_def [symmetric])
qed

lemma ack_packet_ok:
  assumes ok: "cn_ok w c" and room: "ids_room (pm_closes (pk_sent_packets (cn_spaces c sp)) + m) (cn_streams c)"
  shows "\<exists>b' c'. ack_packet now sp n (b, c) = Some (b', c') \<and> cn_ok w c' \<and> keeps_others sp n c c'
    \<and> ids_room (pm_closes (pk_sent_packets (cn_spaces c' sp)) + m) (cn_streams c')"
proof (cases "map_of (pk_sent_packets (cn_spaces c sp)) n")
  case None
  then have "pm_remove n (pk_sent_packets (cn_spaces c sp)) = pk_sent_packets (cn_spaces c sp)"
    by (auto simp: pm_remove_def map_of_eq_None_iff intro: filter_True)
  then show ?thesis using None ok room by (simp add: ack_packet_def pk_take_def keeps_others_def)
next
  case (Some p)
  have "pm_keys (pk_sent_packets (cn_spaces c sp))" using ok by (simp add: cn_ok_def space_ok_def pk_ok_def)
  note cl = pm_closes_remove [OF this Some]
  have "ids_room (sn_closes p + (pm_closes (pm_remove n (pk_sent_packets (cn_spaces c sp))) + m)) (cn_streams c)" using room by (simp add: cl add.assoc)
  from ack_packet_tracked [OF ok Some this, of now b] show ?thesis by (auto simp: keeps_others_def)
qed

lemma ack_packets_ok:
  assumes "cn_ok w c" "ids_room (pm_closes (pk_sent_packets (cn_spaces c sp)) + m) (cn_streams c)"
  shows "\<exists>b' c'. opt_fold (ack_packet now sp) ns (b, c) = Some (b', c') \<and> cn_ok w c' \<and> keeps_unlost sp ns c c' \<and> ids_room m (cn_streams c')"
  using assms
proof (induction ns arbitrary: b c)
  case Nil
  then show ?case by (auto simp: keeps_unlost_Nil intro: ids_room_mono)
next
  case (Cons n ns)
  obtain b1 c1 where c1: "ack_packet now sp n (b, c) = Some (b1, c1)" "cn_ok w c1" "keeps_others sp n c c1"
    "ids_room (pm_closes (pk_sent_packets (cn_spaces c1 sp)) + m) (cn_streams c1)" using ack_packet_ok [OF Cons.prems] by blast
  from Cons.IH [OF c1(2,4), of b1] c1(1) keeps_unlost_Cons [OF c1(3)] show ?case by auto
qed

section \<open>Time\<close>

text \<open>No packet is older than the connection, so no round trip takes longer than it exists.\<close>

definition rtt_limit :: "instant \<Rightarrow> instant \<Rightarrow> connection \<Rightarrow> duration" where
  "rtt_limit start now c = max (pc_initial_rtt (tc_path (cn_config c))) (now - start)"

definition time_ok :: "instant \<Rightarrow> instant \<Rightarrow> connection \<Rightarrow> bool" where
  "time_ok start now c \<longleftrightarrow> re_conservative (pd_rtt (cn_path c)) \<le> rtt_limit start now c
     \<and> (\<forall>sp. start \<le> pk_largest_acked_packet_sent (cn_spaces c sp) \<and> (\<forall>x\<in>set (pk_sent_packets (cn_spaces c sp)). start \<le> sn_time_sent (snd x)))"

text \<open>The clock has run for at least the loss delay of such a round trip.\<close>

definition clock_ok :: "instant \<Rightarrow> instant \<Rightarrow> connection \<Rightarrow> bool" where
  "clock_ok start now c \<longleftrightarrow> TIMER_GRANULARITY \<le> now \<and> (\<forall>d\<le>rtt_limit start now c. tc_mul_time_threshold (cn_config c) d \<le> now)"

lemma time_ok_later: "time_ok start now c \<Longrightarrow> now \<le> later \<Longrightarrow> time_ok start later c"
  by (auto simp: time_ok_def rtt_limit_def)

lemma time_ok_upd_path: "pd_rtt (g (cn_path c)) = pd_rtt (cn_path c) \<Longrightarrow> time_ok start now (upd_path g c) = time_ok start now c"
  by (simp add: time_ok_def rtt_limit_def)

lemma time_ok_upd_stats: "time_ok start now (upd_stats g c) = time_ok start now c"
  by (simp add: time_ok_def rtt_limit_def)

lemma loss_params_exist:
  assumes "time_ok start now c" "clock_ok start now c" "pk_largest_acked_packet (cn_spaces c sp) \<noteq> None"
  shows "\<exists>l. loss_params_of now sp due c = Some l"
proof -
  have "max (tc_mul_time_threshold (cn_config c) (re_conservative (pd_rtt (cn_path c)))) TIMER_GRANULARITY \<le> now"
    using assms(1,2) by (simp add: time_ok_def clock_ok_def)
  then show ?thesis using assms(3) by (auto simp: loss_params_of_def checked_sub_def Let_def)
qed

lemma re_update_conservative:
  "re_conservative (re_update delay rtt r) \<le> max (re_conservative r) rtt"
proof -
  have "(7 * s + a) div 8 \<le> max s rtt" if "a \<le> rtt" for s a using that by linarith
  then show ?thesis by (auto simp: re_update_def re_conservative_def re_get_def Let_def split: option.splits)
qed

lemma time_ok_subset:
  assumes "time_ok start now c" "\<And>q. set (pk_sent_packets (cn_spaces c' q)) \<subseteq> set (pk_sent_packets (cn_spaces c q))"
    "\<And>q. pk_largest_acked_packet_sent (cn_spaces c' q) = pk_largest_acked_packet_sent (cn_spaces c q)"
    "cn_config c' = cn_config c" "pd_rtt (cn_path c') = pd_rtt (cn_path c)"
  shows "time_ok start now c'"
  using assms unfolding time_ok_def rtt_limit_def by (metis subsetD)

lemma time_ok_unlost: "time_ok start now c \<Longrightarrow> keeps_unlost sp ns c c' \<Longrightarrow> time_ok start now c'"
  by (rule time_ok_subset) (auto simp: keeps_unlost_def)


section \<open>Acknowledgement frames\<close>

definition keeps_config :: "connection \<Rightarrow> connection \<Rightarrow> bool" where
  "keeps_config c c' \<longleftrightarrow> cn_config c' = cn_config c \<and> cn_state c' = cn_state c"

lemma clock_ok_keeps: "clock_ok start now c \<Longrightarrow> cn_config c' = cn_config c \<Longrightarrow> clock_ok start now c'"
  by (simp add: clock_ok_def rtt_limit_def)

lemma set_loss_detection_timer_only: "\<exists>t. set_loss_detection_timer now c = c\<lparr>cn_timers := t\<rparr>"
proof -
  have "\<exists>t. c = c\<lparr>cn_timers := t\<rparr>" by (rule exI [of _ "cn_timers c"]) simp
  moreover have "\<exists>t. set_timer x y c = c\<lparr>cn_timers := t\<rparr>" "\<exists>t. stop_timer x c = c\<lparr>cn_timers := t\<rparr>" for x y
    by (auto simp: set_timer_def stop_timer_def)
  ultimately show ?thesis by (simp only: set_loss_detection_timer_def split: if_split option.split prod.split) simp
qed

lemma same_timers: "same_tracking c (c\<lparr>cn_timers := t\<rparr>)" "cn_ok w (c\<lparr>cn_timers := t\<rparr>) = cn_ok w c" "time_ok start now (c\<lparr>cn_timers := t\<rparr>) = time_ok start now c"
proof -
  show s: "same_tracking c (c\<lparr>cn_timers := t\<rparr>)" by (simp add: same_tracking_def)
  show "time_ok start now (c\<lparr>cn_timers := t\<rparr>) = time_ok start now c" by (simp add: time_ok_def rtt_limit_def)
  show "cn_ok w (c\<lparr>cn_timers := t\<rparr>) = cn_ok w c" using same_tracking_ok [OF s] by (simp add: cn_ok_def probe_ok_def)
qed

lemma set_loss_detection_timer_ok [simp]:
  "cn_ok w (set_loss_detection_timer now c) = cn_ok w c" "time_ok start t (set_loss_detection_timer now c) = time_ok start t c"
  "cn_streams (set_loss_detection_timer now c) = cn_streams c" "cn_spaces (set_loss_detection_timer now c) = cn_spaces c"
  "cn_path (set_loss_detection_timer now c) = cn_path c" "keeps_config c' (set_loss_detection_timer now c) = keeps_config c' c"
  "cn_config (set_loss_detection_timer now c) = cn_config c" "cn_state (set_loss_detection_timer now c) = cn_state c"
  "cn_prev_path (set_loss_detection_timer now c) = cn_prev_path c" "cn_highest_space (set_loss_detection_timer now c) = cn_highest_space c"
  "cn_packet_number_filter (set_loss_detection_timer now c) = cn_packet_number_filter c" "cn_side (set_loss_detection_timer now c) = cn_side c"
  using set_loss_detection_timer_only [of now c] by (auto simp: same_timers keeps_config_def)

lemma update_largest_acked_ok:
  assumes ok: "cn_ok w c" and l: "largest < pk_next_packet_number (cn_spaces c sp)" and u: "update_largest_acked sp largest c = (b, c')"
  shows "cn_ok w c'" "pk_largest_acked_packet (cn_spaces c' sp) \<noteq> None" "cn_streams c' = cn_streams c" "keeps_config c c'"
    "pk_sent_packets (cn_spaces c' q) = pk_sent_packets (cn_spaces c q)" "time_ok start now c \<Longrightarrow> time_ok start now c'"
proof -
  let ?k = "cn_spaces c sp"
  have "\<exists>m t. c' = upd_space sp (\<lambda>k. k\<lparr>pk_largest_acked_packet := Some m, pk_largest_acked_packet_sent := t\<rparr>) c
      \<and> m < pk_next_packet_number ?k \<and> (time_ok start now c \<longrightarrow> start \<le> t)"
  proof (cases "\<exists>pn. pk_largest_acked_packet ?k = Some pn \<and> largest \<le> pn")
    case True
    then obtain pn where pn: "pk_largest_acked_packet ?k = Some pn" "largest \<le> pn" by blast
    have "c' = c" using u pn by (simp add: update_largest_acked_def)
    moreover have "?k\<lparr>pk_largest_acked_packet := Some pn\<rparr> = ?k" by (simp add: pn(1) [symmetric])
    then have "c = upd_space sp (\<lambda>k. k\<lparr>pk_largest_acked_packet := Some pn, pk_largest_acked_packet_sent := pk_largest_acked_packet_sent ?k\<rparr>) c"
      by (simp add: upd_space_def)
    moreover have "pn < pk_next_packet_number ?k" using ok pn(1) by (simp add: cn_ok_def space_ok_def pk_ok_def)
    ultimately show ?thesis by (auto simp: time_ok_def)
  next
    case False
    then have "c' = upd_space sp (\<lambda>k. case map_of (pk_sent_packets k) largest of
        Some info \<Rightarrow> k\<lparr>pk_largest_acked_packet := Some largest, pk_largest_acked_packet_sent := sn_time_sent info\<rparr>
      | None \<Rightarrow> k\<lparr>pk_largest_acked_packet := Some largest\<rparr>) c"
      using u by (auto simp: update_largest_acked_def Let_def not_le split: option.splits if_splits)
    then have "c' = upd_space sp (\<lambda>k. k\<lparr>pk_largest_acked_packet := Some largest, pk_largest_acked_packet_sent :=
        (case map_of (pk_sent_packets ?k) largest of Some info \<Rightarrow> sn_time_sent info | None \<Rightarrow> pk_largest_acked_packet_sent ?k)\<rparr>) c"
      by (simp add: upd_space_def split: option.splits)
    moreover have "start \<le> (case map_of (pk_sent_packets ?k) largest of Some info \<Rightarrow> sn_time_sent info | None \<Rightarrow> pk_largest_acked_packet_sent ?k)"
      if "time_ok start now c" using that by (fastforce simp: time_ok_def dest!: map_of_SomeD split: option.splits)
    ultimately show ?thesis using l by blast
  qed
  then obtain m t where c': "c' = upd_space sp (\<lambda>k. k\<lparr>pk_largest_acked_packet := Some m, pk_largest_acked_packet_sent := t\<rparr>) c"
    and m: "m < pk_next_packet_number ?k" and t: "time_ok start now c \<longrightarrow> start \<le> t" by blast
  show "pk_largest_acked_packet (cn_spaces c' sp) \<noteq> None" "cn_streams c' = cn_streams c" "keeps_config c c'" by (simp_all add: c' keeps_config_def)
  show sent: "pk_sent_packets (cn_spaces c' q) = pk_sent_packets (cn_spaces c q)" for q by (simp add: c')
  show "time_ok start now c \<Longrightarrow> time_ok start now c'" using t by (auto simp: time_ok_def rtt_limit_def c')
  have "space_ok c' q" for q
  proof -
    have "space_ok c q" using ok by (simp add: cn_ok_def)
    then show ?thesis using m
      by (cases "q = sp") (simp_all add: space_ok_def live_def c' packet_ok_def pk_ok_def pk_tail_ok_def pk_tail_def)
  qed
  moreover have "path_ok c'" using ok by (auto simp: cn_ok_def path_ok_def tracked_def c' split: option.splits)
  moreover have "probe_ok c'" "streams_ok w (data_frames c') (cn_streams c')" "nf_ok (cn_packet_number_filter c')"
    using ok by (auto simp: cn_ok_def probe_ok_def data_frames_def sent) (simp_all add: c')
  ultimately show "cn_ok w c'" by (simp add: cn_ok_def)
qed


lemma update_rtt_ok:
  assumes "time_ok start now c"
  shows "same_tracking c (update_rtt now sp ack c)" "cn_streams (update_rtt now sp ack c) = cn_streams c"
    "pd_mtud (cn_path (update_rtt now sp ack c)) = pd_mtud (cn_path c)" "keeps_config c (update_rtt now sp ack c)"
    "cn_spaces (update_rtt now sp ack c) = cn_spaces c" "time_ok start now (update_rtt now sp ack c)"
proof -
  define c' where "c' = update_rtt now sp ack c"
  have rtt: "\<exists>d. pd_rtt (cn_path c') = re_update d (now - pk_largest_acked_packet_sent (cn_spaces c sp)) (pd_rtt (cn_path c))"
    and sp: "cn_spaces c' = cn_spaces c" and cf: "cn_config c' = cn_config c" by (auto simp: c'_def update_rtt_def Let_def)
  show "same_tracking c (update_rtt now sp ack c)" "cn_streams (update_rtt now sp ack c) = cn_streams c"
    "pd_mtud (cn_path (update_rtt now sp ack c)) = pd_mtud (cn_path c)" "keeps_config c (update_rtt now sp ack c)"
    "cn_spaces (update_rtt now sp ack c) = cn_spaces c"
    by (simp_all add: update_rtt_def same_tracking_def keeps_config_def Let_def)
  have "start \<le> pk_largest_acked_packet_sent (cn_spaces c sp)" using assms by (simp add: time_ok_def)
  then have "re_conservative (pd_rtt (cn_path c')) \<le> rtt_limit start now c"
    using rtt re_update_conservative assms unfolding time_ok_def rtt_limit_def
    by (smt (verit) diff_le_mono2 le_max_iff_disj max.bounded_iff order_trans)
  then show "time_ok start now (update_rtt now sp ack c)" using assms unfolding c'_def [symmetric] by (simp add: time_ok_def rtt_limit_def sp cf)
qed

text \<open>Steps that leave alone everything the invariant is about.\<close>

definition untouched :: "instant \<Rightarrow> instant \<Rightarrow> connection \<Rightarrow> connection \<Rightarrow> bool" where
  "untouched start now c c' \<longleftrightarrow> same_tracking c c' \<and> cn_streams c' = cn_streams c \<and> pd_mtud (cn_path c') = pd_mtud (cn_path c) \<and> keeps_config c c'
     \<and> (time_ok start now c \<longrightarrow> time_ok start now c')"

lemma untouched_refl [simp]: "untouched start now c c"
  by (simp add: untouched_def keeps_config_def)

lemma untouched_path:
  assumes "untouched start now c c'" "\<And>q. pd_in_flight (g q) = pd_in_flight q \<and> pd_first_packet (g q) = pd_first_packet q \<and> pd_mtud (g q) = pd_mtud q
    \<and> pd_rtt (g q) = pd_rtt q"
  shows "untouched start now c (upd_path g c')"
  using assms by (simp add: untouched_def same_tracking_def keeps_config_def time_ok_upd_path)

lemma untouched_call: "untouched start now c c' \<Longrightarrow> untouched start now c (upd_path (pd_call x) c')"
  by (rule untouched_path) (simp_all add: pd_call_def)

lemma untouched_stats: "untouched start now c c' \<Longrightarrow> untouched start now c (upd_stats g c')"
  by (simp add: untouched_def same_tracking_def keeps_config_def time_ok_upd_stats)

lemma untouched_ecn: "untouched start now c (upd_space sp (\<lambda>_. (cn_spaces c sp)\<lparr>pk_ecn_feedback := f\<rparr>) c)"
  by (simp add: untouched_def same_tracking_def pk_view_def keeps_config_def time_ok_def rtt_limit_def)

lemma untouched_pto: "untouched start now c c' \<Longrightarrow> untouched start now c (c'\<lparr>cn_pto_count := n\<rparr>)"
proof -
  have "time_ok start now (c'\<lparr>cn_pto_count := n\<rparr>) = time_ok start now c'" by (simp add: time_ok_def rtt_limit_def)
  then show "untouched start now c c' \<Longrightarrow> untouched start now c (c'\<lparr>cn_pto_count := n\<rparr>)"
    by (simp add: untouched_def same_tracking_def keeps_config_def)
qed

lemma untouched_probes: "untouched start now c (upd_space sp (\<lambda>k. k\<lparr>pk_loss_probes := f k\<rparr>) c)"
  by (simp add: untouched_def same_tracking_def pk_view_def keeps_config_def time_ok_def rtt_limit_def)

lemma untouched_timer: "untouched start now c c' \<Longrightarrow> untouched start now c (set_loss_detection_timer t c')"
  by (simp add: untouched_def same_tracking_def)

lemma untouched_trans: "untouched start now c c' \<Longrightarrow> untouched start now c' c'' \<Longrightarrow> untouched start now c c''"
  by (auto simp: untouched_def keeps_config_def intro: same_tracking_trans)

lemma untouched_ok: "untouched start now c c' \<Longrightarrow> cn_ok w c \<Longrightarrow> cn_ok w c'"
  by (auto simp: untouched_def intro: cn_ok_same)

lemma process_ecn_untouched: "untouched start now c (process_ecn now sp n ecn t c)"
proof (cases "detect_ecn n ecn (cn_spaces c sp)")
  case (Pair r k)
  then have k: "k = (if \<exists>e. r = Inl e then cn_spaces c sp else (cn_spaces c sp)\<lparr>pk_ecn_feedback := ecn\<rparr>)"
    by (auto simp: detect_ecn_def Let_def split: if_splits)
  show ?thesis
  proof (cases r)
    case (Inl e)
    have "upd_space sp (\<lambda>_. k') (upd_path g c) = upd_path g (upd_space sp (\<lambda>_. k') c)" for k' g by (simp add: upd_space_def upd_path_def)
    then show ?thesis using Inl k by (simp add: process_ecn_def Pair untouched_path untouched_ecn)
  next
    case (Inr b)
    then show ?thesis using k by (cases b) (simp_all add: process_ecn_def Pair untouched_call untouched_stats untouched_ecn)
  qed
qed

lemma ack_ecn_step_untouched: "untouched start now c (ack_ecn_step now sp nl acked ack c)"
  by (simp add: ack_ecn_step_def process_ecn_untouched untouched_path split: option.split)


lemma losses_handled_time: "time_ok start now c \<Longrightarrow> losses_handled l c c' \<Longrightarrow> time_ok start now c' \<and> keeps_config c c'"
  by (auto simp: losses_handled_def Let_def keeps_config_def intro: time_ok_subset)

lemma on_newly_acked_ok:
  assumes ok: "cn_ok w c" and tm: "time_ok start now c" "clock_ok start now c" and la: "pk_largest_acked_packet (cn_spaces c sp) \<noteq> None"
    and room: "ids_room (pm_closes (pk_sent_packets (cn_spaces c sp))) (cn_streams c)"
  shows "\<exists>c'. on_newly_acked now sp nl acked ack c = Some c' \<and> cn_ok w c' \<and> time_ok start now c' \<and> keeps_config c c'"
proof -
  obtain b c1 where c1: "opt_fold (ack_packet now sp) (array_elts acked) (False, c) = Some (b, c1)" "cn_ok w c1" "keeps_unlost sp (array_elts acked) c c1"
    using ack_packets_ok [OF ok, of sp 0] room by fastforce
  have t1: "time_ok start now c1" by (rule time_ok_unlost [OF tm(1) c1(3)])
  define c2 where "c2 = (if nl \<and> b then update_rtt now sp ack c1 else c1)"
  have c2: "cn_ok w c2" "time_ok start now c2" "keeps_config c1 c2" "cn_spaces c2 = cn_spaces c1"
    using update_rtt_ok [OF t1] c1(2) t1 by (auto simp: c2_def keeps_config_def intro: cn_ok_same)
  have k2: "keeps_config c c2" using c1(3) c2(3) by (simp add: keeps_unlost_def keeps_config_def)
  have "pk_largest_acked_packet (cn_spaces c2 sp) \<noteq> None" using la c1(3) by (simp add: c2(4) keeps_unlost_def)
  then obtain l where l: "loss_params_of now sp True c2 = Some l"
    using loss_params_exist [OF c2(2) clock_ok_keeps [OF tm(2)]] k2 by (auto simp: keeps_config_def)
  from detect_lost_packets_ok [OF c2(1) l] obtain c3 where c3: "detect_lost_packets now sp True c2 = Some c3" "cn_ok w c3" "losses_handled l c2 c3" by blast
  note t3 = losses_handled_time [OF c2(2) c3(3)]
  define c4 where "c4 = upd_path (pd_call (CcOnEndAcks now (if_bytes (pd_in_flight (cn_path c3))) (cn_app_limited c3) (pk_largest_acked_packet (cn_spaces c3 sp)))) c3"
  define c5 where "c5 = upd_path (pd_call (CcOnLeastUnacked (least_unacked_sample_pn c4))) c4"
  define c6 where "c6 = (if peer_completed_address_validation c5 then c5\<lparr>cn_pto_count := 0\<rparr> else c5)"
  have "untouched start now c3 c4" by (simp add: c4_def untouched_call)
  then have "untouched start now c3 c5" by (simp add: c5_def untouched_call)
  then have "untouched start now c3 c6" by (simp add: c6_def untouched_pto)
  then have u: "untouched start now c3 (ack_ecn_step now sp nl acked ack c6)" by (rule untouched_trans [OF _ ack_ecn_step_untouched])
  have "on_newly_acked now sp nl acked ack c = Some (set_loss_detection_timer now (ack_ecn_step now sp nl acked ack c6))"
    using c1(1) c3(1) by (simp add: on_newly_acked_def c2_def [symmetric] c4_def [symmetric] c5_def [symmetric] Let_def)
      (simp add: c6_def)
  then show ?thesis using untouched_ok [OF u c3(2)] u t3 k2 by (auto simp: untouched_def keeps_config_def)
qed

lemma on_ack_received_ok:
  assumes ok: "cn_ok w c" and tm: "time_ok start now c" "clock_ok start now c"
    and room: "ids_room (pm_closes (pk_sent_packets (cn_spaces c sp))) (cn_streams c)"
  shows "\<exists>r c'. on_ack_received now sp ack c = (r, c') \<and> r \<noteq> Inl Panic \<and> cn_ok w c' \<and> time_ok start now c' \<and> keeps_config c c'"
proof (cases "pk_next_packet_number (cn_spaces c sp) \<le> unat (ack_largest ack)")
  case True
  then show ?thesis using ok tm by (simp add: on_ack_received_def keeps_config_def)
next
  case False
  obtain nl c1 where c1: "update_largest_acked sp (unat (ack_largest ack)) c = (nl, c1)" by fastforce
  note u = update_largest_acked_ok [OF ok _ c1] and acc = on_ack_received_def c1
  have k1: "cn_ok w c1" "time_ok start now c1" "keeps_config c c1" using u(1,4,6) False tm(1) by auto
  have "clock_ok start now c1" "ids_room (pm_closes (pk_sent_packets (cn_spaces c1 sp))) (cn_streams c1)" "pk_largest_acked_packet (cn_spaces c1 sp) \<noteq> None"
    using clock_ok_keeps [OF tm(2)] k1(3) u(2,3,5) False room by (auto simp: keeps_config_def)
  note step = on_newly_acked_ok [OF k1(1,2) this(1,3,2)]
  show ?thesis
  proof (cases "newly_acked sp c1 (ack_iter (ack_largest ack) (ack_additional ack)) []")
    case (Inl e)
    then show ?thesis using False k1 by (simp add: acc)
  next
    case (Inr acked)
    obtain c' where "on_newly_acked now sp nl acked ack c1 = Some c'" "cn_ok w c'" "time_ok start now c'" "keeps_config c1 c'" using step by blast
    then show ?thesis using False k1 Inr by (simp add: acc keeps_config_def)
  qed
qed

section \<open>Time-outs\<close>

lemma first_min_in: "first_min xs = Some x \<Longrightarrow> x \<in> set xs"
  by (induction xs arbitrary: x) (auto split: option.splits if_splits)

lemma on_loss_detection_timeout_ok:
  assumes ok: "cn_ok w c" and tm: "time_ok start now c" "clock_ok start now c"
  shows "\<exists>c'. on_loss_detection_timeout now c = Some c' \<and> cn_ok w c' \<and> time_ok start now c' \<and> keeps_config c c'
    \<and> (\<forall>m. ids_room m (cn_streams c) \<longrightarrow> ids_room m (cn_streams c'))"
proof (cases "loss_time_and_space c")
  case None
  show ?thesis
  proof (cases "pto_time_and_space now c")
    case None
    then show ?thesis using \<open>loss_time_and_space c = None\<close> ok tm by (simp add: on_loss_detection_timeout_def keeps_config_def)
  next
    case (Some x)
    obtain t sp where x: "x = (t, sp)" by fastforce
    have "\<exists>f n. on_loss_detection_timeout now c
        = Some (set_loss_detection_timer now ((upd_space sp (\<lambda>k. k\<lparr>pk_loss_probes := f k\<rparr>) c)\<lparr>cn_pto_count := n\<rparr>))"
      unfolding on_loss_detection_timeout_def None Some x Let_def option.case prod.case by (intro exI, rule refl)
    then obtain c' where c': "on_loss_detection_timeout now c = Some c'" "untouched start now c c'"
      using untouched_timer untouched_pto untouched_probes by blast
    then show ?thesis using tm untouched_ok [OF c'(2) ok] by (auto simp: untouched_def)
  qed
next
  case (Some x)
  obtain t sp where x: "x = (t, sp)" by fastforce
  have "pk_loss_time (cn_spaces c sp) \<noteq> None"
    using first_min_in [OF Some [unfolded loss_time_and_space_def]] by (auto simp: x List.map_filter_def)
  then have "pk_largest_acked_packet (cn_spaces c sp) \<noteq> None" using ok by (simp add: cn_ok_def space_ok_def)
  from loss_params_exist [OF tm this] obtain l where l: "loss_params_of now sp False c = Some l" by blast
  from detect_lost_packets_ok [OF ok l] losses_handled_time [OF tm(1)] show ?thesis
    using Some by (auto simp: on_loss_detection_timeout_def x)
qed


section \<open>Discarding a space\<close>

definition abandon :: "nat \<times> sent_packet \<Rightarrow> connection \<Rightarrow> connection" where
  "abandon = (\<lambda>(pn, packet) c. remove_in_flight pn packet (upd_path (pd_call (CcOnPacketAbandoned (sn_sample_pn packet) (sn_size packet))) c))"

lemma abandon_all:
  assumes "if_bytes (pd_in_flight (cn_path c)) = pm_size ms + a" "if_ack_eliciting (pd_in_flight (cn_path c)) = pm_eliciting ms + b"
    "ms \<noteq> [] \<longrightarrow> pd_first_packet (cn_path c) = Some 0"
  shows "\<exists>p. fold abandon ms c = c\<lparr>cn_path := p\<rparr> \<and> if_bytes (pd_in_flight p) = a \<and> if_ack_eliciting (pd_in_flight p) = b
    \<and> pd_first_packet p = pd_first_packet (cn_path c) \<and> pd_mtud p = pd_mtud (cn_path c) \<and> pd_rtt p = pd_rtt (cn_path c)"
  using assms
proof (induction ms arbitrary: c)
  case Nil
  then show ?case by (auto simp: intro: exI [of _ "cn_path c"])
next
  case (Cons x ms)
  obtain pn p where x: "x = (pn, p)" by fastforce
  define c1 where "c1 = abandon x c"
  have c1: "\<exists>q. c1 = c\<lparr>cn_path := q\<rparr>" "pd_in_flight (cn_path c1) = if_remove p (pd_in_flight (cn_path c))" "pd_first_packet (cn_path c1) = Some 0"
    "pd_mtud (cn_path c1) = pd_mtud (cn_path c)" "pd_rtt (cn_path c1) = pd_rtt (cn_path c)"
    using Cons.prems(3) by (auto simp: c1_def abandon_def x remove_in_flight_first upd_path_def pd_call_def)
  have "if_bytes (pd_in_flight (cn_path c1)) = pm_size ms + a" "if_ack_eliciting (pd_in_flight (cn_path c1)) = pm_eliciting ms + b"
    using Cons.prems(1,2) by (auto simp: c1(2) if_remove_def x u64_sub_eq)
  from Cons.IH [OF this] c1 Cons.prems(3) show ?case by (auto simp: c1_def [symmetric])
qed

lemma discard_space_ok:
  assumes ok: "cn_ok w c" and sp: "sp \<noteq> SpaceData" "space_rank sp \<le> space_rank (cn_highest_space c)"
  shows "cn_ok w (discard_space now sp c)" "time_ok start t c \<Longrightarrow> time_ok start t (discard_space now sp c)"
    "cn_streams (discard_space now sp c) = cn_streams c" "keeps_config c (discard_space now sp c)"
proof -
  let ?sent = "pk_sent_packets (cn_spaces c sp)"
  define c0 where "c0 = upd_space sp (\<lambda>k. k\<lparr>pk_has_keys := False, pk_time_of_last_ack_eliciting_packet := None, pk_loss_time := None,
                pk_in_flight := 0, pk_sent_packets := []\<rparr>) c"
  have tr: "tracked f c = f ?sent + tracked f c0" if "f [] = (0::nat)" for f by (rule tracked_upd [where sp = sp]) (simp_all add: c0_def that)
  have "path_ok c" using ok by (simp add: cn_ok_def)
  then have "\<exists>p. fold abandon ?sent c0 = c0\<lparr>cn_path := p\<rparr> \<and> if_bytes (pd_in_flight p) = tracked pm_size c0
      \<and> if_ack_eliciting (pd_in_flight p) = tracked pm_eliciting c0 \<and> pd_first_packet p = pd_first_packet (cn_path c0)
      \<and> pd_mtud p = pd_mtud (cn_path c0) \<and> pd_rtt p = pd_rtt (cn_path c0)"
    by (intro abandon_all) (auto simp: path_ok_def tr [of pm_size] tr [of pm_eliciting] c0_def split: option.splits)
  then obtain p where p: "fold abandon ?sent c0 = c0\<lparr>cn_path := p\<rparr>" "if_bytes (pd_in_flight p) = tracked pm_size c0"
      "if_ack_eliciting (pd_in_flight p) = tracked pm_eliciting c0" "pd_first_packet p = pd_first_packet (cn_path c)"
      "pd_mtud p = pd_mtud (cn_path c)" "pd_rtt p = pd_rtt (cn_path c)" by (auto simp: c0_def)
  define c1 where "c1 = c0\<lparr>cn_path := p\<rparr>"
  have d: "discard_space now sp c = set_loss_detection_timer now c1"
    by (simp add: discard_space_def c0_def [symmetric] abandon_def [symmetric] p(1) c1_def Let_def)
  have "space_ok c1 q" for q
  proof -
    have "space_ok c q" using ok by (simp add: cn_ok_def)
    then show ?thesis using sp by (cases "q = sp") (auto simp: space_ok_def live_def c1_def c0_def packet_ok_def pk_ok_def pm_keys_def)
  qed
  moreover have "path_ok c1" using \<open>path_ok c\<close> p(2-4) sp(1) by (auto simp: path_ok_def c1_def c0_def tracked_def split: option.splits)
  moreover have "probe_ok c1" "streams_ok w (data_frames c1) (cn_streams c1)" "nf_ok (cn_packet_number_filter c1)"
    using ok sp(1) p(5) by (simp_all add: cn_ok_def probe_ok_def data_frames_def c1_def c0_def)
  ultimately have "cn_ok w c1" by (simp add: cn_ok_def)
  then show "cn_ok w (discard_space now sp c)" by (simp add: d)
  show "cn_streams (discard_space now sp c) = cn_streams c" "keeps_config c (discard_space now sp c)" by (simp_all add: d c1_def c0_def keeps_config_def)
  show "time_ok start t c \<Longrightarrow> time_ok start t (discard_space now sp c)"
    by (simp add: d) (auto simp: time_ok_def rtt_limit_def c1_def c0_def p(6))
qed

end
