(* ===== verification/Populate.thy ===== *)
theory Populate
  imports Recovery
begin

text \<open>
  Filling packets with frames: \<^verbatim>\<open>Connection::populate_packet\<close> and \<^verbatim>\<open>populate_acks\<close> (\<^verbatim>\<open>connection/mod.rs\<close>), one
  definition per kind of frame in the order of the source.  A step fails with the context that the source gives to
  \<^verbatim>\<open>encode_or_close!\<close>, or panics.
\<close>

section \<open>Model\<close>

record packet_writer =
  pw_conn :: connection
  pw_sent :: sent_frames
  pw_buf :: bytes

type_synonym writer_op = "(packet_writer, string failure, unit) op"

definition pw_encode :: "string \<Rightarrow> encoder \<Rightarrow> writer_op" where
  "pw_encode frame_name e w = (case e (pw_buf w) of
      (Inl _, buf) \<Rightarrow> (Inl (Err frame_name), w\<lparr>pw_buf := buf\<rparr>)
    | (Inr _, buf) \<Rightarrow> (Inr (), w\<lparr>pw_buf := buf\<rparr>))"

definition pw_space :: "space_id \<Rightarrow> packet_writer \<Rightarrow> packet_space" where
  "pw_space space w = cn_spaces (pw_conn w) space"

definition pw_upd_space :: "space_id \<Rightarrow> (packet_space \<Rightarrow> packet_space) \<Rightarrow> packet_writer \<Rightarrow> packet_writer" where
  "pw_upd_space space f w = w\<lparr>pw_conn := upd_space space f (pw_conn w)\<rparr>"

definition pw_upd_pending :: "space_id \<Rightarrow> (pending_frames \<Rightarrow> pending_frames) \<Rightarrow> packet_writer \<Rightarrow> packet_writer" where
  "pw_upd_pending space f = pw_upd_space space (\<lambda>k. k\<lparr>pk_pending := f (pk_pending k)\<rparr>)"

text \<open>\<^verbatim>\<open>sent.retransmits.get_or_create()\<close>, changed in place.\<close>

definition pw_record :: "(pending_frames \<Rightarrow> pending_frames) \<Rightarrow> packet_writer \<Rightarrow> packet_writer" where
  "pw_record f w = w\<lparr>pw_sent := (pw_sent w)\<lparr>sn_frames_retransmits := Some (f (thin_get_or_create (sn_frames_retransmits (pw_sent w))))\<rparr>\<rparr>"

definition pw_non_retransmits :: "packet_writer \<Rightarrow> packet_writer" where
  "pw_non_retransmits w = w\<lparr>pw_sent := (pw_sent w)\<lparr>sn_frames_non_retransmits := True\<rparr>\<rparr>"

definition pw_room :: "nat \<Rightarrow> nat \<Rightarrow> packet_writer \<Rightarrow> bool" where
  "pw_room max_size n w \<longleftrightarrow> length (pw_buf w) + n < max_size"

subsection \<open>Frames without data\<close>

definition pw_handshake_done :: "space_id \<Rightarrow> bool \<Rightarrow> writer_op" where
  "pw_handshake_done space is_0rtt w =
     (if \<not> is_0rtt \<and> pf_handshake_done (pk_pending (pw_space space w))
      then op_bind (pw_encode ''HANDSHAKE_DONE'' (write_var HANDSHAKE_DONE))
             (\<lambda>_ w. (Inr (), pw_record (\<lambda>f. f\<lparr>pf_handshake_done := True\<rparr>) w))
             (pw_upd_pending space (\<lambda>f. f\<lparr>pf_handshake_done := False\<rparr>) w)
      else (Inr (), w))"

definition pw_ping :: "space_id \<Rightarrow> writer_op" where
  "pw_ping space w =
     (if pk_ping_pending (pw_space space w)
      then op_bind (pw_encode ''PING'' (write_var PING)) (\<lambda>_ w. (Inr (), pw_non_retransmits w))
             (pw_upd_space space (\<lambda>k. k\<lparr>pk_ping_pending := False\<rparr>) w)
      else (Inr (), w))"

definition pw_immediate_ack :: "space_id \<Rightarrow> writer_op" where
  "pw_immediate_ack space w =
     (if pk_immediate_ack_pending (pw_space space w)
      then op_bind (pw_encode ''IMMEDIATE_ACK'' (write_var IMMEDIATE_ACK)) (\<lambda>_ w. (Inr (), pw_non_retransmits w))
             (pw_upd_space space (\<lambda>k. k\<lparr>pk_immediate_ack_pending := False\<rparr>) w)
      else (Inr (), w))"

subsection \<open>Acknowledgements\<close>

text \<open>The delay is announced with the default exponent.\<close>

definition DEFAULT_ACK_DELAY_EXPONENT :: nat where "DEFAULT_ACK_DELAY_EXPONENT = 3"

definition populate_acks :: "instant \<Rightarrow> space_id \<Rightarrow> writer_op" where
  "populate_acks now space w =
     (let k = pw_space space w;
          ecn = (if cn_receiving_ecn (pw_conn w) then Some (pk_ecn_counters k) else None);
          delay_micros = (of_nat (pa_ack_delay now (pk_pending_acks k) div 1000) :: u64);
          delay = drop_bit DEFAULT_ACK_DELAY_EXPONENT delay_micros
      in pw_encode ''ACK'' (ack_try_encode delay (pa_ranges (pk_pending_acks k)) ecn)
           (w\<lparr>pw_sent := (pw_sent w)\<lparr>sn_frames_largest_acked := array_max (pa_ranges (pk_pending_acks k))\<rparr>\<rparr>))"

definition pw_acks :: "instant \<Rightarrow> space_id \<Rightarrow> writer_op" where
  "pw_acks now space w = (if pa_can_send (pk_pending_acks (pw_space space w)) then populate_acks now space w else (Inr (), w))"

definition pw_ack_frequency :: "space_id \<Rightarrow> nat \<Rightarrow> writer_op" where
  "pw_ack_frequency space pn w =
     (if pf_ack_frequency (pk_pending (pw_space space w))
      then let w = pw_upd_pending space (\<lambda>f. f\<lparr>pf_ack_frequency := False\<rparr>) w; c = pw_conn w in
        case next_sequence_number (cn_ack_frequency c) of
          None \<Rightarrow> (Inl Panic, w)
        | Some (sequence_number, s) \<Rightarrow> (case tc_ack_frequency (cn_config c) of
              None \<Rightarrow> (Inl Panic, w)
            | Some config \<Rightarrow> (case candidate_max_ack_delay (re_get (pd_rtt (cn_path c))) config (tc_min_ack_delay (cn_config c)) s of
                  None \<Rightarrow> (Inl Panic, w)
                | Some max_ack_delay \<Rightarrow>
                    op_bind (pw_encode ''ACK_FREQUENCY'' (af_try_encode \<lparr>af_sequence = of_nat sequence_number,
                        af_ack_eliciting_threshold = ac_ack_eliciting_threshold config,
                        af_request_max_ack_delay = (if max_ack_delay div 1000 < 2 ^ 62 then of_nat (max_ack_delay div 1000) else varint_max),
                        af_reordering_threshold = ac_reordering_threshold config\<rparr>))
                      (\<lambda>_ w. let w = pw_record (\<lambda>f. f\<lparr>pf_ack_frequency := True\<rparr>) w; c = pw_conn w in
                         (Inr (), w\<lparr>pw_conn := c\<lparr>cn_ack_frequency := ack_frequency_sent pn max_ack_delay (cn_ack_frequency c)\<rparr>\<rparr>))
                      (w\<lparr>pw_conn := c\<lparr>cn_ack_frequency := s\<rparr>\<rparr>)))
      else (Inr (), w))"

subsection \<open>Path validation\<close>

definition pw_padded :: "packet_writer \<Rightarrow> packet_writer" where
  "pw_padded w = w\<lparr>pw_sent := (pw_sent w)\<lparr>sn_frames_non_retransmits := True, sn_frames_requires_padding := True\<rparr>\<rparr>"

definition pw_path_challenge :: "space_id \<Rightarrow> nat \<Rightarrow> writer_op" where
  "pw_path_challenge space max_size w =
     (if pw_room max_size 9 w \<and> space = SpaceData
      then case pd_challenge (cn_path (pw_conn w)) of
             Some token \<Rightarrow> pw_encode ''PATH_CHALLENGE'' (write_path_challenge (of_nat token))
               (pw_padded (w\<lparr>pw_conn := upd_path (\<lambda>p. p\<lparr>pd_challenge_pending := False\<rparr>) (pw_conn w)\<rparr>))
           | None \<Rightarrow> (Inr (), w)
      else (Inr (), w))"

definition pw_path_response :: "space_id \<Rightarrow> nat \<Rightarrow> writer_op" where
  "pw_path_response space max_size w =
     (if pw_room max_size 9 w \<and> space = SpaceData
      then case pop_on_path (pd_remote (cn_path (pw_conn w))) (cn_path_responses (pw_conn w)) of
             (Some token, rest) \<Rightarrow> pw_encode ''PATH_RESPONSE'' (write_path_response (of_nat token))
               (pw_padded (w\<lparr>pw_conn := (pw_conn w)\<lparr>cn_path_responses := rest\<rparr>\<rparr>))
           | (None, _) \<Rightarrow> (Inr (), w)
      else (Inr (), w))"

subsection \<open>Handshake data\<close>

definition MAX_CRYPTO_FRAME_SIZE :: nat where "MAX_CRYPTO_FRAME_SIZE = 1200"

definition calculate_crypto_frame_size :: "bool \<Rightarrow> nat \<Rightarrow> nat \<Rightarrow> nat" where
  "calculate_crypto_frame_size pqc_detected available_space remaining_data =
     min (if pqc_detected then min available_space MAX_CRYPTO_FRAME_SIZE else min available_space 600) remaining_data"

definition crypto_len :: "bool \<Rightarrow> nat \<Rightarrow> nat \<Rightarrow> crypto_frame \<Rightarrow> nat" where
  "crypto_len pqc_detected max_size buf_len frame =
     (let max_crypto_data_size = u64_sub (u64_sub (u64_sub (u64_sub max_size buf_len) 1) (varint_size (cr_offset frame))) 2;
          optimal_size = calculate_crypto_frame_size pqc_detected (u64_sub max_size buf_len) (length (cr_data frame))
      in min (min (min (length (cr_data frame)) (2 ^ 14 - 1)) max_crypto_data_size) optimal_size)"

text \<open>The frame that is sent, and the rest that goes back to the front of the queue.\<close>

definition crypto_split :: "nat \<Rightarrow> crypto_frame \<Rightarrow> crypto_frame \<times> crypto_frame list" where
  "crypto_split len frame = (frame\<lparr>cr_data := take len (cr_data frame)\<rparr>,
     if drop len (cr_data frame) = [] then []
     else [\<lparr>cr_offset = cr_offset frame + of_nat len, cr_data = drop len (cr_data frame)\<rparr>])"

definition crypto_step :: "space_id \<Rightarrow> nat \<Rightarrow> crypto_frame \<Rightarrow> crypto_frame list \<Rightarrow> packet_writer \<Rightarrow> (string failure + crypto_frame list) \<times> packet_writer" where
  "crypto_step space max_size frame rest w =
     (case crypto_split (crypto_len (tc_pqc_detected (cn_config (pw_conn w))) max_size (length (pw_buf w)) frame) frame of
        (truncated, remainder) \<Rightarrow>
          op_bind (pw_encode ''CRYPTO'' (cr_try_encode truncated))
            (\<lambda>_ w. (Inr (remainder @ rest), pw_upd_pending space (\<lambda>f. f\<lparr>pf_crypto := remainder @ rest\<rparr>)
               (pw_record (\<lambda>f. f\<lparr>pf_crypto := pf_crypto f @ [truncated]\<rparr>) w)))
            (pw_upd_pending space (\<lambda>f. f\<lparr>pf_crypto := rest\<rparr>) w))"

definition crypto_queue_size :: "crypto_frame list \<Rightarrow> nat" where
  "crypto_queue_size q = sum_list (map (\<lambda>f. Suc (length (cr_data f))) q)"

lemma crypto_len_pos:
  assumes "buf_len + 25 < max_size" "cr_data frame \<noteq> []"
  shows "0 < crypto_len pqc max_size buf_len frame"
proof -
  have "varint_size (cr_offset frame) \<le> 8" by (simp add: varint_size_def)
  then have "0 < u64_sub (u64_sub (u64_sub (u64_sub max_size buf_len) 1) (varint_size (cr_offset frame))) 2"
    using assms(1) by (simp add: u64_sub_eq)
  moreover have "0 < calculate_crypto_frame_size pqc (u64_sub max_size buf_len) (length (cr_data frame))"
    using assms by (simp add: u64_sub_eq calculate_crypto_frame_size_def MAX_CRYPTO_FRAME_SIZE_def)
  ultimately show ?thesis using assms(2) unfolding crypto_len_def Let_def by simp
qed

lemma crypto_step_shrinks:
  assumes "pw_room max_size 25 w" "crypto_step space max_size frame rest w = (Inr queue, w')"
  shows "crypto_queue_size queue < crypto_queue_size (frame # rest)"
proof -
  define len where "len = crypto_len (tc_pqc_detected (cn_config (pw_conn w))) max_size (length (pw_buf w)) frame"
  obtain truncated remainder where s: "crypto_split len frame = (truncated, remainder)" by fastforce
  have "queue = remainder @ rest" using assms(2) s unfolding crypto_step_def len_def [symmetric]
    by (auto simp: op_bind_def split: prod.splits sum.splits)
  moreover have "crypto_queue_size remainder < Suc (length (cr_data frame))"
  proof (cases "drop len (cr_data frame) = []")
    case False
    then have "cr_data frame \<noteq> []" by auto
    then have "0 < len" using crypto_len_pos [of "length (pw_buf w)" max_size frame] assms(1) by (auto simp: len_def pw_room_def)
    then show ?thesis using s False by (auto simp: crypto_split_def crypto_queue_size_def)
  qed (use s in \<open>simp add: crypto_split_def crypto_queue_size_def\<close>)
  ultimately show ?thesis by (simp add: crypto_queue_size_def)
qed

text \<open>Each round takes a frame off the queue or at least one byte off it.\<close>

function pw_crypto :: "space_id \<Rightarrow> nat \<Rightarrow> bool \<Rightarrow> crypto_frame list \<Rightarrow> writer_op" where
  "pw_crypto space max_size is_0rtt [] w = (Inr (), w)"
| "pw_crypto space max_size is_0rtt (frame # rest) w =
     (if pw_room max_size 25 w \<and> \<not> is_0rtt
      then case crypto_step space max_size frame rest w of
             (Inl e, w) \<Rightarrow> (Inl e, w)
           | (Inr queue, w) \<Rightarrow> pw_crypto space max_size is_0rtt queue w
      else (Inr (), w))"
  by pat_completeness auto

termination
  by (relation "measure (\<lambda>(_, _, _, q, _). crypto_queue_size q)") (auto dest: crypto_step_shrinks [OF _ sym])

declare pw_crypto.simps [simp del]

subsection \<open>Control frames of the streams\<close>

definition pw_control :: "space_id \<Rightarrow> nat \<Rightarrow> writer_op" where
  "pw_control space max_size w =
     (if space = SpaceData
      then case write_control_frames max_size
                  \<lparr>wc_streams = cn_streams (pw_conn w), wc_pending = pf_streams (pk_pending (pw_space space w)),
                   wc_sent = pf_streams (thin_get_or_create (sn_frames_retransmits (pw_sent w))), wc_buf = pw_buf w\<rparr> of
             (r, c) \<Rightarrow>
               let w = w\<lparr>pw_conn := (pw_conn w)\<lparr>cn_streams := wc_streams c\<rparr>, pw_buf := wc_buf c\<rparr>;
                   w = pw_upd_pending space (\<lambda>f. f\<lparr>pf_streams := wc_pending c\<rparr>) w;
                   w = (if wc_sent c = pf_streams (thin_get_or_create (sn_frames_retransmits (pw_sent w))) then w
                        else pw_record (\<lambda>f. f\<lparr>pf_streams := wc_sent c\<rparr>) w)
               in case r of
                    Inl (Err _) \<Rightarrow> (Inl (Err ''control frames''), w)
                  | Inl Panic \<Rightarrow> (Inl Panic, w)
                  | Inr _ \<Rightarrow> (Inr (), w)
      else (Inr (), w))"

subsection \<open>Queues that are popped from the end\<close>

text \<open>The queue is given in the order in which it is popped.\<close>

fun pw_pop_loop :: "space_id \<Rightarrow> nat \<Rightarrow> nat \<Rightarrow> string \<Rightarrow> ('a \<Rightarrow> encoder) \<Rightarrow> ('a list \<Rightarrow> pending_frames \<Rightarrow> pending_frames)
    \<Rightarrow> ('a \<Rightarrow> pending_frames \<Rightarrow> pending_frames) \<Rightarrow> 'a list \<Rightarrow> writer_op" where
  "pw_pop_loop space max_size bound frame_name enc put_back push [] w = (Inr (), w)"
| "pw_pop_loop space max_size bound frame_name enc put_back push (x # xs) w =
     (if pw_room max_size bound w
      then op_bind (pw_encode frame_name (enc x))
             (\<lambda>_ w. pw_pop_loop space max_size bound frame_name enc put_back push xs (pw_record (push x) w))
             (pw_upd_pending space (put_back (rev xs)) w)
      else (Inr (), w))"

definition pw_new_cids :: "space_id \<Rightarrow> nat \<Rightarrow> writer_op" where
  "pw_new_cids space max_size w = pw_pop_loop space max_size 44 ''NEW_CONNECTION_ID''
     (\<lambda>issued. nc_try_encode (new_cid_frame (cn_local_cid_state (pw_conn w)) issued))
     (\<lambda>q f. f\<lparr>pf_new_cids := q\<rparr>) (\<lambda>x f. f\<lparr>pf_new_cids := pf_new_cids f @ [x]\<rparr>)
     (rev (pf_new_cids (pk_pending (pw_space space w)))) w"

definition pw_retire_cids :: "space_id \<Rightarrow> nat \<Rightarrow> writer_op" where
  "pw_retire_cids space max_size w = pw_pop_loop space max_size 9 ''RETIRE_CONNECTION_ID''
     (\<lambda>seq. write_retire_connection_id (of_nat seq))
     (\<lambda>q f. f\<lparr>pf_retire_cids := q\<rparr>) (\<lambda>x f. f\<lparr>pf_retire_cids := pf_retire_cids f @ [x]\<rparr>)
     (rev (pf_retire_cids (pk_pending (pw_space space w)))) w"

subsection \<open>Datagrams\<close>

fun pw_datagrams_loop :: "nat \<Rightarrow> nat \<Rightarrow> bool \<Rightarrow> packet_writer \<Rightarrow> bool \<times> packet_writer" where
  "pw_datagrams_loop max_size 0 sent_datagrams w = (sent_datagrams, w)"
| "pw_datagrams_loop max_size (Suc n) sent_datagrams w =
     (if pw_room max_size dg_SIZE_BOUND w
      then case dq_write max_size (pw_buf w) (cn_datagrams (pw_conn w)) of
             (True, buf, d) \<Rightarrow> pw_datagrams_loop max_size n True
               (pw_non_retransmits (w\<lparr>pw_buf := buf, pw_conn := (pw_conn w)\<lparr>cn_datagrams := d\<rparr>\<rparr>))
           | (False, _, _) \<Rightarrow> (sent_datagrams, w)
      else (sent_datagrams, w))"

text \<open>Each round takes a datagram off the queue, so one more round than it is long finds it empty.\<close>

definition pw_datagrams :: "space_id \<Rightarrow> nat \<Rightarrow> writer_op" where
  "pw_datagrams space max_size w =
     (if space = SpaceData
      then case pw_datagrams_loop max_size (Suc (length (dq_outgoing (cn_datagrams (pw_conn w))))) False w of
             (sent_datagrams, w) \<Rightarrow>
               let c = pw_conn w in
               (Inr (), if dq_send_blocked (cn_datagrams c) \<and> sent_datagrams
                        then w\<lparr>pw_conn := c\<lparr>cn_events := cn_events c @ [DatagramsUnblocked],
                               cn_datagrams := (cn_datagrams c)\<lparr>dq_send_blocked := False\<rparr>\<rparr>\<rparr>
                        else w)
      else (Inr (), w))"

subsection \<open>Tokens\<close>

fun pw_new_tokens_loop :: "space_id \<Rightarrow> nat \<Rightarrow> socket_addr list \<Rightarrow> writer_op" where
  "pw_new_tokens_loop space max_size [] w = (Inr (), w)"
| "pw_new_tokens_loop space max_size (remote_addr # rest) w =
     (let w = pw_upd_pending space (\<lambda>f. f\<lparr>pf_new_tokens := rev rest\<rparr>) w; c = pw_conn w;
          requeue = pw_upd_pending space (\<lambda>f. f\<lparr>pf_new_tokens := rev rest @ [remote_addr]\<rparr>)
      in if cn_side c \<noteq> Server \<or> remote_addr \<noteq> pd_remote (cn_path c) then pw_new_tokens_loop space max_size rest w
         else if tc_delay_new_tokens (cn_config c) then (Inr (), requeue w)
         else case tc_encode_token (cn_config c) remote_addr of
                None \<Rightarrow> pw_new_tokens_loop space max_size rest w
              | Some token \<Rightarrow>
                  if max_size \<le> length (pw_buf w) + nt_size \<lparr>nt_token = token\<rparr> then (Inr (), requeue w)
                  else op_bind (pw_encode ''NEW_TOKEN'' (nt_try_encode \<lparr>nt_token = token\<rparr>))
                         (\<lambda>_ w. pw_new_tokens_loop space max_size rest
                            (pw_record (\<lambda>f. f\<lparr>pf_new_tokens := pf_new_tokens f @ [remote_addr]\<rparr>) w)) w)"

definition pw_new_tokens :: "space_id \<Rightarrow> nat \<Rightarrow> writer_op" where
  "pw_new_tokens space max_size w = pw_new_tokens_loop space max_size (rev (pf_new_tokens (pk_pending (pw_space space w)))) w"

subsection \<open>NAT traversal\<close>

definition pw_add_addresses :: "space_id \<Rightarrow> nat \<Rightarrow> writer_op" where
  "pw_add_addresses space max_size w =
     (if space = SpaceData
      then pw_pop_loop space max_size (4 + 9 + 9 + 1 + 16 + 2 + 4 + 4) ''ADD_ADDRESS''
        (if tc_use_rfc_format (cn_config (pw_conn w)) then aa_try_encode_rfc else aa_try_encode_legacy)
        (\<lambda>q f. f\<lparr>pf_add_addresses := q\<rparr>) (\<lambda>x f. f\<lparr>pf_add_addresses := pf_add_addresses f @ [x]\<rparr>)
        (rev (pf_add_addresses (pk_pending (pw_space space w)))) w
      else (Inr (), w))"

definition pw_punch_me_now :: "space_id \<Rightarrow> nat \<Rightarrow> writer_op" where
  "pw_punch_me_now space max_size w =
     (if space = SpaceData
      then pw_pop_loop space max_size (4 + 9 + 9 + 1 + 16 + 2 + 4 + 4 + 1 + 32) ''PUNCH_ME_NOW''
        (if tc_use_rfc_format (cn_config (pw_conn w)) then pm_try_encode_rfc else pm_try_encode_legacy)
        (\<lambda>q f. f\<lparr>pf_punch_me_now := q\<rparr>) (\<lambda>x f. f\<lparr>pf_punch_me_now := pf_punch_me_now f @ [x]\<rparr>)
        (rev (pf_punch_me_now (pk_pending (pw_space space w)))) w
      else (Inr (), w))"

definition pw_remove_addresses :: "space_id \<Rightarrow> nat \<Rightarrow> writer_op" where
  "pw_remove_addresses space max_size w =
     (if space = SpaceData
      then pw_pop_loop space max_size (4 + 9) ''REMOVE_ADDRESS'' ra_try_encode
        (\<lambda>q f. f\<lparr>pf_remove_addresses := q\<rparr>) (\<lambda>x f. f\<lparr>pf_remove_addresses := pf_remove_addresses f @ [x]\<rparr>)
        (rev (pf_remove_addresses (pk_pending (pw_space space w)))) w
      else (Inr (), w))"

definition pw_observations :: "space_id \<Rightarrow> nat \<Rightarrow> writer_op" where
  "pw_observations space max_size w =
     (if space = SpaceData
      then pw_pop_loop space max_size (4 + 8 + 16 + 2) ''OBSERVED_ADDRESS'' oa_try_encode
        (\<lambda>q f. f\<lparr>pf_outbound_observations := q\<rparr>) (\<lambda>x f. f\<lparr>pf_outbound_observations := pf_outbound_observations f @ [x]\<rparr>)
        (rev (pf_outbound_observations (pk_pending (pw_space space w)))) w
      else (Inr (), w))"

subsection \<open>Stream data\<close>

definition pw_streams :: "space_id \<Rightarrow> nat \<Rightarrow> writer_op" where
  "pw_streams space max_size w =
     (if space = SpaceData
      then case write_stream_frames max_size (tc_send_fairness (cn_config (pw_conn w))) (pw_buf w) (cn_streams (pw_conn w)) of
             None \<Rightarrow> (Inl Panic, w)
           | Some (metas, buf, s) \<Rightarrow> (Inr (), w\<lparr>pw_buf := buf, pw_conn := (pw_conn w)\<lparr>cn_streams := s\<rparr>,
               pw_sent := (pw_sent w)\<lparr>sn_frames_stream_frames := metas\<rparr>\<rparr>)
      else (Inr (), w))"

subsection \<open>The whole packet\<close>

definition populate_steps :: "instant \<Rightarrow> space_id \<Rightarrow> nat \<Rightarrow> nat \<Rightarrow> bool \<Rightarrow> writer_op list" where
  "populate_steps now space max_size pn is_0rtt =
     [pw_handshake_done space is_0rtt, pw_ping space, pw_immediate_ack space, pw_acks now space, pw_ack_frequency space pn,
      pw_path_challenge space max_size, pw_path_response space max_size,
      \<lambda>w. pw_crypto space max_size is_0rtt (pf_crypto (pk_pending (pw_space space w))) w,
      pw_control space max_size, pw_new_cids space max_size, pw_retire_cids space max_size, pw_datagrams space max_size,
      pw_new_tokens space max_size, pw_add_addresses space max_size, pw_punch_me_now space max_size,
      pw_remove_addresses space max_size, pw_observations space max_size, pw_streams space max_size]"

fun op_seq :: "('s, 'e, unit) op list \<Rightarrow> ('s, 'e, unit) op" where
  "op_seq [] = op_ret ()"
| "op_seq (e # es) = op_bind e (\<lambda>_. op_seq es)"

text \<open>An encoding error closes the connection; None is a panic.\<close>

definition varint_overflow_close :: close where
  "varint_overflow_close = CloseConnection \<lparr>cc_error_code = 1, cc_frame_type = None, cc_reason = map (of_nat \<circ> of_char) ''varint overflow during encoding''\<rparr>"

definition populate_packet :: "instant \<Rightarrow> space_id \<Rightarrow> bytes \<Rightarrow> nat \<Rightarrow> nat \<Rightarrow> connection \<Rightarrow> (sent_frames \<times> bytes \<times> connection) option" where
  "populate_packet now space buf max_size pn c =
     (let is_0rtt = (space = SpaceData \<and> \<not> pk_has_keys (cn_spaces c space));
          c = upd_space space (\<lambda>k. k\<lparr>pk_pending_acks := maybe_ack_non_eliciting (pk_pending_acks k)\<rparr>) c
      in case op_seq (populate_steps now space max_size pn is_0rtt) \<lparr>pw_conn = c, pw_sent = sent_frames_default, pw_buf = buf\<rparr> of
           (Inr _, w) \<Rightarrow> Some (pw_sent w, pw_buf w, pw_conn w)
         | (Inl (Err _), w) \<Rightarrow> Some (pw_sent w, pw_buf w, close_inner now varint_overflow_close (pw_conn w))
         | (Inl Panic, _) \<Rightarrow> None)"

end
