(* ===== verification/Spec2Isabelle.thy ===== *)
theory Spec2Isabelle
  imports BTree_Range_Set Arq_Protocol Constrained_Engine Send_Buffer Assembler Frame_Payload Streams_Progress Streams_Limits Cid_Exchange Dedup Recovery_Acks Populate
begin

text \<open>
  Verification of the saorsa-transport crate (\<^verbatim>\<open>src/src\<close>): a QUIC implementation with NAT traversal
  frames, and a small reliable protocol for constrained links beside it.

  \<^bold>\<open>The program.\<close>  A QUIC connection (\<^verbatim>\<open>connection/mod.rs\<close>) reads and writes packets whose payloads are
  sequences of frames (\<^verbatim>\<open>frame.rs\<close>, \<^verbatim>\<open>frame/nat_traversal_unified.rs\<close>), themselves built from variable-length
  integers and fixed-width fields (\<^verbatim>\<open>varint.rs\<close>, \<^verbatim>\<open>coding.rs\<close>).  Stream data passes through a send buffer
  (\<^verbatim>\<open>connection/send_buffer.rs\<close>), the streams of the connection (\<^verbatim>\<open>connection/streams\<close>) and, on the other side,
  an assembler (\<^verbatim>\<open>connection/assembler.rs\<close>); both ends keep their accounts in range sets (\<^verbatim>\<open>range_set\<close>).
  Connection identifiers are issued, retired and replaced by \<^verbatim>\<open>connection/cid_state.rs\<close> and \<^verbatim>\<open>cid_queue.rs\<close>.
  Packet number spaces (\<^verbatim>\<open>connection/spaces.rs\<close>) remember the packets sent and received.  The constrained
  protocol (\<^verbatim>\<open>constrained\<close>) has a packet format, a connection state machine, windows with retransmission, and
  an engine that multiplexes connections.

  \<^bold>\<open>Conventions.\<close>  Arithmetic follows the release profile: it wraps, and the model writes the wrap-around out
  (\<open>u64_add\<close>, \<open>u64_sub\<close>, \<open>u64_sat_add\<close> on \<^typ>\<open>nat\<close>, or machine words).  Every \<^verbatim>\<open>Err\<close> and every panic
  (\<^verbatim>\<open>unwrap\<close>, \<^verbatim>\<open>expect\<close>, \<^verbatim>\<open>assert!\<close>, out-of-range index) is a value: \<open>Inl (Err e)\<close> or \<open>Inl Panic\<close> of an
  operation, or \<open>None\<close> where nothing but a panic is possible.  Instants and durations are natural numbers of
  nanoseconds.  A record has the fields of the Rust structure with a two-letter prefix; hash maps are functions
  to \<^typ>\<open>'a option\<close> or association lists, B-trees are lists in key order.

  \<^bold>\<open>Theories.\<close>
  \<^item> \<open>Prelude\<close>: machine arithmetic, operations with errors, reachability, generic lemmas.
  \<^item> \<open>Coding\<close> (\<^verbatim>\<open>coding.rs\<close>, \<^verbatim>\<open>varint.rs\<close>): encoders and decoders; the locales \<open>codec\<close> and \<open>fixed_codec\<close> are
    interpreted on every coder of the crate.  Round trip and bounds of variable-length integers.
  \<^item> \<open>Range_Set\<close>, \<open>Array_Range_Set\<close>, \<open>BTree_Range_Set\<close> (\<^verbatim>\<open>range_set\<close>): both implementations return the same
    results and refine sets of numbers; the replacing iterator reports exactly the overlap.
  \<^item> \<open>Wire\<close>, \<open>Frame_Types\<close>, \<open>Ack_Frames\<close>, \<open>Nat_Frames\<close>, \<open>Frames\<close>, \<open>Frame_Payload\<close>: every frame with its writer
    and its reader, the frame iterator, and whole payloads.  Round trips, termination on any input, and that no
    accepted ACK frame makes the unchecked subtractions of its iterator wrap.
  \<^item> \<open>Send_Buffer\<close>, \<open>Assembler\<close>, \<open>Binary_Heap\<close>: each byte of a stream is acknowledged, in flight, lost or unsent;
    reads return a prefix of the stream, each byte once.
  \<^item> \<open>Stream_Ids\<close>, \<open>Pending_Streams\<close>, \<open>Streams_Send\<close>, \<open>Streams_Recv\<close>, \<open>Streams_State\<close>, \<open>Streams_Api\<close>: the streams of a
    connection, one definition per method of \<^verbatim>\<open>Send\<close>, \<^verbatim>\<open>Recv\<close>, \<^verbatim>\<open>StreamsState\<close>, \<^verbatim>\<open>Streams\<close>, \<^verbatim>\<open>SendStream\<close>,
    \<^verbatim>\<open>RecvStream\<close> and \<^verbatim>\<open>Chunks\<close>.
  \<^item> \<open>Streams_Tables\<close>, \<open>Streams_Receiving\<close>, \<open>Streams_Sending\<close>, \<open>Streams_Transmit\<close>, \<open>Streams_System\<close>, \<open>Streams_Flow\<close>,
    \<open>Streams_Progress\<close>, \<open>Streams_Limits\<close>: the invariant of the streams, that every event keeps it and returns
    without a panic, flow control in both directions, the contents of packets, that everything written is sent
    eventually, and the sequences of frames on which the accounting of the code fails.
  \<^item> \<open>Cid_Queue\<close>, \<open>Cid_State\<close>, \<open>Cid_Exchange\<close>: the queue refines a finite map, and two endpoints never exceed
    the limit on active identifiers.
  \<^item> \<open>Dedup\<close>, \<open>Pending_Acks\<close>, \<open>Packet_Space\<close> (\<^verbatim>\<open>connection/spaces.rs\<close>, \<^verbatim>\<open>connection/ack_frequency.rs\<close>): the duplicate
    filter refines a set, the ranges to acknowledge are exactly the packets owed an acknowledgement, and the
    packets sent with their counters.
  \<^item> \<open>Mtud\<close> (\<^verbatim>\<open>connection/mtud.rs\<close>): MTU discovery and black hole detection; the search converges.
  \<^item> \<open>Datagrams\<close> (\<^verbatim>\<open>connection/datagrams.rs\<close>): the queues of unreliable datagrams keep exact byte counts.
  \<^item> \<open>Paths\<close> (\<^verbatim>\<open>connection/paths.rs\<close>, \<^verbatim>\<open>connection/timer.rs\<close>): round-trip estimation within the samples, packets in
    flight, path responses, timers.  A congestion controller is known by the calls it receives.
  \<^item> \<open>Connection_State\<close>, \<open>Recovery\<close> (\<^verbatim>\<open>connection/mod.rs\<close>, \<^verbatim>\<open>connection/packet_builder.rs\<close>): the connection as far as
    sending and recovery use it, and loss recovery itself: acknowledgements, lost packets, probe time-outs,
    discarded spaces, migration.
  \<^item> \<open>Recovery_Inv\<close>, \<open>Recovery_Acks\<close>: the invariant that ties tracked packets, bytes in flight, the MTU probe and the
    frames of the streams together, and that losses, acknowledgements, time-outs and discarded spaces keep it
    without a panic.
  \<^item> \<open>Populate\<close>: how a packet is filled with frames, step by step.
  \<^item> \<open>F64\<close>, \<open>Constrained_Types\<close>, \<open>Constrained_State\<close>, \<open>Constrained_Arq\<close>, \<open>Constrained_Connection\<close>,
    \<open>Constrained_Engine\<close>, \<open>Arq_Protocol\<close> (\<^verbatim>\<open>constrained\<close>): packet format, state machine, windows, connections and
    engine; reliable delivery over a network that loses, duplicates and reorders.

  \<^bold>\<open>Bounds and termination.\<close>  Loops of the source are structural recursion or functions with a termination
  measure; where the source has no evident bound the number of iterations is an argument, and the theorems about
  progress say how many suffice.  Invariants carry the bounds under which the 64-bit counters do not wrap: stream
  offsets and packet numbers below \<open>2 ^ 62\<close>, at most \<open>2 ^ 60\<close> streams of a kind, buffers below \<open>2 ^ 62\<close> bytes.

  \<^bold>\<open>Not modelled.\<close>  Packet protection, packet headers and TLS (calls into third-party cryptography), the receiving of
  packets and the handshake, floating point congestion controllers and pacing, sockets, Bluetooth, WebRTC and the asynchronous layers above a connection
  (\<^verbatim>\<open>high_level\<close>, \<^verbatim>\<open>nat_traversal_api.rs\<close>, \<^verbatim>\<open>p2p_endpoint.rs\<close>, \<^verbatim>\<open>masque\<close>), whose behaviour lies in tasks, locks,
  channels and time-outs of the tokio runtime; discovery of network interfaces; logging and statistics.
\<close>

end
